(* ===== verification/Crom_Prelude.thy ===== *)
theory Crom_Prelude
  imports Main "HOL-Library.Word"
begin

text \<open>
  Shared vocabulary of the development: the machine types of the Go sources, the error
  values of fallible functions, byte buffers (slices, \<open>copy\<close>, \<open>make\<close>), little-endian
  integers as \<^verbatim>\<open>encoding/binary\<close> writes them, sequential readers, and the locale of
  encode/decode pairs that the binary formats interpret.

  Conventions. A Go \<open>byte\<close>, \<open>uint16\<close>, \<open>uint32\<close>, \<open>uint64\<close> or \<open>int64\<close> is a word of that
  width, so arithmetic on it wraps. A Go \<open>int\<close> that counts bytes of a slice is a natural
  number: a slice never has \<open>2^63\<close> elements. A slice is the list of its elements, and its
  capacity is taken to be its length.
\<close>

unbundle bit_operations_syntax

type_synonym byte = "8 word"
type_synonym bytes = "byte list"
type_synonym u16 = "16 word"
type_synonym u32 = "32 word"
type_synonym u64 = "64 word"

named_theorems buffer_simps \<open>reading back what was written to a byte buffer\<close>
named_theorems wire_simps \<open>lengths and inverses of the integer encodings\<close>

section \<open>Errors\<close>

text \<open>
  A function that returns \<open>(T, error)\<close> returns \<open>Inl (GoErr msg)\<close> or \<open>Inr x\<close>; the message
  is the constant part of the source's format string. A run-time panic (an index out of
  range, a division by zero) is \<open>Inl GoPanic\<close>.
\<close>

datatype goerror = GoErr string | GoPanic

type_synonym 'a res = "goerror + 'a"

fun rbind :: "'a res \<Rightarrow> ('a \<Rightarrow> 'b res) \<Rightarrow> 'b res" where
  "rbind (Inl e) f = Inl e"
| "rbind (Inr x) f = f x"

text \<open>\<open>fmt.Errorf("prefix: %w", err)\<close>: an error is prefixed, a panic passes through.\<close>

fun wrap_err :: "string \<Rightarrow> 'a res \<Rightarrow> 'a res" where
  "wrap_err p (Inl (GoErr e)) = Inl (GoErr (p @ '': '' @ e))"
| "wrap_err p (Inl GoPanic) = Inl GoPanic"
| "wrap_err p (Inr x) = Inr x"

lemma rbind_cong [fundef_cong]:
  "m = m' \<Longrightarrow> (\<And>x. m' = Inr x \<Longrightarrow> f x = g x) \<Longrightarrow> rbind m f = rbind m' g"
  by (cases m') auto

lemma rbind_Inr_iff: "rbind m f = Inr y \<longleftrightarrow> (\<exists>x. m = Inr x \<and> f x = Inr y)"
  by (cases m) auto

lemma wrap_err_Inr_iff [simp]: "wrap_err p m = Inr x \<longleftrightarrow> m = Inr x"
  by (cases m rule: sum.exhaust) (auto elim: wrap_err.elims)

section \<open>Buffers\<close>

text \<open>\<open>xs[lo:hi]\<close> as a total function, and the checked slice expression of the language.\<close>

definition slice :: "'a list \<Rightarrow> nat \<Rightarrow> nat \<Rightarrow> 'a list" where
  "slice xs lo hi = take (hi - lo) (drop lo xs)"

definition gslice :: "'a list \<Rightarrow> nat \<Rightarrow> nat \<Rightarrow> 'a list res" where
  "gslice xs lo hi =
     (if lo \<le> hi \<and> hi \<le> length xs then Inr (slice xs lo hi) else Inl GoPanic)"

text \<open>Overwriting a part of a buffer, and \<open>copy(buf[lo:hi], src)\<close>.\<close>

definition put :: "'a list \<Rightarrow> nat \<Rightarrow> 'a list \<Rightarrow> 'a list" where
  "put buf off bs = take off buf @ bs @ drop (off + length bs) buf"

definition gcopy :: "'a list \<Rightarrow> nat \<Rightarrow> nat \<Rightarrow> 'a list \<Rightarrow> 'a list" where
  "gcopy buf lo hi src = put buf lo (take (hi - lo) src)"

definition zeros :: "nat \<Rightarrow> bytes" where
  "zeros n = replicate n 0"

lemma length_slice [buffer_simps]: "length (slice xs lo hi) = min (hi - lo) (length xs - lo)"
  by (simp add: slice_def)

lemma slice_full [simp]: "slice xs 0 (length xs) = xs"
  by (simp add: slice_def)

lemma slice_whole [simp]: "length xs \<le> hi \<Longrightarrow> slice xs 0 hi = xs"
  by (simp add: slice_def)

lemma slice_Cons: "0 < lo \<Longrightarrow> slice (x # xs) lo hi = slice xs (lo - 1) (hi - 1)"
  by (cases lo; cases hi) (simp_all add: slice_def)

lemma slice_append1: "hi \<le> length xs \<Longrightarrow> slice (xs @ ys) lo hi = slice xs lo hi"
  by (cases "lo \<le> hi") (auto simp: slice_def)

lemma slice_append2:
  "length xs \<le> lo \<Longrightarrow> slice (xs @ ys) lo hi = slice ys (lo - length xs) (hi - length xs)"
  by (simp add: slice_def)

lemmas slice_layout = slice_append1 slice_append2 slice_Cons

lemma slice_slice: "slice (slice xs a b) 0 n = slice xs a (min b (a + n))"
proof -
  have "min n (b - a) = min b (a + n) - a" by arith
  then show ?thesis by (simp add: slice_def)
qed

lemma slice_split: "lo \<le> mid \<Longrightarrow> mid \<le> hi \<Longrightarrow> slice xs lo mid @ slice xs mid hi = slice xs lo hi"
proof -
  assume a: "lo \<le> mid" "mid \<le> hi"
  have "slice xs lo hi = take ((mid - lo) + (hi - mid)) (drop lo xs)"
    using a by (simp add: slice_def)
  also have "\<dots> = take (mid - lo) (drop lo xs) @ take (hi - mid) (drop (mid - lo) (drop lo xs))"
    by (rule take_add)
  also have "\<dots> = slice xs lo mid @ slice xs mid hi"
    using a by (simp add: slice_def)
  finally show ?thesis ..
qed

lemma slice_empty [simp]: "hi \<le> lo \<Longrightarrow> slice xs lo hi = []"
  by (simp add: slice_def)

lemma gslice_ok: "lo \<le> hi \<Longrightarrow> hi \<le> length xs \<Longrightarrow> gslice xs lo hi = Inr (slice xs lo hi)"
  by (simp add: gslice_def)

lemma length_put [buffer_simps]:
  "off + length bs \<le> length buf \<Longrightarrow> length (put buf off bs) = length buf"
  by (simp add: put_def)

lemma slice_put_same [buffer_simps]:
  "off \<le> length buf \<Longrightarrow> hi = off + length bs \<Longrightarrow> slice (put buf off bs) off hi = bs"
  by (simp add: slice_def put_def)

lemma slice_put_before [buffer_simps]:
  "hi \<le> off \<Longrightarrow> off \<le> length buf \<Longrightarrow> slice (put buf off bs) lo hi = slice buf lo hi"
  by (cases "lo \<le> hi") (auto simp: slice_def put_def drop_take)

lemma slice_put_after [buffer_simps]:
  "off + length bs \<le> lo \<Longrightarrow> off \<le> length buf \<Longrightarrow> slice (put buf off bs) lo hi = slice buf lo hi"
proof -
  assume a: "off + length bs \<le> lo" "off \<le> length buf"
  then have "drop lo (put buf off bs) = drop lo buf"
    by (simp add: put_def min_def)
  then show ?thesis by (simp add: slice_def)
qed

lemma slice_zeros [buffer_simps]: "hi \<le> n \<Longrightarrow> slice (zeros n) lo hi = zeros (hi - lo)"
  by (simp add: slice_def zeros_def)

lemma length_zeros [buffer_simps, simp]: "length (zeros n) = n"
  by (simp add: zeros_def)

lemma nth_slice: "lo + i < hi \<Longrightarrow> hi \<le> length xs \<Longrightarrow> slice xs lo hi ! i = xs ! (lo + i)"
  by (simp add: slice_def)

lemma put_nth:
  "off + length bs \<le> length buf \<Longrightarrow> i < length buf \<Longrightarrow>
   put buf off bs ! i = (if off \<le> i \<and> i < off + length bs then bs ! (i - off) else buf ! i)"
  by (auto simp: put_def nth_append min_def not_less)

lemma zeros_nth [buffer_simps]: "i < n \<Longrightarrow> zeros n ! i = 0"
  by (simp add: zeros_def)

lemma slice_list_update [buffer_simps]:
  "i < lo \<or> hi \<le> i \<Longrightarrow> slice (buf[i := x]) lo hi = slice buf lo hi"
  by (cases "i < lo") (auto simp: slice_def drop_update_swap)

text \<open>The bytes of a string constant.\<close>

definition bytes_of_string :: "string \<Rightarrow> bytes" where
  "bytes_of_string s = map of_char s"

section \<open>Little-endian integers\<close>

text \<open>
  \<^verbatim>\<open>binary.LittleEndian.PutUintN\<close> and \<^verbatim>\<open>UintN\<close>: byte \<open>i\<close> of the encoding is
  \<open>byte(v >> (8*i))\<close>, and reading is \<open>b[0] | b[1]<<8 | ...\<close>.
\<close>

primrec le_bytes :: "nat \<Rightarrow> 'a::len word \<Rightarrow> bytes" where
  "le_bytes 0 w = []"
| "le_bytes (Suc n) w = ucast w # le_bytes n (drop_bit 8 w)"

primrec le_word :: "bytes \<Rightarrow> 'a::len word" where
  "le_word [] = 0"
| "le_word (b # bs) = ucast b OR push_bit 8 (le_word bs)"

definition put_uint16 :: "bytes \<Rightarrow> nat \<Rightarrow> u16 \<Rightarrow> bytes" where
  "put_uint16 buf off v = put buf off (le_bytes 2 v)"

definition put_uint32 :: "bytes \<Rightarrow> nat \<Rightarrow> u32 \<Rightarrow> bytes" where
  "put_uint32 buf off v = put buf off (le_bytes 4 v)"

definition put_uint64 :: "bytes \<Rightarrow> nat \<Rightarrow> u64 \<Rightarrow> bytes" where
  "put_uint64 buf off v = put buf off (le_bytes 8 v)"

definition get_uint16 :: "bytes \<Rightarrow> nat \<Rightarrow> u16" where
  "get_uint16 buf off = le_word (slice buf off (off + 2))"

definition get_uint32 :: "bytes \<Rightarrow> nat \<Rightarrow> u32" where
  "get_uint32 buf off = le_word (slice buf off (off + 4))"

definition get_uint64 :: "bytes \<Rightarrow> nat \<Rightarrow> u64" where
  "get_uint64 buf off = le_word (slice buf off (off + 8))"

lemmas put_uint_defs = put_uint16_def put_uint32_def put_uint64_def
lemmas get_uint_defs = get_uint16_def get_uint32_def get_uint64_def

lemma length_le_bytes [wire_simps, buffer_simps, simp]: "length (le_bytes n w) = n"
  by (induction n arbitrary: w) auto

lemma le_word_le_bytes_take: "le_word (le_bytes n (w :: 'a::len word)) = take_bit (8 * n) w"
proof (induction n arbitrary: w)
  case 0
  then show ?case by simp
next
  case (Suc n)
  show ?case
    by (rule bit_word_eqI) (auto simp: Suc bit_simps not_less)
qed

lemma le_word_le_bytes:
  "LENGTH('a) \<le> 8 * n \<Longrightarrow> le_word (le_bytes n (w :: 'a::len word)) = w"
  by (simp add: le_word_le_bytes_take take_bit_word_eq_self)

lemma le_bytes_le_word:
  "8 * length bs \<le> LENGTH('a) \<Longrightarrow> le_bytes (length bs) (le_word bs :: 'a::len word) = bs"
proof (induction bs)
  case Nil
  then show ?case by simp
next
  case (Cons b bs)
  let ?r = "le_word bs :: 'a word"
  have len: "8 \<le> LENGTH('a)" using Cons.prems by simp
  have lo: "ucast (ucast b OR push_bit 8 ?r) = b"
    using len by (intro bit_word_eqI) (auto simp: bit_simps)
  have bound: "\<not> bit ?r i" if "8 * length bs \<le> i" for i
    using that
  proof (induction bs arbitrary: i)
    case Nil
    then show ?case by simp
  next
    case (Cons c cs)
    then show ?case by (auto simp: bit_simps dest: bit_imp_le_length)
  qed
  have hi: "drop_bit 8 (ucast b OR push_bit 8 ?r) = ?r"
    using len Cons.prems bound
    by (intro bit_word_eqI) (auto simp: bit_simps not_less dest: bit_imp_le_length)
  show ?case using Cons lo hi by simp
qed

lemma le_word_bytes [wire_simps]:
  "le_word (le_bytes 2 (a :: u16)) = a"
  "le_word (le_bytes 4 (b :: u32)) = b"
  "le_word (le_bytes 8 (c :: u64)) = c"
  by (rule le_word_le_bytes, simp)+

lemma unat_drop_bit: "unat (drop_bit n (w :: 'a::len word)) = unat w div 2 ^ n"
  unfolding unat_drop_bit_eq by (rule drop_bit_eq_div)

lemma unat_lt: "unat (w :: 'a::len word) < 2 ^ LENGTH('a)"
  by (rule unsigned_less)

lemma unat_ucast_small:
  "unat (w :: 'a::len word) < 2 ^ LENGTH('b) \<Longrightarrow> unat (ucast w :: 'b::len word) = unat w"
  by (simp add: unsigned_ucast_eq unsigned_take_bit_eq take_bit_nat_eq_self)

lemma unat_of_nat_lt: "n < 2 ^ LENGTH('a) \<Longrightarrow> unat (of_nat n :: 'a::len word) = n"
  by (simp add: unat_of_nat take_bit_nat_eq_self)

section \<open>Sequential readers\<close>

text \<open>
  An \<open>io.Reader\<close> over bytes in memory is the list of bytes not yet read.
  \<open>io.ReadFull(r, buf)\<close> with \<open>len(buf) = n\<close> either consumes \<open>n\<close> bytes or fails with
  \<open>EOF\<close> (nothing was left) or \<open>ErrUnexpectedEOF\<close>.
\<close>

definition read_full :: "nat \<Rightarrow> bytes \<Rightarrow> (bytes \<times> bytes) res" where
  "read_full n s =
     (if n \<le> length s then Inr (take n s, drop n s)
      else if s = [] then Inl (GoErr ''EOF'')
      else Inl (GoErr ''unexpected EOF''))"

lemma read_full_append [simp]: "length xs = n \<Longrightarrow> read_full n (xs @ ys) = Inr (xs, ys)"
  by (auto simp: read_full_def)

lemma read_full_Inr:
  "read_full n s = Inr (xs, ys) \<Longrightarrow> s = xs @ ys \<and> length xs = n"
  by (auto simp: read_full_def split: if_splits)

lemma read_full_short: "length s < n \<Longrightarrow> \<exists>e. read_full n s = Inl (GoErr e)"
  by (auto simp: read_full_def)

section \<open>Encode/decode pairs\<close>

text \<open>
  The contract of a serialiser and its parser: on well-formed values the parser
  reverses the serialiser. Every binary format of the system interprets it.
\<close>

locale codec =
  fixes enc :: "'a \<Rightarrow> bytes"
    and dec :: "bytes \<Rightarrow> 'b res"
    and wf :: "'a \<Rightarrow> bool"
    and view :: "'a \<Rightarrow> 'b"
  assumes dec_enc: "wf x \<Longrightarrow> dec (enc x) = Inr (view x)"
begin

lemma enc_determines_view: "wf x \<Longrightarrow> wf y \<Longrightarrow> enc x = enc y \<Longrightarrow> view x = view y"
  using dec_enc [of x] dec_enc [of y] by simp

lemma enc_parses: "wf x \<Longrightarrow> \<exists>v. dec (enc x) = Inr v"
  using dec_enc by blast

end

end
