(* ===== verification/Varint.thy ===== *)
theory Varint
  imports Crom_Prelude
begin

text \<open>
  The variable-length integers of the chunk table (\<^verbatim>\<open>pkg/format/format.go\<close>):
  \<open>binary.AppendUvarint\<close> and \<open>binary.Uvarint\<close> of the Go standard library, and the
  repository's \<open>zigzag\<close>/\<open>unzigzag\<close>. The main results are that reading reverses writing
  whatever follows in the buffer, that an encoding has at most ten bytes (five for a
  32-bit value), and that \<open>zigzag\<close> is a bijection that reaches the largest 64-bit value
  at one point only.
\<close>

section \<open>Base-128 integers\<close>

text \<open>\<open>for x >= 0x80 { append(byte(x)|0x80); x >>= 7 }; append(byte(x))\<close>\<close>

function append_uvarint :: "u64 \<Rightarrow> bytes" where
  "append_uvarint x =
     (if 128 \<le> x then (ucast x OR 128) # append_uvarint (drop_bit 7 x) else [ucast x])"
  by pat_completeness auto
termination
proof (relation "measure unat")
  fix x :: u64
  assume "128 \<le> x"
  then have "128 \<le> unat x" by (simp add: word_le_nat_alt)
  then have "unat x div 128 < unat x" by simp
  then show "(drop_bit 7 x, x) \<in> measure unat"
    using unat_drop_bit [of 7 x] by simp
qed simp

declare append_uvarint.simps [simp del]

text \<open>
  \<open>binary.Uvarint\<close>: the loop over the buffer with index \<open>i\<close>, value \<open>x\<close> and shift \<open>s\<close>.
  The second component is the number of bytes read, \<open>0\<close> when the buffer is too short and
  negative on overflow.
\<close>

fun uvarint_loop :: "nat \<Rightarrow> u64 \<Rightarrow> nat \<Rightarrow> bytes \<Rightarrow> u64 \<times> int" where
  "uvarint_loop i x s [] = (0, 0)"
| "uvarint_loop i x s (b # bs) =
     (if i = 10 then (0, - (int i + 1))
      else if b < 128 then
        (if i = 9 \<and> 1 < b then (0, - (int i + 1))
         else (x OR push_bit s (ucast b), int i + 1))
      else uvarint_loop (i + 1) (x OR push_bit s (ucast (b AND 127))) (s + 7) bs)"

definition uvarint :: "bytes \<Rightarrow> u64 \<times> int" where
  "uvarint buf = uvarint_loop 0 0 0 buf"

lemma uvarint_low_byte:
  assumes "x < (128 :: u64)"
  shows "ucast (ucast x :: byte) = x" and "(ucast x :: byte) < 128"
proof -
  have u: "unat x < 128" using assms by (simp add: word_less_nat_alt)
  then have e: "unat (ucast x :: byte) = unat x" by (intro unat_ucast_small) simp
  have "unat (ucast (ucast x :: byte) :: u64) = unat (ucast x :: byte)"
    using u e by (intro unat_ucast_small) simp
  with e show "ucast (ucast x :: byte) = x" by (simp add: word_unat_eq_iff)
  from u e show "(ucast x :: byte) < 128" by (simp add: word_less_nat_alt)
qed

lemma uvarint_high_byte:
  "\<not> (ucast (x :: u64) OR 128 :: byte) < 128"
  "ucast ((ucast x OR 128 :: byte) AND 127) = take_bit 7 x"
proof -
  have "(128 :: byte) \<le> 128 OR ucast x" by (rule le_word_or2)
  then show "\<not> (ucast x OR 128 :: byte) < 128" by (simp add: or.commute)
  have m: "(127 :: byte) = mask 7" by (simp add: mask_eq_exp_minus_1)
  have "bit (2 ^ 7 :: byte) n \<longleftrightarrow> n = 7" for n unfolding bit_exp_iff by auto
  then have p: "bit (128 :: byte) n \<longleftrightarrow> n = 7" for n by simp
  have "(ucast x OR 128 :: byte) AND mask 7 = ucast x AND mask 7"
    by (rule bit_word_eqI) (auto simp only: bit_and_iff bit_or_iff bit_mask_iff p)
  then show "ucast ((ucast x OR 128 :: byte) AND 127) = take_bit 7 x"
    unfolding m by (intro bit_word_eqI) (auto simp: bit_simps)
qed

lemma push_bit_take_drop:
  "push_bit n (take_bit m w) OR push_bit (n + m) (drop_bit m w) = push_bit n (w :: 'a::len word)"
proof (rule bit_word_eqI)
  fix k
  assume "k < LENGTH('a)"
  moreover have "m + (k - (n + m)) = k - n" if "n + m \<le> k" using that by arith
  ultimately show "bit (push_bit n (take_bit m w) OR push_bit (n + m) (drop_bit m w)) k =
      bit (push_bit n w) k"
    by (cases "n + m \<le> k") (auto simp: bit_simps)
qed

lemma uvarint_loop_append:
  "unat y < 2 ^ (64 - 7 * i) \<Longrightarrow> i \<le> 9 \<Longrightarrow>
   uvarint_loop i acc (7 * i) (append_uvarint y @ rest) =
     (acc OR push_bit (7 * i) y, int (i + length (append_uvarint y)))"
proof (induction y arbitrary: i acc rule: append_uvarint.induct)
  case (1 y)
  show ?case
  proof (cases "128 \<le> y")
    case True
    then have y: "128 \<le> unat y" by (simp add: word_le_nat_alt)
    have i: "i \<le> 8"
    proof (rule ccontr)
      assume "\<not> i \<le> 8"
      with "1.prems" have "i = 9" by simp
      with "1.prems" y show False by simp
    qed
    have d: "unat (drop_bit 7 y) = unat y div 2 ^ 7" by (rule unat_drop_bit)
    have e: "64 - 7 * i = (64 - 7 * (i + 1)) + 7" using i by simp
    have "(2::nat) ^ (64 - 7 * i) = 2 ^ (64 - 7 * (i + 1)) * 2 ^ 7"
      by (subst e) (rule power_add)
    with "1.prems" have lt: "unat (drop_bit 7 y) < 2 ^ (64 - 7 * (i + 1))"
      unfolding d by (simp add: less_mult_imp_div_less)
    have s: "7 * i + 7 = 7 * (i + 1)" by simp
    have a: "append_uvarint y = (ucast y OR 128) # append_uvarint (drop_bit 7 y)"
      by (subst append_uvarint.simps) (simp only: True if_True)
    have i10: "(i = 10) = False" using i by simp
    have "uvarint_loop i acc (7 * i) (append_uvarint y @ rest) =
          uvarint_loop (i + 1) (acc OR push_bit (7 * i) (take_bit 7 y)) (7 * (i + 1))
            (append_uvarint (drop_bit 7 y) @ rest)"
      by (simp only: a append_Cons uvarint_loop.simps uvarint_high_byte s i10 if_False)
    also have "\<dots> = ((acc OR push_bit (7 * i) (take_bit 7 y)) OR push_bit (7 * (i + 1)) (drop_bit 7 y),
          int (i + 1 + length (append_uvarint (drop_bit 7 y))))"
      by (rule "1.IH" [OF True lt]) (use i in simp)
    also have "\<dots> = (acc OR push_bit (7 * i) y, int (i + length (append_uvarint y)))"
      by (simp only: a or.assoc push_bit_take_drop length_Cons flip: s) simp
    finally show ?thesis .
  next
    case False
    then have l: "y < 128" by simp
    have "\<not> (i = 9 \<and> 1 < (ucast y :: byte))"
    proof
      assume a: "i = 9 \<and> 1 < (ucast y :: byte)"
      have "unat (ucast y :: byte) = unat y"
        using l by (intro unat_ucast_small) (simp add: word_less_nat_alt)
      with a "1.prems" show False by (simp add: word_less_nat_alt)
    qed
    with False l "1.prems" show ?thesis
      by (auto simp: append_uvarint.simps [of y] uvarint_low_byte)
  qed
qed

lemma uvarint_append: "uvarint (append_uvarint x @ rest) = (x, int (length (append_uvarint x)))"
proof -
  have "unat x < 2 ^ (64 - 7 * 0)" using unat_lt [of x] by simp
  from uvarint_loop_append [OF this, of 0 rest] show ?thesis by (simp add: uvarint_def)
qed

lemma length_append_uvarint_pos: "0 < length (append_uvarint x)"
  by (subst append_uvarint.simps) simp

lemma length_append_uvarint_bound: "unat x < 2 ^ (7 * n) \<Longrightarrow> 0 < n \<Longrightarrow> length (append_uvarint x) \<le> n"
proof (induction x arbitrary: n rule: append_uvarint.induct)
  case (1 x)
  show ?case
  proof (cases "128 \<le> x")
    case True
    then have x: "128 \<le> unat x" by (simp add: word_le_nat_alt)
    with "1.prems" have "n \<noteq> 1" by auto
    with "1.prems" obtain m where m: "n = Suc m" "0 < m" by (cases n) auto
    have d: "unat (drop_bit 7 x) = unat x div 2 ^ 7" by (rule unat_drop_bit)
    have "unat (drop_bit 7 x) < 2 ^ (7 * m)"
      using "1.prems" m unfolding d by (simp add: less_mult_imp_div_less power_add mult.commute)
    from "1.IH" [OF True this m(2)] m True show ?thesis
      by (simp add: append_uvarint.simps [of x])
  qed (use "1.prems" in \<open>simp add: append_uvarint.simps [of x]\<close>)
qed

lemma length_append_uvarint64: "length (append_uvarint x) \<le> 10"
proof (rule length_append_uvarint_bound)
  have "unat x < 2 ^ 64" using unat_lt [of x] by simp
  also have "\<dots> \<le> (2::nat) ^ (7 * 10)" by simp
  finally show "unat x < 2 ^ (7 * 10)" .
qed simp

lemma length_append_uvarint32: "length (append_uvarint (ucast (w :: u32))) \<le> 5"
proof (rule length_append_uvarint_bound)
  have "unat (ucast w :: u64) = unat w"
    by (rule unat_ucast_small) (use unat_lt [of w] in simp)
  also have "\<dots> < 2 ^ 32" using unat_lt [of w] by simp
  also have "\<dots> \<le> (2::nat) ^ (7 * 5)" by simp
  finally show "unat (ucast w :: u64) < 2 ^ (7 * 5)" .
qed simp

section \<open>Zigzag\<close>

text \<open>\<open>uint64(v<<1) ^ uint64(v>>63)\<close> and \<open>int64(u>>1) ^ -int64(u&1)\<close>; \<open>int64\<close> and
  \<open>uint64\<close> have the same bits, and \<open>>>\<close> on \<open>int64\<close> is arithmetic.\<close>

definition zigzag :: "u64 \<Rightarrow> u64" where
  "zigzag v = push_bit 1 v XOR signed_drop_bit 63 v"

definition unzigzag :: "u64 \<Rightarrow> u64" where
  "unzigzag u = drop_bit 1 u XOR (- (u AND 1))"

lemma signed_drop_bit_63: "signed_drop_bit 63 (v :: u64) = (if bit v 63 then -1 else 0)"
proof (rule bit_word_eqI)
  fix n
  assume "n < LENGTH(64)"
  have "min 63 (63 + n) = (63 :: nat)" by simp
  then show "bit (signed_drop_bit 63 v) n = bit (if bit v 63 then -1 else 0 :: u64) n"
    using \<open>n < LENGTH(64)\<close> by (cases "n = 0") (auto simp: bit_simps)
qed

lemma zigzag_bit:
  "n < 64 \<Longrightarrow> bit (zigzag v) n \<longleftrightarrow> ((0 < n \<and> bit v (n - 1)) \<noteq> bit v 63)"
  unfolding zigzag_def signed_drop_bit_63 bit_xor_iff bit_push_bit_iff by auto

lemma unzigzag_zigzag: "unzigzag (zigzag v) = v"
proof (rule bit_word_eqI)
  fix n
  assume "n < LENGTH(64)"
  then have n: "n < 64" by simp
  have lsb: "zigzag v AND 1 = (if bit v 63 then 1 else 0)"
    using zigzag_bit [of 0 v] by (simp add: and_one_eq mod_2_eq_odd flip: bit_0)
  have top: "\<not> bit (zigzag v) 64"
    using bit_imp_le_length [of "zigzag v" 64] by auto
  show "bit (unzigzag (zigzag v)) n = bit v n"
    using n top zigzag_bit [of "Suc n" v]
    unfolding unzigzag_def lsb by (cases "n = 63") (auto simp: bit_simps)
qed

lemma zigzag_max_iff: "zigzag v = -1 \<longleftrightarrow> v = 2 ^ 63"
proof
  assume z: "zigzag v = -1"
  have "v = unzigzag (-1)" using unzigzag_zigzag [of v] z by simp
  also have "\<dots> = 2 ^ 63"
    by (simp add: unzigzag_def mask_eq_exp_minus_1)
  finally show "v = 2 ^ 63" .
next
  assume "v = 2 ^ 63"
  then show "zigzag v = -1" by (simp add: zigzag_def)
qed

end
