(* ===== verification/Format.thy ===== *)
theory Format
  imports Varint
begin

text \<open>
  The header half of \<^verbatim>\<open>pkg/format/format.go\<close>: the versioned header of a \<^verbatim>\<open>.crom\<close> file
  and the mutation records appended to it. A header is parsed by \<open>ParseHeader\<close> and written by
  \<open>Serialize\<close>; the record \<open>Header\<close> has the fields of the Go struct, with fixed-size
  arrays as lists whose lengths \<open>wf_header\<close> fixes.
\<close>

section \<open>Constants\<close>

definition MagicString :: bytes where "MagicString = bytes_of_string ''CROM''"
definition Version1 :: u16 where "Version1 = 1"
definition Version2 :: u16 where "Version2 = 2"
definition Version3 :: u16 where "Version3 = 3"
definition Version4 :: u16 where "Version4 = 4"
definition Version5 :: u16 where "Version5 = 5"
definition Version6 :: u16 where "Version6 = 6"
definition Version7 :: u16 where "Version7 = 7"
definition Version8 :: u16 where "Version8 = 8"
definition Version9 :: u16 where "Version9 = 9"
definition HeaderSize :: nat where "HeaderSize = 50"
definition HeaderSizeV2 :: nat where "HeaderSizeV2 = 68"
definition HeaderSizeV4 :: nat where "HeaderSizeV4 = 80"
definition HeaderSizeV5 :: nat where "HeaderSizeV5 = 112"
definition HeaderSizeV6 :: nat where "HeaderSizeV6 = 137"
definition HeaderSizeV8 :: nat where "HeaderSizeV8 = 141"
definition EntrySizeV6 :: u32 where "EntrySizeV6 = 24"
definition EntrySizeV7 :: u32 where "EntrySizeV7 = 25"
definition LiteralCodebookIndex :: byte where "LiteralCodebookIndex = 255"
definition FractalCodebookIndex :: byte where "FractalCodebookIndex = 253"
definition MaxMicroDictSize :: u32 where "MaxMicroDictSize = 32 * 1024 * 1024"
definition BlockSize :: nat where "BlockSize = 16 * 1024 * 1024"
definition FlagIsPatch :: u64 where "FlagIsPatch = push_bit 60 1"
definition LiteralCodebookID :: u64 where "LiteralCodebookID = NOT 0"
definition V9MutationHeaderSize :: nat where "V9MutationHeaderSize = 16"

lemmas version_defs = Version1_def Version2_def Version3_def Version4_def Version5_def
  Version6_def Version7_def Version8_def Version9_def
lemmas header_size_defs = HeaderSize_def HeaderSizeV2_def HeaderSizeV4_def HeaderSizeV5_def
  HeaderSizeV6_def HeaderSizeV8_def

section \<open>Mutation records\<close>

record V9MutationHeader =
  mMagic :: bytes
  mTimestamp :: u64
  mDiffPatchSize :: u32

definition V9MutationHeader_Bytes :: "V9MutationHeader \<Rightarrow> bytes" where
  "V9MutationHeader_Bytes v =
     (let buf = zeros V9MutationHeaderSize;
          buf = gcopy buf 0 4 (mMagic v);
          buf = put_uint64 buf 4 (mTimestamp v);
          buf = put_uint32 buf 12 (mDiffPatchSize v)
      in buf)"

definition ParseV9MutationHeader :: "bytes \<Rightarrow> V9MutationHeader res" where
  "ParseV9MutationHeader data =
     (if length data < V9MutationHeaderSize then Inl (GoErr ''format: mutation header too small'')
      else if slice data 0 4 \<noteq> bytes_of_string ''CMUT''
      then Inl (GoErr ''format: invalid mutation magic'')
      else Inr \<lparr>mMagic = slice data 0 4, mTimestamp = get_uint64 data 4,
                mDiffPatchSize = get_uint32 data 12\<rparr>)"

section \<open>The header\<close>

record Header =
  Version :: u16
  IsEncrypted :: bool
  IsPassthrough :: bool
  IsConvergentEncrypted :: bool
  IsLossy :: bool
  UsesBrainDict :: bool
  CompressedTable :: bool
  TableBytes :: nat
  Salt :: bytes
  OriginalHash :: bytes
  OriginalSize :: u64
  ChunkCount :: u32
  ChunkSize :: u32
  CodebookHash :: bytes
  CodebookHashes :: "bytes list"
  MerkleRoot :: bytes
  MicroDictSize :: u32
  MicroDictionaryData :: bytes
  Mutations :: "V9MutationHeader list"

text \<open>\<open>&Header{}\<close>\<close>

definition zero_header :: Header where
  "zero_header =
     \<lparr>Version = 0, IsEncrypted = False, IsPassthrough = False, IsConvergentEncrypted = False,
      IsLossy = False, UsesBrainDict = False, CompressedTable = False, TableBytes = 0,
      Salt = zeros 16, OriginalHash = zeros 32, OriginalSize = 0, ChunkCount = 0, ChunkSize = 0,
      CodebookHash = zeros 8, CodebookHashes = [zeros 8, zeros 8, zeros 8], MerkleRoot = zeros 32,
      MicroDictSize = 0, MicroDictionaryData = [], Mutations = []\<rparr>"

text \<open>The chain of conditions that gives the fixed size of a V2+ header.\<close>

definition header_min_size :: "u16 \<Rightarrow> nat" where
  "header_min_size v =
     (if v = Version4 then HeaderSizeV4
      else if v = Version5 then HeaderSizeV5
      else if v = Version6 \<or> v = Version7 then HeaderSizeV6
      else if v = Version8 \<or> v = Version9 then HeaderSizeV8
      else HeaderSizeV2)"

text \<open>
  The body of the V2 to V9 branch of \<open>ParseHeader\<close>, after its length check: the fields at
  fixed offsets, then the micro-dictionary of V8 and V9.
\<close>

definition parse_header_fields :: "bytes \<Rightarrow> u16 \<Rightarrow> Header" where
  "parse_header_fields data v =
     (let h = zero_header\<lparr>Version := v, IsEncrypted := (data ! 6 = 1)\<rparr>;
          h = (if Version3 \<le> v
               then h\<lparr>IsPassthrough := (data ! 7 AND 1 \<noteq> 0), IsLossy := (data ! 7 AND 2 \<noteq> 0),
                      UsesBrainDict := (data ! 7 AND 4 \<noteq> 0), CompressedTable := (data ! 7 AND 8 \<noteq> 0)\<rparr>
               else h);
          h = h\<lparr>Salt := slice data 8 24, OriginalHash := slice data 24 56,
                OriginalSize := get_uint64 data 56, ChunkCount := get_uint32 data 64\<rparr>;
          h = (if Version4 \<le> v
               then h\<lparr>ChunkSize := get_uint32 data 68, CodebookHash := slice data 72 80\<rparr> else h);
          h = (if Version5 \<le> v then h\<lparr>MerkleRoot := slice data 80 112\<rparr> else h);
          h = (if Version6 \<le> v
               then h\<lparr>IsConvergentEncrypted := (data ! 112 = 1),
                      CodebookHashes := [slice data 113 121, slice data 121 129, slice data 129 137],
                      CodebookHash := slice data 113 121\<rparr>
               else h)
      in h)"

definition parse_header_v2 :: "bytes \<Rightarrow> u16 \<Rightarrow> Header res" where
  "parse_header_v2 data v =
     (let h = parse_header_fields data v
      in if Version8 \<le> v then
           (let size = get_uint32 data 137; h = h\<lparr>MicroDictSize := size\<rparr>
            in if MaxMicroDictSize < size
               then Inl (GoErr ''format: v8 micro-dict size exceeds safety cap (OOM defense)'')
               else if 0 < size then
                 (if length data < HeaderSizeV8 + unat size
                  then Inl (GoErr ''format: header too small for v8 micro-dict payload'')
                  else Inr (h\<lparr>MicroDictionaryData := slice data 141 (141 + unat size)\<rparr>))
               else Inr h)
         else Inr h)"

definition ParseHeader :: "bytes \<Rightarrow> Header res" where
  "ParseHeader data =
     (if length data < HeaderSize then Inl (GoErr ''format: header too small'')
      else if slice data 0 4 \<noteq> MagicString then Inl (GoErr ''format: invalid magic'')
      else
        (let v = get_uint16 data 4 in
         if v = Version1 then
           Inr (zero_header\<lparr>Version := v, OriginalHash := slice data 6 38,
                            OriginalSize := get_uint64 data 38, ChunkCount := get_uint32 data 46\<rparr>)
         else if Version2 \<le> v \<and> v \<le> Version9 then
           (if length data < header_min_size v then Inl (GoErr ''format: header too small for version'')
            else parse_header_v2 data v)
         else Inl (GoErr ''format: unsupported version'')))"

text \<open>
  \<open>Serialize\<close> has a side effect on its receiver: a version outside V1 to V8 becomes V8.
  The model returns the bytes together with the header as the call leaves it.
\<close>

definition serialize_version :: "Header \<Rightarrow> Header" where
  "serialize_version h =
     (if Version h = Version1 then h
      else if Version h < Version2 \<or> Version8 < Version h then h\<lparr>Version := Version8\<rparr>
      else h)"

definition serialize_v1 :: "Header \<Rightarrow> bytes" where
  "serialize_v1 h =
     (let buf = zeros HeaderSize;
          buf = gcopy buf 0 4 MagicString;
          buf = put_uint16 buf 4 (Version h);
          buf = gcopy buf 6 38 (OriginalHash h);
          buf = put_uint64 buf 38 (OriginalSize h);
          buf = put_uint32 buf 46 (ChunkCount h)
      in buf)"

definition set_byte_if :: "bool \<Rightarrow> nat \<Rightarrow> byte \<Rightarrow> bytes \<Rightarrow> bytes" where
  "set_byte_if c i x buf = (if c then buf[i := x] else buf)"

definition put_flags :: "Header \<Rightarrow> bytes \<Rightarrow> bytes" where
  "put_flags h buf =
     (let buf = set_byte_if (IsEncrypted h) 6 1 buf;
          buf = (if IsPassthrough h then buf[7 := buf ! 7 OR 1] else buf);
          buf = (if IsLossy h then buf[7 := buf ! 7 OR 2] else buf);
          buf = (if UsesBrainDict h then buf[7 := buf ! 7 OR 4] else buf);
          buf = (if CompressedTable h then buf[7 := buf ! 7 OR 8] else buf)
      in buf)"

definition serialize_v2 :: "Header \<Rightarrow> bytes" where
  "serialize_v2 h =
     (let size = (if Version8 \<le> Version h then HeaderSizeV8 + unat (MicroDictSize h)
                  else header_min_size (Version h));
          buf = zeros size;
          buf = gcopy buf 0 4 MagicString;
          buf = put_uint16 buf 4 (Version h);
          buf = put_flags h buf;
          buf = gcopy buf 8 24 (Salt h);
          buf = gcopy buf 24 56 (OriginalHash h);
          buf = put_uint64 buf 56 (OriginalSize h);
          buf = put_uint32 buf 64 (ChunkCount h);
          buf = (if Version4 \<le> Version h
                 then (let b = put_uint32 buf 68 (ChunkSize h) in
                       if Version6 \<le> Version h then gcopy b 72 80 (CodebookHashes h ! 0)
                       else gcopy b 72 80 (CodebookHash h))
                 else buf);
          buf = (if Version5 \<le> Version h then gcopy buf 80 112 (MerkleRoot h) else buf);
          buf = (if Version6 \<le> Version h
                 then (let b = set_byte_if (IsConvergentEncrypted h) 112 1 buf;
                           b = gcopy b 113 121 (CodebookHashes h ! 0);
                           b = gcopy b 121 129 (CodebookHashes h ! 1);
                           b = gcopy b 129 137 (CodebookHashes h ! 2) in b)
                 else buf);
          buf = (if Version8 \<le> Version h
                 then (let b = put_uint32 buf 137 (MicroDictSize h) in
                       if 0 < MicroDictSize h
                       then gcopy b 141 (141 + unat (MicroDictSize h)) (MicroDictionaryData h)
                       else b)
                 else buf)
      in buf)"

definition Serialize :: "Header \<Rightarrow> bytes \<times> Header" where
  "Serialize h =
     (if Version h = Version1 then (serialize_v1 h, h)
      else let h' = serialize_version h in (serialize_v2 h', h'))"

section \<open>Header round trip\<close>

definition wf_header :: "Header \<Rightarrow> bool" where
  "wf_header h \<longleftrightarrow>
     length (Salt h) = 16 \<and> length (OriginalHash h) = 32 \<and> length (CodebookHash h) = 8 \<and>
     length (CodebookHashes h) = 3 \<and> (\<forall>c \<in> set (CodebookHashes h). length c = 8) \<and>
     length (MerkleRoot h) = 32 \<and> MicroDictSize h \<le> MaxMicroDictSize \<and>
     length (MicroDictionaryData h) = unat (MicroDictSize h)"

text \<open>What a version stores of a header: every other field reads back as its zero value.\<close>

definition stored_header :: "Header \<Rightarrow> Header" where
  "stored_header h =
     (let v = Version (serialize_version h) in
      if v = Version1 then
        zero_header\<lparr>Version := v, OriginalHash := OriginalHash h, OriginalSize := OriginalSize h,
                    ChunkCount := ChunkCount h\<rparr>
      else
        zero_header\<lparr>Version := v, IsEncrypted := IsEncrypted h,
          IsPassthrough := (Version3 \<le> v \<and> IsPassthrough h), IsLossy := (Version3 \<le> v \<and> IsLossy h),
          UsesBrainDict := (Version3 \<le> v \<and> UsesBrainDict h),
          CompressedTable := (Version3 \<le> v \<and> CompressedTable h),
          Salt := Salt h, OriginalHash := OriginalHash h, OriginalSize := OriginalSize h,
          ChunkCount := ChunkCount h,
          ChunkSize := (if Version4 \<le> v then ChunkSize h else 0),
          CodebookHash := (if Version6 \<le> v then CodebookHashes h ! 0
                           else if Version4 \<le> v then CodebookHash h else zeros 8),
          MerkleRoot := (if Version5 \<le> v then MerkleRoot h else zeros 32),
          IsConvergentEncrypted := (Version6 \<le> v \<and> IsConvergentEncrypted h),
          CodebookHashes := (if Version6 \<le> v then CodebookHashes h else [zeros 8, zeros 8, zeros 8]),
          MicroDictSize := (if Version8 \<le> v then MicroDictSize h else 0),
          MicroDictionaryData := (if Version8 \<le> v then MicroDictionaryData h else [])\<rparr>)"

text \<open>
  The writes of \<open>Serialize\<close> fill the buffer from left to right: \<open>buf_at A m\<close> is a buffer
  whose first bytes are \<open>A\<close> and whose last \<open>m\<close> bytes are still zero.
\<close>

definition buf_at :: "bytes \<Rightarrow> nat \<Rightarrow> bytes" where
  "buf_at done m = done @ zeros m"

lemma put_buf_at:
  "off = length A \<Longrightarrow> length bs \<le> m \<Longrightarrow> put (buf_at A m) off bs = buf_at (A @ bs) (m - length bs)"
  by (simp add: put_def buf_at_def zeros_def)

lemma buf_at_start: "zeros n = buf_at [] n"
  by (simp add: buf_at_def)

lemma buf_at_end: "buf_at A 0 = A"
  by (simp add: buf_at_def zeros_def)

definition flag_byte :: "Header \<Rightarrow> byte" where
  "flag_byte h =
     (if IsPassthrough h then 1 else 0) OR (if IsLossy h then 2 else 0) OR
     (if UsesBrainDict h then 4 else 0) OR (if CompressedTable h then 8 else 0)"

lemma flag_byte_bits:
  "(flag_byte h AND 1 \<noteq> 0) = IsPassthrough h" "(flag_byte h AND 2 \<noteq> 0) = IsLossy h"
  "(flag_byte h AND 4 \<noteq> 0) = UsesBrainDict h" "(flag_byte h AND 8 \<noteq> 0) = CompressedTable h"
  by (cases "IsPassthrough h"; cases "IsLossy h"; cases "UsesBrainDict h";
      cases "CompressedTable h"; simp add: flag_byte_def)+

lemma put_flags_buf_at:
  assumes "length A = 6" "2 \<le> m"
  shows "put_flags h (buf_at A m) = buf_at (A @ [of_bool (IsEncrypted h), flag_byte h]) (m - 2)"
proof -
  obtain k where m: "m = Suc (Suc k)" using assms(2) by (metis add_2_eq_Suc le_Suc_ex)
  have z: "buf_at A m = A @ 0 # 0 # zeros k" by (simp add: buf_at_def m zeros_def)
  show ?thesis
    unfolding put_flags_def z using assms(1) m
    by (cases "IsEncrypted h"; cases "IsPassthrough h"; cases "IsLossy h"; cases "UsesBrainDict h";
        cases "CompressedTable h";
        simp add: buf_at_def flag_byte_def set_byte_if_def Let_def nth_append list_update_append)
qed

text \<open>The documented layout of a V2 to V8 header, field after field.\<close>

definition header_layout :: "Header \<Rightarrow> bytes" where
  "header_layout h =
     MagicString @ le_bytes 2 (Version h) @ [of_bool (IsEncrypted h), flag_byte h] @ Salt h @
     OriginalHash h @ le_bytes 8 (OriginalSize h) @ le_bytes 4 (ChunkCount h) @
     (if Version4 \<le> Version h
      then le_bytes 4 (ChunkSize h) @ (if Version6 \<le> Version h then CodebookHashes h ! 0 else CodebookHash h)
      else []) @
     (if Version5 \<le> Version h then MerkleRoot h else []) @
     (if Version6 \<le> Version h
      then [of_bool (IsConvergentEncrypted h)] @ CodebookHashes h ! 0 @ CodebookHashes h ! 1 @ CodebookHashes h ! 2
      else []) @
     (if Version8 \<le> Version h then le_bytes 4 (MicroDictSize h) @ MicroDictionaryData h else [])"

lemma length_MagicString [simp]: "length MagicString = 4"
  by (simp add: MagicString_def bytes_of_string_def)

lemma version_cases:
  assumes "Version2 \<le> v" "v \<le> Version8"
  shows "v = 2 \<or> v = 3 \<or> v = 4 \<or> v = 5 \<or> v = 6 \<or> v = 7 \<or> v = (8 :: u16)"
proof -
  have "2 \<le> unat v" "unat v \<le> 8" using assms by (simp_all add: version_defs word_le_nat_alt)
  then have "unat v \<in> {2,3,4,5,6,7,8}" by auto
  then show ?thesis by (auto simp: word_unat_eq_iff)
qed

lemma list_update_buf_at:
  "i = length A \<Longrightarrow> 0 < m \<Longrightarrow> (buf_at A m)[i := x] = buf_at (A @ [x]) (m - 1)"
  by (cases m) (auto simp: buf_at_def zeros_def)

lemma set_byte_if_buf_at:
  "i = length A \<Longrightarrow> 0 < m \<Longrightarrow> set_byte_if b i 1 (buf_at A m) = buf_at (A @ [of_bool b]) (m - 1)"
  by (cases m) (auto simp: set_byte_if_def buf_at_def zeros_def)

lemma serialize_v2_layout:
  assumes wf: "wf_header h" and v: "Version2 \<le> Version h" "Version h \<le> Version8"
  shows "serialize_v2 h = header_layout h"
proof -
  have hs: "length (CodebookHashes h ! 0) = 8" "length (CodebookHashes h ! Suc 0) = 8" "length (CodebookHashes h ! 2) = 8"
    using wf by (auto simp: wf_header_def)
  have z: "MicroDictSize h = 0 \<longrightarrow> MicroDictionaryData h = []" using wf by (auto simp: wf_header_def)
  show ?thesis
    using version_cases [OF v] wf hs z unfolding serialize_v2_def buf_at_start
    by (elim disjE)
      (simp_all add: header_layout_def version_defs header_size_defs header_min_size_def wf_header_def gcopy_def put_uint_defs
     put_buf_at put_flags_buf_at set_byte_if_buf_at Let_def buf_at_end word_gt_0)
qed

definition layout_base :: "Header \<Rightarrow> bytes" where
  "layout_base h =
     MagicString @ le_bytes 2 (Version h) @ [of_bool (IsEncrypted h), flag_byte h] @ Salt h @
     OriginalHash h @ le_bytes 8 (OriginalSize h) @ le_bytes 4 (ChunkCount h)"

lemma layout_base_fields:
  assumes "wf_header h"
  shows "length (layout_base h) = 68" "slice (layout_base h) 0 4 = MagicString"
    "slice (layout_base h) 4 6 = le_bytes 2 (Version h)"
    "layout_base h ! 6 = of_bool (IsEncrypted h)" "layout_base h ! 7 = flag_byte h"
    "slice (layout_base h) 8 24 = Salt h" "slice (layout_base h) 24 56 = OriginalHash h"
    "slice (layout_base h) 56 64 = le_bytes 8 (OriginalSize h)"
    "slice (layout_base h) 64 68 = le_bytes 4 (ChunkCount h)"
  using assms unfolding wf_header_def
  by (simp_all add: layout_base_def slice_layout nth_append)

lemma header_layout_base:
  "header_layout h = layout_base h @
     (if Version4 \<le> Version h
      then le_bytes 4 (ChunkSize h) @ (if Version6 \<le> Version h then CodebookHashes h ! 0 else CodebookHash h)
      else []) @
     (if Version5 \<le> Version h then MerkleRoot h else []) @
     (if Version6 \<le> Version h
      then [of_bool (IsConvergentEncrypted h)] @ CodebookHashes h ! 0 @ CodebookHashes h ! 1 @ CodebookHashes h ! 2
      else []) @
     (if Version8 \<le> Version h then le_bytes 4 (MicroDictSize h) @ MicroDictionaryData h else [])"
  by (simp add: header_layout_def layout_base_def)

lemma parse_header_layout:
  assumes wf: "wf_header h" and v: "Version2 \<le> Version h" "Version h \<le> Version8"
  shows "ParseHeader (header_layout h) = Inr (stored_header h)"
proof -
  obtain c0 c1 c2 where c: "CodebookHashes h = [c0, c1, c2]"
    using wf by (auto simp: wf_header_def numeral_3_eq_3 length_Suc_conv)
  note base = layout_base_fields [OF wf]
  have m: "\<not> MaxMicroDictSize < MicroDictSize h"
    and z: "MicroDictSize h = 0 \<longrightarrow> MicroDictionaryData h = []"
    using wf by (auto simp: wf_header_def)
  show ?thesis
    using version_cases [OF v] wf c m z unfolding wf_header_def
    by (elim disjE)
      (simp_all add: header_layout_base base ParseHeader_def parse_header_v2_def parse_header_fields_def stored_header_def serialize_version_def
      version_defs header_size_defs header_min_size_def get_uint_defs Let_def slice_layout
      wire_simps flag_byte_bits nth_append word_gt_0 zero_header_def)
qed

lemma serialize_v1_layout:
  "wf_header h \<Longrightarrow> serialize_v1 h =
     MagicString @ le_bytes 2 (Version h) @ OriginalHash h @ le_bytes 8 (OriginalSize h) @
     le_bytes 4 (ChunkCount h)"
  unfolding serialize_v1_def buf_at_start
  by (simp add: header_size_defs wf_header_def gcopy_def put_uint_defs put_buf_at Let_def buf_at_end)

lemma parse_header_v1:
  "wf_header h \<Longrightarrow> Version h = Version1 \<Longrightarrow> ParseHeader (serialize_v1 h) = Inr (stored_header h)"
  by (simp add: serialize_v1_layout ParseHeader_def stored_header_def serialize_version_def
      header_size_defs wf_header_def get_uint_defs Let_def slice_layout wire_simps)

lemma serialize_version_range:
  "Version h \<noteq> Version1 \<Longrightarrow>
   Version2 \<le> Version (serialize_version h) \<and> Version (serialize_version h) \<le> Version8"
  by (auto simp: serialize_version_def version_defs not_less)

lemma wf_serialize_version [simp]: "wf_header (serialize_version h) = wf_header h"
  by (simp add: serialize_version_def wf_header_def)

lemma stored_serialize_version [simp]: "stored_header (serialize_version h) = stored_header h"
  by (auto simp: stored_header_def serialize_version_def version_defs Let_def)

lemma ParseHeader_Serialize: "wf_header h \<Longrightarrow> ParseHeader (fst (Serialize h)) = Inr (stored_header h)"
proof (cases "Version h = Version1")
  case True
  then show "wf_header h \<Longrightarrow> ?thesis" by (simp add: Serialize_def parse_header_v1)
next
  case False
  assume "wf_header h"
  then have wf: "wf_header (serialize_version h)" by simp
  from False have r: "Version2 \<le> Version (serialize_version h)" "Version (serialize_version h) \<le> Version8"
    by (simp_all add: serialize_version_range)
  show ?thesis
    using False parse_header_layout [OF wf r] serialize_v2_layout [OF wf r]
    by (simp add: Serialize_def Let_def)
qed

text \<open>The header format is a codec on well-formed headers.\<close>

interpretation header_codec: codec "\<lambda>h. fst (Serialize h)" ParseHeader wf_header stored_header
  by unfold_locales (rule ParseHeader_Serialize)

section \<open>Type invariant of the parser\<close>

lemma length_slice_eq: "hi \<le> length xs \<Longrightarrow> length (slice xs lo hi) = hi - lo"
  by (simp add: length_slice)

lemma wf_zero_header [simp]: "wf_header (zero_header\<lparr>Version := v\<rparr>)"
  by (simp add: wf_header_def zero_header_def)

lemma version_cases9:
  assumes "Version2 \<le> v" "v \<le> Version9"
  shows "v = 2 \<or> v = 3 \<or> v = 4 \<or> v = 5 \<or> v = 6 \<or> v = 7 \<or> v = 8 \<or> v = (9 :: u16)"
proof -
  have "2 \<le> unat v" "unat v \<le> 9" using assms by (simp_all add: version_defs word_le_nat_alt)
  then have "unat v \<in> {2,3,4,5,6,7,8,9}" by auto
  then show ?thesis by (auto simp: word_unat_eq_iff)
qed

lemma parse_header_fields_wf:
  assumes v: "Version2 \<le> v" "v \<le> Version9" and len: "header_min_size v \<le> length data"
  shows "wf_header (parse_header_fields data v)" "Version (parse_header_fields data v) = v"
    "MicroDictSize (parse_header_fields data v) = 0"
  using version_cases9 [OF v] len
  by (elim disjE; simp add: parse_header_fields_def version_defs header_min_size_def header_size_defs
      wf_header_def zero_header_def length_slice_eq)+

lemma wf_header_micro:
  assumes "wf_header h" "MicroDictSize h = 0"
  shows "wf_header (h\<lparr>MicroDictSize := 0\<rparr>)"
    "\<not> MaxMicroDictSize < sz \<Longrightarrow> length m = unat sz \<Longrightarrow>
     wf_header (h\<lparr>MicroDictSize := sz, MicroDictionaryData := m\<rparr>)"
  using assms by (simp_all add: wf_header_def)

lemma parse_header_v2_cases:
  assumes p: "parse_header_v2 data v = Inr h"
  obtains (old) "\<not> Version8 \<le> v" "h = parse_header_fields data v"
  | (empty) "Version8 \<le> v" "h = (parse_header_fields data v)\<lparr>MicroDictSize := 0\<rparr>"
  | (micro) sz where "Version8 \<le> v" "\<not> MaxMicroDictSize < sz" "HeaderSizeV8 + unat sz \<le> length data"
      "h = (parse_header_fields data v)\<lparr>MicroDictSize := sz,
             MicroDictionaryData := slice data 141 (141 + unat sz)\<rparr>"
proof -
  let ?sz = "get_uint32 data 137"
  consider "\<not> Version8 \<le> v" | "Version8 \<le> v" "?sz = 0" | "Version8 \<le> v" "0 < ?sz"
    by (auto simp: word_gt_0)
  then show thesis
  proof cases
    case 1
    with p show ?thesis by (intro old) (simp_all add: parse_header_v2_def Let_def)
  next
    case 2
    with p show ?thesis by (intro empty) (simp_all add: parse_header_v2_def Let_def)
  next
    case 3
    with p show ?thesis
      by (intro micro [of ?sz]) (simp_all add: parse_header_v2_def Let_def not_less split: if_split_asm)
  qed
qed

lemma parse_header_v2_wf:
  assumes p: "parse_header_v2 data v = Inr h" and v: "Version2 \<le> v" "v \<le> Version9"
    and len: "header_min_size v \<le> length data"
  shows "wf_header h \<and> Version h = v"
  using p
proof (cases rule: parse_header_v2_cases)
  case old
  with parse_header_fields_wf [OF v len] show ?thesis by simp
next
  case empty
  with parse_header_fields_wf [OF v len] show ?thesis by (simp add: wf_header_micro)
next
  case micro
  with parse_header_fields_wf [OF v len] show ?thesis
    by (simp add: wf_header_micro length_slice_eq HeaderSizeV8_def)
qed

lemma ParseHeader_wf: "ParseHeader data = Inr h \<Longrightarrow> wf_header h"
  by (auto simp: ParseHeader_def Let_def wf_header_def zero_header_def length_slice_eq
      header_size_defs not_less dest!: parse_header_v2_wf split: if_splits)

section \<open>Mutation record round trip\<close>

definition wf_mutation :: "V9MutationHeader \<Rightarrow> bool" where
  "wf_mutation m \<longleftrightarrow> mMagic m = bytes_of_string ''CMUT''"

lemma mutation_layout:
  "length (mMagic m) = 4 \<Longrightarrow> V9MutationHeader_Bytes m =
     mMagic m @ le_bytes 8 (mTimestamp m) @ le_bytes 4 (mDiffPatchSize m)"
  unfolding V9MutationHeader_Bytes_def buf_at_start
  by (simp add: V9MutationHeaderSize_def gcopy_def put_uint_defs put_buf_at Let_def buf_at_end)

lemma ParseV9MutationHeader_Bytes:
  "wf_mutation m \<Longrightarrow> ParseV9MutationHeader (V9MutationHeader_Bytes m @ rest) = Inr m"
proof -
  assume wf: "wf_mutation m"
  then have l: "length (mMagic m) = 4" by (simp add: wf_mutation_def bytes_of_string_def)
  show ?thesis
    using wf l by (simp add: wf_mutation_def mutation_layout ParseV9MutationHeader_def
        V9MutationHeaderSize_def get_uint_defs slice_layout wire_simps)
qed

interpretation mutation_codec: codec V9MutationHeader_Bytes ParseV9MutationHeader wf_mutation "\<lambda>m. m"
  by unfold_locales (use ParseV9MutationHeader_Bytes [where rest = "[]"] in simp)

section \<open>Reparsing\<close>

text \<open>A parsed header of a version that \<open>Serialize\<close> writes stores all it holds.\<close>

lemma parse_header_fields_stored:
  assumes v: "Version2 \<le> v" "v \<le> Version8"
  shows "stored_header (parse_header_fields data v) = parse_header_fields data v"
  using version_cases [OF v]
  by (elim disjE; simp add: parse_header_fields_def version_defs stored_header_def
      serialize_version_def zero_header_def Let_def)

lemma stored_header_micro:
  assumes "stored_header h = h" "Version8 \<le> Version h" "Version h \<le> Version8"
  shows "stored_header (h\<lparr>MicroDictSize := s, MicroDictionaryData := m\<rparr>) =
           h\<lparr>MicroDictSize := s, MicroDictionaryData := m\<rparr>"
    "stored_header (h\<lparr>MicroDictSize := s\<rparr>) = h\<lparr>MicroDictSize := s\<rparr>"
  using assms
  by (cases h; simp add: stored_header_def serialize_version_def zero_header_def version_defs Let_def)+

lemma parse_header_v2_stored:
  assumes p: "parse_header_v2 data v = Inr h" and v: "Version2 \<le> v" "v \<le> Version8"
    and len: "header_min_size v \<le> length data"
  shows "stored_header h = h"
proof -
  have v9: "v \<le> Version9" using v(2) by (simp add: version_defs word_le_nat_alt)
  note f = parse_header_fields_stored [OF v, of data] parse_header_fields_wf(2) [OF v(1) v9 len] v(2)
  from p show ?thesis
    by (cases rule: parse_header_v2_cases) (simp_all add: f stored_header_micro)
qed

lemma version8_or_9: "v \<le> Version9 \<Longrightarrow> v \<noteq> Version9 \<Longrightarrow> v \<le> Version8"
  by (simp add: version_defs word_le_nat_alt word_unat_eq_iff)

lemma ParseHeader_stored:
  assumes p: "ParseHeader data = Inr h" and v: "Version h \<noteq> Version9"
  shows "stored_header h = h"
proof (cases "get_uint16 data 4 = Version1")
  case True
  with p have "h = zero_header\<lparr>Version := Version1, OriginalHash := slice data 6 38,
      OriginalSize := get_uint64 data 38, ChunkCount := get_uint32 data 46\<rparr>"
    by (simp add: ParseHeader_def Let_def split: if_split_asm)
  then show ?thesis by (simp add: stored_header_def serialize_version_def Let_def)
next
  case False
  let ?v = "get_uint16 data 4"
  from p False have h: "parse_header_v2 data ?v = Inr h" "Version2 \<le> ?v" "?v \<le> Version9"
    "header_min_size ?v \<le> length data"
    by (auto simp: ParseHeader_def Let_def split: if_splits)
  from parse_header_v2_wf [OF h] v have "?v \<noteq> Version9" by simp
  with h show ?thesis by (intro parse_header_v2_stored [OF h(1,2)]) (simp_all add: version8_or_9)
qed

section \<open>Properties of the header format\<close>

text \<open>
  C26. Header round trip: parsing the bytes that \<open>Serialize\<close> writes for a well-formed
  header returns what the header's version stores of it.
\<close>

theorem header_roundtrip: "wf_header h \<Longrightarrow> ParseHeader (fst (Serialize h)) = Inr (stored_header h)"
  by (rule header_codec.dec_enc)

definition sample_header :: Header where
  "sample_header = zero_header\<lparr>Version := 8, IsLossy := True, OriginalSize := 300, ChunkCount := 3,
     MicroDictSize := 2, MicroDictionaryData := [7, 9]\<rparr>"

lemma sample_header_wf: "wf_header sample_header"
  by (simp add: sample_header_def wf_header_def zero_header_def MaxMicroDictSize_def)

theorem header_roundtrip_witness:
  "wf_header sample_header \<and> ParseHeader (fst (Serialize sample_header)) = Inr (stored_header sample_header)"
  using sample_header_wf header_roundtrip [OF sample_header_wf] by blast

text \<open>
  C37. Parser safety: every header \<open>ParseHeader\<close> accepts is well formed. Its arrays have
  their fixed lengths, and the micro-dictionary is within the memory cap and as long as
  its size field says.
\<close>

theorem header_parse_wf: "ParseHeader data = Inr h \<Longrightarrow> wf_header h"
  by (rule ParseHeader_wf)

theorem header_parse_wf_witness:
  "ParseHeader (fst (Serialize sample_header)) = Inr (stored_header sample_header) \<and>
   wf_header (stored_header sample_header)"
  using header_parse_wf ParseHeader_Serialize [OF sample_header_wf] by blast

text \<open>
  Reparsing: serialising a parsed header of any version but V9 and parsing the result
  gives the same header back, so rewriting a file's header in place loses nothing.
\<close>

lemma header_reparse:
  "ParseHeader data = Inr h \<Longrightarrow> Version h \<noteq> Version9 \<Longrightarrow> ParseHeader (fst (Serialize h)) = Inr h"
  using ParseHeader_Serialize [OF ParseHeader_wf] ParseHeader_stored by simp

end
