(* ===== verification/Chunk_Table.thy ===== *)
theory Chunk_Table
  imports Format
begin

text \<open>
  The chunk table of \<^verbatim>\<open>pkg/format/format.go\<close>: the entries that map each chunk to a
  codeword and a residual, how they group into 16 MiB blocks, and their two encodings,
  the fixed-width table of old files and the columnar table of differences. The results
  are the round trips of both encodings, the exact condition under which the columnar one
  is lossless, a bound on its size, and that \<open>BlockStarts\<close> recovers the blocks the packer
  wrote.
\<close>

section \<open>Block geometry\<close>

definition NumBlocks :: "Header \<Rightarrow> u32" where
  "NumBlocks h =
     (if ChunkCount h = 0 then 0
      else if OriginalSize h = 0 then 1
      else ucast ((OriginalSize h + of_nat BlockSize - 1) div of_nat BlockSize))"

record ChunkEntry =
  CodebookID :: u64
  DeltaOffset :: u64
  DeltaSize :: u32
  EOriginalSize :: u32
  CodebookIndex :: byte

text \<open>
  The loop of \<open>BlockStarts\<close>, with the index \<open>i\<close> of the next entry and the bytes
  \<open>filled\<close> so far; \<open>filled\<close> stays below \<open>2^24 + 2^32\<close>, so the \<open>uint64\<close> never wraps.
\<close>

fun block_starts_from :: "nat \<Rightarrow> nat \<Rightarrow> ChunkEntry list \<Rightarrow> nat list" where
  "block_starts_from i filled [] = []"
| "block_starts_from i filled (e # es) =
     (let filled' = filled + unat (EOriginalSize e);
          next_fill = (if BlockSize \<le> filled' then 0 else filled');
          rest = block_starts_from (i + 1) next_fill es
      in if filled = 0 then i # rest else rest)"

definition BlockStarts :: "ChunkEntry list \<Rightarrow> nat list" where
  "BlockStarts entries = block_starts_from 0 0 entries"

definition BlockRange :: "nat list \<Rightarrow> nat \<Rightarrow> nat \<Rightarrow> (nat \<times> nat) res" where
  "BlockRange starts i numEntries =
     (let end_idx = (if i + 1 < length starts then starts ! (i + 1) else numEntries)
      in if i < length starts then Inr (starts ! i, end_idx) else Inl GoPanic)"

section \<open>The plain chunk table\<close>

definition GetEntrySize :: "u16 \<Rightarrow> u32" where
  "GetEntrySize version = (if Version7 \<le> version then EntrySizeV7 else EntrySizeV6)"

definition parse_entry :: "u16 \<Rightarrow> bytes \<Rightarrow> nat \<Rightarrow> ChunkEntry" where
  "parse_entry version data off =
     \<lparr>CodebookID = get_uint64 data off, DeltaOffset = get_uint64 data (off + 8),
      DeltaSize = get_uint32 data (off + 16), EOriginalSize = get_uint32 data (off + 20),
      CodebookIndex = (if Version7 \<le> version then data ! (off + 24) else 0)\<rparr>"

definition ParseChunkTable :: "bytes \<Rightarrow> u32 \<Rightarrow> u16 \<Rightarrow> ChunkEntry list res" where
  "ParseChunkTable data count version =
     (let entrySize = unat (GetEntrySize version);
          expectedLen = unat count * entrySize
      in if length data < expectedLen then Inl (GoErr ''format: chunk table data too short'')
         else Inr (map (\<lambda>i. parse_entry version data (i * entrySize)) [0..<unat count]))"

definition put_entry :: "u16 \<Rightarrow> bytes \<Rightarrow> nat \<Rightarrow> ChunkEntry \<Rightarrow> bytes" where
  "put_entry version buf off e =
     (let buf = put_uint64 buf off (CodebookID e);
          buf = put_uint64 buf (off + 8) (DeltaOffset e);
          buf = put_uint32 buf (off + 16) (DeltaSize e);
          buf = put_uint32 buf (off + 20) (EOriginalSize e)
      in if Version7 \<le> version then buf[off + 24 := CodebookIndex e] else buf)"

definition SerializeChunkTable :: "ChunkEntry list \<Rightarrow> u16 \<Rightarrow> bytes" where
  "SerializeChunkTable entries version =
     (let entrySize = unat (GetEntrySize version);
          buf = zeros (length entries * entrySize)
      in fold (\<lambda>i buf. put_entry version buf (i * entrySize) (entries ! i)) [0..<length entries] buf)"

section \<open>The columnar chunk table\<close>

text \<open>
  The state of the encoding loop is \<open>prevID\<close> and \<open>nextOffset\<close>; each entry appends to the
  four varint columns and to the index column.
\<close>

definition encode_id :: "u64 \<Rightarrow> u64 \<Rightarrow> bytes" where
  "encode_id prevID cid =
     (if cid = LiteralCodebookID then [0] else append_uvarint (zigzag (cid - prevID) + 1))"

definition next_prev_id :: "u64 \<Rightarrow> u64 \<Rightarrow> u64" where
  "next_prev_id prevID cid = (if cid = LiteralCodebookID then prevID else cid + 1)"

definition next_offset :: "ChunkEntry \<Rightarrow> u64" where
  "next_offset e = DeltaOffset e + ucast (DeltaSize e)"

fun encode_columns :: "u64 \<Rightarrow> u64 \<Rightarrow> ChunkEntry list \<Rightarrow> bytes \<times> bytes \<times> bytes \<times> bytes \<times> bytes" where
  "encode_columns prevID nextOffset [] = ([], [], [], [], [])"
| "encode_columns prevID nextOffset (e # es) =
     (case encode_columns (next_prev_id prevID (CodebookID e)) (next_offset e) es of
        (ids, offsets, deltaSizes, sizes, indexes) \<Rightarrow>
          (encode_id prevID (CodebookID e) @ ids,
           append_uvarint (zigzag (DeltaOffset e - nextOffset)) @ offsets,
           append_uvarint (ucast (DeltaSize e)) @ deltaSizes,
           append_uvarint (ucast (EOriginalSize e)) @ sizes,
           CodebookIndex e # indexes))"

definition put_column :: "bytes \<Rightarrow> bytes" where
  "put_column col = append_uvarint (of_nat (length col)) @ col"

definition encodeTableColumns :: "ChunkEntry list \<Rightarrow> bytes" where
  "encodeTableColumns entries =
     (case encode_columns 0 0 entries of
        (ids, offsets, deltaSizes, sizes, indexes) \<Rightarrow>
          put_column ids @ put_column offsets @ put_column deltaSizes @ put_column sizes @ indexes)"

abbreviation bad_table :: "'a res" where
  "bad_table \<equiv> Inl (GoErr ''format: malformed chunk table'')"

text \<open>One iteration of the loop that cuts the four columns off \<open>data\<close>.\<close>

definition take_column :: "bytes \<Rightarrow> (bytes \<times> bytes) res" where
  "take_column data =
     (let (size, n) = uvarint data in
      if n \<le> 0 \<or> length data - nat n < unat size then bad_table
      else Inr (slice data (nat n) (nat n + unat size), drop (nat n + unat size) data))"

text \<open>The closure \<open>next\<close>: read one value of a column and advance it.\<close>

definition next_value :: "bytes \<Rightarrow> (u64 \<times> bytes) res" where
  "next_value col =
     (let (v, n) = uvarint col in if n \<le> 0 then bad_table else Inr (v, drop (nat n) col))"

fun decode_entries ::
  "u64 \<Rightarrow> u64 \<Rightarrow> bytes \<Rightarrow> bytes \<Rightarrow> bytes \<Rightarrow> bytes \<Rightarrow> bytes \<Rightarrow> ChunkEntry list res" where
  "decode_entries prevID nextOffset c0 c1 c2 c3 [] = Inr []"
| "decode_entries prevID nextOffset c0 c1 c2 c3 (idx # idxs) =
     rbind (next_value c0) (\<lambda>(v0, c0).
     rbind (next_value c1) (\<lambda>(v1, c1).
     rbind (next_value c2) (\<lambda>(v2, c2).
     rbind (next_value c3) (\<lambda>(v3, c3).
       let cid = (if v0 = 0 then LiteralCodebookID else prevID + unzigzag (v0 - 1));
           e = \<lparr>CodebookID = cid, DeltaOffset = nextOffset + unzigzag v1, DeltaSize = ucast v2,
                EOriginalSize = ucast v3, CodebookIndex = idx\<rparr>;
           prevID' = (if v0 = 0 then prevID else cid + 1)
       in rbind (decode_entries prevID' (next_offset e) c0 c1 c2 c3 idxs) (\<lambda>es. Inr (e # es))))))"

definition decodeTableColumns :: "bytes \<Rightarrow> u32 \<Rightarrow> ChunkEntry list res" where
  "decodeTableColumns data count =
     rbind (take_column data) (\<lambda>(c0, data).
     rbind (take_column data) (\<lambda>(c1, data).
     rbind (take_column data) (\<lambda>(c2, data).
     rbind (take_column data) (\<lambda>(c3, data).
       if length data \<noteq> unat count then bad_table
       else decode_entries 0 0 c0 c1 c2 c3 data))))"

section \<open>Plain table round trip\<close>

definition entry_bytes :: "u16 \<Rightarrow> ChunkEntry \<Rightarrow> bytes" where
  "entry_bytes version e =
     le_bytes 8 (CodebookID e) @ le_bytes 8 (DeltaOffset e) @ le_bytes 4 (DeltaSize e) @
     le_bytes 4 (EOriginalSize e) @ (if Version7 \<le> version then [CodebookIndex e] else [])"

text \<open>Tables of versions before V7 do not store the codebook index.\<close>

definition stored_entry :: "u16 \<Rightarrow> ChunkEntry \<Rightarrow> ChunkEntry" where
  "stored_entry version e = (if Version7 \<le> version then e else e\<lparr>CodebookIndex := 0\<rparr>)"

lemma unat_entry_size: "unat (GetEntrySize version) = (if Version7 \<le> version then 25 else 24)"
  by (simp add: GetEntrySize_def EntrySizeV7_def EntrySizeV6_def)

lemma length_entry_bytes [simp]: "length (entry_bytes version e) = unat (GetEntrySize version)"
  by (simp add: entry_bytes_def unat_entry_size)

lemma put_entry_buf_at:
  assumes "unat (GetEntrySize version) \<le> m"
  shows "put_entry version (buf_at A m) (length A) e =
         buf_at (A @ entry_bytes version e) (m - unat (GetEntrySize version))"
proof (cases "Version7 \<le> version")
  case True
  with assms have m: "25 \<le> m" by (simp add: unat_entry_size)
  with True show ?thesis
    by (simp add: put_entry_def unat_entry_size put_uint_defs put_buf_at entry_bytes_def Let_def
        list_update_buf_at)
next
  case False
  with assms have m: "24 \<le> m" by (simp add: unat_entry_size)
  with False show ?thesis
    by (simp add: put_entry_def unat_entry_size put_uint_defs put_buf_at entry_bytes_def Let_def)
qed

lemma fold_put_entry:
  "k \<le> length es \<Longrightarrow>
   fold (\<lambda>i buf. put_entry v buf (i * unat (GetEntrySize v)) (es ! i)) [0..<k]
     (buf_at [] (length es * unat (GetEntrySize v))) =
   buf_at (concat (map (entry_bytes v) (take k es))) ((length es - k) * unat (GetEntrySize v))"
proof (induction k)
  case 0
  then show ?case by simp
next
  case (Suc k)
  let ?s = "unat (GetEntrySize v)" and ?A = "concat (map (entry_bytes v) (take k es))"
  have A: "k * ?s = length ?A"
    using Suc.prems by (simp add: length_concat comp_def sum_list_triv)
  have "1 * ?s \<le> (length es - k) * ?s" using Suc.prems by (intro mult_right_mono) simp_all
  then have m: "?s \<le> (length es - k) * ?s" by simp
  have d: "(length es - k) * ?s - ?s = (length es - Suc k) * ?s"
    by (simp add: diff_mult_distrib)
  show ?case
    using Suc put_entry_buf_at [OF m, of ?A "es ! k"]
    by (simp add: d take_Suc_conv_app_nth flip: A)
qed

lemma SerializeChunkTable_layout: "SerializeChunkTable es v = concat (map (entry_bytes v) es)"
  using fold_put_entry [of "length es" es v]
  by (simp add: SerializeChunkTable_def Let_def buf_at_start buf_at_end)

lemma parse_entry_bytes:
  "parse_entry v (P @ entry_bytes v e @ R) (length P) = stored_entry v e"
  by (cases "Version7 \<le> v")
    (simp_all add: parse_entry_def entry_bytes_def stored_entry_def get_uint_defs slice_layout
      nth_append wire_simps)

lemma parse_entry_nth:
  assumes "i < length es"
  shows "parse_entry v (concat (map (entry_bytes v) es) @ rest) (i * unat (GetEntrySize v)) =
         stored_entry v (es ! i)"
proof -
  let ?P = "concat (map (entry_bytes v) (take i es))"
  have l: "length ?P = i * unat (GetEntrySize v)"
    using assms by (simp add: length_concat comp_def sum_list_triv)
  have "concat (map (entry_bytes v) es) =
      ?P @ entry_bytes v (es ! i) @ concat (map (entry_bytes v) (drop (Suc i) es))"
    by (subst id_take_nth_drop [OF assms]) (simp only: map_append concat_append list.map concat.simps)
  then show ?thesis using parse_entry_bytes [of v ?P] l by simp
qed

lemma ParseChunkTable_Serialize:
  assumes "length es < 2 ^ 32"
  shows "ParseChunkTable (SerializeChunkTable es v @ rest) (of_nat (length es)) v =
         Inr (map (stored_entry v) es)"
proof -
  have n: "unat (of_nat (length es) :: u32) = length es"
    using assms by (intro unat_of_nat_lt) simp
  have "map (\<lambda>i. parse_entry v (concat (map (entry_bytes v) es) @ rest)
          (i * unat (GetEntrySize v))) [0..<length es] = map (stored_entry v) es"
    by (rule nth_equalityI) (simp_all add: parse_entry_nth)
  then show ?thesis
    by (simp add: ParseChunkTable_def n SerializeChunkTable_layout length_concat comp_def
        sum_list_triv Let_def)
qed

section \<open>Columnar table round trip\<close>

text \<open>
  The columnar encoding is lossless exactly when no identifier is \<open>2^63\<close> away from the
  identifier the encoder predicts: there \<open>zigzag(diff) + 1\<close> wraps to the mark of a literal.
\<close>

fun ids_ok :: "u64 \<Rightarrow> ChunkEntry list \<Rightarrow> bool" where
  "ids_ok prevID [] = True"
| "ids_ok prevID (e # es) =
     ((CodebookID e = LiteralCodebookID \<or> CodebookID e - prevID \<noteq> 2 ^ 63) \<and>
      ids_ok (next_prev_id prevID (CodebookID e)) es)"

lemma next_value_append [simp]: "next_value (append_uvarint v @ rest) = Inr (v, rest)"
  using length_append_uvarint_pos [of v] by (simp add: next_value_def uvarint_append)

lemma append_uvarint_0: "append_uvarint 0 = [0]"
  by (subst append_uvarint.simps) simp

lemma next_value_zero [simp]: "next_value (0 # rest) = Inr (0, rest)"
  using next_value_append [of 0 rest] by (simp add: append_uvarint_0)

lemma ucast_u32_u64 [simp]: "ucast (ucast (w :: u32) :: u64) = w"
  by (rule ucast_down_ucast_id) (simp add: is_down)

lemma zigzag_succ_zero: "zigzag d + 1 = 0 \<longleftrightarrow> d = 2 ^ 63"
  unfolding eq_neg_iff_add_eq_0 [symmetric] by (rule zigzag_max_iff)

text \<open>One step of the decoder on one step of the encoder: an entry is read back, or lost as a literal.\<close>

lemma decode_step_literal:
  assumes "CodebookID e = LiteralCodebookID"
  shows "decode_entries p nx (encode_id p (CodebookID e) @ a) (append_uvarint (zigzag (DeltaOffset e - nx)) @ b)
      (append_uvarint (ucast (DeltaSize e)) @ c) (append_uvarint (ucast (EOriginalSize e)) @ d) (CodebookIndex e # x) =
    rbind (decode_entries (next_prev_id p (CodebookID e)) (next_offset e) a b c d x) (\<lambda>es. Inr (e # es))"
  using assms by (cases e) (simp add: encode_id_def next_prev_id_def next_offset_def unzigzag_zigzag Let_def)

lemma decode_step_id:
  assumes "CodebookID e \<noteq> LiteralCodebookID" "CodebookID e - p \<noteq> 2 ^ 63"
  shows "decode_entries p nx (encode_id p (CodebookID e) @ a) (append_uvarint (zigzag (DeltaOffset e - nx)) @ b)
      (append_uvarint (ucast (DeltaSize e)) @ c) (append_uvarint (ucast (EOriginalSize e)) @ d) (CodebookIndex e # x) =
    rbind (decode_entries (next_prev_id p (CodebookID e)) (next_offset e) a b c d x) (\<lambda>es. Inr (e # es))"
proof -
  have z: "zigzag (CodebookID e - p) + 1 \<noteq> 0" unfolding zigzag_succ_zero by (rule assms(2))
  show ?thesis
    using assms z by (cases e) (simp add: encode_id_def next_prev_id_def next_offset_def unzigzag_zigzag Let_def)
qed

lemma decode_step_lost:
  assumes "CodebookID e \<noteq> LiteralCodebookID" "CodebookID e - p = 2 ^ 63"
  shows "decode_entries p nx (encode_id p (CodebookID e) @ a) (append_uvarint (zigzag (DeltaOffset e - nx)) @ b)
      (append_uvarint (ucast (DeltaSize e)) @ c) (append_uvarint (ucast (EOriginalSize e)) @ d) (CodebookIndex e # x) =
    rbind (decode_entries p (next_offset e) a b c d x) (\<lambda>es. Inr (e\<lparr>CodebookID := LiteralCodebookID\<rparr> # es))"
proof -
  have z: "zigzag (CodebookID e - p) + 1 = 0" unfolding zigzag_succ_zero by (rule assms(2))
  show ?thesis
    using assms(1) z by (cases e) (simp add: encode_id_def append_uvarint_0 next_offset_def unzigzag_zigzag Let_def)
qed

lemma decode_encode_columns:
  "encode_columns p nx es = (a, b, c, d, x) \<Longrightarrow>
   decode_entries p nx a b c d x = Inr es \<longleftrightarrow> ids_ok p es"
proof (induction es arbitrary: p nx a b c d x)
  case Nil
  then show ?case by simp
next
  case (Cons e es)
  obtain a2 b2 c2 d2 x2 where
    r: "encode_columns (next_prev_id p (CodebookID e)) (next_offset e) es = (a2, b2, c2, d2, x2)"
    by (metis prod_cases5)
  note IH = Cons.IH [OF r]
  have s: "a = encode_id p (CodebookID e) @ a2" "b = append_uvarint (zigzag (DeltaOffset e - nx)) @ b2"
    "c = append_uvarint (ucast (DeltaSize e)) @ c2" "d = append_uvarint (ucast (EOriginalSize e)) @ d2"
    "x = CodebookIndex e # x2"
    using Cons.prems r by simp_all
  consider "CodebookID e = LiteralCodebookID" | "CodebookID e \<noteq> LiteralCodebookID" "CodebookID e - p \<noteq> 2 ^ 63"
    | "CodebookID e \<noteq> LiteralCodebookID" "CodebookID e - p = 2 ^ 63"
    by blast
  then show ?case
  proof cases
    case 1
    then show ?thesis
      unfolding s decode_step_literal [OF 1] ids_ok.simps IH [symmetric] by (auto simp: rbind_Inr_iff)
  next
    case 2
    then show ?thesis
      unfolding s decode_step_id [OF 2] by (auto simp: rbind_Inr_iff IH simp del: power_numeral)
  next
    case 3
    then have "e\<lparr>CodebookID := LiteralCodebookID\<rparr> \<noteq> e" by (metis ChunkEntry.select_convs(1) ChunkEntry.surjective ChunkEntry.update_convs(1))
    then show ?thesis
      unfolding s decode_step_lost [OF 3] using 3 by (auto simp: rbind_Inr_iff simp del: power_numeral)
  qed
qed

lemma encode_columns_length:
  "encode_columns p nx es = (a, b, c, d, x) \<Longrightarrow>
   length a \<le> 10 * length es \<and> length b \<le> 10 * length es \<and> length c \<le> 5 * length es \<and>
   length d \<le> 5 * length es \<and> length x = length es"
proof (induction es arbitrary: p nx a b c d x)
  case Nil
  then show ?case by simp
next
  case (Cons e es)
  obtain a2 b2 c2 d2 x2 where
    r: "encode_columns (next_prev_id p (CodebookID e)) (next_offset e) es = (a2, b2, c2, d2, x2)"
    by (metis prod_cases5)
  have "length (encode_id p (CodebookID e)) \<le> 10"
    by (simp add: encode_id_def length_append_uvarint64)
  moreover note length_append_uvarint64 [of "zigzag (DeltaOffset e - nx)"]
    length_append_uvarint32 [of "DeltaSize e"] length_append_uvarint32 [of "EOriginalSize e"]
  ultimately show ?case using Cons.IH [OF r] Cons.prems r by auto
qed

lemma take_put_column:
  assumes "length col < 2 ^ 64"
  shows "take_column (put_column col @ rest) = Inr (col, rest)"
proof -
  have n: "unat (of_nat (length col) :: u64) = length col"
    using assms by (intro unat_of_nat_lt) simp
  let ?h = "append_uvarint (of_nat (length col))"
  have p: "0 < length ?h" by (rule length_append_uvarint_pos)
  have u: "uvarint (put_column col @ rest) = (of_nat (length col), int (length ?h))"
    unfolding put_column_def append_assoc by (rule uvarint_append)
  have l: "length (put_column col @ rest) = length ?h + length col + length rest"
    by (simp add: put_column_def)
  show ?thesis
    unfolding take_column_def u l using p by (simp add: Let_def n) (simp add: put_column_def slice_def)
qed

lemma decode_encodeTableColumns:
  assumes "length es < 2 ^ 32"
  shows "decodeTableColumns (encodeTableColumns es) (of_nat (length es)) = Inr es \<longleftrightarrow> ids_ok 0 es"
proof -
  obtain a b c d x where e: "encode_columns 0 0 es = (a, b, c, d, x)" by (metis prod_cases5)
  note len = encode_columns_length [OF e]
  then have s: "length a < 2 ^ 64" "length b < 2 ^ 64" "length c < 2 ^ 64" "length d < 2 ^ 64"
    using assms by simp_all
  have n: "unat (of_nat (length es) :: u32) = length es"
    using assms by (intro unat_of_nat_lt) simp
  have t: "encodeTableColumns es = put_column a @ put_column b @ put_column c @ put_column d @ x"
    by (simp add: encodeTableColumns_def e)
  have "decodeTableColumns (encodeTableColumns es) (of_nat (length es)) = decode_entries 0 0 a b c d x"
    unfolding decodeTableColumns_def t by (simp add: take_put_column [OF s(1)] take_put_column [OF s(2)] take_put_column [OF s(3)] take_put_column [OF s(4)] n len)
  then show ?thesis using decode_encode_columns [OF e] by simp
qed

lemma length_encodeTableColumns: "length (encodeTableColumns es) \<le> 31 * length es + 40"
proof -
  obtain a b c d x where e: "encode_columns 0 0 es = (a, b, c, d, x)" by (metis prod_cases5)
  have p: "length (put_column col) \<le> 10 + length col" for col
    using length_append_uvarint64 [of "of_nat (length col)"] by (simp add: put_column_def)
  show ?thesis
    using encode_columns_length [OF e] p [of a] p [of b] p [of c] p [of d]
    by (simp add: encodeTableColumns_def e)
qed

text \<open>Identifiers below \<open>2^62\<close>, such as indexes into a codebook with the patch flag, are safe.\<close>

lemma small_id_diff:
  assumes "unat c < 2 ^ 62" "unat p \<le> 2 ^ 62"
  shows "c - p \<noteq> (2 ^ 63 :: u64)"
proof
  assume "c - p = 2 ^ 63"
  then have "c = 2 ^ 63 + p" by (metis diff_add_cancel)
  then have "unat c = (2 ^ 63 + unat p) mod 2 ^ 64" by (simp add: unat_word_ariths)
  with assms show False by simp
qed

lemma ids_ok_small:
  "\<forall>e \<in> set es. CodebookID e = LiteralCodebookID \<or> unat (CodebookID e) < 2 ^ 62 \<Longrightarrow>
   unat p \<le> 2 ^ 62 \<Longrightarrow> ids_ok p es"
proof (induction es arbitrary: p)
  case Nil
  then show ?case by simp
next
  case (Cons e es)
  have "unat (next_prev_id p (CodebookID e)) \<le> 2 ^ 62"
    using Cons.prems by (auto simp: next_prev_id_def unat_word_ariths)
  then show ?case using Cons small_id_diff [of "CodebookID e" p] by auto
qed

definition wf_table :: "ChunkEntry list \<Rightarrow> bool" where
  "wf_table es \<longleftrightarrow> length es < 2 ^ 32 \<and>
     (\<forall>e \<in> set es. CodebookID e = LiteralCodebookID \<or> unat (CodebookID e) < 2 ^ 62)"

lemma decode_columns_wf:
  "wf_table es \<Longrightarrow> decodeTableColumns (encodeTableColumns es) (of_nat (length es)) = Inr es"
  by (simp add: wf_table_def decode_encodeTableColumns ids_ok_small)

lemma length_decode_entries:
  "decode_entries p nx c0 c1 c2 c3 idxs = Inr es \<Longrightarrow> length es = length idxs"
  by (induction p nx c0 c1 c2 c3 idxs arbitrary: es rule: decode_entries.induct)
    (auto simp: rbind_Inr_iff Let_def)

lemma length_decodeTableColumns: "decodeTableColumns data count = Inr es \<Longrightarrow> length es = unat count"
  by (auto simp: decodeTableColumns_def rbind_Inr_iff split: if_splits dest!: length_decode_entries)

lemma length_ParseChunkTable: "ParseChunkTable data count v = Inr es \<Longrightarrow> length es = unat count"
  by (auto simp: ParseChunkTable_def Let_def split: if_splits)

text \<open>Both tables are codecs for the number \<open>n\<close> of entries that the header records.\<close>

interpretation column_codec: codec encodeTableColumns "\<lambda>data. decodeTableColumns data n"
  "\<lambda>es. wf_table es \<and> of_nat (length es) = n" "\<lambda>es. es" for n
  by unfold_locales (auto simp: decode_columns_wf)

interpretation plain_codec: codec "\<lambda>es. SerializeChunkTable es v" "\<lambda>data. ParseChunkTable data n v"
  "\<lambda>es. length es < 2 ^ 32 \<and> of_nat (length es) = n" "map (stored_entry v)" for n v
  by unfold_locales (use ParseChunkTable_Serialize [where rest = "[]"] in auto)

section \<open>Blocks\<close>

text \<open>\<open>NumBlocks\<close> is the size in blocks, rounded up, as long as the count fits 32 bits.\<close>

lemma NumBlocks_ceil:
  assumes "ChunkCount h \<noteq> 0" "OriginalSize h \<noteq> 0" "unat (OriginalSize h) \<le> 2 ^ 56 - 2 ^ 25"
  shows "unat (NumBlocks h) = (unat (OriginalSize h) + BlockSize - 1) div BlockSize"
proof -
  let ?n = "OriginalSize h"
  have b: "(of_nat BlockSize :: u64) = 16777216" by (simp add: BlockSize_def)
  have u: "unat (?n + of_nat BlockSize - 1) = unat ?n + BlockSize - 1"
  proof -
    have "?n + of_nat BlockSize - 1 = of_nat (unat ?n + (BlockSize - 1))"
      by (simp add: BlockSize_def)
    moreover have "unat ?n + (BlockSize - 1) < 2 ^ LENGTH(64)" using assms(3) by (simp add: BlockSize_def)
    ultimately show ?thesis by (metis unat_of_nat_lt Nat.add_diff_assoc BlockSize_def one_le_numeral mult_numeral_1_right numeral_times_numeral)
  qed
  have "unat ((?n + of_nat BlockSize - 1) div of_nat BlockSize) = (unat ?n + BlockSize - 1) div BlockSize"
    unfolding unat_div_distrib u by (simp add: b) (simp add: BlockSize_def)
  moreover from this have "unat ((?n + of_nat BlockSize - 1) div of_nat BlockSize) < 2 ^ LENGTH(32)"
    using assms(3) by (simp add: BlockSize_def)
  ultimately show ?thesis using assms(1,2) by (simp add: NumBlocks_def unat_ucast_small del: len_num1)
qed

text \<open>
  The packer closes a block as soon as its chunks hold \<open>BlockSize\<close> bytes. \<open>fills_block\<close>
  says that a list of entries is such a block, \<open>open_block\<close> that it is the unfinished
  last one.
\<close>

definition entries_size :: "ChunkEntry list \<Rightarrow> nat" where
  "entries_size es = (\<Sum>e \<leftarrow> es. unat (EOriginalSize e))"

definition open_block :: "ChunkEntry list \<Rightarrow> bool" where
  "open_block b \<longleftrightarrow> b \<noteq> [] \<and> entries_size b < BlockSize"

definition fills_block :: "ChunkEntry list \<Rightarrow> bool" where
  "fills_block b \<longleftrightarrow> b \<noteq> [] \<and> entries_size (butlast b) < BlockSize \<and> BlockSize \<le> entries_size b"

fun starts_of :: "nat \<Rightarrow> ChunkEntry list list \<Rightarrow> nat list" where
  "starts_of i [] = []"
| "starts_of i (b # bs) = i # starts_of (i + length b) bs"

lemma block_starts_inside:
  "0 < filled \<Longrightarrow> filled + entries_size (butlast b) < BlockSize \<Longrightarrow> b \<noteq> [] \<Longrightarrow>
   block_starts_from i filled (b @ rest) =
     (if BlockSize \<le> filled + entries_size b then block_starts_from (i + length b) 0 rest
      else block_starts_from (i + length b) (filled + entries_size b) rest)"
proof (induction b arbitrary: i filled)
  case Nil
  then show ?case by simp
next
  case (Cons e es)
  show ?case
  proof (cases "es = []")
    case True
    with Cons.prems show ?thesis by (simp add: entries_size_def Let_def)
  next
    case False
    with Cons.prems have "filled + unat (EOriginalSize e) < BlockSize"
      by (simp add: entries_size_def)
    with False Cons.prems Cons.IH [of "filled + unat (EOriginalSize e)" "i + 1"] show ?thesis
      by (simp add: entries_size_def Let_def add.assoc)
  qed
qed

lemma block_starts_block:
  assumes "b \<noteq> []" "\<forall>e \<in> set b. EOriginalSize e \<noteq> 0" "entries_size (butlast b) < BlockSize"
  shows "block_starts_from i 0 (b @ rest) =
     (if BlockSize \<le> entries_size b then i # block_starts_from (i + length b) 0 rest
      else i # block_starts_from (i + length b) (entries_size b) rest)"
proof -
  obtain e es where b: "b = e # es" using assms(1) by (cases b) auto
  have pos: "0 < unat (EOriginalSize e)" using assms(2) by (simp add: b unat_gt_0)
  show ?thesis
  proof (cases "es = []")
    case True
    then show ?thesis by (simp add: b entries_size_def Let_def)
  next
    case False
    then have "unat (EOriginalSize e) + entries_size (butlast es) < BlockSize"
      using assms(3) by (simp add: b entries_size_def)
    with False pos show ?thesis
      using block_starts_inside [of "unat (EOriginalSize e)" es "Suc i" rest]
      by (simp add: b entries_size_def Let_def)
  qed
qed

lemma block_starts_blocks:
  assumes "\<forall>b \<in> set bs. fills_block b" "last_block = [] \<or> open_block last_block"
    "\<forall>e \<in> set (concat bs @ last_block). EOriginalSize e \<noteq> 0"
  shows "block_starts_from i 0 (concat bs @ last_block) =
    starts_of i (bs @ (if last_block = [] then [] else [last_block]))"
  using assms
proof (induction bs arbitrary: i)
  case Nil
  show ?case
  proof (cases "last_block = []")
    case True
    then show ?thesis by simp
  next
    case False
    with Nil have o: "entries_size last_block < BlockSize" by (simp add: open_block_def)
    have "entries_size (butlast last_block) \<le> entries_size last_block"
      using False by (metis append_butlast_last_id entries_size_def le_add1 map_append sum_list_append)
    with o False Nil.prems(3) block_starts_block [of last_block i "[]"] show ?thesis by simp
  qed
next
  case (Cons b bs)
  then have f: "b \<noteq> []" "entries_size (butlast b) < BlockSize" "BlockSize \<le> entries_size b"
    by (simp_all add: fills_block_def)
  have "block_starts_from i 0 (b @ concat bs @ last_block) =
        i # block_starts_from (i + length b) 0 (concat bs @ last_block)"
    using block_starts_block [OF f(1) _ f(2), of i "concat bs @ last_block"] f(3) Cons.prems(3) by simp
  with Cons show ?case by simp
qed

section \<open>Properties of the chunk table\<close>

text \<open>
  C27. Exact losslessness of the columnar table: decoding the encoded columns returns the
  entries if and only if no identifier is \<open>2^63\<close> away from the one the encoder predicts.
\<close>

theorem columns_lossless_iff:
  "length es < 2 ^ 32 \<Longrightarrow>
   decodeTableColumns (encodeTableColumns es) (of_nat (length es)) = Inr es \<longleftrightarrow> ids_ok 0 es"
  by (rule decode_encodeTableColumns)

definition sample_entry :: "u64 \<Rightarrow> ChunkEntry" where
  "sample_entry cid = \<lparr>CodebookID = cid, DeltaOffset = 5, DeltaSize = 12, EOriginalSize = 128, CodebookIndex = 1\<rparr>"

theorem columns_lossless_iff_witness:
  "decodeTableColumns (encodeTableColumns [sample_entry 77, sample_entry (NOT 0)]) 2 =
     Inr [sample_entry 77, sample_entry (NOT 0)] \<and>
   decodeTableColumns (encodeTableColumns [sample_entry (2 ^ 63)]) 1 \<noteq> Inr [sample_entry (2 ^ 63)]"
proof
  show "decodeTableColumns (encodeTableColumns [sample_entry 77, sample_entry (NOT 0)]) 2 =
     Inr [sample_entry 77, sample_entry (NOT 0)]"
    using columns_lossless_iff [of "[sample_entry 77, sample_entry (NOT 0)]"]
    by (simp add: sample_entry_def LiteralCodebookID_def next_prev_id_def)
  show "decodeTableColumns (encodeTableColumns [sample_entry (2 ^ 63)]) 1 \<noteq> Inr [sample_entry (2 ^ 63)]"
    using columns_lossless_iff [of "[sample_entry (2 ^ 63)]"]
    by (simp add: sample_entry_def LiteralCodebookID_def)
qed

text \<open>
  Codebook identifiers below \<open>2^62\<close> and literals, all that the packers write for a
  single codebook, are encoded without loss, and the table takes at most 31 bytes per entry
  and 40 bytes for the four column lengths.
\<close>

lemma columns_codec:
  "wf_table es \<Longrightarrow>
   decodeTableColumns (encodeTableColumns es) (of_nat (length es)) = Inr es \<and>
   length (encodeTableColumns es) \<le> 31 * length es + 40"
  using column_codec.dec_enc [of es "of_nat (length es)"] length_encodeTableColumns by simp

text \<open>
  The fixed-width table: for every version, parsing a serialised table (whatever
  follows it) returns the entries, without the codebook index before V7.
\<close>

lemma plain_table_roundtrip:
  "length es < 2 ^ 32 \<Longrightarrow>
   ParseChunkTable (SerializeChunkTable es v @ rest) (of_nat (length es)) v =
   Inr (map (stored_entry v) es)"
  by (rule ParseChunkTable_Serialize)

text \<open>
  Block recovery: when the packer closes every block as soon as its chunks hold
  \<open>BlockSize\<close> bytes, and only the last block may be unfinished, \<open>BlockStarts\<close> on the
  table returns the index of the first chunk of each block.
\<close>

lemma block_starts_recovers_blocks:
  assumes "\<forall>b \<in> set bs. fills_block b" "last_block = [] \<or> open_block last_block"
    "\<forall>e \<in> set (concat bs @ last_block). EOriginalSize e \<noteq> 0"
  shows "BlockStarts (concat bs @ last_block) =
         starts_of 0 (bs @ (if last_block = [] then [] else [last_block]))"
  unfolding BlockStarts_def using assms by (rule block_starts_blocks)

end
