(* ===== verification/Chunker.thy ===== *)
theory Chunker
  imports Chunk_Table "HOL-Library.Signed_Division"
begin

text \<open>
  The chunking strategies of \<^verbatim>\<open>internal/chunker\<close> (\<open>FixedChunker\<close>, \<open>CDCChunker\<close>,
  \<open>FastCDCChunker\<close>, \<open>SemanticChunker\<close>) and \<open>Reassemble\<close>. The interface
  \<open>Chunker\<close> is the locale \<open>chunker\<close>: on every input the strategy returns chunks that tile
  the input, within a minimal size (the last chunk apart) and a maximal size. Each strategy
  interprets it, so reassembly, offsets and the number of chunks are proved once.

  The hash \<^verbatim>\<open>xxhash.Sum64\<close> is third-party code: it is the parameter \<open>xx\<close>. A size that
  a constructor takes is a Go \<open>int\<close>; it is a natural number inside a strategy whose constructor
  replaces sizes that are not positive, and an integer inside the rolling-hash one, whose does not.
\<close>

section \<open>Chunks\<close>

definition DefaultChunkSize :: nat where "DefaultChunkSize = 128"

record Chunk =
  cData :: bytes
  cOffset :: u64
  cSize :: u32
  cHash :: u64

definition Reassemble :: "Chunk list \<Rightarrow> bytes" where
  "Reassemble chunks = (if chunks = [] then [] else concat (map cData chunks))"

definition makeChunk :: "(bytes \<Rightarrow> u64) \<Rightarrow> bytes \<Rightarrow> nat \<Rightarrow> nat \<Rightarrow> Chunk" where
  "makeChunk xx data start stop =
     (let s = slice data start stop
      in \<lparr>cData = s, cOffset = of_nat start, cSize = of_nat (length s), cHash = xx s\<rparr>)"

section \<open>Fixed-size chunks\<close>

record FixedChunker =
  fcChunkSize :: nat

definition NewFixedChunker :: "int \<Rightarrow> FixedChunker" where
  "NewFixedChunker chunkSize =
     \<lparr>fcChunkSize = (if chunkSize \<le> 0 then DefaultChunkSize else nat chunkSize)\<rparr>"

text \<open>The loop; it is entered with a positive step only.\<close>

function fixed_loop :: "(bytes \<Rightarrow> u64) \<Rightarrow> bytes \<Rightarrow> nat \<Rightarrow> nat \<Rightarrow> Chunk list" where
  "fixed_loop xx data step offset =
     (if offset < length data \<and> 0 < step
      then (let stop = (if length data < offset + step then length data else offset + step);
                block = slice data offset stop
            in \<lparr>cData = block, cOffset = of_nat offset, cSize = of_nat (stop - offset), cHash = xx block\<rparr>
               # fixed_loop xx data step (offset + step))
      else [])"
  by pat_completeness auto
termination by (relation "measure (\<lambda>(xx, data, step, offset). length data - offset)") auto

declare fixed_loop.simps [simp del]

text \<open>With a chunk size of 0 the count of chunks divides by zero.\<close>

definition FixedChunker_Split :: "(bytes \<Rightarrow> u64) \<Rightarrow> FixedChunker \<Rightarrow> bytes \<Rightarrow> Chunk list res" where
  "FixedChunker_Split xx fc data =
     (if data = [] then Inr []
      else if fcChunkSize fc = 0 then Inl GoPanic
      else Inr (fixed_loop xx data (fcChunkSize fc) 0))"

section \<open>Content-defined chunks with a rolling hash\<close>

definition CDCWindowSize :: nat where "CDCWindowSize = 8"
definition prime64 :: u64 where "prime64 = 1099511628211"
definition primePower :: u64 where "primePower = fold (\<lambda>i p. p * prime64) [0..<CDCWindowSize] 1"

record CDCChunker =
  cdcTargetSize :: int
  cdcMinSize :: int
  cdcMaxSize :: int

text \<open>Sizes are unbounded here; in Go the double of a size of \<open>2^62\<close> or more wraps.\<close>

definition NewCDCChunker :: "int \<Rightarrow> CDCChunker" where
  "NewCDCChunker targetSize =
     \<lparr>cdcTargetSize = targetSize, cdcMinSize = targetSize sdiv 4, cdcMaxSize = targetSize * 2\<rparr>"

lemma sdiv_four: "0 \<le> t \<Longrightarrow> t sdiv 4 = t div 4" "t \<le> 0 \<Longrightarrow> t sdiv 4 \<le> (0 :: int)"
  by (auto simp: signed_divide_int_def sgn_if)

definition cdc_roll :: "bytes \<Rightarrow> nat \<Rightarrow> nat \<Rightarrow> u64 \<Rightarrow> u64" where
  "cdc_roll data start offset rollHash =
     (if start + CDCWindowSize \<le> offset
      then rollHash * prime64 + ucast (data ! offset) - ucast (data ! (offset - CDCWindowSize)) * primePower
      else rollHash * prime64 + ucast (data ! offset))"

text \<open>The loop may not end (with \<open>maxSize\<close> zero or negative the forced cut does not advance): \<open>None\<close>.\<close>

partial_function (option) cdc_loop ::
  "(bytes \<Rightarrow> u64) \<Rightarrow> CDCChunker \<Rightarrow> bytes \<Rightarrow> nat \<Rightarrow> nat \<Rightarrow> u64 \<Rightarrow> Chunk list option" where
  "cdc_loop xx c data start offset rollHash =
     (if offset < length data then
        let chunkLen = int (offset - start) in
        if cdcMaxSize c \<le> chunkLen then
          Option.bind (cdc_loop xx c data offset offset 0)
            (\<lambda>chunks. Some (makeChunk xx data start offset # chunks))
        else
          let rollHash = cdc_roll data start offset rollHash in
          if (cdcMinSize c \<le> chunkLen \<and> start + CDCWindowSize \<le> offset)
             \<and> rollHash mod of_int (cdcTargetSize c) = 0
          then Option.bind (cdc_loop xx c data (offset + 1) (offset + 1) 0)
                 (\<lambda>chunks. Some (makeChunk xx data start (offset + 1) # chunks))
          else cdc_loop xx c data start (offset + 1) rollHash
      else Some (if start < length data then [makeChunk xx data start (length data)] else []))"

definition CDCChunker_Split :: "(bytes \<Rightarrow> u64) \<Rightarrow> CDCChunker \<Rightarrow> bytes \<Rightarrow> Chunk list option" where
  "CDCChunker_Split xx c data =
     (if data = [] then Some []
      else if int (length data) \<le> cdcMinSize c then Some [makeChunk xx data 0 (length data)]
      else cdc_loop xx c data 0 0 0)"

section \<open>Content-defined chunks with a gear hash\<close>

text \<open>The gear table holds the hash of each byte.\<close>

definition gearTable :: "(bytes \<Rightarrow> u64) \<Rightarrow> byte \<Rightarrow> u64" where
  "gearTable xx b = xx [b]"

record FastCDCChunker =
  fcdcTargetSize :: nat
  fcdcMinSize :: nat
  fcdcMaxSize :: nat
  fcdcMask :: u64

definition NewFastCDCChunker :: "int \<Rightarrow> FastCDCChunker" where
  "NewFastCDCChunker targetSize =
     (let t = (if targetSize \<le> 0 then DefaultChunkSize else nat targetSize)
      in \<lparr>fcdcTargetSize = t, fcdcMinSize = t div 4, fcdcMaxSize = t * 4, fcdcMask = of_nat t - 1\<rparr>)"

text \<open>The loop over the bytes from index \<open>i\<close> on (the last argument).\<close>

fun fastcdc_loop ::
  "(bytes \<Rightarrow> u64) \<Rightarrow> FastCDCChunker \<Rightarrow> bytes \<Rightarrow> nat \<Rightarrow> nat \<Rightarrow> u64 \<Rightarrow> bytes \<Rightarrow> Chunk list" where
  "fastcdc_loop xx c data start i hash [] =
     (if start < length data then [makeChunk xx data start (length data)] else [])"
| "fastcdc_loop xx c data start i hash (b # bs) =
     (let hash = push_bit 1 hash + gearTable xx b;
          chunkLen = i - start + 1
      in if fcdcMinSize c \<le> chunkLen \<and> (fcdcMaxSize c \<le> chunkLen \<or> hash AND fcdcMask c = 0)
         then makeChunk xx data start (i + 1) # fastcdc_loop xx c data (i + 1) (i + 1) 0 bs
         else fastcdc_loop xx c data start (i + 1) hash bs)"

definition FastCDCChunker_Split :: "(bytes \<Rightarrow> u64) \<Rightarrow> FastCDCChunker \<Rightarrow> bytes \<Rightarrow> Chunk list" where
  "FastCDCChunker_Split xx c data =
     (if data = [] then []
      else if length data \<le> fcdcMinSize c then [makeChunk xx data 0 (length data)]
      else fastcdc_loop xx c data 0 0 0 data)"

section \<open>Delimited chunks\<close>

text \<open>\<^verbatim>\<open>bytes.IndexByte\<close>\<close>

fun index_byte :: "byte \<Rightarrow> bytes \<Rightarrow> nat option" where
  "index_byte d [] = None"
| "index_byte d (b # bs) = (if b = d then Some 0 else map_option Suc (index_byte d bs))"

record SemanticChunker =
  scDelimiter :: byte
  scMaxSize :: nat

definition NewSemanticChunker :: "byte \<Rightarrow> int \<Rightarrow> SemanticChunker" where
  "NewSemanticChunker delimiter maxSize =
     \<lparr>scDelimiter = delimiter, scMaxSize = (if maxSize \<le> 0 then 1024 else nat maxSize)\<rparr>"

definition semantic_chunk_len :: "SemanticChunker \<Rightarrow> bytes \<Rightarrow> nat \<Rightarrow> nat" where
  "semantic_chunk_len c data start =
     (let stop = (if length data < start + scMaxSize c then length data else start + scMaxSize c)
      in case index_byte (scDelimiter c) (slice data start stop) of
           Some i \<Rightarrow> i + 1
         | None \<Rightarrow> stop - start)"

function semantic_loop :: "(bytes \<Rightarrow> u64) \<Rightarrow> SemanticChunker \<Rightarrow> bytes \<Rightarrow> nat \<Rightarrow> Chunk list" where
  "semantic_loop xx c data start =
     (if start < length data \<and> 0 < scMaxSize c
      then (let chunkLen = semantic_chunk_len c data start;
                d = slice data start (start + chunkLen)
            in \<lparr>cData = d, cOffset = of_nat start, cSize = of_nat chunkLen, cHash = xx d\<rparr>
               # semantic_loop xx c data (start + chunkLen))
      else [])"
  by pat_completeness auto
termination
  by (relation "measure (\<lambda>(xx, c, data, start). length data - start)")
    (auto simp: semantic_chunk_len_def Let_def split: option.splits)

declare semantic_loop.simps [simp del]

definition SemanticChunker_Split :: "(bytes \<Rightarrow> u64) \<Rightarrow> SemanticChunker \<Rightarrow> bytes \<Rightarrow> Chunk list" where
  "SemanticChunker_Split xx c data = (if data = [] then [] else semantic_loop xx c data 0)"

section \<open>The interface\<close>

text \<open>Chunks that cover \<open>data\<close> from \<open>start\<close> to its end, without gaps and without empty chunks.\<close>

fun tiles :: "(bytes \<Rightarrow> u64) \<Rightarrow> bytes \<Rightarrow> nat \<Rightarrow> Chunk list \<Rightarrow> bool" where
  "tiles xx data start [] \<longleftrightarrow> start = length data"
| "tiles xx data start (c # cs) \<longleftrightarrow>
     cData c \<noteq> [] \<and> start + length (cData c) \<le> length data \<and>
     c = makeChunk xx data start (start + length (cData c)) \<and>
     tiles xx data (start + length (cData c)) cs"

lemma makeChunk_simps [simp]:
  "cData (makeChunk xx data s e) = slice data s e"
  "cOffset (makeChunk xx data s e) = of_nat s"
  "cSize (makeChunk xx data s e) = of_nat (length (slice data s e))"
  "cHash (makeChunk xx data s e) = xx (slice data s e)"
  by (simp_all add: makeChunk_def Let_def)

lemma length_slice_in [simp]: "s \<le> e \<Longrightarrow> e \<le> length data \<Longrightarrow> length (slice data s e) = e - s"
  by (simp add: length_slice)

lemma tiles_cut:
  "s < e \<Longrightarrow> e \<le> length data \<Longrightarrow> tiles xx data e cs \<Longrightarrow> tiles xx data s (makeChunk xx data s e # cs)"
  by (auto simp: length_0_conv [symmetric] simp del: length_0_conv)

lemma tiles_rest: "s \<le> length data \<Longrightarrow>
   tiles xx data s (if s < length data then [makeChunk xx data s (length data)] else [])"
  using tiles_cut [of s "length data" data xx "[]"] by (cases "s < length data") simp_all

lemma tiles_concat: "tiles xx data start cs \<Longrightarrow> concat (map cData cs) = drop start data"
proof (induction cs arbitrary: start)
  case Nil
  then show ?case by simp
next
  case (Cons c cs)
  let ?e = "start + length (cData c)"
  from Cons.prems have e: "cData c = slice data start ?e" and le: "?e \<le> length data"
    by (metis makeChunk_simps(1) tiles.simps(2), simp)
  have "concat (map cData (c # cs)) = slice data start ?e @ drop ?e data"
    using Cons e by auto
  also have "\<dots> = drop start data"
    by (metis append_take_drop_id add_diff_cancel_left' drop_drop add.commute slice_def)
  finally show ?case .
qed

lemma tiles_chunk:
  "tiles xx data start cs \<Longrightarrow> c \<in> set cs \<Longrightarrow>
   \<exists>s e. s < e \<and> e \<le> length data \<and> c = makeChunk xx data s e"
proof (induction cs arbitrary: start)
  case Nil
  then show ?case by simp
next
  case (Cons a cs)
  show ?case
  proof (cases "c = a")
    case True
    with Cons.prems have "start < start + length (cData a)" "start + length (cData a) \<le> length data"
      "c = makeChunk xx data start (start + length (cData a))"
      by simp_all
    then show ?thesis by blast
  next
    case False
    with Cons show ?thesis by auto
  qed
qed

lemma tiles_length: "tiles xx data start cs \<Longrightarrow> start + length cs \<le> length data"
proof (induction cs arbitrary: start)
  case (Cons c cs)
  from Cons.prems have "0 < length (cData c)" "tiles xx data (start + length (cData c)) cs"
    by simp_all
  with Cons.IH [of "start + length (cData c)"] show ?case by (simp del: length_greater_0_conv)
qed simp

declare tiles.simps [simp del]

lemma tiles_end [simp]: "tiles xx data s [] \<longleftrightarrow> s = length data"
  by (simp add: tiles.simps)

lemma Reassemble_concat: "Reassemble cs = concat (map cData cs)"
  by (simp add: Reassemble_def)

locale chunker =
  fixes xx :: "bytes \<Rightarrow> u64"
    and returns :: "bytes \<Rightarrow> Chunk list \<Rightarrow> bool"
    and lo :: nat
    and hi :: nat
  assumes total: "\<exists>cs. returns data cs"
    and tiling: "returns data cs \<Longrightarrow> tiles xx data 0 cs"
    and max_size: "returns data cs \<Longrightarrow> c \<in> set cs \<Longrightarrow> length (cData c) \<le> hi"
    and min_size: "returns data cs \<Longrightarrow> c \<in> set (butlast cs) \<Longrightarrow> lo \<le> length (cData c)"
begin

lemma reassembles: "returns data cs \<Longrightarrow> Reassemble cs = data"
  using tiles_concat [OF tiling] by (simp add: Reassemble_concat)

lemma nonempty: "returns data cs \<Longrightarrow> c \<in> set cs \<Longrightarrow> cData c \<noteq> []"
proof -
  assume "returns data cs" "c \<in> set cs"
  then obtain s e where "s < e" "e \<le> length data" "c = makeChunk xx data s e"
    using tiles_chunk [OF tiling] by blast
  then have "0 < length (cData c)" by simp
  then show ?thesis by simp
qed

lemma chunk_fields:
  assumes "returns data cs" "c \<in> set cs" "length data < 2 ^ 64"
  shows "cData c = slice data (unat (cOffset c)) (unat (cOffset c) + length (cData c)) \<and>
    cSize c = of_nat (length (cData c)) \<and> cHash c = xx (cData c)"
proof -
  obtain s e where s: "s < e" "e \<le> length data" "c = makeChunk xx data s e"
    using tiles_chunk [OF tiling] assms(1,2) by blast
  have "unat (of_nat s :: u64) = s"
    using s(1,2) assms(3) by (intro unat_of_nat_lt) simp
  with s show ?thesis by simp
qed

lemma chunk_count: "returns data cs \<Longrightarrow> length cs \<le> length data"
  using tiles_length [OF tiling] by simp

lemma count_lower: "returns data cs \<Longrightarrow> length data \<le> hi * length cs"
proof -
  assume r: "returns data cs"
  have "length data = (\<Sum>c \<leftarrow> cs. length (cData c))"
    unfolding reassembles [OF r, symmetric] by (simp add: Reassemble_concat length_concat comp_def)
  also have "\<dots> \<le> (\<Sum>c \<leftarrow> cs. hi)" using max_size [OF r] by (intro sum_list_mono) simp
  finally show ?thesis by (simp add: sum_list_triv mult.commute)
qed

end

section \<open>Fixed-size chunks satisfy the interface\<close>

definition sized :: "nat \<Rightarrow> nat \<Rightarrow> Chunk list \<Rightarrow> bool" where
  "sized lo hi cs \<longleftrightarrow> (\<forall>c \<in> set cs. length (cData c) \<le> hi) \<and> (\<forall>c \<in> set (butlast cs). lo \<le> length (cData c))"

lemma sized_Nil [simp]: "sized lo hi []"
  by (simp add: sized_def)

lemma sized_Cons:
  "length (cData c) \<le> hi \<Longrightarrow> cs = [] \<or> lo \<le> length (cData c) \<Longrightarrow> sized lo hi cs \<Longrightarrow> sized lo hi (c # cs)"
  by (auto simp: sized_def)

lemma chunkerI:
  assumes ok: "\<And>data. \<exists>cs. returns data cs \<and> tiles xx data 0 cs \<and> sized lo hi cs"
    and det: "\<And>data a b. returns data a \<Longrightarrow> returns data b \<Longrightarrow> a = b"
  shows "chunker xx returns lo hi"
proof
  show "\<exists>cs. returns data cs" for data using ok by blast
  fix data cs
  assume r: "returns data cs"
  obtain cs' where "returns data cs'" "tiles xx data 0 cs'" "sized lo hi cs'" using ok by blast
  with det [OF r] have "tiles xx data 0 cs" and s: "sized lo hi cs" by simp_all
  then show "tiles xx data 0 cs" by simp
  show "length (cData c) \<le> hi" if "c \<in> set cs" for c using s that by (simp add: sized_def)
  show "lo \<le> length (cData c)" if "c \<in> set (butlast cs)" for c using s that by (simp add: sized_def)
qed

lemma fixed_loop_step:
  assumes "offset < length data" "0 < step"
  shows "fixed_loop xx data step offset =
    makeChunk xx data offset (min (length data) (offset + step)) # fixed_loop xx data step (offset + step)"
  using assms by (subst fixed_loop.simps) (auto simp: Let_def makeChunk_def min_def length_slice)

lemma fixed_loop_tiles:
  assumes "0 < step"
  shows "tiles xx data (min offset (length data)) (fixed_loop xx data step offset)
    \<and> sized step step (fixed_loop xx data step offset)"
proof (induction "length data - offset" arbitrary: offset rule: less_induct)
  case less
  show ?case
  proof (cases "offset < length data")
    case True
    have IH: "tiles xx data (min (offset + step) (length data)) (fixed_loop xx data step (offset + step))"
      "sized step step (fixed_loop xx data step (offset + step))"
      using less [of "offset + step"] True assms by simp_all
    have "fixed_loop xx data step (offset + step) = [] \<or> min (length data) (offset + step) = offset + step"
      by (subst fixed_loop.simps) auto
    moreover have "tiles xx data offset (fixed_loop xx data step offset)"
      unfolding fixed_loop_step [OF True assms]
      by (rule tiles_cut) (use True assms IH in \<open>simp_all add: min.commute\<close>)
    moreover have "min offset (length data) = offset" using True by simp
    ultimately show ?thesis
      using True IH unfolding fixed_loop_step [OF True assms]
      by (auto intro!: sized_Cons simp: length_slice)
  next
    case False
    then show ?thesis by (subst (1 2) fixed_loop.simps) simp
  qed
qed

lemma FixedChunker_Split_ok:
  assumes "0 < fcChunkSize fc"
  shows "\<exists>cs. FixedChunker_Split xx fc data = Inr cs \<and> tiles xx data 0 cs \<and>
    sized (fcChunkSize fc) (fcChunkSize fc) cs"
  using assms fixed_loop_tiles [of "fcChunkSize fc" xx data 0] by (auto simp: FixedChunker_Split_def)

lemma NewFixedChunker_pos: "0 < fcChunkSize (NewFixedChunker n)"
  by (simp add: NewFixedChunker_def DefaultChunkSize_def)

interpretation fixed_chunker: chunker xx "\<lambda>data cs. FixedChunker_Split xx (NewFixedChunker n) data = Inr cs"
  "fcChunkSize (NewFixedChunker n)" "fcChunkSize (NewFixedChunker n)" for xx n
  by (rule chunkerI) (use FixedChunker_Split_ok [OF NewFixedChunker_pos] in auto)

section \<open>The rolling-hash strategy satisfies the interface\<close>

lemma cdc_loop_ok:
  assumes "0 < cdcMaxSize c" "cdcMinSize c \<le> cdcMaxSize c"
    "start \<le> offset" "offset \<le> length data" "int (offset - start) \<le> cdcMaxSize c"
  shows "\<exists>cs. cdc_loop xx c data start offset h = Some cs \<and> tiles xx data start cs \<and>
    sized (nat (cdcMinSize c)) (nat (cdcMaxSize c)) cs"
  using assms(3-5)
proof (induction "2 * (length data - offset) + (if start = offset then 0 else 1)"
    arbitrary: start offset h rule: less_induct)
  case less
  show ?case
  proof (cases "offset < length data")
    case False
    with less.prems have "offset = length data" by simp
    then show ?thesis
      using less.prems tiles_rest [of start data xx]
      by (subst cdc_loop.simps) (auto simp: sized_def length_slice)
  next
    case True
    note step = cdc_loop.simps [of xx c data start offset h]
    have dec: "2 * (length data - Suc offset) + k < 2 * (length data - offset) + m" if "k < 2" for k m
      using True that by simp
    show ?thesis
    proof (cases "cdcMaxSize c \<le> int (offset - start)")
      case max: True
      with assms(1) have lt: "start < offset" by simp
      with True obtain cs where cs: "cdc_loop xx c data offset offset 0 = Some cs"
        "tiles xx data offset cs" "sized (nat (cdcMinSize c)) (nat (cdcMaxSize c)) cs"
        using less.hyps [of offset offset 0] assms(1) by auto
      show ?thesis
        using True max lt cs less.prems assms(2)
        by (subst step) (auto intro!: tiles_cut sized_Cons)
    next
      case no_max: False
      let ?h = "cdc_roll data start offset h"
      show ?thesis
      proof (cases "(cdcMinSize c \<le> int (offset - start) \<and> start + CDCWindowSize \<le> offset)
             \<and> ?h mod of_int (cdcTargetSize c) = 0")
        case cut: True
        obtain cs where cs: "cdc_loop xx c data (offset + 1) (offset + 1) 0 = Some cs"
          "tiles xx data (offset + 1) cs" "sized (nat (cdcMinSize c)) (nat (cdcMaxSize c)) cs"
          using less.hyps [of "offset + 1" "offset + 1" 0] True dec [of 0] assms(1) by auto
        show ?thesis
          using True no_max cut cs less.prems
          by (subst step) (auto simp: Let_def intro!: tiles_cut sized_Cons)
      next
        case no_cut: False
        have fits: "int (Suc offset - start) \<le> cdcMaxSize c" using no_max by simp
        obtain cs where cs: "cdc_loop xx c data start (offset + 1) ?h = Some cs"
          "tiles xx data start cs" "sized (nat (cdcMinSize c)) (nat (cdcMaxSize c)) cs"
          using less.hyps [of "offset + 1" start ?h] True fits less.prems dec [of 1] by auto
        show ?thesis
          using True no_max no_cut cs by (subst step) (auto simp: Let_def del: mod_0_imp_dvd)
      qed
    qed
  qed
qed

lemma CDCChunker_Split_ok:
  assumes "0 < t"
  shows "\<exists>cs. CDCChunker_Split xx (NewCDCChunker t) data = Some cs \<and> tiles xx data 0 cs \<and>
    sized (nat (t div 4)) (nat (2 * t)) cs"
proof -
  let ?c = "NewCDCChunker t"
  have c: "0 < cdcMaxSize ?c" "cdcMinSize ?c \<le> cdcMaxSize ?c"
    using assms by (simp_all add: NewCDCChunker_def sdiv_four)
  have f: "cdcMinSize ?c = t div 4" "cdcMaxSize ?c = 2 * t" using assms by (simp_all add: NewCDCChunker_def sdiv_four)
  consider "data = []" | "data \<noteq> []" "int (length data) \<le> t div 4" | "data \<noteq> []" "\<not> int (length data) \<le> t div 4"
    by blast
  then show ?thesis
  proof cases
    case 2
    have "length data \<le> nat (2 * t)" using 2(2) assms by linarith
    with 2 show ?thesis
      using tiles_cut [of 0 "length data" data xx "[]"] by (auto simp: CDCChunker_Split_def f sized_def)
  qed (use cdc_loop_ok [OF c, of 0 0 data xx 0] c(1) in \<open>auto simp: CDCChunker_Split_def f\<close>)
qed

text \<open>The constructor accepts a target size that is zero or negative, and then the loop runs forever.\<close>

lemma cdc_loop_diverges:
  assumes "cdcMaxSize c \<le> 0" "offset < length data"
  shows "cdc_loop xx c data offset offset 0 = None"
proof (rule ccontr)
  assume "cdc_loop xx c data offset offset 0 \<noteq> None"
  then obtain cs where cs: "cdc_loop xx c data offset offset 0 = Some cs" by blast
  have "cdc_loop xx c data offset offset 0 =
      Option.bind (cdc_loop xx c data offset offset 0) (\<lambda>chunks. Some (makeChunk xx data offset offset # chunks))"
    using assms by (subst cdc_loop.simps) simp
  with cs show False by simp
qed

lemma CDCChunker_diverges_iff:
  "CDCChunker_Split xx (NewCDCChunker t) data = None \<longleftrightarrow> t \<le> 0 \<and> data \<noteq> []"
proof (cases "t \<le> 0")
  case True
  then have "cdcMaxSize (NewCDCChunker t) \<le> 0" "\<not> int (length data) \<le> cdcMinSize (NewCDCChunker t) \<or> data = []"
    using sdiv_four(2) [of t] by (cases data; simp add: NewCDCChunker_def)+
  with True show ?thesis
    using cdc_loop_diverges [of "NewCDCChunker t" 0 data xx] by (auto simp: CDCChunker_Split_def)
next
  case False
  then show ?thesis using CDCChunker_Split_ok [of t xx data] by auto
qed

interpretation cdc_chunker: chunker xx "\<lambda>data cs. CDCChunker_Split xx (NewCDCChunker (int (Suc t))) data = Some cs"
  "Suc t div 4" "2 * Suc t" for xx t
proof (rule chunkerI)
  have n: "nat (int (Suc t) div 4) = Suc t div 4" "nat (2 * int (Suc t)) = 2 * Suc t" by linarith+
  show "\<exists>cs. CDCChunker_Split xx (NewCDCChunker (int (Suc t))) data = Some cs \<and> tiles xx data 0 cs \<and>
      sized (Suc t div 4) (2 * Suc t) cs" for data
    using CDCChunker_Split_ok [of "int (Suc t)" xx data, unfolded n] by simp
qed simp

section \<open>The rolling hash is the hash of the window\<close>

definition window_hash :: "bytes \<Rightarrow> u64" where
  "window_hash ws = foldl (\<lambda>h b. h * prime64 + ucast b) 0 ws"

lemma window_hash_snoc: "window_hash (ws @ [b]) = window_hash ws * prime64 + ucast b"
  by (simp add: window_hash_def)

lemma foldl_hash_shift:
  "foldl (\<lambda>h b. h * prime64 + ucast b) a ws = a * prime64 ^ length ws + window_hash (ws :: bytes)"
proof (induction ws rule: rev_induct)
  case Nil
  then show ?case by (simp add: window_hash_def)
next
  case (snoc b ws)
  then show ?case by (simp add: window_hash_snoc algebra_simps)
qed

lemma window_hash_Cons: "window_hash (b # ws) = ucast b * prime64 ^ length ws + window_hash ws"
  using foldl_hash_shift [of "ucast b" ws] by (simp add: window_hash_def)

lemma primePower_eq: "primePower = prime64 ^ CDCWindowSize"
proof -
  have "fold (\<lambda>i p. p * prime64) [0..<n] 1 = prime64 ^ n" for n
    by (induction n) (simp_all add: mult.commute)
  then show ?thesis by (simp add: primePower_def)
qed

lemma slice_snoc: "s \<le> e \<Longrightarrow> e < length xs \<Longrightarrow> slice xs s (Suc e) = slice xs s e @ [xs ! e]"
  by (simp add: slice_def Suc_diff_le take_Suc_conv_app_nth)

lemma slice_head: "s < e \<Longrightarrow> e \<le> length xs \<Longrightarrow> slice xs s e = xs ! s # slice xs (Suc s) e"
proof -
  assume a: "s < e" "e \<le> length xs"
  then have "drop s xs = xs ! s # drop (Suc s) xs" by (simp add: Cons_nth_drop_Suc)
  moreover have "e - s = Suc (e - Suc s)" using a by simp
  ultimately show ?thesis by (simp add: slice_def)
qed

text \<open>The bytes the hash covers: at most the last eight of the current chunk.\<close>

definition cdc_window :: "bytes \<Rightarrow> nat \<Rightarrow> nat \<Rightarrow> bytes" where
  "cdc_window data start offset = slice data (max start (offset - CDCWindowSize)) offset"

lemma cdc_roll_window:
  assumes "start \<le> offset" "offset < length data"
  shows "cdc_roll data start offset (window_hash (cdc_window data start offset)) =
    window_hash (cdc_window data start (Suc offset))"
proof (cases "start + CDCWindowSize \<le> offset")
  case True
  let ?o = "offset - CDCWindowSize"
  have w: "max start (offset - CDCWindowSize) = ?o" "max start (Suc offset - CDCWindowSize) = Suc ?o"
    using True by (simp_all add: Suc_diff_le)
  have lt: "?o < offset" using True by (simp add: CDCWindowSize_def)
  have old: "slice data ?o offset = data ! ?o # slice data (Suc ?o) offset"
    using lt assms(2) by (simp add: slice_head)
  have new: "slice data (Suc ?o) (Suc offset) = slice data (Suc ?o) offset @ [data ! offset]"
    using lt assms(2) by (simp add: slice_snoc)
  have len: "Suc (length (slice data (Suc ?o) offset)) = CDCWindowSize"
    using lt True assms(2) by (simp add: Suc_diff_le)
  have p: "primePower = prime64 ^ length (slice data (Suc ?o) offset) * prime64"
    using arg_cong [OF len, of "\<lambda>n. prime64 ^ n"] by (simp add: primePower_eq mult.commute)
  show ?thesis
    unfolding cdc_window_def w old new window_hash_snoc window_hash_Cons cdc_roll_def p
    using True by (simp add: algebra_simps)
next
  case False
  then have "max start (offset - CDCWindowSize) = start" "max start (Suc offset - CDCWindowSize) = start"
    by simp_all
  with False assms show ?thesis
    by (simp add: cdc_window_def cdc_roll_def slice_snoc window_hash_snoc)
qed

text \<open>The reference recomputes the hash of the window at every byte.\<close>

partial_function (option) cdc_ref_loop ::
  "(bytes \<Rightarrow> u64) \<Rightarrow> CDCChunker \<Rightarrow> bytes \<Rightarrow> nat \<Rightarrow> nat \<Rightarrow> Chunk list option" where
  "cdc_ref_loop xx c data start offset =
     (if offset < length data then
        if cdcMaxSize c \<le> int (offset - start) then
          Option.bind (cdc_ref_loop xx c data offset offset)
            (\<lambda>chunks. Some (makeChunk xx data start offset # chunks))
        else
          if cdcMinSize c \<le> int (offset - start) \<and> start + CDCWindowSize \<le> offset \<and>
             window_hash (cdc_window data start (Suc offset)) mod of_int (cdcTargetSize c) = 0
          then Option.bind (cdc_ref_loop xx c data (offset + 1) (offset + 1))
                 (\<lambda>chunks. Some (makeChunk xx data start (offset + 1) # chunks))
          else cdc_ref_loop xx c data start (offset + 1)
      else Some (if start < length data then [makeChunk xx data start (length data)] else []))"

lemma cdc_window_empty [simp]: "window_hash (cdc_window data offset offset) = 0"
  by (simp add: cdc_window_def window_hash_def)

lemma cdc_loop_ref:
  assumes "0 < cdcMaxSize c" "start \<le> offset"
  shows "cdc_loop xx c data start offset (window_hash (cdc_window data start offset)) =
    cdc_ref_loop xx c data start offset"
  using assms(2)
proof (induction "2 * (length data - offset) + (if start = offset then 0 else 1)"
    arbitrary: start offset rule: less_induct)
  case less
  show ?case
  proof (cases "offset < length data")
    case False
    then show ?thesis by (simp add: cdc_loop.simps cdc_ref_loop.simps)
  next
    case True
    have dec: "2 * (length data - Suc offset) + k < 2 * (length data - offset) + m" if "k < 2" for k m
      using True that by simp
    have a: "start < offset \<Longrightarrow> cdc_loop xx c data offset offset 0 = cdc_ref_loop xx c data offset offset"
      using less.hyps [of offset offset] by simp
    have b: "cdc_loop xx c data (Suc offset) (Suc offset) 0 = cdc_ref_loop xx c data (Suc offset) (Suc offset)"
      using less.hyps [of "Suc offset" "Suc offset"] dec [of 0] by simp
    have d: "cdc_loop xx c data start (Suc offset) (window_hash (cdc_window data start (Suc offset))) =
        cdc_ref_loop xx c data start (Suc offset)"
      using less.hyps [of "Suc offset" start] less.prems dec [of 1] by simp
    show ?thesis
      using True a b d assms(1) less.prems cdc_roll_window [OF less.prems True]
      by (subst cdc_loop.simps, subst cdc_ref_loop.simps) (auto simp: Let_def)
  qed
qed

section \<open>The gear-hash and delimiter strategies satisfy the interface\<close>

lemma fastcdc_loop_ok:
  assumes "fcdcMinSize c \<le> fcdcMaxSize c"
  shows "i + length bs = length data \<Longrightarrow> start \<le> i \<Longrightarrow> i - start < fcdcMaxSize c \<Longrightarrow>
    tiles xx data start (fastcdc_loop xx c data start i h bs) \<and>
    sized (fcdcMinSize c) (fcdcMaxSize c) (fastcdc_loop xx c data start i h bs)"
proof (induction bs arbitrary: start i h)
  case Nil
  then show ?case using tiles_rest [of start data xx] by (auto simp: sized_def)
next
  case (Cons b bs)
  let ?h = "push_bit 1 h + gearTable xx b"
  show ?case
  proof (cases "fcdcMinSize c \<le> i - start + 1 \<and> (fcdcMaxSize c \<le> i - start + 1 \<or> ?h AND fcdcMask c = 0)")
    case True
    have "tiles xx data (i + 1) (fastcdc_loop xx c data (i + 1) (i + 1) 0 bs) \<and>
        sized (fcdcMinSize c) (fcdcMaxSize c) (fastcdc_loop xx c data (i + 1) (i + 1) 0 bs)"
      using Cons by (intro Cons.IH) simp_all
    then show ?thesis
      using Cons.prems True tiles_cut [of start "i + 1" data xx "fastcdc_loop xx c data (i + 1) (i + 1) 0 bs"]
      by (auto simp: Let_def intro!: sized_Cons)
  next
    case False
    then have "i + 1 - start < fcdcMaxSize c" using assms Cons.prems by auto
    then have "tiles xx data start (fastcdc_loop xx c data start (i + 1) ?h bs) \<and>
        sized (fcdcMinSize c) (fcdcMaxSize c) (fastcdc_loop xx c data start (i + 1) ?h bs)"
      using Cons.prems by (intro Cons.IH) simp_all
    with False show ?thesis by (simp only: fastcdc_loop.simps Let_def if_False)
  qed
qed

lemma NewFastCDCChunker_sizes:
  "0 < fcdcMaxSize (NewFastCDCChunker t)" "fcdcMinSize (NewFastCDCChunker t) \<le> fcdcMaxSize (NewFastCDCChunker t)"
  by (simp_all add: NewFastCDCChunker_def DefaultChunkSize_def Let_def)

lemma FastCDCChunker_Split_ok:
  fixes t :: int
  defines "c \<equiv> NewFastCDCChunker t"
  shows "tiles xx data 0 (FastCDCChunker_Split xx c data) \<and>
    sized (fcdcMinSize c) (fcdcMaxSize c) (FastCDCChunker_Split xx c data)"
proof (cases "data = [] \<or> \<not> length data \<le> fcdcMinSize c")
  case True
  then show ?thesis
    using fastcdc_loop_ok [of c 0 data data 0 xx 0] NewFastCDCChunker_sizes [of t]
    by (auto simp: FastCDCChunker_Split_def c_def)
next
  case False
  then show ?thesis
    using tiles_cut [of 0 "length data" data xx "[]"] NewFastCDCChunker_sizes(2) [of t]
    by (auto simp: FastCDCChunker_Split_def c_def sized_def)
qed

interpretation fastcdc_chunker: chunker xx "\<lambda>data cs. FastCDCChunker_Split xx (NewFastCDCChunker t) data = cs"
  "fcdcMinSize (NewFastCDCChunker t)" "fcdcMaxSize (NewFastCDCChunker t)" for xx t
  by (rule chunkerI) (use FastCDCChunker_Split_ok in auto)

lemma index_byte_Some: "index_byte d xs = Some i \<Longrightarrow> i < length xs \<and> xs ! i = d \<and> d \<notin> set (take i xs)"
  by (induction xs arbitrary: i) (auto split: if_splits)

lemma index_byte_None: "index_byte d xs = None \<longleftrightarrow> d \<notin> set xs"
  by (induction xs) auto

lemma semantic_chunk_len_range:
  assumes "start < length data" "0 < scMaxSize c"
  shows "0 < semantic_chunk_len c data start \<and> start + semantic_chunk_len c data start \<le> length data \<and>
    semantic_chunk_len c data start \<le> scMaxSize c"
proof -
  define e where "e = (if length data < start + scMaxSize c then length data else start + scMaxSize c)"
  have e: "start < e" "e \<le> length data" "e - start \<le> scMaxSize c" using assms by (auto simp: e_def)
  show ?thesis
    using e index_byte_Some [of "scDelimiter c" "slice data start e"]
    by (cases "index_byte (scDelimiter c) (slice data start e)")
      (fastforce simp: semantic_chunk_len_def Let_def simp flip: e_def)+
qed

text \<open>A chunk has the delimiter at most as its last byte, and a chunk without it is cut by size.\<close>

lemma semantic_chunk_delimiter:
  assumes "start < length data" "0 < scMaxSize c"
  defines "d \<equiv> slice data start (start + semantic_chunk_len c data start)"
  shows "scDelimiter c \<notin> set (butlast d)"
    "last d = scDelimiter c \<or> length d = scMaxSize c \<or> start + semantic_chunk_len c data start = length data"
proof -
  define e where "e = (if length data < start + scMaxSize c then length data else start + scMaxSize c)"
  have e: "start < e" "e \<le> length data" "e = length data \<or> e - start = scMaxSize c"
    using assms(1,2) by (auto simp: e_def)
  have "scDelimiter c \<notin> set (butlast d) \<and> (last d = scDelimiter c \<or> length d = scMaxSize c \<or>
      start + semantic_chunk_len c data start = length data)"
  proof (cases "index_byte (scDelimiter c) (slice data start e)")
    case None
    then have "semantic_chunk_len c data start = e - start"
      by (simp add: semantic_chunk_len_def Let_def flip: e_def)
    moreover have "scDelimiter c \<notin> set (slice data start e)" using None by (simp add: index_byte_None)
    ultimately show ?thesis using e by (auto simp: d_def dest: in_set_butlastD)
  next
    case (Some i)
    then have l: "semantic_chunk_len c data start = Suc i"
      by (simp add: semantic_chunk_len_def Let_def flip: e_def)
    from index_byte_Some [OF Some] e have i: "start + i < e" "data ! (start + i) = scDelimiter c"
      "scDelimiter c \<notin> set (take i (slice data start e))"
      by (auto simp: nth_slice)
    have "d = slice data start (start + i) @ [data ! (start + i)]"
      using i(1) e by (simp add: d_def l slice_snoc)
    moreover have "take i (slice data start e) = slice data start (start + i)"
      using i(1) by (simp add: slice_def)
    ultimately show ?thesis using i by simp
  qed
  then show "scDelimiter c \<notin> set (butlast d)"
    "last d = scDelimiter c \<or> length d = scMaxSize c \<or> start + semantic_chunk_len c data start = length data"
    by simp_all
qed

lemma semantic_loop_step:
  assumes "start < length data" "0 < scMaxSize c"
  shows "semantic_loop xx c data start =
    makeChunk xx data start (start + semantic_chunk_len c data start) #
    semantic_loop xx c data (start + semantic_chunk_len c data start)"
  using semantic_chunk_len_range [OF assms] assms
  by (subst semantic_loop.simps) (simp add: Let_def makeChunk_def)

lemma semantic_loop_ok:
  assumes "0 < scMaxSize c" "start \<le> length data"
  shows "tiles xx data start (semantic_loop xx c data start) \<and>
    sized 1 (scMaxSize c) (semantic_loop xx c data start)"
  using assms(2)
proof (induction "length data - start" arbitrary: start rule: less_induct)
  case less
  show ?case
  proof (cases "start < length data")
    case True
    note r = semantic_chunk_len_range [OF True assms(1)]
    note IH = less.hyps [of "start + semantic_chunk_len c data start"]
    show ?thesis
      unfolding semantic_loop_step [OF True assms(1)]
      using r IH True by (auto intro!: sized_Cons tiles_cut)
  next
    case False
    then show ?thesis using less.prems by (simp add: semantic_loop.simps)
  qed
qed

lemma SemanticChunker_Split_ok:
  "tiles xx data 0 (SemanticChunker_Split xx (NewSemanticChunker d m) data) \<and>
   sized 1 (scMaxSize (NewSemanticChunker d m)) (SemanticChunker_Split xx (NewSemanticChunker d m) data)"
  using semantic_loop_ok [of "NewSemanticChunker d m" 0 data xx]
  by (auto simp: SemanticChunker_Split_def NewSemanticChunker_def)

interpretation semantic_chunker: chunker xx "\<lambda>data cs. SemanticChunker_Split xx (NewSemanticChunker d m) data = cs"
  1 "scMaxSize (NewSemanticChunker d m)" for xx d m
  by (rule chunkerI) (use SemanticChunker_Split_ok in auto)

lemma semantic_loop_delimiter:
  assumes "0 < scMaxSize c"
  shows "(\<forall>x \<in> set (semantic_loop xx c data start). scDelimiter c \<notin> set (butlast (cData x))) \<and>
    (\<forall>x \<in> set (butlast (semantic_loop xx c data start)).
       last (cData x) = scDelimiter c \<or> length (cData x) = scMaxSize c)"
proof (induction "length data - start" arbitrary: start rule: less_induct)
  case less
  show ?case
  proof (cases "start < length data")
    case True
    let ?e = "start + semantic_chunk_len c data start"
    note r = semantic_chunk_len_range [OF True assms(1)] and d = semantic_chunk_delimiter [OF True assms(1)]
    have "semantic_loop xx c data ?e = []" if "?e = length data"
      using that by (simp add: semantic_loop.simps)
    moreover have "length data - ?e < length data - start" using r by linarith
    note IH = less.hyps [OF this]
    ultimately show ?thesis
      unfolding semantic_loop_step [OF True assms(1)] using d r IH by auto
  next
    case False
    then show ?thesis by (simp add: semantic_loop.simps)
  qed
qed

section \<open>Properties of the chunkers\<close>

text \<open>
  C32. Every strategy is total and lossless: on any input each of the four chunkers returns
  chunks whose reassembly is the input, whatever the hash function is (the rolling-hash strategy for
  a positive target size; sizes so close to \<open>2 ^ 63\<close> that a sum with them wraps are not modelled).
\<close>

theorem chunkers_reassemble:
  "(\<exists>cs. FixedChunker_Split xx (NewFixedChunker n) data = Inr cs \<and> Reassemble cs = data) \<and>
   (\<exists>cs. CDCChunker_Split xx (NewCDCChunker (int (Suc t))) data = Some cs \<and> Reassemble cs = data) \<and>
   Reassemble (FastCDCChunker_Split xx (NewFastCDCChunker u) data) = data \<and>
   Reassemble (SemanticChunker_Split xx (NewSemanticChunker d m) data) = data"
proof (intro conjI)
  show "\<exists>cs. FixedChunker_Split xx (NewFixedChunker n) data = Inr cs \<and> Reassemble cs = data"
    using fixed_chunker.total fixed_chunker.reassembles by blast
  show "\<exists>cs. CDCChunker_Split xx (NewCDCChunker (int (Suc t))) data = Some cs \<and> Reassemble cs = data"
    using cdc_chunker.total cdc_chunker.reassembles by blast
qed (rule fastcdc_chunker.reassembles [OF refl] semantic_chunker.reassembles [OF refl])+

text \<open>
  C38. Termination of the rolling-hash chunker: it fails to return exactly when its target
  size is zero or negative and its input is not empty (target sizes whose double is still an
  \<open>int\<close>). The constructor rejects neither.
\<close>

theorem cdc_diverges_iff:
  "CDCChunker_Split xx (NewCDCChunker t) data = None \<longleftrightarrow> t \<le> 0 \<and> data \<noteq> []"
  by (rule CDCChunker_diverges_iff)

text \<open>
  C39. For a positive target size and an input longer than the smallest chunk, the incremental hash
  of the rolling-hash chunker cuts where a chunker that hashes the last eight bytes anew at every
  position cuts.
\<close>

theorem cdc_rolling_hash_correct:
  "0 < t \<Longrightarrow> t div 4 < int (length data) \<Longrightarrow>
   CDCChunker_Split xx (NewCDCChunker t) data = cdc_ref_loop xx (NewCDCChunker t) data 0 0"
  using cdc_loop_ref [of "NewCDCChunker t" 0 0 xx data]
  by (auto simp: CDCChunker_Split_def NewCDCChunker_def sdiv_four)

theorem cdc_rolling_hash_correct_witness:
  "CDCChunker_Split (\<lambda>_. 0) (NewCDCChunker 4) [1, 2, 3] = cdc_ref_loop (\<lambda>_. 0) (NewCDCChunker 4) [1, 2, 3] 0 0"
  by (rule cdc_rolling_hash_correct) simp_all

text \<open>
  Chunk geometry of the gear-hash chunker: every chunk describes its part of the input
  (offset, size and hash), is at most \<open>maxSize\<close> long, and at least \<open>minSize\<close> unless it
  is the last one.
\<close>

lemma fastcdc_chunk_geometry:
  assumes "length data < 2 ^ 64" "c \<in> set (FastCDCChunker_Split xx (NewFastCDCChunker t) data)"
  shows "cData c = slice data (unat (cOffset c)) (unat (cOffset c) + length (cData c)) \<and>
    cSize c = of_nat (length (cData c)) \<and> cHash c = xx (cData c) \<and> cData c \<noteq> [] \<and>
    length (cData c) \<le> fcdcMaxSize (NewFastCDCChunker t) \<and>
    (c \<in> set (butlast (FastCDCChunker_Split xx (NewFastCDCChunker t) data)) \<longrightarrow>
       fcdcMinSize (NewFastCDCChunker t) \<le> length (cData c))"
  using assms fastcdc_chunker.chunk_fields [OF refl] fastcdc_chunker.nonempty [OF refl]
    fastcdc_chunker.max_size [OF refl] fastcdc_chunker.min_size [OF refl]
  by blast

text \<open>
  The delimiter chunker cuts at delimiters: no chunk contains the delimiter before its
  last byte, and every chunk but the last ends in the delimiter or has the maximal size.
\<close>

lemma semantic_cuts_at_delimiters:
  "(\<forall>x \<in> set (SemanticChunker_Split xx (NewSemanticChunker d m) data). d \<notin> set (butlast (cData x))) \<and>
   (\<forall>x \<in> set (butlast (SemanticChunker_Split xx (NewSemanticChunker d m) data)).
      last (cData x) = d \<or> length (cData x) = scMaxSize (NewSemanticChunker d m))"
  using semantic_loop_delimiter [of "NewSemanticChunker d m" xx data 0]
  by (auto simp: SemanticChunker_Split_def NewSemanticChunker_def)

end
