(* ===== verification/Semantic.thy ===== *)
theory Semantic
  imports Chunker
begin

text \<open>
  \<^verbatim>\<open>internal/semantic\<close>: the guess of a file's type from a sample and the
  chunker that cuts at the delimiters of that type. The chunker interprets the locale
  \<open>chunker\<close> for every positive maximal size; its chunks may exceed that size when it is
  below the built-in minimum of 32 bytes.
\<close>

section \<open>Type detection\<close>

text \<open>\<^verbatim>\<open>bytes.HasPrefix\<close> and \<^verbatim>\<open>bytes.Contains\<close>\<close>

definition has_prefix :: "bytes \<Rightarrow> bytes \<Rightarrow> bool" where
  "has_prefix s p \<longleftrightarrow> take (length p) s = p"

fun bytes_contain :: "bytes \<Rightarrow> bytes \<Rightarrow> bool" where
  "bytes_contain [] p = (p = [])"
| "bytes_contain (b # bs) p = (has_prefix (b # bs) p \<or> bytes_contain bs p)"

text \<open>The scan for an opening bracket after white space.\<close>

fun starts_json :: "bytes \<Rightarrow> bool" where
  "starts_json [] = False"
| "starts_json (b # bs) =
     (if b = 0x7B \<or> b = 0x5B then True
      else if b \<noteq> 0x20 \<and> b \<noteq> 0x09 \<and> b \<noteq> 0x0A \<and> b \<noteq> 0x0D then False
      else starts_json bs)"

definition DetectHeuristicExtension :: "bytes \<Rightarrow> string" where
  "DetectHeuristicExtension sample =
     (if sample = [] then ''UNKNOWN''
      else if 4 \<le> length sample \<and> has_prefix sample [0x7F, 0x45, 0x4C, 0x46] then ''ELF''
      else if 4 \<le> length sample \<and> has_prefix sample [0x50, 0x4B, 0x03, 0x04] then ''ZIP''
      else if 4 \<le> length sample \<and> has_prefix sample [0x89, 0x50, 0x4E, 0x47] then ''PNG''
      else if starts_json sample then
        (if 0x0A \<in> set sample \<and> bytes_contain sample [0x7D, 0x0A, 0x7B] then ''JSONL'' else ''JSON'')
      else
        (let newlineCount = length (filter (\<lambda>b. b = 0x0A) sample);
             nonPrintable = length (filter (\<lambda>b. b < 32 \<and> b \<noteq> 0x0A \<and> b \<noteq> 0x0D \<and> b \<noteq> 0x09) sample)
         in if 5 < newlineCount \<and> nonPrintable < length sample div 10 then ''LINES'' else ''UNKNOWN''))"

section \<open>The contextual chunker\<close>

record ContextualChunker =
  ccFileType :: string
  ccMaxSize :: nat
  ccMinSize :: nat

definition NewContextualChunker :: "string \<Rightarrow> nat \<Rightarrow> ContextualChunker" where
  "NewContextualChunker fileType maxSize = \<lparr>ccFileType = fileType, ccMaxSize = maxSize, ccMinSize = 32\<rparr>"

definition contextual_delim :: "ContextualChunker \<Rightarrow> byte \<Rightarrow> bool" where
  "contextual_delim s b \<longleftrightarrow>
     b = (if ccFileType s = ''JSON'' then 0x7D else 0x0A) \<or> ccFileType s = ''JSON'' \<and> b = 0x2C"

text \<open>The end of the chunk that starts at \<open>left\<close>.\<close>

definition contextual_right :: "ContextualChunker \<Rightarrow> bytes \<Rightarrow> nat \<Rightarrow> nat" where
  "contextual_right s data left =
     (let right = left + ccMinSize s in
      if length data \<le> right then length data
      else
        (let maxRight = (if length data < left + ccMaxSize s then length data else left + ccMaxSize s)
         in case find (\<lambda>i. contextual_delim s (data ! i)) [right..<maxRight] of
              Some i \<Rightarrow> i + 1
            | None \<Rightarrow> maxRight))"

partial_function (option) contextual_loop ::
  "(bytes \<Rightarrow> u64) \<Rightarrow> ContextualChunker \<Rightarrow> bytes \<Rightarrow> u64 \<Rightarrow> nat \<Rightarrow> Chunk list option" where
  "contextual_loop xx s data offset left =
     (if left < length data
      then (let right = contextual_right s data left;
                chunkData = slice data left right
            in Option.bind (contextual_loop xx s data (offset + of_nat (length chunkData)) right)
                 (\<lambda>chunks. Some (\<lparr>cData = chunkData, cOffset = offset, cSize = of_nat (length chunkData),
                                   cHash = xx chunkData\<rparr> # chunks)))
      else Some [])"

definition ContextualChunker_Split :: "(bytes \<Rightarrow> u64) \<Rightarrow> ContextualChunker \<Rightarrow> bytes \<Rightarrow> Chunk list option" where
  "ContextualChunker_Split xx s data =
     (if data = [] then Some []
      else if ccFileType s \<in> {''UNKNOWN'', ''ELF'', ''ZIP'', ''PNG''} then
        (case FixedChunker_Split xx (NewFixedChunker (int (ccMaxSize s))) data of
           Inr chunks \<Rightarrow> Some chunks
         | Inl e \<Rightarrow> None)
      else contextual_loop xx s data 0 0)"

section \<open>The contextual chunker satisfies the interface\<close>

lemma contextual_right_range:
  assumes "left < length data" "ccMinSize s = 32" "0 < ccMaxSize s"
  shows "left < contextual_right s data left \<and> contextual_right s data left \<le> length data \<and>
    contextual_right s data left - left \<le> max 32 (ccMaxSize s) \<and>
    (contextual_right s data left = length data \<or> min 32 (ccMaxSize s) \<le> contextual_right s data left - left)"
proof (cases "length data \<le> left + 32")
  case True
  with assms show ?thesis by (auto simp: contextual_right_def)
next
  case False
  define m where "m = (if length data < left + ccMaxSize s then length data else left + ccMaxSize s)"
  have m: "left < m" "m \<le> length data" "m - left \<le> ccMaxSize s" "m = length data \<or> m = left + ccMaxSize s"
    using assms by (auto simp: m_def)
  have r: "contextual_right s data left =
      (case find (\<lambda>i. contextual_delim s (data ! i)) [left + 32..<m] of Some i \<Rightarrow> i + 1 | None \<Rightarrow> m)"
    using False assms by (simp add: contextual_right_def Let_def flip: m_def)
  show ?thesis
  proof (cases "find (\<lambda>i. contextual_delim s (data ! i)) [left + 32..<m]")
    case None
    with m r show ?thesis by auto
  next
    case (Some i)
    then have "left + 32 \<le> i" "i < m" by (auto simp: find_Some_iff)
    with Some m r show ?thesis by auto
  qed
qed

lemma contextual_loop_ok:
  assumes "ccMinSize s = 32" "0 < ccMaxSize s" "left \<le> length data"
  shows "\<exists>cs. contextual_loop xx s data (of_nat left) left = Some cs \<and> tiles xx data left cs \<and>
    sized (min 32 (ccMaxSize s)) (max 32 (ccMaxSize s)) cs"
  using assms(3)
proof (induction "length data - left" arbitrary: left rule: less_induct)
  case less
  show ?case
  proof (cases "left < length data")
    case False
    with less.prems show ?thesis by (subst contextual_loop.simps) simp
  next
    case True
    let ?r = "contextual_right s data left"
    note r = contextual_right_range [OF True assms(1,2)]
    have "length data - ?r < length data - left" using r by linarith
    then obtain cs where cs: "contextual_loop xx s data (of_nat ?r) ?r = Some cs" "tiles xx data ?r cs"
      "sized (min 32 (ccMaxSize s)) (max 32 (ccMaxSize s)) cs"
      using less.hyps [of ?r] r by blast
    have off: "(of_nat left :: u64) + of_nat (length (slice data left ?r)) = of_nat ?r"
      using r by (simp flip: of_nat_add)
    have last: "cs = []" if "?r = length data"
      using cs(1) that by (subst (asm) contextual_loop.simps) simp
    have "contextual_loop xx s data (of_nat left) left = Some (makeChunk xx data left ?r # cs)"
      using True cs(1) off by (subst contextual_loop.simps) (simp add: Let_def makeChunk_def)
    moreover have "tiles xx data left (makeChunk xx data left ?r # cs)"
      using r cs(2) by (intro tiles_cut) simp_all
    moreover have "sized (min 32 (ccMaxSize s)) (max 32 (ccMaxSize s)) (makeChunk xx data left ?r # cs)"
      using r cs(3) last by (intro sized_Cons) auto
    ultimately show ?thesis by blast
  qed
qed

lemma ContextualChunker_Split_ok:
  assumes "0 < m"
  shows "\<exists>cs. ContextualChunker_Split xx (NewContextualChunker ft m) data = Some cs \<and> tiles xx data 0 cs \<and>
    sized (min 32 m) (max 32 m) cs"
proof (cases "data = [] \<or> ft \<notin> {''UNKNOWN'', ''ELF'', ''ZIP'', ''PNG''}")
  case True
  then show ?thesis
    using contextual_loop_ok [of "NewContextualChunker ft m" 0 data xx] assms
    by (auto simp: ContextualChunker_Split_def NewContextualChunker_def)
next
  case False
  obtain cs where "FixedChunker_Split xx (NewFixedChunker (int m)) data = Inr cs" "tiles xx data 0 cs" "sized m m cs"
    using FixedChunker_Split_ok [OF NewFixedChunker_pos [of "int m"], of xx data] assms
    by (auto simp: NewFixedChunker_def)
  with False show ?thesis
    by (auto simp: ContextualChunker_Split_def NewContextualChunker_def sized_def)
qed

interpretation contextual_chunker: chunker xx
  "\<lambda>data cs. ContextualChunker_Split xx (NewContextualChunker ft (Suc m)) data = Some cs"
  "min 32 (Suc m)" "max 32 (Suc m)" for xx ft m
  by (rule chunkerI) (use ContextualChunker_Split_ok [of "Suc m"] in auto)

text \<open>With a maximal size of 0 the cut does not advance past the minimum, and the loop runs forever.\<close>

lemma contextual_loop_diverges:
  assumes "ccMinSize s = 32" "ccMaxSize s = 0" "left + 32 < length data"
  shows "contextual_loop xx s data offset left = None"
proof (rule ccontr)
  assume "contextual_loop xx s data offset left \<noteq> None"
  then obtain cs where cs: "contextual_loop xx s data offset left = Some cs" by blast
  have "contextual_right s data left = left"
    using assms by (simp add: contextual_right_def)
  then have "contextual_loop xx s data offset left = Option.bind (contextual_loop xx s data offset left)
      (\<lambda>chunks. Some (\<lparr>cData = [], cOffset = offset, cSize = 0, cHash = xx []\<rparr> # chunks))"
    using assms by (subst contextual_loop.simps) simp
  with cs show False by simp
qed

section \<open>Properties of the contextual chunker\<close>

text \<open>
  The contextual chunker, for the type guessed from any sample and any positive maximal
  size, returns chunks that reassemble to the input; each has at most \<open>max 32 maxSize\<close>
  bytes, so the configured maximum holds only from 32 on.
\<close>

lemma contextual_split_sound:
  "\<exists>cs. ContextualChunker_Split xx (NewContextualChunker (DetectHeuristicExtension sample) (Suc m)) data = Some cs \<and>
        Reassemble cs = data \<and> list_all (\<lambda>c. length (cData c) \<le> max 32 (Suc m)) cs"
proof -
  obtain cs where cs: "ContextualChunker_Split xx (NewContextualChunker (DetectHeuristicExtension sample) (Suc m)) data = Some cs"
    using contextual_chunker.total by blast
  show ?thesis
    using cs contextual_chunker.reassembles [OF cs] contextual_chunker.max_size [OF cs]
    by (auto simp: list_all_iff)
qed

end
