(* ===== verification/Externals.thy ===== *)
theory Externals
  imports Crom_Prelude
begin

text \<open>
  The code the program calls and does not contain, as one record of functions: the hashes,
  AES-GCM, PBKDF2, HMAC and Ed25519 of the Go libraries and the Zstandard codec. Every
  definition that calls them takes this record; what a theorem relies on is one of the
  predicates below, each stating documented behaviour of the library. The instance \<open>toy_ext\<close>
  satisfies all of them, so no theorem rests on contradictory assumptions.

  Randomness is an argument: a function that draws a nonce takes the bytes drawn.
\<close>

section \<open>The library functions\<close>

record ext =
  xxhash :: "bytes \<Rightarrow> u64"
  sha256 :: "bytes \<Rightarrow> bytes"
  hmac_sha256 :: "bytes \<Rightarrow> bytes \<Rightarrow> bytes"
  pbkdf2 :: "bytes \<Rightarrow> bytes \<Rightarrow> bytes"
  gcm_seal :: "bytes \<Rightarrow> bytes \<Rightarrow> bytes \<Rightarrow> bytes"
  gcm_open :: "bytes \<Rightarrow> bytes \<Rightarrow> bytes \<Rightarrow> bytes option"
  ed25519_sign :: "bytes \<Rightarrow> bytes \<Rightarrow> bytes"
  ed25519_verify :: "bytes \<Rightarrow> bytes \<Rightarrow> bytes \<Rightarrow> bool"
  zstd_encode :: "nat \<Rightarrow> bytes \<Rightarrow> bytes \<Rightarrow> bytes"
  zstd_decode :: "bytes \<Rightarrow> bytes \<Rightarrow> bytes option"
  zstd_decode_max :: "nat \<Rightarrow> bytes \<Rightarrow> bytes option"

text \<open>
  \<open>zstd_encode l d p\<close> is the frame of \<open>p\<close> at level \<open>l\<close> with the raw dictionary \<open>d\<close>
  (empty for none; an encoder may write no frame at all for empty content), \<open>zstd_decode d\<close> reads frames with that dictionary, and
  \<open>zstd_decode_max m\<close> is a decoder limited to \<open>m\<close> bytes of output.
\<close>

section \<open>Documented behaviour\<close>

definition zstd_ok :: "ext \<Rightarrow> bool" where
  "zstd_ok X \<longleftrightarrow>
     (\<forall>l d p. zstd_decode X d (zstd_encode X l d p) = Some p) \<and>
     (\<forall>l d p. p \<noteq> [] \<longrightarrow> zstd_encode X l d p \<noteq> []) \<and>
     (\<forall>l p m. length p \<le> m \<longrightarrow> zstd_decode_max X m (zstd_encode X l [] p) = Some p)"

text \<open>Incompressible data is stored in raw blocks, so a frame exceeds its content by little.\<close>

definition zstd_bound :: "ext \<Rightarrow> bool" where
  "zstd_bound X \<longleftrightarrow> (\<forall>l d p. length (zstd_encode X l d p) \<le> length p + length p div 256 + 64)"

definition gcm_ok :: "ext \<Rightarrow> bool" where
  "gcm_ok X \<longleftrightarrow>
     (\<forall>k n p. gcm_open X k n (gcm_seal X k n p) = Some p) \<and>
     (\<forall>k n p. length (gcm_seal X k n p) = length p + 16)"

definition hash_sizes_ok :: "ext \<Rightarrow> bool" where
  "hash_sizes_ok X \<longleftrightarrow>
     (\<forall>p. length (sha256 X p) = 32) \<and> (\<forall>k p. length (hmac_sha256 X k p) = 32) \<and>
     (\<forall>p s. length (pbkdf2 X p s) = 32)"

lemma zstd_ok_simps:
  assumes "zstd_ok X"
  shows "zstd_decode X d (zstd_encode X l d p) = Some p" "p \<noteq> [] \<Longrightarrow> zstd_encode X l d p \<noteq> []"
    "length p \<le> m \<Longrightarrow> zstd_decode_max X m (zstd_encode X l [] p) = Some p"
  using assms by (simp_all add: zstd_ok_def)

lemma gcm_ok_simps:
  assumes "gcm_ok X"
  shows "gcm_open X k n (gcm_seal X k n p) = Some p" "length (gcm_seal X k n p) = length p + 16"
  using assms by (simp_all add: gcm_ok_def)

lemma hash_sizes:
  assumes "hash_sizes_ok X"
  shows "length (sha256 X p) = 32" "length (hmac_sha256 X k p) = 32" "length (pbkdf2 X p s) = 32"
  using assms by (simp_all add: hash_sizes_ok_def)

section \<open>An instance\<close>

definition pad32 :: "bytes \<Rightarrow> bytes" where
  "pad32 p = take 32 (p @ zeros 32)"

definition toy_ext :: ext where
  "toy_ext =
     \<lparr>xxhash = (\<lambda>p. of_nat (length p)), sha256 = pad32, hmac_sha256 = (\<lambda>k p. pad32 (k @ p)),
      pbkdf2 = (\<lambda>p s. pad32 (p @ s)),
      gcm_seal = (\<lambda>k n p. p @ zeros 16),
      gcm_open = (\<lambda>k n c. if length c < 16 then None else Some (take (length c - 16) c)),
      ed25519_sign = (\<lambda>k p. p), ed25519_verify = (\<lambda>k p s. p = s),
      zstd_encode = (\<lambda>l d p. 40 # p),
      zstd_decode = (\<lambda>d c. case c of [] \<Rightarrow> None | b # p \<Rightarrow> Some p),
      zstd_decode_max = (\<lambda>m c. case c of [] \<Rightarrow> None | b # p \<Rightarrow> if length p \<le> m then Some p else None)\<rparr>"

lemma length_pad32 [simp]: "length (pad32 p) = 32"
  by (simp add: pad32_def del: take_append)

lemma toy_ext_ok [simp]: "zstd_ok toy_ext" "zstd_bound toy_ext" "gcm_ok toy_ext" "hash_sizes_ok toy_ext"
  by (simp_all add: zstd_ok_def zstd_bound_def gcm_ok_def hash_sizes_ok_def toy_ext_def)

end
