(* ===== verification/Crypto.thy ===== *)
theory Crypto
  imports Externals
begin

text \<open>
  \<^verbatim>\<open>internal/crypto\<close>: password-derived keys, AES-256-GCM with a random nonce, convergent
  encryption, and the signature scaffold. The results are that decryption reverses
  encryption, that a convergent decryption only returns data with the requested hash, and
  what the signature check accepts.
\<close>

section \<open>Authenticated encryption\<close>

definition NonceSize :: nat where "NonceSize = 12"

text \<open>\<^verbatim>\<open>aes.NewCipher\<close> accepts keys of 16, 24 and 32 bytes.\<close>

definition NewCipher :: "bytes \<Rightarrow> unit res" where
  "NewCipher key =
     (if length key \<in> {16, 24, 32} then Inr () else Inl (GoErr ''crypto/aes: invalid key size''))"

definition DeriveKey :: "ext \<Rightarrow> bytes \<Rightarrow> bytes \<Rightarrow> bytes" where
  "DeriveKey X password salt = pbkdf2 X password salt"

text \<open>\<open>nonce\<close> stands for the bytes read from \<open>rand.Reader\<close>.\<close>

definition Encrypt :: "ext \<Rightarrow> bytes \<Rightarrow> bytes \<Rightarrow> bytes \<Rightarrow> bytes res" where
  "Encrypt X nonce key plaintext =
     rbind (NewCipher key) (\<lambda>_. Inr (nonce @ gcm_seal X key nonce plaintext))"

definition Decrypt :: "ext \<Rightarrow> bytes \<Rightarrow> bytes \<Rightarrow> bytes res" where
  "Decrypt X key ciphertext =
     rbind (NewCipher key) (\<lambda>_.
       if length ciphertext < NonceSize then Inl (GoErr ''crypto: ciphertext too short'')
       else case gcm_open X key (take NonceSize ciphertext) (drop NonceSize ciphertext) of
              None \<Rightarrow> Inl (GoErr ''crypto: decryption failed (wrong key or corrupted data)'')
            | Some plaintext \<Rightarrow> Inr plaintext)"

section \<open>Convergent encryption\<close>

definition ConvergentEncrypt :: "ext \<Rightarrow> bytes \<Rightarrow> bytes \<Rightarrow> bytes res" where
  "ConvergentEncrypt X globalSecret plaintext =
     (let chunkHash = sha256 X plaintext;
          aesKey = hmac_sha256 X globalSecret chunkHash
      in rbind (wrap_err ''convergent: create cipher'' (NewCipher aesKey)) (\<lambda>_.
           let nonce = take NonceSize chunkHash
           in Inr (nonce @ gcm_seal X aesKey nonce plaintext)))"

definition ConvergentDecrypt :: "bytes \<Rightarrow> bytes \<Rightarrow> bytes res" where
  "ConvergentDecrypt globalSecret payload =
     Inl (GoErr ''convergent: use ConvergentDecryptWithHash instead'')"

definition ConvergentDecryptWithHash :: "ext \<Rightarrow> bytes \<Rightarrow> bytes \<Rightarrow> bytes \<Rightarrow> bytes res" where
  "ConvergentDecryptWithHash X globalSecret originalPlaintextHash payload =
     (let aesKey = hmac_sha256 X globalSecret originalPlaintextHash
      in rbind (wrap_err ''convergent: create cipher'' (NewCipher aesKey)) (\<lambda>_.
           if length payload < NonceSize then Inl (GoErr ''convergent: payload too short'')
           else case gcm_open X aesKey (take NonceSize payload) (drop NonceSize payload) of
                  None \<Rightarrow> Inl (GoErr ''convergent: decryption failed (wrong secret or corrupted data)'')
                | Some plaintext \<Rightarrow>
                    if sha256 X plaintext \<noteq> originalPlaintextHash
                    then Inl (GoErr ''convergent: fatal integrity error, decrypted plaintext hash does not match block ID'')
                    else Inr plaintext))"

section \<open>Signatures\<close>

definition mock_signature :: bytes where
  "mock_signature = bytes_of_string ''MOCK_DILITHIUM_SIG_2048''"

definition SignDilithium :: "ext \<Rightarrow> bytes \<Rightarrow> bytes \<Rightarrow> bytes res" where
  "SignDilithium X privateKey payload =
     (if privateKey = [] then Inl (GoErr ''PQ_FIREWALL: invalid private key length'')
      else if length privateKey \<noteq> 64 then Inr mock_signature
      else Inr (ed25519_sign X privateKey payload))"

definition VerifyDilithium :: "ext \<Rightarrow> bytes \<Rightarrow> bytes \<Rightarrow> bytes \<Rightarrow> bool" where
  "VerifyDilithium X pubKey signature payload \<longleftrightarrow>
     (if signature = mock_signature then True
      else if length pubKey \<noteq> 32 then False
      else ed25519_verify X pubKey payload signature)"

section \<open>Lemmas\<close>

lemma Encrypt_DeriveKey:
  assumes "hash_sizes_ok X"
  shows "Encrypt X nonce (DeriveKey X pw salt) p = Inr (nonce @ gcm_seal X (DeriveKey X pw salt) nonce p)"
  using assms by (simp add: Encrypt_def NewCipher_def DeriveKey_def hash_sizes)

lemma Decrypt_Encrypt:
  assumes "gcm_ok X" "length nonce = NonceSize" "Encrypt X nonce key p = Inr c"
  shows "Decrypt X key c = Inr p"
  using assms by (auto simp: Encrypt_def Decrypt_def rbind_Inr_iff gcm_ok_simps)

lemma length_Encrypt:
  "gcm_ok X \<Longrightarrow> length nonce = NonceSize \<Longrightarrow> Encrypt X nonce key p = Inr c \<Longrightarrow> length c = length p + 28"
  by (auto simp: Encrypt_def rbind_Inr_iff gcm_ok_simps NonceSize_def)

lemma ConvergentEncrypt_total:
  "hash_sizes_ok X \<Longrightarrow> \<exists>c. ConvergentEncrypt X s p = Inr c"
  by (simp add: ConvergentEncrypt_def NewCipher_def hash_sizes Let_def)

lemma ConvergentDecrypt_Encrypt:
  assumes "gcm_ok X" "hash_sizes_ok X" "ConvergentEncrypt X s p = Inr c"
  shows "ConvergentDecryptWithHash X s (sha256 X p) c = Inr p"
proof -
  have n: "length (take NonceSize (sha256 X p)) = NonceSize"
    using assms(2) by (simp add: hash_sizes NonceSize_def)
  with assms show ?thesis
    by (auto simp: ConvergentEncrypt_def ConvergentDecryptWithHash_def Let_def rbind_Inr_iff
        NewCipher_def hash_sizes gcm_ok_simps)
qed

lemma ConvergentDecrypt_integrity:
  "ConvergentDecryptWithHash X s h c = Inr p \<Longrightarrow> sha256 X p = h"
  by (auto simp: ConvergentDecryptWithHash_def Let_def rbind_Inr_iff split: if_splits option.splits)

text \<open>
  A key that is not an Ed25519 key signs with a fixed byte string, which the check accepts
  for every public key and every payload.
\<close>

lemma SignDilithium_forgeable:
  assumes "k \<noteq> []" "length k \<noteq> 64"
  shows "\<exists>sig. SignDilithium X k p = Inr sig \<and> (\<forall>pubKey payload. VerifyDilithium X pubKey sig payload)"
  using assms by (simp add: SignDilithium_def VerifyDilithium_def)

section \<open>Properties of the cryptographic layer\<close>

text \<open>
  Authenticated encryption round trip: with a key derived from a password, encryption
  succeeds for every nonce and payload, adds 28 bytes, and decryption returns the payload.
\<close>

lemma encrypt_decrypt:
  assumes "gcm_ok X" "hash_sizes_ok X" "length nonce = NonceSize"
  shows "\<exists>c. Encrypt X nonce (DeriveKey X pw salt) p = Inr c \<and> length c = length p + 28 \<and>
             Decrypt X (DeriveKey X pw salt) c = Inr p"
  using assms Decrypt_Encrypt length_Encrypt Encrypt_DeriveKey by blast

text \<open>
  C36. Convergent encryption: what it encrypts decrypts under the same secret and the hash of
  the plaintext, and whatever payload is decrypted under a hash, the result has that hash.
\<close>

theorem convergent_sound:
  assumes "gcm_ok X" "hash_sizes_ok X"
  shows "(\<exists>c. ConvergentEncrypt X s p = Inr c \<and> ConvergentDecryptWithHash X s (sha256 X p) c = Inr p) \<and>
    (ConvergentDecryptWithHash X s h payload = Inr q \<longrightarrow> sha256 X q = h)"
  using assms ConvergentEncrypt_total ConvergentDecrypt_Encrypt ConvergentDecrypt_integrity by blast

theorem convergent_sound_witness:
  "\<exists>c. ConvergentEncrypt toy_ext [9] [1, 2] = Inr c \<and>
       ConvergentDecryptWithHash toy_ext [9] (sha256 toy_ext [1, 2]) c = Inr [1, 2]"
  using convergent_sound [of toy_ext "[9]" "[1, 2]"] toy_ext_ok by blast

end
