(* ===== verification/Delta.thy ===== *)
theory Delta
  imports Externals
begin

text \<open>
  \<^verbatim>\<open>internal/delta\<close>: the residual of a chunk against a codeword, either the byte-wise XOR
  (\<^verbatim>\<open>xor.go\<close>) or an edit script (\<^verbatim>\<open>patch.go\<close>), and the compression of the pool of residuals
  (\<^verbatim>\<open>compress.go\<close>). The contract of a residual is the locale \<open>residual\<close>: applying the
  residual to the codeword gives the chunk back. Both kinds interpret it.
\<close>

section \<open>XOR residuals\<close>

definition XOR_delta :: "bytes \<Rightarrow> bytes \<Rightarrow> bytes" where
  "XOR_delta original pattern =
     map (\<lambda>i. if i < length pattern then original ! i XOR pattern ! i else original ! i) [0..<length original]"

definition Apply :: "bytes \<Rightarrow> bytes \<Rightarrow> bytes" where
  "Apply pattern delta =
     (if delta = [] then pattern
      else map (\<lambda>i. if i < length pattern then pattern ! i XOR delta ! i else delta ! i) [0..<length delta])"

section \<open>Edit scripts\<close>

definition OpEqual :: byte where "OpEqual = 0"
definition OpInsert :: byte where "OpInsert = 1"
definition OpDelete :: byte where "OpDelete = 2"

lemmas op_defs = OpEqual_def OpInsert_def OpDelete_def

text \<open>The entry \<open>dp[i][j]\<close> of the table, with the weight the source gives a substitution.\<close>

fun diff_dp :: "bytes \<Rightarrow> bytes \<Rightarrow> nat \<Rightarrow> nat \<Rightarrow> nat" where
  "diff_dp original pattern 0 j = j"
| "diff_dp original pattern (Suc i) 0 = Suc i"
| "diff_dp original pattern (Suc i) (Suc j) =
     (if original ! i = pattern ! j then diff_dp original pattern i j
      else let m = diff_dp original pattern i (Suc j) + 1;
               m = (if diff_dp original pattern (Suc i) j + 1 < m
                    then diff_dp original pattern (Suc i) j + 1 else m);
               m = (if diff_dp original pattern i j + 1 < m then diff_dp original pattern i j + 2 else m)
           in m)"

text \<open>The walk back from \<open>(i, j)\<close>: the operations and the inserted bytes, last one first.\<close>

fun diff_backtrack :: "bytes \<Rightarrow> bytes \<Rightarrow> nat \<Rightarrow> nat \<Rightarrow> byte list \<times> bytes" where
  "diff_backtrack original pattern 0 0 = ([], [])"
| "diff_backtrack original pattern (Suc i) 0 =
     (let (ops, data) = diff_backtrack original pattern i 0
      in (OpInsert # ops, original ! i # data))"
| "diff_backtrack original pattern 0 (Suc j) =
     (let (ops, data) = diff_backtrack original pattern 0 j
      in (OpDelete # ops, data))"
| "diff_backtrack original pattern (Suc i) (Suc j) =
     (if original ! i = pattern ! j then
        (let (ops, data) = diff_backtrack original pattern i j in (OpEqual # ops, data))
      else if diff_dp original pattern (Suc i) (Suc j) = diff_dp original pattern i j + 2 then
        (let (ops, data) = diff_backtrack original pattern i j
         in (OpDelete # OpInsert # ops, original ! i # data))
      else if diff_dp original pattern (Suc i) (Suc j) = diff_dp original pattern i (Suc j) + 1 then
        (let (ops, data) = diff_backtrack original pattern i (Suc j)
         in (OpInsert # ops, original ! i # data))
      else
        (let (ops, data) = diff_backtrack original pattern (Suc i) j
         in (OpDelete # ops, data)))"

text \<open>The length of the run at the head of the operations, at most 255.\<close>

definition run_count :: "byte list \<Rightarrow> nat" where
  "run_count ops = min 255 (length (takeWhile (\<lambda>x. x = hd ops) ops))"

function rle_script :: "byte list \<Rightarrow> bytes \<Rightarrow> bytes" where
  "rle_script [] data = []"
| "rle_script (op # ops) data =
     (let count = run_count (op # ops);
          rest = drop count (op # ops)
      in if op = OpInsert
         then [op, of_nat count] @ take count data @ rle_script rest (drop count data)
         else [op, of_nat count] @ rle_script rest data)"
  by pat_completeness auto
termination
  by (relation "measure (\<lambda>(ops, data). length ops)") (auto simp: run_count_def)

definition Diff :: "bytes \<Rightarrow> bytes \<Rightarrow> bytes" where
  "Diff original pattern =
     (let (ops, data) = diff_backtrack original pattern (length original) (length pattern)
      in rle_script (rev ops) (rev data))"

text \<open>
  The loop of \<open>ApplyPatch\<close> on the rest of the script, with the output so far. A script that
  ends after an opcode, or inside the data of an insertion, indexes out of range. Unknown
  opcodes are skipped, as the \<open>switch\<close> has no default case.
\<close>

function patch_loop :: "bytes \<Rightarrow> nat \<Rightarrow> bytes \<Rightarrow> bytes \<Rightarrow> bytes res" where
  "patch_loop pattern patIdx out [] = Inr out"
| "patch_loop pattern patIdx out [op] = Inl GoPanic"
| "patch_loop pattern patIdx out (op # cnt # script) =
     (let count = unat cnt in
      if op = OpEqual then
        (if length pattern < patIdx + count then Inl (GoErr ''bytes.Buffer: too large'')
         else patch_loop pattern (patIdx + count) (out @ slice pattern patIdx (patIdx + count)) script)
      else if op = OpInsert then
        (if length script < count then Inl GoPanic
         else patch_loop pattern patIdx (out @ take count script) (drop count script))
      else if op = OpDelete then patch_loop pattern (patIdx + count) out script
      else patch_loop pattern patIdx out script)"
  by pat_completeness auto
termination
  by (relation "measure (\<lambda>(pattern, patIdx, out, script). length script)") auto

definition ApplyPatch :: "bytes \<Rightarrow> bytes \<Rightarrow> bytes res" where
  "ApplyPatch pattern script = patch_loop pattern 0 [] script"

section \<open>The compressed pool\<close>

text \<open>Levels: 1 stands for \<open>SpeedBestCompression\<close> of the Go encoder, 19 for the C encoder's.\<close>

definition zstd_read :: "ext \<Rightarrow> bytes \<Rightarrow> bytes \<Rightarrow> bytes res" where
  "zstd_read X dict compressed =
     (case zstd_decode X dict compressed of
        None \<Rightarrow> Inl (GoErr ''delta: decompress pool'')
      | Some out \<Rightarrow> Inr out)"

definition CompressPool :: "ext \<Rightarrow> bytes \<Rightarrow> bytes res" where
  "CompressPool X pool = Inr (zstd_encode X 1 [] pool)"

definition DecompressPool :: "ext \<Rightarrow> bytes \<Rightarrow> bytes res" where
  "DecompressPool X compressed = zstd_read X [] compressed"

definition CompressPoolDict :: "ext \<Rightarrow> bytes \<Rightarrow> bytes \<Rightarrow> bytes res" where
  "CompressPoolDict X pool dict = (if pool = [] then Inr [] else Inr (zstd_encode X 1 dict pool))"

definition DecompressPoolDict :: "ext \<Rightarrow> bytes \<Rightarrow> bytes \<Rightarrow> bytes res" where
  "DecompressPoolDict X compressed dict =
     (if compressed = [] then Inr [] else zstd_read X dict compressed)"

text \<open>The build with the C encoder, and the one without it (\<open>MaxCompressionAvailable\<close>).\<close>

definition CompressPoolMax :: "ext \<Rightarrow> bool \<Rightarrow> bytes \<Rightarrow> bytes \<Rightarrow> bytes res" where
  "CompressPoolMax X cgo pool dict =
     (if \<not> cgo then Inl (GoErr ''delta: --max-compression needs a CGO build'')
      else if pool = [] then Inr []
      else Inr (zstd_encode X 19 dict pool))"

definition DecompressPoolLimit :: "ext \<Rightarrow> bytes \<Rightarrow> nat \<Rightarrow> bytes res" where
  "DecompressPoolLimit X compressed maxSize =
     (case zstd_decode X [] compressed of
        None \<Rightarrow> Inl (GoErr ''delta: decompress'')
      | Some out \<Rightarrow>
          (let out = take (maxSize + 1) out
           in if maxSize < length out then Inl (GoErr ''delta: decompressed data exceeds limit'') else Inr out))"

section \<open>The interface of residuals\<close>

locale residual =
  fixes mk :: "bytes \<Rightarrow> bytes \<Rightarrow> bytes"
    and apply_residual :: "bytes \<Rightarrow> bytes \<Rightarrow> bytes res"
    and ok :: "bytes \<Rightarrow> bytes \<Rightarrow> bool"
  assumes apply_mk: "ok original pattern \<Longrightarrow> apply_residual pattern (mk original pattern) = Inr original"
begin

lemma residual_determines_chunk:
  "ok a pattern \<Longrightarrow> ok b pattern \<Longrightarrow> mk a pattern = mk b pattern \<Longrightarrow> a = b"
  using apply_mk [of a pattern] apply_mk [of b pattern] by (metis sum.inject(2))

end

lemma length_XOR [simp]: "length (XOR_delta original pattern) = length original"
  by (simp add: XOR_delta_def)

lemma XOR_Nil_iff [simp]: "XOR_delta original pattern = [] \<longleftrightarrow> original = []"
  by (simp add: XOR_delta_def)

lemma word_xor_cancel: "p XOR (x XOR p) = (x :: 'a::len word)"
  using xor.left_commute [of p x p] by simp

lemma Apply_XOR: "original \<noteq> [] \<or> pattern = [] \<Longrightarrow> Apply pattern (XOR_delta original pattern) = original"
proof (cases "original = []")
  case False
  have "Apply pattern (XOR_delta original pattern) ! i = original ! i" if "i < length original" for i
    using that False word_xor_cancel [of "pattern ! i" "original ! i"] by (simp add: Apply_def XOR_delta_def)
  then show ?thesis using False by (intro nth_equalityI) (simp_all add: Apply_def)
qed (simp add: Apply_def)

text \<open>Storing the XOR of a chunk with the codeword it equals gives zeros.\<close>

lemma XOR_self: "XOR_delta p p = zeros (length p)"
  by (auto simp: XOR_delta_def zeros_def intro: nth_equalityI)

interpretation xor_residual: residual XOR_delta "\<lambda>pattern d. Inr (Apply pattern d)"
  "\<lambda>original pattern. original \<noteq> [] \<or> pattern = []"
  by unfold_locales (simp add: Apply_XOR)

section \<open>Edit scripts reverse\<close>

text \<open>
  The meaning of an operation list on a state of output, inserted data and remaining
  pattern; the edit script is a run-length encoding of it.
\<close>

type_synonym edit_state = "bytes \<times> bytes \<times> bytes"

fun edit_step :: "byte \<Rightarrow> edit_state \<Rightarrow> edit_state option" where
  "edit_step op (out, data, pat) =
     (if op = OpEqual then (case pat of [] \<Rightarrow> None | p # pat' \<Rightarrow> Some (out @ [p], data, pat'))
      else if op = OpInsert then (case data of [] \<Rightarrow> None | d # data' \<Rightarrow> Some (out @ [d], data', pat))
      else (case pat of [] \<Rightarrow> None | p # pat' \<Rightarrow> Some (out, data, pat')))"

fun edit_run :: "byte list \<Rightarrow> edit_state \<Rightarrow> edit_state option" where
  "edit_run [] s = Some s"
| "edit_run (op # ops) s = Option.bind (edit_step op s) (edit_run ops)"

lemma edit_run_append: "edit_run (a @ b) s = Option.bind (edit_run a s) (edit_run b)"
  by (induction a arbitrary: s) (auto split: Option.bind_splits)

lemma take_Suc_snoc: "i < length xs \<Longrightarrow> take (Suc i) xs = take i xs @ [xs ! i]"
  by (rule take_Suc_conv_app_nth)

lemma backtrack_ops:
  "diff_backtrack original pattern i j = (ops, data) \<Longrightarrow> set ops \<subseteq> {OpEqual, OpInsert, OpDelete}"
  by (induction original pattern i j arbitrary: ops data rule: diff_backtrack.induct)
    (fastforce split: prod.splits if_splits simp: Let_def simp del: diff_dp.simps)+

text \<open>Running the edits up to \<open>(i, j)\<close> consumes \<open>j\<close> bytes of the pattern and yields \<open>i\<close> bytes.\<close>

definition edits_to :: "bytes \<Rightarrow> bytes \<Rightarrow> nat \<Rightarrow> nat \<Rightarrow> byte list \<times> bytes \<Rightarrow> bool" where
  "edits_to original pattern i j od \<longleftrightarrow>
     (\<forall>d p. edit_run (rev (fst od)) ([], rev (snd od) @ d, take j pattern @ p) = Some (take i original, d, p))"

lemma edits_to_insert:
  "edits_to original pattern i j (ops, data) \<Longrightarrow> i < length original \<Longrightarrow>
   edits_to original pattern (Suc i) j (OpInsert # ops, original ! i # data)"
  by (simp add: edits_to_def edit_run_append take_Suc_snoc op_defs)

lemma edits_to_delete:
  "edits_to original pattern i j (ops, data) \<Longrightarrow> j < length pattern \<Longrightarrow>
   edits_to original pattern i (Suc j) (OpDelete # ops, data)"
  by (simp add: edits_to_def edit_run_append take_Suc_snoc op_defs)

lemma edits_to_equal:
  "edits_to original pattern i j (ops, data) \<Longrightarrow> i < length original \<Longrightarrow> j < length pattern \<Longrightarrow>
   original ! i = pattern ! j \<Longrightarrow> edits_to original pattern (Suc i) (Suc j) (OpEqual # ops, data)"
  by (simp add: edits_to_def edit_run_append take_Suc_snoc op_defs)

lemma backtrack_run:
  "i \<le> length original \<Longrightarrow> j \<le> length pattern \<Longrightarrow>
   edits_to original pattern i j (diff_backtrack original pattern i j)"
proof (induction original pattern i j rule: diff_backtrack.induct)
  case (1 original pattern)
  then show ?case by (simp add: edits_to_def)
next
  case (2 original pattern i)
  then show ?case by (auto simp: edits_to_insert Let_def split: prod.splits)
next
  case (3 original pattern j)
  then show ?case by (auto simp: edits_to_delete Let_def split: prod.splits)
next
  case (4 original pattern i j)
  then show ?case
    by (auto simp: Let_def edits_to_insert edits_to_delete edits_to_equal split: prod.splits simp del: diff_dp.simps)
qed

lemma edit_run_equals:
  "edit_run (replicate n OpEqual) (out, data, pat) =
     (if n \<le> length pat then Some (out @ take n pat, data, drop n pat) else None)"
  by (induction n arbitrary: out pat) (auto split: list.splits)

lemma edit_run_inserts:
  "edit_run (replicate n OpInsert) (out, data, pat) =
     (if n \<le> length data then Some (out @ take n data, drop n data, pat) else None)"
  by (induction n arbitrary: out data) (auto simp: op_defs split: list.splits)

lemma edit_run_deletes:
  "edit_run (replicate n OpDelete) (out, data, pat) =
     (if n \<le> length pat then Some (out, data, drop n pat) else None)"
  by (induction n arbitrary: pat) (auto simp: op_defs split: list.splits)

lemma take_run_count: "take (run_count ops) ops = replicate (run_count ops) (hd ops)"
proof -
  have "take n (takeWhile (\<lambda>x. x = a) ops) = replicate n a"
    if "n \<le> length (takeWhile (\<lambda>x. x = a) ops)" for n a
    using that by (intro replicate_eqI) (auto dest!: in_set_takeD set_takeWhileD)
  from this [of "run_count ops" "hd ops"]
  have "take (run_count ops) (takeWhile (\<lambda>x. x = hd ops) ops) = replicate (run_count ops) (hd ops)"
    by (simp add: run_count_def)
  moreover have "take (run_count ops) (takeWhile (\<lambda>x. x = hd ops) ops) = take (run_count ops) ops"
    by (metis run_count_def min.cobounded2 takeWhile_eq_take take_take min.absorb1)
  ultimately show ?thesis by simp
qed

lemma run_count_bounds: "ops \<noteq> [] \<Longrightarrow> 0 < run_count ops" "run_count ops \<le> 255"
  by (cases ops) (simp_all add: run_count_def)

lemma unat_run_count [simp]: "unat (of_nat (run_count ops) :: byte) = run_count ops"
  using run_count_bounds(2) [of ops] by (intro unat_of_nat_lt) simp

lemma patch_rle:
  "set ops \<subseteq> {OpEqual, OpInsert, OpDelete} \<Longrightarrow>
   edit_run ops (out, data, drop patIdx pattern) = Some (out', d', p') \<Longrightarrow>
   patch_loop pattern patIdx out (rle_script ops data) = Inr out'"
proof (induction ops data arbitrary: out patIdx rule: rle_script.induct)
  case (1 data)
  then show ?case by simp
next
  case (2 op ops data)
  let ?c = "run_count (op # ops)"
  let ?rest = "drop ?c (op # ops)"
  have split: "op # ops = replicate ?c op @ ?rest"
    using take_run_count [of "op # ops"] by (metis append_take_drop_id list.sel(1))
  have c: "0 < ?c" by (simp add: run_count_bounds)
  have run: "Option.bind (edit_run (replicate ?c op) (out, data, drop patIdx pattern)) (edit_run ?rest) =
      Some (out', d', p')"
    using "2.prems"(2) by (subst (asm) split) (simp only: edit_run_append)
  have sub: "set ?rest \<subseteq> {OpEqual, OpInsert, OpDelete}"
    using "2.prems"(1) set_drop_subset by (metis order_trans)
  have script: "rle_script (op # ops) data =
      op # of_nat ?c # (if op = OpInsert then take ?c data @ rle_script ?rest (drop ?c data) else rle_script ?rest data)"
    by (simp add: Let_def del: drop_Suc_Cons)
  consider "op = OpEqual" | "op = OpInsert" | "op = OpDelete" using "2.prems"(1) by auto
  then show ?case
  proof cases
    case 1
    with run have le: "?c \<le> length pattern - patIdx"
      and r: "edit_run ?rest (out @ take ?c (drop patIdx pattern), data, drop (patIdx + ?c) pattern) = Some (out', d', p')"
      by (auto simp: edit_run_equals add.commute split: if_splits)
    have "patch_loop pattern (patIdx + ?c) (out @ take ?c (drop patIdx pattern)) (rle_script ?rest data) = Inr out'"
      using "2.IH"(2) [OF refl refl _ sub r] 1 by (simp add: op_defs)
    moreover have "patIdx + ?c \<le> length pattern" using le c by linarith
    ultimately show ?thesis using 1 unfolding script by (simp add: op_defs slice_def del: drop_Suc_Cons)
  next
    case 2
    with run have le: "?c \<le> length data"
      and r: "edit_run ?rest (out @ take ?c data, drop ?c data, drop patIdx pattern) = Some (out', d', p')"
      by (auto simp: edit_run_inserts split: if_splits)
    have "patch_loop pattern patIdx (out @ take ?c data) (rle_script ?rest (drop ?c data)) = Inr out'"
      using "2.IH"(1) [OF refl refl 2 sub r] .
    then show ?thesis using 2 le unfolding script by (simp add: op_defs del: drop_Suc_Cons)
  next
    case 3
    with run have r: "edit_run ?rest (out, data, drop (patIdx + ?c) pattern) = Some (out', d', p')"
      by (auto simp: edit_run_deletes add.commute split: if_splits)
    have "patch_loop pattern (patIdx + ?c) out (rle_script ?rest data) = Inr out'"
      using "2.IH"(2) [OF refl refl _ sub r] 3 by (simp add: op_defs)
    then show ?thesis using 3 unfolding script by (simp add: op_defs del: drop_Suc_Cons)
  qed
qed

lemma ApplyPatch_Diff: "ApplyPatch pattern (Diff original pattern) = Inr original"
proof -
  obtain ops data where b: "diff_backtrack original pattern (length original) (length pattern) = (ops, data)"
    by fastforce
  have e: "edit_run (rev ops) ([], rev data, drop 0 pattern) = Some (original, [], [])"
    using backtrack_run [of "length original" original "length pattern" pattern]
    unfolding edits_to_def b fst_conv snd_conv by (metis append_Nil2 drop0 order_refl take_all)
  have "set (rev ops) \<subseteq> {OpEqual, OpInsert, OpDelete}" using backtrack_ops [OF b] by simp
  from patch_rle [OF this e] show ?thesis by (simp add: ApplyPatch_def Diff_def b)
qed

interpretation patch_residual: residual Diff ApplyPatch "\<lambda>original pattern. True"
  by unfold_locales (rule ApplyPatch_Diff)

section \<open>Pools\<close>

lemma DecompressPool_CompressPool:
  "zstd_ok X \<Longrightarrow> CompressPool X pool = Inr c \<Longrightarrow> DecompressPool X c = Inr pool"
  by (auto simp: CompressPool_def DecompressPool_def zstd_read_def zstd_ok_simps)

lemma DecompressPoolDict_CompressPoolDict:
  "zstd_ok X \<Longrightarrow> CompressPoolDict X pool dict = Inr c \<Longrightarrow> DecompressPoolDict X c dict = Inr pool"
  by (auto simp: CompressPoolDict_def DecompressPoolDict_def zstd_read_def zstd_ok_simps split: if_splits)

lemma DecompressPoolDict_CompressPoolMax:
  "zstd_ok X \<Longrightarrow> CompressPoolMax X cgo pool dict = Inr c \<Longrightarrow> DecompressPoolDict X c dict = Inr pool"
  by (auto simp: CompressPoolMax_def DecompressPoolDict_def zstd_read_def zstd_ok_simps split: if_splits)

lemma DecompressPoolLimit_bounded:
  "DecompressPoolLimit X c m = Inr out \<Longrightarrow> length out \<le> m \<and> zstd_decode X [] c = Some out"
  by (auto simp: DecompressPoolLimit_def Let_def not_less split: option.splits if_splits)

section \<open>Properties of residuals and pools\<close>

text \<open>
  C33. Edit scripts are lossless: applying the script that \<open>Diff\<close> computes to the pattern
  returns the original, for every pair of byte strings and without an error or a panic.
\<close>

theorem patch_roundtrip: "ApplyPatch pattern (Diff original pattern) = Inr original"
  by (rule patch_residual.apply_mk) simp

text \<open>
  XOR residuals are lossless for every non-empty chunk, and an empty residual stands for
  the codeword itself.
\<close>

lemma xor_roundtrip:
  "(original \<noteq> [] \<longrightarrow> Apply pattern (XOR_delta original pattern) = original) \<and> Apply pattern [] = pattern"
proof
  show "original \<noteq> [] \<longrightarrow> Apply pattern (XOR_delta original pattern) = original"
    using xor_residual.apply_mk [of original pattern] by blast
qed (simp add: Apply_def)

text \<open>
  Pool compression: both compressors are reversed by the dictionary decompressor, and the
  limited decompressor never returns more bytes than its limit.
\<close>

lemma pool_roundtrip:
  assumes "zstd_ok X"
  shows "(\<exists>c. CompressPoolDict X pool dict = Inr c \<and> DecompressPoolDict X c dict = Inr pool) \<and>
    (\<exists>c. CompressPoolMax X True pool dict = Inr c \<and> DecompressPoolDict X c dict = Inr pool) \<and>
    (DecompressPoolLimit X z m = Inr out \<longrightarrow> length out \<le> m)"
proof (intro conjI impI)
  show "\<exists>c. CompressPoolDict X pool dict = Inr c \<and> DecompressPoolDict X c dict = Inr pool"
    using DecompressPoolDict_CompressPoolDict [OF assms] by (simp add: CompressPoolDict_def)
  show "\<exists>c. CompressPoolMax X True pool dict = Inr c \<and> DecompressPoolDict X c dict = Inr pool"
    using DecompressPoolDict_CompressPoolMax [OF assms, of True] by (simp add: CompressPoolMax_def)
  show "length out \<le> m" if "DecompressPoolLimit X z m = Inr out"
    using DecompressPoolLimit_bounded [OF that] by simp
qed

end
