(* ===== verification/Fractal.thy ===== *)
theory Fractal
  imports Crom_Prelude
begin

text \<open>
  \<^verbatim>\<open>internal/fractal/generator.go\<close>: chunks that are the values of a quadratic polynomial
  modulo 256 are stored as a 24-bit seed. The search is sound (the seed regenerates the
  chunk) and complete (it finds a seed whenever one exists), although it tries only 256 of
  the \<open>2^24\<close> seeds. \<open>FindGeneratingSeed\<close> compares against \<open>math/rand\<close>, which is the
  parameter \<open>prng\<close>.
\<close>

definition FindGeneratingSeed :: "(nat \<Rightarrow> nat \<Rightarrow> bytes) \<Rightarrow> bytes \<Rightarrow> nat \<Rightarrow> nat \<times> bool" where
  "FindGeneratingSeed prng targetChunk maxIterations =
     (case find (\<lambda>i. prng i (length targetChunk) = targetChunk) [0..<maxIterations] of
        Some i \<Rightarrow> (i, True)
      | None \<Rightarrow> (0, False))"

definition GeneratePolynomial :: "u64 \<Rightarrow> nat \<Rightarrow> bytes" where
  "GeneratePolynomial seed len =
     (let a = (ucast (seed AND 0xFF) :: byte);
          b = (ucast (drop_bit 8 seed AND 0xFF) :: byte);
          c = (ucast (drop_bit 16 seed AND 0xFF) :: byte)
      in map (\<lambda>i. let x = (of_nat i :: u64) in ucast (ucast a * x * x + ucast b * x + ucast c)) [0..<len])"

text \<open>The test of one candidate \<open>a\<close> against the chunk from index 2 on.\<close>

definition poly_match :: "bytes \<Rightarrow> byte \<Rightarrow> byte \<Rightarrow> byte \<Rightarrow> bool" where
  "poly_match targetChunk aa bb c =
     list_all (\<lambda>i. let x = (of_nat i :: byte) in aa * x * x + bb * x + c = targetChunk ! i)
       [2..<length targetChunk]"

definition poly_b :: "bytes \<Rightarrow> nat \<Rightarrow> byte" where
  "poly_b targetChunk a = of_int (uint (targetChunk ! 1) - uint (targetChunk ! 0) - int a)"

definition FindPolynomial :: "bytes \<Rightarrow> bool \<times> u64" where
  "FindPolynomial targetChunk =
     (if targetChunk = [] then (False, 0)
      else let c = targetChunk ! 0 in
        if length targetChunk = 1 then (True, push_bit 16 (ucast c))
        else case find (\<lambda>a. poly_match targetChunk (of_nat a) (poly_b targetChunk a) c) [0..<256] of
               Some a \<Rightarrow>
                 (True, ucast (of_nat a :: byte) OR push_bit 8 (ucast (poly_b targetChunk a)) OR push_bit 16 (ucast c))
             | None \<Rightarrow> (False, 0))"

section \<open>Truncation is a ring homomorphism\<close>

lemma of_nat_mod_word: "8 \<le> k \<Longrightarrow> (of_nat (n mod 2 ^ k) :: byte) = of_nat n"
  by (simp add: word_of_nat_eq_iff take_bit_take_bit min_def flip: take_bit_eq_mod)

lemma of_nat_mod_64: "(of_nat (n mod 2 ^ 64) :: byte) = of_nat n"
  by (rule of_nat_mod_word) simp

lemma ucast_byte_nat: "(ucast (w :: u64) :: byte) = of_nat (unat w)"
  by simp

lemma ucast_u64_byte_add: "(ucast (u + v :: u64) :: byte) = ucast u + ucast v"
proof -
  have "unat (u + v) = (unat u + unat v) mod 2 ^ 64" by (simp add: unat_word_ariths)
  then show ?thesis
    unfolding ucast_byte_nat by (simp only: of_nat_mod_64 of_nat_add)
qed

lemma ucast_u64_byte_mult: "(ucast (u * v :: u64) :: byte) = ucast u * ucast v"
proof -
  have "unat (u * v) = (unat u * unat v) mod 2 ^ 64" by (simp add: unat_word_ariths)
  then show ?thesis
    unfolding ucast_byte_nat by (simp only: of_nat_mod_64 of_nat_mult)
qed

lemma ucast_u64_byte_of_nat: "(ucast (of_nat n :: u64) :: byte) = of_nat n"
proof -
  have "unat (of_nat n :: u64) = n mod 2 ^ 64" by (simp add: unat_of_nat take_bit_eq_mod)
  then show ?thesis unfolding ucast_byte_nat by (simp only: of_nat_mod_64)
qed

lemma ucast_byte_u64_byte [simp]: "ucast (ucast (b :: byte) :: u64) = b"
  by (rule ucast_down_ucast_id) (simp add: is_down)

text \<open>The coefficients of a seed, and the seed of given coefficients.\<close>

definition coeffs :: "u64 \<Rightarrow> byte \<times> byte \<times> byte" where
  "coeffs seed = (ucast seed, ucast (drop_bit 8 seed), ucast (drop_bit 16 seed))"

definition poly_at :: "byte \<times> byte \<times> byte \<Rightarrow> nat \<Rightarrow> byte" where
  "poly_at abc i = (case abc of (a, b, c) \<Rightarrow> a * of_nat i * of_nat i + b * of_nat i + c)"

lemma ucast_and_FF: "(ucast (w AND 0xFF :: u64) :: byte) = ucast w"
proof -
  have m: "(0xFF :: u64) = mask 8" by (simp add: mask_eq_exp_minus_1)
  show ?thesis unfolding m by (intro bit_word_eqI) (simp add: bit_simps)
qed

lemma GeneratePolynomial_at: "GeneratePolynomial seed len = map (poly_at (coeffs seed)) [0..<len]"
  by (simp add: GeneratePolynomial_def poly_at_def coeffs_def Let_def ucast_and_FF
      ucast_u64_byte_add ucast_u64_byte_mult ucast_u64_byte_of_nat)

lemma coeffs_seed:
  "coeffs (ucast a OR push_bit 8 (ucast b) OR push_bit 16 (ucast c)) = (a, b, c)"
proof -
  let ?s = "ucast a OR push_bit 8 (ucast b) OR push_bit 16 (ucast c) :: u64"
  have "(ucast ?s :: byte) = a" "(ucast (drop_bit 8 ?s) :: byte) = b" "(ucast (drop_bit 16 ?s) :: byte) = c"
    by (rule bit_word_eqI; auto simp: bit_simps dest: bit_imp_le_length)+
  then show ?thesis by (simp add: coeffs_def)
qed

lemma poly_b_eq: "poly_b t a = t ! 1 - t ! 0 - of_nat a"
  by (simp add: poly_b_def)

section \<open>Soundness and completeness of the search\<close>

lemma all_less_split:
  assumes "2 \<le> (n :: nat)"
  shows "(\<forall>i < n. P i) \<longleftrightarrow> P 0 \<and> P 1 \<and> (\<forall>i \<in> {2..<n}. P i)"
proof
  assume r: "P 0 \<and> P 1 \<and> (\<forall>i \<in> {2..<n}. P i)"
  show "\<forall>i < n. P i"
  proof (intro allI impI)
    fix i
    assume "i < n"
    then consider "i = 0" | "i = 1" | "i \<in> {2..<n}" by fastforce
    then show "P i" using r by cases auto
  qed
qed (use assms in auto)

lemma map_upt_eq_iff: "map f [0..<length t] = t \<longleftrightarrow> (\<forall>i < length t. f i = t ! i)"
proof
  assume e: "map f [0..<length t] = t"
  show "\<forall>i < length t. f i = t ! i"
  proof (intro allI impI)
    fix i
    assume "i < length t"
    then have "map f [0..<length t] ! i = f i" by simp
    then show "f i = t ! i" by (simp only: e)
  qed
qed (intro nth_equalityI; simp)

lemma poly_match_iff:
  assumes "2 \<le> length t"
  shows "poly_match t a b (t ! 0) \<and> a + b = t ! 1 - t ! 0 \<longleftrightarrow>
    map (poly_at (a, b, t ! 0)) [0..<length t] = t"
proof -
  have "map (poly_at (a, b, t ! 0)) [0..<length t] = t \<longleftrightarrow> (\<forall>i < length t. poly_at (a, b, t ! 0) i = t ! i)"
    by (rule map_upt_eq_iff)
  also have "\<dots> \<longleftrightarrow> poly_at (a, b, t ! 0) 0 = t ! 0 \<and> poly_at (a, b, t ! 0) 1 = t ! 1 \<and>
      (\<forall>i \<in> {2..<length t}. poly_at (a, b, t ! 0) i = t ! i)"
    by (rule all_less_split [OF assms])
  also have "\<dots> \<longleftrightarrow> a + b = t ! 1 - t ! 0 \<and> (\<forall>i \<in> {2..<length t}. poly_at (a, b, t ! 0) i = t ! i)"
  proof -
    have "poly_at (a, b, t ! 0) 0 = t ! 0" by (simp add: poly_at_def)
    moreover have "poly_at (a, b, t ! 0) 1 = t ! 1 \<longleftrightarrow> a + b = t ! 1 - t ! 0"
      using eq_diff_eq [of "a + b" "t ! 1" "t ! 0"] by (simp only: poly_at_def prod.case of_nat_1 mult_1_right)
    ultimately show ?thesis by simp
  qed
  finally show ?thesis unfolding poly_match_def list_all_iff poly_at_def Let_def prod.case set_upt by blast
qed

lemma FindPolynomial_sound:
  assumes "FindPolynomial t = (True, seed)"
  shows "GeneratePolynomial seed (length t) = t"
proof -
  have ne: "t \<noteq> []" using assms by (auto simp: FindPolynomial_def)
  show ?thesis
  proof (cases "length t = 1")
    case True
    then have "seed = ucast (0 :: byte) OR push_bit 8 (ucast (0 :: byte)) OR push_bit 16 (ucast (t ! 0))"
      using assms ne by (simp add: FindPolynomial_def Let_def)
    then have "coeffs seed = (0, 0, t ! 0)" by (simp only: coeffs_seed)
    moreover obtain x where "t = [x]" using True by (auto simp: length_Suc_conv)
    ultimately show ?thesis by (simp add: GeneratePolynomial_at poly_at_def)
  next
    case False
    with assms ne obtain a where a: "find (\<lambda>a. poly_match t (of_nat a) (poly_b t a) (t ! 0)) [0..<256] = Some a"
      "seed = ucast (of_nat a :: byte) OR push_bit 8 (ucast (poly_b t a)) OR push_bit 16 (ucast (t ! 0))"
      by (auto simp: FindPolynomial_def Let_def split: option.splits)
    then have "poly_match t (of_nat a) (poly_b t a) (t ! 0)" by (auto simp: find_Some_iff)
    moreover have "2 \<le> length t" using ne False by (cases t; cases "tl t") auto
    ultimately have "map (poly_at (of_nat a, poly_b t a, t ! 0)) [0..<length t] = t"
      using poly_match_iff [of t "of_nat a" "poly_b t a"] by (simp add: poly_b_eq)
    moreover have "coeffs seed = (of_nat a, poly_b t a, t ! 0)" unfolding a(2) by (rule coeffs_seed)
    ultimately show ?thesis by (simp add: GeneratePolynomial_at)
  qed
qed

lemma FindPolynomial_complete:
  assumes "t \<noteq> []" "GeneratePolynomial seed (length t) = t"
  shows "fst (FindPolynomial t)"
proof (cases "length t = 1")
  case True
  then show ?thesis using assms(1) by (simp add: FindPolynomial_def Let_def)
next
  case False
  then have len: "2 \<le> length t" using assms(1) by (cases t; cases "tl t") auto
  obtain a b c where abc: "coeffs seed = (a, b, c)" by (metis prod_cases3)
  with assms(2) have m: "map (poly_at (a, b, c)) [0..<length t] = t"
    by (simp add: GeneratePolynomial_at)
  have "0 < length t" using len by linarith
  then have "poly_at (a, b, c) 0 = t ! 0" using m unfolding map_upt_eq_iff by blast
  then have "c = t ! 0" by (simp add: poly_at_def)
  with m poly_match_iff [OF len, of a b] have p: "poly_match t a b (t ! 0)" "a + b = t ! 1 - t ! 0"
    by simp_all
  have "b = poly_b t (unat a)" using p(2) by (simp add: poly_b_eq) (metis add_diff_cancel_left')
  with p(1) have "poly_match t (of_nat (unat a)) (poly_b t (unat a)) (t ! 0)" by simp
  moreover have "unat a < 256" using unat_lt [of a] by simp
  ultimately have "find (\<lambda>a. poly_match t (of_nat a) (poly_b t a) (t ! 0)) [0..<256] \<noteq> None"
    by (auto simp: find_None_iff)
  then show ?thesis using assms(1) False by (auto simp: FindPolynomial_def Let_def)
qed

lemma FindGeneratingSeed_sound:
  "FindGeneratingSeed prng t n = (i, True) \<Longrightarrow> prng i (length t) = t \<and> i < n"
  by (auto simp: FindGeneratingSeed_def find_Some_iff split: option.splits)

section \<open>Properties of the fractal engine\<close>

text \<open>
  C40. The polynomial search is exact: it reports a match for a non-empty chunk if and only
  if some seed generates the chunk, and then the seed it returns does.
\<close>

theorem polynomial_search_exact:
  assumes "t \<noteq> []"
  shows "(fst (FindPolynomial t) \<longleftrightarrow> (\<exists>seed. GeneratePolynomial seed (length t) = t)) \<and>
    (fst (FindPolynomial t) \<longrightarrow> GeneratePolynomial (snd (FindPolynomial t)) (length t) = t)"
proof -
  have "GeneratePolynomial (snd (FindPolynomial t)) (length t) = t" if "fst (FindPolynomial t)"
    using FindPolynomial_sound [of t "snd (FindPolynomial t)"] that by (simp add: prod_eq_iff)
  then show ?thesis using FindPolynomial_complete [OF assms] by blast
qed

theorem polynomial_search_exact_witness:
  "fst (FindPolynomial [3, 6, 11]) \<and>
   GeneratePolynomial (snd (FindPolynomial [3, 6, 11])) (length [3, 6, 11 :: byte]) = [3, 6, 11]"
proof -
  have "GeneratePolynomial 197121 (length [3, 6, 11 :: byte]) = [3, 6, 11]" by code_simp
  then show ?thesis using polynomial_search_exact [of "[3, 6, 11]"] by blast
qed

end
