(* ===== verification/Merkle.thy ===== *)
theory Merkle
  imports Externals
begin

text \<open>
  \<^verbatim>\<open>internal/merkle/tree.go\<close>: the hash tree over the compressed blocks. Two trees with the
  same number of leaves and the same root have the same leaves, or the inputs hashed while
  building them exhibit a collision of the hash; \<open>Diff\<close> returns exactly the leaves that differ.
\<close>

record MerkleTree =
  Nodes :: "bytes list"
  LeafCount :: nat

definition hashNode :: "ext \<Rightarrow> bytes \<Rightarrow> bytes \<Rightarrow> bytes" where
  "hashNode X left right = sha256 X (left @ right)"

definition pad_even :: "bytes list \<Rightarrow> bytes list" where
  "pad_even level = (if length level mod 2 \<noteq> 0 then level @ [last level] else level)"

text \<open>The inner loop: parents of consecutive pairs, an odd last node moves up as it is.\<close>

fun merkle_parents :: "ext \<Rightarrow> bytes list \<Rightarrow> bytes list" where
  "merkle_parents X (a # b # rest) = hashNode X a b # merkle_parents X rest"
| "merkle_parents X [a] = [a]"
| "merkle_parents X [] = []"

definition next_level :: "ext \<Rightarrow> bytes list \<Rightarrow> bytes list" where
  "next_level X level =
     (let nl = merkle_parents X level
      in if length nl mod 2 \<noteq> 0 \<and> 1 < length nl then nl @ [last nl] else nl)"

lemma length_merkle_parents: "length (merkle_parents X level) = (length level + 1) div 2"
  by (induction X level rule: merkle_parents.induct) auto

lemma length_next_level:
  "1 < length level \<Longrightarrow> length (next_level X level) < length level"
  by (auto simp: next_level_def Let_def length_merkle_parents) presburger+

function merkle_levels :: "ext \<Rightarrow> bytes list \<Rightarrow> bytes list \<Rightarrow> bytes list" where
  "merkle_levels X nodes level =
     (if 1 < length level
      then merkle_levels X (nodes @ next_level X level) (next_level X level)
      else nodes)"
  by pat_completeness auto
termination
  by (relation "measure (\<lambda>(X, nodes, level). length level)") (auto simp: length_next_level)

declare merkle_levels.simps [simp del]

definition BuildFromHashes :: "ext \<Rightarrow> bytes list \<Rightarrow> MerkleTree" where
  "BuildFromHashes X leaves =
     (if leaves = [] then \<lparr>Nodes = [], LeafCount = 0\<rparr>
      else \<lparr>Nodes = merkle_levels X (pad_even leaves) (pad_even leaves), LeafCount = length leaves\<rparr>)"

definition BuildFromChunks :: "ext \<Rightarrow> bytes list \<Rightarrow> MerkleTree" where
  "BuildFromChunks X chunks =
     (if chunks = [] then \<lparr>Nodes = [], LeafCount = 0\<rparr>
      else BuildFromHashes X (map (sha256 X) chunks))"

definition Root :: "MerkleTree \<Rightarrow> bytes" where
  "Root t = (if Nodes t = [] then zeros 32 else gcopy (zeros 32) 0 32 (last (Nodes t)))"

definition bytesEqual :: "bytes \<Rightarrow> bytes \<Rightarrow> bool" where
  "bytesEqual a b =
     (if length a \<noteq> length b then False else list_all (\<lambda>i. a ! i = b ! i) [0..<length a])"

definition Merkle_Diff :: "MerkleTree \<Rightarrow> MerkleTree \<Rightarrow> nat list" where
  "Merkle_Diff t other =
     (if Nodes t = [] \<or> Nodes other = [] then []
      else if length (Nodes t) \<noteq> length (Nodes other) then [0..<LeafCount t]
      else filter (\<lambda>i. \<not> bytesEqual (Nodes t ! i) (Nodes other ! i)) [0..<LeafCount t])"

section \<open>Levels\<close>

lemma bytesEqual_iff [simp]: "bytesEqual a b \<longleftrightarrow> a = b"
proof (cases "length a = length b")
  case True
  then have "(\<forall>i < length a. a ! i = b ! i) \<longleftrightarrow> a = b" by (metis nth_equalityI)
  with True show ?thesis by (simp add: bytesEqual_def list_all_iff Ball_def)
qed (auto simp: bytesEqual_def)

definition hashes :: "bytes list \<Rightarrow> bool" where
  "hashes l \<longleftrightarrow> (\<forall>h \<in> set l. length h = 32)"

text \<open>
  The inputs the hash function gets while a tree is built: the pairs of a level, level by
  level. A clash is two of them, one from each tree, that differ and have the same hash.
\<close>

fun hashed_pairs :: "bytes list \<Rightarrow> bytes list" where
  "hashed_pairs (a # b # rest) = (a @ b) # hashed_pairs rest"
| "hashed_pairs [a] = []"
| "hashed_pairs [] = []"

function hashed_inputs :: "ext \<Rightarrow> bytes list \<Rightarrow> bytes list" where
  "hashed_inputs X level =
     (if 1 < length level then hashed_pairs level @ hashed_inputs X (next_level X level) else [])"
  by pat_completeness auto
termination by (relation "measure (\<lambda>(X, level). length level)") (auto simp: length_next_level)

declare hashed_inputs.simps [simp del]

definition tree_inputs :: "ext \<Rightarrow> bytes list \<Rightarrow> bytes list" where
  "tree_inputs X leaves = hashed_inputs X (pad_even leaves)"

definition no_clash :: "ext \<Rightarrow> bytes list \<Rightarrow> bytes list \<Rightarrow> bool" where
  "no_clash X xs ys \<longleftrightarrow> (\<forall>x \<in> set xs. \<forall>y \<in> set ys. sha256 X x = sha256 X y \<longrightarrow> x = y)"

lemma no_clash_append: "no_clash X (xs @ us) (ys @ vs) \<Longrightarrow> no_clash X xs ys \<and> no_clash X us vs"
  by (auto simp: no_clash_def)

lemma no_clash_Cons:
  "no_clash X (x # xs) (y # ys) \<Longrightarrow> (sha256 X x = sha256 X y \<longrightarrow> x = y) \<and> no_clash X xs ys"
  by (auto simp: no_clash_def)

lemma merkle_parents_inj:
  "no_clash X (hashed_pairs l) (hashed_pairs m) \<Longrightarrow> length l = length m \<Longrightarrow> hashes l \<Longrightarrow> hashes m \<Longrightarrow>
   merkle_parents X l = merkle_parents X m \<Longrightarrow> l = m"
proof (induction X l arbitrary: m rule: merkle_parents.induct)
  case (1 X a b rest)
  then obtain c d ms where m: "m = c # d # ms" by (metis length_Suc_conv)
  have "a @ b = c @ d" "no_clash X (hashed_pairs rest) (hashed_pairs ms)"
    using no_clash_Cons [of X "a @ b" "hashed_pairs rest" "c @ d" "hashed_pairs ms"] "1.prems"
    by (simp_all add: m hashNode_def)
  with 1 show ?case by (auto simp: m hashes_def)
next
  case (2 X a)
  then obtain c where "m = [c]" by (metis length_0_conv length_Suc_conv)
  with 2 show ?case by simp
qed simp

lemma append_last_inj: "length l = length m \<Longrightarrow> l @ [x] = m @ [y] \<Longrightarrow> l = m"
  by simp

lemma next_level_inj:
  assumes "no_clash X (hashed_pairs l) (hashed_pairs m)" "length l = length m" "hashes l" "hashes m"
    "next_level X l = next_level X m"
  shows "l = m"
proof -
  have "length (merkle_parents X l) = length (merkle_parents X m)"
    using assms(2) by (simp add: length_merkle_parents)
  with assms(5) have "merkle_parents X l = merkle_parents X m"
    by (auto simp: next_level_def Let_def split: if_splits)
  with assms show ?thesis by (metis merkle_parents_inj)
qed

lemma hashes_merkle_parents: "hash_sizes_ok X \<Longrightarrow> hashes l \<Longrightarrow> hashes (merkle_parents X l)"
  by (induction X l rule: merkle_parents.induct) (auto simp: hashes_def hashNode_def hash_sizes)

lemma hashes_next_level:
  assumes "hash_sizes_ok X" "hashes l"
  shows "hashes (next_level X l)"
proof -
  have p: "hashes (merkle_parents X l)" using assms by (rule hashes_merkle_parents)
  then have "merkle_parents X l \<noteq> [] \<Longrightarrow> length (last (merkle_parents X l)) = 32"
    by (simp add: hashes_def)
  moreover have "1 < length (merkle_parents X l) \<Longrightarrow> merkle_parents X l \<noteq> []" by auto
  ultimately show ?thesis using p by (simp add: next_level_def Let_def hashes_def)
qed

lemma length_next_level_cong: "length l = length m \<Longrightarrow> length (next_level X l) = length (next_level X m)"
  by (simp add: next_level_def Let_def length_merkle_parents)

text \<open>The top of the tree, which the node list ends with.\<close>

function merkle_top :: "ext \<Rightarrow> bytes list \<Rightarrow> bytes" where
  "merkle_top X level = (if 1 < length level then merkle_top X (next_level X level) else hd level)"
  by pat_completeness auto
termination by (relation "measure (\<lambda>(X, level). length level)") (auto simp: length_next_level)

declare merkle_top.simps [simp del]

lemma next_level_nonempty: "level \<noteq> [] \<Longrightarrow> next_level X level \<noteq> []"
  by (cases "(X, level)" rule: merkle_parents.cases) (auto simp: next_level_def Let_def)

lemma merkle_levels_last:
  "level \<noteq> [] \<Longrightarrow> \<exists>pre. nodes = pre @ level \<Longrightarrow> last (merkle_levels X nodes level) = merkle_top X level"
proof (induction "length level" arbitrary: nodes level rule: less_induct)
  case less
  show ?case
  proof (cases "1 < length level")
    case True
    have "last (merkle_levels X (nodes @ next_level X level) (next_level X level)) = merkle_top X (next_level X level)"
      using less.hyps [OF length_next_level [OF True]] next_level_nonempty less.prems by blast
    with True show ?thesis by (simp add: merkle_levels.simps [of _ nodes] merkle_top.simps [of _ level])
  next
    case False
    with less.prems have "length level = 1" by (cases level) auto
    then obtain a where "level = [a]" by (auto simp: length_Suc_conv)
    with less.prems show ?thesis by (auto simp: merkle_levels.simps merkle_top.simps)
  qed
qed

lemma merkle_levels_prefix: "\<exists>rest. merkle_levels X nodes level = nodes @ rest"
proof (induction X nodes level rule: merkle_levels.induct)
  case (1 X nodes level)
  then show ?case by (subst merkle_levels.simps) auto
qed

lemma merkle_levels_length:
  "length n1 = length n2 \<Longrightarrow> length l = length m \<Longrightarrow> length (merkle_levels X n1 l) = length (merkle_levels Y n2 m)"
proof (induction X n1 l arbitrary: n2 m rule: merkle_levels.induct)
  case (1 X nodes level)
  have "length (next_level X level) = length (next_level Y m)"
    using "1.prems" by (simp add: next_level_def Let_def length_merkle_parents)
  with 1 show ?case by (simp add: merkle_levels.simps [of X nodes level] merkle_levels.simps [of Y n2 m])
qed

lemma merkle_top_inj:
  assumes "hash_sizes_ok X"
  shows "no_clash X (hashed_inputs X l) (hashed_inputs X m) \<Longrightarrow> length l = length m \<Longrightarrow> l \<noteq> [] \<Longrightarrow>
    hashes l \<Longrightarrow> hashes m \<Longrightarrow> merkle_top X l = merkle_top X m \<Longrightarrow> l = m"
proof (induction "length l" arbitrary: l m rule: less_induct)
  case less
  show ?case
  proof (cases "1 < length l")
    case True
    with less.prems have m: "1 < length m" by simp
    have "no_clash X (hashed_pairs l @ hashed_inputs X (next_level X l))
        (hashed_pairs m @ hashed_inputs X (next_level X m))"
      using less.prems(1) unfolding hashed_inputs.simps [of X l] hashed_inputs.simps [of X m] if_P [OF True] if_P [OF m] .
    note c = no_clash_append [OF this, THEN conjunct1] no_clash_append [OF this, THEN conjunct2]
    have "next_level X l = next_level X m"
      using True m less.prems c(2) length_next_level [OF True] length_next_level [OF m]
        next_level_nonempty [of l X] hashes_next_level [OF assms] length_next_level_cong [of l m X]
      by (intro less.hyps) (simp_all add: merkle_top.simps [of X l] merkle_top.simps [of X m])
    with less.prems c(1) show ?thesis by (metis next_level_inj)
  next
    case False
    with less.prems have "length l = 1" "length m = 1" by (cases l; auto)+
    with less.prems show ?thesis by (auto simp: length_Suc_conv merkle_top.simps)
  qed
qed

lemma pad_even_inj: "length l = length m \<Longrightarrow> pad_even l = pad_even m \<Longrightarrow> l = m"
  by (auto simp: pad_even_def split: if_splits)

lemma pad_even_props: "l \<noteq> [] \<Longrightarrow> pad_even l \<noteq> []" "hashes l \<Longrightarrow> l \<noteq> [] \<Longrightarrow> hashes (pad_even l)"
  by (auto simp: pad_even_def hashes_def)

lemma hashes_merkle_top: "hash_sizes_ok X \<Longrightarrow> hashes l \<Longrightarrow> l \<noteq> [] \<Longrightarrow> length (merkle_top X l) = 32"
proof (induction X l rule: merkle_top.induct)
  case (1 X l)
  then show ?case
    using hashes_next_level [of X l] next_level_nonempty [of l X]
    by (subst merkle_top.simps) (auto simp: hashes_def)
qed

lemma Root_top:
  assumes "hash_sizes_ok X" "hashes l" "l \<noteq> []"
  shows "Root (BuildFromHashes X l) = merkle_top X (pad_even l)"
proof -
  have t: "last (merkle_levels X (pad_even l) (pad_even l)) = merkle_top X (pad_even l)"
    using pad_even_props(1) [OF assms(3)] by (intro merkle_levels_last) auto
  have "merkle_levels X (pad_even l) (pad_even l) \<noteq> []"
    using merkle_levels_prefix [of X "pad_even l" "pad_even l"] pad_even_props(1) [OF assms(3)] by auto
  moreover have "length (merkle_top X (pad_even l)) = 32"
    using assms pad_even_props by (intro hashes_merkle_top) auto
  ultimately show ?thesis
    using assms(3) t by (simp add: Root_def BuildFromHashes_def gcopy_def put_def)
qed

text \<open>An odd list of leaves and the same list with its last leaf repeated have one root.\<close>

lemma Root_duplicate_leaf:
  "odd (length l) \<Longrightarrow> Root (BuildFromHashes X (l @ [last l])) = Root (BuildFromHashes X l)"
  by (auto simp: BuildFromHashes_def Root_def pad_even_def odd_iff_mod_2_eq_one)

section \<open>Properties of the Merkle tree\<close>

text \<open>
  C35. The root commits to the leaves: if two lists of equally many leaf hashes have trees
  with the same root, then they are the same list, or building the two trees has hashed two
  different inputs, one in each tree, to the same value. So a party that presents other
  leaves under a known root has in its hands a collision of the hash among the finitely many
  inputs of the two trees, whatever the hash function is.
\<close>

theorem merkle_root_binds:
  assumes "hash_sizes_ok X" "hashes l" "hashes m" "length l = length m"
    "Root (BuildFromHashes X l) = Root (BuildFromHashes X m)"
  shows "l = m \<or> (\<exists>x \<in> set (tree_inputs X l). \<exists>y \<in> set (tree_inputs X m). x \<noteq> y \<and> sha256 X x = sha256 X y)"
proof (cases "l = []")
  case False
  with assms have ne: "m \<noteq> []" by auto
  have "merkle_top X (pad_even l) = merkle_top X (pad_even m)"
    using assms False ne by (simp add: Root_top)
  moreover have "length (pad_even l) = length (pad_even m)" using assms(4) by (simp add: pad_even_def)
  ultimately have "no_clash X (tree_inputs X l) (tree_inputs X m) \<Longrightarrow> l = m"
    using merkle_top_inj [OF assms(1), of "pad_even l" "pad_even m"] assms False ne pad_even_props
      pad_even_inj [OF assms(4)] by (simp add: tree_inputs_def)
  then show ?thesis by (auto simp: no_clash_def)
qed (use assms(4) in simp)

theorem merkle_root_binds_witness:
  "\<exists>x \<in> set (tree_inputs toy_ext [zeros 32, pad32 [1]]). \<exists>y \<in> set (tree_inputs toy_ext [zeros 32, pad32 [2]]).
     x \<noteq> y \<and> sha256 toy_ext x = sha256 toy_ext y"
proof -
  have r: "Root (BuildFromHashes toy_ext [zeros 32, pad32 [1]]) = Root (BuildFromHashes toy_ext [zeros 32, pad32 [2]])"
    by code_simp
  have "[zeros 32, pad32 [1]] \<noteq> [zeros 32, pad32 [2]]" by code_simp
  with merkle_root_binds [OF _ _ _ _ r] show ?thesis by (simp add: hashes_def)
qed

text \<open>
  \<open>Diff\<close> on trees with equally many leaves returns exactly the indexes of the leaves
  that differ.
\<close>

lemma merkle_diff_exact:
  assumes "length l = length m" "l \<noteq> []"
  shows "Merkle_Diff (BuildFromHashes X l) (BuildFromHashes X m) =
         filter (\<lambda>i. l ! i \<noteq> m ! i) [0..<length l]"
proof -
  have ne: "m \<noteq> []" using assms by auto
  obtain r s where r: "merkle_levels X (pad_even l) (pad_even l) = pad_even l @ r"
    "merkle_levels X (pad_even m) (pad_even m) = pad_even m @ s"
    using merkle_levels_prefix by meson
  have len: "length (pad_even l @ r) = length (pad_even m @ s)"
    unfolding r [symmetric] using assms(1) by (intro merkle_levels_length) (simp_all add: pad_even_def)
  have nth: "(pad_even l @ r) ! i = l ! i" "(pad_even m @ s) ! i = m ! i" if "i < length l" for i
    using that assms(1) by (auto simp: pad_even_def nth_append)
  show ?thesis
    using assms(2) ne len pad_even_props(1) nth
    by (auto simp: Merkle_Diff_def BuildFromHashes_def r intro!: filter_cong)
qed

end
