(* ===== verification/Entropy.thy ===== *)
theory Entropy
  imports Complex_Main Crom_Prelude
begin

text \<open>
  \<^verbatim>\<open>internal/entropy\<close>: the Shannon entropy of a sample, the test that sends incompressible
  files past the codebook, and the host profiles. The \<open>float64\<close> arithmetic of the entropy is
  idealised to real numbers, so rounding is not modelled; the sum then does not depend on the
  order in which Go iterates over the map of frequencies.
\<close>

section \<open>Shannon entropy\<close>

text \<open>The map of frequencies, as a list of the distinct bytes with their counts.\<close>

definition byte_freq :: "bytes \<Rightarrow> (byte \<times> nat) list" where
  "byte_freq data = map (\<lambda>b. (b, count_list data b)) (remdups data)"

definition entropy_sum :: "bytes \<Rightarrow> real" where
  "entropy_sum data =
     fold (\<lambda>(b, count) e. let p = real count / real (length data) in e - p * log 2 p) (byte_freq data) 0"

definition Shannon :: "bytes \<Rightarrow> real" where
  "Shannon data = (if data = [] then 0 else entropy_sum data)"

text \<open>\<open>Analyze\<close> reads a sample off the input \<open>s\<close>; the third component is the rest of the input.\<close>

definition Analyze :: "bytes \<Rightarrow> nat \<Rightarrow> real \<times> bytes \<times> bytes" where
  "Analyze s sampleSize =
     (let buf = take sampleSize s
      in if buf = [] then (0, [], s) else (entropy_sum buf, buf, drop sampleSize s))"

section \<open>Heuristics\<close>

definition IsNeuralGGUF :: "bytes \<Rightarrow> bool" where
  "IsNeuralGGUF buf \<longleftrightarrow> 4 \<le> length buf \<and> slice buf 0 4 = bytes_of_string ''GGUF''"

definition magic_bypass :: "bytes \<Rightarrow> bool" where
  "magic_bypass buf \<longleftrightarrow>
     slice buf 0 4 = [0x89, 0x50, 0x4E, 0x47] \<or>
     slice buf 0 4 = bytes_of_string ''RIFF'' \<and> 12 \<le> length buf \<and> slice buf 8 12 = bytes_of_string ''WEBP'' \<or>
     slice buf 0 4 = [0x50, 0x4B, 0x03, 0x04] \<or>
     slice buf 0 2 = [0x1F, 0x8B] \<or>
     slice buf 0 4 = [0x7F, 0x45, 0x4C, 0x46] \<or>
     IsNeuralGGUF buf \<or>
     slice buf 0 3 = [0xFF, 0xD8, 0xFF] \<or>
     slice buf 0 4 = bytes_of_string ''GIF8''"

definition DetectHeuristicBypass :: "real \<Rightarrow> bytes \<Rightarrow> bool" where
  "DetectHeuristicBypass entropy buf \<longleftrightarrow> 4 < length buf \<and> magic_bypass buf \<or> 78 / 10 < entropy"

definition IsLowEntropy :: "real \<Rightarrow> bool" where
  "IsLowEntropy entropy \<longleftrightarrow> entropy < 1"

section \<open>Host profiles\<close>

record NodeConfig =
  MaxPeers :: nat
  EnableFEC :: bool
  Threads :: nat
  MmapLimit :: string
  ProfileName :: string

definition DetermineProfile :: "nat \<Rightarrow> NodeConfig" where
  "DetermineProfile cpus =
     (if cpus \<le> 1 then
        \<lparr>MaxPeers = 5, EnableFEC = True, Threads = 1, MmapLimit = ''32MB'', ProfileName = ''IoT/Space (Survival)''\<rparr>
      else if cpus \<le> 4 then
        \<lparr>MaxPeers = 15, EnableFEC = True, Threads = 2, MmapLimit = ''128MB'', ProfileName = ''Mobile (Edge)''\<rparr>
      else
        \<lparr>MaxPeers = 500, EnableFEC = False, Threads = cpus, MmapLimit = ''Unlimited'',
         ProfileName = ''Enterprise Cloud''\<rparr>)"

section \<open>Bounds on the entropy\<close>

abbreviation prob :: "bytes \<Rightarrow> byte \<Rightarrow> real" where
  "prob data b \<equiv> real (count_list data b) / real (length data)"

lemma fold_entropy:
  "fold (\<lambda>(b, count) e. let p = real count / real n in e - p * log 2 p) (map (\<lambda>b. (b, f b)) bs) e =
   e - (\<Sum>b \<leftarrow> bs. real (f b) / real n * log 2 (real (f b) / real n))"
  by (induction bs arbitrary: e) (simp_all add: Let_def)

lemma entropy_sum_eq: "entropy_sum data = - (\<Sum>b \<in> set data. prob data b * log 2 (prob data b))"
  unfolding entropy_sum_def byte_freq_def fold_entropy
  by (simp add: sum_list_distinct_conv_sum_set del: times_divide_eq_left)

lemma prob_range: "b \<in> set data \<Longrightarrow> 0 < prob data b \<and> prob data b \<le> 1"
proof -
  assume b: "b \<in> set data"
  then have "0 < count_list data b" by (metis count_list_0_iff gr0I)
  moreover have "count_list data b \<le> length data" by (rule count_le_length)
  moreover have "0 < length data" using b by (cases data) auto
  ultimately show ?thesis by simp
qed

lemma sum_prob: "data \<noteq> [] \<Longrightarrow> (\<Sum>b \<in> set data. prob data b) = 1"
proof -
  assume "data \<noteq> []"
  have "(\<Sum>b \<in> set data. count_list data b) = length data" by (rule sum_count_set) simp_all
  then have "(\<Sum>b \<in> set data. real (count_list data b)) = real (length data)" by (metis of_nat_sum)
  with \<open>data \<noteq> []\<close> show ?thesis by (simp flip: sum_divide_distrib)
qed

lemma Shannon_nonneg: "0 \<le> Shannon data"
proof (cases "data = []")
  case False
  have "(\<Sum>b \<in> set data. prob data b * log 2 (prob data b)) \<le> 0"
  proof (rule sum_nonpos)
    fix b
    assume "b \<in> set data"
    from prob_range [OF this] show "prob data b * log 2 (prob data b) \<le> 0"
      by (intro mult_nonneg_nonpos) (simp_all add: zero_le_log_cancel_iff)
  qed
  with False show ?thesis by (simp add: Shannon_def entropy_sum_eq)
qed (simp add: Shannon_def)

lemma card_bytes: "card (set (data :: bytes)) \<le> 256"
proof -
  have "card (set data) \<le> card (UNIV :: byte set)" by (rule card_mono) simp_all
  then show ?thesis by (simp add: card_word)
qed

text \<open>Gibbs' inequality against the uniform distribution.\<close>

lemma gibbs_term:
  assumes "0 < (p :: real)"
  shows "- (p * log 2 p) \<le> 8 * p + (1 / 256 - p) / ln 2"
proof -
  have "ln (1 / (256 * p)) \<le> 1 / (256 * p) - 1" using assms by (intro ln_le_minus_one) simp
  moreover have "ln (1 / (256 * p)) = - (8 * ln 2) - ln p"
  proof -
    have "ln (1 / (256 * p)) = - ln (256 * p)" using assms by (simp add: ln_div)
    also have "\<dots> = - (ln 256 + ln p)" using assms by (simp add: ln_mult)
    also have "ln (256 :: real) = 8 * ln 2" using ln_realpow [of 2 8] by simp
    finally show ?thesis by simp
  qed
  ultimately have "- ln p \<le> 8 * ln 2 + (1 / (256 * p) - 1)" by simp
  then have "p * (- ln p) \<le> p * (8 * ln 2 + (1 / (256 * p) - 1))"
    using assms by (intro mult_left_mono) simp_all
  moreover have "p * (8 * ln 2 + (1 / (256 * p) - 1)) = 8 * p * ln 2 + (1 / 256 - p)"
    using assms by (simp add: algebra_simps)
  ultimately have "- (p * ln p) \<le> 8 * p * ln 2 + (1 / 256 - p)" by simp
  then have "- (p * ln p) / ln 2 \<le> (8 * p * ln 2 + (1 / 256 - p)) / ln 2"
    by (rule divide_right_mono) simp
  then show ?thesis by (simp add: log_def add_divide_distrib)
qed

lemma Shannon_le_8: "Shannon data \<le> 8"
proof (cases "data = []")
  case False
  have "Shannon data = (\<Sum>b \<in> set data. - (prob data b * log 2 (prob data b)))"
    using False by (simp add: Shannon_def entropy_sum_eq sum_negf)
  also have "\<dots> \<le> (\<Sum>b \<in> set data. 8 * prob data b + (1 / 256 - prob data b) / ln 2)"
    using prob_range by (intro sum_mono gibbs_term) blast
  also have "\<dots> = 8 * (\<Sum>b \<in> set data. prob data b) +
      (real (card (set data)) / 256 - (\<Sum>b \<in> set data. prob data b)) / ln 2"
    by (simp add: sum.distrib sum_distrib_left sum_subtractf flip: sum_divide_distrib)
  also have "\<dots> = 8 + (real (card (set data)) / 256 - 1) / ln 2"
    using sum_prob [OF False] by simp
  also have "\<dots> \<le> 8" using card_bytes [of data] by (simp add: divide_le_0_iff)
  finally show ?thesis .
qed (simp add: Shannon_def)

lemma Shannon_constant: "Shannon (replicate n b) = 0"
proof (cases n)
  case (Suc k)
  have "set (replicate n b) = {b}" using Suc by (intro set_replicate) simp
  moreover have "count_list (replicate n b) b = n" by (induction n) simp_all
  ultimately show ?thesis using Suc by (simp add: Shannon_def entropy_sum_eq del: replicate.simps)
qed (simp add: Shannon_def)

section \<open>Properties of the analyser\<close>

text \<open>
  The entropy of any data lies between 0 and 8 bits per byte, as the documentation of
  \<open>Analyze\<close> says; constant data has entropy 0 and counts as low entropy, and \<open>Analyze\<close>
  reports the entropy of the sample it returns.
\<close>

lemma entropy_bounds:
  "0 \<le> Shannon data \<and> Shannon data \<le> 8 \<and> IsLowEntropy (Shannon (replicate n b)) \<and>
   fst (Analyze s k) = Shannon (fst (snd (Analyze s k))) \<and> fst (snd (Analyze s k)) @ snd (snd (Analyze s k)) = s"
proof (intro conjI)
  show "IsLowEntropy (Shannon (replicate n b))" by (simp add: IsLowEntropy_def Shannon_constant)
  show "fst (Analyze s k) = Shannon (fst (snd (Analyze s k)))" by (simp add: Analyze_def Shannon_def Let_def)
  show "fst (snd (Analyze s k)) @ snd (snd (Analyze s k)) = s" by (simp add: Analyze_def Let_def)
qed (rule Shannon_nonneg Shannon_le_8)+

end
