(* ===== verification/Hamming.thy ===== *)
theory Hamming
  imports Crom_Prelude
begin

text \<open>
  The bit distance of \<^verbatim>\<open>internal/search/search.go\<close> and \<^verbatim>\<open>search_simd.go\<close>: the portable routine
  reads eight bytes at a time, the one chosen on CPUs with wide registers thirty-two. Both
  equal the reference that counts differing bits byte by byte, so the CPU does not influence
  the result.
\<close>

section \<open>The two routines\<close>

text \<open>\<^verbatim>\<open>bits.OnesCount64\<close> and \<^verbatim>\<open>bits.OnesCount8\<close>\<close>

definition OnesCount :: "'a::len word \<Rightarrow> nat" where
  "OnesCount w = length (filter (bit w) [0..<LENGTH('a)])"

definition diff64 :: "bytes \<Rightarrow> bytes \<Rightarrow> nat \<Rightarrow> nat" where
  "diff64 a b offset = OnesCount (get_uint64 a offset XOR get_uint64 b offset)"

definition diff8 :: "bytes \<Rightarrow> bytes \<Rightarrow> nat \<Rightarrow> nat" where
  "diff8 a b i = OnesCount (a ! i XOR b ! i)"

definition length_penalty :: "bytes \<Rightarrow> bytes \<Rightarrow> nat" where
  "length_penalty a b =
     (if length a \<noteq> length b then nat \<bar>int (length a) - int (length b)\<bar> * 8 else 0)"

definition hammingDistanceSIMD :: "bytes \<Rightarrow> bytes \<Rightarrow> nat" where
  "hammingDistanceSIMD a b =
     (let minLen = (if length b < length a then length b else length a);
          blocks32 = minLen div 32;
          d32 = (\<Sum>i \<leftarrow> [0..<blocks32].
                   diff64 a b (i * 32) + diff64 a b (i * 32 + 8) + diff64 a b (i * 32 + 16) + diff64 a b (i * 32 + 24));
          remStart = blocks32 * 32;
          blocks8 = (minLen - remStart) div 8;
          d8 = (\<Sum>i \<leftarrow> [0..<blocks8]. diff64 a b (remStart + i * 8));
          d1 = (\<Sum>i \<leftarrow> [remStart + blocks8 * 8..<minLen]. diff8 a b i)
      in d32 + d8 + d1 + length_penalty a b)"

definition hammingDistance :: "bool \<Rightarrow> bytes \<Rightarrow> bytes \<Rightarrow> nat" where
  "hammingDistance wide a b =
     (if wide then hammingDistanceSIMD a b
      else
        (let minLen = (if length b < length a then length b else length a);
             blocks = minLen div 8;
             d8 = (\<Sum>i \<leftarrow> [0..<blocks]. diff64 a b (i * 8));
             d1 = (\<Sum>i \<leftarrow> [blocks * 8..<minLen]. diff8 a b i)
         in d8 + d1 + length_penalty a b))"

text \<open>The reference.\<close>

definition bit_distance :: "bytes \<Rightarrow> bytes \<Rightarrow> nat" where
  "bit_distance a b =
     (\<Sum>i \<leftarrow> [0..<min (length a) (length b)]. OnesCount (a ! i XOR b ! i)) +
     8 * (max (length a) (length b) - min (length a) (length b))"

section \<open>Counting bits of a word through its bytes\<close>

lemma OnesCount_card: "OnesCount w = card {n. bit w n}"
proof -
  have "{n. bit w n} = set (filter (bit w) [0..<LENGTH('a)])" for w :: "'a::len word"
    by (auto dest: bit_imp_le_length)
  then show ?thesis by (simp add: OnesCount_def distinct_card del: set_filter)
qed

lemma le_word_xor:
  "length xs = length ys \<Longrightarrow> (le_word xs :: 'a::len word) XOR le_word ys = le_word (map2 (XOR) xs ys)"
proof (induction xs ys rule: list_induct2)
  case Nil
  then show ?case by simp
next
  case (Cons x xs y ys)
  have "(ucast x OR push_bit 8 (le_word xs)) XOR (ucast y OR push_bit 8 (le_word ys)) =
      ucast (x XOR y) OR push_bit 8 (le_word xs XOR le_word ys :: 'a word)"
    by (rule bit_word_eqI) (auto simp: bit_simps dest: bit_imp_le_length)
  with Cons show ?case by simp
qed

lemma le_word_bound: "bit (le_word bs :: 'a::len word) n \<Longrightarrow> n < 8 * length bs"
proof (induction bs arbitrary: n)
  case Nil
  then show ?case by simp
next
  case (Cons b bs)
  show ?case
  proof (cases "n < 8")
    case False
    with Cons.prems have "bit (le_word bs :: 'a word) (n - 8)"
      by (auto simp: bit_simps dest: bit_imp_le_length)
    from Cons.IH [OF this] show ?thesis by simp
  qed simp
qed

lemma OnesCount_le_word:
  "8 * length bs \<le> LENGTH('a) \<Longrightarrow> OnesCount (le_word bs :: 'a::len word) = (\<Sum>b \<leftarrow> bs. OnesCount b)"
proof (induction bs)
  case Nil
  then show ?case by (simp add: OnesCount_def)
next
  case (Cons b bs)
  let ?r = "le_word bs :: 'a word"
  have f: "finite {n. bit w n}" for w :: "'b::len word"
    by (rule finite_subset [of _ "{..<LENGTH('b)}"]) (auto dest: bit_imp_le_length)
  have "{n. bit (ucast b OR push_bit 8 ?r) n} = {n. bit b n} \<union> (\<lambda>n. n + 8) ` {n. bit ?r n}"
  proof (rule set_eqI)
    fix n
    have "n - 8 < 8 * length bs" if "bit ?r (n - 8)" using le_word_bound [OF that] .
    then show "n \<in> {n. bit (ucast b OR push_bit 8 ?r) n} \<longleftrightarrow> n \<in> {n. bit b n} \<union> (\<lambda>n. n + 8) ` {n. bit ?r n}"
      using Cons.prems le_word_bound [of bs]
      by (cases "8 \<le> n") (fastforce simp: bit_simps image_iff dest: bit_imp_le_length le_add_diff_inverse2)+
  qed
  moreover have "{n. bit b n} \<inter> (\<lambda>n. n + 8) ` {n. bit ?r n} = {}"
    by (auto dest: bit_imp_le_length)
  ultimately have "OnesCount (ucast b OR push_bit 8 ?r) = OnesCount b + OnesCount ?r"
    by (simp add: OnesCount_card card_Un_disjoint f card_image)
  with Cons show ?case by simp
qed

lemma map2_slice:
  assumes "hi \<le> length a" "hi \<le> length b"
  shows "map2 (XOR) (slice a lo hi) (slice b lo hi) = map (\<lambda>i. a ! i XOR b ! i) [lo..<hi]"
  using assms by (intro nth_equalityI) (auto simp: slice_def)

lemma diff64_bytes:
  assumes "offset + 8 \<le> length a" "offset + 8 \<le> length b"
  shows "diff64 a b offset = (\<Sum>i \<leftarrow> [offset..<offset + 8]. diff8 a b i)"
proof -
  have l: "length (slice a offset (offset + 8)) = length (slice b offset (offset + 8))"
    using assms by (simp add: length_slice)
  show ?thesis
    using assms map2_slice [OF assms(1,2), of offset]
    by (simp add: diff64_def get_uint64_def le_word_xor [OF l] OnesCount_le_word diff8_def comp_def)
qed

section \<open>The routines equal the reference\<close>

lemma sum_blocks:
  "(\<Sum>i \<leftarrow> [0..<n]. \<Sum>j \<leftarrow> [s + i * k..<s + i * k + k]. f j) = (\<Sum>j \<leftarrow> [s..<s + n * k]. f (j :: nat) :: nat)"
proof (induction n)
  case (Suc n)
  have "[s..<s + Suc n * k] = [s..<s + n * k] @ [s + n * k..<s + n * k + k]"
    using upt_add_eq_append [of s "s + n * k" k] by (simp add: add.commute add.left_commute)
  with Suc show ?case by simp
qed simp

lemma sum_split: "a \<le> b \<Longrightarrow> b \<le> c \<Longrightarrow>
   (\<Sum>i \<leftarrow> [a..<b]. f i) + (\<Sum>i \<leftarrow> [b..<c]. f i) = (\<Sum>i \<leftarrow> [a..<c]. f (i :: nat) :: nat)"
  by (metis le_Suc_ex map_append sum_list_append upt_add_eq_append)

lemma sum_split3:
  assumes "a \<le> b" "b \<le> c" "c \<le> d"
  shows "(\<Sum>i \<leftarrow> [a..<b]. f i) + (\<Sum>i \<leftarrow> [b..<c]. f i) + (\<Sum>i \<leftarrow> [c..<d]. f i) =
    (\<Sum>i \<leftarrow> [a..<d]. f (i :: nat) :: nat)"
  using sum_split [OF assms(1,2)] sum_split [OF le_trans [OF assms(1,2)] assms(3)] by metis

lemma diff64_blocks:
  assumes "s + n * 8 \<le> length a" "s + n * 8 \<le> length b"
  shows "(\<Sum>i \<leftarrow> [0..<n]. diff64 a b (s + i * 8)) = (\<Sum>j \<leftarrow> [s..<s + n * 8]. diff8 a b j)"
proof -
  have "s + i * 8 + 8 \<le> length a \<and> s + i * 8 + 8 \<le> length b" if "i < n" for i
  proof -
    have "Suc i * 8 \<le> n * 8" using that by (intro mult_right_mono) simp_all
    with assms show ?thesis by simp
  qed
  then have "(\<Sum>i \<leftarrow> [0..<n]. diff64 a b (s + i * 8)) =
      (\<Sum>i \<leftarrow> [0..<n]. \<Sum>j \<leftarrow> [s + i * 8..<s + i * 8 + 8]. diff8 a b j)"
    by (intro arg_cong [of _ _ sum_list] map_cong) (auto simp: diff64_bytes)
  then show ?thesis by (simp only: sum_blocks)
qed

lemma penalty_eq: "length_penalty a b = 8 * (max (length a) (length b) - min (length a) (length b))"
  by (auto simp: length_penalty_def max_def min_def)

lemma bit_distance_eq:
  "bit_distance a b = (\<Sum>j \<leftarrow> [0..<min (length a) (length b)]. diff8 a b j) + length_penalty a b"
  by (simp add: bit_distance_def penalty_eq diff8_def)

lemma min_if: "(if n < m then n else m) = min m (n :: nat)"
  by simp

lemma portable_distance: "hammingDistance False a b = bit_distance a b"
proof -
  let ?m = "min (length a) (length b)"
  have "(\<Sum>i \<leftarrow> [0..<?m div 8]. diff64 a b (i * 8)) = (\<Sum>j \<leftarrow> [0..<?m div 8 * 8]. diff8 a b j)"
    using diff64_blocks [of 0 "?m div 8" a b] div_times_less_eq_dividend [of ?m 8] by simp
  moreover have "(\<Sum>j \<leftarrow> [0..<?m div 8 * 8]. diff8 a b j) + (\<Sum>j \<leftarrow> [?m div 8 * 8..<?m]. diff8 a b j) =
      (\<Sum>j \<leftarrow> [0..<?m]. diff8 a b j)"
    by (rule sum_split [OF le0 div_times_less_eq_dividend])
  ultimately show ?thesis
    by (simp only: hammingDistance_def min_if Let_def if_False bit_distance_eq)
qed

lemma upt_four: "[0..<4 :: nat] = [0, 1, 2, 3]"
  by (simp add: upt_rec)

lemma diff64_four:
  "diff64 a b (i * 32) + diff64 a b (i * 32 + 8) + diff64 a b (i * 32 + 16) + diff64 a b (i * 32 + 24) =
   (\<Sum>k \<leftarrow> [0..<4]. diff64 a b (i * 32 + k * 8))"
  unfolding upt_four by simp

lemma simd_distance: "hammingDistanceSIMD a b = bit_distance a b"
proof -
  let ?m = "min (length a) (length b)"
  let ?r = "?m div 32 * 32"
  let ?b8 = "(?m - ?r) div 8"
  have r: "?r \<le> ?m" by (rule div_times_less_eq_dividend)
  have b8: "?r + ?b8 * 8 \<le> ?m" using div_times_less_eq_dividend [of "?m - ?r" 8] r by linarith
  have in_block: "i * 32 + 4 * 8 \<le> ?m" if "i < ?m div 32" for i
  proof -
    have "Suc i * 32 \<le> ?m div 32 * 32" using that by (intro mult_right_mono) simp_all
    with r show ?thesis by simp
  qed
  have "(\<Sum>i \<leftarrow> [0..<?m div 32]. \<Sum>k \<leftarrow> [0..<4]. diff64 a b (i * 32 + k * 8)) =
      (\<Sum>i \<leftarrow> [0..<?m div 32]. \<Sum>j \<leftarrow> [0 + i * 32..<0 + i * 32 + 32]. diff8 a b j)"
  proof (rule arg_cong [of _ _ sum_list], rule map_cong [OF refl])
    fix i
    assume "i \<in> set [0..<?m div 32]"
    then have "i * 32 + 4 * 8 \<le> ?m" using in_block by simp
    then show "(\<Sum>k \<leftarrow> [0..<4]. diff64 a b (i * 32 + k * 8)) =
        (\<Sum>j \<leftarrow> [0 + i * 32..<0 + i * 32 + 32]. diff8 a b j)"
      using diff64_blocks [of "i * 32" 4 a b] by simp
  qed
  then have d32: "(\<Sum>i \<leftarrow> [0..<?m div 32]. \<Sum>k \<leftarrow> [0..<4]. diff64 a b (i * 32 + k * 8)) =
      (\<Sum>j \<leftarrow> [0..<?r]. diff8 a b j)"
    using sum_blocks [of "diff8 a b" 0 32 "?m div 32"] by simp
  have d8: "(\<Sum>i \<leftarrow> [0..<?b8]. diff64 a b (?r + i * 8)) = (\<Sum>j \<leftarrow> [?r..<?r + ?b8 * 8]. diff8 a b j)"
    using b8 by (intro diff64_blocks) simp_all
  have "(\<Sum>j \<leftarrow> [0..<?r]. diff8 a b j) + (\<Sum>j \<leftarrow> [?r..<?r + ?b8 * 8]. diff8 a b j) +
      (\<Sum>j \<leftarrow> [?r + ?b8 * 8..<?m]. diff8 a b j) = (\<Sum>j \<leftarrow> [0..<?m]. diff8 a b j)"
    by (rule sum_split3 [OF le0 le_add1 b8])
  then show ?thesis
    unfolding hammingDistanceSIMD_def min_if Let_def diff64_four d32 d8 bit_distance_eq by simp
qed

lemma hammingDistance_eq: "hammingDistance wide a b = bit_distance a b"
  using portable_distance simd_distance by (cases wide) (simp_all add: hammingDistance_def)

lemma OnesCount_0_iff: "OnesCount w = 0 \<longleftrightarrow> w = (0 :: 'a::len word)"
proof
  assume "OnesCount w = 0"
  then have "\<forall>n < LENGTH('a). \<not> bit w n" by (simp add: OnesCount_def filter_empty_conv)
  then show "w = 0" by (intro bit_word_eqI) simp
qed (simp add: OnesCount_def)

lemma word_xor_0_iff: "x XOR y = 0 \<longleftrightarrow> x = (y :: 'a::len word)"
  by (metis xor.assoc xor.left_neutral xor.right_neutral xor_self_eq)

lemma bit_distance_0_iff: "bit_distance a b = 0 \<longleftrightarrow> a = b"
proof
  assume d: "bit_distance a b = 0"
  then have l: "length a = length b" by (auto simp: bit_distance_def max_def min_def split: if_splits)
  with d have "\<forall>i < length a. OnesCount (a ! i XOR b ! i) = 0" by (auto simp: bit_distance_def)
  then have "\<forall>i < length a. a ! i = b ! i" by (simp add: OnesCount_0_iff word_xor_0_iff)
  with l show "a = b" by (metis nth_equalityI)
qed (simp add: bit_distance_def OnesCount_0_iff)

lemma OnesCount_le: "OnesCount (w :: 'a::len word) \<le> LENGTH('a)"
  using length_filter_le [of "bit w" "[0..<LENGTH('a)]"] by (simp add: OnesCount_def)

lemma bit_distance_le: "bit_distance a b \<le> 8 * max (length a) (length b)"
proof -
  have "(\<Sum>i \<leftarrow> [0..<min (length a) (length b)]. OnesCount (a ! i XOR b ! i)) \<le>
      (\<Sum>i \<leftarrow> [0..<min (length a) (length b)]. 8)"
    using OnesCount_le [where 'a = 8] by (intro sum_list_mono) simp
  then show ?thesis by (simp add: bit_distance_def sum_list_triv)
qed

section \<open>Properties of the distance\<close>

text \<open>
  The distance does not depend on the CPU: the eight-byte and the thirty-two-byte
  routines both return the number of differing bits plus eight per byte of length
  difference; the distance is zero exactly for equal strings.
\<close>

lemma hamming_equivalence:
  "hammingDistance True a b = hammingDistance False a b \<and> hammingDistance wide a b = bit_distance a b \<and>
   (hammingDistance wide a b = 0 \<longleftrightarrow> a = b) \<and> hammingDistance wide a b \<le> 8 * max (length a) (length b)"
  by (simp add: hammingDistance_eq bit_distance_0_iff bit_distance_le)

end
