(* ===== verification/Ring.thy ===== *)
theory Ring
  imports Main
begin

text \<open>
  The eviction order of a bounded cache: a ring buffer of the keys in the order they were
  stored. As long as the cache is not full, the keys are the slots written last; when it
  is full, the slot about to be overwritten holds the oldest key.
\<close>

definition ring_pos :: "nat \<Rightarrow> nat \<Rightarrow> nat \<Rightarrow> nat" where
  "ring_pos N idx j = (idx + (N - 1 - j)) mod N"

definition ring_ok :: "nat \<Rightarrow> 'k list \<Rightarrow> 'k list \<Rightarrow> nat \<Rightarrow> bool" where
  "ring_ok N ks order idx \<longleftrightarrow>
     length order = N \<and> idx < N \<and> distinct ks \<and> length ks \<le> N \<and>
     set ks = (\<lambda>j. order ! ring_pos N idx j) ` {..<length ks}"

lemma ring_pos_lt: "0 < N \<Longrightarrow> ring_pos N idx j < N"
  by (simp add: ring_pos_def)

lemma ring_pos_next_0: "idx < N \<Longrightarrow> ring_pos N ((idx + 1) mod N) 0 = idx"
proof -
  assume i: "idx < N"
  have "((idx + 1) mod N + (N - 1)) mod N = (idx + 1 + (N - 1)) mod N" by (rule mod_add_left_eq)
  also have "idx + 1 + (N - 1) = idx + N" using i by simp
  finally show ?thesis using i by (simp add: ring_pos_def)
qed

lemma ring_pos_next_Suc: "Suc j < N \<Longrightarrow> ring_pos N ((idx + 1) mod N) (Suc j) = ring_pos N idx j"
proof -
  assume j: "Suc j < N"
  have "((idx + 1) mod N + (N - 1 - Suc j)) mod N = (idx + 1 + (N - 1 - Suc j)) mod N"
    by (rule mod_add_left_eq)
  also have "idx + 1 + (N - 1 - Suc j) = idx + (N - 1 - j)" using j by simp
  finally show ?thesis by (simp add: ring_pos_def)
qed

lemma ring_pos_oldest: "idx < N \<Longrightarrow> ring_pos N idx (N - 1) = idx"
  by (simp add: ring_pos_def)

lemma ring_pos_newer: "idx < N \<Longrightarrow> j < N - 1 \<Longrightarrow> ring_pos N idx j \<noteq> idx"
proof
  assume a: "idx < N" "j < N - 1" "ring_pos N idx j = idx"
  let ?d = "N - 1 - j"
  have d: "0 < ?d" "?d < N" using a by auto
  show False
  proof (cases "idx + ?d < N")
    case True
    with a(3) d show False by (simp add: ring_pos_def)
  next
    case False
    then have "(idx + ?d) mod N = idx + ?d - N" using a(1) d by (simp add: mod_if)
    with a(3) d False show False by (simp add: ring_pos_def)
  qed
qed

lemma image_slots_next:
  assumes "idx < N" "length order = N" "k < N"
  shows "(\<lambda>j. order[idx := h] ! ring_pos N ((idx + 1) mod N) j) ` {..<Suc k} =
    insert h ((\<lambda>j. order ! ring_pos N idx j) ` {..<k})"
proof -
  have z: "order[idx := h] ! ring_pos N ((idx + 1) mod N) 0 = h"
    using assms(1,2) by (simp only: ring_pos_next_0 nth_list_update_eq)
  have s: "order[idx := h] ! ring_pos N ((idx + 1) mod N) (Suc j) = order ! ring_pos N idx j" if "j < k" for j
  proof -
    have j: "Suc j < N" "j < N - 1" using that assms(3) by simp_all
    have "idx \<noteq> ring_pos N idx j" using ring_pos_newer [OF assms(1) j(2)] by simp
    then show ?thesis unfolding ring_pos_next_Suc [OF j(1)] by (rule nth_list_update_neq)
  qed
  show ?thesis
    using z s by (auto simp: lessThan_Suc_eq_insert_0 image_image)
qed

lemma ring_full:
  assumes "ring_ok N ks order idx" "length ks = N"
  shows "set ks - {order ! idx} = (\<lambda>j. order ! ring_pos N idx j) ` {..<N - 1}" "order ! idx \<in> set ks"
proof -
  let ?f = "\<lambda>j. order ! ring_pos N idx j"
  have r: "idx < N" "distinct ks" "set ks = ?f ` {..<N}" using assms by (auto simp: ring_ok_def)
  then have "card (?f ` {..<N}) = card {..<N}" using assms(2) by (metis card_lessThan distinct_card)
  then have inj: "inj_on ?f {..<N}" by (rule eq_card_imp_inj_on [rotated]) simp
  have last: "?f (N - 1) = order ! idx" using r(1) by (simp only: ring_pos_oldest)
  have split: "{..<N} = insert (N - 1) {..<N - 1}" using r(1) by auto
  show "order ! idx \<in> set ks" using last r(1,3) by (auto intro!: image_eqI [of _ _ "N - 1"])
  have "?f (N - 1) \<notin> ?f ` {..<N - 1}"
    using inj r(1) by (auto dest!: inj_onD)
  then show "set ks - {order ! idx} = ?f ` {..<N - 1}"
    unfolding r(3) split using last by auto
qed

lemma ring_store:
  assumes ok: "ring_ok N ks order idx" and new: "h \<notin> set ks"
  shows "ring_ok N ((if N \<le> length ks then removeAll (order ! idx) ks else ks) @ [h])
    (order[idx := h]) ((idx + 1) mod N)"
proof -
  have r: "length order = N" "idx < N" "distinct ks" "length ks \<le> N"
    "set ks = (\<lambda>j. order ! ring_pos N idx j) ` {..<length ks}"
    using ok by (auto simp: ring_ok_def)
  show ?thesis
  proof (cases "N \<le> length ks")
    case True
    with r have n: "length ks = N" by simp
    let ?ks = "removeAll (order ! idx) ks"
    have d: "distinct ?ks" "set ?ks = set ks - {order ! idx}" using r(3) by (simp_all add: distinct_removeAll)
    then have "length ?ks = card (set ks - {order ! idx})" by (metis distinct_card)
    also have "\<dots> = N - 1" using ring_full(2) [OF ok n] n r(3) by (simp add: distinct_card)
    finally have l: "length ?ks = N - 1" .
    have "set (?ks @ [h]) = (\<lambda>j. order[idx := h] ! ring_pos N ((idx + 1) mod N) j) ` {..<Suc (N - 1)}"
      using image_slots_next [OF r(2,1), of "N - 1" h] ring_full(1) [OF ok n] d(2) r(2) by simp
    moreover have len: "length (?ks @ [h]) = N" "Suc (N - 1) = N" using l r(2) by simp_all
    moreover have "distinct (?ks @ [h])" using d new by simp
    moreover have "(idx + 1) mod N < N" using r(2) by simp
    ultimately have "ring_ok N (?ks @ [h]) (order[idx := h]) ((idx + 1) mod N)"
      unfolding ring_ok_def len using r(1) by simp
    with True show ?thesis by simp
  next
    case False
    have "set (ks @ [h]) = (\<lambda>j. order[idx := h] ! ring_pos N ((idx + 1) mod N) j) ` {..<Suc (length ks)}"
      using image_slots_next [OF r(2,1), of "length ks" h] False r(5) by simp
    moreover have "(idx + 1) mod N < N" using r(2) by simp
    ultimately show ?thesis using False new r by (simp add: ring_ok_def)
  qed
qed

lemma ring_empty: "length order = N \<Longrightarrow> idx < N \<Longrightarrow> ring_ok N [] order idx"
  by (simp add: ring_ok_def)

end
