(* ===== verification/Codebook.thy ===== *)
theory Codebook
  imports Crypto Format
begin

text \<open>
  \<^verbatim>\<open>internal/codebook\<close>: the \<^verbatim>\<open>.cromdb\<close> pattern database. A reader holds the whole file and
  its header; a codeword is found by arithmetic on 64-bit words, so the model keeps the
  wrap-around. The results: the header round trip; a reader whose size fits 64 bits is well
  formed, and then every lookup below the count returns a codeword of the codeword size and
  every other lookup an error; the size check of \<open>OpenFromBytes\<close> can be defeated by
  overflow, and then a lookup panics. The cache decay keeps exactly the entries touched
  within its window.
\<close>

section \<open>Header\<close>

definition cb_HeaderSize :: nat where "cb_HeaderSize = 512"
definition cb_MagicString :: bytes where "cb_MagicString = bytes_of_string ''CROMDB''"
definition cb_MagicSize :: nat where "cb_MagicSize = 6"
definition cb_Version1 :: u16 where "cb_Version1 = 1"

record CBHeader =
  cbMagic :: bytes
  cbVersion :: u16
  CodewordSize :: u16
  CodewordCount :: u64
  DataOffset :: u64
  BuildHash :: bytes

definition cb_ParseHeader :: "bytes \<Rightarrow> CBHeader res" where
  "cb_ParseHeader data =
     (if length data < cb_HeaderSize then Inl (GoErr ''codebook: data too short for header'')
      else if slice data 0 cb_MagicSize \<noteq> cb_MagicString then Inl (GoErr ''codebook: invalid magic'')
      else if get_uint16 data 6 \<noteq> cb_Version1 then Inl (GoErr ''codebook: unsupported version'')
      else if get_uint16 data 8 = 0 then Inl (GoErr ''codebook: codeword size cannot be zero'')
      else if get_uint64 data 18 < of_nat cb_HeaderSize
      then Inl (GoErr ''codebook: data offset is within header region'')
      else Inr \<lparr>cbMagic = slice data 0 cb_MagicSize, cbVersion = get_uint16 data 6,
                CodewordSize = get_uint16 data 8, CodewordCount = get_uint64 data 10,
                DataOffset = get_uint64 data 18, BuildHash = slice data 26 58\<rparr>)"

definition cb_Serialize :: "CBHeader \<Rightarrow> bytes" where
  "cb_Serialize h =
     (let buf = zeros cb_HeaderSize;
          buf = gcopy buf 0 cb_MagicSize (cbMagic h);
          buf = put_uint16 buf 6 (cbVersion h);
          buf = put_uint16 buf 8 (CodewordSize h);
          buf = put_uint64 buf 10 (CodewordCount h);
          buf = put_uint64 buf 18 (DataOffset h);
          buf = gcopy buf 26 58 (BuildHash h)
      in buf)"

section \<open>Reader\<close>

text \<open>
  \<open>file\<close> is the operating-system handle and \<open>pageSize\<close> and \<open>pageReqs\<close> are never used; the
  cache is only ever emptied.
\<close>

record Reader =
  rData :: bytes
  rHeader :: CBHeader
  rLruCache :: "u64 \<rightharpoonup> bytes"

definition maxDictionarySize :: nat where "maxDictionarySize = 32 * 1024 * 1024 - 1024"

definition OpenFromBytes :: "bytes \<Rightarrow> Reader res" where
  "OpenFromBytes data =
     (if length data < cb_HeaderSize then Inl (GoErr ''codebook: data too small'')
      else rbind (wrap_err ''codebook: parse header'' (cb_ParseHeader data)) (\<lambda>header.
        let expectedSize = DataOffset header + ucast (CodewordSize header) * CodewordCount header
        in if of_nat (length data) < expectedSize then Inl (GoErr ''codebook: data truncated'')
           else Inr \<lparr>rData = data, rHeader = header, rLruCache = Map.empty\<rparr>))"

text \<open>
  \<open>Open\<close> maps a file into memory; \<open>fs\<close> gives the contents of a path. Failures of the mapping
  itself are not modelled.
\<close>

definition cb_Open :: "(string \<Rightarrow> bytes option) \<Rightarrow> string \<Rightarrow> Reader res" where
  "cb_Open fs path =
     (case fs path of
        None \<Rightarrow> Inl (GoErr ''codebook: open file'')
      | Some data \<Rightarrow>
          if length data < cb_HeaderSize then Inl (GoErr ''codebook: file too small'')
          else rbind (wrap_err ''codebook: parse header'' (cb_ParseHeader data)) (\<lambda>header.
            let expectedSize = DataOffset header + ucast (CodewordSize header) * CodewordCount header
            in if of_nat (length data) < expectedSize then Inl (GoErr ''codebook: file truncated'')
               else Inr \<lparr>rData = data, rHeader = header, rLruCache = Map.empty\<rparr>))"

definition word_slice :: "bytes \<Rightarrow> u64 \<Rightarrow> u64 \<Rightarrow> bytes res" where
  "word_slice data offset stop = gslice data (unat offset) (unat stop)"

definition Lookup :: "Reader \<Rightarrow> u64 \<Rightarrow> bytes res" where
  "Lookup r cid =
     (if CodewordCount (rHeader r) \<le> cid then Inl (GoErr ''codebook: lookup out of bounds'')
      else
        (let cwSize = ucast (CodewordSize (rHeader r));
             offset = DataOffset (rHeader r) + cid * cwSize;
             stop = offset + cwSize
         in if of_nat (length (rData r)) < stop
            then Inl (GoErr ''codebook: lookup would read past end of file'')
            else word_slice (rData r) offset stop))"

definition LookupUnsafe :: "Reader \<Rightarrow> u64 \<Rightarrow> bytes res" where
  "LookupUnsafe r cid =
     (let cwSize = ucast (CodewordSize (rHeader r));
          offset = DataOffset (rHeader r) + cid * cwSize
      in word_slice (rData r) offset (offset + cwSize))"

definition Dictionary :: "Reader \<Rightarrow> bytes res" where
  "Dictionary r =
     rbind (gslice (rData r) (unat (DataOffset (rHeader r))) (length (rData r))) (\<lambda>data.
       Inr (if maxDictionarySize < length data then drop (length data - maxDictionarySize) data else data))"

text \<open>\<open>ReadPatterns\<close>: the loop over the codewords; a slice out of range panics.\<close>

fun read_patterns_from :: "bytes \<Rightarrow> u64 \<Rightarrow> u64 \<Rightarrow> nat list \<Rightarrow> bytes list res" where
  "read_patterns_from data offset cwSize [] = Inr []"
| "read_patterns_from data offset cwSize (i # is) =
     (let start = offset + of_nat i * cwSize in
      rbind (word_slice data start (start + cwSize)) (\<lambda>p.
      rbind (read_patterns_from data offset cwSize is) (\<lambda>ps. Inr (p # ps))))"

definition ReadPatterns :: "(string \<Rightarrow> bytes option) \<Rightarrow> string \<Rightarrow> bytes list res" where
  "ReadPatterns fs path =
     (case fs path of
        None \<Rightarrow> Inl (GoErr ''codebook: read file'')
      | Some data \<Rightarrow>
          rbind (wrap_err ''codebook: parse header'' (cb_ParseHeader data)) (\<lambda>header.
            let cwSize = ucast (CodewordSize header);
                expectedEnd = DataOffset header + cwSize * CodewordCount header
            in if of_nat (length data) < expectedEnd then Inl (GoErr ''codebook: file truncated'')
               else read_patterns_from data (DataOffset header) cwSize [0..<unat (CodewordCount header)]))"

text \<open>The brain of a \<^verbatim>\<open>.crom\<close> file: the embedded one, or the one at \<open>path\<close>.\<close>

definition OpenForFile ::
  "ext \<Rightarrow> (string \<Rightarrow> bytes option) \<Rightarrow> u32 \<Rightarrow> bytes \<Rightarrow> bool \<Rightarrow> bytes \<Rightarrow> string \<Rightarrow> bytes \<Rightarrow> Reader res" where
  "OpenForFile X fs microSize micro encrypted salt path encryptionKey =
     (if microSize = 0 then
        (if path = '''' then Inl (GoErr ''this file needs the brain used to pack it (--codebook)'')
         else wrap_err ''failed to open codebook'' (cb_Open fs path))
      else
        rbind (if encrypted
               then wrap_err ''decrypt embedded brain'' (Decrypt X (DeriveKey X encryptionKey salt) micro)
               else Inr micro) (\<lambda>micro.
        case zstd_decode X [] micro of
          None \<Rightarrow> Inl (GoErr ''decompress embedded brain'')
        | Some brain \<Rightarrow> OpenFromBytes brain))"

section \<open>Cache decay\<close>

record DecayEngine =
  heatmap :: "u64 \<rightharpoonup> int"
  deReader :: Reader

definition NewDecayEngine :: "Reader \<Rightarrow> DecayEngine" where
  "NewDecayEngine r = \<lparr>heatmap = Map.empty, deReader = r\<rparr>"

definition Touch :: "int \<Rightarrow> u64 \<Rightarrow> DecayEngine \<Rightarrow> DecayEngine" where
  "Touch now chunkID d = d\<lparr>heatmap := (heatmap d)(chunkID \<mapsto> now)\<rparr>"

definition is_cold :: "int \<Rightarrow> int \<Rightarrow> DecayEngine \<Rightarrow> u64 \<Rightarrow> bool" where
  "is_cold now window d cid = (case heatmap d cid of None \<Rightarrow> False | Some ts \<Rightarrow> window < now - ts)"

definition decay :: "int \<Rightarrow> int \<Rightarrow> DecayEngine \<Rightarrow> DecayEngine" where
  "decay now window d =
     d\<lparr>heatmap := (\<lambda>cid. if is_cold now window d cid then None else heatmap d cid),
       deReader := (deReader d)\<lparr>rLruCache := (\<lambda>cid. if is_cold now window d cid then None
                                                   else rLruCache (deReader d) cid)\<rparr>\<rparr>"

section \<open>Header round trip\<close>

definition wf_cb_header :: "CBHeader \<Rightarrow> bool" where
  "wf_cb_header h \<longleftrightarrow> cbMagic h = cb_MagicString \<and> cbVersion h = cb_Version1 \<and> CodewordSize h \<noteq> 0 \<and>
     512 \<le> DataOffset h \<and> length (BuildHash h) = 32"

lemma length_cb_MagicString [simp]: "length cb_MagicString = 6"
  by (simp add: cb_MagicString_def bytes_of_string_def)

definition cb_fields :: "CBHeader \<Rightarrow> bytes" where
  "cb_fields h = cbMagic h @ le_bytes 2 (cbVersion h) @ le_bytes 2 (CodewordSize h) @
     le_bytes 8 (CodewordCount h) @ le_bytes 8 (DataOffset h) @ BuildHash h"

lemma cb_Serialize_layout:
  "length (cbMagic h) = 6 \<Longrightarrow> length (BuildHash h) = 32 \<Longrightarrow> cb_Serialize h = cb_fields h @ zeros 454"
  unfolding cb_Serialize_def buf_at_start
  by (simp add: cb_HeaderSize_def cb_MagicSize_def gcopy_def put_uint_defs put_buf_at Let_def)
    (simp add: buf_at_def cb_fields_def)

lemma length_cb_fields: "length (cbMagic h) = 6 \<Longrightarrow> length (BuildHash h) = 32 \<Longrightarrow> length (cb_fields h) = 58"
  by (simp add: cb_fields_def)

lemma length_cb_Serialize: "wf_cb_header h \<Longrightarrow> length (cb_Serialize h) = 512"
  by (simp add: cb_Serialize_layout wf_cb_header_def length_cb_fields)

lemma cb_ParseHeader_Serialize: "wf_cb_header h \<Longrightarrow> cb_ParseHeader (cb_Serialize h @ rest) = Inr h"
proof -
  assume wf: "wf_cb_header h"
  then have l: "length (cbMagic h) = 6" "length (BuildHash h) = 32" by (simp_all add: wf_cb_header_def)
  have "slice (cb_Serialize h @ rest) a b = slice (cb_fields h) a b" if "b \<le> 58" for a b
    using that l by (simp add: cb_Serialize_layout slice_append1 length_cb_fields)
  then show ?thesis
    using wf l length_cb_Serialize [OF wf]
    by (simp add: cb_ParseHeader_def get_uint_defs cb_MagicSize_def cb_HeaderSize_def wf_cb_header_def)
      (simp add: cb_fields_def slice_layout wire_simps not_less)
qed

interpretation codebook_header_codec: codec cb_Serialize cb_ParseHeader wf_cb_header "\<lambda>h. h"
  by unfold_locales (use cb_ParseHeader_Serialize [where rest = "[]"] in simp)

lemma cb_ParseHeader_wf: "cb_ParseHeader data = Inr h \<Longrightarrow> wf_cb_header h"
  by (auto simp: cb_ParseHeader_def wf_cb_header_def length_slice cb_HeaderSize_def not_less split: if_splits)

section \<open>Lookups\<close>

definition wf_reader :: "Reader \<Rightarrow> bool" where
  "wf_reader r \<longleftrightarrow>
     wf_cb_header (rHeader r) \<and> length (rData r) < 2 ^ 63 \<and>
     unat (DataOffset (rHeader r)) + unat (CodewordSize (rHeader r)) * unat (CodewordCount (rHeader r))
       \<le> length (rData r)"

abbreviation cw_size :: "Reader \<Rightarrow> nat" where
  "cw_size r \<equiv> unat (CodewordSize (rHeader r))"

text \<open>The codeword at an index, by arithmetic on natural numbers.\<close>

definition codeword :: "Reader \<Rightarrow> nat \<Rightarrow> bytes" where
  "codeword r i =
     (let s = unat (DataOffset (rHeader r)) + i * cw_size r in slice (rData r) s (s + cw_size r))"

lemma codeword_range:
  assumes "wf_reader r" "i < unat (CodewordCount (rHeader r))"
  shows "unat (DataOffset (rHeader r)) + i * cw_size r + cw_size r \<le> length (rData r)"
proof -
  have "Suc i * cw_size r \<le> unat (CodewordCount (rHeader r)) * cw_size r"
    using assms(2) by (intro mult_right_mono) simp_all
  with assms(1) show ?thesis by (simp add: wf_reader_def mult.commute)
qed

lemma length_codeword:
  "wf_reader r \<Longrightarrow> i < unat (CodewordCount (rHeader r)) \<Longrightarrow> length (codeword r i) = cw_size r"
  using codeword_range [of r i] by (simp add: codeword_def Let_def length_slice)

lemma unat_ucast_u16: "unat (ucast (w :: u16) :: u64) = unat w"
  by (rule unat_ucast_small) (use unat_lt [of w] in simp)

lemma unat_plus_lt: "unat a + unat b < 2 ^ 64 \<Longrightarrow> unat (a + b :: u64) = unat a + unat b"
  by (simp add: unat_word_ariths)

lemma unat_mult_lt: "unat a * unat b < 2 ^ 64 \<Longrightarrow> unat (a * b :: u64) = unat a * unat b"
  by (simp add: unat_word_ariths)

lemma lookup_offset:
  assumes "wf_reader r" "unat cid < unat (CodewordCount (rHeader r))"
  defines "off \<equiv> DataOffset (rHeader r) + cid * ucast (CodewordSize (rHeader r))"
  shows "unat off = unat (DataOffset (rHeader r)) + unat cid * cw_size r"
    "unat (off + ucast (CodewordSize (rHeader r))) = unat (DataOffset (rHeader r)) + unat cid * cw_size r + cw_size r"
proof -
  have lt: "unat (DataOffset (rHeader r)) + unat cid * cw_size r + cw_size r < 2 ^ 64"
    using codeword_range [OF assms(1,2)] assms(1) by (simp add: wf_reader_def)
  have m: "unat (cid * ucast (CodewordSize (rHeader r))) = unat cid * cw_size r"
    using lt by (subst unat_mult_lt) (simp_all add: unat_ucast_u16)
  show f: "unat off = unat (DataOffset (rHeader r)) + unat cid * cw_size r"
    unfolding off_def using lt by (subst unat_plus_lt) (simp_all add: m)
  show "unat (off + ucast (CodewordSize (rHeader r))) = unat (DataOffset (rHeader r)) + unat cid * cw_size r + cw_size r"
    using lt by (subst unat_plus_lt) (simp_all add: f unat_ucast_u16)
qed

lemma LookupUnsafe_codeword:
  assumes "wf_reader r" "cid < CodewordCount (rHeader r)"
  shows "LookupUnsafe r cid = Inr (codeword r (unat cid))"
proof -
  have lt: "unat cid < unat (CodewordCount (rHeader r))" using assms(2) by (simp add: word_less_nat_alt)
  show ?thesis
    using codeword_range [OF assms(1) lt] lookup_offset [OF assms(1) lt]
    by (simp add: LookupUnsafe_def word_slice_def gslice_def codeword_def Let_def)
qed

lemma Lookup_codeword:
  assumes "wf_reader r" "cid < CodewordCount (rHeader r)"
  shows "Lookup r cid = Inr (codeword r (unat cid))"
proof -
  have lt: "unat cid < unat (CodewordCount (rHeader r))" using assms(2) by (simp add: word_less_nat_alt)
  let ?e = "DataOffset (rHeader r) + cid * ucast (CodewordSize (rHeader r)) + ucast (CodewordSize (rHeader r))"
  have "unat (of_nat (length (rData r)) :: u64) = length (rData r)"
    using assms(1) by (intro unat_of_nat_lt) (simp add: wf_reader_def)
  then have "\<not> of_nat (length (rData r)) < ?e"
    using codeword_range [OF assms(1) lt] lookup_offset [OF assms(1) lt] by (simp add: word_less_nat_alt)
  then show ?thesis
    using assms(2) LookupUnsafe_codeword [OF assms]
    by (simp add: Lookup_def LookupUnsafe_def Let_def not_le)
qed

lemma Lookup_out_of_range:
  "CodewordCount (rHeader r) \<le> cid \<Longrightarrow> Lookup r cid = Inl (GoErr ''codebook: lookup out of bounds'')"
  by (simp add: Lookup_def)

text \<open>Opening gives a well-formed reader when the declared size does not overflow.\<close>

definition declared_size :: "CBHeader \<Rightarrow> nat" where
  "declared_size h = unat (DataOffset h) + unat (CodewordSize h) * unat (CodewordCount h)"

lemma declared_size_word:
  assumes "declared_size h < 2 ^ 64"
  shows "unat (DataOffset h + ucast (CodewordSize h) * CodewordCount h) = declared_size h"
proof -
  have "unat (ucast (CodewordSize h) * CodewordCount h) = unat (CodewordSize h) * unat (CodewordCount h)"
    using assms by (subst unat_mult_lt) (simp_all add: unat_ucast_u16 declared_size_def)
  then show ?thesis using assms by (subst unat_plus_lt) (simp_all add: declared_size_def)
qed

lemma OpenFromBytes_wf:
  assumes "OpenFromBytes data = Inr r" "length data < 2 ^ 63" "declared_size (rHeader r) < 2 ^ 64"
  shows "wf_reader r" "rData r = data"
proof -
  from assms(1) obtain h where h: "cb_ParseHeader data = Inr h"
    "\<not> of_nat (length data) < DataOffset h + ucast (CodewordSize h) * CodewordCount h"
    "r = \<lparr>rData = data, rHeader = h, rLruCache = Map.empty\<rparr>"
    by (auto simp: OpenFromBytes_def rbind_Inr_iff Let_def split: if_splits)
  have "unat (of_nat (length data) :: u64) = length data"
    using assms(2) by (intro unat_of_nat_lt) simp
  with h(2) assms(3) h(3) have "declared_size h \<le> length data"
    by (simp add: word_less_nat_alt declared_size_word)
  with h cb_ParseHeader_wf [OF h(1)] assms(2) show "wf_reader r"
    by (simp add: wf_reader_def declared_size_def)
  show "rData r = data" by (simp add: h(3))
qed

lemma OpenFromBytes_Serialize:
  assumes "wf_cb_header h" "declared_size h \<le> 512 + length body" "512 + length body < 2 ^ 63"
  shows "OpenFromBytes (cb_Serialize h @ body) =
    Inr \<lparr>rData = cb_Serialize h @ body, rHeader = h, rLruCache = Map.empty\<rparr>"
proof -
  have l: "length (cb_Serialize h @ body) = 512 + length body"
    using length_cb_Serialize [OF assms(1)] by simp
  have "unat (of_nat (512 + length body) :: u64) = 512 + length body"
    using assms(3) by (intro unat_of_nat_lt) simp
  then have "\<not> of_nat (512 + length body) < DataOffset h + ucast (CodewordSize h) * CodewordCount h"
    using assms(2,3) by (simp add: word_less_nat_alt declared_size_word del: of_nat_add of_nat_numeral)
  then show ?thesis
    unfolding OpenFromBytes_def l using cb_ParseHeader_Serialize [OF assms(1), of body]
    by (simp add: cb_HeaderSize_def Let_def)
qed

lemma cb_Open_OpenFromBytes:
  "cb_Open fs path = Inr r \<longleftrightarrow> (\<exists>data. fs path = Some data \<and> OpenFromBytes data = Inr r)"
  by (auto simp: cb_Open_def OpenFromBytes_def rbind_Inr_iff Let_def split: option.splits if_splits)

lemma read_patterns_from_codewords:
  assumes "wf_reader r"
  shows "(\<forall>i \<in> set is. i < unat (CodewordCount (rHeader r))) \<Longrightarrow>
    read_patterns_from (rData r) (DataOffset (rHeader r)) (ucast (CodewordSize (rHeader r))) is =
    Inr (map (codeword r) is)"
proof (induction "is")
  case (Cons i "is")
  have u: "unat (of_nat i :: u64) = i"
    using Cons.prems unat_lt [of "CodewordCount (rHeader r)"]
    by (intro unat_of_nat_lt) (auto intro: less_trans)
  then have "of_nat i < CodewordCount (rHeader r)" using Cons.prems by (simp add: word_less_nat_alt)
  from LookupUnsafe_codeword [OF assms this] Cons show ?case
    by (simp add: LookupUnsafe_def u Let_def)
qed simp

lemma Dictionary_ok:
  assumes "wf_reader r"
  shows "\<exists>d. Dictionary r = Inr d \<and> length d \<le> maxDictionarySize"
  using assms by (simp add: Dictionary_def gslice_def wf_reader_def)

section \<open>Overflow\<close>

definition overflow_header :: CBHeader where
  "overflow_header = \<lparr>cbMagic = cb_MagicString, cbVersion = 1, CodewordSize = 2 ^ 15, CodewordCount = 2 ^ 49,
     DataOffset = 512, BuildHash = zeros 32\<rparr>"

section \<open>Properties of the codebook\<close>

text \<open>
  Lookup is exact: in a well-formed reader, looking up an identifier below the count
  returns the codeword at its place in the file, with the codeword size; any other
  identifier is an error, and there is no panic.
\<close>

lemma lookup_exact:
  assumes "wf_reader r"
  shows "Lookup r cid =
      (if cid < CodewordCount (rHeader r) then Inr (codeword r (unat cid))
       else Inl (GoErr ''codebook: lookup out of bounds'')) \<and>
    (cid < CodewordCount (rHeader r) \<longrightarrow>
       LookupUnsafe r cid = Lookup r cid \<and> length (codeword r (unat cid)) = cw_size r)"
proof (cases "cid < CodewordCount (rHeader r)")
  case True
  then show ?thesis
    using Lookup_codeword [OF assms True] LookupUnsafe_codeword [OF assms True]
      length_codeword [OF assms, of "unat cid"] by (simp add: word_less_nat_alt)
next
  case False
  then show ?thesis using Lookup_out_of_range [of r cid] by auto
qed

definition sample_cb_header :: CBHeader where
  "sample_cb_header = \<lparr>cbMagic = cb_MagicString, cbVersion = 1, CodewordSize = 2, CodewordCount = 3,
     DataOffset = 512, BuildHash = zeros 32\<rparr>"

definition sample_reader :: Reader where
  "sample_reader = \<lparr>rData = cb_Serialize sample_cb_header @ [1, 2, 3, 4, 5, 6], rHeader = sample_cb_header,
     rLruCache = Map.empty\<rparr>"

lemma sample_cb_header_wf: "wf_cb_header sample_cb_header"
  by (simp add: wf_cb_header_def sample_cb_header_def cb_Version1_def)

lemma sample_reader_wf: "wf_reader sample_reader"
  using sample_cb_header_wf length_cb_Serialize [OF sample_cb_header_wf]
  by (simp add: wf_reader_def sample_reader_def) (simp add: sample_cb_header_def)

text \<open>
  Opening is sound: a database that \<open>OpenFromBytes\<close> accepts gives a well-formed reader
  over the same bytes, provided the declared size does not overflow 64 bits.
\<close>

lemma open_sound:
  assumes "OpenFromBytes data = Inr r" "length data < 2 ^ 63" "declared_size (rHeader r) < 2 ^ 64"
  shows "wf_reader r \<and> rData r = data"
  using OpenFromBytes_wf [OF assms] by blast

text \<open>
  C34. The size check is defeated by overflow: a database of 512 bytes that declares
  \<open>2^49\<close> codewords of \<open>2^15\<close> bytes is accepted, and the lookup of its last identifier
  panics instead of returning an error.
\<close>

theorem open_overflow_panics:
  "\<exists>r. OpenFromBytes (cb_Serialize overflow_header) = Inr r \<and> Lookup r (2 ^ 49 - 1) = Inl GoPanic"
proof -
  have wf: "wf_cb_header overflow_header"
    by (simp add: wf_cb_header_def overflow_header_def cb_Version1_def)
  let ?r = "\<lparr>rData = cb_Serialize overflow_header, rHeader = overflow_header, rLruCache = Map.empty\<rparr>"
  have l: "length (cb_Serialize overflow_header) = 512" by (rule length_cb_Serialize [OF wf])
  have "OpenFromBytes (cb_Serialize overflow_header) = Inr ?r"
    using cb_ParseHeader_Serialize [OF wf, of "[]"] l
    by (simp add: OpenFromBytes_def cb_HeaderSize_def Let_def) (simp add: overflow_header_def)
  moreover have "Lookup ?r (2 ^ 49 - 1) = Inl GoPanic"
    by (simp add: Lookup_def l word_slice_def gslice_def Let_def) (simp add: overflow_header_def)
  ultimately show ?thesis by blast
qed

text \<open>
  Cache decay: after a sweep at time \<open>now\<close>, an entry is in the heat map exactly if it
  was there and was touched within the window; the reader's cache loses exactly the cold
  entries, and nothing else of the reader changes.
\<close>

lemma decay_exact:
  "(heatmap (decay now window d) cid = Some ts \<longleftrightarrow> heatmap d cid = Some ts \<and> now - ts \<le> window) \<and>
   rLruCache (deReader (decay now window d)) cid =
     (if is_cold now window d cid then None else rLruCache (deReader d) cid) \<and>
   (window \<ge> 0 \<longrightarrow> heatmap (decay now window (Touch now cid d)) cid = Some now) \<and>
   rData (deReader (decay now window d)) = rData (deReader d)"
  by (auto simp: decay_def is_cold_def Touch_def split: option.splits if_splits)

end
