(* ===== verification/Search.thy ===== *)
theory Search
  imports Hamming Ring Codebook Entropy Chunker "HOL-Library.AList"
begin

text \<open>
  \<^verbatim>\<open>internal/search\<close>: finding the codeword closest to a chunk. The interface \<open>Searcher\<close> is
  the locale \<open>searcher\<close>; its law is what the packer relies on: a match names a codeword of
  the database and carries its bytes, whatever happened before (the cache included). The
  linear, the bucketed and the hierarchical searcher interpret it. The bucketed searcher
  keeps a cache of results keyed by a 64-bit hash of the chunk, with a ring buffer for
  eviction; its capacity is an invariant.

  Results carry a Go \<open>int\<close> distance, a natural number here; the largest \<open>int\<close> is the start value
  of the searches. \<open>wide\<close> tells whether the CPU has wide registers.
\<close>

section \<open>Matches\<close>

record MatchResult =
  mCodebookID :: u64
  mPattern :: bytes
  mDistance :: nat

definition maxInt :: nat where "maxInt = 2 ^ 63 - 1"

definition empty_match :: MatchResult where
  "empty_match = \<lparr>mCodebookID = 0, mPattern = [], mDistance = 0\<rparr>"

definition Similarity :: "MatchResult \<Rightarrow> nat \<Rightarrow> real" where
  "Similarity m chunkBits =
     (if chunkBits = 0 then 0
      else let s = 1 - real (mDistance m) / real chunkBits in if s < 0 then 0 else s)"

section \<open>Linear search\<close>

record LinearSearcher =
  lnCb :: "Reader option"
  lnAllowed :: "u64 list option"

definition NewLinearSearcher :: "Reader option \<Rightarrow> LinearSearcher" where
  "NewLinearSearcher cb = \<lparr>lnCb = cb, lnAllowed = None\<rparr>"

definition Linear_Restrict :: "u64 list option \<Rightarrow> LinearSearcher \<Rightarrow> LinearSearcher" where
  "Linear_Restrict allowed ls = ls\<lparr>lnAllowed := allowed\<rparr>"

text \<open>The loop over candidate identifiers, which stops at a perfect match.\<close>

fun scan_best :: "bool \<Rightarrow> Reader \<Rightarrow> bytes \<Rightarrow> u64 list \<Rightarrow> MatchResult \<Rightarrow> MatchResult res" where
  "scan_best wide r chunk [] best = Inr best"
| "scan_best wide r chunk (cid # ids) best =
     rbind (LookupUnsafe r cid) (\<lambda>pattern.
       let dist = hammingDistance wide chunk pattern in
       if dist < mDistance best then
         (let best = \<lparr>mCodebookID = cid, mPattern = pattern, mDistance = dist\<rparr>
          in if dist = 0 then Inr best else scan_best wide r chunk ids best)
       else scan_best wide r chunk ids best)"

definition start_match :: MatchResult where
  "start_match = \<lparr>mCodebookID = 0, mPattern = [], mDistance = maxInt\<rparr>"

definition all_ids :: "Reader \<Rightarrow> u64 list" where
  "all_ids r = map of_nat [0..<unat (CodewordCount (rHeader r))]"

definition Linear_FindBestMatch :: "bool \<Rightarrow> LinearSearcher \<Rightarrow> bytes \<Rightarrow> MatchResult res" where
  "Linear_FindBestMatch wide ls chunk =
     (case lnCb ls of
        None \<Rightarrow> Inl (GoErr ''search: nil codebook'')
      | Some r \<Rightarrow>
          if CodewordCount (rHeader r) = 0 then Inl (GoErr ''search: empty codebook'')
          else scan_best wide r chunk
                 (case lnAllowed ls of Some allowed \<Rightarrow> allowed | None \<Rightarrow> all_ids r) start_match)"

section \<open>Bucketed search\<close>

definition lshCacheSize :: nat where "lshCacheSize = 65536"
definition AlignedMinCodewordSize :: nat where "AlignedMinCodewordSize = 1024"

record LSHSearcher =
  lsCb :: "Reader option"
  lsBuckets :: "u16 \<rightharpoonup> u64 list"
  lsLinear :: LinearSearcher
  lsExact :: "u64 \<rightharpoonup> u64"
  lsCache :: "(u64 \<times> MatchResult) list"
  lsCacheOrder :: "u64 list"
  lsCacheIdx :: nat

definition computeLSH :: "bytes \<Rightarrow> u16" where
  "computeLSH data =
     (if 2 \<le> length data then ucast (data ! 0) OR push_bit 8 (ucast (data ! 1)) else 0)"

definition chunkHash :: "bytes \<Rightarrow> u64" where
  "chunkHash data = foldl (\<lambda>h b. (h XOR ucast b) * 1099511628211) 14695981039346656037 data"

definition freq_entropy :: "bytes \<Rightarrow> real" where
  "freq_entropy data =
     foldl (\<lambda>e i. let f = count_list data (of_nat i) in
                   if 0 < f then (let p = real f / real (length data) in e - p * log 2 p) else e)
       0 [0..<256]"

definition isHighEntropy :: "bytes \<Rightarrow> bool" where
  "isHighEntropy data \<longleftrightarrow> data \<noteq> [] \<and> 75 / 10 < freq_entropy data"

definition index_codeword :: "ext \<Rightarrow> Reader \<Rightarrow> u64 \<Rightarrow> LSHSearcher \<Rightarrow> LSHSearcher res" where
  "index_codeword X r cid ls =
     rbind (LookupUnsafe r cid) (\<lambda>pattern.
       let hash = computeLSH pattern;
           bucket = (case lsBuckets ls hash of Some ids \<Rightarrow> ids | None \<Rightarrow> [])
       in Inr (ls\<lparr>lsBuckets := (lsBuckets ls)(hash \<mapsto> bucket @ [cid]),
                  lsExact := (lsExact ls)(xxhash X pattern \<mapsto> cid)\<rparr>))"

fun buildIndex :: "ext \<Rightarrow> Reader \<Rightarrow> u64 list \<Rightarrow> LSHSearcher \<Rightarrow> LSHSearcher res" where
  "buildIndex X r [] ls = Inr ls"
| "buildIndex X r (cid # ids) ls = rbind (index_codeword X r cid ls) (buildIndex X r ids)"

definition NewLSHSearcher :: "ext \<Rightarrow> Reader \<Rightarrow> LSHSearcher res" where
  "NewLSHSearcher X r =
     buildIndex X r (all_ids r)
       \<lparr>lsCb = Some r, lsBuckets = Map.empty, lsLinear = NewLinearSearcher (Some r), lsExact = Map.empty,
        lsCache = [], lsCacheOrder = replicate lshCacheSize 0, lsCacheIdx = 0\<rparr>"

definition FindExact :: "ext \<Rightarrow> LSHSearcher \<Rightarrow> bytes \<Rightarrow> u64 option res" where
  "FindExact X ls chunk =
     (case lsCb ls of
        None \<Rightarrow> Inr None
      | Some r \<Rightarrow>
          if length chunk \<noteq> unat (CodewordSize (rHeader r)) then Inr None
          else (case lsExact ls (xxhash X chunk) of
                  None \<Rightarrow> Inr None
                | Some cid \<Rightarrow>
                    rbind (LookupUnsafe r cid) (\<lambda>p. Inr (if p = chunk then Some cid else None))))"

definition cacheStore :: "u64 \<Rightarrow> MatchResult \<Rightarrow> LSHSearcher \<Rightarrow> LSHSearcher" where
  "cacheStore h result ls =
     (let cache = (if lshCacheSize \<le> length (lsCache ls)
                   then AList.delete (lsCacheOrder ls ! lsCacheIdx ls) (lsCache ls) else lsCache ls)
      in ls\<lparr>lsCache := AList.update h result cache,
            lsCacheOrder := (lsCacheOrder ls)[lsCacheIdx ls := h],
            lsCacheIdx := (lsCacheIdx ls + 1) mod lshCacheSize\<rparr>)"

definition Restrict_bucket :: "u64 list \<Rightarrow> u64 list option \<Rightarrow> u64 list option" where
  "Restrict_bucket allowed b =
     (case b of
        None \<Rightarrow> None
      | Some ids \<Rightarrow>
          (let filtered = filter (\<lambda>i. i \<in> set allowed) ids in if filtered \<noteq> [] then Some filtered else None))"

text \<open>\<open>None\<close> is Go's \<open>nil\<close> slice, which the linear searcher takes for no restriction.\<close>

definition allowed_ids :: "u64 list option \<Rightarrow> u64 list" where
  "allowed_ids allowed = (case allowed of Some ids \<Rightarrow> ids | None \<Rightarrow> [])"

definition LSH_Restrict :: "u64 list option \<Rightarrow> LSHSearcher \<Rightarrow> LSHSearcher" where
  "LSH_Restrict allowed ls =
     ls\<lparr>lsExact := (\<lambda>h. case lsExact ls h of
                          Some cid \<Rightarrow> if cid \<in> set (allowed_ids allowed) then Some cid else None
                        | None \<Rightarrow> None),
        lsBuckets := (\<lambda>b. Restrict_bucket (allowed_ids allowed) (lsBuckets ls b)),
        lsLinear := Linear_Restrict allowed (lsLinear ls),
        lsCache := []\<rparr>"

text \<open>The match that makes the packer store a literal.\<close>

definition worst_match :: "Reader \<Rightarrow> bytes \<Rightarrow> MatchResult res" where
  "worst_match r chunk =
     rbind (LookupUnsafe r 0) (\<lambda>p.
       Inr \<lparr>mCodebookID = 0, mPattern = p, mDistance = length chunk * 8\<rparr>)"

text \<open>The result and the searcher as the call leaves it; \<open>store_ok\<close> caches a successful result.\<close>

definition store_ok :: "u64 \<Rightarrow> LSHSearcher \<Rightarrow> MatchResult res \<Rightarrow> MatchResult res \<times> LSHSearcher" where
  "store_ok h ls result = (case result of Inr m \<Rightarrow> (Inr m, cacheStore h m ls) | Inl e \<Rightarrow> (Inl e, ls))"

definition LSH_FindBestMatch :: "bool \<Rightarrow> LSHSearcher \<Rightarrow> bytes \<Rightarrow> MatchResult res \<times> LSHSearcher" where
  "LSH_FindBestMatch wide ls chunk =
     (case lsCb ls of
        None \<Rightarrow> (Inl (GoErr ''search: nil codebook''), ls)
      | Some r \<Rightarrow>
          (let h = chunkHash chunk in
           case map_of (lsCache ls) h of
             Some cached \<Rightarrow> (Inr cached, ls)
           | None \<Rightarrow>
               if isHighEntropy chunk then store_ok h ls (worst_match r chunk)
               else
                 (case lsBuckets ls (computeLSH chunk) of
                    Some (c # cs) \<Rightarrow> store_ok h ls (scan_best wide r chunk (c # cs) start_match)
                  | _ \<Rightarrow>
                      if AlignedMinCodewordSize \<le> unat (CodewordSize (rHeader r)) then (worst_match r chunk, ls)
                      else store_ok h ls (Linear_FindBestMatch wide (lsLinear ls) chunk))))"

section \<open>Hierarchical search\<close>

text \<open>
  The loop over the tiers from index \<open>tier\<close> on, with the best match so far; it returns the
  searchers as the calls leave them. A panic in a tier ends the loop.
\<close>

fun multi_loop ::
  "bool \<Rightarrow> bytes \<Rightarrow> nat \<Rightarrow> LSHSearcher list \<Rightarrow> MatchResult \<Rightarrow> MatchResult res \<times> LSHSearcher list" where
  "multi_loop wide chunk tier [] best = (Inr best, [])"
| "multi_loop wide chunk tier (s # ss) best =
     (case LSH_FindBestMatch wide s chunk of
        (Inl GoPanic, s') \<Rightarrow> (Inl GoPanic, s' # ss)
      | (Inl (GoErr e), s') \<Rightarrow>
          (let (result, ss') = multi_loop wide chunk (tier + 1) ss best in (result, s' # ss'))
      | (Inr m, s') \<Rightarrow>
          (let best = (if mDistance m < mDistance best
                       then m\<lparr>mCodebookID := mCodebookID m OR push_bit 62 (of_nat tier)\<rparr> else best)
           in if mDistance best \<le> length chunk * 8 div 2 then (Inr best, s' # ss)
              else let (result, ss') = multi_loop wide chunk (tier + 1) ss best in (result, s' # ss')))"

definition Multi_FindBestMatch ::
  "bool \<Rightarrow> LSHSearcher list \<Rightarrow> bytes \<Rightarrow> MatchResult res \<times> LSHSearcher list" where
  "Multi_FindBestMatch wide searchers chunk =
     (if searchers = [] then (Inl (GoErr ''multi_search: no searchers provided''), searchers)
      else
        (let (result, searchers') = multi_loop wide chunk 0 searchers start_match
         in case result of
              Inl e \<Rightarrow> (Inl e, searchers')
            | Inr best \<Rightarrow>
                if mDistance best = maxInt
                then (Inl (GoErr ''multi_search: failed to find any match across all tiers''), searchers')
                else (Inr best, searchers')))"

definition Multi_Restrict :: "u64 list option \<Rightarrow> LSHSearcher list \<Rightarrow> LSHSearcher list" where
  "Multi_Restrict allowed searchers = map (LSH_Restrict allowed) searchers"

section \<open>The interface\<close>

locale searcher =
  fixes find_best :: "'s \<Rightarrow> bytes \<Rightarrow> MatchResult res \<times> 's"
    and inv :: "'s \<Rightarrow> bool"
    and fits :: "bytes \<Rightarrow> bool"
    and names :: "'s \<Rightarrow> u64 \<Rightarrow> bytes \<Rightarrow> bool"
  assumes keeps: "inv s \<Longrightarrow> fits chunk \<Longrightarrow> inv (snd (find_best s chunk))"
    and stable: "inv s \<Longrightarrow> fits chunk \<Longrightarrow> names (snd (find_best s chunk)) = names s"
    and no_panic: "inv s \<Longrightarrow> fits chunk \<Longrightarrow> fst (find_best s chunk) \<noteq> Inl GoPanic"
    and sound: "inv s \<Longrightarrow> fits chunk \<Longrightarrow> fst (find_best s chunk) = Inr m \<Longrightarrow> names s (mCodebookID m) (mPattern m)"
begin

fun run :: "'s \<Rightarrow> bytes list \<Rightarrow> MatchResult res list" where
  "run s [] = []"
| "run s (c # cs) = fst (find_best s c) # run (snd (find_best s c)) cs"

lemma run_sound:
  "inv s \<Longrightarrow> \<forall>c \<in> set cs. fits c \<Longrightarrow> r \<in> set (run s cs) \<Longrightarrow>
   r \<noteq> Inl GoPanic \<and> (\<forall>m. r = Inr m \<longrightarrow> names s (mCodebookID m) (mPattern m))"
proof (induction cs arbitrary: s)
  case (Cons c cs)
  have i: "inv s" "fits c" using Cons.prems by simp_all
  show ?case
  proof (cases "r = fst (find_best s c)")
    case True
    then show ?thesis using no_panic [OF i] sound [OF i] by simp
  next
    case False
    with Cons.prems have "r \<in> set (run (snd (find_best s c)) cs)" by simp
    with Cons.IH [OF keeps [OF i]] Cons.prems show ?thesis by (simp add: stable [OF i])
  qed
qed simp

end

section \<open>Linear search finds the closest codeword\<close>

definition named :: "Reader \<Rightarrow> u64 \<Rightarrow> bytes \<Rightarrow> bool" where
  "named r cid p \<longleftrightarrow> cid < CodewordCount (rHeader r) \<and> p = codeword r (unat cid)"

definition good_match :: "Reader \<Rightarrow> MatchResult \<Rightarrow> bool" where
  "good_match r m \<longleftrightarrow> named r (mCodebookID m) (mPattern m) \<and> mDistance m < maxInt"

definition valid_ids :: "Reader \<Rightarrow> u64 list \<Rightarrow> bool" where
  "valid_ids r ids \<longleftrightarrow> (\<forall>cid \<in> set ids. cid < CodewordCount (rHeader r))"

text \<open>Chunks short enough for every distance to be below the start value of the search.\<close>

definition searchable :: "bytes \<Rightarrow> bool" where
  "searchable chunk \<longleftrightarrow> length chunk < 2 ^ 59"

lemma scan_best_ok:
  assumes "wf_reader r"
  shows "valid_ids r ids \<Longrightarrow> \<exists>m. scan_best wide r chunk ids best = Inr m \<and>
    (m = best \<or> mCodebookID m \<in> set ids \<and> mPattern m = codeword r (unat (mCodebookID m)) \<and>
       mDistance m = bit_distance chunk (mPattern m) \<and> mDistance m < mDistance best) \<and>
    mDistance m \<le> mDistance best \<and>
    (\<forall>cid \<in> set ids. mDistance m \<le> bit_distance chunk (codeword r (unat cid)))"
proof (induction ids arbitrary: best)
  case (Cons cid ids)
  let ?d = "bit_distance chunk (codeword r (unat cid))"
  let ?b = "\<lparr>mCodebookID = cid, mPattern = codeword r (unat cid), mDistance = ?d\<rparr>"
  have v: "cid < CodewordCount (rHeader r)" "valid_ids r ids" using Cons.prems by (simp_all add: valid_ids_def)
  note step = LookupUnsafe_codeword [OF assms v(1)]
  show ?case
  proof (cases "?d < mDistance best")
    case True
    show ?thesis
    proof (cases "?d = 0")
      case zero: True
      with True step show ?thesis by (simp add: hammingDistance_eq Let_def)
    next
      case False
      with True step Cons.IH [OF v(2), of ?b] show ?thesis
        by (fastforce simp: hammingDistance_eq Let_def)
    qed
  next
    case False
    with step Cons.IH [OF v(2), of best] show ?thesis
      by (fastforce simp: hammingDistance_eq Let_def)
  qed
qed simp

lemma bit_distance_searchable:
  assumes "wf_reader r" "searchable chunk" "cid < CodewordCount (rHeader r)"
  shows "bit_distance chunk (codeword r (unat cid)) < maxInt"
proof -
  have "cw_size r < 65536" using unat_lt [of "CodewordSize (rHeader r)"] by simp
  moreover have "length (codeword r (unat cid)) = cw_size r"
    using assms by (intro length_codeword) (simp_all add: word_less_nat_alt)
  ultimately have "max (length chunk) (length (codeword r (unat cid))) < 2 ^ 59"
    using assms(2) by (simp add: searchable_def)
  then have "bit_distance chunk (codeword r (unat cid)) < 8 * 2 ^ 59"
    using bit_distance_le [of chunk "codeword r (unat cid)"] by linarith
  then show ?thesis by (simp add: maxInt_def)
qed

lemma scan_best_named:
  assumes "wf_reader r" "searchable chunk" "valid_ids r ids" "ids \<noteq> []"
  obtains m where "scan_best wide r chunk ids start_match = Inr m" "good_match r m"
    "mDistance m = bit_distance chunk (mPattern m)" "mCodebookID m \<in> set ids"
    "\<forall>cid \<in> set ids. mDistance m \<le> bit_distance chunk (codeword r (unat cid))"
proof -
  obtain m where m: "scan_best wide r chunk ids start_match = Inr m"
    "m = start_match \<or> mCodebookID m \<in> set ids \<and> mPattern m = codeword r (unat (mCodebookID m)) \<and>
       mDistance m = bit_distance chunk (mPattern m)"
    "\<forall>cid \<in> set ids. mDistance m \<le> bit_distance chunk (codeword r (unat cid))"
    using scan_best_ok [OF assms(1,3)] by blast
  from assms(3,4) have "hd ids \<in> set ids" "hd ids < CodewordCount (rHeader r)" by (simp_all add: valid_ids_def)
  then have "mDistance m < maxInt" using m(3) bit_distance_searchable [OF assms(1,2)] by fastforce
  then have "m \<noteq> start_match" by (auto simp: start_match_def)
  with m assms(3) \<open>mDistance m < maxInt\<close> show thesis
    by (intro that [of m]) (auto simp: good_match_def named_def valid_ids_def)
qed

lemma of_nat_lt_count:
  assumes "i < unat (c :: u64)"
  shows "of_nat i < c" "unat (of_nat i :: u64) = i"
proof -
  have "i < 2 ^ LENGTH(64)" using assms unat_lt [of c] by linarith
  then show u: "unat (of_nat i :: u64) = i" by (rule unat_of_nat_lt)
  with assms show "of_nat i < c" by (simp add: word_less_nat_alt)
qed

lemma valid_all_ids: "valid_ids r (all_ids r)"
  by (auto simp: valid_ids_def all_ids_def of_nat_lt_count)

lemma set_all_ids: "cid \<in> set (all_ids r) \<longleftrightarrow> cid < CodewordCount (rHeader r)"
proof
  assume "cid < CodewordCount (rHeader r)"
  then have "unat cid < unat (CodewordCount (rHeader r))" by (simp add: word_less_nat_alt)
  then show "cid \<in> set (all_ids r)"
    unfolding all_ids_def by (auto simp: image_iff intro!: bexI [of _ "unat cid"])
qed (use valid_all_ids in \<open>auto simp: valid_ids_def\<close>)

lemma all_ids_Nil: "all_ids r = [] \<longleftrightarrow> CodewordCount (rHeader r) = 0"
  by (simp add: all_ids_def unat_eq_zero)

definition linear_inv :: "LinearSearcher \<Rightarrow> bool" where
  "linear_inv ls \<longleftrightarrow>
     (case lnCb ls of
        None \<Rightarrow> True
      | Some r \<Rightarrow> wf_reader r \<and> (case lnAllowed ls of None \<Rightarrow> True | Some a \<Rightarrow> a \<noteq> [] \<and> valid_ids r a))"

definition linear_names :: "LinearSearcher \<Rightarrow> u64 \<Rightarrow> bytes \<Rightarrow> bool" where
  "linear_names ls cid p \<longleftrightarrow> (case lnCb ls of None \<Rightarrow> False | Some r \<Rightarrow> named r cid p)"

lemma Linear_FindBestMatch_cases:
  assumes "linear_inv ls" "searchable chunk"
  shows "(\<exists>e. Linear_FindBestMatch wide ls chunk = Inl (GoErr e)) \<or>
    (\<exists>m r. lnCb ls = Some r \<and> Linear_FindBestMatch wide ls chunk = Inr m \<and> good_match r m)"
proof (cases "lnCb ls")
  case None
  then show ?thesis by (simp add: Linear_FindBestMatch_def)
next
  case (Some r)
  let ?ids = "case lnAllowed ls of Some a \<Rightarrow> a | None \<Rightarrow> all_ids r"
  show ?thesis
  proof (cases "CodewordCount (rHeader r) = 0")
    case False
    have wf: "wf_reader r" "valid_ids r ?ids" "?ids \<noteq> []"
      using assms(1) Some False valid_all_ids [of r]
      by (auto simp: linear_inv_def all_ids_Nil split: option.splits)
    obtain m where "scan_best wide r chunk ?ids start_match = Inr m" "good_match r m"
      using scan_best_named [OF wf(1) assms(2) wf(2,3), of wide] by blast
    with Some False show ?thesis by (auto simp: Linear_FindBestMatch_def)
  qed (use Some in \<open>simp add: Linear_FindBestMatch_def\<close>)
qed

interpretation linear_searcher: searcher "\<lambda>ls chunk. (Linear_FindBestMatch wide ls chunk, ls)" linear_inv searchable linear_names
  for wide
proof
  fix s :: LinearSearcher and chunk :: bytes
  assume a: "linear_inv s" "searchable chunk"
  show "linear_inv (snd (Linear_FindBestMatch wide s chunk, s))" using a by simp
  show "linear_names (snd (Linear_FindBestMatch wide s chunk, s)) = linear_names s" by simp
  show "fst (Linear_FindBestMatch wide s chunk, s) \<noteq> Inl GoPanic"
    using Linear_FindBestMatch_cases [OF a, of wide] by auto
  show "linear_names s (mCodebookID m) (mPattern m)" if "fst (Linear_FindBestMatch wide s chunk, s) = Inr m" for m
    using Linear_FindBestMatch_cases [OF a, of wide] that by (auto simp: linear_names_def good_match_def)
qed

text \<open>Without a restriction the linear searcher returns a closest codeword of the database.\<close>

lemma Linear_optimal:
  assumes "wf_reader r" "searchable chunk" "CodewordCount (rHeader r) \<noteq> 0"
  obtains m where "Linear_FindBestMatch wide (NewLinearSearcher (Some r)) chunk = Inr m"
    "named r (mCodebookID m) (mPattern m)" "mDistance m = bit_distance chunk (mPattern m)"
    "\<And>cid. cid < CodewordCount (rHeader r) \<Longrightarrow> mDistance m \<le> bit_distance chunk (codeword r (unat cid))"
proof -
  obtain m where m: "scan_best wide r chunk (all_ids r) start_match = Inr m" "good_match r m"
    "mDistance m = bit_distance chunk (mPattern m)"
    "\<forall>cid \<in> set (all_ids r). mDistance m \<le> bit_distance chunk (codeword r (unat cid))"
    using scan_best_named [OF assms(1,2) valid_all_ids] assms(3) by (metis all_ids_Nil)
  show thesis
    using m assms(3) by (intro that [of m]) (auto simp: Linear_FindBestMatch_def NewLinearSearcher_def set_all_ids good_match_def)
qed

section \<open>The bucketed searcher satisfies the interface\<close>

definition cache_ok :: "Reader \<Rightarrow> (u64 \<times> MatchResult) list \<Rightarrow> bool" where
  "cache_ok r cache \<longleftrightarrow> (\<forall>h m. map_of cache h = Some m \<longrightarrow> good_match r m)"

definition ring_inv :: "LSHSearcher \<Rightarrow> bool" where
  "ring_inv ls \<longleftrightarrow> ring_ok lshCacheSize (map fst (lsCache ls)) (lsCacheOrder ls) (lsCacheIdx ls)"

definition index_ok :: "Reader \<Rightarrow> LSHSearcher \<Rightarrow> bool" where
  "index_ok r ls \<longleftrightarrow>
     (\<forall>b ids. lsBuckets ls b = Some ids \<longrightarrow> valid_ids r ids) \<and>
     (\<forall>h cid. lsExact ls h = Some cid \<longrightarrow> cid < CodewordCount (rHeader r))"

definition lsh_for :: "Reader \<Rightarrow> LSHSearcher \<Rightarrow> bool" where
  "lsh_for r ls \<longleftrightarrow>
     lsCb ls = Some r \<and> wf_reader r \<and> CodewordCount (rHeader r) \<noteq> 0 \<and> lnCb (lsLinear ls) = Some r \<and>
     linear_inv (lsLinear ls) \<and> index_ok r ls \<and> cache_ok r (lsCache ls) \<and> ring_inv ls"

definition lsh_inv :: "LSHSearcher \<Rightarrow> bool" where
  "lsh_inv ls \<longleftrightarrow> (\<exists>r. lsh_for r ls)"

definition lsh_names :: "LSHSearcher \<Rightarrow> u64 \<Rightarrow> bytes \<Rightarrow> bool" where
  "lsh_names ls cid p \<longleftrightarrow> (case lsCb ls of None \<Rightarrow> False | Some r \<Rightarrow> named r cid p)"

lemma lsh_for_names: "lsh_for r ls \<Longrightarrow> lsh_names ls = named r"
  by (simp add: lsh_names_def lsh_for_def fun_eq_iff)

lemma cacheStore_fields [simp]:
  "lsCb (cacheStore h m ls) = lsCb ls" "lsBuckets (cacheStore h m ls) = lsBuckets ls"
  "lsLinear (cacheStore h m ls) = lsLinear ls" "lsExact (cacheStore h m ls) = lsExact ls"
  by (simp_all add: cacheStore_def Let_def)

lemma cacheStore_ring:
  assumes "ring_inv ls" "map_of (lsCache ls) h = None"
  shows "ring_inv (cacheStore h m ls)"
proof -
  let ?v = "lsCacheOrder ls ! lsCacheIdx ls"
  let ?c = "if lshCacheSize \<le> length (lsCache ls) then AList.delete ?v (lsCache ls) else lsCache ls"
  have new: "h \<notin> set (map fst (lsCache ls))" using assms(2) by (simp add: map_of_eq_None_iff)
  have keys: "map fst ?c = (if lshCacheSize \<le> length (map fst (lsCache ls))
      then removeAll ?v (map fst (lsCache ls)) else map fst (lsCache ls))"
    by (simp add: AList.delete_keys)
  then have "h \<notin> set (map fst ?c)" using new by auto
  then have "map fst (AList.update h m ?c) = map fst ?c @ [h]" by (simp add: AList.update_keys)
  then have c: "map fst (lsCache (cacheStore h m ls)) = map fst ?c @ [h]"
    by (simp add: cacheStore_def Let_def)
  have o: "lsCacheOrder (cacheStore h m ls) = (lsCacheOrder ls)[lsCacheIdx ls := h]"
    "lsCacheIdx (cacheStore h m ls) = (lsCacheIdx ls + 1) mod lshCacheSize"
    by (simp_all add: cacheStore_def Let_def)
  show ?thesis
    unfolding ring_inv_def c o keys by (rule ring_store [OF assms(1) [unfolded ring_inv_def] new])
qed

lemma cache_ok_store:
  assumes "cache_ok r (lsCache ls)" "good_match r m"
  shows "cache_ok r (lsCache (cacheStore h m ls))"
  using assms by (simp add: cache_ok_def cacheStore_def Let_def AList.update_conv' AList.delete_conv')

lemma lsh_for_store:
  assumes "lsh_for r ls" "good_match r m" "map_of (lsCache ls) h = None"
  shows "lsh_for r (cacheStore h m ls)"
  using assms by (simp add: lsh_for_def index_ok_def cacheStore_ring cache_ok_store)

lemma worst_match_good:
  assumes "lsh_for r ls" "searchable chunk"
  obtains m where "worst_match r chunk = Inr m" "good_match r m"
proof -
  have z: "0 < CodewordCount (rHeader r)" "wf_reader r" using assms(1) by (auto simp: lsh_for_def word_gt_0)
  show thesis
    by (rule that [of "\<lparr>mCodebookID = 0, mPattern = codeword r 0, mDistance = length chunk * 8\<rparr>"])
      (use z assms(2) LookupUnsafe_codeword [OF z(2,1)] in
        \<open>simp_all add: worst_match_def good_match_def named_def searchable_def maxInt_def\<close>)
qed

text \<open>Every call returns a named match, and leaves a searcher for the same database.\<close>

lemma LSH_FindBestMatch_ok:
  assumes l: "lsh_for r ls" and c: "searchable chunk"
  shows "\<exists>m. fst (LSH_FindBestMatch wide ls chunk) = Inr m \<and> good_match r m \<and>
    lsh_for r (snd (LSH_FindBestMatch wide ls chunk))"
proof -
  let ?h = "chunkHash chunk"
  have r: "lsCb ls = Some r" "wf_reader r" "CodewordCount (rHeader r) \<noteq> 0" using l by (simp_all add: lsh_for_def)
  show ?thesis
  proof (cases "map_of (lsCache ls) ?h")
    case (Some cached)
    with l show ?thesis by (auto simp: LSH_FindBestMatch_def r Let_def lsh_for_def cache_ok_def)
  next
    case None
    have stored: ?thesis if "LSH_FindBestMatch wide ls chunk = store_ok ?h ls (Inr m)" "good_match r m" for m
      using that lsh_for_store [OF l that(2) None] by (simp add: store_ok_def)
    consider (high) "isHighEntropy chunk"
      | (bucket) b bs where "\<not> isHighEntropy chunk" "lsBuckets ls (computeLSH chunk) = Some (b # bs)"
      | (empty) "\<not> isHighEntropy chunk" "lsBuckets ls (computeLSH chunk) = None \<or> lsBuckets ls (computeLSH chunk) = Some []"
      by (metis list.exhaust not_Some_eq)
    then show ?thesis
    proof cases
      case high
      obtain m where "worst_match r chunk = Inr m" "good_match r m"
        using worst_match_good [OF l c] .
      with high None show ?thesis by (intro stored [of m]) (simp_all add: LSH_FindBestMatch_def r Let_def)
    next
      case bucket
      have "valid_ids r (b # bs)" using l bucket by (simp add: lsh_for_def index_ok_def)
      then obtain m where "scan_best wide r chunk (b # bs) start_match = Inr m" "good_match r m"
        using scan_best_named [OF r(2) c] by blast
      with bucket None show ?thesis
        by (intro stored [of m]) (simp_all add: LSH_FindBestMatch_def r Let_def del: scan_best.simps)
    next
      case empty
      obtain w where w: "worst_match r chunk = Inr w" "good_match r w"
        using worst_match_good [OF l c] .
      obtain m where m: "Linear_FindBestMatch wide (lsLinear ls) chunk = Inr m" "good_match r m"
      proof -
        have li: "linear_inv (lsLinear ls)" "lnCb (lsLinear ls) = Some r" using l by (simp_all add: lsh_for_def)
        have "\<exists>m. Linear_FindBestMatch wide (lsLinear ls) chunk = Inr m"
        proof -
          let ?ids = "case lnAllowed (lsLinear ls) of Some a \<Rightarrow> a | None \<Rightarrow> all_ids r"
          have "valid_ids r ?ids" using li valid_all_ids [of r] by (auto simp: linear_inv_def split: option.splits)
          from scan_best_ok [OF r(2) this] show ?thesis
            using r(3) li(2) by (fastforce simp: Linear_FindBestMatch_def)
        qed
        with Linear_FindBestMatch_cases [OF li(1) c, of wide] li(2) that show thesis by auto
      qed
      show ?thesis
      proof (cases "AlignedMinCodewordSize \<le> unat (CodewordSize (rHeader r))")
        case True
        with empty None w l show ?thesis by (auto simp: LSH_FindBestMatch_def r Let_def)
      next
        case False
        with empty None m show ?thesis by (intro stored [of m]) (auto simp: LSH_FindBestMatch_def r Let_def)
      qed
    qed
  qed
qed

interpretation lsh_searcher: searcher "LSH_FindBestMatch wide" lsh_inv searchable lsh_names
  for wide
proof
  fix s :: LSHSearcher and chunk :: bytes
  assume a: "lsh_inv s" "searchable chunk"
  then obtain r where r: "lsh_for r s" by (auto simp: lsh_inv_def)
  obtain m where m: "fst (LSH_FindBestMatch wide s chunk) = Inr m" "good_match r m"
    "lsh_for r (snd (LSH_FindBestMatch wide s chunk))"
    using LSH_FindBestMatch_ok [OF r a(2)] by blast
  have n: "lsh_names s = named r" "lsh_names (snd (LSH_FindBestMatch wide s chunk)) = named r"
    using r m(3) by (simp_all add: lsh_for_names)
  show "lsh_inv (snd (LSH_FindBestMatch wide s chunk))" using m(3) by (auto simp: lsh_inv_def)
  show "lsh_names (snd (LSH_FindBestMatch wide s chunk)) = lsh_names s" by (simp add: n)
  show "fst (LSH_FindBestMatch wide s chunk) \<noteq> Inl GoPanic" by (simp add: m)
  show "lsh_names s (mCodebookID x) (mPattern x)" if "fst (LSH_FindBestMatch wide s chunk) = Inr x" for x
    using that m by (simp add: n good_match_def)
qed

text \<open>Building the index and restricting it establish the invariant.\<close>

lemma index_codeword_ok:
  assumes "wf_reader r" "cid < CodewordCount (rHeader r)" "index_ok r ls"
  shows "\<exists>ls'. index_codeword X r cid ls = Inr ls' \<and> index_ok r ls' \<and>
    lsCb ls' = lsCb ls \<and> lsLinear ls' = lsLinear ls \<and> lsCache ls' = lsCache ls \<and>
    lsCacheOrder ls' = lsCacheOrder ls \<and> lsCacheIdx ls' = lsCacheIdx ls"
proof -
  let ?b = "case lsBuckets ls (computeLSH (codeword r (unat cid))) of Some ids \<Rightarrow> ids | None \<Rightarrow> []"
  have "valid_ids r (?b @ [cid])"
    using assms(2,3) by (cases "lsBuckets ls (computeLSH (codeword r (unat cid)))")
      (auto simp: index_ok_def valid_ids_def)
  then show ?thesis
    using assms LookupUnsafe_codeword [OF assms(1,2)]
    by (auto simp: index_codeword_def index_ok_def Let_def)
qed

lemma buildIndex_ok:
  assumes "wf_reader r"
  shows "valid_ids r ids \<Longrightarrow> index_ok r ls \<Longrightarrow> \<exists>ls'. buildIndex X r ids ls = Inr ls' \<and> index_ok r ls' \<and>
    lsCb ls' = lsCb ls \<and> lsLinear ls' = lsLinear ls \<and> lsCache ls' = lsCache ls \<and>
    lsCacheOrder ls' = lsCacheOrder ls \<and> lsCacheIdx ls' = lsCacheIdx ls"
proof (induction ids arbitrary: ls)
  case (Cons cid ids)
  then have v: "cid < CodewordCount (rHeader r)" "valid_ids r ids" by (simp_all add: valid_ids_def)
  obtain l1 where l1: "index_codeword X r cid ls = Inr l1" "index_ok r l1"
    "lsCb l1 = lsCb ls \<and> lsLinear l1 = lsLinear ls \<and> lsCache l1 = lsCache ls \<and>
     lsCacheOrder l1 = lsCacheOrder ls \<and> lsCacheIdx l1 = lsCacheIdx ls"
    using index_codeword_ok [OF assms v(1) Cons.prems(2), of X] by blast
  from Cons.IH [OF v(2) l1(2)] l1 show ?case by auto
qed simp

lemma NewLSHSearcher_ok:
  assumes "wf_reader r" "CodewordCount (rHeader r) \<noteq> 0"
  shows "\<exists>ls. NewLSHSearcher X r = Inr ls \<and> lsh_for r ls"
proof -
  let ?s = "\<lparr>lsCb = Some r, lsBuckets = Map.empty, lsLinear = NewLinearSearcher (Some r), lsExact = Map.empty,
        lsCache = [], lsCacheOrder = replicate lshCacheSize 0, lsCacheIdx = 0\<rparr>"
  have "index_ok r ?s" by (simp add: index_ok_def)
  then obtain ls where "buildIndex X r (all_ids r) ?s = Inr ls" "index_ok r ls"
    "lsCb ls = Some r" "lsLinear ls = NewLinearSearcher (Some r)" "lsCache ls = []"
    "lsCacheOrder ls = replicate lshCacheSize 0" "lsCacheIdx ls = 0"
    using buildIndex_ok [OF assms(1) valid_all_ids] by fastforce
  with assms show ?thesis
    by (auto simp: NewLSHSearcher_def lsh_for_def cache_ok_def ring_inv_def linear_inv_def NewLinearSearcher_def
        intro!: ring_empty simp: lshCacheSize_def)
qed

text \<open>What holds of a searcher whatever identifiers it has been restricted to.\<close>

definition lsh_core :: "Reader \<Rightarrow> LSHSearcher \<Rightarrow> bool" where
  "lsh_core r ls \<longleftrightarrow>
     lsCb ls = Some r \<and> wf_reader r \<and> CodewordCount (rHeader r) \<noteq> 0 \<and> lnCb (lsLinear ls) = Some r \<and>
     index_ok r ls \<and> ring_inv ls"

lemma lsh_for_core: "lsh_for r ls \<Longrightarrow> lsh_core r ls"
  by (simp add: lsh_for_def lsh_core_def)

lemma store_ok_core:
  assumes "lsh_core r ls" "map_of (lsCache ls) h = None"
  shows "lsh_core r (snd (store_ok h ls m))"
  using assms by (auto simp: lsh_core_def store_ok_def index_ok_def cacheStore_ring split: sum.splits)

lemma LSH_FindBestMatch_core: "lsh_core r ls \<Longrightarrow> lsh_core r (snd (LSH_FindBestMatch wide ls chunk))"
  by (simp add: LSH_FindBestMatch_def Let_def store_ok_core split: option.splits list.splits)

lemma LSH_Restrict_core:
  assumes "lsh_core r ls"
  shows "lsh_core r (LSH_Restrict allowed ls) \<and> cache_ok r (lsCache (LSH_Restrict allowed ls))"
proof -
  have "ring_ok lshCacheSize [] (lsCacheOrder ls) (lsCacheIdx ls)"
    using assms(1) by (intro ring_empty) (auto simp: lsh_core_def ring_inv_def ring_ok_def)
  moreover have "index_ok r (LSH_Restrict allowed ls)"
    using assms(1) by (auto simp: lsh_core_def index_ok_def LSH_Restrict_def Restrict_bucket_def valid_ids_def Let_def
        split: option.splits if_splits)
  ultimately show ?thesis
    using assms by (simp add: lsh_core_def LSH_Restrict_def Linear_Restrict_def cache_ok_def ring_inv_def)
qed

lemma LSH_Restrict_ok:
  assumes "lsh_core r ls" "allowed \<noteq> Some []" "valid_ids r (allowed_ids allowed)"
  shows "lsh_for r (LSH_Restrict allowed ls)"
proof -
  have "linear_inv (lsLinear (LSH_Restrict allowed ls))"
    using assms by (simp add: lsh_core_def LSH_Restrict_def Linear_Restrict_def linear_inv_def allowed_ids_def split: option.splits)
  then show ?thesis using LSH_Restrict_core [OF assms(1), of allowed] by (simp add: lsh_for_def lsh_core_def)
qed

lemma FindExact_sound:
  assumes "lsh_core r ls"
  shows "\<exists>o'. FindExact X ls chunk = Inr o' \<and> (\<forall>cid. o' = Some cid \<longrightarrow> named r cid chunk)"
proof -
  have r: "lsCb ls = Some r" "wf_reader r" using assms by (simp_all add: lsh_core_def)
  show ?thesis
  proof (cases "length chunk = unat (CodewordSize (rHeader r))")
    case True
    show ?thesis
    proof (cases "lsExact ls (xxhash X chunk)")
      case (Some cid)
      with assms have v: "cid < CodewordCount (rHeader r)" by (auto simp: lsh_core_def index_ok_def)
      with True Some LookupUnsafe_codeword [OF r(2) v] show ?thesis
        by (auto simp: FindExact_def r named_def)
    qed (simp add: FindExact_def r True)
  qed (simp add: FindExact_def r)
qed

section \<open>The hierarchical searcher satisfies the interface\<close>

text \<open>The two upper bits of an identifier select the tier, the others the codeword.\<close>

definition tier_named :: "Reader list \<Rightarrow> u64 \<Rightarrow> bytes \<Rightarrow> bool" where
  "tier_named rs cid p \<longleftrightarrow>
     unat (drop_bit 62 cid) < length rs \<and> named (rs ! unat (drop_bit 62 cid)) (take_bit 62 cid) p"

definition tiers_for :: "Reader list \<Rightarrow> LSHSearcher list \<Rightarrow> bool" where
  "tiers_for rs ss \<longleftrightarrow> list_all2 lsh_for rs ss"

definition tiers_small :: "Reader list \<Rightarrow> bool" where
  "tiers_small rs \<longleftrightarrow> length rs \<le> 4 \<and> (\<forall>r \<in> set rs. unat (CodewordCount (rHeader r)) \<le> 2 ^ 62)"

definition multi_inv :: "LSHSearcher list \<Rightarrow> bool" where
  "multi_inv ss \<longleftrightarrow> (\<exists>rs. tiers_for rs ss \<and> tiers_small rs)"

definition multi_names :: "LSHSearcher list \<Rightarrow> u64 \<Rightarrow> bytes \<Rightarrow> bool" where
  "multi_names ss cid p \<longleftrightarrow>
     unat (drop_bit 62 cid) < length ss \<and> lsh_names (ss ! unat (drop_bit 62 cid)) (take_bit 62 cid) p"

lemma tier_id_parts:
  assumes "unat (a :: u64) < 2 ^ 62" "t < 4"
  shows "drop_bit 62 (a OR push_bit 62 (of_nat t)) = of_nat t" "take_bit 62 (a OR push_bit 62 (of_nat t)) = a"
    "unat (of_nat t :: u64) = t"
proof -
  have ta: "take_bit 62 a = a" using assms(1) by (simp add: word_unat_eq_iff unsigned_take_bit_eq take_bit_nat_eq_self)
  then have a: "bit a n \<Longrightarrow> n < 62" for n by (metis bit_take_bit_iff)
  show u: "unat (of_nat t :: u64) = t" using assms(2) by (intro unat_of_nat_lt) simp
  have "take_bit 2 (of_nat t :: u64) = of_nat t"
    using assms(2) u by (simp add: word_unat_eq_iff unsigned_take_bit_eq take_bit_nat_eq_self)
  then have t: "bit (of_nat t :: u64) n \<Longrightarrow> n < 2" for n by (metis bit_take_bit_iff)
  show "drop_bit 62 (a OR push_bit 62 (of_nat t)) = of_nat t"
    by (rule bit_word_eqI) (auto simp: bit_drop_bit_eq bit_or_iff bit_push_bit_iff dest: a t)
  show "take_bit 62 (a OR push_bit 62 (of_nat t)) = a"
    by (rule bit_word_eqI) (auto simp: bit_take_bit_iff bit_or_iff bit_push_bit_iff dest: a)
qed

lemma tier_namedI:
  assumes "tiers_small rs" "t < length rs" "named (rs ! t) cid p"
  shows "tier_named rs (cid OR push_bit 62 (of_nat t)) p"
proof -
  have "unat (CodewordCount (rHeader (rs ! t))) \<le> 2 ^ 62" using assms(1,2) by (auto simp: tiers_small_def)
  moreover have "unat cid < unat (CodewordCount (rHeader (rs ! t)))"
    using assms(3) by (simp add: named_def word_less_nat_alt)
  ultimately have "unat cid < 2 ^ 62" by linarith
  moreover have "t < 4" using assms(1,2) by (simp add: tiers_small_def)
  ultimately show ?thesis using assms(2,3) by (simp only: tier_named_def tier_id_parts)
qed

lemma multi_loop_ok:
  assumes "searchable chunk"
  shows "tiers_small (rs1 @ rs2) \<Longrightarrow> tiers_for rs2 ss \<Longrightarrow>
    \<exists>m ss'. multi_loop wide chunk (length rs1) ss best = (Inr m, ss') \<and> tiers_for rs2 ss' \<and>
      (m = best \<or> tier_named (rs1 @ rs2) (mCodebookID m) (mPattern m))"
proof (induction ss arbitrary: rs1 rs2 best)
  case Nil
  then show ?case by (auto simp: tiers_for_def)
next
  case (Cons s ss)
  then obtain r rs where rs: "rs2 = r # rs" "lsh_for r s" "tiers_for rs ss"
    by (auto simp: tiers_for_def list_all2_Cons2)
  obtain m s' where m: "LSH_FindBestMatch wide s chunk = (Inr m, s')" "named r (mCodebookID m) (mPattern m)" "lsh_for r s'"
    using LSH_FindBestMatch_ok [OF rs(2) assms] by (metis prod.collapse good_match_def)
  let ?m = "m\<lparr>mCodebookID := mCodebookID m OR push_bit 62 (of_nat (length rs1))\<rparr>"
  let ?b = "if mDistance m < mDistance best then ?m else best"
  have tn: "tier_named (rs1 @ rs2) (mCodebookID ?m) (mPattern ?m)"
    using tier_namedI [OF Cons.prems(1), of "length rs1"] m(2) by (simp add: rs(1))
  obtain q ss' where q: "multi_loop wide chunk (length rs1 + 1) ss ?b = (Inr q, ss')" "tiers_for rs ss'"
    "q = ?b \<or> tier_named (rs1 @ rs2) (mCodebookID q) (mPattern q)"
    using Cons.IH [of "rs1 @ [r]" rs ?b] Cons.prems(1) rs(1,3) by auto
  show ?case
  proof (cases "mDistance ?b \<le> length chunk * 8 div 2")
    case True
    with m tn rs show ?thesis by (auto simp: Let_def tiers_for_def)
  next
    case False
    with m q have "multi_loop wide chunk (length rs1) (s # ss) best = (Inr q, s' # ss')"
      by (simp add: Let_def)
    moreover have "q = best \<or> tier_named (rs1 @ rs2) (mCodebookID q) (mPattern q)"
      using q(3) tn by (auto split: if_splits)
    ultimately show ?thesis using q(2) m(3) rs(1) by (auto simp: tiers_for_def)
  qed
qed

lemma tiers_for_names: "tiers_for rs ss \<Longrightarrow> multi_names ss = tier_named rs"
  by (auto simp: tiers_for_def multi_names_def tier_named_def fun_eq_iff list_all2_conv_all_nth lsh_for_names)

lemma Multi_FindBestMatch_ok:
  assumes "tiers_for rs ss" "tiers_small rs" "searchable chunk"
  shows "\<exists>result ss'. Multi_FindBestMatch wide ss chunk = (result, ss') \<and> tiers_for rs ss' \<and> result \<noteq> Inl GoPanic \<and>
    (\<forall>m. result = Inr m \<longrightarrow> tier_named rs (mCodebookID m) (mPattern m))"
proof (cases "ss = []")
  case True
  with assms show ?thesis by (simp add: Multi_FindBestMatch_def)
next
  case False
  obtain m ss' where m: "multi_loop wide chunk 0 ss start_match = (Inr m, ss')" "tiers_for rs ss'"
    "m = start_match \<or> tier_named rs (mCodebookID m) (mPattern m)"
    using multi_loop_ok [OF assms(3), of "[]" rs ss wide start_match] assms(1,2) by auto
  with False show ?thesis by (auto simp: Multi_FindBestMatch_def start_match_def)
qed

interpretation multi_searcher: searcher "Multi_FindBestMatch wide" multi_inv searchable multi_names
  for wide
proof
  fix ss :: "LSHSearcher list" and chunk :: bytes
  assume a: "multi_inv ss" "searchable chunk"
  then obtain rs where rs: "tiers_for rs ss" "tiers_small rs" by (auto simp: multi_inv_def)
  obtain result ss' where r: "Multi_FindBestMatch wide ss chunk = (result, ss')" "tiers_for rs ss'" "result \<noteq> Inl GoPanic"
    "\<And>m. result = Inr m \<Longrightarrow> tier_named rs (mCodebookID m) (mPattern m)"
    using Multi_FindBestMatch_ok [OF rs a(2)] by blast
  note n = tiers_for_names [OF rs(1)] tiers_for_names [OF r(2)]
  show "multi_inv (snd (Multi_FindBestMatch wide ss chunk))" using r rs by (auto simp: multi_inv_def)
  show "multi_names (snd (Multi_FindBestMatch wide ss chunk)) = multi_names ss" by (simp add: r n)
  show "fst (Multi_FindBestMatch wide ss chunk) \<noteq> Inl GoPanic" by (simp add: r)
  show "multi_names ss (mCodebookID m) (mPattern m)" if "fst (Multi_FindBestMatch wide ss chunk) = Inr m" for m
    using that r by (simp add: n)
qed

text \<open>A single tier finds a match, as the distances it reports are below the start value.\<close>

lemma Multi_single:
  assumes "lsh_for r ls" "searchable chunk"
  shows "\<exists>m. fst (Multi_FindBestMatch wide [ls] chunk) = Inr m"
proof -
  obtain m s' where "LSH_FindBestMatch wide ls chunk = (Inr m, s')" "mDistance m < maxInt"
    using LSH_FindBestMatch_ok [OF assms] by (metis prod.collapse good_match_def)
  then show ?thesis by (simp add: Multi_FindBestMatch_def Let_def start_match_def)
qed

section \<open>Histories of a searcher\<close>

text \<open>
  The states of a searcher under searches and restrictions to any identifiers, with the fact
  whether the restriction in force leaves identifiers of codewords only, and at least one.
\<close>

inductive lsh_reach :: "ext \<Rightarrow> Reader \<Rightarrow> bool \<Rightarrow> LSHSearcher \<Rightarrow> bool" for X r where
  init: "NewLSHSearcher X r = Inr ls \<Longrightarrow> lsh_reach X r True ls"
| search: "lsh_reach X r ok ls \<Longrightarrow> searchable chunk \<Longrightarrow> lsh_reach X r ok (snd (LSH_FindBestMatch wide ls chunk))"
| restrict: "lsh_reach X r ok ls \<Longrightarrow>
    lsh_reach X r (allowed \<noteq> Some [] \<and> valid_ids r (allowed_ids allowed)) (LSH_Restrict allowed ls)"

lemma lsh_reach_inv:
  "lsh_reach X r ok ls \<Longrightarrow> wf_reader r \<Longrightarrow> CodewordCount (rHeader r) \<noteq> 0 \<Longrightarrow> lsh_core r ls \<and> (ok \<longrightarrow> lsh_for r ls)"
proof (induction rule: lsh_reach.induct)
  case (init ls)
  then show ?case using NewLSHSearcher_ok [of r X] lsh_for_core by auto
next
  case (search ok ls chunk wide)
  then show ?case using LSH_FindBestMatch_core LSH_FindBestMatch_ok [of r ls chunk wide] by blast
next
  case (restrict ok ls allowed)
  then show ?case using LSH_Restrict_core [of r ls allowed] LSH_Restrict_ok [of r ls allowed] by blast
qed

section \<open>Properties of the searchers\<close>

text \<open>
  The linear searcher is optimal: on a non-empty well-formed database it returns a
  codeword of the database and its bit distance to the chunk, and no codeword is closer.
\<close>

lemma linear_search_optimal:
  assumes "wf_reader r" "searchable chunk" "CodewordCount (rHeader r) \<noteq> 0"
  shows "\<exists>m. Linear_FindBestMatch wide (NewLinearSearcher (Some r)) chunk = Inr m \<and>
    named r (mCodebookID m) (mPattern m) \<and> mDistance m = bit_distance chunk (mPattern m) \<and>
    (\<forall>cid. cid < CodewordCount (rHeader r) \<longrightarrow> mDistance m \<le> bit_distance chunk (codeword r (unat cid)))"
  using Linear_optimal [OF assms] by metis

text \<open>
  C31. The bucketed searcher is sound over any history: in every state reached from the
  index of a well-formed non-empty database by searches and restrictions, to whatever
  identifiers, an exact hit is byte-identical to the chunk and the cache never exceeds its
  capacity; and while the restriction in force (if any) leaves at least one identifier and only
  identifiers of codewords, a search returns a match (it neither fails nor panics) that carries the bytes
  of the codeword it names, also when it comes from the cache, and also when an earlier restriction
  named foreign identifiers. Under a restriction to a foreign identifier nothing is claimed of the
  match: the linear scan looks it up unchecked.
\<close>

theorem lsh_history_sound:
  assumes "lsh_reach X r ok ls" "wf_reader r" "CodewordCount (rHeader r) \<noteq> 0" "searchable chunk"
  shows "(ok \<longrightarrow> (\<exists>m. fst (LSH_FindBestMatch wide ls chunk) = Inr m \<and> named r (mCodebookID m) (mPattern m))) \<and>
    (\<exists>hit. FindExact X ls chunk = Inr hit \<and> (\<forall>cid. hit = Some cid \<longrightarrow> named r cid chunk)) \<and>
    length (lsCache ls) \<le> lshCacheSize"
proof -
  have l: "lsh_core r ls" "ok \<longrightarrow> lsh_for r ls" using lsh_reach_inv [OF assms(1-3)] by blast+
  have "length (map fst (lsCache ls)) \<le> lshCacheSize"
    using l(1) by (simp add: lsh_core_def ring_inv_def ring_ok_def del: length_map)
  moreover have "\<exists>m. fst (LSH_FindBestMatch wide ls chunk) = Inr m \<and> named r (mCodebookID m) (mPattern m)" if ok
    using LSH_FindBestMatch_ok [OF _ assms(4), of r ls wide] l(2) that by (auto simp: good_match_def)
  ultimately show ?thesis using FindExact_sound [OF l(1)] by simp
qed

lemma sample_count: "CodewordCount (rHeader sample_reader) \<noteq> 0"
  by (simp add: sample_reader_def sample_cb_header_def)

text \<open>A search, a restriction to an identifier beyond the database, one back to its first two, a search.\<close>

theorem lsh_history_sound_witness:
  "\<exists>ls. lsh_reach toy_ext sample_reader True (LSH_Restrict (Some [0, 1]) (LSH_Restrict (Some [7]) ls)) \<and>
    (\<exists>m. fst (LSH_FindBestMatch True (LSH_Restrict (Some [0, 1]) (LSH_Restrict (Some [7]) ls)) [3, 5]) = Inr m \<and>
       named sample_reader (mCodebookID m) (mPattern m))"
proof -
  obtain l0 where l0: "NewLSHSearcher toy_ext sample_reader = Inr l0"
    using NewLSHSearcher_ok [OF sample_reader_wf sample_count] by blast
  let ?l = "snd (LSH_FindBestMatch True l0 [1, 2])"
  have "lsh_reach toy_ext sample_reader True ?l"
    using l0 by (intro lsh_reach.intros) (simp_all add: searchable_def)
  from lsh_reach.restrict [OF lsh_reach.restrict [OF this, of "Some [7]"], of "Some [0, 1]"]
  have "lsh_reach toy_ext sample_reader True (LSH_Restrict (Some [0, 1]) (LSH_Restrict (Some [7]) ?l))"
    by (simp add: valid_ids_def allowed_ids_def sample_reader_def sample_cb_header_def)
  moreover have "searchable [3, 5]" by (simp add: searchable_def)
  ultimately show ?thesis
    using lsh_history_sound [OF _ sample_reader_wf sample_count] by blast
qed

text \<open>
  The hierarchical searcher encodes the tier: every match it returns decodes, by the two
  upper bits and the remaining bits of its identifier, to the tier and the codeword whose
  bytes it carries, for up to four tiers of at most \<open>2^62\<close> codewords.
\<close>

lemma multi_search_sound:
  assumes "multi_inv ss" "searchable chunk" "fst (Multi_FindBestMatch wide ss chunk) = Inr m"
  shows "unat (drop_bit 62 (mCodebookID m)) < length ss \<and>
    lsh_names (ss ! unat (drop_bit 62 (mCodebookID m))) (take_bit 62 (mCodebookID m)) (mPattern m)"
  using multi_searcher.sound [OF assms] by (simp add: multi_names_def)

end
