(* ===== verification/Aligned.thy ===== *)
theory Aligned
  imports Search
begin

text \<open>
  \<^verbatim>\<open>internal/search/aligned.go\<close>: the chunker that looks for whole codewords at every offset of
  the input with a rolling hash, and cuts the bytes between them into literals. It satisfies
  the interface \<open>chunker\<close> for every well-formed database, and its rolling hash finds the
  codewords that a search hashing every window anew finds.
\<close>

section \<open>The chunker\<close>

definition rollingPrime :: u64 where "rollingPrime = 1099511628211"

definition rollingHash :: "bytes \<Rightarrow> u64" where
  "rollingHash data = foldl (\<lambda>h b. h * rollingPrime + ucast b) 0 data"

record AlignedChunker =
  acCb :: Reader
  acSize :: nat
  topMult :: u64
  acWindows :: "u64 \<rightharpoonup> u64"

fun index_windows :: "Reader \<Rightarrow> u64 list \<Rightarrow> (u64 \<rightharpoonup> u64) \<Rightarrow> (u64 \<rightharpoonup> u64) res" where
  "index_windows r [] w = Inr w"
| "index_windows r (cid # ids) w =
     rbind (LookupUnsafe r cid) (\<lambda>p. index_windows r ids (w(rollingHash p \<mapsto> cid)))"

definition NewAlignedChunker :: "Reader \<Rightarrow> AlignedChunker res" where
  "NewAlignedChunker cb =
     (let sz = unat (CodewordSize (rHeader cb));
          topMult = foldl (\<lambda>t i. t * rollingPrime) 1 [1..<sz]
      in rbind (index_windows cb (all_ids cb) Map.empty) (\<lambda>w.
           Inr \<lparr>acCb = cb, acSize = sz, topMult = topMult, acWindows = w\<rparr>))"

text \<open>The closures \<open>emit\<close> and \<open>emitLiteral\<close>.\<close>

definition emit_chunk :: "ext \<Rightarrow> bytes \<Rightarrow> nat \<Rightarrow> nat \<Rightarrow> Chunk" where
  "emit_chunk X data lo hi =
     \<lparr>cData = slice data lo hi, cOffset = of_nat lo, cSize = of_nat (hi - lo),
      cHash = xxhash X (slice data lo hi)\<rparr>"

function emitLiteral :: "ext \<Rightarrow> nat \<Rightarrow> bytes \<Rightarrow> nat \<Rightarrow> nat \<Rightarrow> Chunk list" where
  "emitLiteral X sz data lo hi =
     (if lo < hi \<and> 0 < sz
      then (let stop = (if hi < lo + sz then hi else lo + sz)
            in emit_chunk X data lo stop # emitLiteral X sz data stop hi)
      else [])"
  by pat_completeness auto
termination
  by (relation "measure (\<lambda>(X, sz, data, lo, hi). hi - lo)") auto

declare emitLiteral.simps [simp del]

text \<open>The test of the inner loop: the window at \<open>pos\<close> is a codeword.\<close>

definition window_hit :: "AlignedChunker \<Rightarrow> bytes \<Rightarrow> nat \<Rightarrow> u64 \<Rightarrow> bool res" where
  "window_hit ac data pos h =
     (case acWindows ac h of
        None \<Rightarrow> Inr False
      | Some cid \<Rightarrow>
          rbind (LookupUnsafe (acCb ac) cid) (\<lambda>p. Inr (p = slice data pos (pos + acSize ac))))"

text \<open>The update of the hash when the window advances by one byte.\<close>

definition roll :: "AlignedChunker \<Rightarrow> bytes \<Rightarrow> nat \<Rightarrow> u64 \<Rightarrow> u64" where
  "roll ac data pos h =
     (h - ucast (data ! pos) * topMult ac) * rollingPrime + ucast (data ! (pos + acSize ac))"

text \<open>
  The two nested loops. The last argument is the hash of the window during the inner loop,
  and \<open>None\<close> at the head of the outer one.
\<close>

function aligned_loop ::
  "ext \<Rightarrow> AlignedChunker \<Rightarrow> bytes \<Rightarrow> nat \<Rightarrow> nat \<Rightarrow> u64 option \<Rightarrow> Chunk list res" where
  "aligned_loop X ac data literalStart pos None =
     (if pos + acSize ac \<le> length data \<and> 0 < acSize ac
      then aligned_loop X ac data literalStart pos (Some (rollingHash (slice data pos (pos + acSize ac))))
      else Inr (emitLiteral X (acSize ac) data literalStart (length data)))"
| "aligned_loop X ac data literalStart pos (Some h) =
     rbind (window_hit ac data pos h) (\<lambda>hit.
       if hit \<and> pos + acSize ac \<le> length data \<and> 0 < acSize ac then
         rbind (aligned_loop X ac data (pos + acSize ac) (pos + acSize ac) None) (\<lambda>rest.
           Inr (emitLiteral X (acSize ac) data literalStart pos @
                [emit_chunk X data pos (pos + acSize ac)] @ rest))
       else if length data \<le> pos + acSize ac then
         Inr (emitLiteral X (acSize ac) data literalStart (length data))
       else
         aligned_loop X ac data literalStart (pos + 1) (Some (roll ac data pos h)))"
  by pat_completeness auto
termination
  by (relation "measure (\<lambda>(X, ac, data, ls, pos, h). 2 * (length data - pos) + (if h = None then 1 else 0))") auto

declare aligned_loop.simps [simp del]

definition AlignedChunker_Split :: "ext \<Rightarrow> AlignedChunker \<Rightarrow> bytes \<Rightarrow> Chunk list res" where
  "AlignedChunker_Split X ac data = aligned_loop X ac data 0 0 None"

section \<open>The chunker satisfies the interface\<close>

definition aligned_for :: "Reader \<Rightarrow> AlignedChunker \<Rightarrow> bool" where
  "aligned_for r ac \<longleftrightarrow> acCb ac = r \<and> acSize ac = cw_size r \<and> topMult ac = rollingPrime ^ (cw_size r - 1) \<and>
     (\<forall>h cid. acWindows ac h = Some cid \<longrightarrow> cid < CodewordCount (rHeader r))"

lemma index_windows_ok:
  assumes "wf_reader r"
  shows "valid_ids r ids \<Longrightarrow> (\<forall>h cid. w h = Some cid \<longrightarrow> cid < CodewordCount (rHeader r)) \<Longrightarrow>
    \<exists>w'. index_windows r ids w = Inr w' \<and> (\<forall>h cid. w' h = Some cid \<longrightarrow> cid < CodewordCount (rHeader r))"
proof (induction ids arbitrary: w)
  case (Cons c ids)
  then have "c < CodewordCount (rHeader r)" "valid_ids r ids" by (simp_all add: valid_ids_def)
  with Cons LookupUnsafe_codeword [OF assms] show ?case by simp
qed simp

lemma foldl_power: "foldl (\<lambda>t i. t * (p :: u64)) a is = a * p ^ length is"
  by (induction "is" arbitrary: a) (simp_all add: mult.assoc)

lemma NewAlignedChunker_ok:
  assumes "wf_reader r"
  shows "\<exists>ac. NewAlignedChunker r = Inr ac \<and> aligned_for r ac"
  using index_windows_ok [OF assms valid_all_ids, of Map.empty]
  by (auto simp: NewAlignedChunker_def aligned_for_def foldl_power Let_def)

lemma emit_makeChunk: "lo \<le> hi \<Longrightarrow> hi \<le> length data \<Longrightarrow> emit_chunk X data lo hi = makeChunk (xxhash X) data lo hi"
  by (simp add: emit_chunk_def makeChunk_def Let_def)

lemma emitLiteral_tiles:
  assumes "0 < sz"
  shows "lo \<le> hi \<Longrightarrow> hi \<le> length data \<Longrightarrow> tiles (xxhash X) data hi cs \<Longrightarrow> sized 1 sz cs \<Longrightarrow>
    tiles (xxhash X) data lo (emitLiteral X sz data lo hi @ cs) \<and> sized 1 sz (emitLiteral X sz data lo hi @ cs)"
proof (induction "hi - lo" arbitrary: lo rule: less_induct)
  case less
  show ?case
  proof (cases "lo < hi")
    case True
    define stop where "stop = (if hi < lo + sz then hi else lo + sz)"
    have s: "lo < stop" "stop \<le> hi" "stop - lo \<le> sz" using True assms by (auto simp: stop_def)
    have e: "emitLiteral X sz data lo hi = makeChunk (xxhash X) data lo stop # emitLiteral X sz data stop hi"
      using True assms s less.prems by (subst emitLiteral.simps) (simp add: emit_makeChunk flip: stop_def)
    have "tiles (xxhash X) data stop (emitLiteral X sz data stop hi @ cs) \<and> sized 1 sz (emitLiteral X sz data stop hi @ cs)"
      using less s by simp
    with s less.prems show ?thesis
      unfolding e by (auto intro!: tiles_cut sized_Cons)
  next
    case False
    with less.prems show ?thesis by (simp add: emitLiteral.simps)
  qed
qed

lemma emitLiteral_rest:
  assumes "0 < sz" "lo \<le> length data"
  shows "tiles (xxhash X) data lo (emitLiteral X sz data lo (length data)) \<and>
    sized 1 sz (emitLiteral X sz data lo (length data))"
  using emitLiteral_tiles [OF assms(1,2) order_refl, of X "[]"] by simp

lemma window_hit_ok:
  assumes "wf_reader r" "aligned_for r ac"
  shows "\<exists>b. window_hit ac data pos h = Inr b"
proof (cases "acWindows ac h")
  case (Some cid)
  then have "cid < CodewordCount (rHeader r)" using assms(2) by (simp add: aligned_for_def)
  with Some LookupUnsafe_codeword [OF assms(1)] assms(2) show ?thesis by (simp add: window_hit_def aligned_for_def)
qed (auto simp: window_hit_def)

lemma cw_size_pos: "wf_reader r \<Longrightarrow> 0 < cw_size r"
  by (simp add: wf_reader_def wf_cb_header_def unat_gt_0)

lemma aligned_loop_ok:
  "wf_reader r \<Longrightarrow> aligned_for r ac \<Longrightarrow> ls \<le> pos \<Longrightarrow> pos \<le> length data \<Longrightarrow>
   (h \<noteq> None \<longrightarrow> pos + acSize ac \<le> length data) \<Longrightarrow>
   \<exists>cs. aligned_loop X ac data ls pos h = Inr cs \<and> tiles (xxhash X) data ls cs \<and> sized 1 (cw_size r) cs"
proof (induction X ac data ls pos h rule: aligned_loop.induct)
  case (1 X ac data ls pos)
  have sz: "acSize ac = cw_size r" "0 < acSize ac"
    using "1.prems" cw_size_pos by (simp_all add: aligned_for_def)
  show ?case
  proof (cases "pos + acSize ac \<le> length data")
    case True
    with 1 sz show ?thesis by (simp add: aligned_loop.simps(1))
  next
    case False
    with sz "1.prems" emitLiteral_rest [of "acSize ac" ls data X] show ?thesis by (simp add: aligned_loop.simps(1))
  qed
next
  case (2 X ac data ls pos h)
  have sz: "acSize ac = cw_size r" "0 < acSize ac"
    using "2.prems" cw_size_pos by (simp_all add: aligned_for_def)
  have fit: "pos + acSize ac \<le> length data" using "2.prems" by simp
  obtain b where b: "window_hit ac data pos h = Inr b" using window_hit_ok "2.prems" by blast
  consider (hit) "b" | (stop) "\<not> b" "length data \<le> pos + acSize ac" | (roll) "\<not> b" "\<not> length data \<le> pos + acSize ac"
    by blast
  then show ?case
  proof cases
    case hit
    obtain rest where rest: "aligned_loop X ac data (pos + acSize ac) (pos + acSize ac) None = Inr rest"
      "tiles (xxhash X) data (pos + acSize ac) rest" "sized 1 (cw_size r) rest"
      using "2.IH"(1) [of b] hit b fit sz "2.prems" by auto
    have "tiles (xxhash X) data pos (emit_chunk X data pos (pos + acSize ac) # rest)"
      using rest(2) fit sz by (simp add: emit_makeChunk tiles_cut)
    moreover have "sized 1 (cw_size r) (emit_chunk X data pos (pos + acSize ac) # rest)"
      using rest(3) fit sz by (intro sized_Cons) (simp_all add: emit_makeChunk)
    ultimately show ?thesis
      using emitLiteral_tiles [of "acSize ac" ls pos data X "emit_chunk X data pos (pos + acSize ac) # rest"]
        rest(1) hit b fit sz "2.prems" by (simp add: aligned_loop.simps(2))
  next
    case stop
    with sz b "2.prems" emitLiteral_rest [of "acSize ac" ls data X] show ?thesis by (simp add: aligned_loop.simps(2))
  next
    case roll
    with "2.IH"(2) [of b] b sz fit "2.prems" show ?thesis
      by (subst aligned_loop.simps(2)) simp
  qed
qed

lemma aligned_chunker:
  assumes "wf_reader r" "aligned_for r ac"
  shows "chunker (xxhash X) (\<lambda>data cs. AlignedChunker_Split X ac data = Inr cs) 1 (cw_size r)"
  using aligned_loop_ok [OF assms, of 0 0 _ None X] by (intro chunkerI) (auto simp: AlignedChunker_Split_def)

section \<open>The rolling hash\<close>

lemma rollingHash_snoc: "rollingHash (ws @ [b]) = rollingHash ws * rollingPrime + ucast b"
  by (simp add: rollingHash_def)

lemma rollingHash_Cons: "rollingHash (b # ws) = ucast b * rollingPrime ^ length ws + rollingHash ws"
proof (induction ws rule: rev_induct)
  case (snoc x ws)
  have "rollingHash (b # ws @ [x]) = rollingHash (b # ws) * rollingPrime + ucast x"
    using rollingHash_snoc [of "b # ws" x] by simp
  with snoc show ?case by (simp add: rollingHash_snoc algebra_simps)
qed (simp add: rollingHash_def)

lemma roll_window:
  assumes "aligned_for r ac" "0 < acSize ac" "pos + acSize ac < length data"
  shows "roll ac data pos (rollingHash (slice data pos (pos + acSize ac))) =
    rollingHash (slice data (pos + 1) (pos + 1 + acSize ac))"
proof -
  let ?w = "slice data (Suc pos) (pos + acSize ac)"
  have old: "slice data pos (pos + acSize ac) = data ! pos # ?w"
    using assms by (intro slice_head) simp_all
  have new: "slice data (Suc pos) (Suc (pos + acSize ac)) = ?w @ [data ! (pos + acSize ac)]"
    using assms by (intro slice_snoc) simp_all
  have "length ?w = acSize ac - 1" using assms by simp
  then have top: "topMult ac = rollingPrime ^ length ?w" using assms(1) by (simp add: aligned_for_def)
  show ?thesis using old new by (simp add: rollingHash_Cons rollingHash_snoc top roll_def)
qed

text \<open>The reference hashes every window anew.\<close>

function aligned_ref :: "ext \<Rightarrow> AlignedChunker \<Rightarrow> bytes \<Rightarrow> nat \<Rightarrow> nat \<Rightarrow> Chunk list res" where
  "aligned_ref X ac data literalStart pos =
     (if pos + acSize ac \<le> length data \<and> 0 < acSize ac then
        rbind (window_hit ac data pos (rollingHash (slice data pos (pos + acSize ac)))) (\<lambda>hit.
          if hit then
            rbind (aligned_ref X ac data (pos + acSize ac) (pos + acSize ac)) (\<lambda>rest.
              Inr (emitLiteral X (acSize ac) data literalStart pos @
                   [emit_chunk X data pos (pos + acSize ac)] @ rest))
          else aligned_ref X ac data literalStart (pos + 1))
      else Inr (emitLiteral X (acSize ac) data literalStart (length data)))"
  by pat_completeness auto
termination
  by (relation "measure (\<lambda>(X, ac, data, ls, pos). length data - pos)") auto

declare aligned_ref.simps [simp del]

lemma aligned_loop_ref:
  "aligned_for r ac \<Longrightarrow> 0 < acSize ac \<Longrightarrow>
   (\<forall>x. h = Some x \<longrightarrow> pos + acSize ac \<le> length data \<and> x = rollingHash (slice data pos (pos + acSize ac))) \<Longrightarrow>
   aligned_loop X ac data ls pos h = aligned_ref X ac data ls pos"
proof (induction X ac data ls pos h rule: aligned_loop.induct)
  case (1 X ac data ls pos)
  then show ?case
    by (cases "pos + acSize ac \<le> length data") (simp_all add: aligned_ref.simps [of X ac data ls pos] aligned_loop.simps(1))
next
  case (2 X ac data ls pos h)
  have fit: "pos + acSize ac \<le> length data" and h: "h = rollingHash (slice data pos (pos + acSize ac))"
    using "2.prems" by blast+
  have sz: "0 < acSize ac" using "2.prems" by simp
  show ?case
  proof (cases "window_hit ac data pos h")
    case (Inl e)
    with fit sz show ?thesis by (subst aligned_ref.simps) (simp add: aligned_loop.simps(2) [of X ac data ls pos h] flip: h)
  next
    case (Inr b)
    have step: "aligned_ref X ac data ls pos =
        (if b then rbind (aligned_ref X ac data (pos + acSize ac) (pos + acSize ac)) (\<lambda>rest.
              Inr (emitLiteral X (acSize ac) data ls pos @ [emit_chunk X data pos (pos + acSize ac)] @ rest))
         else aligned_ref X ac data ls (pos + 1))"
      using fit sz Inr by (subst aligned_ref.simps) (simp flip: h)
    consider (hit) b | (last) "\<not> b" "length data \<le> pos + acSize ac" | (more) "\<not> b" "pos + acSize ac < length data"
      by linarith
    then show ?thesis
    proof cases
      case hit
      have "aligned_loop X ac data (pos + acSize ac) (pos + acSize ac) None =
          aligned_ref X ac data (pos + acSize ac) (pos + acSize ac)"
        using "2.IH"(1) [of b] hit fit Inr "2.prems"(1,2) by simp
      with hit Inr fit sz show ?thesis unfolding step by (subst aligned_loop.simps(2)) simp
    next
      case last
      then have "aligned_ref X ac data ls (pos + 1) = Inr (emitLiteral X (acSize ac) data ls (length data))"
        by (subst aligned_ref.simps) simp
      with last Inr show ?thesis unfolding step by (subst aligned_loop.simps(2)) simp
    next
      case more
      have "roll ac data pos h = rollingHash (slice data (pos + 1) (pos + 1 + acSize ac))"
        unfolding h using more "2.prems"(1) sz by (intro roll_window) auto
      then have "aligned_loop X ac data ls (pos + 1) (Some (roll ac data pos h)) = aligned_ref X ac data ls (pos + 1)"
        using more "2.prems"(1) sz Inr by (intro "2.IH"(2) [of b]) simp_all
      with more Inr show ?thesis unfolding step by (subst aligned_loop.simps(2)) simp
    qed
  qed
qed

section \<open>Properties of the aligned chunker\<close>

text \<open>
  C30. The aligned chunker of a well-formed database is built without a panic, and on every
  input its chunks reassemble to the input and have at most the codeword size; its rolling
  hash makes the same cuts as hashing every window anew.
\<close>

theorem aligned_split_sound:
  assumes "wf_reader r"
  shows "\<exists>ac cs. NewAlignedChunker r = Inr ac \<and> AlignedChunker_Split X ac data = Inr cs \<and>
    Reassemble cs = data \<and> list_all (\<lambda>c. length (cData c) \<le> cw_size r) cs \<and>
    aligned_ref X ac data 0 0 = Inr cs"
proof -
  obtain ac where ac: "NewAlignedChunker r = Inr ac" "aligned_for r ac" using NewAlignedChunker_ok [OF assms] by blast
  note ch = aligned_chunker [OF assms ac(2), of X]
  obtain cs where cs: "AlignedChunker_Split X ac data = Inr cs" using chunker.total [OF ch] by blast
  have "aligned_ref X ac data 0 0 = Inr cs"
    using aligned_loop_ref [OF ac(2), of None 0 data X 0] cs ac(2) cw_size_pos [OF assms]
    by (simp add: AlignedChunker_Split_def aligned_for_def)
  then show ?thesis
    using ac(1) cs chunker.reassembles [OF ch cs] chunker.max_size [OF ch cs] by (auto simp: list_all_iff)
qed

theorem aligned_split_sound_witness:
  "\<exists>ac cs. NewAlignedChunker sample_reader = Inr ac \<and> AlignedChunker_Split toy_ext ac [9, 3, 4, 1] = Inr cs \<and>
    Reassemble cs = [9, 3, 4, 1] \<and> list_all (\<lambda>c. length (cData c) \<le> cw_size sample_reader) cs \<and>
    aligned_ref toy_ext ac [9, 3, 4, 1] 0 0 = Inr cs"
  by (rule aligned_split_sound [OF sample_reader_wf])

end
