(* ===== verification/Format_IO.thy ===== *)
theory Format_IO
  imports Chunk_Table Crypto
begin

text \<open>
  \<^verbatim>\<open>pkg/format/reader.go\<close>, \<^verbatim>\<open>pkg/format/writer.go\<close> and \<open>EncodeCompressedTable\<close>: a
  \<^verbatim>\<open>.crom\<close> file as a stream. The reader consumes the header, the block table and the chunk
  table and leaves the stream at the first block; the main result is that it reads back
  what the packers write, including the plausibility bound on the compressed table.
\<close>

section \<open>Writing\<close>

text \<open>
  \<open>key\<close> is \<open>None\<close> for Go's \<open>nil\<close>. The \<open>nonce\<close> is the one \<open>Encrypt\<close> draws.
\<close>

definition EncodeCompressedTable ::
  "ext \<Rightarrow> bytes \<Rightarrow> ChunkEntry list \<Rightarrow> u16 \<Rightarrow> bytes option \<Rightarrow> bytes res" where
  "EncodeCompressedTable X nonce entries version key =
     (let blob = zstd_encode X 1 [] (encodeTableColumns entries) in
      rbind (case key of
               None \<Rightarrow> Inr blob
             | Some k \<Rightarrow> wrap_err ''format: encrypt chunk table'' (Encrypt X nonce k blob)) (\<lambda>blob.
        let out = zeros (4 + length blob);
            out = put_uint32 out 0 (of_nat (length blob))
        in Inr (gcopy out 4 (4 + length blob) blob)))"

definition put_block_table :: "u32 list \<Rightarrow> bytes" where
  "put_block_table blockTable =
     fold (\<lambda>i buf. put_uint32 buf (i * 4) (blockTable ! i)) [0..<length blockTable]
       (zeros (length blockTable * 4))"

text \<open>
  \<open>Writer.Write\<close> appends to its writer, which the model returns as the bytes written; a
  failing writer is not modelled.
\<close>

definition Writer_Write :: "Header \<Rightarrow> u32 list \<Rightarrow> ChunkEntry list \<Rightarrow> bytes \<Rightarrow> bytes res" where
  "Writer_Write header blockTable entries compDeltaPool =
     (if ChunkCount header \<noteq> of_nat (length entries)
      then Inl (GoErr ''format: mismatch between Header.ChunkCount and entries length'')
      else
        (let (hdr, header) = Serialize header;
             blocks = (if Version header = Version2 \<and> blockTable \<noteq> [] then put_block_table blockTable else [])
         in Inr (hdr @ blocks @ SerializeChunkTable entries (Version header) @ compDeltaPool)))"

section \<open>Reading\<close>

definition maxColumnBytesPerEntry :: nat where "maxColumnBytesPerEntry = 31"

text \<open>The first part of \<open>ReadMetadata\<close>: gather the bytes of the header and parse them.\<close>

definition read_header_bytes :: "bytes \<Rightarrow> (bytes \<times> bytes) res" where
  "read_header_bytes s =
     rbind (wrap_err ''format: read magic/version'' (read_full 6 s)) (\<lambda>(metaBuf, s).
       let version = get_uint16 metaBuf 4 in
       if version = Version1 then
         rbind (wrap_err ''format: read v1 header'' (read_full (HeaderSize - 6) s)) (\<lambda>(b, s). Inr (metaBuf @ b, s))
       else if Version2 \<le> version \<and> version \<le> Version9 then
         rbind (wrap_err ''format: read header (base)'' (read_full (header_min_size version - 6) s)) (\<lambda>(b, s).
           let headerBuf = metaBuf @ b in
           if Version8 \<le> version then
             (let microDictSize = get_uint32 headerBuf 137 in
              if MaxMicroDictSize < microDictSize
              then Inl (GoErr ''format: v8 microdict size exceeds safety cap (OOM defense)'')
              else if 0 < microDictSize then
                rbind (wrap_err ''format: read v8 microdict payload'' (read_full (unat microDictSize) s)) (\<lambda>(p, s).
                  Inr (headerBuf @ p, s))
              else Inr (headerBuf, s))
           else Inr (headerBuf, s))
       else Inl (GoErr ''format: unsupported version''))"

definition read_header :: "bytes \<Rightarrow> (Header \<times> bytes) res" where
  "read_header s =
     rbind (read_header_bytes s) (\<lambda>(headerBuf, s).
     rbind (wrap_err ''format: parse header'' (ParseHeader headerBuf)) (\<lambda>h. Inr (h, s)))"

definition header_key :: "ext \<Rightarrow> bytes \<Rightarrow> Header \<Rightarrow> bytes option res" where
  "header_key X encryptionKey header =
     (if IsEncrypted header then
        (if encryptionKey = [] then Inl (GoErr ''format: file is encrypted but no key was provided'')
         else Inr (Some (DeriveKey X encryptionKey (Salt header))))
      else Inr None)"

definition read_block_table :: "Header \<Rightarrow> bytes \<Rightarrow> (u32 list \<times> bytes) res" where
  "read_block_table header s =
     (if Version2 \<le> Version header then
        (let numBlocks = unat (NumBlocks header) in
         rbind (wrap_err ''format: read block table'' (read_full (numBlocks * 4) s)) (\<lambda>(blockBuf, s).
           Inr (map (\<lambda>i. get_uint32 blockBuf (i * 4)) [0..<numBlocks], s)))
      else Inr ([], s))"

definition readCompressedTable ::
  "ext \<Rightarrow> Header \<Rightarrow> bytes option \<Rightarrow> bytes \<Rightarrow> (Header \<times> ChunkEntry list \<times> bytes) res" where
  "readCompressedTable X header key s =
     rbind (wrap_err ''format: read table size'' (read_full 4 s)) (\<lambda>(sizeBuf, s).
       let size = unat (get_uint32 sizeBuf 0);
           maxSize = unat (ChunkCount header) * maxColumnBytesPerEntry + 1024
       in if maxSize + maxSize div 8 < size then Inl (GoErr ''format: compressed table size is implausible'')
          else
            rbind (wrap_err ''format: read compressed table'' (read_full size s)) (\<lambda>(blob, s).
              let header = header\<lparr>TableBytes := size + 4\<rparr> in
              rbind (case key of
                       None \<Rightarrow> Inr blob
                     | Some k \<Rightarrow> wrap_err ''format: decrypt chunk table'' (Decrypt X k blob)) (\<lambda>blob.
                case zstd_decode_max X maxSize blob of
                  None \<Rightarrow> Inl (GoErr ''format: decompress chunk table'')
                | Some table \<Rightarrow>
                    rbind (decodeTableColumns table (ChunkCount header)) (\<lambda>entries.
                      Inr (header, entries, s)))))"

text \<open>
  \<open>tableSize < 0\<close> cannot hold with 64-bit \<open>int\<close>s: the size is at most
  \<open>25 * (2 ^ 32 - 1) + 28\<close>.
\<close>

definition read_plain_table ::
  "ext \<Rightarrow> Header \<Rightarrow> bytes option \<Rightarrow> bytes \<Rightarrow> (Header \<times> ChunkEntry list \<times> bytes) res" where
  "read_plain_table X header key s =
     (let tableSize = unat (ChunkCount header) * unat (GetEntrySize (Version header))
            + (if IsEncrypted header then 28 else 0);
          header = header\<lparr>TableBytes := tableSize\<rparr>
      in rbind (wrap_err ''format: read chunk table'' (read_full tableSize s)) (\<lambda>(tableBuf, s).
         rbind (case key of
                  None \<Rightarrow> Inr tableBuf
                | Some k \<Rightarrow> wrap_err ''format: decrypt chunk table'' (Decrypt X k tableBuf)) (\<lambda>tableBuf.
         rbind (wrap_err ''format: parse chunk table''
                 (ParseChunkTable tableBuf (ChunkCount header) (Version header))) (\<lambda>entries.
           Inr (header, entries, s)))))"

definition ReadMetadata ::
  "ext \<Rightarrow> bytes \<Rightarrow> bytes \<Rightarrow> (Header \<times> u32 list \<times> ChunkEntry list \<times> bytes) res" where
  "ReadMetadata X encryptionKey s =
     rbind (read_header s) (\<lambda>(header, s).
     rbind (header_key X encryptionKey header) (\<lambda>key.
     rbind (read_block_table header s) (\<lambda>(blockTable, s).
       if ChunkCount header = 0 then Inr (header, blockTable, [], s)
       else
         rbind (if CompressedTable header then readCompressedTable X header key s
                else read_plain_table X header key s) (\<lambda>(header, entries, s).
           Inr (header, blockTable, entries, s)))))"

text \<open>\<open>ReadStream\<close> returns the same values, with the stream left after the chunk table.\<close>

definition ReadStream ::
  "ext \<Rightarrow> bytes \<Rightarrow> bytes \<Rightarrow> (Header \<times> u32 list \<times> ChunkEntry list \<times> bytes) res" where
  "ReadStream X encryptionKey s = ReadMetadata X encryptionKey s"

section \<open>Reading a written header\<close>

lemma Serialize_layout:
  assumes "wf_header h" "Version2 \<le> Version h" "Version h \<le> Version8"
  shows "Serialize h = (header_layout h, h)"
proof -
  have "Version h \<noteq> Version1" "serialize_version h = h"
    using version_cases [OF assms(2,3)] by (auto simp: serialize_version_def version_defs)
  with assms show ?thesis by (simp add: Serialize_def serialize_v2_layout Let_def)
qed

lemma header_layout_split:
  assumes "wf_header h" "Version2 \<le> Version h" "Version h \<le> Version8"
  obtains base where
    "header_layout h = (MagicString @ le_bytes 2 (Version h)) @ base @
       (if Version8 \<le> Version h then MicroDictionaryData h else [])"
    "length base = header_min_size (Version h) - 6"
    "Version8 \<le> Version h \<longrightarrow>
       get_uint32 ((MagicString @ le_bytes 2 (Version h)) @ base) 137 = MicroDictSize h"
proof -
  obtain c0 c1 c2 where c: "CodebookHashes h = [c0, c1, c2]" "length c0 = 8" "length c1 = 8" "length c2 = 8"
    using assms(1) by (auto simp: wf_header_def numeral_3_eq_3 length_Suc_conv)
  let ?base = "[of_bool (IsEncrypted h), flag_byte h] @ Salt h @
     OriginalHash h @ le_bytes 8 (OriginalSize h) @ le_bytes 4 (ChunkCount h) @
     (if Version4 \<le> Version h
      then le_bytes 4 (ChunkSize h) @ (if Version6 \<le> Version h then CodebookHashes h ! 0 else CodebookHash h)
      else []) @
     (if Version5 \<le> Version h then MerkleRoot h else []) @
     (if Version6 \<le> Version h
      then [of_bool (IsConvergentEncrypted h)] @ CodebookHashes h ! 0 @ CodebookHashes h ! 1 @ CodebookHashes h ! 2
      else []) @
     (if Version8 \<le> Version h then le_bytes 4 (MicroDictSize h) else [])"
  have len: "length ?base = header_min_size (Version h) - 6"
    using version_cases [OF assms(2,3)] assms(1) c
    by (elim disjE) (simp_all add: wf_header_def version_defs header_min_size_def header_size_defs)
  have "Version8 \<le> Version h \<longrightarrow>
       get_uint32 ((MagicString @ le_bytes 2 (Version h)) @ ?base) 137 = MicroDictSize h"
    using version_cases [OF assms(2,3)] assms(1) c
    by (elim disjE) (simp_all add: wf_header_def version_defs get_uint_defs slice_layout wire_simps)
  moreover have "header_layout h = (MagicString @ le_bytes 2 (Version h)) @ ?base @
       (if Version8 \<le> Version h then MicroDictionaryData h else [])"
    by (cases "Version8 \<le> Version h") (simp_all add: header_layout_def)
  ultimately show ?thesis using that [of ?base] len by blast
qed

lemma read_header_written:
  assumes "wf_header h" "Version2 \<le> Version h" "Version h \<le> Version8"
  shows "read_header (header_layout h @ rest) = Inr (stored_header h, rest)"
proof -
  define P where "P = MagicString @ le_bytes 2 (Version h)"
  obtain base where b: "header_layout h = P @ base @
       (if Version8 \<le> Version h then MicroDictionaryData h else [])"
    "length base = header_min_size (Version h) - 6"
    "Version8 \<le> Version h \<longrightarrow> get_uint32 (P @ base) 137 = MicroDictSize h"
    unfolding P_def by (rule header_layout_split [OF assms])
  have v: "get_uint16 P 4 = Version h" "length P = 6"
    by (simp_all add: P_def get_uint_defs slice_layout wire_simps)
  have r: "Version h \<noteq> Version1" "Version h \<le> Version9"
    using version_cases [OF assms(2,3)] by (auto simp: version_defs)
  have m: "\<not> MaxMicroDictSize < MicroDictSize h" "length (MicroDictionaryData h) = unat (MicroDictSize h)"
    using assms(1) by (auto simp: wf_header_def)
  have "read_header_bytes (header_layout h @ rest) = Inr (header_layout h, rest)"
    using r assms(2) m b(2,3) by (auto simp: read_header_bytes_def b(1) v Let_def word_gt_0)
  then show ?thesis
    by (simp add: read_header_def parse_header_layout [OF assms])
qed

section \<open>Reading written tables\<close>

lemma put_block_table_layout: "put_block_table bt = concat (map (le_bytes 4) bt)"
proof -
  have "fold (\<lambda>i buf. put_uint32 buf (i * 4) (bt ! i)) [0..<k] (buf_at [] (length bt * 4)) =
      buf_at (concat (map (le_bytes 4) (take k bt))) ((length bt - k) * 4)" if "k \<le> length bt" for k
    using that
  proof (induction k)
    case (Suc k)
    let ?A = "concat (map (le_bytes 4) (take k bt))"
    have A: "k * 4 = length ?A" using Suc.prems by (simp add: length_concat comp_def sum_list_triv)
    show ?case
      using Suc put_buf_at [of "k * 4" ?A "le_bytes 4 (bt ! k)" "(length bt - k) * 4"]
      by (simp add: take_Suc_conv_app_nth put_uint_defs diff_mult_distrib add.commute flip: A)
  qed simp
  from this [OF order_refl] show ?thesis by (simp add: put_block_table_def buf_at_start buf_at_end)
qed

lemma length_concat_le_bytes [simp]: "length (concat (map (le_bytes n) ws)) = n * length ws"
  by (induction ws) simp_all

lemma get_uint32_concat:
  assumes "i < length ws"
  shows "get_uint32 (concat (map (le_bytes 4) ws)) (i * 4) = ws ! i"
proof -
  let ?P = "concat (map (le_bytes 4) (take i ws))"
  have l: "length ?P = i * 4" using assms by simp
  have "concat (map (le_bytes 4) ws) = ?P @ le_bytes 4 (ws ! i) @ concat (map (le_bytes 4) (drop (Suc i) ws))"
    by (subst id_take_nth_drop [OF assms]) (simp only: map_append concat_append list.map concat.simps)
  then show ?thesis using l by (simp add: get_uint_defs slice_layout wire_simps)
qed

lemma read_block_table_written:
  assumes "Version2 \<le> Version h" "length bt = unat (NumBlocks h)"
  shows "read_block_table h (concat (map (le_bytes 4) bt) @ rest) = Inr (bt, rest)"
proof -
  have "map (\<lambda>i. get_uint32 (concat (map (le_bytes 4) bt)) (i * 4)) [0..<length bt] = bt"
    by (rule nth_equalityI) (simp_all add: get_uint32_concat)
  with assms show ?thesis by (simp add: read_block_table_def mult.commute flip: assms(2))
qed

definition table_blob :: "ext \<Rightarrow> bytes \<Rightarrow> ChunkEntry list \<Rightarrow> bytes option \<Rightarrow> bytes" where
  "table_blob X nonce es key =
     (let z = zstd_encode X 1 [] (encodeTableColumns es) in
      case key of None \<Rightarrow> z | Some k \<Rightarrow> nonce @ gcm_seal X k nonce z)"

lemma EncodeCompressedTable_layout:
  assumes "\<forall>k. key = Some k \<longrightarrow> length k = 32"
  shows "EncodeCompressedTable X nonce es v key =
    Inr (le_bytes 4 (of_nat (length (table_blob X nonce es key)) :: u32) @ table_blob X nonce es key)"
proof -
  have put: "gcopy (put_uint32 (zeros (4 + length b)) 0 w) 4 (4 + length b) b = le_bytes 4 w @ b" for b w
    by (simp add: gcopy_def put_uint_defs put_def)
  from assms show ?thesis
    by (cases key) (simp_all add: EncodeCompressedTable_def table_blob_def Encrypt_def NewCipher_def Let_def put
        del: zeros_def)
qed

text \<open>The bound the reader checks holds for every table the writer produces.\<close>

lemma length_table_blob:
  assumes "zstd_bound X" "gcm_ok X" "length nonce = NonceSize"
  shows "length (table_blob X nonce es key) \<le> length es * 31 + length es div 8 + 140"
proof -
  let ?t = "encodeTableColumns es"
  have "length ?t \<le> 31 * length es + 40" by (rule length_encodeTableColumns)
  moreover have "length (zstd_encode X 1 [] ?t) \<le> length ?t + length ?t div 256 + 64"
    using assms(1) unfolding zstd_bound_def by blast
  ultimately have "length (zstd_encode X 1 [] ?t) \<le> length es * 31 + length es div 8 + 112" by linarith
  with assms(2,3) show ?thesis
    by (auto simp: table_blob_def gcm_ok_simps NonceSize_def Let_def split: option.split)
qed

text \<open>\<open>table_fits\<close>: the compressed table is shorter than its 32-bit length field can say.\<close>

definition table_fits :: "ChunkEntry list \<Rightarrow> bool" where
  "table_fits es \<longleftrightarrow> wf_table es \<and> length es * 31 + length es div 8 + 140 < 2 ^ 32"

lemma readCompressedTable_written:
  assumes X: "zstd_ok X" "zstd_bound X" "gcm_ok X" "length nonce = NonceSize"
    and es: "table_fits es" "ChunkCount h = of_nat (length es)" and key: "\<forall>k. key = Some k \<longrightarrow> length k = 32"
    and t: "EncodeCompressedTable X nonce es v key = Inr t"
  shows "readCompressedTable X h key (t @ rest) = Inr (h\<lparr>TableBytes := length t\<rparr>, es, rest)"
proof -
  let ?b = "table_blob X nonce es key"
  have t: "t = le_bytes 4 (of_nat (length ?b) :: u32) @ ?b"
    using t EncodeCompressedTable_layout [OF key, of X nonce es v] by simp
  have len: "length ?b \<le> length es * 31 + length es div 8 + 140"
    by (rule length_table_blob) (use X in auto)
  with es(1) have n: "unat (of_nat (length ?b) :: u32) = length ?b"
    by (intro unat_of_nat_lt) (simp add: table_fits_def)
  have c: "unat (ChunkCount h) = length es"
    using es unfolding es(2) by (intro unat_of_nat_lt) (simp add: table_fits_def wf_table_def)
  have ok: "\<not> length es * 31 + 1024 + (length es * 31 + 1024) div 8 < length ?b" using len by linarith
  have cols: "length (encodeTableColumns es) \<le> length es * 31 + 1024"
    using length_encodeTableColumns [of es] by linarith
  have open_blob: "(case key of None \<Rightarrow> Inr ?b | Some k \<Rightarrow> wrap_err e (Decrypt X k ?b)) =
      Inr (zstd_encode X 1 [] (encodeTableColumns es))" for e
    using key X(3,4) by (auto simp: table_blob_def Decrypt_def NewCipher_def gcm_ok_simps Let_def split: option.split)
  have sz: "get_uint32 (le_bytes 4 (of_nat (length ?b) :: u32)) 0 = of_nat (length ?b)"
    by (simp add: get_uint_defs wire_simps)
  have max: "zstd_decode_max X (length es * 31 + 1024) (zstd_encode X 1 [] (encodeTableColumns es)) =
      Some (encodeTableColumns es)"
    using X(1) cols unfolding zstd_ok_def by blast
  have dec: "decodeTableColumns (encodeTableColumns es) (ChunkCount h) = Inr es"
    unfolding es(2) using es(1) by (intro decode_columns_wf) (simp add: table_fits_def)
  show ?thesis
    unfolding t readCompressedTable_def maxColumnBytesPerEntry_def
    by (simp add: sz n c ok open_blob max [unfolded One_nat_def] dec Let_def add.commute)
qed

section \<open>Reading a written file\<close>

text \<open>A file as the packers lay it out, before its blocks.\<close>

definition crom_file :: "Header \<Rightarrow> u32 list \<Rightarrow> bytes \<Rightarrow> bytes" where
  "crom_file h bt table = fst (Serialize h) @ concat (map (le_bytes 4) bt) @ table"

lemma ReadStream_written:
  assumes X: "zstd_ok X" "zstd_bound X" "gcm_ok X" "hash_sizes_ok X" "length nonce = NonceSize"
    and h: "wf_header h" "Version3 \<le> Version h" "Version h \<le> Version8" "CompressedTable h"
    and es: "table_fits es" "ChunkCount h = of_nat (length es)" "es \<noteq> []"
    and bt: "length bt = unat (NumBlocks h)"
    and key: "if IsEncrypted h then ek \<noteq> [] \<and> key = Some (DeriveKey X ek (Salt h)) else key = None"
    and t: "EncodeCompressedTable X nonce es v key = Inr t"
  shows "ReadStream X ek (crom_file h bt t @ rest) =
    Inr ((stored_header h)\<lparr>TableBytes := length t\<rparr>, bt, es, rest)"
proof -
  let ?s = "stored_header h"
  have v2: "Version2 \<le> Version h" using h(2) by (auto simp: version_defs word_le_nat_alt)
  have st: "serialize_version h = h"
    using version_cases [OF v2 h(3)] by (auto simp: serialize_version_def version_defs)
  have v1: "Version h \<noteq> Version1" using version_cases [OF v2 h(3)] by (auto simp: version_defs)
  have s: "Version ?s = Version h" "IsEncrypted ?s = IsEncrypted h" "Salt ?s = Salt h" "ChunkCount ?s = ChunkCount h"
    "CompressedTable ?s" "OriginalSize ?s = OriginalSize h"
    using h v1 by (simp_all add: stored_header_def st Let_def)
  have nb: "NumBlocks ?s = NumBlocks h" by (simp add: NumBlocks_def s)
  have k: "header_key X ek ?s = Inr key" "\<forall>k. key = Some k \<longrightarrow> length k = 32"
    using key X(4) by (auto simp: header_key_def s DeriveKey_def hash_sizes split: if_splits)
  have "unat (ChunkCount h) = length es"
    using es unfolding es(2) by (intro unat_of_nat_lt) (simp add: table_fits_def wf_table_def)
  with es(3) have c0: "ChunkCount h \<noteq> 0" by auto
  have tab: "readCompressedTable X ?s key (t @ rest) = Inr (?s\<lparr>TableBytes := length t\<rparr>, es, rest)"
    using X es k(2) t by (intro readCompressedTable_written) (simp_all add: s)
  have blk: "read_block_table ?s (concat (map (le_bytes 4) bt) @ t @ rest) = Inr (bt, t @ rest)"
    using v2 bt by (intro read_block_table_written) (simp_all add: s nb)
  show ?thesis
    unfolding ReadStream_def ReadMetadata_def crom_file_def
    by (simp add: Serialize_layout [OF h(1) v2 h(3)] read_header_written [OF h(1) v2 h(3)] k(1) blk s c0 tab)
qed

lemma ParseChunkTable_Serialize_exact:
  assumes "length es < 2 ^ 32" "n = of_nat (length es)"
  shows "ParseChunkTable (SerializeChunkTable es v) n v = Inr (map (stored_entry v) es)"
  using ParseChunkTable_Serialize [OF assms(1), of v "[]"] assms(2) by simp

lemma length_SerializeChunkTable: "length (SerializeChunkTable es v) = length es * unat (GetEntrySize v)"
  by (simp add: SerializeChunkTable_layout length_concat comp_def sum_list_triv)

lemma read_plain_written:
  assumes "length es < 2 ^ 32" "ChunkCount h = of_nat (length es)" "\<not> IsEncrypted h"
  shows "read_plain_table X h None (SerializeChunkTable es (Version h) @ rest) =
    Inr (h\<lparr>TableBytes := length (SerializeChunkTable es (Version h))\<rparr>, map (stored_entry (Version h)) es, rest)"
proof -
  have "unat (ChunkCount h) = length es"
    unfolding assms(2) using assms(1) by (intro unat_of_nat_lt) simp
  then show ?thesis
    using assms by (simp add: read_plain_table_def ParseChunkTable_Serialize_exact length_SerializeChunkTable Let_def)
qed

lemma Writer_Write_v2:
  assumes "wf_header h" "Version h = Version2" "\<not> IsEncrypted h"
    "length es < 2 ^ 32" "es \<noteq> []" "ChunkCount h = of_nat (length es)" "length bt = unat (NumBlocks h)"
  shows "\<exists>out. Writer_Write h bt es pool = Inr out \<and>
    ReadStream X ek (out @ rest) =
      Inr ((stored_header h)\<lparr>TableBytes := 24 * length es\<rparr>, bt, map (stored_entry Version2) es, pool @ rest)"
proof -
  let ?s = "stored_header h"
  have v: "Version2 \<le> Version h" "Version h \<le> Version8" "Version h \<noteq> Version1"
    unfolding assms(2) by (simp_all add: version_defs)
  have st: "serialize_version h = h" unfolding serialize_version_def assms(2) by (simp add: version_defs)
  have s: "Version ?s = Version2" "\<not> IsEncrypted ?s" "ChunkCount ?s = ChunkCount h" "\<not> CompressedTable ?s"
    "OriginalSize ?s = OriginalSize h"
    using assms(2,3) by (simp_all add: stored_header_def st Let_def version_defs)
  have nb: "NumBlocks ?s = NumBlocks h" by (simp add: NumBlocks_def s)
  have "unat (ChunkCount h) = length es" unfolding assms(6) using assms(4) by (intro unat_of_nat_lt) simp
  with assms(5) have c0: "ChunkCount h \<noteq> 0" by auto
  have e: "unat (GetEntrySize Version2) = 24" by (simp add: unat_entry_size version_defs)
  have w: "Writer_Write h bt es pool =
      Inr (header_layout h @ concat (map (le_bytes 4) bt) @ SerializeChunkTable es Version2 @ pool)"
    using assms(2,6) by (simp add: Writer_Write_def Serialize_layout [OF assms(1) v(1,2)] put_block_table_layout)
  have tab: "read_plain_table X ?s None (SerializeChunkTable es Version2 @ pool @ rest) =
      Inr (?s\<lparr>TableBytes := 24 * length es\<rparr>, map (stored_entry Version2) es, pool @ rest)"
    using read_plain_written [of es ?s X "pool @ rest"] assms(4,6) s
    by (simp add: length_SerializeChunkTable e mult.commute)
  have blk: "read_block_table ?s (concat (map (le_bytes 4) bt) @ r) = Inr (bt, r)" for r
    using assms(7) by (intro read_block_table_written) (simp_all add: s nb)
  show ?thesis
    unfolding w ReadStream_def ReadMetadata_def
    by (simp add: read_header_written [OF assms(1) v(1,2)] header_key_def blk s c0 tab)
qed

section \<open>Properties\<close>

text \<open>
  The stream round trip: a file that starts with a serialised header (V3 to V8), its
  block table and its compressed chunk table, encrypted or not, is read back to the header
  its version stores, the same block table and the same entries, and the stream is left
  at the first block; the plausibility bound of the reader never rejects a table the
  encoder wrote.
\<close>

lemma stream_roundtrip:
  assumes "zstd_ok X" "zstd_bound X" "gcm_ok X" "hash_sizes_ok X" "length nonce = NonceSize"
    and "wf_header h" "Version3 \<le> Version h" "Version h \<le> Version8" "CompressedTable h"
    and "table_fits es" "ChunkCount h = of_nat (length es)" "es \<noteq> []" "length bt = unat (NumBlocks h)"
    and "if IsEncrypted h then ek \<noteq> [] \<and> key = Some (DeriveKey X ek (Salt h)) else key = None"
    and "EncodeCompressedTable X nonce es v key = Inr t"
  shows "ReadStream X ek (fst (Serialize h) @ concat (map (le_bytes 4) bt) @ t @ rest) =
    Inr ((stored_header h)\<lparr>TableBytes := length t\<rparr>, bt, es, rest)"
  using ReadStream_written [OF assms, of rest] by (simp add: crom_file_def)

definition sample_file_header :: Header where
  "sample_file_header = zero_header\<lparr>Version := 5, OriginalSize := 5, ChunkCount := 1, CompressedTable := True\<rparr>"

definition sample_file_entry :: ChunkEntry where
  "sample_file_entry = \<lparr>CodebookID = 1, DeltaOffset = 0, DeltaSize = 0, EOriginalSize = 5, CodebookIndex = 0\<rparr>"

lemma sample_file_wf:
  "wf_header sample_file_header" "Version3 \<le> Version sample_file_header"
  "Version sample_file_header \<le> Version8" "CompressedTable sample_file_header"
  "table_fits [sample_file_entry]" "ChunkCount sample_file_header = 1"
  "unat (NumBlocks sample_file_header) = 1" "\<not> IsEncrypted sample_file_header"
  by (simp_all add: sample_file_header_def sample_file_entry_def wf_header_def zero_header_def MaxMicroDictSize_def
      version_defs table_fits_def wf_table_def NumBlocks_def BlockSize_def LiteralCodebookID_def)

text \<open>
  \<open>Writer.Write\<close> and the reader agree on V2 files: what is written for a header with a
  consistent chunk count and block table is read back with every field a V2 file stores, and
  the stream is left at the delta pool.
\<close>

lemma writer_roundtrip:
  assumes "wf_header h" "Version h = Version2" "\<not> IsEncrypted h" "length es < 2 ^ 32" "es \<noteq> []"
    "ChunkCount h = of_nat (length es)" "length bt = unat (NumBlocks h)"
  shows "\<exists>out. Writer_Write h bt es pool = Inr out \<and>
    ReadStream X ek out =
      Inr ((stored_header h)\<lparr>TableBytes := 24 * length es\<rparr>, bt, map (stored_entry Version2) es, pool)"
  using Writer_Write_v2 [OF assms, of pool X ek "[]"] by simp

end
