(* ===== verification/Unpacker.thy ===== *)
theory Unpacker
  imports Complex_Main Format_IO Codebook Delta Fractal
begin

text \<open>
  \<^verbatim>\<open>pkg/cromlib/unpack_bytes.go\<close>: rebuilding a file in memory. The definitions follow
  \<open>UnpackBytes\<close> and \<open>reconstructChunk\<close>; the lemmas say that a sequence of chunks laid out in
  compressed blocks, as the packers do, is rebuilt exactly, and that an accepted lossless
  file has the hash its header names.
\<close>

section \<open>Rebuilding one chunk\<close>

record UnpackOptions =
  Fuzziness :: real
  uEncryptionKey :: bytes
  Strict :: bool

definition clean_mask :: u64 where "clean_mask = 0x0FFFFFFFFFFFFFFF"

text \<open>\<open>x[:n]\<close> if the length, as a \<open>uint32\<close>, exceeds \<open>n\<close>.\<close>

definition clip :: "u32 \<Rightarrow> bytes \<Rightarrow> bytes" where
  "clip n xs = (if n < of_nat (length xs) then take (unat n) xs else xs)"

text \<open>The parameters \<open>maxID\<close> and \<open>fuzziness\<close> of the source are never used.\<close>

definition reconstructChunk :: "ChunkEntry \<Rightarrow> bytes \<Rightarrow> Reader \<Rightarrow> bytes res" where
  "reconstructChunk entry rs cb =
     (let targetID = CodebookID entry in
      if targetID = LiteralCodebookID then Inr rs
      else if CodebookIndex entry = FractalCodebookIndex
      then Inr (GeneratePolynomial targetID (unat (EOriginalSize entry)))
      else
        (let isPatch = (targetID AND FlagIsPatch \<noteq> 0);
             cleanID = targetID AND clean_mask
         in rbind (wrap_err ''lookup codeword'' (Lookup cb cleanID)) (\<lambda>pattern.
              let usablePattern = clip (EOriginalSize entry) pattern in
              if isPatch then ApplyPatch usablePattern rs
              else Inr (Apply usablePattern (clip (EOriginalSize entry) rs)))))"

section \<open>Unpacking in memory\<close>

text \<open>
  The loop over the chunks of a block. \<open>globalOffset\<close> is the offset of the block in the
  uncompressed pool; the offsets are \<open>uint64\<close> and wrap, and the slice panics when its lower
  bound exceeds the upper one.
\<close>

fun unpack_entries :: "Reader \<Rightarrow> u64 \<Rightarrow> bytes \<Rightarrow> ChunkEntry list \<Rightarrow> bytes res" where
  "unpack_entries cb globalOffset block [] = Inr []"
| "unpack_entries cb globalOffset block (entry # entries) =
     (let localOffset = DeltaOffset entry - globalOffset;
          endLocal = localOffset + ucast (DeltaSize entry)
      in if of_nat (length block) < endLocal then Inl (GoErr ''unpackbytes: delta offset bounds error'')
         else
           rbind (gslice block (unat localOffset) (unat endLocal)) (\<lambda>rs.
           rbind (wrap_err ''unpackbytes: reconstruct chunk'' (reconstructChunk entry rs cb)) (\<lambda>chunk.
           rbind (unpack_entries cb globalOffset block entries) (\<lambda>rest.
             Inr (chunk @ rest)))))"

definition open_block_data :: "ext \<Rightarrow> Header \<Rightarrow> bytes \<Rightarrow> Reader \<Rightarrow> bytes \<Rightarrow> bytes res" where
  "open_block_data X header encryptionKey cb blockData =
     rbind (if IsEncrypted header
            then wrap_err ''unpackbytes: decrypt block'' (Decrypt X (DeriveKey X encryptionKey (Salt header)) blockData)
            else Inr blockData) (\<lambda>blockData.
     rbind (if UsesBrainDict header then Dictionary cb else Inr []) (\<lambda>dict.
       wrap_err ''unpackbytes: decompress block'' (DecompressPoolDict X blockData dict)))"

fun unpack_blocks ::
  "ext \<Rightarrow> Header \<Rightarrow> bytes \<Rightarrow> Reader \<Rightarrow> ChunkEntry list \<Rightarrow> nat list \<Rightarrow> nat \<Rightarrow> nat \<Rightarrow> u64 \<Rightarrow> u32 list \<Rightarrow>
   bytes \<Rightarrow> bytes res" where
  "unpack_blocks X header ek cb entries starts i entryIdx globalOffset [] s = Inr []"
| "unpack_blocks X header ek cb entries starts i entryIdx globalOffset (blockSize # sizes) s =
     rbind (wrap_err ''unpackbytes: read block'' (read_full (unat blockSize) s)) (\<lambda>(blockData, s).
     rbind (open_block_data X header ek cb blockData) (\<lambda>block.
     rbind (BlockRange starts i (length entries)) (\<lambda>(blockStart, blockEnd).
       let todo = take (blockEnd - blockStart) (drop entryIdx entries) in
       rbind (unpack_entries cb globalOffset block todo) (\<lambda>out.
       rbind (unpack_blocks X header ek cb entries starts (i + 1) (entryIdx + length todo)
                (globalOffset + of_nat (length block)) sizes s) (\<lambda>rest.
         Inr (out @ rest))))))"

text \<open>The V1 branch: one pool, absolute offsets.\<close>

fun unpack_legacy :: "Reader \<Rightarrow> bytes \<Rightarrow> ChunkEntry list \<Rightarrow> bytes res" where
  "unpack_legacy cb pool [] = Inr []"
| "unpack_legacy cb pool (entry # entries) =
     rbind (gslice pool (unat (DeltaOffset entry)) (unat (DeltaOffset entry + ucast (DeltaSize entry)))) (\<lambda>rs.
     rbind (reconstructChunk entry rs cb) (\<lambda>chunk.
     rbind (unpack_legacy cb pool entries) (\<lambda>rest.
       Inr (chunk @ rest))))"

definition unpack_pool ::
  "ext \<Rightarrow> Header \<Rightarrow> bytes \<Rightarrow> Reader \<Rightarrow> u32 list \<Rightarrow> ChunkEntry list \<Rightarrow> bytes \<Rightarrow> bytes res" where
  "unpack_pool X header ek cb blockTable entries s =
     (if Version2 \<le> Version header then
        (let blockStarts = BlockStarts entries in
         if length blockStarts \<noteq> length blockTable
         then Inl (GoErr ''unpackbytes: chunk table and block table disagree'')
         else unpack_blocks X header ek cb entries blockStarts 0 0 0 blockTable s)
      else
        rbind (DecompressPool X s) (\<lambda>pool. unpack_legacy cb pool entries))"

text \<open>
  \<open>output.Grow(int(header.OriginalSize))\<close> panics on a negative argument; the memory itself is
  not bounded in the model.
\<close>

definition grow :: "u64 \<Rightarrow> unit res" where
  "grow n = (if 2 ^ 63 \<le> n then Inl GoPanic else Inr ())"

definition UnpackBytes :: "ext \<Rightarrow> bytes \<Rightarrow> bytes \<Rightarrow> UnpackOptions \<Rightarrow> bytes res" where
  "UnpackBytes X cromData codebookData opts =
     (if cromData = [] then Inl (GoErr ''unpackbytes: empty input'')
      else
        rbind (wrap_err ''unpackbytes: open codebook'' (OpenFromBytes codebookData)) (\<lambda>cb.
        rbind (wrap_err ''unpackbytes: parse format'' (ReadStream X (uEncryptionKey opts) cromData))
          (\<lambda>(header, blockTable, entries, s).
        rbind (grow (OriginalSize header)) (\<lambda>_.
          if IsPassthrough header \<or> ChunkCount header = 0 then
            (if IsEncrypted header
             then wrap_err ''unpackbytes: decrypt passthrough''
                    (Decrypt X (DeriveKey X (uEncryptionKey opts) (Salt header)) s)
             else Inr s)
          else
            rbind (unpack_pool X header (uEncryptionKey opts) cb blockTable entries s) (\<lambda>output.
              if Fuzziness opts = 0 \<and> \<not> IsLossy header \<and> sha256 X output \<noteq> OriginalHash header
              then Inl (GoErr ''unpackbytes: SHA-256 integrity mismatch'')
              else Inr output)))))"

section \<open>Decodable chunks\<close>

text \<open>
  An \<open>item\<close> is a chunk as a packer stores it: its entry, its residual and its content.
  \<open>decodes\<close> says that the entry and the residual, which is never longer than the content, give
  the content back.
\<close>

type_synonym item = "ChunkEntry \<times> bytes \<times> bytes"

definition small_id :: "u64 \<Rightarrow> bool" where
  "small_id cid \<longleftrightarrow> unat cid < 2 ^ 60"

definition decodes :: "Reader \<Rightarrow> item \<Rightarrow> bool" where
  "decodes r it \<longleftrightarrow>
     (case it of (e, rs, chunk) \<Rightarrow>
        reconstructChunk e rs r = Inr chunk \<and> unat (DeltaSize e) = length rs \<and>
        unat (EOriginalSize e) = length chunk \<and> chunk \<noteq> [] \<and> length rs \<le> length chunk \<and>
        (if CodebookID e = LiteralCodebookID then CodebookIndex e \<noteq> FractalCodebookIndex
         else unat (CodebookID e) < 2 ^ 62))"

lemma small_id_mask:
  assumes "small_id cid"
  shows "cid AND clean_mask = cid" "cid AND FlagIsPatch = 0" "(cid OR FlagIsPatch) AND clean_mask = cid"
    "(cid OR FlagIsPatch) AND FlagIsPatch \<noteq> 0" "cid \<noteq> LiteralCodebookID" "cid OR FlagIsPatch \<noteq> LiteralCodebookID"
    "unat (cid OR FlagIsPatch) < 2 ^ 62"
proof -
  have m: "clean_mask = mask 60" by (simp add: clean_mask_def mask_eq_exp_minus_1)
  have t: "take_bit 60 cid = cid"
    using assms by (simp add: small_id_def word_unat_eq_iff unsigned_take_bit_eq take_bit_nat_eq_self)
  have nb: "n < 60" if "bit cid n" for n
    using that bit_take_bit_iff [of 60 cid n] t by simp
  have bits: "bit FlagIsPatch n \<longleftrightarrow> n = 60" for n
    unfolding FlagIsPatch_def bit_push_bit_iff bit_1_iff by auto
  show "cid AND clean_mask = cid" by (simp add: m t flip: take_bit_eq_mask)
  show "cid AND FlagIsPatch = 0" by (rule bit_word_eqI) (use nb in \<open>force simp: bit_and_iff bits\<close>)
  show "(cid OR FlagIsPatch) AND clean_mask = cid"
    unfolding m by (rule bit_word_eqI) (use nb in \<open>auto simp: bit_simps bits\<close>)
  have "bit ((cid OR FlagIsPatch) AND FlagIsPatch) 60" by (simp add: bit_and_iff bit_or_iff bits)
  then show "(cid OR FlagIsPatch) AND FlagIsPatch \<noteq> 0" by (metis bit_0_eq bot_apply bot_bool_def)
  have "\<not> bit cid 61" using nb [of 61] by auto
  moreover from this have "\<not> bit (cid OR FlagIsPatch) 61" by (simp add: bit_or_iff bits)
  moreover have "bit LiteralCodebookID 61" by (simp add: LiteralCodebookID_def)
  ultimately show "cid \<noteq> LiteralCodebookID" "cid OR FlagIsPatch \<noteq> LiteralCodebookID" by metis+
  have "take_bit 62 (cid OR FlagIsPatch) = cid OR FlagIsPatch"
    by (rule bit_word_eqI) (use nb in \<open>force simp: bit_simps bits\<close>)
  then show "unat (cid OR FlagIsPatch) < 2 ^ 62" by (metis unsigned_take_bit_eq take_bit_nat_less_exp)
qed

lemma clip_take:
  assumes "unat n = k" "length xs < 2 ^ 32"
  shows "clip n xs = take k xs"
proof -
  have "unat (of_nat (length xs) :: u32) = length xs" using assms(2) by (intro unat_of_nat_lt) simp
  with assms(1) show ?thesis by (auto simp: clip_def word_less_nat_alt)
qed

lemma decodes_literal:
  assumes "CodebookID e = LiteralCodebookID" "CodebookIndex e \<noteq> FractalCodebookIndex" "DeltaSize e = of_nat (length chunk)"
    "EOriginalSize e = of_nat (length chunk)" "chunk \<noteq> []" "length chunk < 2 ^ 32"
  shows "decodes r (e, chunk, chunk)"
proof -
  have "unat (of_nat (length chunk) :: u32) = length chunk" using assms(6) by (intro unat_of_nat_lt) simp
  with assms show ?thesis by (simp add: decodes_def reconstructChunk_def)
qed

text \<open>The cases of \<open>reconstructChunk\<close> that look a codeword up.\<close>

lemma codeword_length_u32: "wf_reader r \<Longrightarrow> cid < CodewordCount (rHeader r) \<Longrightarrow> length (codeword r (unat cid)) < 2 ^ 32"
proof -
  assume r: "wf_reader r" "cid < CodewordCount (rHeader r)"
  then have "length (codeword r (unat cid)) = cw_size r"
    by (intro length_codeword) (simp_all add: word_less_nat_alt)
  moreover have "cw_size r < 2 ^ 16" using unat_lt [of "CodewordSize (rHeader r)"] by simp
  ultimately show ?thesis by simp
qed

lemma decodes_codeword:
  assumes r: "wf_reader r" "cid < CodewordCount (rHeader r)" "small_id cid"
    and e: "CodebookIndex e \<noteq> FractalCodebookIndex" "EOriginalSize e = of_nat (length chunk)"
      "DeltaSize e = of_nat (length rs)"
    and len: "chunk \<noteq> []" "length chunk < 2 ^ 32" "length rs \<le> length chunk"
    and rs: "CodebookID e = cid \<and>
        Apply (take (length chunk) (codeword r (unat cid))) rs = chunk \<or>
      CodebookID e = cid OR FlagIsPatch \<and> ApplyPatch (take (length chunk) (codeword r (unat cid))) rs = Inr chunk"
  shows "decodes r (e, rs, chunk)"
proof -
  have n: "unat (EOriginalSize e) = length chunk" "unat (DeltaSize e) = length rs"
    using len(2,3) unfolding e(2,3) by (intro unat_of_nat_lt; simp)+
  have "length rs < 2 ^ 32" using len(2,3) by simp
  note clip = clip_take [OF n(1) codeword_length_u32 [OF r(1,2)]] clip_take [OF n(1) this]
  note look = Lookup_codeword [OF r(1,2)] small_id_mask [OF r(3)]
  show ?thesis
    using rs
  proof
    assume "CodebookID e = cid \<and>
        Apply (take (length chunk) (codeword r (unat cid))) rs = chunk"
    with e(1) n look clip len(1,3) r(3) show ?thesis
      by (simp add: decodes_def reconstructChunk_def small_id_def Let_def)
  next
    assume "CodebookID e = cid OR FlagIsPatch \<and> ApplyPatch (take (length chunk) (codeword r (unat cid))) rs = Inr chunk"
    with e(1) n look clip len(1,3) show ?thesis by (simp add: decodes_def reconstructChunk_def Let_def)
  qed
qed

lemma decodes_fractal:
  assumes "CodebookIndex e = FractalCodebookIndex" "unat (CodebookID e) < 2 ^ 62"
    "EOriginalSize e = of_nat (length chunk)" "DeltaSize e = 0" "chunk \<noteq> []" "length chunk < 2 ^ 32"
    "GeneratePolynomial (CodebookID e) (length chunk) = chunk"
  shows "decodes r (e, [], chunk)"
proof -
  have "unat (of_nat (length chunk) :: u32) = length chunk" using assms(6) by (intro unat_of_nat_lt) simp
  moreover have "CodebookID e \<noteq> LiteralCodebookID" using assms(2) by (auto simp: LiteralCodebookID_def unsigned_minus_1_eq_mask mask_eq_exp_minus_1)
  ultimately show ?thesis using assms by (simp add: decodes_def reconstructChunk_def Let_def)
qed

section \<open>Chunks in compressed blocks\<close>

text \<open>
  A packed block: its items have consecutive offsets from \<open>off\<close>. \<open>pool_of\<close> is what gets
  compressed, \<open>content_of\<close> the part of the input it stands for.
\<close>

fun laid_out :: "Reader \<Rightarrow> nat \<Rightarrow> item list \<Rightarrow> bool" where
  "laid_out r off [] = True"
| "laid_out r off ((e, rs, c) # its) =
     (decodes r (e, rs, c) \<and> DeltaOffset e = of_nat off \<and> laid_out r (off + length rs) its)"

definition pool_of :: "item list \<Rightarrow> bytes" where
  "pool_of its = concat (map (\<lambda>(e, rs, c). rs) its)"

definition content_of :: "item list \<Rightarrow> bytes" where
  "content_of its = concat (map (\<lambda>(e, rs, c). c) its)"

lemma pool_of_simps [simp]: "pool_of [] = []" "pool_of ((e, rs, c) # its) = rs @ pool_of its"
  "pool_of (a @ b) = pool_of a @ pool_of b"
  by (simp_all add: pool_of_def)

lemma content_of_simps [simp]: "content_of [] = []" "content_of ((e, rs, c) # its) = c @ content_of its"
  "content_of (a @ b) = content_of a @ content_of b"
  by (simp_all add: content_of_def)

lemma laid_out_append: "laid_out r off (a @ b) \<longleftrightarrow> laid_out r off a \<and> laid_out r (off + length (pool_of a)) b"
  by (induction r off a rule: laid_out.induct) (auto simp: add.assoc)

lemma laid_out_decodes: "laid_out r off its \<Longrightarrow> it \<in> set its \<Longrightarrow> decodes r it"
  by (induction r off its rule: laid_out.induct) auto

lemma unpack_entries_laid:
  "laid_out r (g + length P) its \<Longrightarrow> g + length P + length (pool_of its) < 2 ^ 63 \<Longrightarrow>
   unpack_entries r (of_nat g) (P @ pool_of its) (map fst its) = Inr (content_of its)"
proof (induction its arbitrary: P)
  case (Cons it its)
  obtain e rs c where it: "it = (e, rs, c)" by (cases it) auto
  let ?B = "P @ pool_of (it # its)"
  have d: "reconstructChunk e rs r = Inr c" "unat (DeltaSize e) = length rs"
    "DeltaOffset e = of_nat (g + length P)" and rest: "laid_out r (g + length (P @ rs)) its"
    using Cons.prems(1) by (simp_all add: it decodes_def add.assoc)
  have lo: "DeltaOffset e - of_nat g = of_nat (length P)" using d(3) by simp
  have n: "unat (of_nat k :: u64) = k" if "k \<le> length ?B" for k
    using Cons.prems(2) that by (intro unat_of_nat_lt) (simp add: it)
  have sz: "of_nat (length P) + ucast (DeltaSize e) = (of_nat (length P + length rs) :: u64)"
    using d(2) by (simp flip: d(2))
  have hi: "unat (of_nat (length P) :: u64) = length P" "unat (of_nat (length P + length rs) :: u64) = length P + length rs"
    by (rule n; simp add: it)+
  have fits: "\<not> (of_nat (length ?B) :: u64) < of_nat (length P + length rs)"
    unfolding word_less_nat_alt hi n [OF order_refl] by (simp add: it)
  have sl: "gslice ?B (length P) (length P + length rs) = Inr rs"
    by (simp add: gslice_def it slice_layout)
  have IH: "unpack_entries r (of_nat g) ((P @ rs) @ pool_of its) (map fst its) = Inr (content_of its)"
    using rest Cons.prems(2) by (intro Cons.IH) (simp_all add: it)
  have "unpack_entries r (of_nat g) ?B (map fst (it # its)) =
      rbind (unpack_entries r (of_nat g) ?B (map fst its)) (\<lambda>rest. Inr (c @ rest))"
    unfolding list.map it fst_conv unpack_entries.simps Let_def lo [unfolded it fst_conv] sz
    using fits hi sl d(1) by (simp add: it del: of_nat_add)
  also have "\<dots> = Inr (content_of (it # its))" using IH by (simp add: it)
  finally show ?case .
qed simp

lemma starts_of_length [simp]: "length (starts_of k ebs) = length ebs"
  by (induction k ebs rule: starts_of.induct) simp_all

lemma starts_of_nth: "i < length ebs \<Longrightarrow> starts_of k ebs ! i = k + length (concat (take i ebs))"
  by (induction k ebs arbitrary: i rule: starts_of.induct) (auto simp: nth_Cons' take_Cons')

lemma concat_at:
  assumes "i < length ebs"
  shows "concat ebs = concat (take i ebs) @ ebs ! i @ concat (drop (Suc i) ebs)"
  by (subst id_take_nth_drop [OF assms]) (simp only: concat_append concat.simps)

lemma BlockRange_starts_of:
  assumes "i < length ebs"
  shows "BlockRange (starts_of 0 ebs) i (length (concat ebs)) =
    Inr (length (concat (take i ebs)), length (concat (take i ebs)) + length (ebs ! i))"
proof (cases "i + 1 < length ebs")
  case True
  with assms show ?thesis by (simp add: BlockRange_def starts_of_nth take_Suc_conv_app_nth)
next
  case False
  with assms have "drop (Suc i) ebs = []" by simp
  then have "length (concat ebs) = length (concat (take i ebs)) + length (ebs ! i)"
    by (subst concat_at [OF assms]) simp
  with False assms show ?thesis by (simp add: BlockRange_def starts_of_nth)
qed

text \<open>A packed file: the items of each block and its frame on disk.\<close>

type_synonym packed = "(item list \<times> bytes) list"

definition frames_ok :: "ext \<Rightarrow> Header \<Rightarrow> bytes \<Rightarrow> Reader \<Rightarrow> packed \<Rightarrow> bool" where
  "frames_ok X h ek r bs \<longleftrightarrow>
     (\<forall>(its, f) \<in> set bs. open_block_data X h ek r f = Inr (pool_of its) \<and> length f < 2 ^ 32)"

definition items_of :: "packed \<Rightarrow> item list" where "items_of bs = concat (map fst bs)"

definition entry_blocks :: "packed \<Rightarrow> ChunkEntry list list" where
  "entry_blocks bs = map (\<lambda>b. map fst (fst b)) bs"

definition sizes_of :: "packed \<Rightarrow> u32 list" where "sizes_of bs = map (\<lambda>b. of_nat (length (snd b))) bs"

definition frames_of :: "packed \<Rightarrow> bytes" where "frames_of bs = concat (map snd bs)"

lemma packed_simps [simp]:
  "items_of [] = []" "items_of (b # bs) = fst b @ items_of bs"
  "entry_blocks [] = []" "entry_blocks (b # bs) = map fst (fst b) # entry_blocks bs"
  "sizes_of [] = []" "sizes_of (b # bs) = of_nat (length (snd b)) # sizes_of bs"
  "frames_of [] = []" "frames_of (b # bs) = snd b @ frames_of bs"
  "length (sizes_of bs) = length bs" "length (entry_blocks bs) = length bs"
  by (simp_all add: items_of_def entry_blocks_def sizes_of_def frames_of_def)

lemma entry_blocks_append [simp]: "entry_blocks (a @ b) = entry_blocks a @ entry_blocks b"
  by (simp add: entry_blocks_def)

lemma concat_entry_blocks: "concat (entry_blocks bs) = map fst (items_of bs)"
  by (induction bs) simp_all

lemma unpack_blocks_laid:
  assumes "frames_ok X h ek r bs" "laid_out r off (items_of bs)" "off + length (pool_of (items_of bs)) < 2 ^ 63"
  shows "unpack_blocks X h ek r (concat (entry_blocks (pre @ bs))) (starts_of 0 (entry_blocks (pre @ bs)))
      (length pre) (length (concat (entry_blocks pre))) (of_nat off) (sizes_of bs) (frames_of bs @ tail) =
    Inr (content_of (items_of bs))"
  using assms
proof (induction bs arbitrary: pre off)
  case (Cons b bs)
  obtain its f where b: "b = (its, f)" by (cases b) auto
  define E where "E = entry_blocks (pre @ b # bs)"
  have f: "open_block_data X h ek r f = Inr (pool_of its)" "unat (of_nat (length f) :: u32) = length f"
    and fs: "frames_ok X h ek r bs"
    using Cons.prems(1) unat_of_nat_lt [of "length f", where 'a = 32] by (auto simp: frames_ok_def b)
  have i: "length pre < length E" by (simp add: E_def)
  have at: "take (length pre) E = entry_blocks pre" "E ! length pre = map fst its"
    by (simp_all add: E_def b nth_append)
  have todo: "take (length its) (drop (length (concat (entry_blocks pre))) (concat E)) = map fst its"
    unfolding concat_at [OF i] at by simp
  have ent: "unpack_entries r (of_nat off) (pool_of its) (map fst its) = Inr (content_of its)"
    using unpack_entries_laid [of r off "[]" its] Cons.prems(2,3) by (simp add: b laid_out_append)
  have IH: "unpack_blocks X h ek r (concat E) (starts_of 0 E) (length pre + 1)
      (length (concat (entry_blocks pre)) + length its) (of_nat off + of_nat (length (pool_of its)))
      (sizes_of bs) (frames_of bs @ tail) = Inr (content_of (items_of bs))"
    using Cons.IH [of "off + length (pool_of its)" "pre @ [b]"] fs Cons.prems(2,3)
    by (simp add: E_def b laid_out_append add.assoc)
  show ?case
    using BlockRange_starts_of [OF i] IH unfolding E_def [symmetric]
    by (simp add: at f todo ent b arg_cong [OF todo, of length, simplified])
qed simp

section \<open>Blocks of the input\<close>

text \<open>
  The packers cut the input into blocks of \<open>BlockSize\<close> bytes before they cut it into
  chunks, so every block but the last has that size.
\<close>

fun full_blocks :: "packed \<Rightarrow> bool" where
  "full_blocks [] = True"
| "full_blocks [b] = (0 < length (content_of (fst b)) \<and> length (content_of (fst b)) \<le> BlockSize)"
| "full_blocks (b # bs) = (length (content_of (fst b)) = BlockSize \<and> full_blocks bs)"

lemma full_blocks_Cons:
  "full_blocks (b # bs) \<longleftrightarrow>
     (if bs = [] then 0 < length (content_of (fst b)) \<and> length (content_of (fst b)) \<le> BlockSize
      else length (content_of (fst b)) = BlockSize \<and> full_blocks bs)"
  by (cases bs) simp_all

lemma BlockSize_pos [simp]: "0 < BlockSize"
  by (simp add: BlockSize_def)

lemma full_blocks_count:
  "full_blocks bs \<Longrightarrow> (length (content_of (items_of bs)) + BlockSize - 1) div BlockSize = length bs"
proof (induction bs)
  case (Cons b bs)
  show ?case
  proof (cases "bs = []")
    case True
    with Cons.prems have "0 < length (content_of (fst b)) \<and> length (content_of (fst b)) \<le> BlockSize"
      by (simp only: full_blocks.simps)
    then have eq: "length (content_of (fst b)) + BlockSize - 1 = BlockSize + (length (content_of (fst b)) - 1)"
      and lt: "length (content_of (fst b)) - 1 < BlockSize"
      by linarith+
    have "(length (content_of (fst b)) + BlockSize - 1) div BlockSize = 1"
      unfolding eq using lt by (simp add: div_add_self1)
    with True show ?thesis by simp
  next
    case False
    with Cons have "(length (content_of (items_of bs)) + BlockSize - 1) div BlockSize = length bs"
      "length (content_of (fst b)) = BlockSize"
      by (simp_all add: full_blocks_Cons)
    moreover have "BlockSize + length (content_of (items_of bs)) + BlockSize - 1 =
        BlockSize + (length (content_of (items_of bs)) + BlockSize - 1)"
      by (simp add: add.assoc Suc_leI)
    ultimately show ?thesis by (simp add: div_add_self1)
  qed
qed (simp add: BlockSize_def)

lemma entries_size_items:
  "\<forall>it \<in> set its. decodes r it \<Longrightarrow> entries_size (map fst its) = length (content_of its)"
  by (induction its) (auto simp: entries_size_def decodes_def)

lemma entries_positive:
  assumes "decodes r it"
  shows "0 < unat (EOriginalSize (fst it))" "EOriginalSize (fst it) \<noteq> 0"
proof -
  show "0 < unat (EOriginalSize (fst it))" using assms by (auto simp: decodes_def)
  then show "EOriginalSize (fst it) \<noteq> 0" by auto
qed

lemma fills_block_items:
  assumes "\<forall>it \<in> set its. decodes r it" "length (content_of its) = BlockSize"
  shows "fills_block (map fst its)"
proof -
  have ne: "its \<noteq> []" using assms(2) by (auto simp: BlockSize_def)
  then obtain pre it where its: "its = pre @ [it]" by (metis rev_exhaust)
  have "entries_size (map fst its) = entries_size (map fst pre) + unat (EOriginalSize (fst it))"
    by (simp add: its entries_size_def)
  moreover have "entries_size (map fst its) = BlockSize" using assms entries_size_items by simp
  moreover have "0 < unat (EOriginalSize (fst it))" using assms(1) its entries_positive(1) [of r it] by simp
  ultimately show ?thesis using ne by (simp add: fills_block_def its)
qed

lemma BlockStarts_packed:
  assumes d: "\<forall>it \<in> set (items_of bs). decodes r it" and full: "full_blocks bs"
  shows "BlockStarts (concat (entry_blocks bs)) = starts_of 0 (entry_blocks bs)"
proof (cases bs rule: rev_cases)
  case Nil
  then show ?thesis by (simp add: BlockStarts_def)
next
  case (snoc pre b)
  have pos: "\<forall>e \<in> set (concat (entry_blocks bs)). EOriginalSize e \<noteq> 0"
    using d entries_positive(2) by (auto simp: concat_entry_blocks)
  have parts: "\<forall>c \<in> set pre. length (content_of (fst c)) = BlockSize"
    "0 < length (content_of (fst b))" "length (content_of (fst b)) \<le> BlockSize"
    using full unfolding snoc by (induction pre) (auto simp: full_blocks_Cons)
  have db: "\<forall>c \<in> set bs. \<forall>it \<in> set (fst c). decodes r it" using d by (auto simp: items_of_def)
  have fp: "\<forall>eb \<in> set (entry_blocks pre). fills_block eb"
    using parts(1) db by (auto simp: entry_blocks_def snoc intro!: fills_block_items)
  have sb: "entries_size (map fst (fst b)) = length (content_of (fst b))"
    using db by (intro entries_size_items [of _ r]) (simp add: snoc)
  have ne: "map fst (fst b) \<noteq> []" using parts(2) by auto
  show ?thesis
  proof (cases "length (content_of (fst b)) = BlockSize")
    case True
    with db have "fills_block (map fst (fst b))" by (intro fills_block_items [of _ r]) (simp_all add: snoc)
    with fp have "\<forall>eb \<in> set (entry_blocks bs). fills_block eb" by (simp add: snoc)
    with pos block_starts_blocks [of "entry_blocks bs" "[]" 0] show ?thesis by (simp add: BlockStarts_def)
  next
    case False
    with parts(3) sb ne have "open_block (map fst (fst b))" by (simp add: open_block_def)
    with pos fp ne block_starts_blocks [of "entry_blocks pre" "map fst (fst b)" 0] show ?thesis
      by (simp add: BlockStarts_def snoc)
  qed
qed

section \<open>Unpacking a packed file\<close>

text \<open>
  \<open>packed_file\<close> is the contract between the packers and the unpackers: \<open>file\<close> consists of
  the header, the block table, the compressed chunk table and the frames of the blocks \<open>bs\<close>,
  whose items stand for \<open>input\<close>.
\<close>

definition file_key :: "ext \<Rightarrow> bytes \<Rightarrow> Header \<Rightarrow> bytes option" where
  "file_key X ek h = (if IsEncrypted h then Some (DeriveKey X ek (Salt h)) else None)"

definition packed_header :: "ext \<Rightarrow> Header \<Rightarrow> packed \<Rightarrow> bytes \<Rightarrow> bool" where
  "packed_header X h bs input \<longleftrightarrow>
     wf_header h \<and> Version3 \<le> Version h \<and> Version h \<le> Version8 \<and> CompressedTable h \<and> \<not> IsPassthrough h \<and>
     ChunkCount h = of_nat (length (items_of bs)) \<and> OriginalSize h = of_nat (length input) \<and>
     OriginalHash h = sha256 X input"

definition packed_blocks :: "ext \<Rightarrow> Header \<Rightarrow> bytes \<Rightarrow> Reader \<Rightarrow> packed \<Rightarrow> bytes \<Rightarrow> bool" where
  "packed_blocks X h ek r bs input \<longleftrightarrow>
     bs \<noteq> [] \<and> table_fits (map fst (items_of bs)) \<and> frames_ok X h ek r bs \<and> laid_out r 0 (items_of bs) \<and>
     full_blocks bs \<and> content_of (items_of bs) = input \<and> length input \<le> 2 ^ 50 \<and>
     length (pool_of (items_of bs)) < 2 ^ 63"

definition packed_file ::
  "ext \<Rightarrow> Header \<Rightarrow> bytes \<Rightarrow> Reader \<Rightarrow> packed \<Rightarrow> bytes \<Rightarrow> bytes \<Rightarrow> bool" where
  "packed_file X h ek r bs file input \<longleftrightarrow>
     packed_header X h bs input \<and> packed_blocks X h ek r bs input \<and> (IsEncrypted h \<longrightarrow> ek \<noteq> []) \<and>
     (\<exists>t nonce v. length nonce = NonceSize \<and>
        EncodeCompressedTable X nonce (map fst (items_of bs)) v (file_key X ek h) = Inr t \<and>
        file = crom_file h (sizes_of bs) t @ frames_of bs)"

lemma packed_blocks_nonempty:
  assumes "packed_blocks X h ek r bs input"
  shows "items_of bs \<noteq> []" "input \<noteq> []"
proof -
  obtain b bs' where "bs = b # bs'" using assms by (cases bs) (auto simp: packed_blocks_def)
  with assms have "0 < length (content_of (items_of bs))"
    by (cases "bs' = []") (auto simp: packed_blocks_def full_blocks_Cons BlockSize_def)
  then show "items_of bs \<noteq> []" "input \<noteq> []" using assms by (auto simp: packed_blocks_def)
qed

lemma stored_fields:
  assumes "Version3 \<le> Version h" "Version h \<le> Version8"
  shows "Version (stored_header h) = Version h" "IsEncrypted (stored_header h) = IsEncrypted h"
    "Salt (stored_header h) = Salt h" "UsesBrainDict (stored_header h) = UsesBrainDict h"
    "IsPassthrough (stored_header h) = IsPassthrough h" "ChunkCount (stored_header h) = ChunkCount h"
    "OriginalSize (stored_header h) = OriginalSize h" "OriginalHash (stored_header h) = OriginalHash h"
    "IsLossy (stored_header h) = IsLossy h"
    "MicroDictSize (stored_header h) = (if Version8 \<le> Version h then MicroDictSize h else 0)"
    "MicroDictionaryData (stored_header h) = (if Version8 \<le> Version h then MicroDictionaryData h else [])"
proof -
  have v2: "Version2 \<le> Version h" using assms(1) by (auto simp: version_defs word_le_nat_alt)
  have "serialize_version h = h" "Version h \<noteq> Version1"
    using version_cases [OF v2 assms(2)] by (auto simp: serialize_version_def version_defs)
  with assms(1) show "Version (stored_header h) = Version h" "IsEncrypted (stored_header h) = IsEncrypted h"
    "Salt (stored_header h) = Salt h" "UsesBrainDict (stored_header h) = UsesBrainDict h"
    "IsPassthrough (stored_header h) = IsPassthrough h" "ChunkCount (stored_header h) = ChunkCount h"
    "OriginalSize (stored_header h) = OriginalSize h" "OriginalHash (stored_header h) = OriginalHash h"
    "IsLossy (stored_header h) = IsLossy h"
    "MicroDictSize (stored_header h) = (if Version8 \<le> Version h then MicroDictSize h else 0)"
    "MicroDictionaryData (stored_header h) = (if Version8 \<le> Version h then MicroDictionaryData h else [])"
    by (simp_all add: stored_header_def Let_def)
qed

lemma crom_file_nonempty: "packed_file X h ek r bs file input \<Longrightarrow> file \<noteq> []"
proof -
  assume "packed_file X h ek r bs file input"
  then have h: "wf_header h" "Version3 \<le> Version h" "Version h \<le> Version8"
    and f: "\<exists>t. file = crom_file h (sizes_of bs) t @ frames_of bs"
    by (auto simp: packed_file_def packed_header_def)
  have "Version2 \<le> Version h" using h(2) by (auto simp: version_defs word_le_nat_alt)
  then have "fst (Serialize h) = MagicString @ drop 4 (header_layout h)"
    by (simp add: Serialize_layout [OF h(1) _ h(3)] header_layout_def)
  moreover have "MagicString \<noteq> []" by (simp add: MagicString_def bytes_of_string_def)
  ultimately show ?thesis using f by (auto simp: crom_file_def)
qed

text \<open>What follows the last block stays in the stream.\<close>

lemma ReadStream_appended:
  assumes X: "zstd_ok X" "zstd_bound X" "gcm_ok X" "hash_sizes_ok X" and p: "packed_file X h ek r bs file input"
  shows "\<exists>t. ReadStream X ek (file @ tail) =
      Inr ((stored_header h)\<lparr>TableBytes := length t\<rparr>, sizes_of bs, map fst (items_of bs), frames_of bs @ tail) \<and>
    0 < length t \<and> file = crom_file h (sizes_of bs) t @ frames_of bs"
proof -
  obtain t nonce v where t: "length nonce = NonceSize"
    "EncodeCompressedTable X nonce (map fst (items_of bs)) v (file_key X ek h) = Inr t"
    "file = crom_file h (sizes_of bs) t @ frames_of bs"
    using p by (auto simp: packed_file_def)
  have h: "packed_header X h bs input" and b: "packed_blocks X h ek r bs input" and e: "IsEncrypted h \<longrightarrow> ek \<noteq> []"
    using p by (simp_all add: packed_file_def)
  note ne = packed_blocks_nonempty [OF b]
  have len: "length (content_of (items_of bs)) \<le> 2 ^ 50" "content_of (items_of bs) = input"
    using b by (simp_all add: packed_blocks_def)
  have os: "unat (OriginalSize h) = length input"
    using h len unat_of_nat_lt [of "length input", where 'a = 64] by (simp add: packed_header_def)
  have "table_fits (map fst (items_of bs))" using b by (simp add: packed_blocks_def)
  then have cc: "unat (ChunkCount h) = length (items_of bs)"
    using h unat_of_nat_lt [of "length (items_of bs)", where 'a = 32]
    by (simp add: packed_header_def table_fits_def wf_table_def)
  have "ChunkCount h \<noteq> 0" "OriginalSize h \<noteq> 0" using cc os ne by auto
  then have nb: "unat (NumBlocks h) = length bs"
    using NumBlocks_ceil [of h] full_blocks_count [of bs] ne cc os len b by (auto simp: packed_blocks_def)
  have "ReadStream X ek (crom_file h (sizes_of bs) t @ frames_of bs @ tail) =
      Inr ((stored_header h)\<lparr>TableBytes := length t\<rparr>, sizes_of bs, map fst (items_of bs), frames_of bs @ tail)"
    by (rule ReadStream_written [OF X t(1)])
      (use h b e t ne nb in \<open>simp_all add: packed_header_def packed_blocks_def file_key_def\<close>)
  moreover have "0 < length t"
  proof -
    have "\<forall>k. file_key X ek h = Some k \<longrightarrow> length k = 32"
      using X(4) by (simp add: file_key_def DeriveKey_def hash_sizes)
    then obtain n :: u32 and b where "t = le_bytes 4 n @ b" using t(2) by (auto simp: EncodeCompressedTable_layout)
    then show ?thesis by simp
  qed
  ultimately show ?thesis using t(3) by (intro exI conjI, subst t(3), simp_all)
qed

lemma ReadStream_packed:
  assumes "zstd_ok X" "zstd_bound X" "gcm_ok X" "hash_sizes_ok X" "packed_file X h ek r bs file input"
  shows "\<exists>t. ReadStream X ek file =
      Inr ((stored_header h)\<lparr>TableBytes := length t\<rparr>, sizes_of bs, map fst (items_of bs), frames_of bs) \<and>
    0 < length t \<and> file = crom_file h (sizes_of bs) t @ frames_of bs"
  using ReadStream_appended [OF assms, of "[]"] by simp

lemma open_block_data_stored:
  "Version3 \<le> Version h \<Longrightarrow> Version h \<le> Version8 \<Longrightarrow>
   open_block_data X ((stored_header h)\<lparr>TableBytes := n\<rparr>) ek r f = open_block_data X h ek r f"
  by (simp add: open_block_data_def stored_fields)

text \<open>The pool of a packed file is rebuilt to the input, whatever follows it in the stream.\<close>

lemma unpack_pool_packed:
  assumes p: "packed_blocks X h ek r bs input" and h: "Version3 \<le> Version h" "Version h \<le> Version8"
  shows "unpack_pool X ((stored_header h)\<lparr>TableBytes := n\<rparr>) ek r (sizes_of bs) (map fst (items_of bs))
      (frames_of bs @ tail) = Inr input"
proof -
  let ?h = "(stored_header h)\<lparr>TableBytes := n\<rparr>"
  have v: "Version2 \<le> Version ?h" using h by (simp add: stored_fields) (simp add: version_defs word_le_nat_alt)
  have l: "laid_out r 0 (items_of bs)" "frames_ok X ?h ek r bs" "length (pool_of (items_of bs)) < 2 ^ 63"
    "content_of (items_of bs) = input"
    using p h by (simp_all add: packed_blocks_def frames_ok_def open_block_data_stored)
  have "BlockStarts (concat (entry_blocks bs)) = starts_of 0 (entry_blocks bs)"
    using l(1) p by (intro BlockStarts_packed [of _ r]) (auto simp: packed_blocks_def laid_out_decodes)
  moreover have "unpack_blocks X ?h ek r (concat (entry_blocks bs)) (starts_of 0 (entry_blocks bs)) 0 0 0
      (sizes_of bs) (frames_of bs @ tail) = Inr input"
    using unpack_blocks_laid [of X ?h ek r bs 0 "[]" tail] l by simp
  ultimately show ?thesis
    using v by (simp add: unpack_pool_def concat_entry_blocks)
qed

lemma packed_count: "packed_file X h ek r bs crom input \<Longrightarrow> ChunkCount h \<noteq> 0"
proof -
  assume p: "packed_file X h ek r bs crom input"
  then have b: "packed_blocks X h ek r bs input" and h: "packed_header X h bs input" by (simp_all add: packed_file_def)
  have "table_fits (map fst (items_of bs))" using b by (simp add: packed_blocks_def)
  then have "unat (ChunkCount h) = length (items_of bs)"
    using h unat_of_nat_lt [of "length (items_of bs)", where 'a = 32]
    by (simp add: packed_header_def table_fits_def wf_table_def)
  then show ?thesis using packed_blocks_nonempty(1) [OF b] by auto
qed

lemma UnpackBytes_packed:
  assumes X: "zstd_ok X" "zstd_bound X" "gcm_ok X" "hash_sizes_ok X"
    and p: "packed_file X h (uEncryptionKey opts) r bs file input" and cb: "OpenFromBytes codebookData = Inr r"
  shows "UnpackBytes X file codebookData opts = Inr input"
proof -
  let ?ek = "uEncryptionKey opts"
  obtain n where rd: "ReadStream X ?ek file =
      Inr ((stored_header h)\<lparr>TableBytes := n\<rparr>, sizes_of bs, map fst (items_of bs), frames_of bs)"
    using ReadStream_packed [OF X p] by blast
  have b: "packed_blocks X h ?ek r bs input" and h: "packed_header X h bs input"
    using p by (simp_all add: packed_file_def)
  have v: "Version3 \<le> Version h" "Version h \<le> Version8" using h by (simp_all add: packed_header_def)
  note c0 = packed_count [OF p]
  have "length input \<le> 2 ^ 50" using b by (auto simp: packed_blocks_def)
  then have "unat (OriginalSize h) < 2 ^ 63"
    using h unat_of_nat_lt [of "length input", where 'a = 64] by (simp add: packed_header_def)
  then have g: "grow (of_nat (length input)) = Inr ()"
    using h by (simp add: grow_def word_le_nat_alt not_le packed_header_def)
  show ?thesis
    using unpack_pool_packed [OF b v, of n "[]"] c0 h
    by (simp add: UnpackBytes_def crom_file_nonempty [OF p] cb rd stored_fields [OF v] g packed_header_def)
qed

lemma UnpackBytes_integrity:
  assumes "UnpackBytes X file codebookData opts = Inr out" "Fuzziness opts = 0"
    "ReadStream X (uEncryptionKey opts) file = Inr (h, bt, es, s)" "\<not> IsLossy h" "\<not> IsPassthrough h" "ChunkCount h \<noteq> 0"
  shows "sha256 X out = OriginalHash h"
  using assms by (auto simp: UnpackBytes_def rbind_Inr_iff split: if_splits)

section \<open>Properties\<close>

text \<open>
  The bound check of the unpacker does not protect the slice: an entry whose offset lies
  before its block passes it, because the end of its residual wraps to a small number, and
  the slice expression panics. Only files with a tampered table contain such an entry.
\<close>

lemma unpack_offset_wrap_panics:
  assumes "0 < k" "k \<le> unat sz" "unat sz - k \<le> length block" "length block < 2 ^ 63" "k \<le> g"
  shows "unpack_entries cb (of_nat g) block
     (\<lparr>CodebookID = cid, DeltaOffset = of_nat (g - k), DeltaSize = sz, EOriginalSize = n, CodebookIndex = i\<rparr> # es)
   = Inl GoPanic"
proof -
  have sz: "unat sz < 2 ^ 32" using unat_lt [of sz] by simp
  have "(of_nat (2 ^ 64 - k) :: u64) = of_nat (2 ^ 64) - of_nat k"
    using assms(2) sz by (intro of_nat_diff) simp
  also have "\<dots> = - of_nat k" by simp
  finally have neg: "- (of_nat k :: u64) = of_nat (2 ^ 64 - k)" by (rule sym)
  have lo: "(of_nat (g - k) :: u64) - of_nat g = of_nat (2 ^ 64 - k)"
    unfolding neg [symmetric] using assms(5) by (simp add: of_nat_diff)
  have "(of_nat (2 ^ 64 - k) :: u64) + ucast sz = of_nat (unat sz) - of_nat k"
    unfolding neg [symmetric] by simp
  also have "\<dots> = of_nat (unat sz - k)" using assms(2) by (simp add: of_nat_diff)
  finally have hi: "(of_nat (2 ^ 64 - k) :: u64) + ucast sz = of_nat (unat sz - k)" .
  have u: "unat (of_nat (unat sz - k) :: u64) = unat sz - k" "unat (of_nat (2 ^ 64 - k) :: u64) = 2 ^ 64 - k"
    "unat (of_nat (length block) :: u64) = length block"
    using sz assms by (intro unat_of_nat_lt; simp)+
  have fits: "\<not> (of_nat (length block) :: u64) < of_nat (unat sz - k)"
    unfolding word_less_nat_alt u using assms(3) by simp
  have "gslice block (unat (of_nat (2 ^ 64 - k) :: u64)) (unat (of_nat (unat sz - k) :: u64)) = Inl GoPanic"
    unfolding u gslice_def using sz assms(1,2) by auto
  with fits show ?thesis
    unfolding unpack_entries.simps Let_def ChunkEntry.select_convs lo hi by simp
qed

end
