(* ===== verification/Pack_Bytes.thy ===== *)
theory Pack_Bytes
  imports Unpacker Aligned Entropy
begin

text \<open>
  \<^verbatim>\<open>pkg/cromlib/pack_bytes.go\<close>: compressing a file in memory against one codebook. The
  definitions follow \<open>PackBytes\<close> step by step; the main theorem is that \<open>UnpackBytes\<close>
  returns the input for everything \<open>PackBytes\<close> writes in the lossless mode.
\<close>

section \<open>Options and metrics\<close>

record PackOptions =
  Mode :: string
  CodebookPaths :: "string list"
  Concurrency :: int
  EncryptionKey :: bytes
  UseConvergentEncryption :: bool
  GlobalSecret :: bytes
  oChunkSize :: int
  UseCDC :: bool
  UseACAC :: bool
  ACACDelimiter :: byte
  MultiPass :: bool
  MaxCompression :: bool
  EmbedBrain :: bool

text \<open>The metrics that are values of the input; durations are not modelled.\<close>

record Metrics =
  mOriginalSize :: u64
  mPackedSize :: u64
  HitRate :: real
  LiteralChunks :: nat
  MostFrequentLiteral :: u64
  LiteralRepetitions :: nat
  SuggestedMicroBrain :: bool
  TotalChunks :: nat
  AvgSimilarity :: real
  mEntropy :: real

definition minNearMatchSimilarity :: real where "minNearMatchSimilarity = 90 / 100"

section \<open>Encoding one chunk\<close>

text \<open>
  The variables of the loop: the entries so far, the pool of the current block, the offset in
  the concatenation of all pools, the searcher and the counters.
\<close>

record PackState =
  psEntries :: "ChunkEntry list"
  psPool :: bytes
  psOffset :: u64
  psSearcher :: LSHSearcher
  psHits :: nat
  psLiterals :: nat
  psSimilarity :: real

definition literal_entry :: "Chunk \<Rightarrow> ChunkEntry" where
  "literal_entry chunk =
     \<lparr>CodebookID = LiteralCodebookID, DeltaOffset = 0, DeltaSize = of_nat (length (cData chunk)),
      EOriginalSize = cSize chunk, CodebookIndex = LiteralCodebookIndex\<rparr>"

text \<open>Append an entry at the current offset and its residual.\<close>

definition push_entry :: "ChunkEntry \<Rightarrow> bytes \<Rightarrow> PackState \<Rightarrow> PackState" where
  "push_entry e rs st =
     st\<lparr>psEntries := psEntries st @ [e\<lparr>DeltaOffset := psOffset st\<rparr>], psPool := psPool st @ rs,
        psOffset := psOffset st + of_nat (length rs)\<rparr>"

definition push_literal :: "Chunk \<Rightarrow> PackState \<Rightarrow> PackState" where
  "push_literal chunk st =
     (push_entry (literal_entry chunk) (cData chunk) st)\<lparr>psLiterals := psLiterals st + 1\<rparr>"

text \<open>The residual and the identifier for the best match, and whether it counts as a literal.\<close>

definition match_residual :: "string \<Rightarrow> bytes \<Rightarrow> MatchResult \<Rightarrow> real \<Rightarrow> bytes \<times> u64 \<times> nat" where
  "match_residual mode data m sim =
     (let usablePattern = (if length data < length (mPattern m) then take (length data) (mPattern m) else mPattern m) in
      if data = usablePattern then ([], mCodebookID m, 0)
      else if sim < minNearMatchSimilarity \<and> mode \<noteq> ''edge'' then (data, LiteralCodebookID, 1)
      else if mode = ''edge'' then ([], mCodebookID m, 0)
      else (XOR_delta data usablePattern, mCodebookID m, 0))"

definition push_match :: "string \<Rightarrow> Chunk \<Rightarrow> MatchResult \<Rightarrow> PackState \<Rightarrow> PackState" where
  "push_match mode chunk m st =
     (let sim = Similarity m (length (cData chunk) * 8);
          (residual, codeID, lits) = match_residual mode (cData chunk) m sim;
          e = \<lparr>CodebookID = codeID, DeltaOffset = 0, DeltaSize = of_nat (length residual),
               EOriginalSize = cSize chunk, CodebookIndex = 0\<rparr>
      in (push_entry e residual st)
           \<lparr>psLiterals := psLiterals st + lits,
            psHits := psHits st + (if 95 / 100 \<le> sim then 1 else 0),
            psSimilarity := psSimilarity st + sim\<rparr>)"

definition push_exact :: "Chunk \<Rightarrow> u64 \<Rightarrow> PackState \<Rightarrow> PackState" where
  "push_exact chunk cid st =
     (push_entry \<lparr>CodebookID = cid, DeltaOffset = 0, DeltaSize = 0, EOriginalSize = cSize chunk, CodebookIndex = 0\<rparr>
        [] st)\<lparr>psHits := psHits st + 1, psSimilarity := psSimilarity st + 1\<rparr>"

definition pack_chunk :: "ext \<Rightarrow> bool \<Rightarrow> string \<Rightarrow> nat \<Rightarrow> Chunk \<Rightarrow> PackState \<Rightarrow> PackState res" where
  "pack_chunk X wide mode chunkSize chunk st =
     rbind (FindExact X (psSearcher st) (cData chunk)) (\<lambda>hit.
       case hit of
         Some cid \<Rightarrow> Inr (push_exact chunk cid st)
       | None \<Rightarrow>
           if mode \<noteq> ''edge'' \<and> (AlignedMinCodewordSize \<le> chunkSize \<or> 78 / 10 < Shannon (cData chunk))
           then Inr (push_literal chunk st)
           else
             (case LSH_FindBestMatch wide (psSearcher st) (cData chunk) of
                (Inl GoPanic, _) \<Rightarrow> Inl GoPanic
              | (Inl (GoErr _), ls) \<Rightarrow> Inr (push_literal chunk (st\<lparr>psSearcher := ls\<rparr>))
              | (Inr m, ls) \<Rightarrow> Inr (push_match mode chunk m (st\<lparr>psSearcher := ls\<rparr>))))"

fun pack_chunks :: "ext \<Rightarrow> bool \<Rightarrow> string \<Rightarrow> nat \<Rightarrow> Chunk list \<Rightarrow> PackState \<Rightarrow> PackState res" where
  "pack_chunks X wide mode chunkSize [] st = Inr st"
| "pack_chunks X wide mode chunkSize (c # cs) st =
     rbind (pack_chunk X wide mode chunkSize c st) (pack_chunks X wide mode chunkSize cs)"

section \<open>Encoding the blocks\<close>

text \<open>
  The chunker: fixed chunks of the codeword size, or the aligned chunker from 1024 bytes on.
  The adaptive size that the source computes first is overwritten by the codeword size.
\<close>

definition pack_split :: "ext \<Rightarrow> Reader \<Rightarrow> nat \<Rightarrow> bytes \<Rightarrow> Chunk list res" where
  "pack_split X cb chunkSize data =
     (if AlignedMinCodewordSize \<le> chunkSize
      then rbind (NewAlignedChunker cb) (\<lambda>ac. AlignedChunker_Split X ac data)
      else FixedChunker_Split (xxhash X) (NewFixedChunker (int chunkSize)) data)"

function pack_blocks ::
  "ext \<Rightarrow> bool \<Rightarrow> string \<Rightarrow> Reader \<Rightarrow> nat \<Rightarrow> bytes \<Rightarrow> nat \<Rightarrow> PackState \<Rightarrow> (bytes list \<times> PackState) res" where
  "pack_blocks X wide mode cb chunkSize input blockStart st =
     (if blockStart < length input then
        (let blockEnd = (if length input < blockStart + BlockSize then length input else blockStart + BlockSize) in
         rbind (pack_split X cb chunkSize (slice input blockStart blockEnd)) (\<lambda>chunks.
         rbind (pack_chunks X wide mode chunkSize chunks (st\<lparr>psPool := []\<rparr>)) (\<lambda>st.
         rbind (Dictionary cb) (\<lambda>dict.
         rbind (wrap_err ''packbytes: compress pool'' (CompressPoolDict X (psPool st) dict)) (\<lambda>compressedPool.
         rbind (pack_blocks X wide mode cb chunkSize input (blockStart + BlockSize) st) (\<lambda>(blocks, st).
           Inr (compressedPool # blocks, st)))))))
      else Inr ([], st))"
  by pat_completeness auto
termination
  by (relation "measure (\<lambda>(X, wide, mode, cb, n, input, start, st). length input - start)")
    (auto simp: BlockSize_def)

declare pack_blocks.simps [simp del]

section \<open>The file\<close>

definition pack_header :: "ext \<Rightarrow> string \<Rightarrow> Reader \<Rightarrow> nat \<Rightarrow> bytes \<Rightarrow> nat \<Rightarrow> Header" where
  "pack_header X mode cb chunkSize input numEntries =
     zero_header\<lparr>Version := Version5, IsLossy := (mode = ''edge''), UsesBrainDict := True,
       OriginalSize := of_nat (length input), ChunkCount := of_nat numEntries, ChunkSize := of_nat chunkSize,
       OriginalHash := gcopy (zeros 32) 0 32 (sha256 X input),
       CodebookHash := gcopy (zeros 8) 0 8 (slice (BuildHash (rHeader cb)) 0 8), CompressedTable := True\<rparr>"

definition pack_metrics :: "bytes \<Rightarrow> real \<Rightarrow> bytes \<Rightarrow> PackState \<Rightarrow> Metrics" where
  "pack_metrics input eScore out st =
     (let totalChunks = length (psEntries st) in
      \<lparr>mOriginalSize = of_nat (length input), mPackedSize = of_nat (length out),
       HitRate = real (psHits st) / real totalChunks * 100, LiteralChunks = psLiterals st,
       MostFrequentLiteral = 0, LiteralRepetitions = 0, SuggestedMicroBrain = False, TotalChunks = totalChunks,
       AvgSimilarity = (if 0 < totalChunks then psSimilarity st / real totalChunks else 0), mEntropy = eScore\<rparr>)"

definition PackBytes :: "ext \<Rightarrow> bool \<Rightarrow> bytes \<Rightarrow> bytes \<Rightarrow> PackOptions \<Rightarrow> (bytes \<times> Metrics) res" where
  "PackBytes X wide input codebookData opts =
     (if input = [] then Inl (GoErr ''packbytes: empty input'')
      else
        (let eScore = Shannon (take (min (length input) 65536) input) in
         rbind (wrap_err ''packbytes: open codebook'' (OpenFromBytes codebookData)) (\<lambda>cb.
         rbind (NewLSHSearcher X cb) (\<lambda>searcher.
           let chunkSize = unat (CodewordSize (rHeader cb));
               st = \<lparr>psEntries = [], psPool = [], psOffset = 0, psSearcher = searcher, psHits = 0, psLiterals = 0,
                     psSimilarity = 0\<rparr>
           in rbind (pack_blocks X wide (Mode opts) cb chunkSize input 0 st) (\<lambda>(blocks, st).
              let header = pack_header X (Mode opts) cb chunkSize input (length (psEntries st));
                  (headerBytes, header) = Serialize header
              in rbind (wrap_err ''packbytes: encode chunk table''
                          (EncodeCompressedTable X [] (psEntries st) (Version header) None)) (\<lambda>tableData.
                 let out = headerBytes @ concat (map (\<lambda>b. le_bytes 4 (of_nat (length b) :: u32)) blocks) @
                           tableData @ concat blocks
                 in Inr (out, pack_metrics input eScore out st)))))))"

section \<open>Every chunk is decodable\<close>

text \<open>
  What encoding a chunk does to the state: one entry and its residual are appended, and
  together they decode to the chunk.
\<close>

definition pack_step :: "Reader \<Rightarrow> bytes \<Rightarrow> PackState \<Rightarrow> PackState \<Rightarrow> bool" where
  "pack_step r data st st' \<longleftrightarrow>
     (\<exists>e rs. psEntries st' = psEntries st @ [e] \<and> psPool st' = psPool st @ rs \<and>
        psOffset st' = psOffset st + of_nat (length rs) \<and> DeltaOffset e = psOffset st \<and>
        decodes r (e, rs, data) \<and> length rs \<le> length data \<and> lsh_for r (psSearcher st'))"

definition small_ids :: "Reader \<Rightarrow> bool" where
  "small_ids r \<longleftrightarrow> unat (CodewordCount (rHeader r)) \<le> 2 ^ 60"

lemma named_small: "small_ids r \<Longrightarrow> named r cid p \<Longrightarrow> small_id cid"
  by (simp add: small_ids_def small_id_def named_def word_less_nat_alt)

definition good_chunk :: "Chunk \<Rightarrow> bool" where
  "good_chunk c \<longleftrightarrow> cData c \<noteq> [] \<and> length (cData c) < 2 ^ 32 \<and> cSize c = of_nat (length (cData c))"

lemma decodes_named:
  assumes r: "wf_reader r" "small_ids r" "named r cid p" and c: "good_chunk c"
    and e: "CodebookID e = cid" "CodebookIndex e \<noteq> FractalCodebookIndex" "EOriginalSize e = cSize c"
      "DeltaSize e = of_nat (length rs)"
    and rs: "length rs \<le> length (cData c)" "Apply (take (length (cData c)) p) rs = cData c"
  shows "decodes r (e, rs, cData c)"
  using assms named_small [OF r(2,3)]
  by (intro decodes_codeword [of r cid]) (auto simp: named_def good_chunk_def)

lemma take_pattern: "(if length data < length p then take (length data) p else p) = take (length data) p"
  by simp

lemma FractalCodebookIndex_neq [simp]: "0 \<noteq> FractalCodebookIndex" "LiteralCodebookIndex \<noteq> FractalCodebookIndex"
  by (simp_all add: FractalCodebookIndex_def LiteralCodebookIndex_def)

lemma push_exact_step:
  assumes "wf_reader r" "small_ids r" "named r cid (cData c)" "good_chunk c" "lsh_for r (psSearcher st)"
  shows "pack_step r (cData c) st (push_exact c cid st)"
  unfolding pack_step_def push_exact_def push_entry_def
  using assms by (auto intro!: decodes_named [OF assms(1-4)] simp: Apply_def)

lemma push_literal_step:
  assumes "good_chunk c" "lsh_for r (psSearcher st)"
  shows "pack_step r (cData c) st (push_literal c st)"
  unfolding pack_step_def push_literal_def push_entry_def literal_entry_def
  using assms by (auto intro!: decodes_literal simp: good_chunk_def)

lemma push_match_step:
  assumes "wf_reader r" "small_ids r" "named r (mCodebookID m) (mPattern m)" "good_chunk c"
    "lsh_for r (psSearcher st)" "mode \<noteq> ''edge''"
  shows "pack_step r (cData c) st (push_match mode c m st)"
proof -
  define u where "u = take (length (cData c)) (mPattern m)"
  define sim where "sim = Similarity m (length (cData c) * 8)"
  have res: "match_residual mode (cData c) m sim =
      (if cData c = u then ([], mCodebookID m, 0)
       else if sim < minNearMatchSimilarity then (cData c, LiteralCodebookID, 1)
       else (XOR_delta (cData c) u, mCodebookID m, 0))"
    using assms(6) by (simp add: match_residual_def take_pattern u_def)
  note defs = pack_step_def push_match_def push_entry_def Let_def sim_def [symmetric] res
  consider (equal) "cData c = u" | (literal) "cData c \<noteq> u" "sim < minNearMatchSimilarity"
    | (delta) "cData c \<noteq> u" "\<not> sim < minNearMatchSimilarity" by blast
  then show ?thesis
  proof cases
    case equal
    then have "Apply u [] = cData c" by (simp add: Apply_def)
    with equal assms show ?thesis
      by (auto simp: defs u_def intro!: decodes_named [OF assms(1-4)])
  next
    case literal
    with assms(4,5) show ?thesis by (auto simp: defs good_chunk_def intro!: decodes_literal)
  next
    case delta
    have "Apply u (XOR_delta (cData c) u) = cData c"
      using assms(4) by (intro Apply_XOR) (simp add: good_chunk_def)
    with delta assms show ?thesis
      by (auto simp: defs u_def intro!: decodes_named [OF assms(1-4)])
  qed
qed

lemma pack_chunk_step:
  assumes r: "wf_reader r" "small_ids r" and c: "good_chunk c" and l: "lsh_for r (psSearcher st)" and mode: "mode \<noteq> ''edge''"
  shows "\<exists>st'. pack_chunk X wide mode n c st = Inr st' \<and> pack_step r (cData c) st st'"
proof -
  obtain hit where hit: "FindExact X (psSearcher st) (cData c) = Inr hit"
    "\<And>cid. hit = Some cid \<Longrightarrow> named r cid (cData c)"
    using FindExact_sound [OF lsh_for_core [OF l]] by blast
  have "searchable (cData c)" using c by (simp add: searchable_def good_chunk_def)
  then obtain m where m: "fst (LSH_FindBestMatch wide (psSearcher st) (cData c)) = Inr m" "good_match r m"
    "lsh_for r (snd (LSH_FindBestMatch wide (psSearcher st) (cData c)))"
    using LSH_FindBestMatch_ok [OF l] by blast
  then obtain ls where f: "LSH_FindBestMatch wide (psSearcher st) (cData c) = (Inr m, ls)" "lsh_for r ls"
    by (cases "LSH_FindBestMatch wide (psSearcher st) (cData c)") auto
  have step: "pack_step r (cData c) st (push_match mode c m (st\<lparr>psSearcher := ls\<rparr>))"
    using push_match_step [of r m c "st\<lparr>psSearcher := ls\<rparr>" mode] r c f(2) m(2) mode
    by (simp add: good_match_def pack_step_def)
  show ?thesis
  proof (cases hit)
    case (Some cid)
    with hit show ?thesis
      using push_exact_step [OF r _ c l] by (auto simp: pack_chunk_def)
  next
    case None
    show ?thesis
    proof (cases "AlignedMinCodewordSize \<le> n \<or> 78 / 10 < Shannon (cData c)")
      case True
      with None hit(1) mode show ?thesis using push_literal_step [OF c l] by (simp add: pack_chunk_def)
    next
      case False
      with None hit(1) f(1) step show ?thesis by (simp add: pack_chunk_def)
    qed
  qed
qed

text \<open>A run of chunks gives a run of items laid out from the current offset.\<close>

definition pack_run :: "Reader \<Rightarrow> nat \<Rightarrow> bytes \<Rightarrow> nat \<Rightarrow> PackState \<Rightarrow> PackState \<Rightarrow> item list \<Rightarrow> bool" where
  "pack_run r off data n st st' its \<longleftrightarrow>
     psEntries st' = psEntries st @ map fst its \<and> psPool st' = psPool st @ pool_of its \<and>
     psOffset st' = of_nat (off + length (pool_of its)) \<and> laid_out r off its \<and> content_of its = data \<and>
     length (pool_of its) \<le> length data \<and> length its = n \<and> lsh_for r (psSearcher st')"

lemma pack_chunks_run:
  assumes r: "wf_reader r" "small_ids r" and mode: "mode \<noteq> ''edge''"
  shows "list_all good_chunk cs \<Longrightarrow> lsh_for r (psSearcher st) \<Longrightarrow> psOffset st = of_nat off \<Longrightarrow>
    \<exists>st' its. pack_chunks X wide mode n cs st = Inr st' \<and>
      pack_run r off (concat (map cData cs)) (length cs) st st' its"
proof (induction cs arbitrary: st off)
  case Nil
  then show ?case by (auto simp: pack_run_def intro!: exI [of _ "[]"])
next
  case (Cons c cs)
  obtain st1 where st1: "pack_chunk X wide mode n c st = Inr st1" "pack_step r (cData c) st st1"
    using pack_chunk_step [OF r _ Cons.prems(2) mode] Cons.prems(1) by fastforce
  obtain e rs where e: "psEntries st1 = psEntries st @ [e]" "psPool st1 = psPool st @ rs"
    "psOffset st1 = psOffset st + of_nat (length rs)" "DeltaOffset e = psOffset st"
    "decodes r (e, rs, cData c)" "length rs \<le> length (cData c)" "lsh_for r (psSearcher st1)"
    using st1(2) unfolding pack_step_def by blast
  have "psOffset st1 = of_nat (off + length rs)" using e(3) Cons.prems(3) by simp
  then obtain st' its where its: "pack_chunks X wide mode n cs st1 = Inr st'"
    "pack_run r (off + length rs) (concat (map cData cs)) (length cs) st1 st' its"
    using Cons.IH [OF _ e(7)] Cons.prems(1) by fastforce
  have "pack_run r off (concat (map cData (c # cs))) (length (c # cs)) st st' ((e, rs, cData c) # its)"
    using its(2) e Cons.prems(3) by (auto simp: pack_run_def add.assoc)
  with st1(1) its(1) show ?case by auto
qed

lemma chunker_good:
  assumes ch: "chunker (xxhash X) returns lo hi" and data: "length data < 2 ^ 32"
  shows "\<exists>cs. returns data cs \<and> concat (map cData cs) = data \<and> list_all good_chunk cs \<and> length cs \<le> length data"
proof -
  obtain cs where cs: "returns data cs" using chunker.total [OF ch] by blast
  have "good_chunk c" if c: "c \<in> set cs" for c
  proof -
    have "length (cData c) \<le> length (concat (map cData cs))"
      using c by (induction cs) auto
    also have "\<dots> = length data" using chunker.reassembles [OF ch cs] by (simp add: Reassemble_concat)
    finally show ?thesis
      using chunker.nonempty [OF ch cs c] chunker.chunk_fields [OF ch cs c] data by (simp add: good_chunk_def)
  qed
  with cs chunker.reassembles [OF ch cs] chunker.chunk_count [OF ch cs] show ?thesis
    by (auto simp: Reassemble_concat list_all_iff)
qed

lemma pack_split_ok:
  assumes r: "wf_reader r" and data: "length data < 2 ^ 32"
  shows "\<exists>cs. pack_split X r (cw_size r) data = Inr cs \<and> concat (map cData cs) = data \<and>
    list_all good_chunk cs \<and> length cs \<le> length data"
proof -
  note good = chunker_good [where X = X, OF _ data]
  show ?thesis
  proof (cases "AlignedMinCodewordSize \<le> cw_size r")
    case True
    obtain ac where ac: "NewAlignedChunker r = Inr ac" "aligned_for r ac" using NewAlignedChunker_ok [OF r] by blast
    with True show ?thesis using good [OF aligned_chunker [OF r ac(2)]] by (simp add: pack_split_def)
  next
    case False
    then show ?thesis
      using good [OF fixed_chunker.chunker_axioms [of "xxhash X" "int (cw_size r)"]] by (simp add: pack_split_def)
  qed
qed

section \<open>Every block is decodable\<close>

definition pack_result :: "Reader \<Rightarrow> nat \<Rightarrow> bytes \<Rightarrow> PackState \<Rightarrow> PackState \<Rightarrow> packed \<Rightarrow> bool" where
  "pack_result r off data st st' bs \<longleftrightarrow>
     psEntries st' = psEntries st @ map fst (items_of bs) \<and> laid_out r off (items_of bs) \<and>
     content_of (items_of bs) = data \<and> full_blocks bs \<and> (bs = [] \<longleftrightarrow> data = []) \<and>
     length (pool_of (items_of bs)) \<le> length data \<and> length (items_of bs) \<le> length data"

definition compressed_by :: "(bytes \<Rightarrow> bytes res) \<Rightarrow> packed \<Rightarrow> bool" where
  "compressed_by f bs \<longleftrightarrow> (\<forall>(its, z) \<in> set bs. f (pool_of its) = Inr z \<and> length (pool_of its) \<le> BlockSize)"

lemma pack_blocks_packed:
  assumes r: "wf_reader r" "small_ids r" and mode: "mode \<noteq> ''edge''" and dict: "Dictionary r = Inr dict"
  shows "lsh_for r (psSearcher st) \<Longrightarrow> psOffset st = of_nat off \<Longrightarrow>
    \<exists>bs st'. pack_blocks X wide mode r (cw_size r) input start st = Inr (map snd bs, st') \<and>
      pack_result r off (drop start input) st st' bs \<and> compressed_by (\<lambda>p. CompressPoolDict X p dict) bs"
proof (induction "length input - start" arbitrary: start st off rule: less_induct)
  case less
  show ?case
  proof (cases "start < length input")
    case False
    then show ?thesis
      by (subst pack_blocks.simps)
        (auto simp: pack_result_def compressed_by_def intro!: exI [of _ "[] :: packed"])
  next
    case True
    define stop where "stop = (if length input < start + BlockSize then length input else start + BlockSize)"
    define data where "data = slice input start stop"
    have stop: "start < stop" "stop \<le> length input" "stop - start \<le> BlockSize"
      using True by (auto simp: stop_def BlockSize_def)
    have len: "length data = stop - start" using stop by (simp add: data_def)
    then have "length data < 2 ^ 32" using stop(3) by (simp add: BlockSize_def)
    then obtain cs where cs: "pack_split X r (cw_size r) data = Inr cs" "concat (map cData cs) = data"
      "list_all good_chunk cs" "length cs \<le> length data"
      using pack_split_ok [OF r(1)] by blast
    obtain st1 its where st1: "pack_chunks X wide mode (cw_size r) cs (st\<lparr>psPool := []\<rparr>) = Inr st1"
      "pack_run r off data (length cs) (st\<lparr>psPool := []\<rparr>) st1 its"
      using pack_chunks_run [OF r mode cs(3), of "st\<lparr>psPool := []\<rparr>" off X wide "cw_size r"] less.prems cs(2) by auto
    note run = st1(2) [unfolded pack_run_def]
    have pool: "psPool st1 = pool_of its" "length (pool_of its) \<le> BlockSize" "length its \<le> length data"
      using run len stop(3) cs(4) by auto
    obtain z where z: "CompressPoolDict X (pool_of its) dict = Inr z"
      by (cases "pool_of its = []") (auto simp: CompressPoolDict_def)
    have dec: "length input - (start + BlockSize) < length input - start" using True by (simp add: BlockSize_def)
    obtain bs st' where bs: "pack_blocks X wide mode r (cw_size r) input (start + BlockSize) st1 = Inr (map snd bs, st')"
      "pack_result r (off + length (pool_of its)) (drop (start + BlockSize) input) st1 st' bs"
      "compressed_by (\<lambda>p. CompressPoolDict X p dict) bs"
      using less.hyps [OF dec, of st1 "off + length (pool_of its)"] run by auto
    have eq: "pack_blocks X wide mode r (cw_size r) input start st = Inr (map snd ((its, z) # bs), st')"
      using True cs(1) st1(1) dict pool(1) z bs(1)
      by (subst pack_blocks.simps) (simp flip: stop_def data_def)
    have split: "drop start input = data @ drop (start + BlockSize) input"
      using append_take_drop_id [of BlockSize "drop start input"] True
      by (auto simp: data_def stop_def slice_def add.commute)
    have "drop (start + BlockSize) input = [] \<or> length data = BlockSize"
      using len by (auto simp: stop_def)
    then have "full_blocks ((its, z) # bs)"
      using bs(2) run len stop by (auto simp: full_blocks_Cons pack_result_def)
    then have "pack_result r off (drop start input) st st' ((its, z) # bs)"
      using bs(2) run pool(3) split len stop
      by (auto simp: pack_result_def laid_out_append)
    moreover have "compressed_by (\<lambda>p. CompressPoolDict X p dict) ((its, z) # bs)"
      using bs(3) z pool(2) by (simp add: compressed_by_def)
    ultimately show ?thesis using eq by blast
  qed
qed

lemma compressed_frames:
  assumes X: "zstd_ok X" "zstd_bound X" and h: "\<not> IsEncrypted h" "UsesBrainDict h" and dict: "Dictionary r = Inr dict"
    and bs: "compressed_by (\<lambda>p. CompressPoolDict X p dict) bs"
  shows "frames_ok X h ek r bs"
proof -
  have "open_block_data X h ek r z = Inr (pool_of its) \<and> length z < 2 ^ 32" if "(its, z) \<in> set bs" for its z
  proof -
    have z: "CompressPoolDict X (pool_of its) dict = Inr z" "length (pool_of its) \<le> BlockSize"
      using that bs by (auto simp: compressed_by_def)
    have "length z \<le> length (pool_of its) + length (pool_of its) div 256 + 64"
      using z(1) X(2) by (auto simp: CompressPoolDict_def zstd_bound_def split: if_splits)
    with z(2) have "length z < 2 ^ 32" by (simp add: BlockSize_def)
    then show ?thesis
      using DecompressPoolDict_CompressPoolDict [OF X(1) z(1)] h dict by (simp add: open_block_data_def)
  qed
  then show ?thesis by (auto simp: frames_ok_def)
qed

section \<open>The round trip\<close>

lemma pack_header_packed:
  assumes "hash_sizes_ok X" "wf_reader r" "mode \<noteq> ''edge''"
  shows "packed_header X (pack_header X mode r n input (length (items_of bs))) bs input"
    "\<not> IsEncrypted (pack_header X mode r n input k)" "UsesBrainDict (pack_header X mode r n input k)"
proof -
  have "length (BuildHash (rHeader r)) = 32" using assms(2) by (simp add: wf_reader_def wf_cb_header_def)
  then have "length (gcopy (zeros 8) 0 8 (slice (BuildHash (rHeader r)) 0 8)) = 8"
    by (simp add: gcopy_def buffer_simps)
  moreover have "gcopy (zeros 32) 0 32 (sha256 X input) = sha256 X input"
    using assms(1) by (simp add: gcopy_def put_def hash_sizes)
  ultimately show "packed_header X (pack_header X mode r n input (length (items_of bs))) bs input"
    using assms(1)
    by (simp add: packed_header_def pack_header_def wf_header_def zero_header_def MaxMicroDictSize_def version_defs
        hash_sizes)
qed (simp_all add: pack_header_def zero_header_def)

text \<open>
  The size condition: a table of this many entries fits its 32-bit length field even if no
  entry compresses.
\<close>

lemma decodes_id: "decodes r it \<Longrightarrow> CodebookID (fst it) = LiteralCodebookID \<or> unat (CodebookID (fst it)) < 2 ^ 62"
  by (auto simp: decodes_def split: if_splits)

lemma table_fits_small:
  assumes "\<forall>it \<in> set its. decodes r it" "length its < 2 ^ 27"
  shows "table_fits (map fst its)"
  using assms decodes_id [of r] by (fastforce simp: table_fits_def wf_table_def)

lemma PackBytes_packed:
  assumes X: "zstd_ok X" "zstd_bound X" "hash_sizes_ok X"
    and cb: "OpenFromBytes codebookData = Inr r" "wf_reader r" "small_ids r" "CodewordCount (rHeader r) \<noteq> 0"
    and input: "input \<noteq> []" "length input < 2 ^ 27" and mode: "Mode opts \<noteq> ''edge''"
  shows "\<exists>out m h bs. PackBytes X wide input codebookData opts = Inr (out, m) \<and> packed_file X h ek r bs out input \<and>
    \<not> IsLossy h \<and> MicroDictSize h = 0 \<and> TotalChunks m = length (items_of bs) \<and> mPackedSize m = of_nat (length out)"
proof -
  obtain ls where ls: "NewLSHSearcher X r = Inr ls" "lsh_for r ls" using NewLSHSearcher_ok [OF cb(2,4)] by blast
  obtain dict where dict: "Dictionary r = Inr dict" using Dictionary_ok [OF cb(2)] by blast
  let ?st = "\<lparr>psEntries = [], psPool = [], psOffset = 0, psSearcher = ls, psHits = 0, psLiterals = 0,
      psSimilarity = 0\<rparr>"
  obtain bs st' where bs: "pack_blocks X wide (Mode opts) r (cw_size r) input 0 ?st = Inr (map snd bs, st')"
    "pack_result r 0 input ?st st' bs" "compressed_by (\<lambda>p. CompressPoolDict X p dict) bs"
    using pack_blocks_packed [OF cb(2,3) mode dict, of ?st 0 X wide input 0] ls(2) by auto
  define h where "h = pack_header X (Mode opts) r (cw_size r) input (length (items_of bs))"
  have es: "psEntries st' = map fst (items_of bs)" using bs(2) by (simp add: pack_result_def)
  have hdr: "packed_header X h bs input" "\<not> IsEncrypted h" "UsesBrainDict h" "\<not> IsLossy h" "MicroDictSize h = 0"
    unfolding h_def using pack_header_packed [OF X(3) cb(2) mode, of "cw_size r" input] mode
    by (auto simp: pack_header_def zero_header_def)
  have fr: "frames_ok X h ek r bs" by (rule compressed_frames [OF X(1,2) hdr(2,3) dict bs(3)])
  have dec: "\<forall>it \<in> set (items_of bs). decodes r it" using bs(2) by (auto simp: pack_result_def laid_out_decodes)
  have blk: "packed_blocks X h ek r bs input"
    using bs(2) fr input table_fits_small [OF dec] by (auto simp: packed_blocks_def pack_result_def)
  let ?t = "le_bytes 4 (of_nat (length (table_blob X [] (psEntries st') None)) :: u32) @ table_blob X [] (psEntries st') None"
  have t: "EncodeCompressedTable X nonce (psEntries st') v None = Inr ?t" for v nonce
    by (subst EncodeCompressedTable_layout) (simp_all add: table_blob_def)
  let ?out = "crom_file h (sizes_of bs) ?t @ frames_of bs"
  have pf: "packed_file X h ek r bs ?out input"
    unfolding packed_file_def file_key_def
    using hdr blk t es by (auto intro!: exI [of _ "zeros 12"] simp: NonceSize_def)
  have v: "Serialize h = (header_layout h, h)"
    using hdr(1) by (intro Serialize_layout) (auto simp: packed_header_def version_defs word_le_nat_alt)
  have "PackBytes X wide input codebookData opts = Inr (?out,
      pack_metrics input (Shannon (take (min (length input) 65536) input)) ?out st')"
    using input(1) cb(1) ls(1) bs(1) t es v
    by (simp add: PackBytes_def Let_def crom_file_def sizes_of_def frames_of_def comp_def flip: h_def)
  with pf hdr(4,5) es show ?thesis by (auto simp: pack_metrics_def Let_def)
qed

lemma opened_reader:
  assumes "OpenFromBytes codebookData = Inr r" "length codebookData < 2 ^ 60" "declared_size (rHeader r) < 2 ^ 64"
  shows "wf_reader r" "small_ids r"
proof -
  show wf: "wf_reader r" using OpenFromBytes_wf [OF assms(1) _ assms(3)] assms(2) by simp
  have "rData r = codebookData" using OpenFromBytes_wf [OF assms(1) _ assms(3)] assms(2) by simp
  then have a: "cw_size r * unat (CodewordCount (rHeader r)) \<le> 2 ^ 60"
    using wf assms(2) by (simp add: wf_reader_def)
  have b: "1 * unat (CodewordCount (rHeader r)) \<le> cw_size r * unat (CodewordCount (rHeader r))"
    using cw_size_pos [OF wf] by (intro mult_right_mono) simp_all
  show "small_ids r" using order_trans [OF b a] by (simp add: small_ids_def)
qed

section \<open>Properties\<close>

text \<open>
  C1. The in-memory round trip: for every non-empty input below 128 MiB and every codebook
  that opens (below \<open>2^60\<close> bytes, with a declared size that does not overflow and at least
  one codeword), packing in any mode but the lossy one succeeds, and unpacking what was
  written with the same codebook returns the input, whatever the other options are.
\<close>

theorem pack_bytes_roundtrip:
  assumes "zstd_ok X" "zstd_bound X" "gcm_ok X" "hash_sizes_ok X"
    and "OpenFromBytes codebookData = Inr r" "length codebookData < 2 ^ 60" "declared_size (rHeader r) < 2 ^ 64"
    and "CodewordCount (rHeader r) \<noteq> 0" "input \<noteq> []" "length input < 2 ^ 27" "Mode opts \<noteq> ''edge''"
  shows "\<exists>out m. PackBytes X wide input codebookData opts = Inr (out, m) \<and>
    (\<forall>uopts. UnpackBytes X out codebookData uopts = Inr input)"
proof -
  note packed = PackBytes_packed [OF assms(1,2,4,5) opened_reader [OF assms(5-7)] assms(8-11), of wide]
  obtain out m where out: "PackBytes X wide input codebookData opts = Inr (out, m)" using packed by blast
  have "UnpackBytes X out codebookData uopts = Inr input" for uopts
    using packed [of "uEncryptionKey uopts"] out UnpackBytes_packed [OF assms(1-4) _ assms(5)] by auto
  with out show ?thesis by blast
qed

definition sample_codebook :: bytes where
  "sample_codebook = cb_Serialize sample_cb_header @ [1, 2, 3, 4, 5, 6]"

definition sample_options :: PackOptions where
  "sample_options = \<lparr>Mode = ''archive'', CodebookPaths = [], Concurrency = 4, EncryptionKey = [], UseConvergentEncryption = False, GlobalSecret = [],
     oChunkSize = 128, UseCDC = False, UseACAC = False, ACACDelimiter = 10, MultiPass = False,
     MaxCompression = False, EmbedBrain = False\<rparr>"

lemma sample_codebook_opens:
  "OpenFromBytes sample_codebook = Inr sample_reader" "length sample_codebook < 2 ^ 60"
  "declared_size (rHeader sample_reader) < 2 ^ 64" "CodewordCount (rHeader sample_reader) \<noteq> 0"
proof -
  show "OpenFromBytes sample_codebook = Inr sample_reader"
    unfolding sample_codebook_def sample_reader_def
    by (rule OpenFromBytes_Serialize [OF sample_cb_header_wf]) (simp_all add: declared_size_def sample_cb_header_def)
  show "length sample_codebook < 2 ^ 60"
    by (simp add: sample_codebook_def length_cb_Serialize [OF sample_cb_header_wf])
qed (simp_all add: declared_size_def sample_reader_def sample_cb_header_def)

theorem pack_bytes_roundtrip_witness:
  "\<exists>out m. PackBytes toy_ext True [1, 2, 9] sample_codebook sample_options = Inr (out, m) \<and>
    (\<forall>uopts. UnpackBytes toy_ext out sample_codebook uopts = Inr [1, 2, 9])"
  by (rule pack_bytes_roundtrip [OF toy_ext_ok sample_codebook_opens]) (simp_all add: sample_options_def)

text \<open>
  Integrity of \<open>UnpackBytes\<close>: output that it returns for a lossless, chunked file without
  fuzziness has the SHA-256 the header names, whatever the file and the codebook contain.
\<close>

lemma unpack_integrity:
  assumes "UnpackBytes X crom codebookData opts = Inr out" "Fuzziness opts = 0"
    "ReadStream X (uEncryptionKey opts) crom = Inr (h, bt, es, s)" "\<not> IsLossy h" "\<not> IsPassthrough h" "ChunkCount h \<noteq> 0"
  shows "sha256 X out = OriginalHash h"
  using assms by (rule UnpackBytes_integrity)

end
