(* ===== verification/Pack_Chunk.thy ===== *)
theory Pack_Chunk
  imports Pack_Bytes Semantic
begin

text \<open>
  The chunk stage of \<open>Pack\<close> in \<^verbatim>\<open>pkg/cromlib/compiler.go\<close>: what a worker does with one
  chunk, and the pool of workers over a block. The chunks of a block are encoded concurrently
  and share the searchers, whose caches they change; the model takes the order in which the
  chunks are encoded as an argument, so a theorem for every order covers every schedule of
  the workers. The result: with at most one codebook every chunk is decodable.
\<close>

section \<open>One chunk\<close>

record processedChunk =
  pcEntry :: ChunkEntry
  pcRes :: bytes
  pcSim :: real
  pcErr :: "string option"

definition zero_chunk :: processedChunk where
  "zero_chunk =
     \<lparr>pcEntry = \<lparr>CodebookID = 0, DeltaOffset = 0, DeltaSize = 0, EOriginalSize = 0, CodebookIndex = 0\<rparr>,
      pcRes = [], pcSim = 0, pcErr = None\<rparr>"

definition literal_chunk :: "Chunk \<Rightarrow> processedChunk" where
  "literal_chunk chunk = zero_chunk\<lparr>pcEntry := literal_entry chunk, pcRes := cData chunk\<rparr>"

text \<open>A chunk stored by an identifier alone: a codeword or the seed of a polynomial.\<close>

definition named_chunk :: "Chunk \<Rightarrow> u64 \<Rightarrow> byte \<Rightarrow> processedChunk" where
  "named_chunk chunk cid idx =
     zero_chunk\<lparr>pcSim := 1,
       pcEntry := \<lparr>CodebookID = cid, DeltaOffset = 0, DeltaSize = 0, EOriginalSize = cSize chunk, CodebookIndex = idx\<rparr>\<rparr>"

fun find_exact_in :: "ext \<Rightarrow> LSHSearcher list \<Rightarrow> nat \<Rightarrow> bytes \<Rightarrow> (u64 \<times> nat) option res" where
  "find_exact_in X [] cbIdx data = Inr None"
| "find_exact_in X (s # ss) cbIdx data =
     rbind (FindExact X s data) (\<lambda>hit.
       case hit of Some cid \<Rightarrow> Inr (Some (cid, cbIdx)) | None \<Rightarrow> find_exact_in X ss (cbIdx + 1) data)"

text \<open>The residual, identifier and codebook index for a match that is the best so far.\<close>

definition maxPatchSize :: nat where "maxPatchSize = 256"

definition near_match ::
  "string \<Rightarrow> real \<Rightarrow> bytes \<Rightarrow> MatchResult \<Rightarrow> byte \<Rightarrow> real \<Rightarrow> bytes \<times> u64 \<times> byte" where
  "near_match mode chunkEntropy data m cbIdx sim =
     (let usablePattern = (if length data < length (mPattern m) then take (length data) (mPattern m) else mPattern m);
          threshold = (if 6 < chunkEntropy then 95 / 100 else 80 / 100);
          (bestRes, bestCodeID, bestCbIdx) =
            (if data = usablePattern then ([], mCodebookID m, cbIdx)
             else if sim < minNearMatchSimilarity \<and> mode \<noteq> ''edge''
             then (data, LiteralCodebookID, LiteralCodebookIndex)
             else if threshold \<le> sim then
               (let patchStr = Diff data usablePattern;
                    xorFallback = XOR_delta data usablePattern
                in if length patchStr < length xorFallback \<and> length patchStr \<le> maxPatchSize
                   then (patchStr, mCodebookID m OR FlagIsPatch, cbIdx)
                   else (xorFallback, mCodebookID m, cbIdx))
             else (XOR_delta data usablePattern, mCodebookID m, cbIdx))
      in if mode = ''edge'' \<and> bestCodeID \<noteq> LiteralCodebookID then ([], mCodebookID m, bestCbIdx)
         else (bestRes, bestCodeID, bestCbIdx))"

record BestMatch =
  bmRes :: bytes
  bmSim :: real
  bmCodeID :: u64
  bmCbIdx :: byte
  bmErr :: "string option"

fun best_match ::
  "bool \<Rightarrow> string \<Rightarrow> real \<Rightarrow> bytes \<Rightarrow> nat \<Rightarrow> LSHSearcher list \<Rightarrow> BestMatch \<Rightarrow> (BestMatch \<times> LSHSearcher list) res" where
  "best_match wide mode chunkEntropy data cbIdx [] best = Inr (best, [])"
| "best_match wide mode chunkEntropy data cbIdx (s # ss) best =
     (case LSH_FindBestMatch wide s data of
        (Inl GoPanic, _) \<Rightarrow> Inl GoPanic
      | (Inl (GoErr e), s) \<Rightarrow>
          rbind (best_match wide mode chunkEntropy data (cbIdx + 1) ss (best\<lparr>bmErr := Some e\<rparr>))
            (\<lambda>(best, ss). Inr (best, s # ss))
      | (Inr m, s) \<Rightarrow>
          (let sim = Similarity m (length data * 8);
               best =
                 (if bmSim best < sim then
                    (case near_match mode chunkEntropy data m (of_nat cbIdx) sim of (rs, cid, idx) \<Rightarrow>
                       best\<lparr>bmRes := rs, bmSim := sim, bmCodeID := cid, bmCbIdx := idx\<rparr>)
                  else best)
           in if 95 / 100 \<le> bmSim best then Inr (best, s # ss)
              else rbind (best_match wide mode chunkEntropy data (cbIdx + 1) ss best)
                     (\<lambda>(best, ss). Inr (best, s # ss))))"

definition start_best :: BestMatch where
  "start_best = \<lparr>bmRes = [], bmSim = -1, bmCodeID = 0, bmCbIdx = 0, bmErr = None\<rparr>"

definition converge :: "ext \<Rightarrow> PackOptions \<Rightarrow> bytes \<Rightarrow> bytes res" where
  "converge X opts payload =
     (if UseConvergentEncryption opts \<and> GlobalSecret opts \<noteq> [] then ConvergentEncrypt X (GlobalSecret opts) payload
      else Inr payload)"

definition matched_chunk :: "ext \<Rightarrow> PackOptions \<Rightarrow> Chunk \<Rightarrow> BestMatch \<Rightarrow> processedChunk res" where
  "matched_chunk X opts chunk best =
     (if bmSim best = -1 \<and> bmErr best \<noteq> None then Inr (zero_chunk\<lparr>pcErr := bmErr best\<rparr>)
      else
        (case converge X opts (bmRes best) of
           Inl GoPanic \<Rightarrow> Inl GoPanic
         | Inl (GoErr e) \<Rightarrow> Inr (zero_chunk\<lparr>pcErr := Some e\<rparr>)
         | Inr payload \<Rightarrow>
             Inr \<lparr>pcEntry = \<lparr>CodebookID = bmCodeID best, DeltaOffset = 0, DeltaSize = of_nat (length payload),
                             EOriginalSize = cSize chunk, CodebookIndex = bmCbIdx best\<rparr>,
                  pcRes = payload, pcSim = bmSim best, pcErr = None\<rparr>))"

definition process_chunk ::
  "ext \<Rightarrow> bool \<Rightarrow> PackOptions \<Rightarrow> bool \<Rightarrow> LSHSearcher list \<Rightarrow> Chunk \<Rightarrow> (processedChunk \<times> LSHSearcher list) res" where
  "process_chunk X wide opts literalIfNotExact searchers chunk =
     (if searchers = [] then Inr (literal_chunk chunk, searchers)
      else
        rbind (find_exact_in X searchers 0 (cData chunk)) (\<lambda>hit.
          case hit of
            Some (cid, cbIdx) \<Rightarrow> Inr (named_chunk chunk cid (of_nat cbIdx), searchers)
          | None \<Rightarrow>
              (let chunkEntropy = Shannon (cData chunk);
                   (found, seed) = (if chunkEntropy \<le> 3 then FindPolynomial (cData chunk) else (False, 0))
               in if found then Inr (named_chunk chunk seed FractalCodebookIndex, searchers)
                  else if Mode opts \<noteq> ''edge'' \<and>
                    (literalIfNotExact \<or> 78 / 10 < chunkEntropy \<or> DetectHeuristicBypass chunkEntropy (cData chunk))
                  then Inr (literal_chunk chunk, searchers)
                  else
                    rbind (best_match wide (Mode opts) chunkEntropy (cData chunk) 0 searchers start_best)
                      (\<lambda>(best, searchers).
                         rbind (matched_chunk X opts chunk best) (\<lambda>pc. Inr (pc, searchers))))))"

section \<open>The workers\<close>

text \<open>
  The jobs in the order in which the workers take effect; a job fills its slot of the results.
  \<open>work\<close> is what a worker does with a chunk, on the state the workers share.
\<close>

fun run_jobs ::
  "('s \<Rightarrow> Chunk \<Rightarrow> (processedChunk \<times> 's) res) \<Rightarrow> Chunk list \<Rightarrow> nat list \<Rightarrow> 's \<Rightarrow> processedChunk list \<Rightarrow>
   (processedChunk list \<times> 's) res" where
  "run_jobs work chunks [] s results = Inr (results, s)"
| "run_jobs work chunks (i # is) s results =
     rbind (work s (chunks ! i)) (\<lambda>(pc, s). run_jobs work chunks is s (results[i := pc]))"

text \<open>Without a worker no job runs, and the results keep their zero values.\<close>

definition run_workers ::
  "('s \<Rightarrow> Chunk \<Rightarrow> (processedChunk \<times> 's) res) \<Rightarrow> int \<Rightarrow> nat list \<Rightarrow> 's \<Rightarrow> Chunk list \<Rightarrow>
   (processedChunk list \<times> 's) res" where
  "run_workers work concurrency order s chunks =
     run_jobs work chunks (if 0 < concurrency then order else []) s (replicate (length chunks) zero_chunk)"

definition process_block ::
  "ext \<Rightarrow> bool \<Rightarrow> PackOptions \<Rightarrow> bool \<Rightarrow> nat list \<Rightarrow> LSHSearcher list \<Rightarrow> Chunk list \<Rightarrow>
   (processedChunk list \<times> LSHSearcher list) res" where
  "process_block X wide opts lit order searchers chunks =
     run_workers (process_chunk X wide opts lit) (Concurrency opts) order searchers chunks"

section \<open>Every chunk is decodable\<close>

text \<open>
  What a worker writes for a chunk, the offset apart: whichever codebook the entry names, that
  codebook decodes it. Literals and polynomials are decoded by any codebook.
\<close>

definition placed :: "u64 \<Rightarrow> ChunkEntry \<Rightarrow> ChunkEntry" where
  "placed off e = e\<lparr>DeltaOffset := off\<rparr>"

definition encodes :: "Reader list \<Rightarrow> processedChunk \<Rightarrow> bytes \<Rightarrow> bool" where
  "encodes rs pc data \<longleftrightarrow>
     pcErr pc = None \<and> length (pcRes pc) \<le> length data \<and>
     (\<forall>r off. (unat (CodebookIndex (pcEntry pc)) < length rs \<longrightarrow> r = rs ! unat (CodebookIndex (pcEntry pc))) \<longrightarrow>
        decodes r (placed off (pcEntry pc), pcRes pc, data))"

lemma encodes_literal:
  assumes "good_chunk c" "length rs < 254"
  shows "encodes rs (literal_chunk c) (cData c)"
  using assms
  by (auto simp: encodes_def literal_chunk_def literal_entry_def zero_chunk_def placed_def good_chunk_def
      intro!: decodes_literal)

lemma FindPolynomial_small:
  assumes "FindPolynomial t = (True, seed)"
  shows "unat seed < 2 ^ 62"
proof -
  have m: "drop_bit 24 (ucast a OR push_bit 8 (ucast b) OR push_bit 16 (ucast c) :: u64) = 0" for a b c :: byte
    by (rule bit_word_eqI) (auto simp: bit_simps dest: bit_imp_le_length)
  have "\<exists>(a :: byte) (b :: byte) (c :: byte). seed = ucast a OR push_bit 8 (ucast b) OR push_bit 16 (ucast c)"
  proof (cases "length t = 1")
    case True
    then have "seed = ucast (0 :: byte) OR push_bit 8 (ucast (0 :: byte)) OR push_bit 16 (ucast (t ! 0))"
      using assms by (auto simp: FindPolynomial_def Let_def split: if_splits)
    then show ?thesis by (intro exI)
  next
    case False
    with assms show ?thesis by (auto simp: FindPolynomial_def Let_def split: option.splits if_splits)
  qed
  then obtain a b c :: byte where "seed = ucast a OR push_bit 8 (ucast b) OR push_bit 16 (ucast c)" by blast
  then have "drop_bit 24 seed = 0" using m by blast
  then have "drop_bit 24 (unat seed) = 0" by (simp flip: unat_drop_bit_eq)
  then have "unat seed div 2 ^ 24 = 0" unfolding drop_bit_eq_div .
  then show ?thesis by (simp add: div_eq_0_iff)
qed

lemma encodes_fractal:
  assumes "good_chunk c" "length rs < 254" "FindPolynomial (cData c) = (True, seed)"
  shows "encodes rs (named_chunk c seed FractalCodebookIndex) (cData c)"
  using assms FindPolynomial_sound [OF assms(3)] FindPolynomial_small [OF assms(3)]
  by (auto simp: encodes_def named_chunk_def zero_chunk_def placed_def good_chunk_def intro!: decodes_fractal)

lemma encodes_exact:
  assumes "wf_reader r" "small_ids r" "named r cid (cData c)" "good_chunk c" "rs ! i = r" "i < length rs" "length rs < 254"
  shows "encodes rs (named_chunk c cid (of_nat i)) (cData c)"
proof -
  have i: "unat (of_nat i :: byte) = i" using assms(6,7) by (intro unat_of_nat_lt) simp
  then have f: "of_nat i \<noteq> FractalCodebookIndex"
    using assms(6,7) by (auto simp: FractalCodebookIndex_def dest: arg_cong [of _ _ unat])
  show ?thesis
    using assms i f
    by (auto simp: encodes_def named_chunk_def zero_chunk_def placed_def Apply_def intro!: decodes_named)
qed

lemma find_exact_in_ok:
  "tiers_for rs ss \<Longrightarrow>
   \<exists>hit. find_exact_in X ss k data = Inr hit \<and>
     (\<forall>cid i. hit = Some (cid, i) \<longrightarrow> k \<le> i \<and> i < k + length rs \<and> named (rs ! (i - k)) cid data)"
proof (induction ss arbitrary: rs k)
  case (Cons s ss)
  obtain r rs' where rs: "rs = r # rs'" "lsh_for r s" "tiers_for rs' ss"
    using Cons.prems by (auto simp: tiers_for_def list_all2_Cons2)
  obtain hit where hit: "FindExact X s data = Inr hit" "\<And>cid. hit = Some cid \<Longrightarrow> named r cid data"
    using FindExact_sound [OF lsh_for_core [OF rs(2)]] by blast
  show ?case
  proof (cases hit)
    case None
    obtain hit' where h: "find_exact_in X ss (k + 1) data = Inr hit'"
      "\<And>cid i. hit' = Some (cid, i) \<Longrightarrow> k + 1 \<le> i \<and> i < k + 1 + length rs' \<and> named (rs' ! (i - (k + 1))) cid data"
      using Cons.IH [OF rs(3), of "k + 1"] by auto
    have "k \<le> i \<and> i < k + length rs \<and> named (rs ! (i - k)) cid data" if "hit' = Some (cid, i)" for cid i
      using h(2) [OF that] by (auto simp: rs nth_Cons')
    with None hit(1) h(1) show ?thesis by auto
  next
    case (Some cid)
    with hit show ?thesis by (simp add: rs)
  qed
qed (auto simp: tiers_for_def)

text \<open>The choice for a near match.\<close>

definition decodable_as :: "bytes \<Rightarrow> bytes \<Rightarrow> u64 \<Rightarrow> byte \<Rightarrow> bytes \<times> u64 \<times> byte \<Rightarrow> bool" where
  "decodable_as data pattern cid idx choice \<longleftrightarrow>
     (case choice of (rs, cid', idx') \<Rightarrow> length rs \<le> length data \<and>
        (cid' = LiteralCodebookID \<and> rs = data \<and> idx' = LiteralCodebookIndex \<or>
         idx' = idx \<and>
           (cid' = cid \<and> Apply (take (length data) pattern) rs = data \<or>
            cid' = cid OR FlagIsPatch \<and> ApplyPatch (take (length data) pattern) rs = Inr data)))"

lemma near_match_ok:
  assumes "data \<noteq> []" "mode \<noteq> ''edge''"
  shows "decodable_as data (mPattern m) (mCodebookID m) idx (near_match mode e data m idx sim)"
proof -
  define u where "u = take (length data) (mPattern m)"
  have a: "Apply u [] = u" by (simp add: Apply_def)
  have x: "Apply u (XOR_delta data u) = data" using assms(1) by (intro Apply_XOR) simp
  show ?thesis
    using assms a x ApplyPatch_Diff [of u data]
    by (auto simp: near_match_def decodable_as_def take_pattern Let_def simp flip: u_def)
qed

definition good_best :: "Reader list \<Rightarrow> bytes \<Rightarrow> BestMatch \<Rightarrow> bool" where
  "good_best rs data best \<longleftrightarrow>
     bmErr best = None \<and> (bmSim best = -1 \<or> 0 \<le> bmSim best \<and>
       (\<exists>i cid p. i < length rs \<and> named (rs ! i) cid p \<and>
          decodable_as data p cid (of_nat i) (bmRes best, bmCodeID best, bmCbIdx best)))"

lemma Similarity_nonneg: "0 \<le> Similarity m n"
  by (simp add: Similarity_def Let_def)

lemma good_best_update:
  assumes "good_best rs data best" "data \<noteq> []" "mode \<noteq> ''edge''" "i < length rs" "named (rs ! i) (mCodebookID m) (mPattern m)"
    and "near_match mode e data m (of_nat i) (Similarity m n) = (b, cid, idx)"
  shows "good_best rs data (best\<lparr>bmRes := b, bmSim := Similarity m n, bmCodeID := cid, bmCbIdx := idx\<rparr>)"
  using assms near_match_ok [OF assms(2,3), of m "of_nat i" e "Similarity m n"] Similarity_nonneg [of m n]
  by (auto simp: good_best_def)

lemma best_match_ok:
  "tiers_for (drop k rs) ss \<Longrightarrow> good_best rs data best \<Longrightarrow> data \<noteq> [] \<Longrightarrow> searchable data \<Longrightarrow> mode \<noteq> ''edge'' \<Longrightarrow>
   \<exists>best' ss'. best_match wide mode e data k ss best = Inr (best', ss') \<and> good_best rs data best' \<and>
     tiers_for (drop k rs) ss' \<and> (ss \<noteq> [] \<or> bmSim best \<noteq> -1 \<longrightarrow> bmSim best' \<noteq> -1)"
proof (induction ss arbitrary: k best)
  case (Cons s ss)
  have k: "k < length rs" using Cons.prems(1) by (cases "k < length rs") (auto simp: tiers_for_def)
  have rs: "lsh_for (rs ! k) s" "tiers_for (drop (k + 1) rs) ss"
    using Cons.prems(1) by (simp_all add: tiers_for_def flip: Cons_nth_drop_Suc [OF k])
  obtain m s' where m: "LSH_FindBestMatch wide s data = (Inr m, s')" "good_match (rs ! k) m" "lsh_for (rs ! k) s'"
    using LSH_FindBestMatch_ok [OF rs(1) Cons.prems(4), of wide] by (metis prod.collapse)
  let ?sim = "Similarity m (length data * 8)"
  obtain b cid idx where nm: "near_match mode e data m (of_nat k) ?sim = (b, cid, idx)" by (metis prod_cases3)
  define best1 where "best1 = (if bmSim best < ?sim
    then best\<lparr>bmRes := b, bmSim := ?sim, bmCodeID := cid, bmCbIdx := idx\<rparr> else best)"
  have g: "good_best rs data best1" "bmSim best1 \<noteq> -1"
    using good_best_update [OF Cons.prems(2,3,5) k _ nm] m(2) Cons.prems(2) Similarity_nonneg [of m "length data * 8"]
    by (auto simp: best1_def good_match_def good_best_def)
  obtain best' ss' where r: "best_match wide mode e data (k + 1) ss best1 = Inr (best', ss')" "good_best rs data best'"
    "tiers_for (drop (k + 1) rs) ss'" "bmSim best' \<noteq> -1"
    using Cons.IH [OF rs(2) g(1) Cons.prems(3-5)] g(2) by auto
  have t: "tiers_for (drop k rs) (s' # ts)" if "tiers_for (drop (k + 1) rs) ts" for ts
    using that m(3) by (simp add: tiers_for_def flip: Cons_nth_drop_Suc [OF k])
  have "best_match wide mode e data k (s # ss) best = (if 95 / 100 \<le> bmSim best1 then Inr (best1, s' # ss)
      else rbind (best_match wide mode e data (k + 1) ss best1) (\<lambda>(best, ss). Inr (best, s' # ss)))"
    by (simp add: m(1) nm Let_def best1_def)
  with g r t [OF rs(2)] t [OF r(3)] show ?case by (cases "95 / 100 \<le> bmSim best1") simp_all
qed simp

lemma good_best_start: "good_best rs data start_best"
  by (simp add: good_best_def start_best_def)

definition readers_ok :: "Reader list \<Rightarrow> bool" where
  "readers_ok rs \<longleftrightarrow> (\<forall>r \<in> set rs. wf_reader r \<and> small_ids r) \<and> length rs < 254"

lemma encodes_best:
  assumes rs: "readers_ok rs" and c: "good_chunk c" and i: "i < length rs" "named (rs ! i) cid p"
    and d: "decodable_as (cData c) p cid (of_nat i) (b, cid', idx')"
  shows "encodes rs \<lparr>pcEntry = \<lparr>CodebookID = cid', DeltaOffset = 0, DeltaSize = of_nat (length b),
      EOriginalSize = cSize c, CodebookIndex = idx'\<rparr>, pcRes = b, pcSim = s, pcErr = None\<rparr> (cData c)"
proof -
  have idx: "unat (of_nat i :: byte) = i" "(of_nat i :: byte) \<noteq> FractalCodebookIndex"
  proof -
    show "unat (of_nat i :: byte) = i" using i(1) rs by (intro unat_of_nat_lt) (simp add: readers_ok_def)
    then show "(of_nat i :: byte) \<noteq> FractalCodebookIndex"
      using i(1) rs by (auto simp: FractalCodebookIndex_def readers_ok_def dest: arg_cong [of _ _ unat])
  qed
  have r: "wf_reader (rs ! i)" "cid < CodewordCount (rHeader (rs ! i))" "small_id cid" "p = codeword (rs ! i) (unat cid)"
    using i rs named_small [of "rs ! i" cid p] by (auto simp: readers_ok_def named_def)
  have len: "length b \<le> length (cData c)" "length b < 2 ^ 32" "length (cData c) < 2 ^ 32" "cData c \<noteq> []"
    "cSize c = of_nat (length (cData c))"
    using c d by (auto simp: good_chunk_def decodable_as_def)
  consider (literal) "cid' = LiteralCodebookID" "b = cData c" "idx' = LiteralCodebookIndex"
    | (xor) "idx' = of_nat i" "cid' = cid" "Apply (take (length (cData c)) p) b = cData c"
    | (patch) "idx' = of_nat i" "cid' = cid OR FlagIsPatch" "ApplyPatch (take (length (cData c)) p) b = Inr (cData c)"
    using d by (auto simp: decodable_as_def)
  then show ?thesis
  proof cases
    case literal
    with len show ?thesis by (auto simp: encodes_def placed_def intro!: decodes_literal)
  next
    case xor
    with len r idx show ?thesis
      by (auto simp: encodes_def placed_def i(1) intro!: decodes_codeword [OF r(1-3)])
  next
    case patch
    with len r idx show ?thesis
      by (auto simp: encodes_def placed_def i(1) intro!: decodes_codeword [OF r(1-3)])
  qed
qed

definition converging :: "PackOptions \<Rightarrow> bool" where
  "converging opts \<longleftrightarrow> UseConvergentEncryption opts \<and> GlobalSecret opts \<noteq> []"

lemma matched_chunk_ok:
  assumes "readers_ok rs" "good_chunk c" "good_best rs (cData c) best" "bmSim best \<noteq> -1" "\<not> converging opts"
  shows "\<exists>pc. matched_chunk X opts c best = Inr pc \<and> encodes rs pc (cData c)"
proof -
  obtain i cid p where i: "i < length rs" "named (rs ! i) cid p"
    "decodable_as (cData c) p cid (of_nat i) (bmRes best, bmCodeID best, bmCbIdx best)"
    using assms(3,4) by (auto simp: good_best_def)
  have "converge X opts (bmRes best) = Inr (bmRes best)" using assms(5) by (auto simp: converge_def converging_def)
  with encodes_best [OF assms(1,2) i] assms(4) show ?thesis by (simp add: matched_chunk_def)
qed

lemma process_chunk_ok:
  assumes rs: "readers_ok rs" and t: "tiers_for rs ss" and c: "good_chunk c"
    and o: "Mode opts \<noteq> ''edge''" "\<not> converging opts"
  shows "\<exists>pc ss'. process_chunk X wide opts lit ss c = Inr (pc, ss') \<and> encodes rs pc (cData c) \<and> tiers_for rs ss'"
proof (cases "ss = []")
  case True
  with t c rs show ?thesis by (auto simp: process_chunk_def encodes_literal readers_ok_def)
next
  case False
  have ne: "cData c \<noteq> []" "searchable (cData c)" using c by (simp_all add: good_chunk_def searchable_def)
  have n: "length rs < 254" using rs by (simp add: readers_ok_def)
  obtain hit where hit: "find_exact_in X ss 0 (cData c) = Inr hit"
    "\<And>cid i. hit = Some (cid, i) \<Longrightarrow> i < length rs \<and> named (rs ! i) cid (cData c)"
    using find_exact_in_ok [OF t, of X 0 "cData c"] by auto
  show ?thesis
  proof (cases hit)
    case (Some h)
    obtain cid i where h: "h = (cid, i)" by (cases h)
    with hit(2) Some have i: "i < length rs" "named (rs ! i) cid (cData c)" by simp_all
    then have "wf_reader (rs ! i)" "small_ids (rs ! i)" using rs by (simp_all add: readers_ok_def)
    then have "encodes rs (named_chunk c cid (of_nat i)) (cData c)" using i c n by (intro encodes_exact) simp_all
    with False hit(1) Some h t show ?thesis by (simp add: process_chunk_def)
  next
    case None
    define e where "e = Shannon (cData c)"
    obtain found seed where f: "(if e \<le> 3 then FindPolynomial (cData c) else (False, 0)) = (found, seed)" by fastforce
    have p: "process_chunk X wide opts lit ss c =
        (if found then Inr (named_chunk c seed FractalCodebookIndex, ss)
         else if lit \<or> 78 / 10 < e \<or> DetectHeuristicBypass e (cData c) then Inr (literal_chunk c, ss)
         else rbind (best_match wide (Mode opts) e (cData c) 0 ss start_best) (\<lambda>(best, ss).
                rbind (matched_chunk X opts c best) (\<lambda>pc. Inr (pc, ss))))"
      using False hit(1) None f o(1) by (simp add: process_chunk_def Let_def flip: e_def)
    obtain best ss' where b: "best_match wide (Mode opts) e (cData c) 0 ss start_best = Inr (best, ss')"
      "good_best rs (cData c) best" "tiers_for rs ss'" "bmSim best \<noteq> -1"
      using best_match_ok [of 0 rs ss "cData c" start_best "Mode opts" wide e] t good_best_start ne o(1) False by auto
    obtain pc where pc: "matched_chunk X opts c best = Inr pc" "encodes rs pc (cData c)"
      using matched_chunk_ok [OF rs c b(2,4) o(2)] by blast
    show ?thesis
    proof (cases found)
      case True
      then have "FindPolynomial (cData c) = (True, seed)" using f by (auto split: if_splits)
      with True p t encodes_fractal [OF c n] show ?thesis by simp
    next
      case False
      with p t b pc encodes_literal [OF c n] show ?thesis by auto
    qed
  qed
qed

text \<open>
  The interface of a worker: on a usable shared state it succeeds with a decodable result and
  leaves a usable state. Then every order of the jobs fills every slot with a decodable result.
\<close>

definition filled :: "Reader list \<Rightarrow> Chunk list \<Rightarrow> nat set \<Rightarrow> processedChunk list \<Rightarrow> bool" where
  "filled rs chunks slots results \<longleftrightarrow>
     length results = length chunks \<and> (\<forall>i \<in> slots. i < length chunks \<longrightarrow> encodes rs (results ! i) (cData (chunks ! i)))"

locale worker =
  fixes work :: "'s \<Rightarrow> Chunk \<Rightarrow> (processedChunk \<times> 's) res" and rs :: "Reader list" and shared :: "'s \<Rightarrow> bool"
  assumes work_ok: "shared s \<Longrightarrow> good_chunk c \<Longrightarrow> \<exists>pc s'. work s c = Inr (pc, s') \<and> encodes rs pc (cData c) \<and> shared s'"
begin

lemma run_jobs_ok:
  assumes cs: "list_all good_chunk chunks"
  shows "shared s \<Longrightarrow> \<forall>i \<in> set order. i < length chunks \<Longrightarrow> filled rs chunks slots results \<Longrightarrow>
    \<exists>results' s'. run_jobs work chunks order s results = Inr (results', s') \<and>
      filled rs chunks (slots \<union> set order) results' \<and> shared s'"
proof (induction order arbitrary: s slots results)
  case (Cons i order)
  have c: "good_chunk (chunks ! i)" using cs Cons.prems(2) by (simp add: list_all_length)
  obtain pc s1 where pc: "work s (chunks ! i) = Inr (pc, s1)" "encodes rs pc (cData (chunks ! i))" "shared s1"
    using work_ok [OF Cons.prems(1) c] by blast
  have f: "filled rs chunks (insert i slots) (results[i := pc])"
    using Cons.prems(2,3) pc(2) by (simp add: filled_def nth_list_update)
  then obtain results' s' where "run_jobs work chunks order s1 (results[i := pc]) = Inr (results', s')"
    "filled rs chunks (insert i slots \<union> set order) results'" "shared s'"
    using Cons.IH [OF pc(3) _ f] Cons.prems(2) by auto
  with pc(1) show ?case by auto
qed auto

lemma run_workers_ok:
  assumes cs: "list_all good_chunk chunks" and w: "0 < n" and order: "set order = {..<length chunks}" and s: "shared s"
  shows "\<exists>results s'. run_workers work n order s chunks = Inr (results, s') \<and> shared s' \<and>
    list_all2 (encodes rs) results (map cData chunks)"
proof -
  have "filled rs chunks {} (replicate (length chunks) zero_chunk)" by (simp add: filled_def)
  then obtain results s' where r: "run_jobs work chunks order s (replicate (length chunks) zero_chunk) = Inr (results, s')"
    "filled rs chunks (set order) results" "shared s'"
    using run_jobs_ok [OF cs s, of order "{}"] order by fastforce
  then have "list_all2 (encodes rs) results (map cData chunks)"
    by (simp add: filled_def order list_all2_conv_all_nth)
  with r w show ?thesis by (simp add: run_workers_def)
qed

end

text \<open>The workers of \<open>Pack\<close> share the searchers, one for each codebook.\<close>

definition pack_work_inv :: "PackOptions \<Rightarrow> Reader list \<Rightarrow> LSHSearcher list \<Rightarrow> bool" where
  "pack_work_inv opts rs ss \<longleftrightarrow> readers_ok rs \<and> Mode opts \<noteq> ''edge'' \<and> \<not> converging opts \<and> tiers_for rs ss"

interpretation pack_worker: worker "process_chunk X wide opts lit" rs "pack_work_inv opts rs" for X wide opts lit rs
proof (rule worker.intro)
  fix ss c
  assume i: "pack_work_inv opts rs ss" and c: "good_chunk c"
  from i have "readers_ok rs" "tiers_for rs ss" "Mode opts \<noteq> ''edge''" "\<not> converging opts"
    by (simp_all add: pack_work_inv_def)
  with process_chunk_ok [OF this(1,2) c this(3,4), of X wide lit]
  show "\<exists>pc ss'. process_chunk X wide opts lit ss c = Inr (pc, ss') \<and> encodes rs pc (cData c) \<and> pack_work_inv opts rs ss'"
    by (auto simp: pack_work_inv_def)
qed

end
