(* ===== verification/Unpack_File.thy ===== *)
theory Unpack_File
  imports Unpacker
begin

text \<open>
  \<^verbatim>\<open>pkg/cromlib/unpacker.go\<close>: unpacking a file to disk. The file system is a map from paths to
  contents; the output is written to a temporary file that is renamed when everything
  succeeded and removed after an error. A run-time panic runs the same deferred function with
  the error still \<open>nil\<close>, so it renames: the model therefore returns the state with every
  outcome. The results: an error leaves the output path alone, a panic publishes the part
  written so far, a strict lossless run leaves a file with the hash of the header, and every
  packed file is rebuilt.
\<close>

type_synonym fs = "string \<rightharpoonup> bytes"

section \<open>One chunk\<close>

text \<open>
  The variational mode adds a random offset to the codeword identifier; \<open>rnd i\<close> is the draw
  for the entry \<open>i\<close>, reduced to the range of \<open>rand.Intn(spread*2)\<close>.
\<close>

definition fuzz_id :: "UnpackOptions \<Rightarrow> (nat \<Rightarrow> int) \<Rightarrow> nat \<Rightarrow> u64 \<Rightarrow> u64 \<Rightarrow> u64" where
  "fuzz_id opts rnd i maxID targetID =
     (if 0 < Fuzziness opts then
        (let spread = \<lfloor>Fuzziness opts * 100\<rfloor>;
             spread = (if spread < 1 then 1 else spread);
             offset = of_int (rnd i mod (spread * 2) - spread)
         in if targetID + offset \<le> maxID then targetID + offset else targetID)
      else targetID)"

definition file_chunk ::
  "UnpackOptions \<Rightarrow> (nat \<Rightarrow> int) \<Rightarrow> Reader option \<Rightarrow> u64 \<Rightarrow> nat \<Rightarrow> ChunkEntry \<Rightarrow> bytes \<Rightarrow> bytes res" where
  "file_chunk opts rnd cbo maxID i entry rs =
     (let targetID = CodebookID entry in
      if targetID = LiteralCodebookID then Inr rs
      else if CodebookIndex entry = FractalCodebookIndex
      then Inr (GeneratePolynomial targetID (unat (EOriginalSize entry)))
      else
        (case cbo of
           None \<Rightarrow> Inl GoPanic
         | Some cb \<Rightarrow>
             (let targetID = fuzz_id opts rnd i maxID targetID;
                  isPatch = (targetID AND FlagIsPatch \<noteq> 0);
                  cleanID = targetID AND clean_mask
              in rbind (wrap_err ''unpack: lookup codeword'' (Lookup cb cleanID)) (\<lambda>pattern.
                   let usablePattern = clip (EOriginalSize entry) pattern in
                   if isPatch then wrap_err ''unpack: failed to apply patch'' (ApplyPatch usablePattern rs)
                   else Inr (Apply usablePattern (clip (EOriginalSize entry) rs))))))"

section \<open>The loop over the blocks\<close>

text \<open>
  What was written to the temporary file, what was fed to the hasher, the number of corrupt
  blocks, the index of the next entry and the offset of the current block.
\<close>

record UnpackState =
  usOut :: bytes
  usHashed :: bytes
  usCorrupt :: nat
  usIdx :: nat
  usGlobal :: u64

text \<open>The closure \<open>writeOut\<close>: without fuzziness the bytes are hashed as well.\<close>

definition writeOut :: "UnpackOptions \<Rightarrow> bytes \<Rightarrow> UnpackState \<Rightarrow> UnpackState" where
  "writeOut opts b st =
     (if Fuzziness opts \<noteq> 0 then st\<lparr>usOut := usOut st @ b\<rparr>
      else st\<lparr>usOut := usOut st @ b, usHashed := usHashed st @ b\<rparr>)"

definition zero_fill :: "ChunkEntry list \<Rightarrow> UnpackState \<Rightarrow> UnpackState" where
  "zero_fill es st =
     st\<lparr>usOut := usOut st @ concat (map (\<lambda>e. zeros (unat (EOriginalSize e))) es),
        usCorrupt := usCorrupt st + 1, usIdx := usIdx st + length es\<rparr>"

text \<open>\<open>or_stop r st f\<close>: stop in the state \<open>st\<close> if \<open>r\<close> is an error, else go on.\<close>

definition or_stop :: "'a res \<Rightarrow> 's \<Rightarrow> ('a \<Rightarrow> 'b res \<times> 's) \<Rightarrow> 'b res \<times> 's" where
  "or_stop r st f = (case r of Inl e \<Rightarrow> (Inl e, st) | Inr x \<Rightarrow> f x)"

definition and_then :: "'a res \<times> 's \<Rightarrow> ('a \<Rightarrow> 's \<Rightarrow> 'b res \<times> 's) \<Rightarrow> 'b res \<times> 's" where
  "and_then m f = (case m of (r, st) \<Rightarrow> or_stop r st (\<lambda>x. f x st))"

lemma or_stop_simps [simp]: "or_stop (Inl e) st f = (Inl e, st)" "or_stop (Inr x) st f = f x"
  by (simp_all add: or_stop_def)

lemma and_then_simps [simp]: "and_then (Inl e, st) f = (Inl e, st)" "and_then (Inr x, st) f = f x st"
  by (simp_all add: and_then_def)

fun file_entries ::
  "UnpackOptions \<Rightarrow> (nat \<Rightarrow> int) \<Rightarrow> Reader option \<Rightarrow> u64 \<Rightarrow> bytes \<Rightarrow> ChunkEntry list \<Rightarrow> UnpackState \<Rightarrow>
   unit res \<times> UnpackState" where
  "file_entries opts rnd cbo maxID block [] st = (Inr (), st)"
| "file_entries opts rnd cbo maxID block (entry # entries) st =
     (let localOffset = DeltaOffset entry - usGlobal st;
          endLocal = localOffset + ucast (DeltaSize entry)
      in if of_nat (length block) < endLocal then
           (if Strict opts then (Inl (GoErr ''unpack: delta offset bounds error''), st)
            else file_entries opts rnd cbo maxID block entries (zero_fill [entry] st))
         else
           or_stop (gslice block (unat localOffset) (unat endLocal)) st (\<lambda>rs.
           or_stop (file_chunk opts rnd cbo maxID (usIdx st) entry rs) st (\<lambda>chunk.
             let st = writeOut opts chunk st in
             file_entries opts rnd cbo maxID block entries (st\<lparr>usIdx := usIdx st + 1\<rparr>))))"

text \<open>A block that does not decompress is zero-filled in the tolerant mode.\<close>

definition skip_block :: "ChunkEntry list \<Rightarrow> nat \<Rightarrow> UnpackState \<Rightarrow> UnpackState" where
  "skip_block entries nextBlockIdx st =
     (let st = (if nextBlockIdx < length entries then st\<lparr>usGlobal := DeltaOffset (entries ! nextBlockIdx)\<rparr> else st)
      in zero_fill (take (nextBlockIdx - usIdx st) (drop (usIdx st) entries)) st)"

text \<open>
  One block. The three attempts to decompress it have the same outcome. \<open>dict\<close> is the brain
  dictionary, empty for none.
\<close>

definition file_block ::
  "ext \<Rightarrow> Header \<Rightarrow> UnpackOptions \<Rightarrow> (nat \<Rightarrow> int) \<Rightarrow> Reader option \<Rightarrow> u64 \<Rightarrow> bytes \<Rightarrow> ChunkEntry list \<Rightarrow>
   nat list \<Rightarrow> nat \<Rightarrow> bytes \<Rightarrow> UnpackState \<Rightarrow> unit res \<times> UnpackState" where
  "file_block X header opts rnd cbo maxID dict entries starts i blockData st =
     or_stop (if IsEncrypted header
              then wrap_err ''unpack: decrypt block''
                     (Decrypt X (DeriveKey X (uEncryptionKey opts) (Salt header)) blockData)
              else Inr blockData) st (\<lambda>blockData.
     or_stop (BlockRange starts i (length entries)) st (\<lambda>(blockStart, blockEnd).
       case DecompressPoolDict X blockData dict of
         Inl e \<Rightarrow>
           (if Strict opts then (wrap_err ''unpack: decompress block'' (Inl e), st)
            else (Inr (), skip_block entries blockEnd st))
       | Inr block \<Rightarrow>
           and_then (file_entries opts rnd cbo maxID block
                      (take (blockEnd - blockStart) (drop (usIdx st) entries)) st) (\<lambda>_ st.
             (Inr (), st\<lparr>usGlobal := usGlobal st + of_nat (length block)\<rparr>))))"

fun file_blocks ::
  "ext \<Rightarrow> Header \<Rightarrow> UnpackOptions \<Rightarrow> (nat \<Rightarrow> int) \<Rightarrow> Reader option \<Rightarrow> u64 \<Rightarrow> bytes \<Rightarrow> ChunkEntry list \<Rightarrow>
   nat list \<Rightarrow> nat \<Rightarrow> u32 list \<Rightarrow> bytes \<Rightarrow> UnpackState \<Rightarrow> unit res \<times> UnpackState" where
  "file_blocks X header opts rnd cbo maxID dict entries starts i [] s st = (Inr (), st)"
| "file_blocks X header opts rnd cbo maxID dict entries starts i (blockSize # sizes) s st =
     or_stop (wrap_err ''unpack: unexpected end of delta pool'' (read_full (unat blockSize) s)) st (\<lambda>(blockData, s).
     and_then (file_block X header opts rnd cbo maxID dict entries starts i blockData st) (\<lambda>_ st.
       file_blocks X header opts rnd cbo maxID dict entries starts (i + 1) sizes s st))"

fun file_legacy ::
  "UnpackOptions \<Rightarrow> Reader option \<Rightarrow> bytes \<Rightarrow> ChunkEntry list \<Rightarrow> UnpackState \<Rightarrow> unit res \<times> UnpackState" where
  "file_legacy opts cbo pool [] st = (Inr (), st)"
| "file_legacy opts cbo pool (entry # entries) st =
     or_stop (gslice pool (unat (DeltaOffset entry)) (unat (DeltaOffset entry + ucast (DeltaSize entry)))) st (\<lambda>rs.
     or_stop (file_chunk (opts\<lparr>Fuzziness := 0\<rparr>) (\<lambda>_. 0) cbo 0 0 entry rs) st (\<lambda>chunk.
       file_legacy opts cbo pool entries (writeOut opts chunk st)))"

definition start_state :: UnpackState where
  "start_state = \<lparr>usOut = [], usHashed = [], usCorrupt = 0, usIdx = 0, usGlobal = 0\<rparr>"

definition file_pool ::
  "ext \<Rightarrow> Header \<Rightarrow> UnpackOptions \<Rightarrow> (nat \<Rightarrow> int) \<Rightarrow> Reader option \<Rightarrow> bytes \<Rightarrow> u32 list \<Rightarrow> ChunkEntry list \<Rightarrow>
   bytes \<Rightarrow> unit res \<times> UnpackState" where
  "file_pool X header opts rnd cbo dict blockTable entries s =
     (let maxID = (case cbo of Some cb \<Rightarrow> CodewordCount (rHeader cb) - 1 | None \<Rightarrow> 0) in
      if Version2 \<le> Version header then
        (let blockStarts = BlockStarts entries in
         if length blockStarts \<noteq> length blockTable
         then (Inl (GoErr ''unpack: chunk table and block table disagree''), start_state)
         else file_blocks X header opts rnd cbo maxID dict entries blockStarts 0 blockTable s start_state)
      else or_stop (DecompressPool X s) start_state (\<lambda>pool. file_legacy opts cbo pool entries start_state))"

section \<open>The file\<close>

definition needs_brain :: "ChunkEntry list \<Rightarrow> bool" where
  "needs_brain entries \<longleftrightarrow>
     list_ex (\<lambda>e. CodebookID e \<noteq> LiteralCodebookID \<and> CodebookIndex e \<noteq> FractalCodebookIndex) entries"

definition open_brain :: "ext \<Rightarrow> fs \<Rightarrow> Header \<Rightarrow> string \<Rightarrow> UnpackOptions \<Rightarrow> Reader res" where
  "open_brain X fs header codebookPath opts =
     OpenForFile X fs (MicroDictSize header) (MicroDictionaryData header) (IsEncrypted header) (Salt header)
       codebookPath (uEncryptionKey opts)"

text \<open>The outcome and the content of the temporary file at that point.\<close>

definition file_passthrough :: "ext \<Rightarrow> Header \<Rightarrow> UnpackOptions \<Rightarrow> bytes \<Rightarrow> unit res \<times> bytes" where
  "file_passthrough X header opts s =
     or_stop (if IsEncrypted header
              then wrap_err ''unpack: decrypt passthrough''
                     (Decrypt X (DeriveKey X (uEncryptionKey opts) (Salt header)) s)
              else Inr s) [] (\<lambda>dec.
       (if Fuzziness opts = 0 \<and> sha256 X dec \<noteq> OriginalHash header
        then Inl (GoErr ''unpack: SECURITY/INTEGRITY FAILURE'')
        else Inr (), dec))"

definition check_hash :: "ext \<Rightarrow> Header \<Rightarrow> UnpackOptions \<Rightarrow> UnpackState \<Rightarrow> unit res" where
  "check_hash X header opts st =
     (if Fuzziness opts = 0 \<and> sha256 X (usHashed st) \<noteq> OriginalHash header \<and> \<not> (\<not> Strict opts \<and> 0 < usCorrupt st)
      then Inl (GoErr ''unpack: SECURITY/INTEGRITY FAILURE'')
      else Inr ())"

text \<open>The dictionary, with the codebook opened for it if no chunk needed it.\<close>

definition brain_dict ::
  "ext \<Rightarrow> fs \<Rightarrow> string \<Rightarrow> UnpackOptions \<Rightarrow> Header \<Rightarrow> Reader option \<Rightarrow> (Reader option \<times> bytes) res" where
  "brain_dict X fs codebookPath opts header cbo =
     (if UsesBrainDict header then
        rbind (case cbo of Some cb \<Rightarrow> Inr cb | None \<Rightarrow> open_brain X fs header codebookPath opts) (\<lambda>cb.
        rbind (Dictionary cb) (\<lambda>d. Inr (Some cb, d)))
      else Inr (cbo, []))"

definition lossy_options :: "Header \<Rightarrow> UnpackOptions \<Rightarrow> UnpackOptions" where
  "lossy_options header opts = (if IsLossy header then opts\<lparr>Fuzziness := -1\<rparr> else opts)"

definition file_output ::
  "ext \<Rightarrow> fs \<Rightarrow> (nat \<Rightarrow> int) \<Rightarrow> string \<Rightarrow> UnpackOptions \<Rightarrow> Header \<Rightarrow> u32 list \<Rightarrow> ChunkEntry list \<Rightarrow> bytes \<Rightarrow>
   Reader option \<Rightarrow> unit res \<times> bytes" where
  "file_output X fs rnd codebookPath opts header blockTable entries s cbo =
     (let opts = lossy_options header opts in
      if IsPassthrough header \<or> ChunkCount header = 0 then file_passthrough X header opts s
      else
        or_stop (brain_dict X fs codebookPath opts header cbo) [] (\<lambda>(cbo, dict).
          case file_pool X header opts rnd cbo dict blockTable entries s of
            (r, st) \<Rightarrow> (rbind r (\<lambda>_. check_hash X header opts st), usOut st)))"

text \<open>
  \<open>Unpack\<close> returns its outcome and the file system. The deferred function removes the
  temporary file if an error was set and renames it otherwise, also when it runs because of
  a panic. The input is read before the temporary file is created, so the model assumes that
  they are different files.
\<close>

definition finish_output :: "string \<Rightarrow> unit res \<times> bytes \<Rightarrow> fs \<Rightarrow> unit res \<times> fs" where
  "finish_output outputPath outcome fs =
     (case outcome of (r, out) \<Rightarrow>
        (r, if r \<noteq> Inr () \<and> r \<noteq> Inl GoPanic then fs(outputPath @ ''.tmp'' := None)
            else (fs(outputPath @ ''.tmp'' := None))(outputPath \<mapsto> out)))"

definition Unpack ::
  "ext \<Rightarrow> (nat \<Rightarrow> int) \<Rightarrow> string \<Rightarrow> string \<Rightarrow> string \<Rightarrow> UnpackOptions \<Rightarrow> fs \<Rightarrow> unit res \<times> fs" where
  "Unpack X rnd inputPath outputPath codebookPath opts fs =
     (case fs inputPath of
        None \<Rightarrow> (Inl (GoErr ''unpack: open .crom file''), fs)
      | Some crom \<Rightarrow>
          (case wrap_err ''unpack: parse format'' (ReadStream X (uEncryptionKey opts) crom) of
             Inl e \<Rightarrow> (Inl e, fs)
           | Inr (header, blockTable, entries, s) \<Rightarrow>
               (case (if needs_brain entries then rbind (open_brain X fs header codebookPath opts) (\<lambda>cb. Inr (Some cb))
                      else Inr None) of
                  Inl e \<Rightarrow> (Inl e, fs)
                | Inr cbo \<Rightarrow>
                    finish_output outputPath
                      (file_output X fs rnd codebookPath opts header blockTable entries s cbo) fs)))"

section \<open>What happens to the other files\<close>

lemma finish_output_frame:
  "p \<noteq> outputPath \<Longrightarrow> p \<noteq> outputPath @ ''.tmp'' \<Longrightarrow> snd (finish_output outputPath res fs) p = fs p"
  by (cases res) (simp add: finish_output_def)

lemma finish_output_error:
  "fst (finish_output outputPath res fs) = Inl (GoErr e) \<Longrightarrow> snd (finish_output outputPath res fs) outputPath = fs outputPath"
  by (cases res) (auto simp: finish_output_def)

lemma Unpack_cases:
  obtains (early) "\<exists>e. Unpack X rnd inp outp cbp opts fs = (Inl e, fs)"
  | (run) crom h bt es s cbo where "fs inp = Some crom" "ReadStream X (uEncryptionKey opts) crom = Inr (h, bt, es, s)"
    "Unpack X rnd inp outp cbp opts fs = finish_output outp (file_output X fs rnd cbp opts h bt es s cbo) fs"
proof (cases "fs inp")
  case (Some crom)
  note inp = this
  show thesis
  proof (cases "ReadStream X (uEncryptionKey opts) crom")
    case (Inr r)
    obtain h bt es s where r: "r = (h, bt, es, s)" by (cases r) auto
    let ?o = "if needs_brain es then rbind (open_brain X fs h cbp opts) (\<lambda>cb. Inr (Some cb)) else Inr None"
    show thesis
    proof (cases ?o)
      case Inr
      then show thesis by (intro run) (use inp \<open>ReadStream X _ crom = Inr r\<close> r in \<open>simp_all add: Unpack_def\<close>)
    next
      case Inl
      then show thesis by (intro early) (use inp \<open>ReadStream X _ crom = Inr r\<close> r in \<open>simp add: Unpack_def\<close>)
    qed
  qed (use early inp in \<open>simp add: Unpack_def split: sum.splits\<close>)
qed (use early in \<open>simp add: Unpack_def\<close>)

section \<open>Strict unpacking checks what it writes\<close>

text \<open>In a strict run without fuzziness everything that is written is hashed.\<close>

definition all_hashed :: "UnpackState \<Rightarrow> bool" where "all_hashed st \<longleftrightarrow> usHashed st = usOut st"

lemma all_hashed_updates [simp]:
  "all_hashed (st\<lparr>usIdx := i\<rparr>) = all_hashed st" "all_hashed (st\<lparr>usGlobal := g\<rparr>) = all_hashed st"
  "all_hashed start_state" "Fuzziness opts = 0 \<Longrightarrow> all_hashed st \<Longrightarrow> all_hashed (writeOut opts b st)"
  by (simp_all add: all_hashed_def start_state_def writeOut_def)

lemma or_stop_Inr_iff: "or_stop r st f = (Inr y, st') \<longleftrightarrow> (\<exists>x. r = Inr x \<and> f x = (Inr y, st'))"
  by (cases r) simp_all

lemma and_then_Inr_iff: "and_then m f = (Inr y, st') \<longleftrightarrow> (\<exists>x st. m = (Inr x, st) \<and> f x st = (Inr y, st'))"
  by (cases m; cases "fst m") (auto simp: and_then_def)

lemma stop_if_strict:
  "Strict opts \<Longrightarrow>
   (case m of Inl e \<Rightarrow> (if Strict opts then (wrap_err p (Inl e), st) else g) | Inr x \<Rightarrow> f x) = or_stop (wrap_err p m) st f"
  by (cases "(p, m)" rule: wrap_err.cases) simp_all

lemma file_entries_hashed:
  "file_entries opts rnd cbo m block es st = (Inr (), st') \<Longrightarrow> Strict opts \<Longrightarrow> Fuzziness opts = 0 \<Longrightarrow>
   all_hashed st \<Longrightarrow> all_hashed st'"
  by (induction opts rnd cbo m block es st rule: file_entries.induct)
    (auto simp: Let_def or_stop_Inr_iff split: if_splits)

lemma file_block_hashed:
  "file_block X h opts rnd cbo m dict es starts i d st = (Inr (), st') \<Longrightarrow> Strict opts \<Longrightarrow> Fuzziness opts = 0 \<Longrightarrow>
   all_hashed st \<Longrightarrow> all_hashed st'"
  by (auto simp: file_block_def stop_if_strict or_stop_Inr_iff and_then_Inr_iff split: prod.splits
      dest: file_entries_hashed)

lemma file_blocks_hashed:
  "file_blocks X h opts rnd cbo m dict es starts i bt s st = (Inr (), st') \<Longrightarrow> Strict opts \<Longrightarrow> Fuzziness opts = 0 \<Longrightarrow>
   all_hashed st \<Longrightarrow> all_hashed st'"
  by (induction bt arbitrary: i s st)
    (auto simp: or_stop_Inr_iff and_then_Inr_iff dest: file_block_hashed)

lemma file_legacy_hashed:
  "file_legacy opts cbo pool es st = (Inr (), st') \<Longrightarrow> Fuzziness opts = 0 \<Longrightarrow> all_hashed st \<Longrightarrow> all_hashed st'"
  by (induction opts cbo pool es st rule: file_legacy.induct) (auto simp: or_stop_Inr_iff)

lemma file_pool_hashed:
  "file_pool X h opts rnd cbo dict bt es s = (Inr (), st') \<Longrightarrow> Strict opts \<Longrightarrow> Fuzziness opts = 0 \<Longrightarrow> all_hashed st'"
  by (auto simp: file_pool_def Let_def or_stop_Inr_iff split: if_splits
      dest: file_blocks_hashed file_legacy_hashed)

lemma file_output_checked:
  assumes "file_output X fs rnd cbp opts h bt es s cbo = (Inr (), out)" "Strict opts" "Fuzziness opts = 0" "\<not> IsLossy h"
  shows "sha256 X out = OriginalHash h"
proof -
  have o: "lossy_options h opts = opts" using assms(4) by (simp add: lossy_options_def)
  show ?thesis
  proof (cases "IsPassthrough h \<or> ChunkCount h = 0")
    case True
    with assms o show ?thesis
      by (auto simp: file_output_def file_passthrough_def or_stop_Inr_iff split: if_splits)
  next
    case False
    with assms(1) o obtain cbo' dict where *: "(case file_pool X h opts rnd cbo' dict bt es s of
        (r, st) \<Rightarrow> (rbind r (\<lambda>_. check_hash X h opts st), usOut st)) = (Inr (), out)"
      by (auto simp: file_output_def Let_def or_stop_Inr_iff)
    obtain r st where "file_pool X h opts rnd cbo' dict bt es s = (r, st)" by fastforce
    with * have st: "file_pool X h opts rnd cbo' dict bt es s = (Inr (), st)"
      "check_hash X h opts st = Inr ()" "out = usOut st"
      by (simp_all add: rbind_Inr_iff)
    with file_pool_hashed [OF st(1) assms(2,3)] assms(2,3) show ?thesis
      by (auto simp: check_hash_def all_hashed_def split: if_splits)
  qed
qed

section \<open>Packed files are rebuilt\<close>

text \<open>Without the variational mode a chunk is rebuilt as in memory, with the brain if it needs one.\<close>

definition brain_for :: "Reader option \<Rightarrow> Reader \<Rightarrow> ChunkEntry list \<Rightarrow> bool" where
  "brain_for cbo r es \<longleftrightarrow> cbo = Some r \<or> \<not> needs_brain es"

lemma needs_brain_simps [simp]:
  "needs_brain [] = False"
  "needs_brain (e # es) = (CodebookID e \<noteq> LiteralCodebookID \<and> CodebookIndex e \<noteq> FractalCodebookIndex \<or> needs_brain es)"
  "needs_brain (es @ es') = (needs_brain es \<or> needs_brain es')"
  by (simp_all add: needs_brain_def)

lemma brain_for_Cons: "brain_for cbo r (e # es) \<longleftrightarrow> brain_for cbo r [e] \<and> brain_for cbo r es"
  by (auto simp: brain_for_def)

lemma brain_for_append [simp]: "brain_for cbo r (es @ es') \<longleftrightarrow> brain_for cbo r es \<and> brain_for cbo r es'"
  by (auto simp: brain_for_def)

lemma file_chunk_reconstruct:
  assumes "brain_for cbo r [e]" "Fuzziness opts \<le> 0" "reconstructChunk e rs r = Inr c"
  shows "file_chunk opts rnd cbo m i e rs = Inr c"
  using assms
  by (auto simp: brain_for_def file_chunk_def reconstructChunk_def fuzz_id_def Let_def rbind_Inr_iff split: if_splits)

text \<open>\<open>emit opts b k st\<close>: \<open>k\<close> entries were unpacked to \<open>b\<close>.\<close>

definition emit :: "UnpackOptions \<Rightarrow> bytes \<Rightarrow> nat \<Rightarrow> UnpackState \<Rightarrow> UnpackState" where
  "emit opts b k st = (writeOut opts b st)\<lparr>usIdx := usIdx st + k\<rparr>"

lemma emit_simps [simp]:
  "emit opts [] 0 st = st" "usIdx (emit opts b k st) = usIdx st + k" "usGlobal (emit opts b k st) = usGlobal st"
  "usOut (emit opts b k st) = usOut st @ b" "emit opts b' k' (emit opts b k st) = emit opts (b @ b') (k + k') st"
  "emit opts b k (st\<lparr>usGlobal := g\<rparr>) = (emit opts b k st)\<lparr>usGlobal := g\<rparr>"
  by (simp_all add: emit_def writeOut_def)

lemma emit_hashed: "Fuzziness opts = 0 \<Longrightarrow> usHashed (emit opts b k st) = usHashed st @ b"
  by (simp add: emit_def writeOut_def)

lemma emit_one: "(writeOut opts b st)\<lparr>usIdx := usIdx (writeOut opts b st) + 1\<rparr> = emit opts b 1 st"
  by (simp add: emit_def writeOut_def)

lemma if_Inr_iff: "(if b then Inl e else m) = Inr x \<longleftrightarrow> \<not> b \<and> m = Inr x"
  by simp

lemma file_entries_unpack:
  "unpack_entries r g block es = Inr out \<Longrightarrow> brain_for cbo r es \<Longrightarrow> Fuzziness opts \<le> 0 \<Longrightarrow> usGlobal st = g \<Longrightarrow>
   file_entries opts rnd cbo m block es st = (Inr (), emit opts out (length es) st)"
proof (induction es arbitrary: st out)
  case (Cons e es)
  let ?lo = "DeltaOffset e - g" and ?hi = "DeltaOffset e - g + ucast (DeltaSize e)"
  from Cons.prems(1) obtain rs c rest where u: "\<not> of_nat (length block) < ?hi"
    "gslice block (unat ?lo) (unat ?hi) = Inr rs" "reconstructChunk e rs r = Inr c"
    "unpack_entries r g block es = Inr rest" "out = c @ rest"
    unfolding unpack_entries.simps Let_def if_Inr_iff rbind_Inr_iff wrap_err_Inr_iff by blast
  have c: "file_chunk opts rnd cbo m (usIdx st) e rs = Inr c"
    using Cons.prems(2,3) u(3) brain_for_Cons [of cbo r e es] by (intro file_chunk_reconstruct) simp_all
  have IH: "file_entries opts rnd cbo m block es (emit opts c 1 st) = (Inr (), emit opts rest (length es) (emit opts c 1 st))"
    using Cons.prems(2-4) u(4) brain_for_Cons [of cbo r e es] by (intro Cons.IH) simp_all
  show ?case
    unfolding file_entries.simps Let_def Cons.prems(4) emit_one
    by (simp only: u(1,2,5) c IH if_False or_stop_simps emit_simps) simp
qed simp

lemma file_block_unpack:
  assumes "open_block_data X h (uEncryptionKey opts) r d = Inr block"
    and "UsesBrainDict h \<Longrightarrow> Dictionary r = Inr dict" "\<not> UsesBrainDict h \<Longrightarrow> dict = []"
    and "BlockRange starts i (length es) = Inr (a, b)" "usGlobal st = g"
    and "unpack_entries r g block (take (b - a) (drop (usIdx st) es)) = Inr out"
    and "brain_for cbo r (take (b - a) (drop (usIdx st) es))" "Fuzziness opts \<le> 0"
  shows "file_block X h opts rnd cbo m dict es starts i d st =
    (Inr (), (emit opts out (length (take (b - a) (drop (usIdx st) es))) st)\<lparr>usGlobal := g + of_nat (length block)\<rparr>)"
proof -
  obtain d' where d: "(if IsEncrypted h
      then wrap_err ''unpack: decrypt block'' (Decrypt X (DeriveKey X (uEncryptionKey opts) (Salt h)) d) else Inr d) = Inr d'"
    "DecompressPoolDict X d' dict = Inr block"
    using assms(1-3) by (cases "UsesBrainDict h") (auto simp: open_block_data_def rbind_Inr_iff split: if_splits)
  show ?thesis
    unfolding file_block_def d(1)
    using d(2) assms(4,5) file_entries_unpack [OF assms(6-8,5)] by simp
qed

lemma usGlobal_same: "usGlobal st = g \<Longrightarrow> st\<lparr>usGlobal := g\<rparr> = st"
  by (cases st) simp

lemma file_blocks_laid:
  assumes "frames_ok X h (uEncryptionKey opts) r bs" "laid_out r off (items_of bs)"
    "off + length (pool_of (items_of bs)) < 2 ^ 63" "brain_for cbo r (map fst (items_of bs))"
    and "usGlobal st = of_nat off" "usIdx st = length (concat (entry_blocks pre))"
    and fx: "UsesBrainDict h \<Longrightarrow> Dictionary r = Inr dict" "\<not> UsesBrainDict h \<Longrightarrow> dict = []" "Fuzziness opts \<le> 0"
  shows "file_blocks X h opts rnd cbo m dict (concat (entry_blocks (pre @ bs))) (starts_of 0 (entry_blocks (pre @ bs)))
      (length pre) (sizes_of bs) (frames_of bs @ tail) st =
    (Inr (), (emit opts (content_of (items_of bs)) (length (items_of bs)) st)
      \<lparr>usGlobal := of_nat (off + length (pool_of (items_of bs)))\<rparr>)"
  using assms(1-6)
proof (induction bs arbitrary: pre off st)
  case Nil
  then show ?case by (simp add: usGlobal_same)
next
  case (Cons b bs)
  obtain its f where b: "b = (its, f)" by (cases b) auto
  define E where "E = entry_blocks (pre @ b # bs)"
  have f: "open_block_data X h (uEncryptionKey opts) r f = Inr (pool_of its)" "unat (of_nat (length f) :: u32) = length f"
    and fs: "frames_ok X h (uEncryptionKey opts) r bs"
    using Cons.prems(1) unat_of_nat_lt [of "length f", where 'a = 32] by (auto simp: frames_ok_def b)
  have i: "length pre < length E" by (simp add: E_def)
  have at: "take (length pre) E = entry_blocks pre" "E ! length pre = map fst its"
    by (simp_all add: E_def b nth_append)
  have todo: "take (length its) (drop (length (concat (entry_blocks pre))) (concat E)) = map fst its"
    unfolding concat_at [OF i] at by simp
  have ent: "unpack_entries r (of_nat off) (pool_of its) (map fst its) = Inr (content_of its)"
    using unpack_entries_laid [of r off "[]" its] Cons.prems(2,3) by (simp add: b laid_out_append)
  let ?st = "(emit opts (content_of its) (length its) st)\<lparr>usGlobal := of_nat (off + length (pool_of its))\<rparr>"
  have blk: "file_block X h opts rnd cbo m dict (concat E) (starts_of 0 E) (length pre) f st = (Inr (), ?st)"
    using file_block_unpack [OF f(1) fx(1,2) BlockRange_starts_of [OF i] Cons.prems(5) _ _ fx(3), where out = "content_of its"]
      ent Cons.prems(4,6)
    by (simp add: at todo b arg_cong [OF todo, of length, simplified])
  have "file_blocks X h opts rnd cbo m dict (concat E) (starts_of 0 E) (length pre + 1) (sizes_of bs) (frames_of bs @ tail) ?st =
    (Inr (), (emit opts (content_of (items_of bs)) (length (items_of bs)) ?st)
      \<lparr>usGlobal := of_nat (off + length (pool_of its) + length (pool_of (items_of bs)))\<rparr>)"
    using Cons.IH [of "off + length (pool_of its)" ?st "pre @ [b]"] fs Cons.prems(2-6)
    by (simp add: E_def b laid_out_append add.assoc)
  with blk f(2) show ?case
    unfolding E_def [symmetric] by (simp add: b add.assoc)
qed

lemma file_pool_packed:
  assumes p: "packed_blocks X h (uEncryptionKey opts) r bs input" and v: "Version3 \<le> Version h" "Version h \<le> Version8"
    and dict: "UsesBrainDict h \<Longrightarrow> Dictionary r = Inr dict" "\<not> UsesBrainDict h \<Longrightarrow> dict = []"
    and cb: "brain_for cbo r (map fst (items_of bs))" and fz: "Fuzziness opts \<le> 0"
  shows "\<exists>st. file_pool X ((stored_header h)\<lparr>TableBytes := n\<rparr>) opts rnd cbo dict (sizes_of bs) (map fst (items_of bs))
      (frames_of bs @ tail) = (Inr (), st) \<and> usOut st = input \<and> (Fuzziness opts = 0 \<longrightarrow> usHashed st = input)"
proof -
  let ?h = "(stored_header h)\<lparr>TableBytes := n\<rparr>" and ?E = "entry_blocks bs"
  have v2: "Version2 \<le> Version ?h" using v by (simp add: stored_fields) (simp add: version_defs word_le_nat_alt)
  have l: "laid_out r 0 (items_of bs)" "frames_ok X ?h (uEncryptionKey opts) r bs" "length (pool_of (items_of bs)) < 2 ^ 63"
    "content_of (items_of bs) = input"
    using p v by (simp_all add: packed_blocks_def frames_ok_def open_block_data_stored)
  have bst: "BlockStarts (concat ?E) = starts_of 0 ?E"
    using l(1) p by (intro BlockStarts_packed [of _ r]) (auto simp: packed_blocks_def laid_out_decodes)
  have "file_blocks X ?h opts rnd cbo m dict (concat ?E) (starts_of 0 ?E) 0 (sizes_of bs) (frames_of bs @ tail) start_state =
    (Inr (), (emit opts input (length (items_of bs)) start_state)\<lparr>usGlobal := of_nat (length (pool_of (items_of bs)))\<rparr>)" for m
    using file_blocks_laid [of X ?h opts r bs 0 cbo start_state "[]" dict rnd m tail] l cb dict fz v
    by (simp add: stored_fields) (simp add: start_state_def)
  with v2 bst have "file_pool X ?h opts rnd cbo dict (sizes_of bs) (map fst (items_of bs)) (frames_of bs @ tail) =
    (Inr (), (emit opts input (length (items_of bs)) start_state)\<lparr>usGlobal := of_nat (length (pool_of (items_of bs)))\<rparr>)"
    by (simp add: file_pool_def Let_def concat_entry_blocks)
  then show ?thesis by (auto simp: emit_hashed) (simp_all add: start_state_def)
qed

text \<open>The brain of a file: opened for the codewords, for the dictionary, or not at all.\<close>

definition brain_given :: "ext \<Rightarrow> fs \<Rightarrow> Header \<Rightarrow> string \<Rightarrow> UnpackOptions \<Rightarrow> Reader \<Rightarrow> packed \<Rightarrow> bool" where
  "brain_given X fs h codebookPath opts r bs \<longleftrightarrow>
     open_brain X fs (stored_header h) codebookPath opts = Inr r \<or>
     \<not> needs_brain (map fst (items_of bs)) \<and> \<not> UsesBrainDict h"

lemma open_brain_stored [simp]:
  "open_brain X fs (h\<lparr>TableBytes := n\<rparr>) cbp opts = open_brain X fs h cbp opts"
  by (simp add: open_brain_def)

lemma brain_dict_given:
  assumes g: "brain_given X fs h cbp opts r bs" and v: "Version3 \<le> Version h" "Version h \<le> Version8"
    and cbo: "cbo = (if needs_brain (map fst (items_of bs)) then Some r else None)" and wf: "wf_reader r"
    and o: "uEncryptionKey opts' = uEncryptionKey opts"
  shows "\<exists>cbo' dict. brain_dict X fs cbp opts' ((stored_header h)\<lparr>TableBytes := n\<rparr>) cbo = Inr (cbo', dict) \<and>
    brain_for cbo' r (map fst (items_of bs)) \<and> (UsesBrainDict h \<longrightarrow> Dictionary r = Inr dict) \<and>
    (\<not> UsesBrainDict h \<longrightarrow> dict = [])"
proof -
  obtain d where "Dictionary r = Inr d" using Dictionary_ok [OF wf] by blast
  moreover have "open_brain X fs (stored_header h) cbp opts' = open_brain X fs (stored_header h) cbp opts"
    using o by (simp add: open_brain_def)
  ultimately show ?thesis
    using g cbo by (cases "UsesBrainDict h") (auto simp: brain_dict_def stored_fields [OF v] brain_given_def brain_for_def)
qed

lemma lossy_options_fields [simp]:
  "uEncryptionKey (lossy_options h opts) = uEncryptionKey opts"
  "Fuzziness opts \<le> 0 \<Longrightarrow> Fuzziness (lossy_options h opts) \<le> 0"
  by (simp_all add: lossy_options_def)

lemma Unpack_packed:
  assumes X: "zstd_ok X" "zstd_bound X" "gcm_ok X" "hash_sizes_ok X"
    and p: "packed_file X h (uEncryptionKey opts) r bs crom input" and wf: "wf_reader r"
    and g: "brain_given X fs h cbp opts r bs" and inp: "fs inp = Some (crom @ tail)" and fz: "Fuzziness opts \<le> 0"
  shows "Unpack X rnd inp outp cbp opts fs = (Inr (), (fs(outp @ ''.tmp'' := None))(outp \<mapsto> input))"
proof -
  obtain n where rd: "ReadStream X (uEncryptionKey opts) (crom @ tail) =
      Inr ((stored_header h)\<lparr>TableBytes := n\<rparr>, sizes_of bs, map fst (items_of bs), frames_of bs @ tail)"
    using ReadStream_appended [OF X p] by blast
  have b: "packed_blocks X h (uEncryptionKey opts) r bs input" and h: "packed_header X h bs input"
    using p by (simp_all add: packed_file_def)
  have v: "Version3 \<le> Version h" "Version h \<le> Version8" using h by (simp_all add: packed_header_def)
  let ?h = "(stored_header h)\<lparr>TableBytes := n\<rparr>" and ?es = "map fst (items_of bs)"
  let ?o = "lossy_options ?h opts" and ?cbo = "if needs_brain ?es then Some r else None"
  have run: "Unpack X rnd inp outp cbp opts fs =
      finish_output outp (file_output X fs rnd cbp opts ?h (sizes_of bs) ?es (frames_of bs @ tail) ?cbo) fs"
    using g by (auto simp: Unpack_def inp rd brain_given_def)
  obtain cbo' dict where d: "brain_dict X fs cbp ?o ?h ?cbo = Inr (cbo', dict)" "brain_for cbo' r ?es"
    "UsesBrainDict h \<longrightarrow> Dictionary r = Inr dict" "\<not> UsesBrainDict h \<longrightarrow> dict = []"
    using brain_dict_given [OF g v refl wf, of ?o n] by auto
  obtain st where st: "file_pool X ?h ?o rnd cbo' dict (sizes_of bs) ?es (frames_of bs @ tail) = (Inr (), st)"
    "usOut st = input" "Fuzziness ?o = 0 \<longrightarrow> usHashed st = input"
    using file_pool_packed [of X h ?o r bs input dict cbo' n rnd tail] b v d fz by auto
  have "check_hash X ?h ?o st = Inr ()"
    using st(3) h by (auto simp: check_hash_def stored_fields [OF v] packed_header_def)
  with d st packed_count [OF p] h
  have "file_output X fs rnd cbp opts ?h (sizes_of bs) ?es (frames_of bs @ tail) ?cbo = (Inr (), input)"
    by (simp add: file_output_def Let_def stored_fields [OF v] packed_header_def)
  with run show ?thesis by (simp add: finish_output_def)
qed

section \<open>Copied files are rebuilt\<close>

text \<open>
  \<open>copied\<close> is the contract for files that hold the input as it is: a header without chunks,
  and the input or its encryption.
\<close>

definition copied :: "ext \<Rightarrow> Header \<Rightarrow> bytes \<Rightarrow> bytes \<Rightarrow> bytes \<Rightarrow> bool" where
  "copied X h ek crom input \<longleftrightarrow>
     wf_header h \<and> Version3 \<le> Version h \<and> Version h \<le> Version8 \<and> ChunkCount h = 0 \<and>
     OriginalSize h = of_nat (length input) \<and> OriginalHash h = sha256 X input \<and> (IsEncrypted h \<longrightarrow> ek \<noteq> []) \<and>
     (\<exists>body. crom = fst (Serialize h) @ body \<and>
        (if IsEncrypted h then Decrypt X (DeriveKey X ek (Salt h)) body = Inr input else body = input))"

lemma ReadStream_copied:
  assumes h: "wf_header h" "Version3 \<le> Version h" "Version h \<le> Version8" "ChunkCount h = 0" "IsEncrypted h \<longrightarrow> ek \<noteq> []"
  shows "ReadStream X ek (fst (Serialize h) @ body) = Inr (stored_header h, [], [], body)"
proof -
  have v2: "Version2 \<le> Version h" using h(2) by (auto simp: version_defs word_le_nat_alt)
  note s = stored_fields [OF h(2,3)]
  have "NumBlocks (stored_header h) = 0" by (simp add: NumBlocks_def s h(4))
  then have "read_block_table (stored_header h) body = Inr ([], body)"
    using read_block_table_written [of "stored_header h" "[]" body] v2 by (simp add: s)
  moreover have "header_key X ek (stored_header h) = Inr (if IsEncrypted h then Some (DeriveKey X ek (Salt h)) else None)"
    using h(5) by (simp add: header_key_def s)
  ultimately show ?thesis
    by (simp add: ReadStream_def ReadMetadata_def Serialize_layout [OF h(1) v2 h(3)] read_header_written [OF h(1) v2 h(3)] s h(4))
qed

lemma Unpack_copied:
  assumes c: "copied X h (uEncryptionKey opts) crom input" and inp: "fs inp = Some crom"
  shows "Unpack X rnd inp outp cbp opts fs = (Inr (), (fs(outp @ ''.tmp'' := None))(outp \<mapsto> input))"
proof -
  let ?ek = "uEncryptionKey opts"
  obtain body where h: "wf_header h" "Version3 \<le> Version h" "Version h \<le> Version8" "ChunkCount h = 0"
      "IsEncrypted h \<longrightarrow> ?ek \<noteq> []" "OriginalHash h = sha256 X input"
    and b: "crom = fst (Serialize h) @ body"
      "if IsEncrypted h then Decrypt X (DeriveKey X ?ek (Salt h)) body = Inr input else body = input"
    using c by (auto simp: copied_def)
  note rd = ReadStream_copied [OF h(1-5), of X body]
  have "file_passthrough X (stored_header h) (lossy_options (stored_header h) opts) body = (Inr (), input)"
    using b(2) h(6) by (simp add: file_passthrough_def stored_fields [OF h(2,3)] split: if_splits)
  then show ?thesis
    by (simp add: Unpack_def inp b(1) rd file_output_def stored_fields [OF h(2,3)] h(4) finish_output_def)
qed

section \<open>Properties\<close>

text \<open>
  C28. \<open>Unpack\<close> is atomic: it changes no file but its output and the temporary file next to it,
  and when it returns an error (a wrong key, a corrupt block, a hash that does not match)
  the output path holds what it held before.
\<close>

theorem unpack_atomic:
  assumes "Unpack X rnd inputPath outputPath codebookPath opts fs = (r, fs')" "p \<noteq> outputPath @ ''.tmp''"
    and "p \<noteq> outputPath \<or> (\<exists>e. r = Inl (GoErr e))"
  shows "fs' p = fs p"
proof (cases rule: Unpack_cases [of X rnd inputPath outputPath codebookPath opts fs])
  case early
  with assms(1) show ?thesis by auto
next
  case (run crom h bt es s cbo)
  then have "(r, fs') = finish_output outputPath (file_output X fs rnd codebookPath opts h bt es s cbo) fs"
    using assms(1) by simp
  then have "r = fst (finish_output outputPath (file_output X fs rnd codebookPath opts h bt es s cbo) fs)"
    "fs' = snd (finish_output outputPath (file_output X fs rnd codebookPath opts h bt es s cbo) fs)"
    by (metis fst_conv, metis snd_conv)
  with assms(2,3) finish_output_frame finish_output_error show ?thesis by metis
qed

definition sample_copied_header :: "bytes \<Rightarrow> Header" where
  "sample_copied_header hash = zero_header\<lparr>Version := 5, OriginalSize := 3, IsPassthrough := True, OriginalHash := hash\<rparr>"

lemma sample_copied_header:
  assumes "length hash = 32"
  shows "wf_header (sample_copied_header hash)" "Version3 \<le> Version (sample_copied_header hash)"
    "Version (sample_copied_header hash) \<le> Version8" "ChunkCount (sample_copied_header hash) = 0"
    "\<not> IsEncrypted (sample_copied_header hash)" "OriginalHash (sample_copied_header hash) = hash"
    "\<not> IsLossy (sample_copied_header hash)" "OriginalSize (sample_copied_header hash) = 3"
  using assms by (simp_all add: sample_copied_header_def zero_header_def wf_header_def version_defs MaxMicroDictSize_def)

definition sample_unpack_options :: UnpackOptions where
  "sample_unpack_options = \<lparr>Fuzziness = 0, uEncryptionKey = [], Strict = True\<rparr>"

text \<open>A file with a hash that does not match, over an existing output.\<close>

theorem unpack_atomic_witness:
  "\<exists>e fs'. Unpack toy_ext (\<lambda>_. 0) ''in'' ''out'' [] sample_unpack_options
      [''in'' \<mapsto> fst (Serialize (sample_copied_header (zeros 32))) @ [1, 2, 3], ''out'' \<mapsto> [9]] = (Inl (GoErr e), fs') \<and>
    fs' ''out'' = Some [9]"
proof -
  let ?h = "sample_copied_header (zeros 32)"
  let ?fs = "[''in'' \<mapsto> fst (Serialize ?h) @ [1, 2, 3], ''out'' \<mapsto> [9]]"
  have z: "length (zeros 32) = 32" by simp
  note h = sample_copied_header [OF z]
  have rd: "ReadStream toy_ext [] (fst (Serialize ?h) @ [1, 2, 3]) = Inr (stored_header ?h, [], [], [1, 2, 3])"
    using h by (intro ReadStream_copied) simp_all
  have "sha256 toy_ext [1, 2, 3] \<noteq> zeros 32" by (simp add: toy_ext_def pad32_def zeros_def numeral_eq_Suc)
  then have bad: "file_passthrough toy_ext (stored_header ?h) sample_unpack_options [1, 2, 3] =
      (Inl (GoErr ''unpack: SECURITY/INTEGRITY FAILURE''), [1, 2, 3])"
    by (simp add: file_passthrough_def stored_fields [OF h(2,3)] h sample_unpack_options_def)
  have "lossy_options (stored_header ?h) sample_unpack_options = sample_unpack_options"
    by (simp add: lossy_options_def stored_fields [OF h(2,3)] h)
  moreover have "ReadStream toy_ext (uEncryptionKey sample_unpack_options) (fst (Serialize ?h) @ [1, 2, 3]) =
      Inr (stored_header ?h, [], [], [1, 2, 3])"
    using rd by (simp add: sample_unpack_options_def)
  ultimately have "Unpack toy_ext (\<lambda>_. 0) ''in'' ''out'' [] sample_unpack_options ?fs =
      finish_output ''out'' (Inl (GoErr ''unpack: SECURITY/INTEGRITY FAILURE''), [1, 2, 3]) ?fs"
    using bad by (simp add: Unpack_def file_output_def stored_fields [OF h(2,3)] h)
  then obtain fs' where u: "Unpack toy_ext (\<lambda>_. 0) ''in'' ''out'' [] sample_unpack_options ?fs =
      (Inl (GoErr ''unpack: SECURITY/INTEGRITY FAILURE''), fs')"
    by (simp add: finish_output_def)
  have "fs' ''out'' = ?fs ''out''" by (rule unpack_atomic [OF u]) simp_all
  with u show ?thesis by auto
qed

text \<open>
  C29. A strict run without fuzziness is safe: if \<open>Unpack\<close> reports success for a file that
  its header does not mark as lossy, whatever the file and the codebook contain, the output
  path holds data with the SHA-256 of the header.
\<close>

theorem unpack_strict_integrity:
  assumes "Unpack X rnd inputPath outputPath codebookPath opts fs = (Inr (), fs')" "fs inputPath = Some crom"
    and "ReadStream X (uEncryptionKey opts) crom = Inr (h, bt, es, s)" "Strict opts" "Fuzziness opts = 0" "\<not> IsLossy h"
  shows "\<exists>out. fs' outputPath = Some out \<and> sha256 X out = OriginalHash h"
proof (cases rule: Unpack_cases [of X rnd inputPath outputPath codebookPath opts fs])
  case early
  with assms(1) show ?thesis by auto
next
  case (run crom' h' bt' es' s' cbo)
  then have eq: "h' = h" "bt' = bt" "es' = es" "s' = s" using assms(2,3) by simp_all
  obtain r out where o: "file_output X fs rnd codebookPath opts h bt es s cbo = (r, out)" by fastforce
  with run(3) assms(1) eq have "r = Inr ()" "fs' outputPath = Some out"
    by (auto simp: finish_output_def)
  with o file_output_checked [of X fs rnd codebookPath opts h bt es s cbo out] assms(4-6) show ?thesis by auto
qed

theorem unpack_strict_integrity_witness:
  "\<exists>fs'. Unpack toy_ext (\<lambda>_. 0) ''in'' ''out'' [] sample_unpack_options
      [''in'' \<mapsto> fst (Serialize (sample_copied_header (pad32 [1, 2, 3]))) @ [1, 2, 3]] = (Inr (), fs') \<and>
    (\<exists>out. fs' ''out'' = Some out \<and> sha256 toy_ext out = pad32 [1, 2, 3])"
proof -
  let ?h = "sample_copied_header (pad32 [1, 2, 3])"
  let ?fs = "[''in'' \<mapsto> fst (Serialize ?h) @ [1, 2, 3]]"
  have p: "length (pad32 [1, 2, 3]) = 32" by simp
  note h = sample_copied_header [OF p]
  have c: "copied toy_ext ?h (uEncryptionKey sample_unpack_options) (fst (Serialize ?h) @ [1, 2, 3]) [1, 2, 3]"
    using h by (simp add: copied_def toy_ext_def)
  have inp: "?fs ''in'' = Some (fst (Serialize ?h) @ [1, 2, 3])" by simp
  note u = Unpack_copied [where fs = ?fs, OF c inp, of "\<lambda>_. 0" "''out''" "[]"]
  have rd: "ReadStream toy_ext (uEncryptionKey sample_unpack_options) (fst (Serialize ?h) @ [1, 2, 3]) =
      Inr (stored_header ?h, [], [], [1, 2, 3])"
    using h by (intro ReadStream_copied) simp_all
  have "\<exists>out. ((?fs(''out'' @ ''.tmp'' := None))(''out'' \<mapsto> [1, 2, 3])) ''out'' = Some out \<and>
      sha256 toy_ext out = OriginalHash (stored_header ?h)"
    by (rule unpack_strict_integrity [OF u inp rd])
      (simp_all add: sample_unpack_options_def stored_fields [OF h(2,3)] h)
  then show ?thesis using u by (simp add: stored_fields [OF h(2,3)] h)
qed

end
