(* ===== verification/Pack_File.thy ===== *)
theory Pack_File
  imports Pack_Chunk Unpack_File Merkle
begin

text \<open>
  \<open>Pack\<close> in \<^verbatim>\<open>pkg/cromlib/compiler.go\<close>: packing a file on disk. What the run draws from its
  environment is one record: the order of the workers, the order in which maps are iterated,
  the salt and the nonces. The main result is that for every environment, every chunker and
  every option but the lossy mode, convergent encryption and a second codebook, \<open>Unpack\<close>
  writes the input back.
\<close>

section \<open>The environment of a run\<close>

text \<open>
  \<open>peWide\<close> and \<open>peCgo\<close> select the build, \<open>peOrder b n\<close> is the order in which the \<open>n\<close> chunks of
  the block \<open>b\<close> are encoded, \<open>peMapOrder\<close> permutes a map for its iteration.
\<close>

record PackEnv =
  peWide :: bool
  peCgo :: bool
  peOrder :: "nat \<Rightarrow> nat \<Rightarrow> nat list"
  peMapOrder :: "(u64 \<times> nat) list \<Rightarrow> (u64 \<times> nat) list"
  peSalt :: bytes
  peNonce :: "nat \<Rightarrow> bytes"
  peTableNonce :: bytes
  peBrainNonce :: bytes
  peBodyNonce :: bytes

section \<open>The chunker\<close>

datatype file_chunker =
  Contextual ContextualChunker | FastCDC FastCDCChunker | Aligned AlignedChunker | Fixed FixedChunker

definition choose_chunker :: "PackOptions \<Rightarrow> Reader list \<Rightarrow> bytes \<Rightarrow> file_chunker res" where
  "choose_chunker opts cbs startBytes =
     (if UseACAC opts then
        Inr (Contextual (NewContextualChunker (DetectHeuristicExtension startBytes) (nat (oChunkSize opts * 8))))
      else if UseCDC opts then Inr (FastCDC (NewFastCDCChunker (oChunkSize opts)))
      else if cbs \<noteq> [] \<and> int AlignedMinCodewordSize \<le> oChunkSize opts
      then rbind (NewAlignedChunker (hd cbs)) (\<lambda>ac. Inr (Aligned ac))
      else Inr (Fixed (NewFixedChunker (oChunkSize opts))))"

text \<open>
  Eight times the chunk size does not wrap: chunk sizes are below \<open>2^60\<close>.
  The contextual chunker only fails to return for the maximal size 0, which cannot occur
  here: the chunk size is positive. That case is not distinguished from a crash.
\<close>

fun split_chunks :: "ext \<Rightarrow> file_chunker \<Rightarrow> bytes \<Rightarrow> Chunk list res" where
  "split_chunks X (Contextual c) data =
     (case ContextualChunker_Split (xxhash X) c data of Some cs \<Rightarrow> Inr cs | None \<Rightarrow> Inl GoPanic)"
| "split_chunks X (FastCDC c) data = Inr (FastCDCChunker_Split (xxhash X) c data)"
| "split_chunks X (Aligned c) data = AlignedChunker_Split X c data"
| "split_chunks X (Fixed c) data = FixedChunker_Split (xxhash X) c data"

text \<open>The blocks that \<^verbatim>\<open>io.ReadFull\<close> returns.\<close>

function read_blocks :: "bytes \<Rightarrow> bytes list" where
  "read_blocks data = (if data = [] then [] else take BlockSize data # read_blocks (drop BlockSize data))"
  by pat_completeness auto
termination
  by (relation "measure length") (auto simp: BlockSize_def)

declare read_blocks.simps [simp del]

section \<open>The first pass\<close>

fun count_matches ::
  "bool \<Rightarrow> Chunk list \<Rightarrow> LSHSearcher \<Rightarrow> (u64 \<times> nat) list \<Rightarrow> ((u64 \<times> nat) list \<times> LSHSearcher) res" where
  "count_matches wide [] s freq = Inr (freq, s)"
| "count_matches wide (c # cs) s freq =
     (case LSH_FindBestMatch wide s (cData c) of
        (Inl GoPanic, _) \<Rightarrow> Inl GoPanic
      | (Inl (GoErr _), s) \<Rightarrow> count_matches wide cs s freq
      | (Inr m, s) \<Rightarrow>
          count_matches wide cs s
            (AList.update (mCodebookID m)
               ((case map_of freq (mCodebookID m) of Some n \<Rightarrow> n | None \<Rightarrow> 0) + 1) freq))"

fun count_blocks ::
  "ext \<Rightarrow> bool \<Rightarrow> file_chunker \<Rightarrow> bytes list \<Rightarrow> LSHSearcher \<Rightarrow> (u64 \<times> nat) list \<Rightarrow>
   ((u64 \<times> nat) list \<times> LSHSearcher) res" where
  "count_blocks X wide fc [] s freq = Inr (freq, s)"
| "count_blocks X wide fc (data # blocks) s freq =
     rbind (split_chunks X fc data) (\<lambda>chunks.
     rbind (count_matches wide chunks s freq) (\<lambda>(freq, s). count_blocks X wide fc blocks s freq))"

text \<open>The 256 most frequent identifiers; \<^verbatim>\<open>sort.Slice\<close> leaves the order of ties open.\<close>

definition top_ids :: "((u64 \<times> nat) list \<Rightarrow> (u64 \<times> nat) list) \<Rightarrow> (u64 \<times> nat) list \<Rightarrow> u64 list" where
  "top_ids order freq = map fst (take 256 (sort_key (\<lambda>p. - int (snd p)) (order freq)))"

definition first_pass ::
  "ext \<Rightarrow> PackEnv \<Rightarrow> PackOptions \<Rightarrow> file_chunker \<Rightarrow> bytes \<Rightarrow> LSHSearcher list \<Rightarrow> LSHSearcher list res" where
  "first_pass X env opts fc input searchers =
     (case searchers of
        [] \<Rightarrow> Inr []
      | s # ss \<Rightarrow>
          if MultiPass opts then
            rbind (count_blocks X (peWide env) fc (read_blocks input) s []) (\<lambda>(freq, s).
              let allowed = top_ids (peMapOrder env) freq;
                  nil_or = (if allowed = [] then None else Some allowed)
              in Inr (map (LSH_Restrict nil_or) (s # ss)))
          else Inr (s # ss))"

section \<open>Gathering the results of a block\<close>

record Gathered =
  gEntries :: "ChunkEntry list"
  gOffset :: u64
  gHits :: nat
  gLiterals :: nat
  gSimilarity :: real
  gChunks :: nat
  gFreq :: "(u64 \<times> nat) list"

definition start_gathered :: Gathered where
  "start_gathered =
     \<lparr>gEntries = [], gOffset = 0, gHits = 0, gLiterals = 0, gSimilarity = 0, gChunks = 0, gFreq = []\<rparr>"

text \<open>
  The telemetry of one result. \<open>hash/fnv\<close>'s \<open>New64a\<close> is the hash of the searcher's cache.
\<close>

definition count_result :: "processedChunk \<Rightarrow> Gathered \<Rightarrow> Gathered" where
  "count_result r g =
     (if CodebookID (pcEntry r) = LiteralCodebookID then
        (let h = chunkHash (pcRes r)
         in g\<lparr>gLiterals := gLiterals g + 1,
              gFreq := AList.update h ((case map_of (gFreq g) h of Some n \<Rightarrow> n | None \<Rightarrow> 0) + 1) (gFreq g)\<rparr>)
      else if DeltaSize (pcEntry r) = 0 \<or>
        unat (DeltaSize (pcEntry r)) * 95 div 100 < length (filter (\<lambda>b. b = 0) (pcRes r))
      then g\<lparr>gHits := gHits g + 1\<rparr>
      else g)"

text \<open>The results of a block in their order; \<open>count\<close> keeps the telemetry.\<close>

fun gather ::
  "(processedChunk \<Rightarrow> Gathered \<Rightarrow> Gathered) \<Rightarrow> processedChunk list \<Rightarrow> bytes \<Rightarrow> Gathered \<Rightarrow> (bytes \<times> Gathered) res" where
  "gather count [] blockPlainDeltas g = Inr (blockPlainDeltas, g)"
| "gather count (r # results) blockPlainDeltas g =
     (case pcErr r of
        Some e \<Rightarrow> Inl (GoErr e)
      | None \<Rightarrow>
          gather count results (blockPlainDeltas @ pcRes r)
            (count r
               (g\<lparr>gEntries := gEntries g @ [(pcEntry r)\<lparr>DeltaOffset := gOffset g\<rparr>],
                  gOffset := gOffset g + of_nat (length (pcRes r)),
                  gChunks := gChunks g + 1, gSimilarity := gSimilarity g + pcSim r\<rparr>)))"

section \<open>The blocks\<close>

definition maybe_encrypt :: "ext \<Rightarrow> bytes \<Rightarrow> bytes option \<Rightarrow> string \<Rightarrow> bytes \<Rightarrow> bytes res" where
  "maybe_encrypt X nonce key msg data =
     (case key of None \<Rightarrow> Inr data | Some k \<Rightarrow> wrap_err msg (Encrypt X nonce k data))"

definition compress_block :: "ext \<Rightarrow> string \<Rightarrow> PackEnv \<Rightarrow> PackOptions \<Rightarrow> bytes \<Rightarrow> bytes \<Rightarrow> bytes res" where
  "compress_block X msg env opts dict pool =
     wrap_err msg
       (if MaxCompression opts then CompressPoolMax X (peCgo env) pool dict else CompressPoolDict X pool dict)"

text \<open>
  The loop over the blocks: split a block, run the workers on its chunks, gather the results
  and seal the pool.
\<close>

fun pack_loop ::
  "(bytes \<Rightarrow> Chunk list res) \<Rightarrow> (nat \<Rightarrow> 's \<Rightarrow> Chunk list \<Rightarrow> (processedChunk list \<times> 's) res) \<Rightarrow>
   (processedChunk \<Rightarrow> Gathered \<Rightarrow> Gathered) \<Rightarrow> (nat \<Rightarrow> bytes \<Rightarrow> bytes res) \<Rightarrow> nat \<Rightarrow> bytes list \<Rightarrow> 's \<Rightarrow> Gathered \<Rightarrow>
   (bytes list \<times> Gathered) res" where
  "pack_loop split run count seal b [] s g = Inr ([], g)"
| "pack_loop split run count seal b (blockData # blocks) s g =
     rbind (split blockData) (\<lambda>chunks.
     rbind (run b s chunks) (\<lambda>(results, s).
     rbind (gather count results [] g) (\<lambda>(pool, g).
     rbind (seal b pool) (\<lambda>compBlock.
     rbind (pack_loop split run count seal (b + 1) blocks s g) (\<lambda>(comps, g).
       Inr (compBlock # comps, g))))))"

definition seal_block :: "ext \<Rightarrow> PackEnv \<Rightarrow> PackOptions \<Rightarrow> bytes option \<Rightarrow> bytes \<Rightarrow> nat \<Rightarrow> bytes \<Rightarrow> bytes res" where
  "seal_block X env opts key dict b pool =
     rbind (compress_block X ''pack: compress block'' env opts dict pool)
       (maybe_encrypt X (peNonce env b) key ''pack: encrypt block'')"

definition file_pack_blocks ::
  "ext \<Rightarrow> PackEnv \<Rightarrow> PackOptions \<Rightarrow> bool \<Rightarrow> file_chunker \<Rightarrow> bytes option \<Rightarrow> bytes \<Rightarrow> bytes list \<Rightarrow>
   LSHSearcher list \<Rightarrow> (bytes list \<times> Gathered) res" where
  "file_pack_blocks X env opts lit fc key dict blocks searchers =
     pack_loop (split_chunks X fc) (\<lambda>b ss chunks. process_block X (peWide env) opts lit (peOrder env b (length chunks)) ss chunks)
       count_result (seal_block X env opts key dict) 0 blocks searchers start_gathered"

section \<open>Opening the input and the codebooks\<close>

fun open_codebooks :: "fs \<Rightarrow> string list \<Rightarrow> Reader list res" where
  "open_codebooks fs [] = Inr []"
| "open_codebooks fs (p # ps) =
     rbind (wrap_err ''pack: failed to open codebook'' (cb_Open fs p)) (\<lambda>cb.
     rbind (open_codebooks fs ps) (\<lambda>cbs. Inr (cb # cbs)))"

text \<open>The adaptive chunk size, replaced by the codeword size unless the chunks depend on the content.\<close>

definition adaptive_size :: "real \<Rightarrow> int \<Rightarrow> int" where
  "adaptive_size eScore n = (if n \<le> 0 then (if eScore < 3 then 64 else if eScore < 6 then 128 else 512) else n)"

definition chunk_size_for :: "PackOptions \<Rightarrow> real \<Rightarrow> Reader list \<Rightarrow> int" where
  "chunk_size_for opts eScore cbs =
     (if cbs \<noteq> [] \<and> \<not> UseCDC opts \<and> \<not> UseACAC opts then uint (CodewordSize (rHeader (hd cbs)))
      else adaptive_size eScore (oChunkSize opts))"

text \<open>The number of chunks reserved in the file; a chunk size of 0 is a division by zero.\<close>

definition estimate_chunks :: "u64 \<Rightarrow> int \<Rightarrow> u32 res" where
  "estimate_chunks originalSize chunkSize =
     (let n = of_int chunkSize :: u64
      in if n = 0 then Inl GoPanic else Inr (ucast ((originalSize + n - 1) div n)))"

section \<open>The header\<close>

definition has_brain :: "PackOptions \<Rightarrow> string \<Rightarrow> bool" where
  "has_brain opts codebookPath \<longleftrightarrow> codebookPath \<noteq> [] \<or> CodebookPaths opts \<noteq> []"

definition codebook_hashes :: "Reader list \<Rightarrow> bytes list" where
  "codebook_hashes cbs =
     map (\<lambda>i. if i < length cbs then gcopy (zeros 8) 0 8 (slice (BuildHash (rHeader (cbs ! i))) 0 8) else zeros 8)
       [0..<3]"

definition file_header ::
  "ext \<Rightarrow> PackEnv \<Rightarrow> PackOptions \<Rightarrow> string \<Rightarrow> Reader list \<Rightarrow> bool \<Rightarrow> u64 \<Rightarrow> u32 \<Rightarrow> Header" where
  "file_header X env opts codebookPath cbs isPassthrough originalSize numChunks =
     (let h = zero_header\<lparr>Version := Version5, OriginalSize := originalSize, ChunkCount := numChunks,
                IsPassthrough := isPassthrough, ChunkSize := of_int (oChunkSize opts),
                IsLossy := (has_brain opts codebookPath \<and> Mode opts = ''edge''), UsesBrainDict := (cbs \<noteq> [])\<rparr>;
          h = (if cbs \<noteq> []
               then h\<lparr>CodebookHash := gcopy (zeros 8) 0 8 (slice (BuildHash (rHeader (hd cbs))) 0 8),
                      CodebookHashes := codebook_hashes cbs\<rparr>
               else h\<lparr>CodebookHash := gcopy (zeros 8) 0 8 (slice (sha256 X (bytes_of_string codebookPath)) 0 8)\<rparr>)
      in if EncryptionKey opts \<noteq> [] then h\<lparr>IsEncrypted := True, Salt := gcopy (zeros 16) 0 16 (peSalt env)\<rparr> else h)"

text \<open>The key is derived from the salt as drawn, not from its copy in the header.\<close>

definition file_pack_key :: "ext \<Rightarrow> PackEnv \<Rightarrow> PackOptions \<Rightarrow> bytes option" where
  "file_pack_key X env opts =
     (if EncryptionKey opts \<noteq> [] then Some (DeriveKey X (EncryptionKey opts) (peSalt env)) else None)"

section \<open>Rewriting a file in place\<close>

definition overwrite :: "nat \<Rightarrow> bytes \<Rightarrow> bytes \<Rightarrow> bytes" where
  "overwrite pos data out = take pos out @ data @ drop (pos + length data) out"

definition truncate_file :: "nat \<Rightarrow> bytes \<Rightarrow> bytes" where
  "truncate_file n out = take n out @ zeros (n - length out)"

text \<open>
  The end of \<open>Pack\<close>: the metadata is written over the space reserved for it, or the blocks
  are moved through a temporary file when the reserved size was wrong.
\<close>

definition finish_metadata :: "bytes \<Rightarrow> nat \<Rightarrow> bytes \<Rightarrow> bytes" where
  "finish_metadata meta deltaPoolStart out =
     (if length meta \<noteq> deltaPoolStart then
        (let deltaPoolSize = length out - deltaPoolStart;
             tempFile = drop deltaPoolStart out;
             out = truncate_file (length meta + deltaPoolSize) out;
             out = overwrite 0 meta out
         in overwrite (length meta) tempFile out)
      else overwrite 0 meta out)"

section \<open>A file that is copied\<close>

text \<open>
  The input is written between a first header and its replacement by one with the hash of
  the input. Both parts of \<open>Pack\<close> that write the input as it is end this way.
\<close>

definition copied_file :: "ext \<Rightarrow> PackEnv \<Rightarrow> bytes option \<Rightarrow> Header \<Rightarrow> bytes \<Rightarrow> bytes res" where
  "copied_file X env key header input =
     (let (first, header) = Serialize header in
      rbind (case key of None \<Rightarrow> Inr input | Some k \<Rightarrow> Encrypt X (peBodyNonce env) k input) (\<lambda>body.
        let header = header\<lparr>OriginalHash := gcopy (OriginalHash header) 0 32 (sha256 X input)\<rparr>
        in Inr (overwrite 0 (fst (Serialize header)) (first @ body))))"

definition copied_metrics :: "bytes \<Rightarrow> real \<Rightarrow> bytes \<Rightarrow> Metrics" where
  "copied_metrics input eScore out =
     \<lparr>mOriginalSize = of_nat (length input), mPackedSize = of_nat (length out), HitRate = 100, LiteralChunks = 0,
      MostFrequentLiteral = 0, LiteralRepetitions = 0, SuggestedMicroBrain = False, TotalChunks = 0,
      AvgSimilarity = 0, mEntropy = eScore\<rparr>"

section \<open>A file of chunks\<close>

definition embed_brain :: "ext \<Rightarrow> PackEnv \<Rightarrow> PackOptions \<Rightarrow> fs \<Rightarrow> string \<Rightarrow> bytes option \<Rightarrow> Header \<Rightarrow> Header res" where
  "embed_brain X env opts fs codebookPath key header =
     (if EmbedBrain opts then
        (case fs codebookPath of
           None \<Rightarrow> Inl (GoErr ''pack: read brain to embed'')
         | Some brain \<Rightarrow>
             rbind (wrap_err ''pack: compress embedded brain'' (CompressPool X brain)) (\<lambda>micro.
             rbind (maybe_encrypt X (peBrainNonce env) key ''pack: encrypt embedded brain'' micro) (\<lambda>micro.
               if unat MaxMicroDictSize < length micro
               then Inl (GoErr ''pack: embedded brain exceeds the format limit'')
               else Inr (header\<lparr>Version := Version8, MicroDictSize := of_nat (length micro),
                           MicroDictionaryData := micro\<rparr>))))
      else Inr header)"

definition merkle_root_of :: "ext \<Rightarrow> bytes list \<Rightarrow> bytes \<Rightarrow> bytes" where
  "merkle_root_of X blocks old =
     (if blocks \<noteq> [] then gcopy old 0 32 (Root (BuildFromHashes X (map (sha256 X) blocks))) else old)"

definition final_header ::
  "ext \<Rightarrow> PackEnv \<Rightarrow> PackOptions \<Rightarrow> fs \<Rightarrow> string \<Rightarrow> bytes option \<Rightarrow> bytes \<Rightarrow> bytes list \<Rightarrow> nat \<Rightarrow> Header \<Rightarrow> Header res" where
  "final_header X env opts fs codebookPath key input blocks numEntries header =
     (let h = header\<lparr>ChunkCount := of_nat numEntries, Version := Version7\<rparr>;
          h = (if UseConvergentEncryption opts then h\<lparr>IsConvergentEncrypted := True\<rparr> else h)
      in rbind (embed_brain X env opts fs codebookPath key h) (\<lambda>h.
           let h = (if Version h < Version8 \<and> UseConvergentEncryption opts \<and> Version h < Version6
                    then h\<lparr>Version := Version6\<rparr> else h);
               h = h\<lparr>OriginalHash := gcopy (OriginalHash h) 0 32 (sha256 X input)\<rparr>;
               h = h\<lparr>MerkleRoot := merkle_root_of X blocks (MerkleRoot h)\<rparr>
           in Inr (h\<lparr>CompressedTable := True\<rparr>)))"

text \<open>The most frequent literal: the first one of a maximal count in the order of iteration.\<close>

definition frequent_literal :: "(u64 \<times> nat) list \<Rightarrow> u64 \<times> nat" where
  "frequent_literal freq = fold (\<lambda>(h, c) (hash, maxReps). if maxReps < c then (h, c) else (hash, maxReps)) freq (0, 0)"

definition chunked_metrics :: "PackEnv \<Rightarrow> bytes \<Rightarrow> real \<Rightarrow> bytes \<Rightarrow> Gathered \<Rightarrow> Metrics" where
  "chunked_metrics env input eScore out g =
     (let (hash, maxReps) = frequent_literal (peMapOrder env (gFreq g)) in
      \<lparr>mOriginalSize = of_nat (length input), mPackedSize = of_nat (length out),
       HitRate = real (gHits g) / real (unat (of_nat (length (gEntries g)) :: u32)) * 100,
       LiteralChunks = gLiterals g, MostFrequentLiteral = hash, LiteralRepetitions = maxReps,
       SuggestedMicroBrain = (1000 < maxReps), TotalChunks = gChunks g,
       AvgSimilarity = (if 0 < gChunks g then gSimilarity g / real (gChunks g) else 0), mEntropy = eScore\<rparr>)"

definition HeaderOverhead :: nat where "HeaderOverhead = HeaderSizeV8"

fun new_searchers :: "ext \<Rightarrow> Reader list \<Rightarrow> LSHSearcher list res" where
  "new_searchers X [] = Inr []"
| "new_searchers X (cb # cbs) =
     rbind (NewLSHSearcher X cb) (\<lambda>s. rbind (new_searchers X cbs) (\<lambda>ss. Inr (s # ss)))"

text \<open>
  The chunked file: its blocks are written after space for the metadata, which is then filled
  in; a result larger than the input is replaced by a copy of the input.
\<close>

definition chunked_file ::
  "ext \<Rightarrow> PackEnv \<Rightarrow> PackOptions \<Rightarrow> fs \<Rightarrow> string \<Rightarrow> Reader list \<Rightarrow> bytes \<Rightarrow> real \<Rightarrow> bytes \<Rightarrow> u32 \<Rightarrow> Header \<Rightarrow>
   (bytes \<times> Metrics) res" where
  "chunked_file X env opts fs codebookPath cbs input eScore startBytes numChunks header =
     (let key = file_pack_key X env opts;
          literalIfNotExact = (int AlignedMinCodewordSize \<le> oChunkSize opts \<and> \<not> UseCDC opts \<and> \<not> UseACAC opts);
          (headerBytes, header) = Serialize header;
          blockTableSpace = zeros (unat (NumBlocks header * 4));
          chunkTableSpace = zeros (unat (numChunks * GetEntrySize (Version header) +
                                         (if IsEncrypted header then 28 else 0)));
          reserved = headerBytes @ blockTableSpace @ chunkTableSpace
      in rbind (if cbs = [] then Inr [] else Dictionary (hd cbs)) (\<lambda>dict.
         rbind (new_searchers X cbs) (\<lambda>searchers.
         rbind (choose_chunker opts cbs startBytes) (\<lambda>fc.
         rbind (first_pass X env opts fc input searchers) (\<lambda>searchers.
         rbind (file_pack_blocks X env opts literalIfNotExact fc key dict (read_blocks input) searchers)
           (\<lambda>(blocks, g).
         rbind (final_header X env opts fs codebookPath key input blocks (length (gEntries g)) header) (\<lambda>header.
         rbind (wrap_err ''pack: encode chunk table''
                  (EncodeCompressedTable X (peTableNonce env) (gEntries g) (Version header) key)) (\<lambda>tableData.
           let blockTable = concat (map (\<lambda>b. le_bytes 4 (of_nat (length b) :: u32)) blocks);
               meta = fst (Serialize header) @ blockTable @ tableData;
               out = finish_metadata meta (length reserved) (reserved @ concat blocks)
           in if Mode opts \<noteq> ''edge'' \<and> length input < length out \<and> HeaderOverhead < length input then
                rbind (copied_file X env key
                         (header\<lparr>ChunkCount := 0, MicroDictSize := 0, MicroDictionaryData := [],
                                 CompressedTable := False, UsesBrainDict := False\<rparr>) input) (\<lambda>out.
                  Inr (out, copied_metrics input eScore out))
              else Inr (out, chunked_metrics env input eScore out g)))))))))"

section \<open>Pack\<close>

text \<open>What \<open>Pack\<close> writes, once the input and the codebooks are open.\<close>

definition pack_output ::
  "ext \<Rightarrow> PackEnv \<Rightarrow> PackOptions \<Rightarrow> fs \<Rightarrow> string \<Rightarrow> Reader list \<Rightarrow> bytes \<Rightarrow> real \<Rightarrow> bytes \<Rightarrow> bool \<Rightarrow> u32 \<Rightarrow>
   (bytes \<times> Metrics) res" where
  "pack_output X env opts fs codebookPath cbs input eScore startBytes isPassthrough numChunks =
     (let header = file_header X env opts codebookPath cbs isPassthrough (of_nat (length input)) numChunks in
      if isPassthrough then
        rbind (copied_file X env (file_pack_key X env opts)
                 (header\<lparr>ChunkCount := 0, OriginalHash := gcopy (zeros 32) 0 32 (sha256 X startBytes)\<rparr>) input) (\<lambda>out.
          Inr (out, copied_metrics input eScore out))
      else chunked_file X env opts fs codebookPath cbs input eScore startBytes numChunks header)"

text \<open>The part before the temporary file is created.\<close>

definition pack_inputs ::
  "PackOptions \<Rightarrow> fs \<Rightarrow> string \<Rightarrow> string \<Rightarrow> (bytes \<times> real \<times> bytes \<times> bool \<times> Reader list \<times> PackOptions \<times> u32) res" where
  "pack_inputs opts fs inputPath codebookPath =
     (case fs inputPath of
        None \<Rightarrow> Inl (GoErr ''pack: open input file'')
      | Some input \<Rightarrow>
          (let (eScore, startBytes, _) = Analyze input 65536;
               isPassthrough = (\<not> has_brain opts codebookPath \<and> Mode opts \<noteq> ''edge'' \<and>
                                DetectHeuristicBypass eScore startBytes)
           in rbind (if isPassthrough then Inr []
                     else open_codebooks fs
                            (if CodebookPaths opts \<noteq> [] then CodebookPaths opts
                             else if codebookPath \<noteq> [] then [codebookPath] else [])) (\<lambda>cbs.
              let opts = opts\<lparr>oChunkSize := chunk_size_for opts eScore cbs\<rparr>;
                  isPassthrough = (isPassthrough \<or> length input < 256)
              in rbind (estimate_chunks (of_nat (length input)) (oChunkSize opts)) (\<lambda>numChunks.
                   Inr (input, eScore, startBytes, isPassthrough, cbs, opts, numChunks)))))"

text \<open>
  \<open>Pack\<close> returns its result and the file system. After an error the temporary file is removed.
  A panic ends the process; what the temporary file holds then is not modelled, and the state
  returned is the one before the run.
\<close>

definition Pack ::
  "ext \<Rightarrow> PackEnv \<Rightarrow> string \<Rightarrow> string \<Rightarrow> string \<Rightarrow> PackOptions \<Rightarrow> fs \<Rightarrow> Metrics res \<times> fs" where
  "Pack X env inputPath outputPath codebookPath opts fs =
     (case pack_inputs opts fs inputPath codebookPath of
        Inl e \<Rightarrow> (Inl e, fs)
      | Inr (input, eScore, startBytes, isPassthrough, cbs, opts, numChunks) \<Rightarrow>
          (case pack_output X env opts fs codebookPath cbs input eScore startBytes isPassthrough numChunks of
             Inl GoPanic \<Rightarrow> (Inl GoPanic, fs)
           | Inl (GoErr e) \<Rightarrow> (Inl (GoErr e), fs(outputPath @ ''.tmp'' := None))
           | Inr (out, m) \<Rightarrow> (Inr m, (fs(outputPath @ ''.tmp'' := None))(outputPath \<mapsto> out))))"

section \<open>Rewriting keeps the blocks\<close>

lemma overwrite_head: "length a = length b \<Longrightarrow> overwrite 0 a (b @ c) = a @ c"
  by (simp add: overwrite_def)

text \<open>Whatever space was reserved, the finished file is the metadata followed by the blocks.\<close>

lemma finish_metadata_layout:
  assumes "length reserved = n"
  shows "finish_metadata meta n (reserved @ pool) = meta @ pool"
proof (cases "length meta = n")
  case True
  with assms show ?thesis by (simp add: finish_metadata_def overwrite_head)
next
  case False
  define out where "out = truncate_file (length meta + length pool) (reserved @ pool)"
  have len: "length out = length meta + length pool" by (simp add: out_def truncate_file_def)
  have "overwrite (length meta) pool (overwrite 0 meta out) = meta @ pool"
    using len by (simp add: overwrite_def)
  with False assms show ?thesis by (simp add: finish_metadata_def out_def)
qed

section \<open>Blocks of the input\<close>

lemma read_blocks_Nil [simp]: "read_blocks [] = []"
  by (subst read_blocks.simps) simp

lemma read_blocks_Cons: "data \<noteq> [] \<Longrightarrow> read_blocks data = take BlockSize data # read_blocks (drop BlockSize data)"
  by (subst read_blocks.simps) simp

lemma read_blocks_eq_Nil [simp]: "read_blocks data = [] \<longleftrightarrow> data = []"
  by (cases "data = []") (simp_all add: read_blocks_Cons)

lemma concat_read_blocks: "concat (read_blocks data) = data"
proof (induction data rule: read_blocks.induct)
  case (1 data)
  then show ?case by (cases "data = []") (simp_all add: read_blocks_Cons)
qed

lemma read_blocks_sizes: "d \<in> set (read_blocks data) \<Longrightarrow> d \<noteq> [] \<and> length d \<le> BlockSize"
proof (induction data rule: read_blocks.induct)
  case (1 data)
  then show ?case
    by (cases "data = []") (auto simp: read_blocks_Cons BlockSize_def)
qed

lemma full_blocks_read:
  "map (\<lambda>b. content_of (fst b)) bs = read_blocks data \<Longrightarrow> full_blocks bs"
proof (induction bs arbitrary: data)
  case (Cons b bs)
  have ne: "data \<noteq> []" using Cons.prems by (cases "data = []") simp_all
  then have b: "content_of (fst b) = take BlockSize data" "map (\<lambda>b. content_of (fst b)) bs = read_blocks (drop BlockSize data)"
    using Cons.prems by (simp_all add: read_blocks_Cons)
  then have "bs = [] \<longleftrightarrow> length data \<le> BlockSize" by (metis drop_eq_Nil map_is_Nil_conv read_blocks_eq_Nil)
  with b ne Cons.IH [OF b(2)] show ?case by (auto simp: full_blocks_Cons)
qed simp

section \<open>Every chunker satisfies the interface\<close>

definition good_split :: "(bytes \<Rightarrow> Chunk list res) \<Rightarrow> bool" where
  "good_split split \<longleftrightarrow>
     (\<forall>data. length data < 2 ^ 32 \<longrightarrow> (\<exists>cs. split data = Inr cs \<and> concat (map cData cs) = data \<and>
        list_all good_chunk cs \<and> length cs \<le> length data))"

lemma chunker_good_split:
  assumes "chunker (xxhash X) returns lo hi" "\<And>data cs. returns data cs \<Longrightarrow> split data = Inr cs"
  shows "good_split split"
  unfolding good_split_def
proof (intro allI impI)
  fix data :: bytes
  assume "length data < 2 ^ 32"
  from chunker_good [OF assms(1) this] assms(2)
  show "\<exists>cs. split data = Inr cs \<and> concat (map cData cs) = data \<and> list_all good_chunk cs \<and> length cs \<le> length data"
    by blast
qed

lemma fixed_good_split: "good_split (FixedChunker_Split (xxhash X) (NewFixedChunker n))"
  by (rule chunker_good_split [OF fixed_chunker.chunker_axioms]) simp

lemma fastcdc_good_split: "good_split (\<lambda>data. Inr (FastCDCChunker_Split (xxhash X) (NewFastCDCChunker n) data))"
  by (rule chunker_good_split [OF fastcdc_chunker.chunker_axioms]) simp

lemma aligned_good_split:
  assumes "wf_reader r" "aligned_for r ac"
  shows "good_split (AlignedChunker_Split X ac)"
  by (rule chunker_good_split [OF aligned_chunker [OF assms]])

lemma choose_chunker_ok:
  assumes "0 < oChunkSize opts" "\<forall>r \<in> set cbs. wf_reader r"
  shows "\<exists>fc. choose_chunker opts cbs sample = Inr fc \<and> good_split (split_chunks X fc)"
proof -
  consider (acac) "UseACAC opts" | (cdc) "\<not> UseACAC opts" "UseCDC opts"
    | (aligned) "\<not> UseACAC opts" "\<not> UseCDC opts" "cbs \<noteq> []" "int AlignedMinCodewordSize \<le> oChunkSize opts"
    | (fixed) "\<not> UseACAC opts" "\<not> UseCDC opts" "cbs = [] \<or> \<not> int AlignedMinCodewordSize \<le> oChunkSize opts"
    by blast
  then show ?thesis
  proof cases
    case acac
    obtain m where m: "nat (oChunkSize opts * 8) = Suc m" using assms(1) by (cases "nat (oChunkSize opts * 8)") simp_all
    have "good_split (split_chunks X (Contextual (NewContextualChunker ft (Suc m))))" for ft
      by (rule chunker_good_split [OF contextual_chunker.chunker_axioms [of "xxhash X" ft m]]) simp
    with acac m show ?thesis by (simp add: choose_chunker_def)
  next
    case cdc
    with fastcdc_good_split show ?thesis by (simp add: choose_chunker_def good_split_def)
  next
    case aligned
    have r: "wf_reader (hd cbs)" using assms(2) aligned(3) by simp
    obtain ac where ac: "NewAlignedChunker (hd cbs) = Inr ac" "aligned_for (hd cbs) ac" using NewAlignedChunker_ok [OF r] by blast
    with aligned aligned_good_split [OF r ac(2)] show ?thesis by (simp add: choose_chunker_def good_split_def)
  next
    case fixed
    with fixed_good_split show ?thesis by (auto simp: choose_chunker_def good_split_def)
  qed
qed

section \<open>The first pass keeps the searchers usable\<close>

text \<open>The environment of a run: permutations, and random bytes of the right length.\<close>

definition env_ok :: "PackEnv \<Rightarrow> bool" where
  "env_ok env \<longleftrightarrow>
     (\<forall>b n. set (peOrder env b n) = {..<n}) \<and> (\<forall>freq. set (peMapOrder env freq) = set freq) \<and>
     length (peSalt env) = 16 \<and> (\<forall>b. length (peNonce env b) = NonceSize) \<and>
     length (peTableNonce env) = NonceSize \<and> length (peBrainNonce env) = NonceSize \<and>
     length (peBodyNonce env) = NonceSize"

definition freq_ok :: "Reader \<Rightarrow> (u64 \<times> nat) list \<Rightarrow> bool" where
  "freq_ok r freq \<longleftrightarrow> (\<forall>cid \<in> fst ` set freq. cid < CodewordCount (rHeader r))"

lemma freq_ok_update:
  "freq_ok r freq \<Longrightarrow> cid < CodewordCount (rHeader r) \<Longrightarrow> freq_ok r (AList.update cid n freq)"
  by (auto simp: freq_ok_def image_set AList.update_keys simp flip: set_map split: if_splits)

lemma count_matches_ok:
  "lsh_for r s \<Longrightarrow> list_all good_chunk cs \<Longrightarrow> freq_ok r freq \<Longrightarrow>
   \<exists>freq' s'. count_matches wide cs s freq = Inr (freq', s') \<and> lsh_for r s' \<and> freq_ok r freq'"
proof (induction cs arbitrary: s freq)
  case (Cons c cs)
  have "searchable (cData c)" using Cons.prems(2) by (simp add: good_chunk_def searchable_def)
  then obtain m s1 where m: "LSH_FindBestMatch wide s (cData c) = (Inr m, s1)" "good_match r m" "lsh_for r s1"
    using LSH_FindBestMatch_ok [OF Cons.prems(1), of "cData c" wide] by (metis prod.collapse)
  then have "freq_ok r (AList.update (mCodebookID m)
      ((case map_of freq (mCodebookID m) of Some n \<Rightarrow> n | None \<Rightarrow> 0) + 1) freq)"
    using Cons.prems(3) by (intro freq_ok_update) (simp_all add: good_match_def named_def)
  from Cons.IH [OF m(3) _ this] Cons.prems(2) m(1) show ?case by auto
qed simp

lemma count_blocks_ok:
  assumes fc: "good_split (split_chunks X fc)"
  shows "lsh_for r s \<Longrightarrow> \<forall>d \<in> set blocks. length d < 2 ^ 32 \<Longrightarrow> freq_ok r freq \<Longrightarrow>
    \<exists>freq' s'. count_blocks X wide fc blocks s freq = Inr (freq', s') \<and> lsh_for r s' \<and> freq_ok r freq'"
proof (induction blocks arbitrary: s freq)
  case (Cons d blocks)
  have "length d < 2 ^ 32" using Cons.prems(2) by simp
  then obtain cs where cs: "split_chunks X fc d = Inr cs" "list_all good_chunk cs"
    using fc unfolding good_split_def by blast
  obtain freq1 s1 where 1: "count_matches wide cs s freq = Inr (freq1, s1)" "lsh_for r s1" "freq_ok r freq1"
    using count_matches_ok [OF Cons.prems(1) cs(2) Cons.prems(3)] by blast
  with Cons.IH [OF 1(2) _ 1(3)] Cons.prems(2) cs show ?case by auto
qed simp

lemma top_ids_valid:
  assumes "freq_ok r freq" "set (order freq) = set freq"
  shows "valid_ids r (top_ids order freq)"
proof -
  have "set (top_ids order freq) \<subseteq> fst ` set freq"
    using assms(2) by (auto simp: top_ids_def dest!: in_set_takeD)
  with assms(1) show ?thesis by (auto simp: valid_ids_def freq_ok_def)
qed

lemma first_pass_ok:
  assumes fc: "good_split (split_chunks X fc)" and env: "env_ok env"
    and t: "tiers_for rs ss" and one: "length rs \<le> 1"
  shows "\<exists>ss'. first_pass X env opts fc input ss = Inr ss' \<and> tiers_for rs ss'"
proof (cases ss)
  case Nil
  with t show ?thesis by (simp add: first_pass_def)
next
  case (Cons s ss')
  then obtain r where rs: "rs = [r]" "lsh_for r s" "ss' = []"
    using t one by (cases rs) (auto simp: tiers_for_def)
  have len: "\<forall>d \<in> set (read_blocks input). length d < 2 ^ 32"
    by (auto dest!: read_blocks_sizes simp: BlockSize_def)
  have f0: "freq_ok r []" by (simp add: freq_ok_def)
  obtain freq s' where f: "count_blocks X (peWide env) fc (read_blocks input) s [] = Inr (freq, s')" "lsh_for r s'" "freq_ok r freq"
    using count_blocks_ok [OF fc rs(2) len f0] by blast
  define ids where "ids = top_ids (peMapOrder env) freq"
  have v: "valid_ids r ids" unfolding ids_def using env f(3) by (intro top_ids_valid) (simp_all add: env_ok_def)
  have r: "lsh_for r (LSH_Restrict (if ids = [] then None else Some ids) s')"
    using f(2) v by (intro LSH_Restrict_ok lsh_for_core) (auto simp: allowed_ids_def valid_ids_def)
  show ?thesis
  proof (cases "MultiPass opts")
    case True
    with f r rs Cons show ?thesis
      by (cases "ids = []") (simp_all add: first_pass_def tiers_for_def Let_def flip: ids_def)
  next
    case False
    with t Cons show ?thesis by (simp add: first_pass_def)
  qed
qed

section \<open>Gathered results are laid out\<close>

lemma placed_DeltaOffset [simp]: "DeltaOffset (placed off e) = off"
  by (simp add: placed_def)

lemma encodes_single:
  assumes "\<forall>x \<in> set rs. x = r" "encodes rs pc data"
  shows "decodes r (placed off (pcEntry pc), pcRes pc, data)"
proof -
  have "unat (CodebookIndex (pcEntry pc)) < length rs \<longrightarrow> r = rs ! unat (CodebookIndex (pcEntry pc))"
    using assms(1) by (metis nth_mem)
  with assms(2) show ?thesis unfolding encodes_def by blast
qed

definition counter :: "(processedChunk \<Rightarrow> Gathered \<Rightarrow> Gathered) \<Rightarrow> bool" where
  "counter count \<longleftrightarrow> (\<forall>r g. gEntries (count r g) = gEntries g \<and> gOffset (count r g) = gOffset g)"

lemma counter_count_result: "counter count_result"
  by (simp add: counter_def count_result_def Let_def)

lemma gather_ok:
  assumes rs: "\<forall>x \<in> set rs. x = r" and count: "counter count"
  shows "list_all2 (encodes rs) results datas \<Longrightarrow> gOffset g = of_nat off \<Longrightarrow>
    \<exists>its g'. gather count results pool g = Inr (pool @ pool_of its, g') \<and> gEntries g' = gEntries g @ map fst its \<and>
      gOffset g' = of_nat (off + length (pool_of its)) \<and> laid_out r off its \<and>
      content_of its = concat datas \<and> length (pool_of its) \<le> length (concat datas) \<and> length its = length datas"
proof (induction results arbitrary: datas g off pool)
  case Nil
  then show ?case by (auto intro!: exI [of _ "[]"])
next
  case (Cons pc results)
  obtain data datas' where d: "datas = data # datas'" "encodes rs pc data" "list_all2 (encodes rs) results datas'"
    using Cons.prems(1) by (auto simp: list_all2_Cons1)
  let ?e = "placed (gOffset g) (pcEntry pc)"
  have dec: "decodes r (?e, pcRes pc, data)" "pcErr pc = None" "length (pcRes pc) \<le> length data"
    using d(2) encodes_single [OF rs] by (auto simp: encodes_def)
  let ?g = "count pc (g\<lparr>gEntries := gEntries g @ [?e], gOffset := gOffset g + of_nat (length (pcRes pc)),
      gChunks := gChunks g + 1, gSimilarity := gSimilarity g + pcSim pc\<rparr>)"
  have c: "gEntries ?g = gEntries g @ [?e]" "gOffset ?g = gOffset g + of_nat (length (pcRes pc))"
    using count by (simp_all add: counter_def)
  then have "gOffset ?g = of_nat (off + length (pcRes pc))" using Cons.prems(2) by simp
  then obtain its g' where its: "gather count results (pool @ pcRes pc) ?g = Inr ((pool @ pcRes pc) @ pool_of its, g')"
    "gEntries g' = gEntries ?g @ map fst its" "gOffset g' = of_nat (off + length (pcRes pc) + length (pool_of its))"
    "laid_out r (off + length (pcRes pc)) its" "content_of its = concat datas'"
    "length (pool_of its) \<le> length (concat datas')" "length its = length datas'"
    using Cons.IH [OF d(3)] by blast
  have "gather count (pc # results) pool g = Inr (pool @ pool_of ((?e, pcRes pc, data) # its), g')"
    using its(1) dec(2) by (simp add: placed_def)
  with its [unfolded c] dec d(1) Cons.prems(2) show ?case
    by (intro exI [of _ "(?e, pcRes pc, data) # its"] exI [of _ g']) (simp add: add.assoc)
qed

section \<open>Packed blocks\<close>

text \<open>The header under which a frame is opened agrees with the key and the dictionary it was made with.\<close>

definition framing :: "ext \<Rightarrow> Header \<Rightarrow> bytes \<Rightarrow> Reader \<Rightarrow> bytes option \<Rightarrow> bytes \<Rightarrow> bool" where
  "framing X h ek r key dict \<longleftrightarrow>
     file_key X ek h = key \<and> (if UsesBrainDict h then Dictionary r = Inr dict else dict = [])"

lemma frame_opens:
  assumes X: "zstd_ok X" "zstd_bound X" "gcm_ok X" "hash_sizes_ok X" and f: "framing X h ek r key dict"
    and m: "MaxCompression opts \<longrightarrow> peCgo env" and n: "length nonce = NonceSize" and p: "length pool \<le> BlockSize"
  shows "\<exists>z fr. compress_block X cmsg env opts dict pool = Inr z \<and> maybe_encrypt X nonce key msg z = Inr fr \<and>
    open_block_data X h ek r fr = Inr pool \<and> length fr < 2 ^ 32"
proof -
  obtain z where z: "(if MaxCompression opts then CompressPoolMax X (peCgo env) pool dict else CompressPoolDict X pool dict) = Inr z"
    using m by (cases "MaxCompression opts"; cases "pool = []") (auto simp: CompressPoolMax_def CompressPoolDict_def)
  have dec: "DecompressPoolDict X z dict = Inr pool"
    using z DecompressPoolDict_CompressPoolDict [OF X(1)] DecompressPoolDict_CompressPoolMax [OF X(1)]
    by (auto split: if_splits)
  have "length (zstd_encode X l dict pool) \<le> length pool + length pool div 256 + 64" for l
    using X(2) by (simp add: zstd_bound_def)
  then have len: "length z \<le> length pool + length pool div 256 + 64"
    using z by (auto simp: CompressPoolMax_def CompressPoolDict_def split: if_splits)
  obtain fr where fr: "maybe_encrypt X nonce key msg z = Inr fr" "length fr \<le> length z + 28"
    "(if IsEncrypted h then wrap_err ''unpackbytes: decrypt block'' (Decrypt X (DeriveKey X ek (Salt h)) fr) else Inr fr) = Inr z"
  proof (cases "IsEncrypted h")
    case True
    have key: "key = Some (DeriveKey X ek (Salt h))" using f True by (simp add: framing_def file_key_def)
    obtain c where c: "Encrypt X nonce (DeriveKey X ek (Salt h)) z = Inr c" by (simp add: Encrypt_DeriveKey [OF X(4)])
    from Decrypt_Encrypt [OF X(3) n c] length_Encrypt [OF X(3) n c] show thesis
      by (intro that [of c]) (simp_all add: maybe_encrypt_def key c True)
  next
    case False
    then have "key = None" using f by (simp add: framing_def file_key_def)
    with False show thesis by (intro that [of z]) (simp_all add: maybe_encrypt_def)
  qed
  have "open_block_data X h ek r fr = Inr pool"
    using f fr(3) dec by (cases "UsesBrainDict h") (simp_all add: open_block_data_def framing_def)
  moreover have "length fr < 2 ^ 32" using fr(2) len p by (simp add: BlockSize_def)
  ultimately show ?thesis using z fr(1) by (simp add: compress_block_def)
qed

text \<open>
  A block loop packs every list of blocks if its chunker, its workers and its seal are right.
  \<open>sealed\<close> says that sealing succeeds and the frame opens to the pool.
\<close>

definition sealed :: "ext \<Rightarrow> Header \<Rightarrow> bytes \<Rightarrow> Reader \<Rightarrow> (nat \<Rightarrow> bytes \<Rightarrow> bytes res) \<Rightarrow> bool" where
  "sealed X h ek r seal \<longleftrightarrow>
     (\<forall>b pool. length pool \<le> BlockSize \<longrightarrow>
        (\<exists>fr. seal b pool = Inr fr \<and> open_block_data X h ek r fr = Inr pool \<and> length fr < 2 ^ 32))"

definition packs_blocks :: "ext \<Rightarrow> Header \<Rightarrow> bytes \<Rightarrow> Reader \<Rightarrow> nat \<Rightarrow> bytes list \<Rightarrow> packed \<Rightarrow> bool" where
  "packs_blocks X h ek r off blocks bs \<longleftrightarrow>
     frames_ok X h ek r bs \<and> laid_out r off (items_of bs) \<and> map (\<lambda>b. content_of (fst b)) bs = blocks \<and>
     length (pool_of (items_of bs)) \<le> length (concat blocks) \<and> length (items_of bs) \<le> length (concat blocks)"

lemma pack_loop_ok:
  assumes split: "good_split split" and count: "counter count" and seal: "sealed X h ek r seal"
    and rs: "\<forall>x \<in> set rs. x = r"
    and run: "\<And>b s chunks. shared s \<Longrightarrow> list_all good_chunk chunks \<Longrightarrow> \<exists>results s'. run b s chunks = Inr (results, s') \<and> shared s' \<and>
      list_all2 (encodes rs) results (map cData chunks)"
  shows "shared s \<Longrightarrow> \<forall>d \<in> set blocks. length d \<le> BlockSize \<Longrightarrow> gOffset g = of_nat off \<Longrightarrow>
    \<exists>bs g'. pack_loop split run count seal b blocks s g = Inr (map snd bs, g') \<and>
      gEntries g' = gEntries g @ map fst (items_of bs) \<and> packs_blocks X h ek r off blocks bs"
proof (induction blocks arbitrary: b s g off)
  case Nil
  then show ?case by (auto simp: frames_ok_def packs_blocks_def intro!: exI [of _ "[]"])
next
  case (Cons d blocks)
  have d32: "length d < 2 ^ 32" "length d \<le> BlockSize" using Cons.prems(2) by (auto simp: BlockSize_def)
  obtain cs where cs: "split d = Inr cs" "concat (map cData cs) = d" "list_all good_chunk cs" "length cs \<le> length d"
    using split d32(1) unfolding good_split_def by blast
  obtain results s1 where r: "run b s cs = Inr (results, s1)" "shared s1" "list_all2 (encodes rs) results (map cData cs)"
    using run [OF Cons.prems(1) cs(3)] by blast
  obtain its g1 where g: "gather count results [] g = Inr (pool_of its, g1)" "gEntries g1 = gEntries g @ map fst its"
    "gOffset g1 = of_nat (off + length (pool_of its))" "laid_out r off its" "content_of its = d"
    "length (pool_of its) \<le> length d" "length its = length cs"
    using gather_ok [OF rs count r(3) Cons.prems(3), of "[]"] cs(2) by auto
  have "length (pool_of its) \<le> BlockSize" using g(6) d32(2) by linarith
  then obtain fr where fr: "seal b (pool_of its) = Inr fr" "open_block_data X h ek r fr = Inr (pool_of its)" "length fr < 2 ^ 32"
    using seal unfolding sealed_def by blast
  have ds: "\<forall>d \<in> set blocks. length d \<le> BlockSize" using Cons.prems(2) by simp
  obtain bs g' where bs: "pack_loop split run count seal (b + 1) blocks s1 g1 = Inr (map snd bs, g')"
    "gEntries g' = gEntries g1 @ map fst (items_of bs)" "packs_blocks X h ek r (off + length (pool_of its)) blocks bs"
    using Cons.IH [OF r(2) ds g(3), of "b + 1"] by blast
  have "pack_loop split run count seal b (d # blocks) s g = Inr (map snd ((its, fr) # bs), g')"
    using cs(1) r(1) g(1) fr(1) bs(1) by simp
  moreover have "packs_blocks X h ek r off (d # blocks) ((its, fr) # bs)"
    using bs(3) fr(2,3) g cs(4) by (auto simp: packs_blocks_def frames_ok_def laid_out_append)
  ultimately show ?case
    using g(2) bs(2) by (intro exI [of _ "(its, fr) # bs"] exI [of _ g']) simp
qed

lemma content_of_blocks: "content_of (items_of bs) = concat (map (\<lambda>b. content_of (fst b)) bs)"
  by (induction bs) simp_all

text \<open>Blocks of a whole input that are packed from offset 0.\<close>

lemma packs_input:
  assumes "packs_blocks X h ek r 0 (read_blocks input) bs" "input \<noteq> []" "length input < 2 ^ 27"
  shows "packed_blocks X h ek r bs input"
proof -
  have b: "frames_ok X h ek r bs" "laid_out r 0 (items_of bs)" "map (\<lambda>b. content_of (fst b)) bs = read_blocks input"
    "length (pool_of (items_of bs)) \<le> length input" "length (items_of bs) \<le> length input"
    using assms(1) by (simp_all add: packs_blocks_def concat_read_blocks)
  have "\<forall>it \<in> set (items_of bs). decodes r it" using b(2) by (auto simp: laid_out_decodes)
  then have "table_fits (map fst (items_of bs))" using b(5) assms(3) by (intro table_fits_small) simp_all
  moreover have "bs \<noteq> []" using b(3) assms(2) by (metis list.map(1) read_blocks_eq_Nil)
  moreover have "content_of (items_of bs) = input" by (simp add: content_of_blocks b(3) concat_read_blocks)
  ultimately show ?thesis
    using b assms(3) full_blocks_read [OF b(3)] by (simp add: packed_blocks_def)
qed

lemma file_pack_blocks_ok:
  assumes X: "zstd_ok X" "zstd_bound X" "gcm_ok X" "hash_sizes_ok X" and f: "framing X h ek r key dict"
    and m: "MaxCompression opts \<longrightarrow> peCgo env" and env: "env_ok env" and fc: "good_split (split_chunks X fc)"
    and rs: "readers_ok rs" "\<forall>x \<in> set rs. x = r" and t: "tiers_for rs ss"
    and o: "Mode opts \<noteq> ''edge''" "\<not> converging opts" "0 < Concurrency opts"
  shows "\<exists>bs g. file_pack_blocks X env opts lit fc key dict (read_blocks input) ss = Inr (map snd bs, g) \<and>
      gEntries g = map fst (items_of bs) \<and> packs_blocks X h ek r 0 (read_blocks input) bs"
proof -
  have "sealed X h ek r (seal_block X env opts key dict)"
    unfolding sealed_def
  proof (intro allI impI)
    fix b :: nat and pool :: bytes
    assume p: "length pool \<le> BlockSize"
    have n: "length (peNonce env b) = NonceSize" using env by (simp add: env_ok_def)
    show "\<exists>fr. seal_block X env opts key dict b pool = Inr fr \<and> open_block_data X h ek r fr = Inr pool \<and> length fr < 2 ^ 32"
      using frame_opens [OF X f m n p, of "''pack: compress block''" "''pack: encrypt block''"] by (auto simp: seal_block_def)
  qed
  moreover have "\<exists>results s'. process_block X (peWide env) opts lit (peOrder env b (length chunks)) s chunks = Inr (results, s') \<and>
      pack_work_inv opts rs s' \<and> list_all2 (encodes rs) results (map cData chunks)"
    if "pack_work_inv opts rs s" "list_all good_chunk chunks" for b s chunks
    unfolding process_block_def
    by (rule pack_worker.run_workers_ok [OF that(2) o(3) _ that(1)]) (use env in \<open>simp add: env_ok_def\<close>)
  moreover have "pack_work_inv opts rs ss" using rs(1) o t by (simp add: pack_work_inv_def)
  moreover have "\<forall>d \<in> set (read_blocks input). length d \<le> BlockSize" using read_blocks_sizes by blast
  ultimately show ?thesis
    using pack_loop_ok [OF fc counter_count_result _ rs(2), of X h ek "seal_block X env opts key dict" "pack_work_inv opts rs"
        "\<lambda>b ss chunks. process_block X (peWide env) opts lit (peOrder env b (length chunks)) ss chunks" ss "read_blocks input"
        start_gathered 0 0]
    by (simp add: file_pack_blocks_def start_gathered_def)
qed

section \<open>Headers\<close>

lemma gcopy_all: "length buf = n \<Longrightarrow> length src = n \<Longrightarrow> gcopy buf 0 n src = src"
  by (simp add: gcopy_def put_def)

lemma codebook_hashes_ok:
  assumes "\<forall>r \<in> set cbs. wf_reader r"
  shows "length (codebook_hashes cbs) = 3" "\<forall>c \<in> set (codebook_hashes cbs). length c = 8"
proof -
  have "length (gcopy (zeros 8) 0 8 (slice (BuildHash (rHeader (cbs ! i))) 0 8)) = 8" if "i < length cbs" for i
  proof -
    have "wf_reader (cbs ! i)" using assms that by simp
    then have "length (BuildHash (rHeader (cbs ! i))) = 32" by (simp add: wf_reader_def wf_cb_header_def)
    then show ?thesis by (simp add: gcopy_def buffer_simps)
  qed
  then show "length (codebook_hashes cbs) = 3" "\<forall>c \<in> set (codebook_hashes cbs). length c = 8"
    by (auto simp: codebook_hashes_def)
qed

text \<open>What the rest of \<open>Pack\<close> relies on in the first header.\<close>

definition base_header :: "ext \<Rightarrow> PackEnv \<Rightarrow> PackOptions \<Rightarrow> Reader list \<Rightarrow> bytes \<Rightarrow> Header \<Rightarrow> bool" where
  "base_header X env opts cbs input h \<longleftrightarrow>
     wf_header h \<and> Version h = Version5 \<and> OriginalSize h = of_nat (length input) \<and> MicroDictSize h = 0 \<and>
     MicroDictionaryData h = [] \<and> file_key X (EncryptionKey opts) h = file_pack_key X env opts \<and>
     (IsEncrypted h \<longleftrightarrow> EncryptionKey opts \<noteq> []) \<and> (UsesBrainDict h \<longleftrightarrow> cbs \<noteq> [])"

lemma file_header_base:
  assumes env: "env_ok env" and X: "hash_sizes_ok X" and cbs: "\<forall>r \<in> set cbs. wf_reader r"
  shows "base_header X env opts cbs input (file_header X env opts cbp cbs pt (of_nat (length input)) n)"
    "IsPassthrough (file_header X env opts cbp cbs pt (of_nat (length input)) n) = pt"
proof -
  have salt: "gcopy (zeros 16) 0 16 (peSalt env) = peSalt env" "length (peSalt env) = 16"
    using env by (simp_all add: env_ok_def gcopy_all)
  have b: "length (gcopy (zeros 8) 0 8 (slice (BuildHash (rHeader (hd cbs))) 0 8)) = 8" if "cbs \<noteq> []"
  proof -
    have "wf_reader (hd cbs)" using cbs that by simp
    then have "length (BuildHash (rHeader (hd cbs))) = 32" by (simp add: wf_reader_def wf_cb_header_def)
    then show ?thesis by (simp add: gcopy_def buffer_simps)
  qed
  have s: "length (gcopy (zeros 8) 0 8 (slice (sha256 X p) 0 8)) = 8" for p
    using X by (simp add: gcopy_def buffer_simps hash_sizes)
  note defs = file_header_def Let_def
  have wf: "wf_header (file_header X env opts cbp cbs pt (of_nat (length input)) n)"
    unfolding wf_header_def using b s salt codebook_hashes_ok [OF cbs]
    by (cases "cbs = []") (simp_all add: defs zero_header_def MaxMicroDictSize_def)
  show "base_header X env opts cbs input (file_header X env opts cbp cbs pt (of_nat (length input)) n)"
    unfolding base_header_def using wf salt
    by (simp add: defs zero_header_def file_key_def file_pack_key_def)
  show "IsPassthrough (file_header X env opts cbp cbs pt (of_nat (length input)) n) = pt"
    by (simp add: defs)
qed

text \<open>The embedded brain fits the format.\<close>

definition brain_fits :: "ext \<Rightarrow> PackOptions \<Rightarrow> fs \<Rightarrow> string \<Rightarrow> bool" where
  "brain_fits X opts fs codebookPath \<longleftrightarrow>
     (EmbedBrain opts \<longrightarrow>
        (\<exists>brain. fs codebookPath = Some brain \<and> brain \<noteq> [] \<and> length (zstd_encode X 1 [] brain) + 28 \<le> unat MaxMicroDictSize))"

definition same_but_version :: "Header \<Rightarrow> Header \<Rightarrow> bool" where
  "same_but_version h h' \<longleftrightarrow>
     OriginalSize h' = OriginalSize h \<and> IsEncrypted h' = IsEncrypted h \<and> Salt h' = Salt h \<and>
     UsesBrainDict h' = UsesBrainDict h \<and> IsPassthrough h' = IsPassthrough h \<and> ChunkCount h' = ChunkCount h \<and>
     OriginalHash h' = OriginalHash h \<and> MerkleRoot h' = MerkleRoot h"

lemma embed_brain_ok:
  assumes X: "zstd_ok X" "gcm_ok X" "hash_sizes_ok X" and env: "env_ok env" and fit: "brain_fits X opts fs cbp"
    and h: "wf_header h" "Version h = Version7" "MicroDictSize h = 0" "file_key X (EncryptionKey opts) h = key"
  shows "\<exists>h'. embed_brain X env opts fs cbp key h = Inr h' \<and> wf_header h' \<and> same_but_version h h' \<and>
    Version7 \<le> Version h' \<and> Version h' \<le> Version8 \<and>
    (EmbedBrain opts \<longrightarrow> Version h' = Version8 \<and> MicroDictSize h' \<noteq> 0 \<and>
       (\<forall>brain path fs'. fs cbp = Some brain \<longrightarrow>
          OpenForFile X fs' (MicroDictSize h') (MicroDictionaryData h') (IsEncrypted h) (Salt h) path (EncryptionKey opts) =
          OpenFromBytes brain)) \<and>
    (\<not> EmbedBrain opts \<longrightarrow> h' = h)"
proof (cases "EmbedBrain opts")
  case False
  with h show ?thesis by (simp add: embed_brain_def same_but_version_def version_defs)
next
  case True
  obtain brain where b: "fs cbp = Some brain" "length (zstd_encode X 1 [] brain) + 28 \<le> unat MaxMicroDictSize" "brain \<noteq> []"
    using fit True by (auto simp: brain_fits_def)
  let ?z = "zstd_encode X 1 [] brain"
  obtain micro where m: "maybe_encrypt X (peBrainNonce env) key ''pack: encrypt embedded brain'' ?z = Inr micro"
    "length micro \<le> length ?z + 28" "micro \<noteq> []"
    "(if IsEncrypted h then wrap_err ''decrypt embedded brain'' (Decrypt X (DeriveKey X (EncryptionKey opts) (Salt h)) micro)
      else Inr micro) = Inr ?z"
  proof (cases "IsEncrypted h")
    case enc: True
    have key: "key = Some (DeriveKey X (EncryptionKey opts) (Salt h))" using h(4) enc by (simp add: file_key_def)
    have n: "length (peBrainNonce env) = NonceSize" using env by (simp add: env_ok_def)
    obtain c where c: "Encrypt X (peBrainNonce env) (DeriveKey X (EncryptionKey opts) (Salt h)) ?z = Inr c"
      by (simp add: Encrypt_DeriveKey [OF X(3)])
    from Decrypt_Encrypt [OF X(2) n c] length_Encrypt [OF X(2) n c] show thesis
      by (intro that [of c]) (auto simp: maybe_encrypt_def key c [unfolded One_nat_def] enc)
  next
    case False
    then have "key = None" using h(4) by (simp add: file_key_def)
    with False show thesis by (intro that [of ?z]) (simp_all add: maybe_encrypt_def zstd_ok_simps [OF X(1)] b(3))
  qed
  have len: "length micro \<le> unat MaxMicroDictSize" using m(2) b(2) by linarith
  then have u: "unat (of_nat (length micro) :: u32) = length micro"
    using unat_lt [of MaxMicroDictSize] by (intro unat_of_nat_lt) simp
  let ?h = "h\<lparr>Version := Version8, MicroDictSize := of_nat (length micro), MicroDictionaryData := micro\<rparr>"
  have "embed_brain X env opts fs cbp key h = Inr ?h"
    using True b(1) m(1) len by (simp add: embed_brain_def CompressPool_def)
  moreover have "wf_header ?h" using h(1) len u by (simp add: wf_header_def word_le_nat_alt)
  moreover have n0: "(of_nat (length micro) :: u32) \<noteq> 0" using m(3) u by (metis length_0_conv unat_0)
  moreover have "OpenForFile X fs' (of_nat (length micro)) micro (IsEncrypted h) (Salt h) path (EncryptionKey opts) =
      OpenFromBytes brain" for fs' path
    using n0 m(4) zstd_ok_simps(1) [OF X(1)] by (simp add: OpenForFile_def)
  ultimately show ?thesis
    using True b(1) by (intro exI [of _ ?h]) (simp add: same_but_version_def version_defs)
qed

lemma merkle_root_length:
  assumes "hash_sizes_ok X" "length old = 32"
  shows "length (merkle_root_of X blocks old) = 32"
proof (cases "blocks = []")
  case False
  let ?l = "map (sha256 X) blocks"
  have l: "hashes ?l" "?l \<noteq> []" using assms(1) False by (auto simp: hashes_def hash_sizes)
  have "length (Root (BuildFromHashes X ?l)) = 32"
    using l assms(1) pad_even_props [of ?l] by (simp add: Root_top hashes_merkle_top)
  with assms(2) False show ?thesis by (simp add: merkle_root_of_def gcopy_all)
qed (use assms in \<open>simp add: merkle_root_of_def\<close>)

section \<open>The final header\<close>

text \<open>
  What unpacking needs of the brain: the embedded one is the codebook itself, whatever path is
  given; without a codebook there is nothing to look up.
\<close>

definition brain_embedded :: "ext \<Rightarrow> PackOptions \<Rightarrow> fs \<Rightarrow> string \<Rightarrow> Header \<Rightarrow> bool" where
  "brain_embedded X opts fs codebookPath h \<longleftrightarrow>
     (EmbedBrain opts \<longrightarrow> Version h = Version8 \<and> MicroDictSize h \<noteq> 0 \<and>
        (\<forall>brain path fs'. fs codebookPath = Some brain \<longrightarrow>
           OpenForFile X fs' (MicroDictSize h) (MicroDictionaryData h) (IsEncrypted h) (Salt h) path (EncryptionKey opts) =
           OpenFromBytes brain)) \<and>
     (\<not> EmbedBrain opts \<longrightarrow> MicroDictSize h = 0)"

lemma final_header_ok:
  assumes X: "zstd_ok X" "gcm_ok X" "hash_sizes_ok X" and env: "env_ok env" and fit: "brain_fits X opts fs cbp"
    and b: "base_header X env opts cbs input h0" "\<not> IsPassthrough h0"
  shows "\<exists>h. final_header X env opts fs cbp (file_pack_key X env opts) input blocks (length (items_of bs)) h0 = Inr h \<and>
    packed_header X h bs input \<and> file_key X (EncryptionKey opts) h = file_pack_key X env opts \<and>
    (IsEncrypted h \<longleftrightarrow> EncryptionKey opts \<noteq> []) \<and> (UsesBrainDict h \<longleftrightarrow> cbs \<noteq> []) \<and>
    brain_embedded X opts fs cbp h"
proof -
  define h1 where "h1 = (let h = h0\<lparr>ChunkCount := of_nat (length (items_of bs)), Version := Version7\<rparr>
    in if UseConvergentEncryption opts then h\<lparr>IsConvergentEncrypted := True\<rparr> else h)"
  note b0 = b [unfolded base_header_def]
  have f1: "wf_header h1" "Version h1 = Version7" "MicroDictSize h1 = 0"
    "file_key X (EncryptionKey opts) h1 = file_pack_key X env opts" "ChunkCount h1 = of_nat (length (items_of bs))"
    "IsEncrypted h1 = IsEncrypted h0" "UsesBrainDict h1 = UsesBrainDict h0" "\<not> IsPassthrough h1"
    "OriginalSize h1 = of_nat (length input)" "Salt h1 = Salt h0"
    using b0 by (auto simp: h1_def Let_def wf_header_def file_key_def split: if_splits)
  obtain h2 where h2: "embed_brain X env opts fs cbp (file_pack_key X env opts) h1 = Inr h2" "wf_header h2"
    "same_but_version h1 h2" "Version7 \<le> Version h2" "Version h2 \<le> Version8"
    "EmbedBrain opts \<longrightarrow> Version h2 = Version8 \<and> MicroDictSize h2 \<noteq> 0 \<and>
       (\<forall>brain path fs'. fs cbp = Some brain \<longrightarrow>
          OpenForFile X fs' (MicroDictSize h2) (MicroDictionaryData h2) (IsEncrypted h1) (Salt h1) path (EncryptionKey opts) =
          OpenFromBytes brain)"
    "\<not> EmbedBrain opts \<longrightarrow> h2 = h1"
    using embed_brain_ok [OF X env fit f1(1-4)] by (elim exE conjE) (rule that)
  have v: "\<not> Version h2 < Version6" using h2(4) by (auto simp: version_defs word_less_nat_alt word_le_nat_alt)
  have s: "length (MerkleRoot h2) = 32" "length (OriginalHash h2) = 32" using h2(2) by (simp_all add: wf_header_def)
  let ?h = "h2\<lparr>OriginalHash := sha256 X input, MerkleRoot := merkle_root_of X blocks (MerkleRoot h2),
      CompressedTable := True\<rparr>"
  have v3: "Version3 \<le> Version h2" using h2(4) by (auto simp: version_defs word_le_nat_alt)
  have eq: "final_header X env opts fs cbp (file_pack_key X env opts) input blocks (length (items_of bs)) h0 = Inr ?h"
    using h2(1) v s(2) X(3) by (simp add: final_header_def Let_def gcopy_all hash_sizes flip: h1_def [unfolded Let_def])
  have "wf_header ?h" using h2(2) merkle_root_length [OF X(3) s(1)] X(3) by (simp add: wf_header_def hash_sizes)
  then have "packed_header X ?h bs input"
    using h2(3,5) v3 f1 by (simp add: packed_header_def same_but_version_def)
  moreover have "file_key X (EncryptionKey opts) ?h = file_pack_key X env opts"
    using f1(4) h2(3) by (auto simp: file_key_def same_but_version_def split: if_splits)
  moreover have "brain_embedded X opts fs cbp ?h"
    using h2(3,6,7) f1(3) by (auto simp: brain_embedded_def same_but_version_def)
  ultimately show ?thesis
    using eq b0 h2(3) f1 by (intro exI [of _ ?h]) (simp add: same_but_version_def)
qed

section \<open>Copied files\<close>

lemma copied_file_ok:
  assumes X: "gcm_ok X" "hash_sizes_ok X" and env: "env_ok env"
    and h: "wf_header h" "Version3 \<le> Version h" "Version h \<le> Version8" "ChunkCount h = 0"
      "OriginalSize h = of_nat (length input)"
    and key: "file_key X ek h = key" "IsEncrypted h \<longrightarrow> ek \<noteq> []"
  shows "\<exists>out. copied_file X env key h input = Inr out \<and> copied X (h\<lparr>OriginalHash := sha256 X input\<rparr>) ek out input"
proof -
  have v2: "Version2 \<le> Version h" using h(2) by (auto simp: version_defs word_le_nat_alt)
  let ?h = "h\<lparr>OriginalHash := sha256 X input\<rparr>"
  have o: "gcopy (OriginalHash h) 0 32 (sha256 X input) = sha256 X input" "length (OriginalHash h) = 32"
    using h(1) X(2) by (simp_all add: gcopy_all hash_sizes wf_header_def)
  have wf: "wf_header ?h" using h(1) X(2) by (simp add: wf_header_def hash_sizes)
  have ser: "Serialize h = (header_layout h, h)" "Serialize ?h = (header_layout ?h, ?h)"
    using Serialize_layout [OF h(1) v2 h(3)] Serialize_layout [OF wf] v2 h(3) by simp_all
  have len: "length (header_layout ?h) = length (header_layout h)"
    using o(2) X(2) by (simp add: header_layout_def hash_sizes)
  obtain body where body: "(case key of None \<Rightarrow> Inr input | Some k \<Rightarrow> Encrypt X (peBodyNonce env) k input) = Inr body"
    "if IsEncrypted ?h then Decrypt X (DeriveKey X ek (Salt ?h)) body = Inr input else body = input"
  proof (cases "IsEncrypted h")
    case True
    have n: "length (peBodyNonce env) = NonceSize" using env by (simp add: env_ok_def)
    obtain c where c: "Encrypt X (peBodyNonce env) (DeriveKey X ek (Salt h)) input = Inr c"
      by (simp add: Encrypt_DeriveKey [OF X(2)])
    from c Decrypt_Encrypt [OF X(1) n c] key True show thesis by (intro that [of c]) (auto simp: file_key_def)
  next
    case False
    with key show thesis by (intro that [of input]) (auto simp: file_key_def)
  qed
  have "copied_file X env key h input = Inr (header_layout ?h @ body)"
    using body(1) by (simp add: copied_file_def ser o Let_def overwrite_head [OF len])
  moreover have "copied X ?h ek (header_layout ?h @ body) input"
    unfolding copied_def using wf h key(2) body(2) ser(2) by simp
  ultimately show ?thesis by blast
qed

section \<open>Chunked files\<close>

text \<open>The options and inputs under which \<open>Pack\<close> is lossless, and what it writes.\<close>

definition lossless :: "PackEnv \<Rightarrow> PackOptions \<Rightarrow> bool" where
  "lossless env opts \<longleftrightarrow>
     Mode opts \<noteq> ''edge'' \<and> \<not> converging opts \<and> 0 < Concurrency opts \<and> (MaxCompression opts \<longrightarrow> peCgo env)"

definition usable :: "Reader \<Rightarrow> bool" where
  "usable r \<longleftrightarrow> wf_reader r \<and> small_ids r \<and> CodewordCount (rHeader r) \<noteq> 0"

text \<open>A database without codewords stands for no codebook: only self-contained chunks decode.\<close>

definition no_reader :: Reader where
  "no_reader = \<lparr>rData = zeros 512, rHeader = sample_cb_header\<lparr>CodewordCount := 0\<rparr>, rLruCache = Map.empty\<rparr>"

definition reader_of :: "Reader list \<Rightarrow> Reader" where
  "reader_of cbs = (case cbs of [] \<Rightarrow> no_reader | r # _ \<Rightarrow> r)"

lemma wf_no_reader: "wf_reader no_reader"
  by (simp add: wf_reader_def no_reader_def sample_cb_header_def wf_cb_header_def cb_Version1_def)

lemma decodes_no_reader:
  assumes "decodes no_reader it"
  shows "\<not> needs_brain [fst it]"
  using assms
  by (auto simp: decodes_def reconstructChunk_def Lookup_def no_reader_def Let_def needs_brain_def split: if_splits)

lemma laid_out_no_reader: "laid_out no_reader off its \<Longrightarrow> \<not> needs_brain (map fst its)"
  using laid_out_decodes [of no_reader off its] decodes_no_reader by (fastforce simp: needs_brain_def list_ex_iff)

lemma new_searchers_ok: "\<forall>r \<in> set cbs. usable r \<Longrightarrow> \<exists>ss. new_searchers X cbs = Inr ss \<and> tiers_for cbs ss"
proof (induction cbs)
  case (Cons r cbs)
  then obtain s ss where "NewLSHSearcher X r = Inr s" "lsh_for r s" "new_searchers X cbs = Inr ss" "tiers_for cbs ss"
    using NewLSHSearcher_ok [of r X] by (auto simp: usable_def)
  then show ?case by (auto simp: tiers_for_def)
qed (simp add: tiers_for_def)

lemma open_block_data_key:
  assumes "file_key X ek h = file_key X ek h'" "UsesBrainDict h = UsesBrainDict h'"
  shows "open_block_data X h ek r f = open_block_data X h' ek r f"
  using assms by (auto simp: open_block_data_def file_key_def split: if_splits)

lemma frames_ok_key:
  assumes "file_key X ek h = file_key X ek h'" "UsesBrainDict h = UsesBrainDict h'"
  shows "frames_ok X h ek r bs \<longleftrightarrow> frames_ok X h' ek r bs"
  by (simp add: frames_ok_def open_block_data_key [OF assms])

definition one_codebook :: "Reader list \<Rightarrow> bool" where
  "one_codebook cbs \<longleftrightarrow> length cbs \<le> 1 \<and> (\<forall>r \<in> set cbs. usable r)"

lemma one_codebook_facts:
  assumes "one_codebook cbs"
  shows "readers_ok cbs" "\<forall>x \<in> set cbs. x = reader_of cbs" "\<forall>r \<in> set cbs. wf_reader r" "wf_reader (reader_of cbs)"
proof -
  consider "cbs = []" | r where "cbs = [r]" "usable r" using assms by (cases cbs) (auto simp: one_codebook_def)
  then have "readers_ok cbs \<and> (\<forall>x \<in> set cbs. x = reader_of cbs) \<and> (\<forall>r \<in> set cbs. wf_reader r) \<and> wf_reader (reader_of cbs)"
    by cases (simp_all add: readers_ok_def reader_of_def usable_def wf_no_reader)
  then show "readers_ok cbs" "\<forall>x \<in> set cbs. x = reader_of cbs" "\<forall>r \<in> set cbs. wf_reader r" "wf_reader (reader_of cbs)"
    by blast+
qed

lemma dictionary_of:
  assumes "one_codebook cbs"
  shows "\<exists>dict. (if cbs = [] then Inr [] else Dictionary (hd cbs)) = Inr dict \<and>
    (if cbs = [] then dict = [] else Dictionary (reader_of cbs) = Inr dict)"
proof (cases cbs)
  case (Cons r cbs')
  then have "wf_reader r" using assms by (simp add: one_codebook_def usable_def)
  with Cons show ?thesis using Dictionary_ok [of r] by (auto simp: reader_of_def)
qed simp

lemma file_pack_key_length: "hash_sizes_ok X \<Longrightarrow> file_pack_key X env opts = Some k \<Longrightarrow> length k = 32"
  by (auto simp: file_pack_key_def DeriveKey_def hash_sizes split: if_splits)

text \<open>The blocks of a run, with the frames opened by the header that is written first.\<close>

lemma chunked_blocks_ok:
  assumes X: "zstd_ok X" "zstd_bound X" "gcm_ok X" "hash_sizes_ok X" and env: "env_ok env" and o: "lossless env opts"
    and cbs: "one_codebook cbs" and size: "0 < oChunkSize opts" and base: "base_header X env opts cbs input h0"
    and input: "input \<noteq> []" "length input < 2 ^ 27"
  shows "\<exists>dict ss0 fc ss bs g. (if cbs = [] then Inr [] else Dictionary (hd cbs)) = Inr dict \<and>
    new_searchers X cbs = Inr ss0 \<and> choose_chunker opts cbs sample = Inr fc \<and>
    first_pass X env opts fc input ss0 = Inr ss \<and>
    file_pack_blocks X env opts lit fc (file_pack_key X env opts) dict (read_blocks input) ss =
      Inr (map snd bs, g) \<and> gEntries g = map fst (items_of bs) \<and>
    packed_blocks X h0 (EncryptionKey opts) (reader_of cbs) bs input"
proof -
  note cb = one_codebook_facts [OF cbs]
  obtain dict where dict: "(if cbs = [] then Inr [] else Dictionary (hd cbs)) = Inr dict"
    "if cbs = [] then dict = [] else Dictionary (reader_of cbs) = Inr dict"
    using dictionary_of [OF cbs] by blast
  obtain ss0 where ss0: "new_searchers X cbs = Inr ss0" "tiers_for cbs ss0"
    using new_searchers_ok [of cbs X] cbs by (auto simp: one_codebook_def)
  obtain fc where fc: "choose_chunker opts cbs sample = Inr fc"
    "good_split (split_chunks X fc)"
    using choose_chunker_ok [OF size cb(3), of sample X] by blast
  have one: "length cbs \<le> 1" using cbs by (simp add: one_codebook_def)
  obtain ss where ss: "first_pass X env opts fc input ss0 = Inr ss" "tiers_for cbs ss"
    using first_pass_ok [OF fc(2) env ss0(2) one, of opts input] by blast
  have fr: "framing X h0 (EncryptionKey opts) (reader_of cbs) (file_pack_key X env opts) dict"
    using base dict(2) by (auto simp: framing_def base_header_def)
  have m: "MaxCompression opts \<longrightarrow> peCgo env" and l: "Mode opts \<noteq> ''edge''" "\<not> converging opts" "0 < Concurrency opts"
    using o by (simp_all add: lossless_def)
  obtain bs g where bs: "file_pack_blocks X env opts lit fc (file_pack_key X env opts) dict (read_blocks input) ss =
      Inr (map snd bs, g)" "gEntries g = map fst (items_of bs)"
    "packs_blocks X h0 (EncryptionKey opts) (reader_of cbs) 0 (read_blocks input) bs"
    using file_pack_blocks_ok [OF X fr m env fc(2) cb(1,2) ss(2) l] by blast
  have "packed_blocks X h0 (EncryptionKey opts) (reader_of cbs) bs input" by (rule packs_input [OF bs(3) input])
  with dict(1) ss0(1) fc(1) ss(1) bs(1,2) show ?thesis by (intro exI conjI; assumption?)
qed

text \<open>What \<open>Pack\<close> leaves at the output path.\<close>

definition restorable :: "ext \<Rightarrow> PackOptions \<Rightarrow> fs \<Rightarrow> string \<Rightarrow> Reader list \<Rightarrow> bytes \<Rightarrow> bytes \<Rightarrow> bool" where
  "restorable X opts fs codebookPath cbs crom input \<longleftrightarrow>
     (\<exists>h. copied X h (EncryptionKey opts) crom input \<and> MicroDictSize h = 0 \<and> (UsesBrainDict h \<longrightarrow> cbs \<noteq> [])) \<or>
     (\<exists>h bs. packed_file X h (EncryptionKey opts) (reader_of cbs) bs crom input \<and>
        (UsesBrainDict h \<longleftrightarrow> cbs \<noteq> []) \<and> brain_embedded X opts fs codebookPath h)"

lemma chunked_file_ok:
  assumes X: "zstd_ok X" "zstd_bound X" "gcm_ok X" "hash_sizes_ok X" and env: "env_ok env" and o: "lossless env opts"
    and cbs: "one_codebook cbs" and size: "0 < oChunkSize opts" and base: "base_header X env opts cbs input h0"
    and pt: "\<not> IsPassthrough h0" and fit: "brain_fits X opts fs cbp"
    and input: "input \<noteq> []" "length input < 2 ^ 27"
  shows "\<exists>out m. chunked_file X env opts fs cbp cbs input eScore sample n h0 = Inr (out, m) \<and>
    restorable X opts fs cbp cbs out input"
proof -
  define lit where "lit = (int AlignedMinCodewordSize \<le> oChunkSize opts \<and> \<not> UseCDC opts \<and> \<not> UseACAC opts)"
  let ?key = "file_pack_key X env opts" and ?ek = "EncryptionKey opts" and ?r = "reader_of cbs"
  obtain dict ss0 fc ss bs g where run: "(if cbs = [] then Inr [] else Dictionary (hd cbs)) = Inr dict"
      "new_searchers X cbs = Inr ss0" "choose_chunker opts cbs sample = Inr fc"
      "first_pass X env opts fc input ss0 = Inr ss"
      "file_pack_blocks X env opts lit fc ?key dict (read_blocks input) ss = Inr (map snd bs, g)"
    and es: "gEntries g = map fst (items_of bs)" and blk: "packed_blocks X h0 ?ek ?r bs input"
    using chunked_blocks_ok [OF X env o cbs size base input, of sample lit] by (elim exE conjE) (rule that)
  obtain h where fin: "final_header X env opts fs cbp ?key input (map snd bs) (length (items_of bs)) h0 = Inr h"
    and h: "packed_header X h bs input" "file_key X ?ek h = ?key" "IsEncrypted h \<longleftrightarrow> ?ek \<noteq> []"
      "UsesBrainDict h \<longleftrightarrow> cbs \<noteq> []" "brain_embedded X opts fs cbp h"
    using final_header_ok [OF X(1,3,4) env fit base pt, of "map snd bs" bs] by (elim exE conjE) (rule that)
  let ?b = "table_blob X (peTableNonce env) (gEntries g) ?key"
  define t where "t = le_bytes 4 (of_nat (length ?b) :: u32) @ ?b"
  have t: "EncodeCompressedTable X (peTableNonce env) (gEntries g) (Version h) ?key = Inr t"
    unfolding t_def using file_pack_key_length [OF X(4)] by (intro EncodeCompressedTable_layout) blast
  have k0: "file_key X ?ek h0 = file_key X ?ek h" "UsesBrainDict h0 = UsesBrainDict h"
    using base h(2,4) by (auto simp: base_header_def)
  have blk: "packed_blocks X h ?ek ?r bs input"
    using blk frames_ok_key [OF k0] by (simp add: packed_blocks_def)
  define out where "out = crom_file h (sizes_of bs) t @ frames_of bs"
  have "length (peTableNonce env) = NonceSize \<and>
      EncodeCompressedTable X (peTableNonce env) (map fst (items_of bs)) (Version h) (file_key X ?ek h) = Inr t \<and>
      out = crom_file h (sizes_of bs) t @ frames_of bs"
    using env t by (simp add: env_ok_def out_def h(2) flip: es)
  with h blk have pf: "packed_file X h ?ek ?r bs out input" unfolding packed_file_def by blast
  define reserved where "reserved = fst (Serialize h0) @ zeros (unat (NumBlocks h0 * 4)) @
    zeros (unat (n * GetEntrySize (Version h0) + (if IsEncrypted h0 then 28 else 0)))"
  have v0: "Serialize h0 = (fst (Serialize h0), h0)"
    using base Serialize_layout [of h0] by (simp add: base_header_def version_defs)
  have layout: "finish_metadata (fst (Serialize h) @ concat (map (\<lambda>b. le_bytes 4 (of_nat (length b) :: u32)) (map snd bs)) @ t)
      (length reserved) (reserved @ concat (map snd bs)) = out"
    by (subst finish_metadata_layout [OF refl])
      (simp add: out_def crom_file_def sizes_of_def frames_of_def comp_def)
  let ?h = "h\<lparr>ChunkCount := 0, MicroDictSize := 0, MicroDictionaryData := [], CompressedTable := False, UsesBrainDict := False\<rparr>"
  have hh: "wf_header ?h" "Version3 \<le> Version ?h" "Version ?h \<le> Version8" "ChunkCount ?h = 0"
    "OriginalSize ?h = of_nat (length input)" "file_key X ?ek ?h = ?key" "IsEncrypted ?h \<longrightarrow> ?ek \<noteq> []"
    using h hash_sizes [OF X(4)] by (auto simp: packed_header_def wf_header_def file_key_def split: if_splits)
  obtain out2 where c: "copied_file X env ?key ?h input = Inr out2" "copied X (?h\<lparr>OriginalHash := sha256 X input\<rparr>) ?ek out2 input"
    using copied_file_ok [OF X(3,4) env hh] by blast
  have "chunked_file X env opts fs cbp cbs input eScore sample n h0 =
      (if Mode opts \<noteq> ''edge'' \<and> length input < length out \<and> HeaderOverhead < length input
       then Inr (out2, copied_metrics input eScore out2) else Inr (out, chunked_metrics env input eScore out g))"
    unfolding chunked_file_def Let_def lit_def [symmetric]
    by (subst v0) (simp only: prod.case run rbind.simps es length_map fin t [unfolded es] wrap_err.simps
        reserved_def [symmetric] layout c(1))
  moreover have "restorable X opts fs cbp cbs out2 input"
    unfolding restorable_def by (intro disjI1 exI conjI, rule c(2)) simp_all
  moreover have "restorable X opts fs cbp cbs out input"
    unfolding restorable_def using pf h(4,5) by blast
  ultimately show ?thesis by auto
qed

section \<open>Packing and unpacking a file\<close>

text \<open>One codebook at most, given by its path; a codebook that opens is usable.\<close>

definition codebook_given :: "fs \<Rightarrow> PackOptions \<Rightarrow> string \<Rightarrow> Reader list \<Rightarrow> bool" where
  "codebook_given fs opts codebookPath cbs \<longleftrightarrow>
     CodebookPaths opts = [] \<and>
     (if codebookPath = [] then cbs = []
      else \<exists>r. cb_Open fs codebookPath = Inr r \<and> usable r \<and> cbs = [r])"

lemma codebook_given_one: "codebook_given fs opts cbp cbs \<Longrightarrow> one_codebook cbs"
  by (auto simp: codebook_given_def one_codebook_def split: if_splits)

lemma chunk_size_positive:
  assumes "one_codebook cbs" "oChunkSize opts < 2 ^ 60"
  shows "0 < chunk_size_for opts e cbs" "chunk_size_for opts e cbs < 2 ^ 63"
proof -
  have "0 < uint (CodewordSize (rHeader (hd cbs))) \<and> uint (CodewordSize (rHeader (hd cbs))) < 2 ^ 63" if "cbs \<noteq> []"
  proof -
    have "CodewordSize (rHeader (hd cbs)) \<noteq> 0"
      using that assms(1) by (cases cbs) (auto simp: one_codebook_def usable_def wf_reader_def wf_cb_header_def)
    then have "0 < uint (CodewordSize (rHeader (hd cbs)))"
      using uint_ge_0 [of "CodewordSize (rHeader (hd cbs))"] by (simp add: order_less_le unsigned_eq_0_iff)
    moreover have "uint (CodewordSize (rHeader (hd cbs))) < 2 ^ 16" using uint_lt2p [of "CodewordSize (rHeader (hd cbs))"] by simp
    ultimately show ?thesis by simp
  qed
  with assms(2) show "0 < chunk_size_for opts e cbs" "chunk_size_for opts e cbs < 2 ^ 63"
    by (auto simp: chunk_size_for_def adaptive_size_def)
qed

lemma estimate_chunks_ok:
  assumes "0 < n" "n < 2 ^ 63"
  shows "\<exists>k. estimate_chunks len n = Inr k"
proof -
  have "(of_int n :: u64) \<noteq> 0"
  proof
    assume "(of_int n :: u64) = 0"
    then have "uint (of_int n :: u64) = 0" by simp
    then have "n mod 2 ^ 64 = 0" by (simp only: unsigned_of_int take_bit_eq_mod) simp
    with assms show False by simp
  qed
  then show ?thesis by (simp add: estimate_chunks_def Let_def)
qed

lemma resized_facts [simp]:
  "lossless env (opts\<lparr>oChunkSize := n\<rparr>) = lossless env opts"
  "brain_fits X (opts\<lparr>oChunkSize := n\<rparr>) fs cbp = brain_fits X opts fs cbp"
  "restorable X (opts\<lparr>oChunkSize := n\<rparr>) fs cbp cbs out input = restorable X opts fs cbp cbs out input"
  by (simp_all add: lossless_def converging_def brain_fits_def restorable_def brain_embedded_def)

lemma Pack_ok:
  assumes X: "zstd_ok X" "zstd_bound X" "gcm_ok X" "hash_sizes_ok X" and env: "env_ok env" and o: "lossless env opts"
    and cbs: "codebook_given fs opts cbp cbs" and size: "oChunkSize opts < 2 ^ 60" and fit: "brain_fits X opts fs cbp"
    and inp: "fs inp = Some input" "length input < 2 ^ 27"
  shows "\<exists>m out. Pack X env inp outp cbp opts fs = (Inr m, (fs(outp @ ''.tmp'' := None))(outp \<mapsto> out)) \<and>
    restorable X opts fs cbp cbs out input"
proof -
  obtain e sample rest where a: "Analyze input 65536 = (e, sample, rest)" by (metis prod_cases3)
  define pt where "pt = (\<not> has_brain opts cbp \<and> Mode opts \<noteq> ''edge'' \<and> DetectHeuristicBypass e sample)"
  note one = codebook_given_one [OF cbs]
  let ?n = "chunk_size_for opts e cbs"
  let ?o = "opts\<lparr>oChunkSize := ?n\<rparr>"
  have n: "0 < ?n" "?n < 2 ^ 63" using chunk_size_positive [OF one size] by blast+
  obtain k where k: "estimate_chunks (of_nat (length input)) ?n = Inr k" using estimate_chunks_ok [OF n] by blast
  have opened: "(if pt then Inr [] else open_codebooks fs (if CodebookPaths opts \<noteq> [] then CodebookPaths opts
      else if cbp \<noteq> [] then [cbp] else [])) = Inr cbs"
    using cbs by (auto simp: codebook_given_def pt_def has_brain_def split: if_splits)
  have inputs: "pack_inputs opts fs inp cbp = Inr (input, e, sample, pt \<or> length input < 256, cbs, ?o, k)"
    using opened k by (simp add: pack_inputs_def inp(1) a flip: pt_def)
  have wf: "\<forall>r \<in> set cbs. wf_reader r" by (rule one_codebook_facts(3) [OF one])
  let ?pt = "pt \<or> length input < 256"
  define h where "h = file_header X env ?o cbp cbs ?pt (of_nat (length input)) k"
  have base: "base_header X env ?o cbs input h" "IsPassthrough h = ?pt"
    unfolding h_def by (rule file_header_base [OF env X(4) wf])+
  have po: "pack_output X env ?o fs cbp cbs input e sample ?pt k =
      (if ?pt then rbind (copied_file X env (file_pack_key X env ?o)
         (h\<lparr>ChunkCount := 0, OriginalHash := gcopy (zeros 32) 0 32 (sha256 X sample)\<rparr>) input) (\<lambda>out.
           Inr (out, copied_metrics input e out))
       else chunked_file X env ?o fs cbp cbs input e sample k h)"
    unfolding pack_output_def Let_def h_def ..
  have "\<exists>out m. pack_output X env ?o fs cbp cbs input e sample ?pt k = Inr (out, m) \<and> restorable X ?o fs cbp cbs out input"
  proof (cases ?pt)
    case True
    let ?h = "h\<lparr>ChunkCount := 0, OriginalHash := gcopy (zeros 32) 0 32 (sha256 X sample)\<rparr>"
    have hh: "wf_header ?h" "Version3 \<le> Version ?h" "Version ?h \<le> Version8" "ChunkCount ?h = 0"
      "OriginalSize ?h = of_nat (length input)" "file_key X (EncryptionKey ?o) ?h = file_pack_key X env ?o" "IsEncrypted ?h \<longrightarrow> EncryptionKey ?o \<noteq> []"
      using base(1) hash_sizes [OF X(4)]
      by (auto simp: base_header_def wf_header_def file_key_def version_defs gcopy_all split: if_splits)
    obtain out where out: "copied_file X env (file_pack_key X env ?o) ?h input = Inr out"
      "copied X (?h\<lparr>OriginalHash := sha256 X input\<rparr>) (EncryptionKey ?o) out input"
      using copied_file_ok [OF X(3,4) env hh] by blast
    have "restorable X ?o fs cbp cbs out input"
      unfolding restorable_def by (intro disjI1 exI conjI, rule out(2)) (use base(1) in \<open>simp_all add: base_header_def\<close>)
    with True out(1) show ?thesis unfolding po by auto
  next
    case False
    then have ne: "input \<noteq> []" by auto
    have s: "0 < oChunkSize ?o" using n(1) by simp
    have "\<not> IsPassthrough h" using base(2) False by simp
    from chunked_file_ok [OF X env _ one s base(1) this _ ne inp(2), of fs cbp e sample k] o fit False show ?thesis
      unfolding po by simp
  qed
  then obtain out m where "pack_output X env ?o fs cbp cbs input e sample ?pt k = Inr (out, m)"
    "restorable X opts fs cbp cbs out input"
    by auto
  then show ?thesis by (auto simp: Pack_def inputs)
qed

text \<open>A restorable file is rebuilt with the codebook it was packed with, or with its own.\<close>

lemma Unpack_restorable:
  assumes X: "zstd_ok X" "zstd_bound X" "gcm_ok X" "hash_sizes_ok X"
    and r: "restorable X opts fs cbp cbs crom input" and cbs: "codebook_given fs opts cbp cbs"
    and path: "EmbedBrain opts \<or> path = cbp" and same: "fs' cbp = fs cbp" and inp: "fs' inp = Some crom"
    and u: "uEncryptionKey uopts = EncryptionKey opts" "Fuzziness uopts \<le> 0"
  shows "Unpack X rnd inp outp path uopts fs' = (Inr (), (fs'(outp @ ''.tmp'' := None))(outp \<mapsto> input))"
  using r unfolding restorable_def
proof
  assume "\<exists>h. copied X h (EncryptionKey opts) crom input \<and> MicroDictSize h = 0 \<and> (UsesBrainDict h \<longrightarrow> cbs \<noteq> [])"
  then obtain h where "copied X h (uEncryptionKey uopts) crom input" using u(1) by auto
  then show ?thesis using inp by (rule Unpack_copied)
next
  assume "\<exists>h bs. packed_file X h (EncryptionKey opts) (reader_of cbs) bs crom input \<and>
    (UsesBrainDict h \<longleftrightarrow> cbs \<noteq> []) \<and> brain_embedded X opts fs cbp h"
  then obtain h bs where p: "packed_file X h (uEncryptionKey uopts) (reader_of cbs) bs crom input"
    "UsesBrainDict h \<longleftrightarrow> cbs \<noteq> []" "brain_embedded X opts fs cbp h"
    using u(1) by auto
  have v: "Version3 \<le> Version h" "Version h \<le> Version8" using p(1) by (simp_all add: packed_file_def packed_header_def)
  have "brain_given X fs' h path uopts (reader_of cbs) bs"
  proof (cases cbs)
    case Nil
    have "laid_out no_reader 0 (items_of bs)"
      using p(1) Nil by (simp add: packed_file_def packed_blocks_def reader_of_def)
    with Nil p(2) show ?thesis by (simp add: brain_given_def laid_out_no_reader)
  next
    case (Cons r cbs')
    then obtain data where d: "fs cbp = Some data" "OpenFromBytes data = Inr r" "cbp \<noteq> []" "cb_Open fs' cbp = Inr r"
      using cbs same by (auto simp: codebook_given_def cb_Open_OpenFromBytes split: if_splits)
    have "open_brain X fs' (stored_header h) path uopts = Inr r"
    proof (cases "EmbedBrain opts")
      case True
      with p(3) d(1,2) show ?thesis
        by (simp add: open_brain_def stored_fields [OF v] brain_embedded_def u(1))
    next
      case False
      with p(3) path d(3,4) show ?thesis
        by (simp add: open_brain_def stored_fields [OF v] brain_embedded_def OpenForFile_def)
    qed
    with Cons show ?thesis by (simp add: brain_given_def reader_of_def)
  qed
  from Unpack_packed [OF X p(1) one_codebook_facts(4) [OF codebook_given_one [OF cbs]] this _ u(2), of inp "[]"] inp show ?thesis by simp
qed

text \<open>A codebook that opens, of a realistic size, with an honest header and some codeword.\<close>

definition good_codebook :: "bytes \<Rightarrow> bool" where
  "good_codebook data \<longleftrightarrow>
     length data < 2 ^ 60 \<and>
     (\<exists>r. OpenFromBytes data = Inr r \<and> declared_size (rHeader r) < 2 ^ 64 \<and> CodewordCount (rHeader r) \<noteq> 0)"

lemma good_codebook_given:
  assumes "CodebookPaths opts = []" "cbp = [] \<or> (\<exists>data. fs cbp = Some data \<and> good_codebook data)"
  shows "\<exists>cbs. codebook_given fs opts cbp cbs"
proof (cases "cbp = []")
  case True
  with assms(1) show ?thesis by (simp add: codebook_given_def)
next
  case False
  then obtain data r where d: "fs cbp = Some data" "length data < 2 ^ 60" "OpenFromBytes data = Inr r"
    "declared_size (rHeader r) < 2 ^ 64" "CodewordCount (rHeader r) \<noteq> 0"
    using assms(2) by (auto simp: good_codebook_def)
  then have "usable r" using opened_reader [OF d(3,2,4)] by (simp add: usable_def)
  moreover have "cb_Open fs cbp = Inr r" using d by (auto simp: cb_Open_OpenFromBytes)
  ultimately show ?thesis using assms(1) False by (auto simp: codebook_given_def)
qed

section \<open>Properties\<close>

text \<open>
  C2. The round trip on disk, for lossless settings: not the edge mode, no per-chunk convergent
  encryption (\<open>Unpack\<close> does not undo it), at least one worker, and maximal compression only in a
  build with cgo (without it \<open>CompressPoolMax\<close> always fails). The codebook is none, or the one at
  \<open>codebookPath\<close> and no others; it opens, is smaller than \<open>2 ^ 60\<close> bytes and has at least one codeword,
  and it is at neither the output path nor its temporary name; to be embedded, its compressed form,
  with the 28 bytes encryption adds, fits the 32 MiB of a micro-dictionary. The chunk size is below \<open>2 ^ 60\<close> and the input below 128 MiB.
  Then, whatever chunker, key, number of passes and other compression level are chosen, and whatever
  the schedule of the workers, \<open>Pack\<close> succeeds, and \<open>Unpack\<close> of the file it wrote, with the same
  key, without fuzziness and with the same codebook (or any, if the brain was embedded), writes the
  input back.
\<close>

theorem pack_unpack_file:
  assumes "zstd_ok X" "zstd_bound X" "gcm_ok X" "hash_sizes_ok X" and "env_ok env" "lossless env opts"
    and "CodebookPaths opts = []" "codebookPath = [] \<or> (\<exists>data. fs codebookPath = Some data \<and> good_codebook data)"
    and "brain_fits X opts fs codebookPath" "oChunkSize opts < 2 ^ 60"
    and "fs inputPath = Some input" "length input < 2 ^ 27"
    and "codebookPath \<noteq> outputPath" "codebookPath \<noteq> outputPath @ ''.tmp''"
    and "EmbedBrain opts \<or> path = codebookPath" "uEncryptionKey uopts = EncryptionKey opts" "Fuzziness uopts \<le> 0"
  shows "\<exists>m fs'. Pack X env inputPath outputPath codebookPath opts fs = (Inr m, fs') \<and>
    Unpack X rnd outputPath dest path uopts fs' = (Inr (), (fs'(dest @ ''.tmp'' := None))(dest \<mapsto> input))"
proof -
  obtain cbs where cbs: "codebook_given fs opts codebookPath cbs" using good_codebook_given [where fs = fs, OF assms(7,8)] by blast
  obtain m out where p: "Pack X env inputPath outputPath codebookPath opts fs =
      (Inr m, (fs(outputPath @ ''.tmp'' := None))(outputPath \<mapsto> out))" "restorable X opts fs codebookPath cbs out input"
    using Pack_ok [OF assms(1-6) cbs assms(10,9,11,12)] by blast
  let ?fs = "(fs(outputPath @ ''.tmp'' := None))(outputPath \<mapsto> out)"
  have "Unpack X rnd outputPath dest path uopts ?fs = (Inr (), (?fs(dest @ ''.tmp'' := None))(dest \<mapsto> input))"
    by (rule Unpack_restorable [OF assms(1-4) p(2) cbs assms(15) _ _ assms(16,17)]) (use assms(13,14) in simp_all)
  with p(1) show ?thesis by blast
qed

definition sample_env :: PackEnv where
  "sample_env = \<lparr>peWide = True, peCgo = False, peOrder = (\<lambda>b n. rev [0..<n]), peMapOrder = rev, peSalt = zeros 16,
     peNonce = (\<lambda>b. zeros 12), peTableNonce = zeros 12, peBrainNonce = zeros 12, peBodyNonce = zeros 12\<rparr>"

definition sample_fs :: fs where
  "sample_fs = [''in'' \<mapsto> replicate 300 7, ''brain'' \<mapsto> sample_codebook]"

theorem pack_unpack_file_witness:
  "\<exists>m fs'. Pack toy_ext sample_env ''in'' ''out'' ''brain'' (sample_options\<lparr>EncryptionKey := [1], MultiPass := True\<rparr>) sample_fs =
      (Inr m, fs') \<and>
    Unpack toy_ext (\<lambda>_. 0) ''out'' ''back'' ''brain'' \<lparr>Fuzziness = 0, uEncryptionKey = [1], Strict = True\<rparr> fs' =
      (Inr (), (fs'(''back'' @ ''.tmp'' := None))(''back'' \<mapsto> replicate 300 7))"
proof -
  let ?o = "sample_options\<lparr>EncryptionKey := [1], MultiPass := True\<rparr>"
  have env: "env_ok sample_env" by (auto simp: env_ok_def sample_env_def NonceSize_def)
  have o: "lossless sample_env ?o" "CodebookPaths ?o = []" "brain_fits toy_ext ?o sample_fs ''brain''" "oChunkSize ?o < 2 ^ 60"
    by (simp_all add: lossless_def converging_def sample_options_def brain_fits_def)
  have cb: "''brain'' = [] \<or> (\<exists>data. sample_fs ''brain'' = Some data \<and> good_codebook data)"
    using sample_codebook_opens by (simp add: sample_fs_def good_codebook_def)
  show ?thesis
    by (rule pack_unpack_file [where fs = sample_fs, OF toy_ext_ok env o(1,2) cb o(3,4)])
      (simp_all add: sample_fs_def sample_options_def)
qed

end
