(* ===== verification/Pack_Stream.thy ===== *)
theory Pack_Stream
  imports Pack_File
begin

text \<open>
  \<open>PackStream\<close> in \<^verbatim>\<open>pkg/cromlib/compiler_stream.go\<close>: packing what a reader delivers, and
  \<open>AutoPack\<close> in \<^verbatim>\<open>pkg/cromlib/autotrain.go\<close>. The input is the list of bytes the reader
  delivers before its end or its first error: the code does not tell the two apart. A stream
  that is not empty unpacks to itself; the file written for an empty one is rejected.
\<close>

section \<open>One chunk\<close>

definition noBrainChunkSize :: int where "noBrainChunkSize = 1024 * 1024"

definition stream_entry :: "u64 \<Rightarrow> nat \<Rightarrow> Chunk \<Rightarrow> ChunkEntry" where
  "stream_entry cid n c =
     \<lparr>CodebookID = cid, DeltaOffset = 0, DeltaSize = of_nat n, EOriginalSize = of_nat (length (cData c)),
      CodebookIndex = 0\<rparr>"

definition stream_literal :: "Chunk \<Rightarrow> processedChunk" where
  "stream_literal c = zero_chunk\<lparr>pcEntry := stream_entry LiteralCodebookID (length (cData c)) c, pcRes := cData c\<rparr>"

definition stream_named :: "Chunk \<Rightarrow> u64 \<Rightarrow> processedChunk" where
  "stream_named c cid = zero_chunk\<lparr>pcEntry := stream_entry cid 0 c, pcSim := 1\<rparr>"

text \<open>A near match: the residual against the whole codeword, left out in the lossy mode.\<close>

definition stream_match :: "PackOptions \<Rightarrow> Chunk \<Rightarrow> MatchResult \<Rightarrow> processedChunk" where
  "stream_match opts c m =
     (let sim = Similarity m (length (cData c) * 8) in
      if sim < minNearMatchSimilarity \<and> Mode opts \<noteq> ''edge'' then stream_literal c
      else
        (let residual = (if Mode opts = ''edge'' then [] else XOR_delta (cData c) (mPattern m)) in
         zero_chunk\<lparr>pcEntry := stream_entry (mCodebookID m) (length residual) c, pcRes := residual, pcSim := sim\<rparr>))"

definition stream_chunk ::
  "ext \<Rightarrow> bool \<Rightarrow> PackOptions \<Rightarrow> int \<Rightarrow> LSHSearcher option \<Rightarrow> Chunk \<Rightarrow> (processedChunk \<times> LSHSearcher option) res" where
  "stream_chunk X wide opts chunkSize seeker c =
     (case seeker of
        None \<Rightarrow> Inr (stream_literal c, None)
      | Some ls \<Rightarrow>
          rbind (FindExact X ls (cData c)) (\<lambda>hit.
            case hit of
              Some cid \<Rightarrow> Inr (stream_named c cid, Some ls)
            | None \<Rightarrow>
                if Mode opts \<noteq> ''edge'' \<and> (int AlignedMinCodewordSize \<le> chunkSize \<or> 78 / 10 < Shannon (cData c))
                then Inr (stream_literal c, Some ls)
                else
                  (case LSH_FindBestMatch wide ls (cData c) of
                     (Inl GoPanic, _) \<Rightarrow> Inl GoPanic
                   | (Inl (GoErr e), ls) \<Rightarrow> Inr (zero_chunk\<lparr>pcErr := Some e\<rparr>, Some ls)
                   | (Inr m, ls) \<Rightarrow> Inr (stream_match opts c m, Some ls))))"

section \<open>The blocks\<close>

definition stream_chunk_size :: "PackOptions \<Rightarrow> Reader option \<Rightarrow> int" where
  "stream_chunk_size opts cb =
     (let chunkSize = (if oChunkSize opts = 0 then 128 else oChunkSize opts) in
      case cb of
        None \<Rightarrow> noBrainChunkSize
      | Some r \<Rightarrow> if \<not> UseCDC opts \<and> \<not> UseACAC opts then uint (CodewordSize (rHeader r)) else chunkSize)"

definition stream_split :: "ext \<Rightarrow> PackOptions \<Rightarrow> Reader option \<Rightarrow> int \<Rightarrow> (bytes \<Rightarrow> Chunk list res) res" where
  "stream_split X opts cb chunkSize =
     (if UseACAC opts then
        Inr (\<lambda>data. Inr (SemanticChunker_Split (xxhash X) (NewSemanticChunker (ACACDelimiter opts) (chunkSize * 8)) data))
      else if UseCDC opts then Inr (\<lambda>data. Inr (FastCDCChunker_Split (xxhash X) (NewFastCDCChunker chunkSize) data))
      else
        (case cb of
           Some r \<Rightarrow>
             if int AlignedMinCodewordSize \<le> chunkSize then rbind (NewAlignedChunker r) (\<lambda>ac. Inr (AlignedChunker_Split X ac))
             else Inr (FixedChunker_Split (xxhash X) (NewFixedChunker chunkSize))
         | None \<Rightarrow> Inr (FixedChunker_Split (xxhash X) (NewFixedChunker chunkSize))))"

text \<open>The telemetry of one result.\<close>

definition stream_count :: "processedChunk \<Rightarrow> Gathered \<Rightarrow> Gathered" where
  "stream_count r g =
     (if 1 / 2 \<le> pcSim r then g\<lparr>gHits := gHits g + 1\<rparr> else g\<lparr>gLiterals := gLiterals g + 1\<rparr>)"

definition stream_concurrency :: "PackOptions \<Rightarrow> int" where
  "stream_concurrency opts = (if Concurrency opts = 0 then 4 else Concurrency opts)"

definition stream_blocks ::
  "ext \<Rightarrow> PackEnv \<Rightarrow> PackOptions \<Rightarrow> int \<Rightarrow> (bytes \<Rightarrow> Chunk list res) \<Rightarrow> bytes \<Rightarrow> bytes list \<Rightarrow> LSHSearcher option \<Rightarrow>
   (bytes list \<times> Gathered) res" where
  "stream_blocks X env opts chunkSize split brainDict blocks seeker =
     pack_loop split
       (\<lambda>b s chunks. run_workers (stream_chunk X (peWide env) opts chunkSize) (stream_concurrency opts)
                       (peOrder env b (length chunks)) s chunks)
       stream_count (\<lambda>b. compress_block X ''stream: compress block'' env opts brainDict) 0 blocks seeker start_gathered"

section \<open>The file\<close>

definition stream_header ::
  "ext \<Rightarrow> PackOptions \<Rightarrow> Reader option \<Rightarrow> int \<Rightarrow> bytes \<Rightarrow> bytes list \<Rightarrow> nat \<Rightarrow> Header" where
  "stream_header X opts cb chunkSize input blocks numEntries =
     zero_header\<lparr>Version := Version5, IsLossy := (cb \<noteq> None \<and> Mode opts = ''edge''), UsesBrainDict := (cb \<noteq> None),
       OriginalSize := of_nat (length input), ChunkCount := of_nat numEntries, ChunkSize := of_int chunkSize,
       OriginalHash := gcopy (zeros 32) 0 32 (sha256 X input),
       MerkleRoot := Root (BuildFromHashes X (map (sha256 X) blocks)), CompressedTable := True\<rparr>"

definition stream_metrics :: "bytes \<Rightarrow> bytes \<Rightarrow> Gathered \<Rightarrow> Metrics" where
  "stream_metrics input out g =
     \<lparr>mOriginalSize = of_nat (length input), mPackedSize = of_nat (length out),
      HitRate = (if 0 < gChunks g then real (gHits g) / real (gChunks g) * 100 else 0),
      LiteralChunks = gLiterals g, MostFrequentLiteral = 0, LiteralRepetitions = 0, SuggestedMicroBrain = False,
      TotalChunks = gChunks g,
      AvgSimilarity = (if 0 < gChunks g then gSimilarity g / real (gChunks g) else 0), mEntropy = 0\<rparr>"

text \<open>Everything before the output file is created.\<close>

definition stream_inputs ::
  "ext \<Rightarrow> PackEnv \<Rightarrow> PackOptions \<Rightarrow> fs \<Rightarrow> string \<Rightarrow> bytes \<Rightarrow> (Reader option \<times> int \<times> bytes list \<times> Gathered) res" where
  "stream_inputs X env opts fs codebookPath input =
     rbind (if codebookPath = [] then Inr None
            else rbind (wrap_err ''stream: open codebook'' (cb_Open fs codebookPath)) (\<lambda>r. Inr (Some r))) (\<lambda>cb.
     rbind (case cb of None \<Rightarrow> Inr None | Some r \<Rightarrow> rbind (NewLSHSearcher X r) (\<lambda>s. Inr (Some s))) (\<lambda>seeker.
       let chunkSize = stream_chunk_size opts cb in
       rbind (stream_split X opts cb chunkSize) (\<lambda>split.
       rbind (case cb of None \<Rightarrow> Inr [] | Some r \<Rightarrow> Dictionary r) (\<lambda>brainDict.
       rbind (stream_blocks X env opts chunkSize split brainDict (read_blocks input) seeker) (\<lambda>(blocks, g).
         Inr (cb, chunkSize, blocks, g))))))"

text \<open>The output file stays as it is when the chunk table cannot be encoded.\<close>

definition PackStream ::
  "ext \<Rightarrow> PackEnv \<Rightarrow> bytes \<Rightarrow> string \<Rightarrow> string \<Rightarrow> PackOptions \<Rightarrow> fs \<Rightarrow> Metrics res \<times> fs" where
  "PackStream X env input outPath codebookPath opts fs =
     (case stream_inputs X env opts fs codebookPath input of
        Inl e \<Rightarrow> (Inl e, fs)
      | Inr (cb, chunkSize, blocks, g) \<Rightarrow>
          (let headerBytes = fst (Serialize (stream_header X opts cb chunkSize input blocks (length (gEntries g))));
               blockTableRaw = concat (map (\<lambda>b. le_bytes 4 (of_nat (length b) :: u32)) blocks)
           in case wrap_err ''stream: encode chunk table'' (EncodeCompressedTable X [] (gEntries g) Version5 None) of
                Inl e \<Rightarrow> (Inl e, fs(outPath \<mapsto> headerBytes @ blockTableRaw))
              | Inr chunkTableData \<Rightarrow>
                  (let out = headerBytes @ blockTableRaw @ chunkTableData @ concat blocks
                   in (Inr (stream_metrics input out g), fs(outPath \<mapsto> out)))))"

definition AutoPack :: "ext \<Rightarrow> PackEnv \<Rightarrow> string \<Rightarrow> string \<Rightarrow> PackOptions \<Rightarrow> fs \<Rightarrow> Metrics res \<times> fs" where
  "AutoPack X env inputPath outputPath opts =
     Pack X env inputPath outputPath [] (opts\<lparr>oChunkSize := noBrainChunkSize, EmbedBrain := False\<rparr>)"

section \<open>Every chunk is decodable\<close>

definition stream_readers :: "Reader option \<Rightarrow> Reader list" where
  "stream_readers cb = (case cb of None \<Rightarrow> [] | Some r \<Rightarrow> [r])"

lemma encodes_stream:
  assumes "\<forall>r. (cb = None \<or> cb = Some r) \<longrightarrow> (\<forall>off. decodes r (placed off (stream_entry cid (length rs) c), rs, cData c))"
    and "length rs \<le> length (cData c)"
  shows "encodes (stream_readers cb) (zero_chunk\<lparr>pcEntry := stream_entry cid (length rs) c, pcRes := rs, pcSim := s\<rparr>) (cData c)"
  using assms by (auto simp: encodes_def zero_chunk_def stream_readers_def stream_entry_def split: option.splits)

lemma encodes_stream_literal:
  assumes "good_chunk c"
  shows "encodes (stream_readers cb) (stream_literal c) (cData c)"
proof -
  have "decodes r (placed off (stream_entry LiteralCodebookID (length (cData c)) c), cData c, cData c)" for r off
    using assms by (intro decodes_literal) (simp_all add: placed_def stream_entry_def good_chunk_def)
  with encodes_stream [of cb LiteralCodebookID "cData c" c 0] show ?thesis by (simp add: stream_literal_def zero_chunk_def)
qed

lemma XOR_delta_take: "XOR_delta data (take (length data) p) = XOR_delta data p"
  by (cases "data = []") (auto simp: XOR_delta_def intro!: nth_equalityI)

lemma encodes_stream_codeword:
  assumes r: "wf_reader r" "small_ids r" "named r cid p" and c: "good_chunk c"
    and rs: "length rs \<le> length (cData c)" "Apply (take (length (cData c)) p) rs = cData c"
  shows "encodes (stream_readers (Some r)) (zero_chunk\<lparr>pcEntry := stream_entry cid (length rs) c, pcRes := rs, pcSim := s\<rparr>) (cData c)"
  using rs c
  by (intro encodes_stream allI impI)
    (auto intro!: decodes_named [OF r c] simp: placed_def stream_entry_def good_chunk_def)

definition stream_inv :: "PackOptions \<Rightarrow> Reader option \<Rightarrow> LSHSearcher option \<Rightarrow> bool" where
  "stream_inv opts cb s \<longleftrightarrow>
     Mode opts \<noteq> ''edge'' \<and>
     (case cb of None \<Rightarrow> s = None
      | Some r \<Rightarrow> wf_reader r \<and> small_ids r \<and> (\<exists>ls. s = Some ls \<and> lsh_for r ls))"

lemma stream_match_ok:
  assumes r: "wf_reader r" "small_ids r" "named r (mCodebookID m) (mPattern m)" and c: "good_chunk c" "Mode opts \<noteq> ''edge''"
  shows "encodes (stream_readers (Some r)) (stream_match opts c m) (cData c)"
proof -
  let ?x = "XOR_delta (cData c) (mPattern m)"
  have ne: "cData c \<noteq> []" using c(1) by (simp add: good_chunk_def)
  have "Apply (take (length (cData c)) (mPattern m)) ?x = cData c"
    using Apply_XOR [of "cData c" "take (length (cData c)) (mPattern m)"] ne by (simp add: XOR_delta_take)
  moreover have "length ?x \<le> length (cData c)" by (simp add: XOR_delta_def)
  ultimately show ?thesis
    using encodes_stream_codeword [OF r c(1), of ?x] encodes_stream_literal [OF c(1)] c(2)
    by (simp add: stream_match_def Let_def)
qed

lemma stream_chunk_ok:
  assumes s: "stream_inv opts cb s" and c: "good_chunk c"
  shows "\<exists>pc s'. stream_chunk X wide opts n s c = Inr (pc, s') \<and> encodes (stream_readers cb) pc (cData c) \<and> stream_inv opts cb s'"
proof (cases cb)
  case None
  with s encodes_stream_literal [OF c] show ?thesis by (simp add: stream_inv_def stream_chunk_def)
next
  case (Some r)
  then obtain ls where ls: "s = Some ls" "lsh_for r ls" "wf_reader r" "small_ids r" "Mode opts \<noteq> ''edge''"
    using s by (auto simp: stream_inv_def)
  obtain hit where hit: "FindExact X ls (cData c) = Inr hit" "\<And>cid. hit = Some cid \<Longrightarrow> named r cid (cData c)"
    using FindExact_sound [OF lsh_for_core [OF ls(2)]] by blast
  have "searchable (cData c)" using c by (simp add: searchable_def good_chunk_def)
  then obtain m ls' where m: "LSH_FindBestMatch wide ls (cData c) = (Inr m, ls')" "good_match r m" "lsh_for r ls'"
    using LSH_FindBestMatch_ok [OF ls(2), of "cData c" wide] by (metis prod.collapse)
  have lit: "encodes (stream_readers (Some r)) (stream_literal c) (cData c)" by (rule encodes_stream_literal [OF c])
  show ?thesis
  proof (cases hit)
    case h: (Some cid)
    have "Apply (take (length (cData c)) (cData c)) [] = cData c" by (simp add: Apply_def)
    from encodes_stream_codeword [OF ls(3,4) hit(2) [OF h] c _ this, of 1] h hit(1) s ls(1) Some
    show ?thesis by (simp add: stream_chunk_def stream_named_def zero_chunk_def)
  next
    case None
    have "encodes (stream_readers (Some r)) (stream_match opts c m) (cData c)"
      using m(2) by (intro stream_match_ok [OF ls(3,4) _ c ls(5)]) (simp add: good_match_def)
    with None hit(1) m(1,3) lit s ls Some show ?thesis
      by (simp add: stream_chunk_def stream_inv_def)
  qed
qed

interpretation stream_worker: worker "stream_chunk X wide opts n" "stream_readers cb" "stream_inv opts cb" for X wide opts n cb
  by (rule worker.intro) (rule stream_chunk_ok)

section \<open>The round trip\<close>

lemma stream_split_ok:
  assumes "\<forall>r. cb = Some r \<longrightarrow> wf_reader r"
  shows "\<exists>split. stream_split X opts cb n = Inr split \<and> good_split split"
proof -
  have sem: "good_split (\<lambda>data. Inr (SemanticChunker_Split (xxhash X) (NewSemanticChunker d k) data))" for d k
    by (rule chunker_good_split [OF semantic_chunker.chunker_axioms]) simp
  show ?thesis
  proof (cases cb)
    case None
    then show ?thesis by (simp add: stream_split_def sem fastcdc_good_split fixed_good_split)
  next
    case (Some r)
    then have r: "wf_reader r" using assms by simp
    obtain ac where "NewAlignedChunker r = Inr ac" "aligned_for r ac" using NewAlignedChunker_ok [OF r] by blast
    with Some show ?thesis
      by (simp add: stream_split_def sem fastcdc_good_split fixed_good_split aligned_good_split [OF r])
  qed
qed

definition stream_codebook :: "fs \<Rightarrow> string \<Rightarrow> Reader option \<Rightarrow> bool" where
  "stream_codebook fs codebookPath cb \<longleftrightarrow>
     (case cb of None \<Rightarrow> codebookPath = [] | Some r \<Rightarrow> codebookPath \<noteq> [] \<and> cb_Open fs codebookPath = Inr r \<and> usable r)"

lemma stream_codebook_good:
  assumes "codebookPath = [] \<or> (\<exists>data. fs codebookPath = Some data \<and> good_codebook data)"
  shows "\<exists>cb. stream_codebook fs codebookPath cb"
proof (cases "codebookPath = []")
  case True
  then show ?thesis by (intro exI [of _ None]) (simp add: stream_codebook_def)
next
  case False
  obtain cbs where "codebook_given fs sample_options codebookPath cbs"
    using good_codebook_given [of sample_options, where fs = fs, OF _ assms] by (auto simp: sample_options_def)
  with False obtain r where "cb_Open fs codebookPath = Inr r" "usable r" by (auto simp: codebook_given_def)
  with False show ?thesis by (intro exI [of _ "Some r"]) (simp add: stream_codebook_def)
qed

lemma stream_codebook_one:
  "stream_codebook fs cbp cb \<Longrightarrow> one_codebook (stream_readers cb)"
  by (auto simp: stream_codebook_def stream_readers_def one_codebook_def split: option.splits)

lemma stream_header_packed:
  assumes "hash_sizes_ok X" "Mode opts \<noteq> ''edge''"
  shows "packed_header X (stream_header X opts cb n input blocks (length (items_of bs))) bs input"
    "\<not> IsEncrypted (stream_header X opts cb n input blocks k)"
    "UsesBrainDict (stream_header X opts cb n input blocks k) \<longleftrightarrow> cb \<noteq> None"
    "MicroDictSize (stream_header X opts cb n input blocks k) = 0"
proof -
  have "length (Root t) = 32" for t by (simp add: Root_def gcopy_def buffer_simps)
  then show "packed_header X (stream_header X opts cb n input blocks (length (items_of bs))) bs input"
    using assms(1)
    by (simp add: packed_header_def stream_header_def wf_header_def zero_header_def MaxMicroDictSize_def version_defs
        hash_sizes gcopy_all)
qed (simp_all add: stream_header_def zero_header_def)

lemma counter_stream_count: "counter stream_count"
  by (simp add: counter_def stream_count_def)

text \<open>What the loop over the blocks needs: the frames do not depend on the rest of the header.\<close>

lemma stream_blocks_ok:
  assumes X: "zstd_ok X" "zstd_bound X" "gcm_ok X" "hash_sizes_ok X" and env: "env_ok env"
    and h: "\<not> IsEncrypted h" "UsesBrainDict h \<longleftrightarrow> cb \<noteq> None" and m: "MaxCompression opts \<longrightarrow> peCgo env"
    and o: "Mode opts \<noteq> ''edge''" "0 \<le> Concurrency opts"
    and cb: "stream_codebook fs cbp cb" and split: "good_split split"
    and dict: "(case cb of None \<Rightarrow> Inr [] | Some r \<Rightarrow> Dictionary r) = Inr dict"
    and s: "(case cb of None \<Rightarrow> s = None | Some r \<Rightarrow> \<exists>ls. s = Some ls \<and> lsh_for r ls)"
  shows "\<exists>bs g. stream_blocks X env opts n split dict (read_blocks input) s = Inr (map snd bs, g) \<and>
    gEntries g = map fst (items_of bs) \<and>
    packs_blocks X h ek (reader_of (stream_readers cb)) 0 (read_blocks input) bs"
proof -
  let ?rs = "stream_readers cb"
  note one = one_codebook_facts [OF stream_codebook_one [OF cb]]
  have f: "framing X h ek (reader_of ?rs) None dict"
    using h dict by (auto simp: framing_def file_key_def stream_readers_def reader_of_def split: option.splits)
  have seal: "sealed X h ek (reader_of ?rs) (\<lambda>b. compress_block X ''stream: compress block'' env opts dict)"
    unfolding sealed_def
  proof (intro allI impI)
    fix b :: nat and pool :: bytes
    assume p: "length pool \<le> BlockSize"
    show "\<exists>fr. compress_block X ''stream: compress block'' env opts dict pool = Inr fr \<and>
        open_block_data X h ek (reader_of ?rs) fr = Inr pool \<and> length fr < 2 ^ 32"
      using frame_opens [OF X f m _ p, of "zeros 12" "''stream: compress block''" "[]"]
      by (auto simp: NonceSize_def maybe_encrypt_def)
  qed
  have run: "\<exists>results s'. run_workers (stream_chunk X (peWide env) opts n) (stream_concurrency opts)
        (peOrder env b (length chunks)) s chunks = Inr (results, s') \<and>
      stream_inv opts cb s' \<and> list_all2 (encodes ?rs) results (map cData chunks)"
    if "stream_inv opts cb s" "list_all good_chunk chunks" for b s chunks
    by (rule stream_worker.run_workers_ok [OF that(2) _ _ that(1)])
      (use env o(2) in \<open>simp_all add: env_ok_def stream_concurrency_def\<close>)
  have inv: "stream_inv opts cb s"
    using s cb o(1) by (auto simp: stream_inv_def stream_codebook_def usable_def split: option.splits)
  have "\<forall>d \<in> set (read_blocks input). length d \<le> BlockSize" using read_blocks_sizes by blast
  with pack_loop_ok [OF split counter_stream_count seal one(2) run inv, where blocks = "read_blocks input" and g = start_gathered and off = 0 and b = 0]
  show ?thesis by (simp add: stream_blocks_def start_gathered_def)
qed

lemma PackStream_packed:
  assumes X: "zstd_ok X" "zstd_bound X" "gcm_ok X" "hash_sizes_ok X" and env: "env_ok env"
    and m: "MaxCompression opts \<longrightarrow> peCgo env" and o: "Mode opts \<noteq> ''edge''" "0 \<le> Concurrency opts"
    and cb: "stream_codebook fs cbp cb" and input: "input \<noteq> []" "length input < 2 ^ 27"
  shows "\<exists>metrics out h bs. PackStream X env input outp cbp opts fs = (Inr metrics, fs(outp \<mapsto> out)) \<and>
    packed_file X h ek (reader_of (stream_readers cb)) bs out input \<and> (UsesBrainDict h \<longleftrightarrow> cb \<noteq> None) \<and>
    MicroDictSize h = 0"
proof -
  let ?n = "stream_chunk_size opts cb"
  have wf: "\<forall>r. cb = Some r \<longrightarrow> wf_reader r \<and> CodewordCount (rHeader r) \<noteq> 0"
    using cb by (auto simp: stream_codebook_def usable_def split: option.splits)
  obtain split where split: "stream_split X opts cb ?n = Inr split" "good_split split"
    using stream_split_ok [of cb X opts ?n] wf by blast
  obtain dict where dict: "(case cb of None \<Rightarrow> Inr [] | Some r \<Rightarrow> Dictionary r) = Inr dict"
    using wf Dictionary_ok by (cases cb) auto
  obtain s where s: "(case cb of None \<Rightarrow> Inr None | Some r \<Rightarrow> rbind (NewLSHSearcher X r) (\<lambda>s. Inr (Some s))) = Inr s"
    "case cb of None \<Rightarrow> s = None | Some r \<Rightarrow> \<exists>ls. s = Some ls \<and> lsh_for r ls"
    using wf NewLSHSearcher_ok [of _ X] by (cases cb) fastforce+
  have open_cb: "(if cbp = [] then Inr None
      else rbind (wrap_err ''stream: open codebook'' (cb_Open fs cbp)) (\<lambda>r. Inr (Some r))) = Inr cb"
    using cb by (auto simp: stream_codebook_def split: option.splits)
  define h where "h blocks k = stream_header X opts cb ?n input blocks k" for blocks k
  note hdr = stream_header_packed [OF X(4) o(1), where cb = cb and n = ?n and input = input, folded h_def]
  obtain bs g where bs: "stream_blocks X env opts ?n split dict (read_blocks input) s = Inr (map snd bs, g)"
    "gEntries g = map fst (items_of bs)"
    "packs_blocks X (h [] 0) ek (reader_of (stream_readers cb)) 0 (read_blocks input) bs"
    using stream_blocks_ok [OF X env hdr(2,3) m o cb split(2) dict s(2)] by blast
  let ?h = "h (map snd bs) (length (items_of bs))"
  have "packed_blocks X ?h ek (reader_of (stream_readers cb)) bs input"
    using packs_input [OF bs(3) input] frames_ok_key [of X ek "h [] 0" ?h] hdr(2,3)
    by (simp add: packed_blocks_def file_key_def)
  moreover define t where "t = le_bytes 4 (of_nat (length (table_blob X [] (gEntries g) None)) :: u32) @ table_blob X [] (gEntries g) None"
  have t: "EncodeCompressedTable X nonce (gEntries g) v None = Inr t" for v nonce
    unfolding t_def by (subst EncodeCompressedTable_layout) (simp_all add: table_blob_def)
  let ?out = "crom_file ?h (sizes_of bs) t @ frames_of bs"
  have "packed_header X ?h bs input" by (rule hdr(1))
  ultimately have pf: "packed_file X ?h ek (reader_of (stream_readers cb)) bs ?out input"
    unfolding packed_file_def file_key_def
    using hdr(2) t bs(2) by (auto intro!: exI [of _ "zeros 12"] simp: NonceSize_def)
  have "stream_inputs X env opts fs cbp input = Inr (cb, ?n, map snd bs, g)"
    unfolding stream_inputs_def open_cb by (simp add: s(1) split(1) dict bs(1) Let_def)
  then have "PackStream X env input outp cbp opts fs = (Inr (stream_metrics input ?out g), fs(outp \<mapsto> ?out))"
    unfolding PackStream_def crom_file_def sizes_of_def frames_of_def comp_def
    by (simp only: sum.case prod.case Let_def t [unfolded bs(2)] wrap_err.simps h_def bs(2) length_map map_map comp_def append_assoc)
  with pf hdr(3,4) show ?thesis by (intro exI conjI; assumption?) simp_all
qed

text \<open>An empty stream: no blocks, no entries, and a table of no rows.\<close>

definition empty_table :: "ext \<Rightarrow> bytes" where
  "empty_table X = le_bytes 4 (of_nat (length (table_blob X [] [] None)) :: u32) @ table_blob X [] [] None"

lemma PackStream_empty:
  assumes cb: "stream_codebook fs cbp cb"
  shows "\<exists>m. PackStream X env [] outp cbp opts fs =
    (Inr m, fs(outp \<mapsto> fst (Serialize (stream_header X opts cb (stream_chunk_size opts cb) [] [] 0)) @ empty_table X))"
proof -
  have wf: "\<forall>r. cb = Some r \<longrightarrow> wf_reader r \<and> CodewordCount (rHeader r) \<noteq> 0"
    using cb by (auto simp: stream_codebook_def usable_def split: option.splits)
  obtain split where split: "stream_split X opts cb (stream_chunk_size opts cb) = Inr split"
    using stream_split_ok [of cb X opts "stream_chunk_size opts cb"] wf by blast
  obtain dict where dict: "(case cb of None \<Rightarrow> Inr [] | Some r \<Rightarrow> Dictionary r) = Inr dict"
    using wf Dictionary_ok by (cases cb) auto
  obtain s where s: "(case cb of None \<Rightarrow> Inr None | Some r \<Rightarrow> rbind (NewLSHSearcher X r) (\<lambda>s. Inr (Some s))) = Inr s"
    using wf NewLSHSearcher_ok [of _ X] by (cases cb) fastforce+
  have open_cb: "(if cbp = [] then Inr None
      else rbind (wrap_err ''stream: open codebook'' (cb_Open fs cbp)) (\<lambda>r. Inr (Some r))) = Inr cb"
    using cb by (auto simp: stream_codebook_def split: option.splits)
  have "stream_inputs X env opts fs cbp [] = Inr (cb, stream_chunk_size opts cb, [], start_gathered)"
    unfolding stream_inputs_def open_cb by (simp add: s split dict stream_blocks_def Let_def)
  moreover have "EncodeCompressedTable X [] [] Version5 None = Inr (empty_table X)"
    unfolding empty_table_def by (rule EncodeCompressedTable_layout) simp
  ultimately show ?thesis by (simp add: PackStream_def Let_def start_gathered_def)
qed

section \<open>Properties\<close>

text \<open>
  C3. The round trip of a stream, outside the edge mode, with maximal compression only in a build
  with cgo and a number of workers that is not negative: whatever the chunker, the other compression
  levels and the schedule of the workers, \<open>PackStream\<close> of a non-empty stream below 128 MiB succeeds,
  without a codebook or with one that opens, is smaller than \<open>2 ^ 60\<close> bytes, has at least one codeword
  and is not at the output path; and \<open>Unpack\<close> of what it wrote, with the same codebook and without
  fuzziness, writes the stream back.
\<close>

theorem pack_stream_roundtrip:
  assumes "zstd_ok X" "zstd_bound X" "gcm_ok X" "hash_sizes_ok X" and "env_ok env"
    and "MaxCompression opts \<longrightarrow> peCgo env" "Mode opts \<noteq> ''edge''" "0 \<le> Concurrency opts"
    and "codebookPath = [] \<or> (\<exists>data. fs codebookPath = Some data \<and> good_codebook data)" "codebookPath \<noteq> outPath"
    and "input \<noteq> []" "length input < 2 ^ 27" "Fuzziness uopts \<le> 0"
  shows "\<exists>m fs'. PackStream X env input outPath codebookPath opts fs = (Inr m, fs') \<and>
    Unpack X rnd outPath dest codebookPath uopts fs' = (Inr (), (fs'(dest @ ''.tmp'' := None))(dest \<mapsto> input))"
proof -
  obtain cb where cb: "stream_codebook fs codebookPath cb" using stream_codebook_good [where fs = fs, OF assms(9)] by blast
  let ?r = "reader_of (stream_readers cb)"
  obtain m out h bs where p: "PackStream X env input outPath codebookPath opts fs = (Inr m, fs(outPath \<mapsto> out))"
    "packed_file X h (uEncryptionKey uopts) ?r bs out input" "UsesBrainDict h \<longleftrightarrow> cb \<noteq> None" "MicroDictSize h = 0"
    using PackStream_packed [OF assms(1-8) cb assms(11,12)] by blast
  let ?fs = "fs(outPath \<mapsto> out)"
  have v: "Version3 \<le> Version h" "Version h \<le> Version8" using p(2) by (simp_all add: packed_file_def packed_header_def)
  have "brain_given X ?fs h codebookPath uopts ?r bs"
  proof (cases cb)
    case None
    have "laid_out no_reader 0 (items_of bs)"
      using p(2) None by (simp add: packed_file_def packed_blocks_def reader_of_def stream_readers_def)
    with None p(3) show ?thesis by (simp add: brain_given_def laid_out_no_reader)
  next
    case (Some r)
    then have "cb_Open fs codebookPath = Inr r" "codebookPath \<noteq> []" using cb by (simp_all add: stream_codebook_def)
    then have "cb_Open ?fs codebookPath = Inr r" using assms(10) by (auto simp: cb_Open_OpenFromBytes)
    with Some p(4) \<open>codebookPath \<noteq> []\<close> show ?thesis
      by (simp add: brain_given_def open_brain_def stored_fields [OF v] OpenForFile_def reader_of_def stream_readers_def)
  qed
  from Unpack_packed [OF assms(1-4) p(2) one_codebook_facts(4) [OF stream_codebook_one [OF cb]] this _ assms(13), of outPath "[]"] p(1)
  show ?thesis by auto
qed

theorem pack_stream_roundtrip_witness:
  "\<exists>m fs'. PackStream toy_ext sample_env (replicate 300 7) ''out'' ''brain'' (sample_options\<lparr>UseACAC := True\<rparr>) sample_fs =
      (Inr m, fs') \<and>
    Unpack toy_ext (\<lambda>_. 0) ''out'' ''back'' ''brain'' \<lparr>Fuzziness = 0, uEncryptionKey = [], Strict = True\<rparr> fs' =
      (Inr (), (fs'(''back'' @ ''.tmp'' := None))(''back'' \<mapsto> replicate 300 7))"
proof -
  have env: "env_ok sample_env" by (auto simp: env_ok_def sample_env_def NonceSize_def)
  have cb: "''brain'' = [] \<or> (\<exists>data. sample_fs ''brain'' = Some data \<and> good_codebook data)"
    using sample_codebook_opens by (simp add: sample_fs_def good_codebook_def)
  show ?thesis
    by (rule pack_stream_roundtrip [where fs = sample_fs, OF toy_ext_ok env _ _ _ cb])
      (simp_all add: sample_options_def)
qed

text \<open>
  An empty stream does not survive: the header \<open>PackStream\<close> writes for it says that no
  chunks follow, but the empty chunk table does, and \<open>Unpack\<close> takes the table for the body of
  a copied file. Its hash is not that of the empty input, so the file is rejected.
\<close>

lemma stream_empty_rejected:
  assumes "hash_sizes_ok X" "sha256 X (empty_table X) \<noteq> sha256 X []"
    and "codebookPath = [] \<or> (\<exists>data. fs codebookPath = Some data \<and> good_codebook data)"
    and "Mode opts \<noteq> ''edge''" "Fuzziness uopts = 0"
  shows "\<exists>m fs'. PackStream X env [] outPath codebookPath opts fs = (Inr m, fs') \<and>
    Unpack X rnd outPath dest path uopts fs' =
      (Inl (GoErr ''unpack: SECURITY/INTEGRITY FAILURE''), fs'(dest @ ''.tmp'' := None))"
proof -
  obtain cb where cb: "stream_codebook fs codebookPath cb" using stream_codebook_good [where fs = fs, OF assms(3)] by blast
  let ?h = "stream_header X opts cb (stream_chunk_size opts cb) [] [] 0"
  have "\<exists>m. PackStream X env [] outPath codebookPath opts fs = (Inr m, fs(outPath \<mapsto> fst (Serialize ?h) @ empty_table X))"
    by (rule PackStream_empty [OF cb])
  moreover have "packed_header X ?h [] []"
    using stream_header_packed(1) [OF assms(1,4), of cb "stream_chunk_size opts cb" "[]" "[]" "[]"] by simp
  then have h: "wf_header ?h" "Version3 \<le> Version ?h" "Version ?h \<le> Version8" "ChunkCount ?h = 0" "\<not> IsEncrypted ?h"
    "OriginalHash ?h = sha256 X []" "\<not> IsLossy ?h"
    using stream_header_packed(2) [OF assms(1,4)] assms(4) by (simp_all add: packed_header_def) (simp add: stream_header_def)
  have rd: "ReadStream X (uEncryptionKey uopts) (fst (Serialize ?h) @ empty_table X) = Inr (stored_header ?h, [], [], empty_table X)"
    by (rule ReadStream_copied [OF h(1-4)]) (use h(5) in simp)
  have "file_passthrough X (stored_header ?h) (lossy_options (stored_header ?h) uopts) (empty_table X) =
      (Inl (GoErr ''unpack: SECURITY/INTEGRITY FAILURE''), empty_table X)"
    using assms(2,5) h(5-7) by (simp add: file_passthrough_def stored_fields [OF h(2,3)] lossy_options_def)
  with rd h(4) have "Unpack X rnd outPath dest path uopts (fs(outPath \<mapsto> fst (Serialize ?h) @ empty_table X)) =
      (Inl (GoErr ''unpack: SECURITY/INTEGRITY FAILURE''),
       (fs(outPath \<mapsto> fst (Serialize ?h) @ empty_table X))(dest @ ''.tmp'' := None))"
    by (simp add: Unpack_def needs_brain_def file_output_def stored_fields [OF h(2,3)] finish_output_def)
  ultimately show ?thesis by blast
qed

end
