(* ===== verification/Vfs_Cache.thy ===== *)
theory Vfs_Cache
  imports Crom_Prelude "HOL-Library.AList"
begin

text \<open>
  \<^verbatim>\<open>internal/vfs/cache.go\<close>: the least-recently-used cache of the virtual file system, bounded
  in bytes. The list of the source and the map into it are one association list, the most
  recently used item first. The interface to its clients is the locale \<open>keyed_store\<close>.
\<close>

section \<open>The cache\<close>

text \<open>The keys are of two dynamic types: blocks (\<open>uint32\<close>) and chunks (\<open>int64\<close>).\<close>

datatype cache_key = PoolKey u32 | ChunkKey nat

record MemoryCache =
  mcMaxBytes :: int
  mcTotalBytes :: int
  mcItems :: "(cache_key \<times> bytes) list"

definition NewMemoryCache :: "int \<Rightarrow> MemoryCache" where
  "NewMemoryCache maxMB =
     \<lparr>mcMaxBytes = sint (of_int (if maxMB \<le> 0 then 64 else maxMB) * 1024 * 1024 :: 64 word),
      mcTotalBytes = 0, mcItems = []\<rparr>"

definition Cache_Get :: "cache_key \<Rightarrow> MemoryCache \<Rightarrow> bytes option \<times> MemoryCache" where
  "Cache_Get key c =
     (case map_of (mcItems c) key of
        Some data \<Rightarrow> (Some data, c\<lparr>mcItems := (key, data) # AList.delete key (mcItems c)\<rparr>)
      | None \<Rightarrow> (None, c))"

definition removeOldest :: "MemoryCache \<Rightarrow> MemoryCache" where
  "removeOldest c =
     (if mcItems c = [] then c
      else c\<lparr>mcItems := butlast (mcItems c),
             mcTotalBytes := mcTotalBytes c - int (length (snd (last (mcItems c))))\<rparr>)"

function evict :: "MemoryCache \<Rightarrow> MemoryCache" where
  "evict c = (if mcMaxBytes c < mcTotalBytes c \<and> mcItems c \<noteq> [] then evict (removeOldest c) else c)"
  by pat_completeness auto
termination
  by (relation "measure (\<lambda>c. length (mcItems c))") (auto simp: removeOldest_def)

declare evict.simps [simp del]

definition Cache_Put :: "cache_key \<Rightarrow> bytes \<Rightarrow> MemoryCache \<Rightarrow> MemoryCache" where
  "Cache_Put key data c =
     evict
       (case map_of (mcItems c) key of
          Some old \<Rightarrow>
            c\<lparr>mcItems := (key, data) # AList.delete key (mcItems c),
              mcTotalBytes := mcTotalBytes c + (int (length data) - int (length old))\<rparr>
        | None \<Rightarrow> c\<lparr>mcItems := (key, data) # mcItems c, mcTotalBytes := mcTotalBytes c + int (length data)\<rparr>)"

section \<open>Eviction\<close>

definition cached_bytes :: "(cache_key \<times> bytes) list \<Rightarrow> int" where
  "cached_bytes items = (\<Sum>(k, d) \<leftarrow> items. int (length d))"

definition cache_ok :: "MemoryCache \<Rightarrow> bool" where
  "cache_ok c \<longleftrightarrow> distinct (map fst (mcItems c)) \<and> mcTotalBytes c = cached_bytes (mcItems c)"

lemma cached_bytes_simps [simp]:
  "cached_bytes [] = 0" "cached_bytes ((k, d) # items) = int (length d) + cached_bytes items"
  "cached_bytes (xs @ ys) = cached_bytes xs + cached_bytes ys"
  by (simp_all add: cached_bytes_def)

lemma cached_bytes_nonneg: "0 \<le> cached_bytes items"
  by (induction items) (auto simp: cached_bytes_def)

lemma cached_bytes_delete:
  "distinct (map fst items) \<Longrightarrow> map_of items k = Some d \<Longrightarrow>
   cached_bytes (AList.delete k items) = cached_bytes items - int (length d)"
proof (induction items)
  case (Cons it items)
  obtain k' d' where it: "it = (k', d')" by (cases it)
  show ?case
  proof (cases "k' = k")
    case True
    with Cons.prems(1) have "k \<notin> set (map fst items)" by (auto simp: it)
    then have "AList.delete k items = items" by (force simp: AList.delete_eq filter_id_conv)
    with True Cons.prems show ?thesis by (simp add: it)
  next
    case False
    with Cons show ?thesis by (simp add: it)
  qed
qed simp

lemma removeOldest_ok: "cache_ok c \<Longrightarrow> cache_ok (removeOldest c)"
proof -
  assume c: "cache_ok c"
  show ?thesis
  proof (cases "mcItems c" rule: rev_cases)
    case Nil
    with c show ?thesis by (simp add: removeOldest_def)
  next
    case (snoc items it)
    with c show ?thesis by (cases it) (simp add: removeOldest_def cache_ok_def)
  qed
qed

text \<open>Eviction drops items from the end until the rest fits.\<close>

lemma evict_ok:
  "cache_ok c \<Longrightarrow> cache_ok (evict c) \<and> mcMaxBytes (evict c) = mcMaxBytes c \<and>
     mcTotalBytes (evict c) \<le> max 0 (mcMaxBytes c) \<and> (\<exists>dropped. mcItems c = mcItems (evict c) @ dropped)"
proof (induction c rule: evict.induct)
  case (1 c)
  show ?case
  proof (cases "mcMaxBytes c < mcTotalBytes c \<and> mcItems c \<noteq> []")
    case True
    then have e: "evict c = evict (removeOldest c)" by (subst evict.simps) simp
    have IH: "cache_ok (evict c)" "mcMaxBytes (evict c) = mcMaxBytes (removeOldest c)"
      "mcTotalBytes (evict c) \<le> max 0 (mcMaxBytes (removeOldest c))"
      "\<exists>dropped. mcItems (removeOldest c) = mcItems (evict c) @ dropped"
      using 1(1) [OF True removeOldest_ok [OF 1(2)]] unfolding e by simp_all
    have max: "mcMaxBytes (removeOldest c) = mcMaxBytes c" by (simp add: removeOldest_def)
    obtain dropped where "butlast (mcItems c) = mcItems (evict c) @ dropped"
      using IH(4) True by (auto simp: removeOldest_def)
    then have "mcItems c = mcItems (evict c) @ (dropped @ [last (mcItems c)])"
      using True by (metis append.assoc append_butlast_last_id)
    with IH(1-3) show ?thesis unfolding max by (intro conjI exI)
  next
    case False
    then have "evict c = c" unfolding evict.simps [of c] by (rule if_not_P)
    with False 1(2) show ?thesis by (auto simp: cache_ok_def)
  qed
qed

lemma evict_map: "cache_ok c \<Longrightarrow> map_of (mcItems (evict c)) \<subseteq>\<^sub>m map_of (mcItems c)"
proof -
  assume "cache_ok c"
  then obtain dropped where "mcItems c = mcItems (evict c) @ dropped" using evict_ok by blast
  then show ?thesis by (simp add: map_le_map_add)
qed

section \<open>The interface of the cache\<close>

text \<open>
  What a client relies on: looking a key up changes nothing, and storing a value may forget
  other keys but invents none. A client that stores only values it could compute again then
  reads only such values.
\<close>

locale keyed_store =
  fixes get :: "'k \<Rightarrow> 's \<Rightarrow> 'v option \<times> 's" and put :: "'k \<Rightarrow> 'v \<Rightarrow> 's \<Rightarrow> 's"
    and held :: "'s \<Rightarrow> 'k \<rightharpoonup> 'v" and inv :: "'s \<Rightarrow> bool"
  assumes get_held: "inv s \<Longrightarrow> fst (get k s) = held s k"
    and get_same: "inv s \<Longrightarrow> held (snd (get k s)) = held s"
    and get_inv: "inv s \<Longrightarrow> inv (snd (get k s))"
    and put_held: "inv s \<Longrightarrow> held (put k v s) \<subseteq>\<^sub>m (held s)(k \<mapsto> v)"
    and put_inv: "inv s \<Longrightarrow> inv (put k v s)"
begin

definition holds :: "('k \<Rightarrow> 'v \<Rightarrow> bool) \<Rightarrow> 's \<Rightarrow> bool" where
  "holds P s \<longleftrightarrow> inv s \<and> (\<forall>k v. held s k = Some v \<longrightarrow> P k v)"

lemma get_holds: "holds P s \<Longrightarrow> holds P (snd (get k s))"
  by (simp add: holds_def get_same get_inv)

lemma get_hit: "holds P s \<Longrightarrow> get k s = (Some v, s') \<Longrightarrow> P k v"
  using get_held [of s k] by (auto simp: holds_def)

lemma put_holds: "holds P s \<Longrightarrow> P k v \<Longrightarrow> holds P (put k v s)"
  using put_held [of s k v] put_inv [of s k v] unfolding holds_def
  by (metis domI map_le_def fun_upd_apply option.inject)

text \<open>A history of operations: a hit returns what was stored last under the key.\<close>

fun run_ops :: "('k \<times> 'v option) list \<Rightarrow> 's \<Rightarrow> 's" where
  "run_ops [] s = s"
| "run_ops ((k, None) # ops) s = run_ops ops (snd (get k s))"
| "run_ops ((k, Some v) # ops) s = run_ops ops (put k v s)"

fun last_put :: "('k \<times> 'v option) list \<Rightarrow> ('k \<rightharpoonup> 'v) \<Rightarrow> 'k \<rightharpoonup> 'v" where
  "last_put [] m = m"
| "last_put ((k, None) # ops) m = last_put ops m"
| "last_put ((k, Some v) # ops) m = last_put ops (m(k \<mapsto> v))"

lemma run_ops_inv: "inv s \<Longrightarrow> inv (run_ops ops s)"
  by (induction ops s rule: run_ops.induct) (simp_all add: get_inv put_inv)

lemma run_ops_held: "inv s \<Longrightarrow> held s \<subseteq>\<^sub>m m \<Longrightarrow> held (run_ops ops s) \<subseteq>\<^sub>m last_put ops m"
proof (induction ops s arbitrary: m rule: run_ops.induct)
  case (2 k ops s)
  then show ?case by (simp add: get_same get_inv)
next
  case (3 k v ops s)
  have "held (put k v s) \<subseteq>\<^sub>m m(k \<mapsto> v)"
    using put_held [OF 3(2), of k v] map_le_upd [OF 3(3), of k "Some v"] by (rule map_le_trans)
  with 3 show ?case by (simp add: put_inv)
qed simp

end

lemma Cache_Get_held: "fst (Cache_Get k c) = map_of (mcItems c) k"
  by (simp add: Cache_Get_def split: option.split)

lemma Cache_Get_map: "map_of (mcItems (snd (Cache_Get k c))) = map_of (mcItems c)"
  by (auto simp: Cache_Get_def AList.delete_conv' fun_eq_iff split: option.split)

lemma Cache_Get_ok: "cache_ok c \<Longrightarrow> cache_ok (snd (Cache_Get k c))"
  by (auto simp: Cache_Get_def cache_ok_def cached_bytes_delete AList.delete_keys distinct_removeAll
      split: option.split)

lemma Cache_Put_ok:
  assumes "cache_ok c"
  shows "cache_ok (Cache_Put k d c) \<and> mcMaxBytes (Cache_Put k d c) = mcMaxBytes c \<and>
    mcTotalBytes (Cache_Put k d c) \<le> max 0 (mcMaxBytes c) \<and>
    map_of (mcItems (Cache_Put k d c)) \<subseteq>\<^sub>m (map_of (mcItems c))(k \<mapsto> d)"
proof -
  define c1 where "c1 =
    (case map_of (mcItems c) k of
       Some old \<Rightarrow>
         c\<lparr>mcItems := (k, d) # AList.delete k (mcItems c),
           mcTotalBytes := mcTotalBytes c + (int (length d) - int (length old))\<rparr>
     | None \<Rightarrow> c\<lparr>mcItems := (k, d) # mcItems c, mcTotalBytes := mcTotalBytes c + int (length d)\<rparr>)"
  have "cache_ok c1"
    using assms
    by (auto simp: c1_def cache_ok_def cached_bytes_delete AList.delete_keys distinct_removeAll map_of_eq_None_iff
        split: option.split)
  moreover have "map_of (mcItems c1) = (map_of (mcItems c))(k \<mapsto> d)" "mcMaxBytes c1 = mcMaxBytes c"
    by (auto simp: c1_def AList.delete_conv' fun_eq_iff split: option.split)
  moreover have "Cache_Put k d c = evict c1" by (simp add: Cache_Put_def c1_def)
  ultimately show ?thesis using evict_ok [of c1] evict_map [of c1] by simp
qed

interpretation memory_cache: keyed_store Cache_Get Cache_Put "\<lambda>c. map_of (mcItems c)" cache_ok
  by unfold_locales (use Cache_Put_ok in \<open>auto simp: Cache_Get_held Cache_Get_map Cache_Get_ok\<close>)

text \<open>The item stored last is evicted last.\<close>

lemma evict_keeps_first:
  "cache_ok c \<Longrightarrow> mcItems c = it # items \<Longrightarrow> int (length (snd it)) \<le> mcMaxBytes c \<Longrightarrow>
   \<exists>items'. mcItems (evict c) = it # items'"
proof (induction c arbitrary: items rule: evict.induct)
  case (1 c)
  show ?case
  proof (cases "mcMaxBytes c < mcTotalBytes c")
    case True
    have "items \<noteq> []"
    proof
      assume "items = []"
      with 1(2-4) True show False by (cases it) (simp add: cache_ok_def)
    qed
    then have "mcItems (removeOldest c) = it # butlast items" "mcMaxBytes (removeOldest c) = mcMaxBytes c"
      using 1(3) by (simp_all add: removeOldest_def)
    with 1 True removeOldest_ok [OF 1(2)] have "\<exists>items'. mcItems (evict (removeOldest c)) = it # items'" by simp
    moreover have "evict c = evict (removeOldest c)" using True 1(3) by (subst evict.simps) simp
    ultimately show ?thesis by simp
  next
    case False
    then have "evict c = c" by (subst evict.simps) simp
    with 1(3) show ?thesis by simp
  qed
qed

lemma Cache_Put_finds:
  assumes "cache_ok c" "int (length d) \<le> mcMaxBytes c"
  shows "map_of (mcItems (Cache_Put k d c)) k = Some d"
proof (cases "map_of (mcItems c) k")
  case None
  let ?c = "c\<lparr>mcItems := (k, d) # mcItems c, mcTotalBytes := mcTotalBytes c + int (length d)\<rparr>"
  have "cache_ok ?c" using assms(1) None by (simp add: cache_ok_def map_of_eq_None_iff)
  with evict_keeps_first [of ?c "(k, d)"] assms(2) None show ?thesis by (auto simp: Cache_Put_def)
next
  case (Some old)
  let ?c = "c\<lparr>mcItems := (k, d) # AList.delete k (mcItems c),
      mcTotalBytes := mcTotalBytes c + (int (length d) - int (length old))\<rparr>"
  have "cache_ok ?c"
    using assms(1) Some by (simp add: cache_ok_def cached_bytes_delete AList.delete_keys distinct_removeAll)
  with evict_keeps_first [of ?c "(k, d)"] assms(2) Some show ?thesis by (auto simp: Cache_Put_def)
qed

lemma NewMemoryCache_ok [simp]:
  "cache_ok (NewMemoryCache n)" "mcItems (NewMemoryCache n) = []" "mcTotalBytes (NewMemoryCache n) = 0"
  by (simp_all add: NewMemoryCache_def cache_ok_def)

text \<open>The bound holds after every history that starts within it.\<close>

lemma run_ops_bounded:
  "cache_ok c \<Longrightarrow> mcTotalBytes c \<le> max 0 (mcMaxBytes c) \<Longrightarrow>
   mcMaxBytes (memory_cache.run_ops ops c) = mcMaxBytes c \<and>
   mcTotalBytes (memory_cache.run_ops ops c) \<le> max 0 (mcMaxBytes c)"
proof (induction ops c rule: memory_cache.run_ops.induct)
  case (2 k ops c)
  have "mcMaxBytes (snd (Cache_Get k c)) = mcMaxBytes c" "mcTotalBytes (snd (Cache_Get k c)) = mcTotalBytes c"
    by (simp_all add: Cache_Get_def split: option.split)
  with 2 show ?case by (simp add: Cache_Get_ok)
next
  case (3 k d ops c)
  with Cache_Put_ok [OF 3(2), of k d] show ?case by simp
qed simp

section \<open>Properties\<close>

text \<open>
  C25. In every state the cache reaches from its creation, it counts its bytes exactly and holds
  no more than its limit; a lookup that hits returns what was stored last under the key; and a
  value that fits the limit is found right after it was stored.
\<close>

theorem memory_cache_bounded:
  fixes ops :: "(cache_key \<times> bytes option) list"
  shows "let c = memory_cache.run_ops ops (NewMemoryCache maxMB) in
    cached_bytes (mcItems c) = mcTotalBytes c \<and> cached_bytes (mcItems c) \<le> max 0 (mcMaxBytes (NewMemoryCache maxMB)) \<and>
    (case fst (Cache_Get k c) of Some d \<Rightarrow> memory_cache.last_put ops Map.empty k = Some d | None \<Rightarrow> True) \<and>
    (if int (length v) \<le> mcMaxBytes c then fst (Cache_Get k (Cache_Put k v c)) = Some v else True)"
proof -
  define c where "c = memory_cache.run_ops ops (NewMemoryCache maxMB)"
  have ok: "cache_ok c" unfolding c_def by (rule memory_cache.run_ops_inv) simp
  have "mcTotalBytes c \<le> max 0 (mcMaxBytes (NewMemoryCache maxMB))"
    unfolding c_def using run_ops_bounded [of "NewMemoryCache maxMB" ops] by simp
  moreover have "map_of (mcItems c) \<subseteq>\<^sub>m memory_cache.last_put ops Map.empty"
    unfolding c_def by (rule memory_cache.run_ops_held) simp_all
  then have "memory_cache.last_put ops Map.empty k = Some d" if "fst (Cache_Get k c) = Some d" for d
    using that by (auto simp: Cache_Get_held map_le_def dom_def)
  moreover have "fst (Cache_Get k (Cache_Put k v c)) = Some v" if "int (length v) \<le> mcMaxBytes c"
    using Cache_Put_finds [OF ok that] by (simp add: Cache_Get_held)
  ultimately show ?thesis using ok by (auto simp: Let_def cache_ok_def simp flip: c_def split: option.split)
qed

end
