(* ===== verification/Vfs_Reader.thy ===== *)
theory Vfs_Reader
  imports Pack_File Vfs_Cache
begin

text \<open>
  \<^verbatim>\<open>internal/vfs/reader.go\<close>: random access to a packed file, and the part of \<open>Mount\<close> in
  \<^verbatim>\<open>internal/vfs/fuse.go\<close> that opens one. A read finds the chunk under an offset by binary
  search, loads its block through the cache and rebuilds the chunk. Whatever was read
  before, a read of a file that \<open>Pack\<close> wrote returns the bytes of the input at that offset.
\<close>

section \<open>Binary search\<close>

text \<open>\<open>sort.Search\<close> and \<open>sort.SearchInts\<close> of the standard library.\<close>

function bin_search :: "(nat \<Rightarrow> bool) \<Rightarrow> nat \<Rightarrow> nat \<Rightarrow> nat" where
  "bin_search f i j =
     (if i < j then
        (let h = (i + j) div 2 in if \<not> f h then bin_search f (h + 1) j else bin_search f i h)
      else i)"
  by pat_completeness auto
termination
  by (relation "measure (\<lambda>(f, i, j). j - i)") auto

declare bin_search.simps [simp del]

definition sort_Search :: "nat \<Rightarrow> (nat \<Rightarrow> bool) \<Rightarrow> nat" where
  "sort_Search n f = bin_search f 0 n"

definition sort_SearchInts :: "nat list \<Rightarrow> nat \<Rightarrow> nat" where
  "sort_SearchInts a x = sort_Search (length a) (\<lambda>i. x \<le> a ! i)"

text \<open>For a monotone predicate the result is the first index at which it holds.\<close>

lemma bin_search_first:
  assumes "\<forall>a < i. \<not> f a" "\<forall>a \<ge> j. a < n \<longrightarrow> f a" "\<forall>a b. a \<le> b \<longrightarrow> b < n \<longrightarrow> f a \<longrightarrow> f b" "i \<le> j" "j \<le> n"
  shows "bin_search f i j \<le> n \<and> (\<forall>a < bin_search f i j. \<not> f a) \<and> (bin_search f i j < n \<longrightarrow> f (bin_search f i j))"
  using assms
proof (induction f i j rule: bin_search.induct)
  case (1 f i j)
  let ?h = "(i + j) div 2"
  show ?case
  proof (cases "i < j")
    case True
    show ?thesis
    proof (cases "f ?h")
      case fh: True
      have up: "\<forall>a \<ge> ?h. a < n \<longrightarrow> f a" using fh 1(5) by blast
      have nn: "\<not> \<not> f ?h" and h: "i \<le> ?h" "?h \<le> n" using fh True 1(7) by simp_all
      have "bin_search f i j = bin_search f i ?h" using True fh by (subst bin_search.simps) (simp add: Let_def)
      with 1(2) [OF True refl nn 1(3) up 1(5) h] show ?thesis by simp
    next
      case False
      have h: "?h < n" using True 1(7) by simp
      have low: "\<forall>a < ?h + 1. \<not> f a" using False 1(5) h by (metis Suc_eq_plus1 less_Suc_eq_le)
      have hj: "?h + 1 \<le> j" using True by simp
      have "bin_search f i j = bin_search f (?h + 1) j" using True False by (subst bin_search.simps) (simp add: Let_def)
      with 1(1) [OF True refl False low 1(4,5) hj 1(7)] show ?thesis by simp
    qed
  next
    case False
    then have e: "bin_search f i j = i" by (subst bin_search.simps) simp
    have "j \<le> i" using False by simp
    then have "i < n \<longrightarrow> f i" using 1(4) by blast
    with 1(3,6,7) show ?thesis unfolding e by (intro conjI) (rule order.trans)
  qed
qed

lemma sort_Search_eq:
  assumes "k \<le> n" "k < n \<longrightarrow> f k" "\<forall>a < k. \<not> f a" "\<forall>a b. a \<le> b \<longrightarrow> b < n \<longrightarrow> f a \<longrightarrow> f b"
  shows "sort_Search n f = k"
proof -
  let ?s = "bin_search f 0 n"
  have s: "?s \<le> n \<and> (\<forall>a < ?s. \<not> f a) \<and> (?s < n \<longrightarrow> f ?s)"
    by (rule bin_search_first [OF _ _ assms(4)]) simp_all
  then have "\<not> ?s < k" using assms(1,3) by (meson order.strict_trans2)
  moreover have "\<not> k < ?s" using s assms(2) by (meson order.strict_trans2)
  ultimately show ?thesis by (simp add: sort_Search_def)
qed

section \<open>The reader\<close>

record RandomReader =
  rrFile :: bytes
  rrFileSize :: nat
  rrHeader :: Header
  rrBlockTable :: "u32 list"
  rrBlockOffsets :: "nat list"
  rrEntries :: "ChunkEntry list"
  rrBlockStarts :: "nat list"
  rrChunkEnds :: "u64 list"
  rrCb :: "Reader option"
  rrMemCache :: MemoryCache
  rrDerivedKey :: bytes
  rrPassthroughPlain :: "bytes option"
  rrDataOffset :: nat

definition vfs_header_size :: "Header \<Rightarrow> nat" where
  "vfs_header_size header =
     (if Version header = Version4 then HeaderSizeV4
      else if Version header = Version5 then HeaderSizeV5
      else if Version header = Version6 \<or> Version header = Version7 then HeaderSizeV6
      else if Version8 \<le> Version header then HeaderSizeV8 + unat (MicroDictSize header)
      else HeaderSizeV2)"

definition vfs_table_size :: "Header \<Rightarrow> nat" where
  "vfs_table_size header =
     (if ChunkCount header = 0 then 0
      else if 0 < TableBytes header then TableBytes header
      else unat (ChunkCount header) * unat (GetEntrySize (Version header)) + (if IsEncrypted header then 28 else 0))"

fun block_offsets :: "nat \<Rightarrow> u32 list \<Rightarrow> nat list" where
  "block_offsets current [] = []"
| "block_offsets current (sz # sizes) = current # block_offsets (current + unat sz) sizes"

fun chunk_ends :: "u64 \<Rightarrow> ChunkEntry list \<Rightarrow> u64 list" where
  "chunk_ends pos [] = []"
| "chunk_ends pos (e # es) = (pos + ucast (EOriginalSize e)) # chunk_ends (pos + ucast (EOriginalSize e)) es"

definition NewRandomReader ::
  "ext \<Rightarrow> bytes \<Rightarrow> Header \<Rightarrow> u32 list \<Rightarrow> ChunkEntry list \<Rightarrow> Reader option \<Rightarrow> bytes \<Rightarrow> int \<Rightarrow> RandomReader res" where
  "NewRandomReader X f header blockTable entries cb encryptionKey maxMB =
     (if Version header < Version2 then Inl (GoErr ''vfs: only Version 2+ formats support Random Access'')
      else
        rbind (if IsEncrypted header
               then if encryptionKey = [] then Inl (GoErr ''vfs: file is encrypted but no key was provided'')
                    else Inr (DeriveKey X encryptionKey (Salt header))
               else Inr []) (\<lambda>key.
          let baseOffset = vfs_header_size header + length blockTable * 4 + vfs_table_size header
          in Inr \<lparr>rrFile = f, rrFileSize = length f, rrHeader = header, rrBlockTable = blockTable,
                  rrBlockOffsets = block_offsets baseOffset blockTable, rrEntries = entries,
                  rrBlockStarts = BlockStarts entries, rrChunkEnds = chunk_ends 0 entries, rrCb = cb,
                  rrMemCache = NewMemoryCache maxMB, rrDerivedKey = key, rrPassthroughPlain = None,
                  rrDataOffset = baseOffset\<rparr>))"

text \<open>\<open>ReadAt\<close> of a file into a buffer of \<open>n\<close> zeros; the end of the file is not an error here.\<close>

definition read_at :: "bytes \<Rightarrow> nat \<Rightarrow> nat \<Rightarrow> bytes" where
  "read_at f pos n = take n (drop pos f) @ zeros (n - length (take n (drop pos f)))"

text \<open>
  The lock of \<open>loadBlockPool\<close> excludes a second load of the same block; the second look into
  the cache inside it finds what the first one did.
\<close>

definition loadBlockPool :: "ext \<Rightarrow> u32 \<Rightarrow> RandomReader \<Rightarrow> bytes res \<times> RandomReader" where
  "loadBlockPool X blockID rr =
     (case Cache_Get (PoolKey blockID) (rrMemCache rr) of
        (Some pool, c) \<Rightarrow> (Inr pool, rr\<lparr>rrMemCache := c\<rparr>)
      | (None, c) \<Rightarrow>
          if of_nat (length (rrBlockOffsets rr)) \<le> blockID then (Inl (GoErr ''invalid block ID''), rr)
          else
            (let buf = read_at (rrFile rr) (rrBlockOffsets rr ! unat blockID) (unat (rrBlockTable rr ! unat blockID)) in
             case rbind (if IsEncrypted (rrHeader rr)
                         then wrap_err ''decrypt block frame'' (Decrypt X (rrDerivedKey rr) buf) else Inr buf) (\<lambda>buf.
                  rbind (if UsesBrainDict (rrHeader rr)
                         then case rrCb rr of None \<Rightarrow> Inl GoPanic | Some cb \<Rightarrow> Dictionary cb
                         else Inr []) (\<lambda>dict.
                    wrap_err ''decompress pool'' (DecompressPoolDict X buf dict))) of
               Inl e \<Rightarrow> (Inl e, rr)
             | Inr pool \<Rightarrow> (Inr pool, rr\<lparr>rrMemCache := Cache_Put (PoolKey blockID) pool (rrMemCache rr)\<rparr>)))"

text \<open>
  A chunk from the pool of its block. The block is the one that contains the chunk, so its
  index is in range.
\<close>

definition pool_chunk :: "RandomReader \<Rightarrow> ChunkEntry \<Rightarrow> u32 \<Rightarrow> bytes \<Rightarrow> bytes res" where
  "pool_chunk rr entry blockID pool =
     (let entryLocalOffset = DeltaOffset entry - DeltaOffset (rrEntries rr ! (rrBlockStarts rr ! unat blockID));
          endOffset = entryLocalOffset + ucast (DeltaSize entry)
      in if of_nat (length pool) < endOffset then Inl (GoErr ''vfs: delta bounds error'')
         else
           rbind (gslice pool (unat entryLocalOffset) (unat endOffset)) (\<lambda>rs.
             if CodebookID entry = LiteralCodebookID then Inr rs
             else
               (let isPatch = (CodebookID entry AND FlagIsPatch \<noteq> 0);
                    cleanID = CodebookID entry AND clean_mask
                in rbind (case rrCb rr of None \<Rightarrow> Inl GoPanic
                          | Some cb \<Rightarrow> wrap_err ''vfs: lookup codeword'' (Lookup cb cleanID)) (\<lambda>pattern.
                     let usablePattern = clip (EOriginalSize entry) pattern in
                     if isPatch then
                       (case ApplyPatch usablePattern rs of
                          Inl (GoErr _) \<Rightarrow> Inr rs
                        | r \<Rightarrow> r)
                     else Inr (Apply usablePattern (clip (EOriginalSize entry) rs))))))"

text \<open>One chunk: from the cache, from its generator, or from its pool.\<close>

definition load_chunk :: "ext \<Rightarrow> nat \<Rightarrow> RandomReader \<Rightarrow> bytes res \<times> RandomReader" where
  "load_chunk X chunkIndex rr =
     (let entry = rrEntries rr ! chunkIndex;
          blockID = of_int (int (sort_SearchInts (rrBlockStarts rr) (chunkIndex + 1)) - 1) :: u32
      in case Cache_Get (ChunkKey chunkIndex) (rrMemCache rr) of
           (Some cachedChunk, c) \<Rightarrow> (Inr cachedChunk, rr\<lparr>rrMemCache := c\<rparr>)
         | (None, c) \<Rightarrow>
             if CodebookIndex entry = FractalCodebookIndex
             then (Inr (GeneratePolynomial (CodebookID entry) (unat (EOriginalSize entry))), rr)
             else
               (case loadBlockPool X blockID rr of
                  (Inl GoPanic, rr) \<Rightarrow> (Inl GoPanic, rr)
                | (Inl (GoErr e), rr) \<Rightarrow> (Inl (GoErr ''vfs: read block''), rr)
                | (Inr pool, rr) \<Rightarrow> (pool_chunk rr entry blockID pool, rr)))"

text \<open>The chunk clamped to its size, and kept unless it is a literal.\<close>

definition fetch_chunk :: "ext \<Rightarrow> nat \<Rightarrow> RandomReader \<Rightarrow> bytes res \<times> RandomReader" where
  "fetch_chunk X chunkIndex rr =
     (let entry = rrEntries rr ! chunkIndex in
      case load_chunk X chunkIndex rr of
        (Inl e, rr) \<Rightarrow> (Inl e, rr)
      | (Inr reconstructedChunk, rr) \<Rightarrow>
          (let chunk = clip (EOriginalSize entry) reconstructedChunk
           in (Inr chunk,
               if CodebookID entry \<noteq> LiteralCodebookID
               then rr\<lparr>rrMemCache := Cache_Put (ChunkKey chunkIndex) chunk (rrMemCache rr)\<rparr> else rr)))"

text \<open>
  How many bytes of the chunk to copy. The offset in the chunk is computed in \<open>int64\<close>.
\<close>

definition copy_count :: "ChunkEntry \<Rightarrow> int \<Rightarrow> nat \<Rightarrow> bytes \<Rightarrow> int" where
  "copy_count entry chunkOffset needed chunk =
     (let toCopy = uint (EOriginalSize entry) - chunkOffset;
          toCopy = (if int needed < toCopy then int needed else toCopy)
      in if int (length chunk) < chunkOffset + toCopy then int (length chunk) - chunkOffset else toCopy)"

lemma gslice_positive: "gslice xs (nat a) (nat (a + k)) = Inr d \<Longrightarrow> \<not> k \<le> 0 \<Longrightarrow> \<not> a < 0 \<Longrightarrow> 0 < length d"
  by (auto simp: gslice_def slice_def split: if_splits)

text \<open>
  The loop of \<open>ReadAt\<close>; \<open>acc\<close> is what was copied so far, \<open>n\<close> the length of the destination.
  It ends because every iteration copies something.
\<close>

function read_loop ::
  "ext \<Rightarrow> nat \<Rightarrow> nat \<Rightarrow> bytes \<Rightarrow> RandomReader \<Rightarrow> ((bytes \<times> string option) \<times> RandomReader) res" where
  "read_loop X off n acc rr =
     (if length acc < n then
        (let currentOff = off + length acc;
             chunkIndex = sort_Search (length (rrEntries rr)) (\<lambda>i. of_nat currentOff < rrChunkEnds rr ! i)
         in if length (rrEntries rr) \<le> chunkIndex then Inr ((acc, None), rr)
            else
              (let entry = rrEntries rr ! chunkIndex;
                   chunkOffset = int currentOff - sint (rrChunkEnds rr ! chunkIndex) + uint (EOriginalSize entry)
               in case fetch_chunk X chunkIndex rr of
                    (Inl GoPanic, rr) \<Rightarrow> Inl GoPanic
                  | (Inl (GoErr e), rr) \<Rightarrow> Inr ((acc, Some e), rr)
                  | (Inr chunk, rr) \<Rightarrow>
                      (let toCopy = copy_count entry chunkOffset (n - length acc) chunk
                       in if toCopy \<le> 0 then Inr ((acc, Some ''vfs: data corruption or short read''), rr)
                          else if chunkOffset < 0 then Inl GoPanic
                          else rbind (gslice chunk (nat chunkOffset) (nat (chunkOffset + toCopy))) (\<lambda>d.
                                 read_loop X off n (acc @ d) rr))))
      else Inr ((acc, None), rr))"
  by pat_completeness auto
termination
  by (relation "measure (\<lambda>(X, off, n, acc, rr). n - length acc)")
    (auto dest!: gslice_positive intro!: diff_less_mono2)

declare read_loop.simps [simp del]

definition decryptPassthrough :: "ext \<Rightarrow> RandomReader \<Rightarrow> bytes res \<times> RandomReader" where
  "decryptPassthrough X rr =
     (case rrPassthroughPlain rr of
        Some plain \<Rightarrow> (Inr plain, rr)
      | None \<Rightarrow>
          if rrFileSize rr < rrDataOffset rr then (Inl GoPanic, rr)
          else
            (case wrap_err ''vfs: decrypt passthrough'' (Decrypt X (rrDerivedKey rr)
                    (read_at (rrFile rr) (rrDataOffset rr) (rrFileSize rr - rrDataOffset rr))) of
               Inl e \<Rightarrow> (Inl e, rr)
             | Inr plain \<Rightarrow> (Inr plain, rr\<lparr>rrPassthroughPlain := Some plain\<rparr>)))"

text \<open>
  \<open>ReadAt\<close> into a destination of \<open>n\<close> bytes at the offset \<open>off\<close>, which is not negative: the bytes
  copied and the error, \<open>io.EOF\<close> among them.
\<close>

definition ReadAt :: "ext \<Rightarrow> nat \<Rightarrow> nat \<Rightarrow> RandomReader \<Rightarrow> ((bytes \<times> string option) \<times> RandomReader) res" where
  "ReadAt X n off rr =
     (let len = sint (OriginalSize (rrHeader rr)) in
      if len \<le> int off then Inr (([], Some ''EOF''), rr)
      else
        (let n = (if len < int off + int n then nat (len - int off) else n) in
         if ChunkCount (rrHeader rr) = 0 \<or> IsPassthrough (rrHeader rr) then
           (if IsEncrypted (rrHeader rr) then
              (case decryptPassthrough X rr of
                 (Inl GoPanic, rr) \<Rightarrow> Inl GoPanic
               | (Inl (GoErr e), rr) \<Rightarrow> Inr (([], Some e), rr)
               | (Inr plain, rr) \<Rightarrow>
                   rbind (gslice plain off (length plain)) (\<lambda>src. Inr ((take n src, None), rr)))
            else
              (let d = take n (drop (rrDataOffset rr + off) (rrFile rr))
               in Inr ((d, if length d < n then Some ''EOF'' else None), rr)))
         else
           rbind (read_loop X off n [] rr) (\<lambda>((d, err), rr).
             if err = None \<and> d = [] then Inr (([], Some ''EOF''), rr) else Inr ((d, err), rr))))"

text \<open>The part of \<open>Mount\<close> that opens the file: metadata, brain, reader.\<close>

definition open_mount :: "ext \<Rightarrow> fs \<Rightarrow> string \<Rightarrow> string \<Rightarrow> bytes \<Rightarrow> int \<Rightarrow> RandomReader res" where
  "open_mount X fs cromFile codebookFile encryptionKey maxMB =
     (case fs cromFile of
        None \<Rightarrow> Inl (GoErr ''mount: failed to open .crom'')
      | Some crom \<Rightarrow>
          rbind (wrap_err ''mount: failed to parse format metadata'' (ReadMetadata X encryptionKey crom))
            (\<lambda>(header, blockTable, entries, _).
          rbind (if UsesBrainDict header \<or> needs_brain entries
                 then rbind (wrap_err ''mount'' (OpenForFile X fs (MicroDictSize header) (MicroDictionaryData header)
                                                (IsEncrypted header) (Salt header) codebookFile encryptionKey))
                        (\<lambda>cb. Inr (Some cb))
                 else Inr None) (\<lambda>cb.
            wrap_err ''mount: failed to init random reader''
              (NewRandomReader X crom header blockTable entries cb encryptionKey maxMB))))"

text \<open>The read handler of the mounted file, and a sequence of reads.\<close>

definition CromFile_Read :: "ext \<Rightarrow> nat \<Rightarrow> nat \<Rightarrow> RandomReader \<Rightarrow> ((string + bytes) \<times> RandomReader) res" where
  "CromFile_Read X n off rr =
     rbind (ReadAt X n off rr) (\<lambda>((d, err), rr).
       Inr (case err of Some e \<Rightarrow> if e \<noteq> ''EOF'' then Inl ''EIO'' else Inr d | None \<Rightarrow> Inr d, rr))"

fun mount_reads :: "ext \<Rightarrow> (nat \<times> nat) list \<Rightarrow> RandomReader \<Rightarrow> ((string + bytes) list \<times> RandomReader) res" where
  "mount_reads X [] rr = Inr ([], rr)"
| "mount_reads X ((n, off) # reads) rr =
     rbind (CromFile_Read X n off rr) (\<lambda>(d, rr). rbind (mount_reads X reads rr) (\<lambda>(ds, rr). Inr (d # ds, rr)))"

section \<open>Finding the chunk and its block\<close>

lemma chunk_ends_items:
  "\<forall>it \<in> set its. decodes r it \<Longrightarrow> i < length its \<Longrightarrow>
   chunk_ends (of_nat p) (map fst its) ! i = of_nat (p + length (content_of (take (Suc i) its)))"
proof (induction its arbitrary: p i)
  case (Cons it its)
  obtain e rs c where it: "it = (e, rs, c)" by (cases it) auto
  have "unat (EOriginalSize e) = length c" using Cons.prems(1) by (simp add: it decodes_def)
  then have sz: "(ucast (EOriginalSize e) :: u64) = of_nat (length c)" by (simp flip: \<open>unat (EOriginalSize e) = length c\<close>)
  show ?case
  proof (cases i)
    case 0
    then show ?thesis by (simp add: it sz)
  next
    case (Suc k)
    with Cons.IH [of k "p + length c"] Cons.prems show ?thesis by (simp add: it sz add.assoc)
  qed
qed simp

lemma length_chunk_ends [simp]: "length (chunk_ends p es) = length es"
  by (induction p es rule: chunk_ends.induct) simp_all

lemma content_take_mono: "a \<le> b \<Longrightarrow> length (content_of (take a its)) \<le> length (content_of (take b its))"
proof -
  assume "a \<le> b"
  then have "take b its = take a its @ take (b - a) (drop a its)" by (metis le_add_diff_inverse take_add)
  then show ?thesis by simp
qed

lemma locate_chunk:
  "cur < length (content_of its) \<Longrightarrow>
   \<exists>i < length its. length (content_of (take i its)) \<le> cur \<and> cur < length (content_of (take (Suc i) its))"
proof (induction its arbitrary: cur)
  case (Cons it its)
  obtain e rs c where it: "it = (e, rs, c)" by (cases it) auto
  show ?case
  proof (cases "cur < length c")
    case True
    then show ?thesis by (intro exI [of _ 0]) (simp add: it)
  next
    case False
    then have "cur - length c < length (content_of its)" using Cons.prems by (simp add: it)
    from Cons.IH [OF this] obtain i where "i < length its" "length (content_of (take i its)) \<le> cur - length c"
      "cur - length c < length (content_of (take (Suc i) its))"
      by blast
    with False show ?thesis by (intro exI [of _ "Suc i"]) (auto simp: it)
  qed
qed simp

lemma find_chunk:
  assumes d: "\<forall>it \<in> set its. decodes r it" and n: "length (content_of its) < 2 ^ 63" and cur: "cur < length (content_of its)"
  shows "\<exists>i < length its. sort_Search (length its) (\<lambda>i. of_nat cur < chunk_ends 0 (map fst its) ! i) = i \<and>
    length (content_of (take i its)) \<le> cur \<and> cur < length (content_of (take (Suc i) its))"
proof -
  obtain i where i: "i < length its" "length (content_of (take i its)) \<le> cur" "cur < length (content_of (take (Suc i) its))"
    using locate_chunk [OF cur] by blast
  have iff: "of_nat cur < chunk_ends 0 (map fst its) ! k \<longleftrightarrow> cur < length (content_of (take (Suc k) its))" if "k < length its" for k
  proof -
    have "length (content_of (take (Suc k) its)) \<le> length (content_of its)"
      using content_take_mono [of "Suc k" "length its" its] that by simp
    then have u: "unat (of_nat cur :: u64) = cur"
      "unat (of_nat (length (content_of (take (Suc k) its))) :: u64) = length (content_of (take (Suc k) its))"
      using n cur by (auto intro!: unat_of_nat_lt)
    show ?thesis using chunk_ends_items [OF d that, of 0] u by (simp add: word_less_nat_alt)
  qed
  have "sort_Search (length its) (\<lambda>i. of_nat cur < chunk_ends 0 (map fst its) ! i) = i"
  proof (rule sort_Search_eq)
    show "\<forall>a < i. \<not> of_nat cur < chunk_ends 0 (map fst its) ! a"
      using i iff content_take_mono [of "Suc _" i its] by (auto simp: Suc_le_eq not_less intro: order.trans)
    show "\<forall>a b. a \<le> b \<longrightarrow> b < length its \<longrightarrow> of_nat cur < chunk_ends 0 (map fst its) ! a \<longrightarrow>
        of_nat cur < chunk_ends 0 (map fst its) ! b"
      using iff content_take_mono [of "Suc _" "Suc _" its] by (auto intro: order.strict_trans2)
  qed (use i iff in auto)
  with i show ?thesis by blast
qed

lemma length_items_take: "length (concat (take b (entry_blocks bs))) = length (items_of (take b bs))"
  by (simp add: entry_blocks_def items_of_def length_concat comp_def flip: take_map)

lemma locate_block:
  "i < length (items_of bs) \<Longrightarrow>
   \<exists>b < length bs. \<exists>j < length (fst (bs ! b)). i = length (items_of (take b bs)) + j \<and> items_of bs ! i = fst (bs ! b) ! j"
proof (induction bs arbitrary: i)
  case (Cons b bs)
  show ?case
  proof (cases "i < length (fst b)")
    case True
    then show ?thesis by (intro exI [of _ 0]) (auto simp: nth_append)
  next
    case False
    then have "i - length (fst b) < length (items_of bs)" using Cons.prems by simp
    from Cons.IH [OF this] obtain k j where "k < length bs" "j < length (fst (bs ! k))" "i - length (fst b) = length (items_of (take k bs)) + j"
      "items_of bs ! (i - length (fst b)) = fst (bs ! k) ! j"
      by blast
    with False show ?thesis by (intro exI [of _ "Suc k"]) (auto simp: nth_append)
  qed
qed simp

lemma items_take_mono: "a \<le> b \<Longrightarrow> length (items_of (take a bs)) \<le> length (items_of (take b bs))"
proof -
  assume "a \<le> b"
  then have "take b bs = take a bs @ take (b - a) (drop a bs)" by (metis le_add_diff_inverse take_add)
  then show ?thesis by (simp add: items_of_def)
qed

lemma find_block:
  assumes "b < length bs" "j < length (fst (bs ! b))" "i = length (items_of (take b bs)) + j"
  shows "sort_SearchInts (starts_of 0 (entry_blocks bs)) (i + 1) = b + 1"
  unfolding sort_SearchInts_def
proof (rule sort_Search_eq)
  have st: "starts_of 0 (entry_blocks bs) ! k = length (items_of (take k bs))" if "k < length bs" for k
    using that by (simp add: starts_of_nth length_items_take)
  have next_b: "length (items_of (take (Suc b) bs)) = length (items_of (take b bs)) + length (fst (bs ! b))"
    using assms(1) by (simp add: take_Suc_conv_app_nth items_of_def)
  show "b + 1 < length (starts_of 0 (entry_blocks bs)) \<longrightarrow> i + 1 \<le> starts_of 0 (entry_blocks bs) ! (b + 1)"
    using assms next_b by (simp add: st)
  show "\<forall>a < b + 1. \<not> i + 1 \<le> starts_of 0 (entry_blocks bs) ! a"
    using assms items_take_mono [of _ b bs] by (auto simp: st less_Suc_eq_le not_le intro: trans_le_add1)
  show "\<forall>a c. a \<le> c \<longrightarrow> c < length (starts_of 0 (entry_blocks bs)) \<longrightarrow> i + 1 \<le> starts_of 0 (entry_blocks bs) ! a \<longrightarrow>
      i + 1 \<le> starts_of 0 (entry_blocks bs) ! c"
    using items_take_mono [of _ _ bs] by (auto simp: st intro: order.trans)
qed (use assms(1) in simp)

section \<open>Serving a packed file\<close>

text \<open>What the cache may hold: the pools of blocks and the contents of chunks.\<close>

fun cached_right :: "packed \<Rightarrow> cache_key \<Rightarrow> bytes \<Rightarrow> bool" where
  "cached_right bs (PoolKey b) d = (d = pool_of (fst (bs ! unat b)))"
| "cached_right bs (ChunkKey i) d = (d = snd (snd (items_of bs ! i)))"

definition serves :: "ext \<Rightarrow> Header \<Rightarrow> bytes \<Rightarrow> Reader \<Rightarrow> packed \<Rightarrow> RandomReader \<Rightarrow> bool" where
  "serves X h ek r bs rr \<longleftrightarrow>
     IsEncrypted (rrHeader rr) = IsEncrypted h \<and> UsesBrainDict (rrHeader rr) = UsesBrainDict h \<and>
     ChunkCount (rrHeader rr) \<noteq> 0 \<and> \<not> IsPassthrough (rrHeader rr) \<and>
     OriginalSize (rrHeader rr) = of_nat (length (content_of (items_of bs))) \<and>
     rrDerivedKey rr = (if IsEncrypted h then DeriveKey X ek (Salt h) else []) \<and>
     rrEntries rr = map fst (items_of bs) \<and> rrBlockTable rr = sizes_of bs \<and>
     length (rrBlockOffsets rr) = length bs \<and>
     (\<forall>b < length bs. rrBlockOffsets rr ! b + length (snd (bs ! b)) \<le> length (rrFile rr) \<and>
        read_at (rrFile rr) (rrBlockOffsets rr ! b) (length (snd (bs ! b))) = snd (bs ! b)) \<and>
     rrBlockStarts rr = starts_of 0 (entry_blocks bs) \<and> rrChunkEnds rr = chunk_ends 0 (map fst (items_of bs)) \<and>
     (UsesBrainDict h \<or> needs_brain (map fst (items_of bs)) \<longrightarrow> rrCb rr = Some r) \<and>
     memory_cache.holds (cached_right bs) (rrMemCache rr)"

lemma serves_cache:
  "serves X h ek r bs rr \<Longrightarrow> memory_cache.holds (cached_right bs) c \<Longrightarrow> serves X h ek r bs (rr\<lparr>rrMemCache := c\<rparr>)"
  by (simp add: serves_def)

lemma packed_sizes:
  assumes "packed_blocks X h ek r bs input"
  shows "length bs < 2 ^ 32" "length (content_of (items_of bs)) < 2 ^ 63" "\<forall>it \<in> set (items_of bs). decodes r it"
proof -
  have p: "full_blocks bs" "content_of (items_of bs) = input" "length input \<le> 2 ^ 50" "laid_out r 0 (items_of bs)"
    using assms by (simp_all add: packed_blocks_def)
  show "\<forall>it \<in> set (items_of bs). decodes r it" using p(4) by (simp add: laid_out_decodes)
  show "length (content_of (items_of bs)) < 2 ^ 63" using p(2,3) by simp
  have "length bs = (length input + BlockSize - 1) div BlockSize" using full_blocks_count [OF p(1)] p(2) by simp
  also have "\<dots> \<le> (2 ^ 50 + BlockSize - 1) div BlockSize" using p(3) by (intro div_le_mono) simp
  also have "\<dots> < 2 ^ 32" by (simp add: BlockSize_def)
  finally show "length bs < 2 ^ 32" .
qed

lemma loadBlockPool_serves:
  assumes s: "serves X h ek r bs rr" and p: "packed_blocks X h ek r bs input" and b: "b < length bs"
  shows "\<exists>rr'. loadBlockPool X (of_nat b) rr = (Inr (pool_of (fst (bs ! b))), rr') \<and> serves X h ek r bs rr'"
proof -
  have ub: "unat (of_nat b :: u32) = b" using b packed_sizes(1) [OF p] by (intro unat_of_nat_lt) simp
  have nb: "unat (of_nat (length bs) :: u32) = length bs" using packed_sizes(1) [OF p] by (intro unat_of_nat_lt) simp
  have hold: "memory_cache.holds (cached_right bs) (rrMemCache rr)" using s by (simp add: serves_def)
  show ?thesis
  proof (cases "Cache_Get (PoolKey (of_nat b)) (rrMemCache rr)")
    case (Pair hit c)
    show ?thesis
    proof (cases hit)
      case (Some pool)
      have "memory_cache.holds (cached_right bs) c" using memory_cache.get_holds [OF hold, of "PoolKey (of_nat b)"] Pair by simp
      moreover have "pool = pool_of (fst (bs ! b))" using memory_cache.get_hit [OF hold] Pair Some ub by fastforce
      ultimately show ?thesis using Pair Some serves_cache [OF s] by (simp add: loadBlockPool_def)
    next
      case None
      let ?f = "snd (bs ! b)" and ?pool = "pool_of (fst (bs ! b))"
      have "(fst (bs ! b), ?f) \<in> set bs" using b by simp
      then have fr: "open_block_data X h ek r ?f = Inr ?pool" "length ?f < 2 ^ 32"
        using p by (fastforce simp: packed_blocks_def frames_ok_def)+
      have sz: "unat (rrBlockTable rr ! b) = length ?f"
        using s b fr(2) by (simp add: serves_def sizes_of_def unat_of_nat_lt)
      have buf: "read_at (rrFile rr) (rrBlockOffsets rr ! b) (length ?f) = ?f" using s b by (simp add: serves_def)
      have run: "rbind (if IsEncrypted (rrHeader rr)
             then wrap_err ''decrypt block frame'' (Decrypt X (rrDerivedKey rr) ?f) else Inr ?f) (\<lambda>buf.
           rbind (if UsesBrainDict (rrHeader rr) then case rrCb rr of None \<Rightarrow> Inl GoPanic | Some cb \<Rightarrow> Dictionary cb
                  else Inr []) (\<lambda>dict.
             wrap_err ''decompress pool'' (DecompressPoolDict X buf dict))) = Inr ?pool"
        using fr(1) s unfolding open_block_data_def serves_def
        by (auto simp: rbind_Inr_iff wrap_err_Inr_iff split: if_splits)
      have "memory_cache.holds (cached_right bs) (Cache_Put (PoolKey (of_nat b)) ?pool (rrMemCache rr))"
        using hold ub by (intro memory_cache.put_holds) simp_all
      moreover have "\<not> (of_nat (length (rrBlockOffsets rr)) :: u32) \<le> of_nat b"
        using s b ub nb by (simp add: serves_def word_le_nat_alt)
      ultimately show ?thesis
        using Pair None serves_cache [OF s] run by (simp add: loadBlockPool_def Let_def ub sz buf)
    qed
  qed
qed

text \<open>A chunk in the pool of its block.\<close>

lemma laid_out_nth:
  "laid_out r off its \<Longrightarrow> j < length its \<Longrightarrow> its ! j = (e, rs, c) \<Longrightarrow>
   DeltaOffset e = of_nat (off + length (pool_of (take j its))) \<and> decodes r (e, rs, c) \<and>
   pool_of its = pool_of (take j its) @ rs @ pool_of (drop (Suc j) its)"
proof (induction r off its arbitrary: j rule: laid_out.induct)
  case (2 r off e' rs' c' its)
  show ?case
  proof (cases j)
    case 0
    with 2 show ?thesis by simp
  next
    case (Suc k)
    with 2 show ?thesis by (simp add: add.assoc)
  qed
qed simp

lemma laid_out_block:
  assumes "laid_out r 0 (items_of bs)" "b < length bs"
  shows "laid_out r (length (pool_of (items_of (take b bs)))) (fst (bs ! b))"
proof -
  have "items_of bs = items_of (take b bs) @ fst (bs ! b) @ items_of (drop (Suc b) bs)"
    by (subst id_take_nth_drop [OF assms(2)]) (simp add: items_of_def)
  with assms(1) show ?thesis by (simp add: laid_out_append)
qed

lemma pool_length_block:
  assumes "b < length bs"
  shows "length (pool_of (fst (bs ! b))) \<le> length (pool_of (items_of bs))"
proof -
  have "items_of bs = items_of (take b bs) @ fst (bs ! b) @ items_of (drop (Suc b) bs)"
    by (subst id_take_nth_drop [OF assms]) (simp add: items_of_def)
  then show ?thesis by simp
qed

lemma first_of_block:
  assumes "b < length bs" "fst (bs ! b) \<noteq> []"
  shows "items_of bs ! length (items_of (take b bs)) = fst (bs ! b) ! 0"
proof -
  have e: "items_of bs = items_of (take b bs) @ fst (bs ! b) @ items_of (drop (Suc b) bs)"
    by (subst id_take_nth_drop [OF assms(1)]) (simp add: items_of_def)
  show ?thesis using assms(2) by (subst e) (simp add: nth_append)
qed

text \<open>The reader rebuilds a chunk as the unpackers do.\<close>

lemma pool_chunk_reconstruct:
  assumes "decodes r (e, rs, c)" "CodebookIndex e \<noteq> FractalCodebookIndex"
    and "CodebookID e \<noteq> LiteralCodebookID \<longrightarrow> rrCb rr = Some r"
    and "entryLocalOffset = DeltaOffset e - DeltaOffset (rrEntries rr ! (rrBlockStarts rr ! unat b))"
    and "\<not> of_nat (length pool) < entryLocalOffset + ucast (DeltaSize e)"
    and "gslice pool (unat entryLocalOffset) (unat (entryLocalOffset + ucast (DeltaSize e))) = Inr rs"
  shows "pool_chunk rr e b pool = Inr c"
proof -
  have "reconstructChunk e rs r = Inr c" using assms(1) by (simp add: decodes_def)
  with assms(2-6) show ?thesis
    by (auto simp: pool_chunk_def reconstructChunk_def Let_def rbind_Inr_iff split: if_splits)
qed

lemma pool_chunk_serves:
  assumes s: "serves X h ek r bs rr" and p: "packed_blocks X h ek r bs input"
    and b: "b < length bs" "j < length (fst (bs ! b))" "fst (bs ! b) ! j = (e, rs, c)"
    and f: "CodebookIndex e \<noteq> FractalCodebookIndex" "CodebookID e \<noteq> LiteralCodebookID \<longrightarrow> rrCb rr = Some r"
  shows "pool_chunk rr e (of_nat b) (pool_of (fst (bs ! b))) = Inr c"
proof -
  let ?its = "fst (bs ! b)" and ?g = "length (pool_of (items_of (take b bs)))"
  have lay: "laid_out r ?g ?its" using p b(1) by (intro laid_out_block) (simp_all add: packed_blocks_def)
  have pl: "length (pool_of ?its) < 2 ^ 63"
    using pool_length_block [OF b(1)] p by (simp add: packed_blocks_def)
  have ne: "?its \<noteq> []" using b(2) by auto
  obtain e0 rs0 c0 where hd: "?its ! 0 = (e0, rs0, c0)" by (metis prod_cases3)
  have ub: "unat (of_nat b :: u32) = b" using b(1) packed_sizes(1) [OF p] by (intro unat_of_nat_lt) simp
  have len: "length (items_of (take b bs)) < length (items_of bs)"
  proof -
    have "items_of bs = items_of (take b bs) @ ?its @ items_of (drop (Suc b) bs)"
      by (subst id_take_nth_drop [OF b(1)]) (simp add: items_of_def)
    then have "length (items_of bs) = length (items_of (take b bs)) + length ?its + length (items_of (drop (Suc b) bs))" by simp
    with ne show ?thesis by (simp add: less_add_eq_less)
  qed
  have first: "rrEntries rr ! (rrBlockStarts rr ! unat (of_nat b :: u32)) = e0"
    using s b(1) ne hd len first_of_block [OF b(1) ne]
    by (simp add: serves_def ub starts_of_nth length_items_take)
  note at = laid_out_nth [OF lay b(2,3)]
  have off0: "DeltaOffset e0 = of_nat ?g" using laid_out_nth [OF lay _ hd] ne by simp
  let ?P = "pool_of (take j ?its)"
  have local: "DeltaOffset e - DeltaOffset e0 = of_nat (length ?P)" using at off0 by simp
  have ds: "unat (DeltaSize e) = length rs" using at by (simp add: decodes_def)
  then have sz: "(ucast (DeltaSize e) :: u64) = of_nat (length rs)" by (simp flip: ds)
  have pool: "pool_of ?its = ?P @ rs @ pool_of (drop (Suc j) ?its)" using at by simp
  have len: "length ?P + length rs \<le> length (pool_of ?its)" by (subst pool) simp
  have u: "unat (of_nat (length ?P) :: u64) = length ?P" "unat (of_nat (length ?P) + of_nat (length rs) :: u64) = length ?P + length rs"
    "unat (of_nat (length (pool_of ?its)) :: u64) = length (pool_of ?its)"
    using len pl unat_of_nat_lt [of "length ?P + length rs", where 'a = 64] by (auto intro!: unat_of_nat_lt)
  have gs: "gslice (pool_of ?its) (length ?P) (length ?P + length rs) = Inr rs"
    by (subst pool) (simp add: gslice_def slice_layout)
  show ?thesis
  proof (rule pool_chunk_reconstruct [OF _ f refl])
    show "decodes r (e, rs, c)" using at by simp
    show "\<not> of_nat (length (pool_of ?its)) < DeltaOffset e - DeltaOffset (rrEntries rr ! (rrBlockStarts rr ! unat (of_nat b :: u32))) +
        ucast (DeltaSize e)"
      unfolding first local sz word_less_nat_alt u using len by simp
    show "gslice (pool_of ?its) (unat (DeltaOffset e - DeltaOffset (rrEntries rr ! (rrBlockStarts rr ! unat (of_nat b :: u32)))))
        (unat (DeltaOffset e - DeltaOffset (rrEntries rr ! (rrBlockStarts rr ! unat (of_nat b :: u32))) + ucast (DeltaSize e))) = Inr rs"
      unfolding first local sz u by (rule gs)
  qed
qed

lemma needs_brain_nth:
  "e \<in> set es \<Longrightarrow> CodebookID e \<noteq> LiteralCodebookID \<Longrightarrow> CodebookIndex e \<noteq> FractalCodebookIndex \<Longrightarrow> needs_brain es"
  by (auto simp: needs_brain_def list_ex_iff)

lemma load_chunk_serves:
  assumes s: "serves X h ek r bs rr" and p: "packed_blocks X h ek r bs input" and i: "i < length (items_of bs)"
  shows "\<exists>rr'. load_chunk X i rr = (Inr (snd (snd (items_of bs ! i))), rr') \<and> serves X h ek r bs rr'"
proof -
  have hold: "memory_cache.holds (cached_right bs) (rrMemCache rr)" using s by (simp add: serves_def)
  obtain b j where b: "b < length bs" "j < length (fst (bs ! b))" "i = length (items_of (take b bs)) + j"
    "items_of bs ! i = fst (bs ! b) ! j" using locate_block [OF i] by blast
  obtain e rs c where it: "items_of bs ! i = (e, rs, c)" by (metis prod_cases3)
  have e: "rrEntries rr ! i = e" using s i it by (simp add: serves_def)
  have blk: "(of_int (int (sort_SearchInts (rrBlockStarts rr) (i + 1)) - 1) :: u32) = of_nat b"
    using s find_block [OF b(1-3)] by (simp add: serves_def)
  have dec: "decodes r (e, rs, c)" using packed_sizes(3) [OF p] i it by (metis nth_mem)
  show ?thesis
  proof (cases "Cache_Get (ChunkKey i) (rrMemCache rr)")
    case (Pair hit cache)
    show ?thesis
    proof (cases hit)
      case (Some d)
      have "memory_cache.holds (cached_right bs) cache" using memory_cache.get_holds [OF hold, of "ChunkKey i"] Pair by simp
      moreover have "d = c" using memory_cache.get_hit [OF hold] Pair Some it by fastforce
      ultimately show ?thesis using Pair Some serves_cache [OF s] it by (simp add: load_chunk_def Let_def)
    next
      case None
      show ?thesis
      proof (cases "CodebookIndex e = FractalCodebookIndex")
        case True
        have "CodebookID e \<noteq> LiteralCodebookID" using dec True by (auto simp: decodes_def)
        then have "reconstructChunk e rs r = Inr (GeneratePolynomial (CodebookID e) (unat (EOriginalSize e)))"
          using True by (simp add: reconstructChunk_def Let_def)
        then have "GeneratePolynomial (CodebookID e) (unat (EOriginalSize e)) = c"
          using dec unfolding decodes_def prod.case by (metis sum.inject(2))
        with Pair None True e it s show ?thesis by (simp add: load_chunk_def Let_def)
      next
        case False
        obtain rr' where rr': "loadBlockPool X (of_nat b) rr = (Inr (pool_of (fst (bs ! b))), rr')" "serves X h ek r bs rr'"
          using loadBlockPool_serves [OF s p b(1)] by blast
        have "e \<in> set (map fst (items_of bs))" using i it by (metis fst_conv length_map nth_map nth_mem)
        then have "CodebookID e \<noteq> LiteralCodebookID \<longrightarrow> rrCb rr' = Some r"
          using needs_brain_nth [of e "map fst (items_of bs)"] False rr'(2) by (auto simp: serves_def)
        then have "pool_chunk rr' e (of_nat b) (pool_of (fst (bs ! b))) = Inr c"
          using b it by (intro pool_chunk_serves [OF rr'(2) p b(1,2) _ False]) simp_all
        with Pair None False e blk rr' it show ?thesis by (simp add: load_chunk_def Let_def)
      qed
    qed
  qed
qed

lemma fetch_chunk_serves:
  assumes s: "serves X h ek r bs rr" and p: "packed_blocks X h ek r bs input" and i: "i < length (items_of bs)"
  shows "\<exists>rr'. fetch_chunk X i rr = (Inr (snd (snd (items_of bs ! i))), rr') \<and> serves X h ek r bs rr'"
proof -
  obtain e rs c where it: "items_of bs ! i = (e, rs, c)" by (metis prod_cases3)
  obtain rr' where rr': "load_chunk X i rr = (Inr c, rr')" "serves X h ek r bs rr'"
    using load_chunk_serves [OF s p i] it by auto
  have e: "rrEntries rr ! i = e" using s i it by (simp add: serves_def)
  have "decodes r (e, rs, c)" using packed_sizes(3) [OF p] i it by (metis nth_mem)
  then have n: "unat (EOriginalSize e) = length c" by (simp add: decodes_def)
  have "length c < 2 ^ 32" using unsigned_less [of "EOriginalSize e", where 'a = nat] n by simp
  then have "unat (of_nat (length c) :: u32) = length c" by (intro unat_of_nat_lt) simp
  then have clip: "clip (EOriginalSize e) c = c" by (simp add: clip_def word_less_nat_alt n)
  have "memory_cache.holds (cached_right bs) (Cache_Put (ChunkKey i) c (rrMemCache rr'))"
    using rr'(2) it by (intro memory_cache.put_holds) (simp_all add: serves_def)
  with serves_cache [OF rr'(2)] rr' e clip it show ?thesis by (auto simp: fetch_chunk_def Let_def)
qed

lemma sint_of_nat_small: "n < 2 ^ 63 \<Longrightarrow> sint (of_nat n :: u64) = int n"
  by (simp add: signed_of_nat signed_take_bit_int_eq_self)

text \<open>The loop returns the bytes of the input from the offset on.\<close>

lemma read_loop_serves:
  assumes p: "packed_blocks X h ek r bs input" and n: "off + n \<le> length input"
  shows "serves X h ek r bs rr \<Longrightarrow> length acc \<le> n \<Longrightarrow> acc = take (length acc) (drop off input) \<Longrightarrow>
    \<exists>rr'. read_loop X off n acc rr = Inr ((take n (drop off input), None), rr') \<and> serves X h ek r bs rr'"
proof (induction "n - length acc" arbitrary: acc rr rule: less_induct)
  case less
  show ?case
  proof (cases "length acc < n")
    case False
    with less.prems show ?thesis by (subst read_loop.simps) (auto intro!: exI [of _ rr])
  next
    case True
    let ?its = "items_of bs" and ?cur = "off + length acc"
    note sizes = packed_sizes [OF p]
    have content: "content_of ?its = input" using p by (simp add: packed_blocks_def)
    have cur: "?cur < length (content_of ?its)" using True n content by simp
    obtain i where i: "i < length ?its" "sort_Search (length ?its) (\<lambda>i. of_nat ?cur < chunk_ends 0 (map fst ?its) ! i) = i"
      "length (content_of (take i ?its)) \<le> ?cur" "?cur < length (content_of (take (Suc i) ?its))"
      using find_chunk [OF sizes(3,2) cur] by blast
    obtain e rs c where it: "?its ! i = (e, rs, c)" by (metis prod_cases3)
    have tk: "take (Suc i) ?its = take i ?its @ [(e, rs, c)]" using i(1) it by (simp add: take_Suc_conv_app_nth)
    let ?p = "length (content_of (take i ?its))"
    have split: "input = content_of (take i ?its) @ c @ content_of (drop (Suc i) ?its)"
      using content tk by (metis append.assoc append_take_drop_id content_of_simps(1,2,3) append_Nil2)
    have dec: "decodes r (e, rs, c)" using sizes(3) i(1) it by (metis nth_mem)
    then have ne: "unat (EOriginalSize e) = length c" by (simp add: decodes_def)
    have len: "?p + length c \<le> length input" by (subst split) simp
    have ends: "sint (chunk_ends 0 (map fst ?its) ! i) = int (?p + length c)"
    proof -
      have "chunk_ends 0 (map fst ?its) ! i = of_nat (?p + length c)"
        using chunk_ends_items [OF sizes(3) i(1), of 0] tk by simp
      moreover have "?p + length c < 2 ^ 63" using len content sizes(2) by simp
      ultimately show ?thesis by (simp add: sint_of_nat_small del: of_nat_add)
    qed
    obtain rr' where rr': "fetch_chunk X i rr = (Inr c, rr')" "serves X h ek r bs rr'"
      using fetch_chunk_serves [OF less.prems(1) p i(1)] it by auto
    let ?o = "?cur - ?p" and ?k = "min (length c - (?cur - ?p)) (n - length acc)"
    have o: "?o < length c" using i(3,4) tk by simp
    have off: "int ?cur - sint (chunk_ends 0 (map fst ?its) ! i) + uint (EOriginalSize e) = int ?o"
      using ends ne i(3) by (simp add: uint_nat)
    have k: "copy_count e (int ?o) (n - length acc) c = int ?k" "0 < ?k"
      using ne o True by (auto simp: copy_count_def Let_def uint_nat)
    let ?d = "take ?k (drop ?o c)"
    have d: "gslice c (nat (int ?o)) (nat (int ?o + int ?k)) = Inr ?d" "length ?d = ?k"
      using o by (auto simp: gslice_def slice_def nat_add_distrib)
    have drop_in: "drop ?cur input = drop ?o c @ content_of (drop (Suc i) ?its)"
      using i(3) o by (subst split) simp
    have "take (length acc + ?k) (drop off input) = take (length acc) (drop off input) @ take ?k (drop (length acc) (drop off input))"
      by (rule take_add)
    also have "take (length acc) (drop off input) = acc" by (rule less.prems(3) [symmetric])
    also have "drop (length acc) (drop off input) = drop ?cur input" by (simp add: add.commute)
    also have "take ?k (drop ?cur input) = ?d" unfolding drop_in by simp
    finally have acc: "acc @ ?d = take (length (acc @ ?d)) (drop off input)" using d(2) by simp
    have "\<exists>rr''. read_loop X off n (acc @ ?d) rr' = Inr ((take n (drop off input), None), rr'') \<and> serves X h ek r bs rr''"
    proof (rule less.hyps [OF _ rr'(2) _ acc])
      show "n - length (acc @ ?d) < n - length acc" using d(2) k(2) True by simp
      show "length (acc @ ?d) \<le> n" using d(2) True by simp
    qed
    moreover have "read_loop X off n acc rr = read_loop X off n (acc @ ?d) rr'"
    proof -
      have en: "rrEntries rr = map fst ?its" "rrChunkEnds rr = chunk_ends 0 (map fst ?its)"
        using less.prems(1) by (simp_all add: serves_def)
      have ei: "map fst ?its ! i = e" using i(1) it by simp
      have c: "(length ?its \<le> i) = False" "(int ?k \<le> 0) = False" "(int ?o < 0) = False" "(length acc < n) = True"
        using i(1) k(2) True by simp_all
      show ?thesis
        unfolding read_loop.simps [of X off n acc rr]
        by (simp only: c Let_def en length_map i(2) ei off rr'(1) k(1) d(1) sum.case prod.case if_True if_False rbind.simps)
    qed
    ultimately show ?thesis by simp
  qed
qed

section \<open>Opening a packed file\<close>

lemma stored_header_size:
  assumes "wf_header h" "Version3 \<le> Version h" "Version h \<le> Version8"
  shows "length (fst (Serialize h)) = vfs_header_size (stored_header h)"
proof -
  have v2: "Version2 \<le> Version h" using assms(2) by (auto simp: version_defs word_le_nat_alt)
  obtain base where b: "header_layout h = (MagicString @ le_bytes 2 (Version h)) @ base @
       (if Version8 \<le> Version h then MicroDictionaryData h else [])"
    "length base = header_min_size (Version h) - 6"
    by (rule header_layout_split [OF assms(1) v2 assms(3)])
  have m: "length (MicroDictionaryData h) = unat (MicroDictSize h)" using assms(1) by (simp add: wf_header_def)
  show ?thesis
    using version_cases [OF v2 assms(3)] assms(2)
    by (elim disjE) (simp_all add: Serialize_layout [OF assms(1) v2 assms(3)] b m vfs_header_size_def
      stored_fields [OF assms(2,3)] header_min_size_def header_size_defs version_defs)
qed

lemma block_offsets_nth:
  "\<forall>b \<in> set bs. length (snd b) < 2 ^ 32 \<Longrightarrow> b < length bs \<Longrightarrow>
   block_offsets base (sizes_of bs) ! b = base + length (frames_of (take b bs))"
proof (induction bs arbitrary: base b)
  case (Cons x bs)
  then show ?case
    by (cases b) (simp_all add: sizes_of_def frames_of_def unat_of_nat_lt)
qed simp

lemma length_block_offsets [simp]: "length (block_offsets c sizes) = length sizes"
  by (induction c sizes rule: block_offsets.induct) simp_all

lemma read_at_slice: "read_at (pre @ d @ post) (length pre) (length d) = d"
  by (simp add: read_at_def zeros_def)

lemma read_at_append: "pos + n \<le> length f \<Longrightarrow> read_at (f @ tail) pos n = read_at f pos n"
  by (simp add: read_at_def)

lemma read_at_frame:
  assumes "b < length bs"
  shows "length pre + length (frames_of (take b bs)) + length (snd (bs ! b)) \<le> length (pre @ frames_of bs)"
    "read_at (pre @ frames_of bs) (length pre + length (frames_of (take b bs))) (length (snd (bs ! b))) = snd (bs ! b)"
proof -
  have "frames_of bs = frames_of (take b bs) @ snd (bs ! b) @ frames_of (drop (Suc b) bs)"
    by (subst id_take_nth_drop [OF assms]) (simp add: frames_of_def)
  then show "length pre + length (frames_of (take b bs)) + length (snd (bs ! b)) \<le> length (pre @ frames_of bs)"
    "read_at (pre @ frames_of bs) (length pre + length (frames_of (take b bs))) (length (snd (bs ! b))) = snd (bs ! b)"
    using read_at_slice [of "pre @ frames_of (take b bs)" "snd (bs ! b)" "frames_of (drop (Suc b) bs)"] by simp_all
qed

lemma crom_file_length:
  "length (crom_file h bt t) = length (fst (Serialize h)) + length bt * 4 + length t"
proof -
  have "length (concat (map (le_bytes 4) bt)) = length bt * 4" by (induction bt) simp_all
  then show ?thesis by (simp add: crom_file_def)
qed

text \<open>The brain that \<open>Mount\<close> opens, when it opens one.\<close>

definition mount_brain :: "ext \<Rightarrow> fs \<Rightarrow> Header \<Rightarrow> string \<Rightarrow> bytes \<Rightarrow> Reader \<Rightarrow> bool" where
  "mount_brain X fs h codebookPath ek r \<longleftrightarrow>
     OpenForFile X fs (MicroDictSize h) (MicroDictionaryData h) (IsEncrypted h) (Salt h) codebookPath ek = Inr r"

definition with_brain :: "Header \<Rightarrow> ChunkEntry list \<Rightarrow> bool" where
  "with_brain h es \<longleftrightarrow> UsesBrainDict h \<or> needs_brain es"

lemma open_mount_packed:
  assumes X: "zstd_ok X" "zstd_bound X" "gcm_ok X" "hash_sizes_ok X" and p: "packed_file X h ek r bs crom input"
    and f: "fs path = Some crom"
    and brain: "with_brain h (map fst (items_of bs)) \<longrightarrow> mount_brain X fs (stored_header h) cbp ek r"
  shows "\<exists>rr. open_mount X fs path cbp ek maxMB = Inr rr \<and> serves X h ek r bs rr"
proof -
  obtain t where rd: "ReadStream X ek crom =
      Inr ((stored_header h)\<lparr>TableBytes := length t\<rparr>, sizes_of bs, map fst (items_of bs), frames_of bs)"
    "0 < length t" "crom = crom_file h (sizes_of bs) t @ frames_of bs"
    using ReadStream_packed [OF X p] by blast
  let ?h = "(stored_header h)\<lparr>TableBytes := length t\<rparr>" and ?es = "map fst (items_of bs)"
  have b: "packed_blocks X h ek r bs input" and h: "packed_header X h bs input" and k: "IsEncrypted h \<longrightarrow> ek \<noteq> []"
    using p by (simp_all add: packed_file_def)
  have v: "wf_header h" "Version3 \<le> Version h" "Version h \<le> Version8" using h by (simp_all add: packed_header_def)
  note s = stored_fields [OF v(2,3)]
  have c0: "ChunkCount h \<noteq> 0" by (rule packed_count [OF p])
  have v2: "\<not> Version h < Version2" using v(2) by (simp add: version_defs word_less_nat_alt word_le_nat_alt)
  let ?base = "vfs_header_size ?h + length (sizes_of bs) * 4 + vfs_table_size ?h"
  have base: "?base = length (crom_file h (sizes_of bs) t)"
    using c0 rd(2) by (simp add: crom_file_length stored_header_size [OF v] vfs_table_size_def s) (simp add: vfs_header_size_def)
  define rr where "rr = \<lparr>rrFile = crom, rrFileSize = length crom, rrHeader = ?h, rrBlockTable = sizes_of bs,
      rrBlockOffsets = block_offsets ?base (sizes_of bs), rrEntries = ?es, rrBlockStarts = BlockStarts ?es,
      rrChunkEnds = chunk_ends 0 ?es, rrCb = (if with_brain h ?es then Some r else None),
      rrMemCache = NewMemoryCache maxMB, rrDerivedKey = (if IsEncrypted h then DeriveKey X ek (Salt h) else []),
      rrPassthroughPlain = None, rrDataOffset = ?base\<rparr>"
  have md: "ReadMetadata X ek crom = Inr (?h, sizes_of bs, ?es, frames_of bs)"
    using rd(1) by (simp add: ReadStream_def)
  have "NewRandomReader X crom ?h (sizes_of bs) ?es (if with_brain h ?es then Some r else None) ek maxMB = Inr rr"
    using k by (simp add: NewRandomReader_def s v2 rr_def Let_def)
  moreover have "with_brain ?h ?es = with_brain h ?es" by (simp add: with_brain_def s)
  ultimately have "open_mount X fs path cbp ek maxMB = Inr rr"
    using brain by (cases "with_brain h ?es") (simp_all add: open_mount_def f md mount_brain_def flip: with_brain_def)
  moreover have "serves X h ek r bs rr"
  proof -
    have fr: "\<forall>b \<in> set bs. length (snd b) < 2 ^ 32" using b by (auto simp: packed_blocks_def frames_ok_def)
    have "block_offsets ?base (sizes_of bs) ! i + length (snd (bs ! i)) \<le> length crom \<and>
        read_at crom (block_offsets ?base (sizes_of bs) ! i) (length (snd (bs ! i))) = snd (bs ! i)" if "i < length bs" for i
      unfolding base block_offsets_nth [OF fr that] rd(3) using read_at_frame [OF that] by simp
    moreover have "BlockStarts ?es = starts_of 0 (entry_blocks bs)"
      using BlockStarts_packed [OF packed_sizes(3) [OF b]] b by (simp add: packed_blocks_def concat_entry_blocks)
    moreover have "memory_cache.holds (cached_right bs) (NewMemoryCache maxMB)" by (simp add: memory_cache.holds_def)
    ultimately show ?thesis
      using b h c0 by (simp add: serves_def rr_def s packed_header_def packed_blocks_def with_brain_def sizes_of_def)
  qed
  ultimately show ?thesis by blast
qed

section \<open>Opening a copied file\<close>

definition serves_copy :: "ext \<Rightarrow> bytes \<Rightarrow> RandomReader \<Rightarrow> bool" where
  "serves_copy X input rr \<longleftrightarrow>
     ChunkCount (rrHeader rr) = 0 \<and> OriginalSize (rrHeader rr) = of_nat (length input) \<and>
     rrDataOffset rr \<le> rrFileSize rr \<and> rrFileSize rr \<le> length (rrFile rr) \<and>
     (if IsEncrypted (rrHeader rr)
      then Decrypt X (rrDerivedKey rr) (read_at (rrFile rr) (rrDataOffset rr) (rrFileSize rr - rrDataOffset rr)) = Inr input \<and>
        (case rrPassthroughPlain rr of None \<Rightarrow> True | Some plain \<Rightarrow> plain = input)
      else take (length input) (drop (rrDataOffset rr) (rrFile rr)) = input)"

lemma open_mount_copied:
  assumes c: "copied X h ek crom input" and f: "fs path = Some crom"
    and brain: "UsesBrainDict h \<longrightarrow> mount_brain X fs (stored_header h) cbp ek r"
  shows "\<exists>rr. open_mount X fs path cbp ek maxMB = Inr rr \<and> serves_copy X input rr"
proof -
  obtain body where h: "wf_header h" "Version3 \<le> Version h" "Version h \<le> Version8" "ChunkCount h = 0"
      "IsEncrypted h \<longrightarrow> ek \<noteq> []" "OriginalSize h = of_nat (length input)"
    and b: "crom = fst (Serialize h) @ body"
      "if IsEncrypted h then Decrypt X (DeriveKey X ek (Salt h)) body = Inr input else body = input"
    using c by (auto simp: copied_def)
  let ?h = "stored_header h"
  note s = stored_fields [OF h(2,3)]
  have md: "ReadMetadata X ek crom = Inr (?h, [], [], body)"
    using ReadStream_copied [OF h(1-5), of X body] by (simp add: ReadStream_def b(1))
  have v2: "\<not> Version h < Version2" using h(2) by (simp add: version_defs word_less_nat_alt word_le_nat_alt)
  define rr where "rr = \<lparr>rrFile = crom, rrFileSize = length crom, rrHeader = ?h, rrBlockTable = [], rrBlockOffsets = [], rrEntries = [],
      rrBlockStarts = BlockStarts [], rrChunkEnds = [], rrCb = (if UsesBrainDict h then Some r else None),
      rrMemCache = NewMemoryCache maxMB, rrDerivedKey = (if IsEncrypted h then DeriveKey X ek (Salt h) else []),
      rrPassthroughPlain = None, rrDataOffset = length (fst (Serialize h))\<rparr>"
  have base: "vfs_header_size ?h + length ([] :: u32 list) * 4 + vfs_table_size ?h = length (fst (Serialize h))"
    by (simp add: stored_header_size [OF h(1-3)] vfs_table_size_def s h(4))
  have "NewRandomReader X crom ?h [] [] (if UsesBrainDict h then Some r else None) ek maxMB = Inr rr"
    using h(5) base by (simp add: NewRandomReader_def s v2 rr_def Let_def)
  moreover have "\<not> needs_brain []" by (simp add: needs_brain_def)
  ultimately have "open_mount X fs path cbp ek maxMB = Inr rr"
    using brain by (cases "UsesBrainDict h") (simp_all add: open_mount_def f md mount_brain_def s)
  moreover have "serves_copy X input rr"
    using b h read_at_slice [of "fst (Serialize h)" body "[]"] by (simp add: serves_copy_def rr_def s)
  ultimately show ?thesis by blast
qed

section \<open>Reads\<close>

definition serving :: "ext \<Rightarrow> bytes \<Rightarrow> RandomReader \<Rightarrow> bool" where
  "serving X input rr \<longleftrightarrow> length input < 2 ^ 63 \<and>
     (serves_copy X input rr \<or> (\<exists>h ek r bs. packed_blocks X h ek r bs input \<and> serves X h ek r bs rr))"

lemma serving_size: "serving X input rr \<Longrightarrow> sint (OriginalSize (rrHeader rr)) = int (length input)"
  by (auto simp: serving_def serves_copy_def serves_def packed_blocks_def sint_of_nat_small)

lemma take_min_drop: "take (min n (length xs - off)) (drop off xs) = take n (drop off xs)"
  by (simp add: min_def)

lemma ReadAt_packed:
  assumes p: "packed_blocks X h ek r bs input" and s: "serves X h ek r bs rr" and len: "length input < 2 ^ 63"
    and off: "off < length input"
  shows "\<exists>err rr'. ReadAt X n off rr = Inr ((take n (drop off input), err), rr') \<and> serves X h ek r bs rr' \<and>
    (err = None \<or> n = 0 \<and> err = Some ''EOF'')"
proof -
  have sz: "sint (OriginalSize (rrHeader rr)) = int (length input)"
    using p s len by (simp add: serves_def packed_blocks_def sint_of_nat_small)
  let ?n = "min n (length input - off)"
  have n: "(if int (length input) < int off + int n then nat (int (length input) - int off) else n) = ?n"
    using off by (auto simp: min_def)
  have t: "take ?n (drop off input) = take n (drop off input)" by (rule take_min_drop)
  have "off + ?n \<le> length input" using off by simp
  from read_loop_serves [OF p this s, of "[]"] obtain rr' where
    rr': "read_loop X off ?n [] rr = Inr ((take n (drop off input), None), rr')" "serves X h ek r bs rr'"
    unfolding t by auto
  have k: "\<not> (ChunkCount (rrHeader rr) = 0 \<or> IsPassthrough (rrHeader rr))" using s by (simp add: serves_def)
  have "ReadAt X n off rr =
      (if take n (drop off input) = [] then Inr (([], Some ''EOF''), rr') else Inr ((take n (drop off input), None), rr'))"
    unfolding ReadAt_def Let_def sz n using k off rr'(1) by simp
  moreover have "n = 0" if "take n (drop off input) = []" using that off by simp
  ultimately show ?thesis using rr'(2) by auto
qed

lemma ReadAt_copied:
  assumes s: "serves_copy X input rr" and len: "length input < 2 ^ 63" and off: "off < length input"
  shows "\<exists>rr'. ReadAt X n off rr = Inr ((take n (drop off input), None), rr') \<and> serves_copy X input rr'"
proof -
  have sz: "sint (OriginalSize (rrHeader rr)) = int (length input)"
    using s len by (simp add: serves_copy_def sint_of_nat_small)
  let ?n = "min n (length input - off)"
  have n: "(if int (length input) < int off + int n then nat (int (length input) - int off) else n) = ?n"
    using off by (auto simp: min_def)
  have k: "ChunkCount (rrHeader rr) = 0" using s by (simp add: serves_copy_def)
  show ?thesis
  proof (cases "IsEncrypted (rrHeader rr)")
    case True
    have "\<exists>rr'. decryptPassthrough X rr = (Inr input, rr') \<and> serves_copy X input rr'"
      using s True by (auto simp: decryptPassthrough_def serves_copy_def split: option.splits)
    then obtain rr' where "decryptPassthrough X rr = (Inr input, rr')" "serves_copy X input rr'" by blast
    then show ?thesis
      using off True k unfolding ReadAt_def Let_def sz n by (simp add: gslice_def slice_def take_min_drop)
  next
    case False
    let ?f = "drop (rrDataOffset rr) (rrFile rr)"
    have "take ?n (drop off (take (length input) ?f)) = take ?n (drop off ?f)" by (simp add: drop_take)
    moreover have "take (length input) ?f = input" using s False by (simp add: serves_copy_def)
    ultimately have "take ?n (drop (rrDataOffset rr + off) (rrFile rr)) = take n (drop off input)"
      by (simp add: take_min_drop add.commute)
    moreover have "length (take n (drop off input)) = ?n" using off by simp
    ultimately show ?thesis
      using s False k unfolding ReadAt_def Let_def sz n using off by simp
  qed
qed

lemma Read_serving:
  assumes "serving X input rr"
  shows "\<exists>rr'. CromFile_Read X n off rr = Inr (Inr (take n (drop off input)), rr') \<and> serving X input rr'"
proof (cases "off < length input")
  case False
  then have "ReadAt X n off rr = Inr (([], Some ''EOF''), rr)"
    by (simp add: ReadAt_def Let_def serving_size [OF assms])
  with False assms show ?thesis by (simp add: CromFile_Read_def)
next
  case True
  from assms consider "serves_copy X input rr" "length input < 2 ^ 63"
    | h ek r bs where "packed_blocks X h ek r bs input" "serves X h ek r bs rr" "length input < 2 ^ 63"
    unfolding serving_def by blast
  then show ?thesis
  proof cases
    case 1
    from ReadAt_copied [OF 1 True, of n] obtain rr' where
      "ReadAt X n off rr = Inr ((take n (drop off input), None), rr')" "serves_copy X input rr'" by blast
    with 1(2) show ?thesis by (simp add: CromFile_Read_def serving_def)
  next
    case 2
    from ReadAt_packed [OF 2 True, of n] obtain err rr' where
      r: "ReadAt X n off rr = Inr ((take n (drop off input), err), rr')" "serves X h ek r bs rr'"
      "err = None \<or> n = 0 \<and> err = Some ''EOF''" by blast
    then have "serving X input rr'" using 2(1,3) unfolding serving_def by blast
    with r show ?thesis by (auto simp: CromFile_Read_def)
  qed
qed

lemma mount_reads_serving:
  "serving X input rr \<Longrightarrow>
   \<exists>rr'. mount_reads X reads rr = Inr (map (\<lambda>(n, off). Inr (take n (drop off input))) reads, rr')"
proof (induction X reads rr rule: mount_reads.induct)
  case (2 X n off reads rr)
  obtain rr1 where r1: "CromFile_Read X n off rr = Inr (Inr (take n (drop off input)), rr1)" "serving X input rr1"
    using Read_serving [OF 2(2)] by blast
  obtain rr2 where "mount_reads X reads rr1 = Inr (map (\<lambda>(n, off). Inr (take n (drop off input))) reads, rr2)"
    using 2(1) [OF r1(1)] r1(2) by blast
  with r1(1) show ?case by simp
qed simp

text \<open>A file that \<open>Pack\<close> wrote mounts with the codebook it was packed with.\<close>

lemma open_mount_restorable:
  assumes X: "zstd_ok X" "zstd_bound X" "gcm_ok X" "hash_sizes_ok X"
    and r: "restorable X opts fs cbp cbs crom input" and cbs: "codebook_given fs opts cbp cbs"
    and same: "fs' cbp = fs cbp" and f: "fs' path = Some crom" and len: "length input < 2 ^ 63"
  shows "\<exists>rr. open_mount X fs' path cbp (EncryptionKey opts) maxMB = Inr rr \<and> serving X input rr"
proof -
  have opened: "fs' cbp = Some data \<and> OpenFromBytes data = Inr r \<and> cbp \<noteq> [] \<and> cb_Open fs' cbp = Inr r"
    if "cbs = r # cbs'" "fs cbp = Some data" for r cbs' data
    using cbs same that by (auto simp: codebook_given_def cb_Open_OpenFromBytes split: if_splits)
  have data: "\<exists>data. fs cbp = Some data" if "cbs \<noteq> []"
    using cbs that by (auto simp: codebook_given_def cb_Open_OpenFromBytes split: if_splits)
  from r consider h where "copied X h (EncryptionKey opts) crom input" "MicroDictSize h = 0" "UsesBrainDict h \<longrightarrow> cbs \<noteq> []"
    | h bs where "packed_file X h (EncryptionKey opts) (reader_of cbs) bs crom input"
      "UsesBrainDict h \<longleftrightarrow> cbs \<noteq> []" "brain_embedded X opts fs cbp h"
    unfolding restorable_def by blast
  then show ?thesis
  proof cases
    case 1
    then have v: "Version3 \<le> Version h" "Version h \<le> Version8" by (simp_all add: copied_def)
    have "UsesBrainDict h \<longrightarrow> mount_brain X fs' (stored_header h) cbp (EncryptionKey opts) (reader_of cbs)"
      using 1(2,3) data opened by (cases cbs) (auto simp: mount_brain_def stored_fields [OF v] OpenForFile_def reader_of_def)
    from open_mount_copied [where fs = fs', OF 1(1) f this, of maxMB] show ?thesis
      using len unfolding serving_def by blast
  next
    case 2
    have v: "Version3 \<le> Version h" "Version h \<le> Version8" using 2(1) by (simp_all add: packed_file_def packed_header_def)
    have "with_brain h (map fst (items_of bs)) \<longrightarrow>
        mount_brain X fs' (stored_header h) cbp (EncryptionKey opts) (reader_of cbs)"
    proof (cases cbs)
      case Nil
      have "laid_out no_reader 0 (items_of bs)"
        using 2(1) Nil by (simp add: packed_file_def packed_blocks_def reader_of_def)
      with Nil 2(2) show ?thesis by (simp add: with_brain_def laid_out_no_reader)
    next
      case (Cons r cbs')
      then obtain d where d: "fs cbp = Some d" using data by auto
      from 2(3) d opened [OF Cons d] Cons show ?thesis
        by (cases "EmbedBrain opts") (auto simp: mount_brain_def stored_fields [OF v] brain_embedded_def OpenForFile_def reader_of_def)
    qed
    from open_mount_packed [where fs = fs', OF X 2(1) f this, of maxMB] show ?thesis
      using len 2(1) unfolding serving_def packed_file_def by blast
  qed
qed

text \<open>Bytes appended to the file behind the reader change nothing.\<close>

lemma serving_append:
  assumes "serving X input rr"
  shows "serving X input (rr\<lparr>rrFile := rrFile rr @ tail\<rparr>)"
proof -
  have "serves_copy X input (rr\<lparr>rrFile := rrFile rr @ tail\<rparr>)" if s: "serves_copy X input rr"
  proof (cases "IsEncrypted (rrHeader rr)")
    case True
    with s show ?thesis by (simp add: serves_copy_def read_at_append)
  next
    case False
    then have "take (length input) (drop (rrDataOffset rr) (rrFile rr)) = input" using s by (simp add: serves_copy_def)
    then have "length input \<le> length (drop (rrDataOffset rr) (rrFile rr))" by (metis length_take min.cobounded1)
    with s False show ?thesis by (simp add: serves_copy_def)
  qed
  moreover have "serves X h ek r bs (rr\<lparr>rrFile := rrFile rr @ tail\<rparr>)" if "serves X h ek r bs rr" for h ek r bs
    using that by (auto simp: serves_def read_at_append intro: trans_le_add1)
  ultimately show ?thesis using assms unfolding serving_def by blast
qed

section \<open>Properties\<close>

text \<open>
  C4. What \<open>Pack\<close> writes with lossless settings can be mounted and read at random. The settings: not
  the edge mode, no per-chunk convergent encryption, at least one worker, maximal compression only in
  a build with cgo, a chunk size below \<open>2 ^ 60\<close>, an input below 128 MiB, and no codebook or the one at
  \<open>codebookPath\<close> and no others, which opens, is smaller than \<open>2 ^ 60\<close> bytes, has at least one codeword, is
  at neither the output path nor its temporary name, and fits 32 MiB compressed (and encrypted) if it is embedded. Then,
  with the same key and the same codebook, \<open>Mount\<close> opens the file, and in every sequence of reads,
  whatever the size of the cache, each read returns the bytes of the input at its offset (fewer at the
  end of the file, none beyond it), never an error and never the bytes of another offset.
\<close>

theorem pack_mount_read:
  assumes "zstd_ok X" "zstd_bound X" "gcm_ok X" "hash_sizes_ok X" and "env_ok env" "lossless env opts"
    and "CodebookPaths opts = []" "codebookPath = [] \<or> (\<exists>data. fs codebookPath = Some data \<and> good_codebook data)"
    and "brain_fits X opts fs codebookPath" "oChunkSize opts < 2 ^ 60"
    and "fs inputPath = Some input" "length input < 2 ^ 27"
    and "codebookPath \<noteq> outputPath" "codebookPath \<noteq> outputPath @ ''.tmp''"
  shows "\<exists>m fs' rr rr'. Pack X env inputPath outputPath codebookPath opts fs = (Inr m, fs') \<and>
    open_mount X fs' outputPath codebookPath (EncryptionKey opts) maxMB = Inr rr \<and>
    mount_reads X reads rr = Inr (map (\<lambda>(n, off). Inr (take n (drop off input))) reads, rr')"
proof -
  obtain cbs where cbs: "codebook_given fs opts codebookPath cbs" using good_codebook_given [where fs = fs, OF assms(7,8)] by blast
  obtain m out where p: "Pack X env inputPath outputPath codebookPath opts fs =
      (Inr m, (fs(outputPath @ ''.tmp'' := None))(outputPath \<mapsto> out))" "restorable X opts fs codebookPath cbs out input"
    using Pack_ok [OF assms(1-6) cbs assms(10,9,11,12)] by blast
  let ?fs = "(fs(outputPath @ ''.tmp'' := None))(outputPath \<mapsto> out)"
  obtain rr where rr: "open_mount X ?fs outputPath codebookPath (EncryptionKey opts) maxMB = Inr rr" "serving X input rr"
    using open_mount_restorable [where fs' = ?fs, OF assms(1-4) p(2) cbs, of outputPath maxMB] assms(12-14) by auto
  with p(1) mount_reads_serving [OF rr(2), of reads] show ?thesis by blast
qed

theorem pack_mount_read_witness:
  "\<exists>m fs' rr rr'. Pack toy_ext sample_env ''in'' ''out'' ''brain'' (sample_options\<lparr>EncryptionKey := [1]\<rparr>) sample_fs =
      (Inr m, fs') \<and>
    open_mount toy_ext fs' ''out'' ''brain'' [1] 1 = Inr rr \<and>
    mount_reads toy_ext [(3, 298), (5, 0), (1, 300)] rr = Inr ([Inr [7, 7], Inr [7, 7, 7, 7, 7], Inr []], rr')"
proof -
  let ?o = "sample_options\<lparr>EncryptionKey := [1]\<rparr>"
  have env: "env_ok sample_env" by (auto simp: env_ok_def sample_env_def NonceSize_def)
  have o: "lossless sample_env ?o" "CodebookPaths ?o = []" "brain_fits toy_ext ?o sample_fs ''brain''" "oChunkSize ?o < 2 ^ 60"
    by (simp_all add: lossless_def converging_def sample_options_def brain_fits_def)
  have cb: "''brain'' = [] \<or> (\<exists>data. sample_fs ''brain'' = Some data \<and> good_codebook data)"
    using sample_codebook_opens by (simp add: sample_fs_def good_codebook_def)
  have i: "sample_fs ''in'' = Some (replicate 300 7)" "length (replicate 300 (7 :: byte)) < 2 ^ 27"
    "''brain'' \<noteq> ''out''" "''brain'' \<noteq> ''out'' @ ''.tmp''"
    by (simp_all add: sample_fs_def)
  have "map (\<lambda>(n, off). Inr (take n (drop off (replicate 300 7)))) [(3, 298), (5, 0), (1, 300)] =
      [Inr [7, 7], Inr [7, 7, 7, 7, 7], Inr [] :: string + bytes]"
    by (simp add: numeral_eq_Suc)
  with pack_mount_read [where fs = sample_fs, OF toy_ext_ok env o(1,2) cb o(3,4) i, of 1 "[(3, 298), (5, 0), (1, 300)]"]
  show ?thesis by simp
qed

end
