(* ===== verification/Living_File.thy ===== *)
theory Living_File
  imports Vfs_Reader
begin

text \<open>
  \<^verbatim>\<open>pkg/cromlib/mutator.go\<close>, \<^verbatim>\<open>internal/vfs/writer.go\<close> and the write handlers of
  \<^verbatim>\<open>internal/vfs/fuse.go\<close>: writes to a mounted file are buffered in a write-ahead log and
  appended to the packed file as mutation records. A history of reads, writes and flushes
  loses no byte that was written, and a file of chunks keeps its content.
\<close>

section \<open>Appended mutations\<close>

definition AppendMutation :: "int \<Rightarrow> bytes \<Rightarrow> bytes \<Rightarrow> bytes" where
  "AppendMutation now patchBytes f =
     (let header = \<lparr>mMagic = gcopy (zeros 4) 0 4 (bytes_of_string ''CMUT''), mTimestamp = of_int now,
                    mDiffPatchSize = of_nat (length patchBytes)\<rparr>;
          f = f @ V9MutationHeader_Bytes header
      in if 0 < length patchBytes then f @ patchBytes else f)"

text \<open>
  What the record format promises: a log is a sequence of records, each a header followed by
  as many bytes as it says. No code of the repository reads a log back.
\<close>

function mutation_log :: "bytes \<Rightarrow> bytes list option" where
  "mutation_log s =
     (if s = [] then Some []
      else
        (case ParseV9MutationHeader s of
           Inl _ \<Rightarrow> None
         | Inr h \<Rightarrow>
             (let n = V9MutationHeaderSize + unat (mDiffPatchSize h) in
              if length s < n then None
              else map_option (\<lambda>ps. slice s V9MutationHeaderSize n # ps) (mutation_log (drop n s)))))"
  by pat_completeness auto
termination
  by (relation "measure length") (auto simp: V9MutationHeaderSize_def)

declare mutation_log.simps [simp del]

lemma mutation_log_Nil [simp]: "mutation_log [] = Some []"
  by (simp add: mutation_log.simps)

definition mutation_record :: "int \<Rightarrow> bytes \<Rightarrow> bytes" where
  "mutation_record now patchBytes =
     V9MutationHeader_Bytes \<lparr>mMagic = bytes_of_string ''CMUT'', mTimestamp = of_int now,
       mDiffPatchSize = of_nat (length patchBytes)\<rparr> @ patchBytes"

lemma AppendMutation_record: "AppendMutation now p f = f @ mutation_record now p"
proof -
  have "gcopy (zeros 4) 0 4 (bytes_of_string ''CMUT'') = bytes_of_string ''CMUT''"
    by (simp add: gcopy_all bytes_of_string_def)
  then show ?thesis by (simp add: AppendMutation_def mutation_record_def Let_def)
qed

lemma mutation_log_record:
  assumes "length p < 2 ^ 32"
  shows "mutation_log (mutation_record now p @ rest) = map_option (\<lambda>ps. p # ps) (mutation_log rest)"
proof -
  let ?h = "\<lparr>mMagic = bytes_of_string ''CMUT'', mTimestamp = of_int now, mDiffPatchSize = of_nat (length p)\<rparr> :: V9MutationHeader"
  have m: "length (mMagic ?h) = 4" "wf_mutation ?h" by (simp_all add: bytes_of_string_def wf_mutation_def)
  have len: "length (V9MutationHeader_Bytes ?h) = V9MutationHeaderSize"
    by (simp add: mutation_layout [OF m(1)] V9MutationHeaderSize_def) (simp add: bytes_of_string_def)
  have n: "unat (of_nat (length p) :: u32) = length p" using assms by (intro unat_of_nat_lt) simp
  have r: "mutation_record now p = V9MutationHeader_Bytes ?h @ p" by (simp add: mutation_record_def)
  have p: "ParseV9MutationHeader (mutation_record now p @ rest) = Inr ?h"
    using ParseV9MutationHeader_Bytes [OF m(2), of "p @ rest"] by (simp add: r)
  have "slice (mutation_record now p @ rest) V9MutationHeaderSize (V9MutationHeaderSize + length p) = p"
    using len by (simp add: r slice_def)
  moreover have "drop (V9MutationHeaderSize + length p) (mutation_record now p @ rest) = rest" using len by (simp add: r)
  moreover have "mutation_record now p @ rest \<noteq> []" "\<not> length (mutation_record now p @ rest) < V9MutationHeaderSize + length p"
    using len by (auto simp: r V9MutationHeaderSize_def)
  ultimately show ?thesis by (subst mutation_log.simps) (simp add: p n)
qed

lemma mutation_log_append:
  "mutation_log lg = Some ps \<Longrightarrow> mutation_log (lg @ lg') = map_option (\<lambda>qs. ps @ qs) (mutation_log lg')"
proof (induction lg arbitrary: ps rule: mutation_log.induct)
  case (1 s)
  show ?case
  proof (cases "s = []")
    case True
    with 1(2) show ?thesis by (simp add: option.map_ident)
  next
    case False
    then obtain h where h: "ParseV9MutationHeader s = Inr h"
      using 1(2) by (subst (asm) mutation_log.simps) (auto split: sum.splits)
    define n where "n = V9MutationHeaderSize + unat (mDiffPatchSize h)"
    obtain qs where qs: "n \<le> length s" "mutation_log (drop n s) = Some qs" "ps = slice s V9MutationHeaderSize n # qs"
      using 1(2) False h by (subst (asm) mutation_log.simps) (auto simp: Let_def n_def split: if_splits)
    have "ParseV9MutationHeader (s @ lg') = Inr h"
      using h qs(1) by (auto simp: ParseV9MutationHeader_def V9MutationHeaderSize_def slice_def get_uint_defs split: if_splits)
    moreover have "slice (s @ lg') V9MutationHeaderSize n = slice s V9MutationHeaderSize n" "drop n (s @ lg') = drop n s @ lg'"
      using qs(1) by (simp_all add: slice_def n_def)
    moreover have "mutation_log (drop n s @ lg') = map_option (\<lambda>q. qs @ q) (mutation_log lg')"
      using 1(1) [OF False h n_def] qs(1,2) by simp
    ultimately show ?thesis
      using False qs by (subst mutation_log.simps) (cases "mutation_log lg'", simp_all add: Let_def flip: n_def)
  qed
qed

section \<open>The write-ahead log\<close>

text \<open>Times are in nanoseconds.\<close>

record WriteAheadLog =
  walBuffer :: bytes
  cromFilePath :: string
  lastWriteTime :: int

definition NewWriteAheadLog :: "string \<Rightarrow> WriteAheadLog" where
  "NewWriteAheadLog path = \<lparr>walBuffer = [], cromFilePath = path, lastWriteTime = 0\<rparr>"

definition wal_Append :: "bytes \<Rightarrow> nat \<Rightarrow> int \<Rightarrow> WriteAheadLog \<Rightarrow> WriteAheadLog" where
  "wal_Append data offset now wal = wal\<lparr>walBuffer := walBuffer wal @ data, lastWriteTime := now\<rparr>"

definition commitToDisk :: "int \<Rightarrow> bytes \<Rightarrow> WriteAheadLog \<Rightarrow> fs \<Rightarrow> unit res \<times> fs" where
  "commitToDisk now payload wal fs =
     (case fs (cromFilePath wal) of
        None \<Rightarrow> (Inl (GoErr ''open''), fs)
      | Some f \<Rightarrow> (Inr (), fs(cromFilePath wal \<mapsto> AppendMutation (now div 10 ^ 9) payload f)))"

text \<open>An error of the commit is printed; the payload has left the buffer before.\<close>

definition flush_payload :: "int \<Rightarrow> WriteAheadLog \<Rightarrow> fs \<Rightarrow> WriteAheadLog \<times> fs" where
  "flush_payload now wal fs =
     (let payload = walBuffer wal; wal = wal\<lparr>walBuffer := []\<rparr> in (wal, snd (commitToDisk now payload wal fs)))"

definition tryFlush :: "int \<Rightarrow> WriteAheadLog \<Rightarrow> fs \<Rightarrow> WriteAheadLog \<times> fs" where
  "tryFlush now wal fs =
     (if length (walBuffer wal) = 0 \<or> now - lastWriteTime wal < 1 * 10 ^ 9 then (wal, fs)
      else flush_payload now wal fs)"

definition forceFlush :: "int \<Rightarrow> WriteAheadLog \<Rightarrow> fs \<Rightarrow> WriteAheadLog \<times> fs" where
  "forceFlush now wal fs = (if length (walBuffer wal) = 0 then (wal, fs) else flush_payload now wal fs)"

definition wal_Close :: "int \<Rightarrow> WriteAheadLog \<Rightarrow> fs \<Rightarrow> WriteAheadLog \<times> fs" where
  "wal_Close now wal fs = forceFlush now wal fs"

section \<open>A mounted file that is read and written\<close>

record LiveMount =
  lmReader :: RandomReader
  lmWal :: WriteAheadLog
  lmFs :: fs

definition live_mount :: "ext \<Rightarrow> fs \<Rightarrow> string \<Rightarrow> string \<Rightarrow> bytes \<Rightarrow> int \<Rightarrow> LiveMount res" where
  "live_mount X fs cromFile codebookFile encryptionKey maxMB =
     rbind (open_mount X fs cromFile codebookFile encryptionKey maxMB) (\<lambda>rr.
       Inr \<lparr>lmReader = rr, lmWal = NewWriteAheadLog cromFile, lmFs = fs\<rparr>)"

text \<open>
  What happens to a mounted file: the two handlers, the tick of the worker, the flush of a
  close or of the unmount. The reader holds the file open, so it sees what was appended.
\<close>

datatype vfs_op = VRead nat nat | VWrite bytes nat | VTick | VFlush

definition reopened :: "LiveMount \<Rightarrow> RandomReader" where
  "reopened m =
     (case lmFs m (cromFilePath (lmWal m)) of None \<Rightarrow> lmReader m | Some f \<Rightarrow> (lmReader m)\<lparr>rrFile := f\<rparr>)"

definition CromFile_Write :: "bytes \<Rightarrow> nat \<Rightarrow> int \<Rightarrow> LiveMount \<Rightarrow> u32 \<times> LiveMount" where
  "CromFile_Write data off now m =
     (of_nat (length data), m\<lparr>lmWal := wal_Append data off now (lmWal m)\<rparr>)"

definition flushed :: "(WriteAheadLog \<Rightarrow> fs \<Rightarrow> WriteAheadLog \<times> fs) \<Rightarrow> LiveMount \<Rightarrow> LiveMount" where
  "flushed f m = (case f (lmWal m) (lmFs m) of (wal, fs) \<Rightarrow> m\<lparr>lmWal := wal, lmFs := fs\<rparr>)"

definition CromFile_Flush :: "int \<Rightarrow> LiveMount \<Rightarrow> LiveMount" where
  "CromFile_Flush now m = flushed (forceFlush now) m"

fun live_op :: "ext \<Rightarrow> int \<Rightarrow> vfs_op \<Rightarrow> LiveMount \<Rightarrow> ((string + bytes) list \<times> LiveMount) res" where
  "live_op X now (VRead n off) m =
     rbind (CromFile_Read X n off (reopened m)) (\<lambda>(d, rr). Inr ([d], m\<lparr>lmReader := rr\<rparr>))"
| "live_op X now (VWrite data off) m = Inr ([], snd (CromFile_Write data off now m))"
| "live_op X now VTick m = Inr ([], flushed (tryFlush now) m)"
| "live_op X now VFlush m = Inr ([], CromFile_Flush now m)"

fun live_run :: "ext \<Rightarrow> (int \<times> vfs_op) list \<Rightarrow> LiveMount \<Rightarrow> ((string + bytes) list \<times> LiveMount) res" where
  "live_run X [] m = Inr ([], m)"
| "live_run X ((now, p) # ops) m =
     rbind (live_op X now p m) (\<lambda>(ds, m). rbind (live_run X ops m) (\<lambda>(es, m). Inr (ds @ es, m)))"

text \<open>What a history writes, and what its reads shall return.\<close>

fun written :: "(int \<times> vfs_op) list \<Rightarrow> bytes" where
  "written [] = []"
| "written ((now, VWrite data off) # ops) = data @ written ops"
| "written ((now, VRead n off) # ops) = written ops"
| "written ((now, VTick) # ops) = written ops"
| "written ((now, VFlush) # ops) = written ops"

fun read_back :: "bytes \<Rightarrow> (int \<times> vfs_op) list \<Rightarrow> (string + bytes) list" where
  "read_back input [] = []"
| "read_back input ((now, VRead n off) # ops) = Inr (take n (drop off input)) # read_back input ops"
| "read_back input ((now, VWrite data off) # ops) = read_back input ops"
| "read_back input ((now, VTick) # ops) = read_back input ops"
| "read_back input ((now, VFlush) # ops) = read_back input ops"

section \<open>A history loses nothing that was written\<close>

text \<open>
  The file is its first content followed by a log whose payloads, with the buffer, are what
  was written.
\<close>

definition logged :: "fs \<Rightarrow> bytes \<Rightarrow> string \<Rightarrow> bytes \<Rightarrow> WriteAheadLog \<Rightarrow> fs \<Rightarrow> bool" where
  "logged base crom path ws wal fs \<longleftrightarrow>
     cromFilePath wal = path \<and>
     (\<exists>lg ps. fs = base(path \<mapsto> crom @ lg) \<and> mutation_log lg = Some ps \<and> concat ps @ walBuffer wal = ws)"

lemma flush_payload_logged:
  assumes l: "logged base crom path ws wal fs" and n: "length ws < 2 ^ 32" and f: "flush_payload now wal fs = (wal', fs')"
  shows "logged base crom path ws wal' fs' \<and> walBuffer wal' = [] \<and> lastWriteTime wal' = lastWriteTime wal \<and>
    (\<exists>tail. fs' path = map_option (\<lambda>c. c @ tail) (fs path))"
proof -
  obtain lg ps where lg: "fs = base(path \<mapsto> crom @ lg)" "mutation_log lg = Some ps" "concat ps @ walBuffer wal = ws"
    and path: "cromFilePath wal = path" using l by (auto simp: logged_def)
  let ?r = "mutation_record (now div 10 ^ 9) (walBuffer wal)"
  have "length (walBuffer wal) < 2 ^ 32" using lg(3) n by auto
  then have "mutation_log (lg @ ?r) = Some (ps @ [walBuffer wal])"
    using mutation_log_append [OF lg(2), of ?r] mutation_log_record [of "walBuffer wal" _ "[]"] by simp
  moreover have f: "wal' = wal\<lparr>walBuffer := []\<rparr>" "fs' = base(path \<mapsto> crom @ lg @ ?r)"
    using f lg(1) path by (auto simp: flush_payload_def commitToDisk_def Let_def AppendMutation_record)
  moreover have "concat (ps @ [walBuffer wal]) = ws" using lg(3) by simp
  ultimately have "logged base crom path ws wal' fs'"
    unfolding logged_def using path by (intro conjI exI [of _ "lg @ ?r"] exI [of _ "ps @ [walBuffer wal]"]) simp_all
  then show ?thesis using f lg(1) by simp
qed

lemma forceFlush_logged:
  assumes "logged base crom path ws wal fs" "length ws < 2 ^ 32" "forceFlush now wal fs = (wal', fs')"
  shows "logged base crom path ws wal' fs' \<and> walBuffer wal' = [] \<and> lastWriteTime wal' = lastWriteTime wal \<and>
    (\<exists>tail. fs' path = map_option (\<lambda>c. c @ tail) (fs path))"
proof (cases "walBuffer wal = []")
  case True
  with assms show ?thesis by (auto simp: forceFlush_def intro!: exI [of _ "[]"] simp: option.map_ident)
next
  case False
  with assms(3) show ?thesis by (intro flush_payload_logged [OF assms(1,2)]) (simp add: forceFlush_def)
qed

lemma tryFlush_logged:
  assumes "logged base crom path ws wal fs" "length ws < 2 ^ 32" "tryFlush now wal fs = (wal', fs')"
  shows "logged base crom path ws wal' fs' \<and> (10 ^ 9 \<le> now - lastWriteTime wal \<longrightarrow> walBuffer wal' = []) \<and>
    lastWriteTime wal' = lastWriteTime wal \<and> (\<exists>tail. fs' path = map_option (\<lambda>c. c @ tail) (fs path))"
proof (cases "walBuffer wal = [] \<or> now - lastWriteTime wal < 10 ^ 9")
  case True
  with assms show ?thesis by (auto simp: tryFlush_def intro!: exI [of _ "[]"] simp: option.map_ident)
next
  case False
  then have "flush_payload now wal fs = (wal', fs')" using assms(3) by (simp add: tryFlush_def)
  from flush_payload_logged [OF assms(1,2) this] show ?thesis by blast
qed

section \<open>Reads leave the file alone\<close>

lemma loadBlockPool_file: "loadBlockPool X b rr = (res, rr') \<Longrightarrow> rrFile rr' = rrFile rr"
  by (auto simp: loadBlockPool_def Let_def split: prod.splits option.splits sum.splits if_splits)

lemma load_chunk_file: "load_chunk X i rr = (res, rr') \<Longrightarrow> rrFile rr' = rrFile rr"
  by (auto simp: load_chunk_def Let_def dest: loadBlockPool_file
      split: prod.splits option.splits sum.splits if_splits goerror.splits)

lemma fetch_chunk_file: "fetch_chunk X i rr = (res, rr') \<Longrightarrow> rrFile rr' = rrFile rr"
  by (auto simp: fetch_chunk_def Let_def dest: load_chunk_file split: prod.splits sum.splits if_splits)

lemma read_loop_step:
  assumes "read_loop X off n acc rr = Inr (res, rr')"
  shows "rr' = rr \<or> (\<exists>i c rr1. fetch_chunk X i rr = (c, rr1) \<and>
    (rr' = rr1 \<or> (\<exists>d. 0 < length d \<and> length acc < n \<and> read_loop X off n (acc @ d) rr1 = Inr (res, rr'))))"
proof -
  define i where "i = sort_Search (length (rrEntries rr)) (\<lambda>i. of_nat (off + length acc) < rrChunkEnds rr ! i)"
  define a where "a = int (off + length acc) - sint (rrChunkEnds rr ! i) + uint (EOriginalSize (rrEntries rr ! i))"
  obtain c rr1 where fc: "fetch_chunk X i rr = (c, rr1)" by fastforce
  show ?thesis
  proof (cases c)
    case (Inl e)
    then have "rr' = rr \<or> rr' = rr1"
      using assms unfolding read_loop.simps [of X off n acc rr] Let_def i_def [symmetric] fc
      by (cases e) (auto split: if_splits)
    with fc show ?thesis by blast
  next
    case (Inr chunk)
    define k where "k = copy_count (rrEntries rr ! i) a (n - length acc) chunk"
    have "rr' = rr \<or> rr' = rr1 \<or>
      (\<exists>d. length acc < n \<and> \<not> k \<le> 0 \<and> \<not> a < 0 \<and> gslice chunk (nat a) (nat (a + k)) = Inr d \<and>
        read_loop X off n (acc @ d) rr1 = Inr (res, rr'))"
      using assms
      unfolding read_loop.simps [of X off n acc rr] Let_def i_def [symmetric] a_def [symmetric] fc Inr prod.case sum.case
        k_def [symmetric]
      by (auto simp: rbind_Inr_iff split: if_splits)
    with fc gslice_positive show ?thesis by blast
  qed
qed

lemma read_loop_file: "read_loop X off n acc rr = Inr (res, rr') \<Longrightarrow> rrFile rr' = rrFile rr"
proof (induction "n - length acc" arbitrary: acc rr rule: less_induct)
  case less
  from read_loop_step [OF less.prems]
  consider "rr' = rr" | i c where "fetch_chunk X i rr = (c, rr')"
    | i c rr1 d where "fetch_chunk X i rr = (c, rr1)" "0 < length d" "length acc < n"
      "read_loop X off n (acc @ d) rr1 = Inr (res, rr')"
    by blast
  then show ?case
  proof cases
    case 3
    have "rrFile rr' = rrFile rr1" using 3(2,3) by (intro less.hyps [OF _ 3(4)]) (simp add: diff_less_mono2)
    with fetch_chunk_file [OF 3(1)] show ?thesis by simp
  qed (simp_all add: fetch_chunk_file)
qed

lemma decryptPassthrough_file: "decryptPassthrough X rr = (res, rr') \<Longrightarrow> rrFile rr' = rrFile rr"
  by (auto simp: decryptPassthrough_def split: option.splits sum.splits if_splits)

lemma ReadAt_file: "ReadAt X n off rr = Inr (res, rr') \<Longrightarrow> rrFile rr' = rrFile rr"
  by (auto simp: ReadAt_def Let_def rbind_Inr_iff dest: decryptPassthrough_file read_loop_file
      split: prod.splits sum.splits if_splits goerror.splits)

lemma CromFile_Read_file: "CromFile_Read X n off rr = Inr (res, rr') \<Longrightarrow> rrFile rr' = rrFile rr"
  by (auto simp: CromFile_Read_def rbind_Inr_iff dest: ReadAt_file split: prod.splits)

section \<open>Histories\<close>

text \<open>The time of the last write of a history, the zero time before the first.\<close>

fun last_write :: "int \<Rightarrow> (int \<times> vfs_op) list \<Rightarrow> int" where
  "last_write t [] = t"
| "last_write t ((now, VWrite data off) # ops) = last_write now ops"
| "last_write t ((now, VRead n off) # ops) = last_write t ops"
| "last_write t ((now, VTick) # ops) = last_write t ops"
| "last_write t ((now, VFlush) # ops) = last_write t ops"

lemma written_append [simp]: "written (ops @ ops') = written ops @ written ops'"
  by (induction ops rule: written.induct) simp_all

lemma written_Cons: "written (p # ops) = written [p] @ written ops"
  using written_append [of "[p]" ops] by simp

lemma live_run_append:
  "live_run X (ops @ ops') m =
     rbind (live_run X ops m) (\<lambda>(ds, m). rbind (live_run X ops' m) (\<lambda>(es, m). Inr (ds @ es, m)))"
proof (induction X ops m rule: live_run.induct)
  case (1 X m)
  then show ?case by (cases "live_run X ops' m") auto
next
  case (2 X now p ops m)
  show ?case
  proof (cases "live_op X now p m")
    case (Inr dm)
    obtain ds m1 where dm: "dm = (ds, m1)" by fastforce
    note ih = 2 [OF Inr dm [symmetric]]
    show ?thesis
    proof (cases "live_run X ops m1")
      case inner: (Inr em)
      then show ?thesis using Inr dm ih by (cases em; cases "live_run X ops' (snd em)") auto
    qed (use Inr dm ih in simp)
  qed simp
qed

lemma live_op_logged:
  assumes l: "logged base crom path ws (lmWal m) (lmFs m)" and n: "length (ws @ written [(now, p)]) < 2 ^ 32"
    and r: "live_op X now p m = Inr (ds, m')"
  shows "logged base crom path (ws @ written [(now, p)]) (lmWal m') (lmFs m') \<and>
    lastWriteTime (lmWal m') = last_write (lastWriteTime (lmWal m)) [(now, p)] \<and>
    (p = VFlush \<or> p = VTick \<and> 10 ^ 9 \<le> now - lastWriteTime (lmWal m) \<longrightarrow> walBuffer (lmWal m') = [])"
proof (cases p)
  case (VRead k off)
  with l r show ?thesis by (auto simp: rbind_Inr_iff)
next
  case (VWrite data off)
  with l r show ?thesis by (auto simp: CromFile_Write_def wal_Append_def logged_def)
next
  case VTick
  obtain wal fs' where f: "tryFlush now (lmWal m) (lmFs m) = (wal, fs')" by fastforce
  from tryFlush_logged [OF l _ f] n VTick r f show ?thesis by (auto simp: flushed_def)
next
  case VFlush
  obtain wal fs' where f: "forceFlush now (lmWal m) (lmFs m) = (wal, fs')" by fastforce
  from forceFlush_logged [OF l _ f] n VFlush r f show ?thesis by (auto simp: flushed_def CromFile_Flush_def)
qed

lemma live_run_logged:
  "live_run X ops m = Inr (ds, m') \<Longrightarrow> logged base crom path ws (lmWal m) (lmFs m) \<Longrightarrow> length (ws @ written ops) < 2 ^ 32 \<Longrightarrow>
   logged base crom path (ws @ written ops) (lmWal m') (lmFs m') \<and>
   lastWriteTime (lmWal m') = last_write (lastWriteTime (lmWal m)) ops"
proof (induction X ops m arbitrary: ws ds rule: live_run.induct)
  case (2 X now p ops m)
  obtain d1 m1 es where r: "live_op X now p m = Inr (d1, m1)" "live_run X ops m1 = Inr (es, m')"
    using 2(2) by (auto simp: rbind_Inr_iff split: prod.splits)
  have n: "length (ws @ written [(now, p)]) < 2 ^ 32" "length ((ws @ written [(now, p)]) @ written ops) < 2 ^ 32"
    using 2(4) by (simp_all add: written_Cons [of _ ops])
  note one = live_op_logged [OF 2(3) n(1) r(1)]
  have "last_write (last_write t [(now, p)]) ops = last_write t ((now, p) # ops)" for t by (cases p) simp_all
  with 2(1) [OF r(1) refl r(2) _ n(2)] one show ?case by (simp add: written_Cons [of _ ops])
qed simp

lemma reopened_file: "lmFs m (cromFilePath (lmWal m)) = Some f \<Longrightarrow> reopened m = (lmReader m)\<lparr>rrFile := f\<rparr>"
  by (simp add: reopened_def)

lemma serving_flush:
  assumes s: "serving X input (reopened m)" and l: "logged base crom path ws (lmWal m) (lmFs m)"
    and f: "f (lmWal m) (lmFs m) = (wal', fs')" and w: "cromFilePath wal' = path"
    and t: "\<exists>tail. fs' path = map_option (\<lambda>c. c @ tail) (lmFs m path)"
  shows "serving X input (reopened (flushed f m))"
proof -
  obtain c where c: "lmFs m path = Some c" and p: "cromFilePath (lmWal m) = path" using l by (auto simp: logged_def)
  obtain tail where tail: "fs' path = Some (c @ tail)" using t c by auto
  have "reopened (flushed f m) = (reopened m)\<lparr>rrFile := rrFile (reopened m) @ tail\<rparr>"
    using c p w tail f by (simp add: reopened_def flushed_def)
  with serving_append [OF s] show ?thesis by simp
qed

lemma live_op_serving:
  assumes s: "serving X input (reopened m)" and l: "logged base crom path ws (lmWal m) (lmFs m)" and n: "length ws < 2 ^ 32"
  shows "\<exists>m'. live_op X now p m = Inr (read_back input [(now, p)], m') \<and> serving X input (reopened m')"
proof (cases p)
  case (VRead k off)
  obtain f where f: "lmFs m (cromFilePath (lmWal m)) = Some f" using l by (auto simp: logged_def)
  obtain rr where rr: "CromFile_Read X k off (reopened m) = Inr (Inr (take k (drop off input)), rr)" "serving X input rr"
    using Read_serving [OF s] by blast
  have "rrFile rr = f" using CromFile_Read_file [OF rr(1)] f by (simp add: reopened_file)
  then have "reopened (m\<lparr>lmReader := rr\<rparr>) = rr" using f by (simp add: reopened_def)
  with VRead rr show ?thesis by simp
next
  case (VWrite data off)
  have "reopened (snd (CromFile_Write data off now m)) = reopened m"
    by (simp add: CromFile_Write_def reopened_def wal_Append_def split: option.split)
  with VWrite s show ?thesis by simp
next
  case VTick
  obtain wal fs' where f: "tryFlush now (lmWal m) (lmFs m) = (wal, fs')" by fastforce
  note t = tryFlush_logged [OF l n f]
  then have "cromFilePath wal = path" by (auto simp: logged_def)
  with serving_flush [where f = "tryFlush now", OF s l f] t VTick show ?thesis by simp
next
  case VFlush
  obtain wal fs' where f: "forceFlush now (lmWal m) (lmFs m) = (wal, fs')" by fastforce
  note t = forceFlush_logged [OF l n f]
  then have "cromFilePath wal = path" by (auto simp: logged_def)
  with serving_flush [where f = "forceFlush now", OF s l f] t VFlush show ?thesis by (simp add: CromFile_Flush_def)
qed

lemma read_back_Cons: "read_back input (p # ops) = read_back input [p] @ read_back input ops"
proof (cases p)
  case (Pair now q)
  then show ?thesis by (cases q) simp_all
qed

lemma live_run_serving:
  "serving X input (reopened m) \<Longrightarrow> logged base crom path ws (lmWal m) (lmFs m) \<Longrightarrow> length (ws @ written ops) < 2 ^ 32 \<Longrightarrow>
   \<exists>m'. live_run X ops m = Inr (read_back input ops, m')"
proof (induction X ops m arbitrary: ws rule: live_run.induct)
  case (2 X now p ops m)
  have n: "length ws < 2 ^ 32" "length (ws @ written [(now, p)]) < 2 ^ 32"
    "length ((ws @ written [(now, p)]) @ written ops) < 2 ^ 32"
    using 2(4) by (simp_all add: written_Cons [of _ ops])
  obtain m1 where m1: "live_op X now p m = Inr (read_back input [(now, p)], m1)" "serving X input (reopened m1)"
    using live_op_serving [OF 2(2,3) n(1)] by blast
  have "logged base crom path (ws @ written [(now, p)]) (lmWal m1) (lmFs m1)"
    using live_op_logged [OF 2(3) n(2) m1(1)] by blast
  from 2(1) [OF m1(1) refl m1(2) this n(3)] m1(1) show ?case
    by (subst read_back_Cons) (auto simp del: read_back.simps)
qed simp

lemma live_mount_starts:
  assumes "live_mount X fs path cbp ek maxMB = Inr m" "fs path = Some crom"
  shows "logged fs crom path [] (lmWal m) (lmFs m)" "lastWriteTime (lmWal m) = 0" "lmFs m = fs"
    "open_mount X fs path cbp ek maxMB = Inr (lmReader m)"
  using assms by (auto simp: live_mount_def rbind_Inr_iff logged_def NewWriteAheadLog_def intro!: exI [of _ "[]"])

lemma open_mount_file: "open_mount X fs path cbp ek maxMB = Inr rr \<Longrightarrow> fs path = Some (rrFile rr)"
  by (auto simp: open_mount_def rbind_Inr_iff NewRandomReader_def Let_def wrap_err_Inr_iff split: option.splits if_splits prod.splits)

text \<open>A file written by \<open>PackBytes\<close>, mounted, read and written to.\<close>

lemma live_history_intact:
  assumes "zstd_ok X" "zstd_bound X" "gcm_ok X" "hash_sizes_ok X"
    and "OpenFromBytes codebookData = Inr r" "length codebookData < 2 ^ 60" "declared_size (rHeader r) < 2 ^ 64"
    and "CodewordCount (rHeader r) \<noteq> 0" "input \<noteq> []" "length input < 2 ^ 27" "Mode opts \<noteq> ''edge''"
    and "PackBytes X wide input codebookData opts = Inr (crom, pm)"
    and "fs path = Some crom" "fs cbp = Some codebookData" "cbp \<noteq> []" "cbp \<noteq> path"
    and "length (written ops) < 2 ^ 32" "Fuzziness uopts \<le> 0"
  shows "\<exists>m0 m lg ps. live_mount X fs path cbp [] maxMB = Inr m0 \<and>
    sint (OriginalSize (rrHeader (lmReader m0))) = int (length input) \<and>
    live_run X ops m0 = Inr (read_back input ops, m) \<and>
    lmFs m = fs(path \<mapsto> crom @ lg) \<and> mutation_log lg = Some ps \<and> concat ps @ walBuffer (lmWal m) = written ops \<and>
    Unpack X rnd path dest cbp uopts (lmFs m) = (Inr (), ((lmFs m)(dest @ ''.tmp'' := None))(dest \<mapsto> input))"
proof -
  have wf: "wf_reader r" by (rule opened_reader [OF assms(5-7)])
  have pk: "\<exists>h bs. packed_file X h ek r bs crom input \<and> MicroDictSize h = 0" for ek
    using PackBytes_packed [OF assms(1,2,4,5) opened_reader [OF assms(5-7)] assms(8-11), of wide ek] assms(12) by auto
  obtain h bs where p: "packed_file X h [] r bs crom input" "MicroDictSize h = 0" using pk by blast
  have v: "Version3 \<le> Version h" "Version h \<le> Version8" using p(1) by (simp_all add: packed_file_def packed_header_def)
  have cb: "cb_Open fs' cbp = Inr r" if "fs' cbp = fs cbp" for fs'
    using that assms(5,14) by (simp add: cb_Open_OpenFromBytes)
  have "mount_brain X fs (stored_header h) cbp [] r"
    using p(2) cb [of fs] assms(15) by (simp add: mount_brain_def stored_fields [OF v] OpenForFile_def)
  then obtain rr where rr: "open_mount X fs path cbp [] maxMB = Inr rr" "serves X h [] r bs rr"
    using open_mount_packed [where fs = fs, OF assms(1-4) p(1) assms(13)] by blast
  let ?m = "\<lparr>lmReader = rr, lmWal = NewWriteAheadLog path, lmFs = fs\<rparr>"
  have m0: "live_mount X fs path cbp [] maxMB = Inr ?m" using rr(1) by (simp add: live_mount_def)
  have content: "rrFile rr = crom" using open_mount_file [OF rr(1)] assms(13) by simp
  have "reopened ?m = rr" using assms(13) content by (simp add: reopened_def NewWriteAheadLog_def)
  moreover have "serving X input rr" unfolding serving_def using rr(2) p(1) assms(10) by (auto simp: packed_file_def)
  ultimately have s: "serving X input (reopened ?m)" by simp
  note l = live_mount_starts(1) [where fs = fs, OF m0 assms(13)]
  have n: "length ([] @ written ops) < 2 ^ 32" using assms(17) by simp
  obtain m where m: "live_run X ops ?m = Inr (read_back input ops, m)" using live_run_serving [OF s l n] by blast
  have "logged fs crom path ([] @ written ops) (lmWal m) (lmFs m)" using live_run_logged [OF m l n] by blast
  then obtain lg ps where lg: "lmFs m = fs(path \<mapsto> crom @ lg)" "mutation_log lg = Some ps"
    "concat ps @ walBuffer (lmWal m) = written ops"
    by (auto simp: logged_def)
  obtain h' bs' where p': "packed_file X h' (uEncryptionKey uopts) r bs' crom input" "MicroDictSize h' = 0" using pk by blast
  have v': "Version3 \<le> Version h'" "Version h' \<le> Version8" using p'(1) by (simp_all add: packed_file_def packed_header_def)
  have "brain_given X (lmFs m) h' cbp uopts r bs'"
    using p'(2) cb [of "lmFs m"] lg(1) assms(15,16)
    by (simp add: brain_given_def open_brain_def stored_fields [OF v'] OpenForFile_def)
  then have "Unpack X rnd path dest cbp uopts (lmFs m) = (Inr (), ((lmFs m)(dest @ ''.tmp'' := None))(dest \<mapsto> input))"
    by (rule Unpack_packed [OF assms(1-4) p'(1) wf, where tail = lg]) (use lg(1) assms(18) in simp_all)
  moreover have "sint (OriginalSize (rrHeader (lmReader ?m))) = int (length input)"
    using serving_size [OF \<open>serving X input rr\<close>] by simp
  ultimately show ?thesis using m0 m lg by blast
qed

section \<open>Properties\<close>

text \<open>
  C18. Writes reach the disk: when a flush happens, or a tick of the worker finds that a second
  has passed since the last write, everything written so far is in the log behind the file,
  in order, and the buffer is empty. This holds for every file that mounts, as long as less than
  4 GiB are written (a diff has a 32-bit size).
\<close>

theorem writes_reach_disk:
  assumes "live_mount X fs path cbp ek maxMB = Inr m0" "fs path = Some crom" "length (written ops) < 2 ^ 32"
    and "live_run X (ops @ [(now, p)]) m0 = Inr (ds, m)" "p = VFlush \<or> p = VTick \<and> last_write 0 ops + 10 ^ 9 \<le> now"
  shows "\<exists>lg ps. lmFs m path = Some (crom @ lg) \<and> mutation_log lg = Some ps \<and> concat ps = written ops \<and>
    walBuffer (lmWal m) = []"
proof -
  note st = live_mount_starts [where fs = fs, OF assms(1,2)]
  obtain m1 d1 d2 where r: "live_run X ops m0 = Inr (d1, m1)" "live_op X now p m1 = Inr (d2, m)"
    using assms(4) by (auto simp: live_run_append rbind_Inr_iff split: prod.splits)
  have n: "length ([] @ written ops) < 2 ^ 32" "length (([] @ written ops) @ written [(now, p)]) < 2 ^ 32"
    using assms(3,5) by auto
  have l: "logged fs crom path ([] @ written ops) (lmWal m1) (lmFs m1)" "lastWriteTime (lmWal m1) = last_write 0 ops"
    using live_run_logged [OF r(1) st(1) n(1)] st(2) by simp_all
  note o = live_op_logged [OF l(1) n(2) r(2)]
  then have "walBuffer (lmWal m) = []" using assms(5) l(2) by auto
  moreover have "written [(now, p)] = []" using assms(5) by auto
  ultimately show ?thesis using o by (auto simp: logged_def)
qed

definition sample_copied_file :: bytes where
  "sample_copied_file = fst (Serialize (sample_copied_header (pad32 [1, 2, 3]))) @ [1, 2, 3]"

lemma sample_copied_file:
  "copied toy_ext (sample_copied_header (pad32 [1, 2, 3])) ek sample_copied_file [1, 2, 3]"
  "\<not> UsesBrainDict (sample_copied_header (pad32 [1, 2, 3]))"
  by (simp_all add: copied_def sample_copied_file_def sample_copied_header toy_ext_def)
    (simp add: sample_copied_header_def zero_header_def)

theorem writes_reach_disk_witness:
  "\<exists>m0 m lg ps. live_mount toy_ext [''f'' \<mapsto> sample_copied_file] ''f'' [] [] 1 = Inr m0 \<and>
    live_run toy_ext [(5, VWrite [1, 2] 0), (6, VRead 9 1), (2000000000, VTick)] m0 = Inr ([Inr [2, 3]], m) \<and>
    lmFs m ''f'' = Some (sample_copied_file @ lg) \<and> mutation_log lg = Some ps \<and> concat ps = [1, 2]"
proof -
  let ?fs = "[''f'' \<mapsto> sample_copied_file]" and ?ops = "[(5, VWrite [1, 2] 0), (6, VRead 9 1)]"
  have f: "?fs ''f'' = Some sample_copied_file" by simp
  obtain rr where rr: "open_mount toy_ext ?fs ''f'' [] [] 1 = Inr rr" "serves_copy toy_ext [1, 2, 3] rr"
    using open_mount_copied [where fs = ?fs, OF sample_copied_file(1) f] sample_copied_file(2) by blast
  let ?m = "\<lparr>lmReader = rr, lmWal = NewWriteAheadLog ''f'', lmFs = ?fs\<rparr>"
  have m0: "live_mount toy_ext ?fs ''f'' [] [] 1 = Inr ?m" using rr(1) by (simp add: live_mount_def)
  have "rrFile rr = sample_copied_file" using open_mount_file [OF rr(1)] by simp
  then have "reopened ?m = rr" by (simp add: reopened_def NewWriteAheadLog_def)
  then have s: "serving toy_ext [1, 2, 3] (reopened ?m)" using rr(2) by (simp add: serving_def)
  have n: "length ([] @ written (?ops @ [(2000000000, VTick)])) < 2 ^ 32" by simp
  obtain m where m: "live_run toy_ext (?ops @ [(2000000000, VTick)]) ?m =
      Inr (read_back [1, 2, 3] (?ops @ [(2000000000, VTick)]), m)"
    using live_run_serving [OF s live_mount_starts(1) [where fs = ?fs, OF m0 f] n] by blast
  have w: "length (written ?ops) < 2 ^ 32" "VTick = VFlush \<or> VTick = VTick \<and> last_write 0 ?ops + 10 ^ 9 \<le> (2000000000 :: int)"
    by simp_all
  from writes_reach_disk [where fs = ?fs, OF m0 f w(1) m w(2)] m m0 show ?thesis by fastforce
qed

text \<open>
  The same history does damage a file that holds its input as it is: after a flush of a
  non-empty buffer its body ends with the record, so the hash no longer matches and \<open>Unpack\<close>
  rejects the file, except for a collision of the hash.
\<close>

lemma mutation_breaks_copy:
  assumes "copied X h (uEncryptionKey opts) crom input" "\<not> IsEncrypted h" "\<not> IsLossy h" "Fuzziness opts = 0"
    and "fs inp = Some (AppendMutation now patch crom)" "sha256 X (input @ mutation_record now patch) \<noteq> sha256 X input"
  shows "\<exists>fs'. Unpack X rnd inp outp cbp opts fs = (Inl (GoErr ''unpack: SECURITY/INTEGRITY FAILURE''), fs')"
proof -
  obtain body where h: "wf_header h" "Version3 \<le> Version h" "Version h \<le> Version8" "ChunkCount h = 0"
      "IsEncrypted h \<longrightarrow> uEncryptionKey opts \<noteq> []" "OriginalHash h = sha256 X input"
    and b: "crom = fst (Serialize h) @ body" "body = input"
    using assms(1,2) by (auto simp: copied_def)
  let ?r = "mutation_record now patch"
  note s = stored_fields [OF h(2,3)]
  have rd: "ReadStream X (uEncryptionKey opts) (AppendMutation now patch crom) = Inr (stored_header h, [], [], input @ ?r)"
    using ReadStream_copied [OF h(1-5), of X "input @ ?r"] b by (simp add: AppendMutation_record)
  have "lossy_options (stored_header h) opts = opts" using assms(3) by (simp add: lossy_options_def s)
  then have "file_output X fs rnd cbp opts (stored_header h) [] [] (input @ ?r) None =
      (Inl (GoErr ''unpack: SECURITY/INTEGRITY FAILURE''), input @ ?r)"
    using h(4,6) assms(2,4,6) by (simp add: file_output_def s file_passthrough_def)
  then show ?thesis by (simp add: Unpack_def assms(5) rd s h(4) finish_output_def)
qed

end
