(* ===== verification/Wal_Race.thy ===== *)
theory Wal_Race
  imports Living_File
begin

text \<open>
  The flushes of \<^verbatim>\<open>internal/vfs/writer.go\<close> as they interleave: the lock covers the buffer only,
  and the commit behind it consists of several system calls on a file of its own. One flush
  at a time keeps the log exact; two that overlap lose a write.
\<close>

section \<open>Threads that flush\<close>

text \<open>
  Where a thread is in \<open>tryFlush\<close> or \<open>forceFlush\<close>: outside, with the payload it took under the
  lock, after \<open>AppendMutation\<close> sought the end of the file, after it wrote the header.
\<close>

datatype flush_phase = Outside | Taken bytes | Sought bytes nat | HeaderWritten bytes nat

record WalSystem =
  wsBuffer :: bytes
  wsFile :: bytes
  wsThreads :: "nat \<Rightarrow> flush_phase"

definition mutation_header :: "int \<Rightarrow> bytes \<Rightarrow> bytes" where
  "mutation_header now patchBytes =
     V9MutationHeader_Bytes \<lparr>mMagic = bytes_of_string ''CMUT'', mTimestamp = of_int now,
       mDiffPatchSize = of_nat (length patchBytes)\<rparr>"

definition wal_start :: "bytes \<Rightarrow> WalSystem" where
  "wal_start crom = \<lparr>wsBuffer = [], wsFile = crom, wsThreads = (\<lambda>_. Outside)\<rparr>"

text \<open>With \<open>alone\<close> a flush starts only when no other one runs.\<close>

inductive wal_step :: "bool \<Rightarrow> bytes \<Rightarrow> WalSystem \<Rightarrow> WalSystem \<Rightarrow> bool" for alone :: bool where
  append_step: "wal_step alone d s (s\<lparr>wsBuffer := wsBuffer s @ d\<rparr>)"
| take_step: "wsThreads s t = Outside \<Longrightarrow> wsBuffer s \<noteq> [] \<Longrightarrow> alone \<longrightarrow> (\<forall>u. wsThreads s u = Outside) \<Longrightarrow>
    wal_step alone [] s (s\<lparr>wsBuffer := [], wsThreads := (wsThreads s)(t := Taken (wsBuffer s))\<rparr>)"
| seek_step: "wsThreads s t = Taken p \<Longrightarrow>
    wal_step alone [] s (s\<lparr>wsThreads := (wsThreads s)(t := Sought p (length (wsFile s)))\<rparr>)"
| header_step: "wsThreads s t = Sought p pos \<Longrightarrow>
    wal_step alone [] s (s\<lparr>wsFile := overwrite pos (mutation_header now p) (wsFile s),
      wsThreads := (wsThreads s)(t := HeaderWritten p (pos + V9MutationHeaderSize))\<rparr>)"
| payload_step: "wsThreads s t = HeaderWritten p pos \<Longrightarrow>
    wal_step alone [] s (s\<lparr>wsFile := overwrite pos p (wsFile s), wsThreads := (wsThreads s)(t := Outside)\<rparr>)"

inductive wal_runs :: "bool \<Rightarrow> bytes \<Rightarrow> bytes \<Rightarrow> WalSystem \<Rightarrow> bool" for alone :: bool and crom :: bytes where
  start: "wal_runs alone crom [] (wal_start crom)"
| step: "wal_runs alone crom ws s \<Longrightarrow> wal_step alone d s s' \<Longrightarrow> wal_runs alone crom (ws @ d) s'"

text \<open>All threads are outside, or exactly one is inside, at a stage \<open>ph\<close>.\<close>

definition only :: "flush_phase \<Rightarrow> (nat \<Rightarrow> flush_phase) \<Rightarrow> bool" where
  "only ph threads \<longleftrightarrow> (\<exists>t. threads t = ph \<and> (\<forall>u. u \<noteq> t \<longrightarrow> threads u = Outside))"

lemma length_mutation_header [simp]: "length (mutation_header now p) = V9MutationHeaderSize"
  unfolding mutation_header_def by (subst mutation_layout) (simp_all add: bytes_of_string_def V9MutationHeaderSize_def)

lemma mutation_record_parts: "mutation_record now p = mutation_header now p @ p"
  by (simp add: mutation_record_def mutation_header_def)

lemma overwrite_end [simp]: "overwrite (length f) d f = f @ d"
  by (simp add: overwrite_def)

text \<open>What holds when the flushes exclude each other.\<close>

definition stage :: "bytes \<Rightarrow> bytes \<Rightarrow> flush_phase \<Rightarrow> bytes \<Rightarrow> bool" where
  "stage base f ph inside \<longleftrightarrow>
     (case ph of
        Outside \<Rightarrow> inside = [] \<and> f = base
      | Taken p \<Rightarrow> inside = p \<and> f = base
      | Sought p pos \<Rightarrow> inside = p \<and> f = base \<and> pos = length f
      | HeaderWritten p pos \<Rightarrow> inside = p \<and> pos = length f \<and> (\<exists>now. f = base @ mutation_header now p))"

definition wal_exact :: "bytes \<Rightarrow> bytes \<Rightarrow> WalSystem \<Rightarrow> bool" where
  "wal_exact crom ws s \<longleftrightarrow>
     (\<exists>ph lg ps inside. only ph (wsThreads s) \<and> stage (crom @ lg) (wsFile s) ph inside \<and>
        mutation_log lg = Some ps \<and> concat ps @ inside @ wsBuffer s = ws)"

lemma wal_exactI:
  "only ph (wsThreads s) \<Longrightarrow> stage (crom @ lg) (wsFile s) ph inside \<Longrightarrow> mutation_log lg = Some ps \<Longrightarrow>
   concat ps @ inside @ wsBuffer s = ws \<Longrightarrow> wal_exact crom ws s"
  unfolding wal_exact_def by blast

lemma only_phase: "only ph threads \<Longrightarrow> threads t \<noteq> Outside \<Longrightarrow> ph = threads t \<and> (\<forall>u. u \<noteq> t \<longrightarrow> threads u = Outside)"
  unfolding only_def by metis

lemma only_upd: "\<forall>u. u \<noteq> t \<longrightarrow> threads u = Outside \<Longrightarrow> only ph (threads(t := ph))"
  by (auto simp: only_def)

lemma wal_exact_step:
  assumes "wal_step True d s s'" "wal_exact crom ws s" "length (ws @ d) < 2 ^ 32"
  shows "wal_exact crom (ws @ d) s'"
proof -
  obtain ph lg ps inside where o: "only ph (wsThreads s)" "mutation_log lg = Some ps" "concat ps @ inside @ wsBuffer s = ws"
    and c: "stage (crom @ lg) (wsFile s) ph inside"
    using assms(2) unfolding wal_exact_def by blast
  have at: "ph = wsThreads s t \<and> (\<forall>u. u \<noteq> t \<longrightarrow> wsThreads s u = Outside)" if "wsThreads s t \<noteq> Outside" for t
    using only_phase [OF o(1) that] .
  from assms(1) show ?thesis
  proof cases
    case append_step
    with o c show ?thesis by (intro wal_exactI [of ph _ _ lg inside ps]) auto
  next
    case (take_step t)
    then have "ph = Outside" using o(1) by (auto simp: only_def)
    with take_step o c show ?thesis
      by (intro wal_exactI [of "Taken (wsBuffer s)" _ _ lg "wsBuffer s" ps]) (auto simp: stage_def intro: only_upd)
  next
    case (seek_step t p)
    with at [of t] o c show ?thesis
      by (intro wal_exactI [of "Sought p (length (wsFile s))" _ _ lg p ps]) (auto simp: stage_def intro: only_upd)
  next
    case (header_step t p pos now)
    with at [of t] o c show ?thesis
      by (intro wal_exactI [of "HeaderWritten p (pos + V9MutationHeaderSize)" _ _ lg p ps])
        (auto simp: stage_def overwrite_def intro: only_upd)
  next
    case (payload_step t p pos)
    with at [of t] c obtain now where f: "inside = p" "pos = length (wsFile s)" "wsFile s = crom @ lg @ mutation_header now p"
      "\<forall>u. u \<noteq> t \<longrightarrow> wsThreads s u = Outside"
      by (auto simp: stage_def)
    have "length p < 2 ^ 32" using o(3) f(1) assms(3) by auto
    then have "mutation_log (lg @ mutation_record now p) = Some (ps @ [p])"
      using mutation_log_append [OF o(2), of "mutation_record now p"] mutation_log_record [of p now "[]"] by simp
    moreover have "overwrite pos p (wsFile s) = crom @ lg @ mutation_record now p"
      unfolding f(2) overwrite_end by (simp add: f(3) mutation_record_parts)
    ultimately show ?thesis
      using payload_step o(3) f(1) only_upd [OF f(4), of Outside]
      by (intro wal_exactI [of Outside _ _ "lg @ mutation_record now p" "[]" "ps @ [p]"]) (auto simp: stage_def)
  qed
qed

text \<open>The steps as functions, to run a schedule.\<close>

datatype wal_action = DoAppend bytes | DoTake nat | DoSeek nat | DoHeader nat int | DoPayload nat

fun act :: "wal_action \<Rightarrow> WalSystem \<Rightarrow> (bytes \<times> WalSystem) option" where
  "act (DoAppend d) s = Some (d, s\<lparr>wsBuffer := wsBuffer s @ d\<rparr>)"
| "act (DoTake t) s =
     (if wsThreads s t = Outside \<and> wsBuffer s \<noteq> []
      then Some ([], s\<lparr>wsBuffer := [], wsThreads := (wsThreads s)(t := Taken (wsBuffer s))\<rparr>) else None)"
| "act (DoSeek t) s =
     (case wsThreads s t of
        Taken p \<Rightarrow> Some ([], s\<lparr>wsThreads := (wsThreads s)(t := Sought p (length (wsFile s)))\<rparr>) | _ \<Rightarrow> None)"
| "act (DoHeader t now) s =
     (case wsThreads s t of
        Sought p pos \<Rightarrow> Some ([], s\<lparr>wsFile := overwrite pos (mutation_header now p) (wsFile s),
          wsThreads := (wsThreads s)(t := HeaderWritten p (pos + V9MutationHeaderSize))\<rparr>) | _ \<Rightarrow> None)"
| "act (DoPayload t) s =
     (case wsThreads s t of
        HeaderWritten p pos \<Rightarrow> Some ([], s\<lparr>wsFile := overwrite pos p (wsFile s), wsThreads := (wsThreads s)(t := Outside)\<rparr>)
      | _ \<Rightarrow> None)"

fun acts :: "wal_action list \<Rightarrow> bytes \<times> WalSystem \<Rightarrow> (bytes \<times> WalSystem) option" where
  "acts [] r = Some r"
| "acts (a # as) r = (case act a (snd r) of None \<Rightarrow> None | Some (d, s) \<Rightarrow> acts as (fst r @ d, s))"

lemma act_step: "act a s = Some (d, s') \<Longrightarrow> wal_step False d s s'"
  by (cases a) (auto intro: wal_step.intros split: if_splits flush_phase.splits)

lemma acts_runs: "wal_runs False crom (fst r) (snd r) \<Longrightarrow> acts as r = Some r' \<Longrightarrow> wal_runs False crom (fst r') (snd r')"
  by (induction as r rule: acts.induct) (auto split: option.splits dest!: act_step dest: wal_runs.step)

section \<open>Properties\<close>

text \<open>
  C19. Flushes that exclude each other keep the log exact in every reachable state, whatever
  appends interleave with their system calls: once no flush is running, the payloads of the
  log and then the buffer are what was written, in order, as long as less than 4 GiB are written.
\<close>

theorem wal_serial_exact:
  assumes "wal_runs True crom ws s" "length ws < 2 ^ 32"
  shows "(\<exists>t. wsThreads s t \<noteq> Outside) \<or>
    (\<exists>lg ps. wsFile s = crom @ lg \<and> mutation_log lg = Some ps \<and> concat ps @ wsBuffer s = ws)"
proof -
  have "length ws < 2 ^ 32 \<Longrightarrow> wal_exact crom ws s" using assms(1)
  proof (induction rule: wal_runs.induct)
    case start
    show ?case
      by (rule wal_exactI [of Outside _ _ "[]" "[]" "[]"]) (simp_all add: wal_start_def stage_def only_def)
  next
    case (step ws s d s')
    then show ?case using wal_exact_step by auto
  qed
  then obtain ph lg ps inside where e: "only ph (wsThreads s)" "stage (crom @ lg) (wsFile s) ph inside"
    "mutation_log lg = Some ps" "concat ps @ inside @ wsBuffer s = ws"
    using assms(2) unfolding wal_exact_def by blast
  show ?thesis
  proof (cases "ph = Outside")
    case True
    with e show ?thesis by (auto simp: stage_def)
  next
    case False
    with e(1) show ?thesis by (auto simp: only_def)
  qed
qed

theorem wal_serial_exact_witness:
  "\<exists>s. wal_runs True [7] [1, 2] s \<and> (\<exists>lg ps. wsFile s = [7] @ lg \<and> mutation_log lg = Some ps \<and> concat ps @ wsBuffer s = [1, 2])"
proof -
  let ?s1 = "(wal_start [7])\<lparr>wsBuffer := [1, 2]\<rparr>"
  have s1: "wal_runs True [7] [1, 2] ?s1"
    using wal_runs.step [OF wal_runs.start wal_step.append_step, of True "[7]" "[1, 2]"] by (simp add: wal_start_def)
  have "length [1, 2 :: byte] < 2 ^ 32" by simp
  from wal_serial_exact [OF s1 this] s1 show ?thesis by (auto simp: wal_start_def)
qed

text \<open>
  C20. Without that exclusion, which the code does not enforce, a write is lost: two flushes
  seek the same end of the file and the second record replaces the first. All threads are
  done and the buffer is empty, but the log holds only one of the two writes.
\<close>

theorem wal_race_loses_write:
  "\<exists>s. wal_runs False crom [1, 2] s \<and> (\<forall>t. wsThreads s t = Outside) \<and> wsBuffer s = [] \<and>
     wsFile s = crom @ mutation_record 0 [2]"
proof -
  let ?as = "[DoAppend [1], DoTake 0, DoAppend [2], DoTake 1, DoSeek 0, DoSeek 1,
    DoHeader 0 0, DoPayload 0, DoHeader 1 0, DoPayload 1]"
  have "acts ?as ([], wal_start crom) =
      Some ([1, 2], (wal_start crom)\<lparr>wsFile := crom @ mutation_record 0 [2], wsThreads := (\<lambda>_. Outside)\<rparr>)"
    by (simp add: wal_start_def overwrite_def mutation_record_parts fun_eq_iff)
  from acts_runs [OF _ this] wal_runs.start [of False crom]
  have "wal_runs False crom [1, 2] ((wal_start crom)\<lparr>wsFile := crom @ mutation_record 0 [2], wsThreads := (\<lambda>_. Outside)\<rparr>)"
    by simp
  then show ?thesis by (intro exI conjI, assumption) (simp_all add: wal_start_def)
qed

end
