(* ===== verification/Trainer_Table.thy ===== *)
theory Trainer_Table
  imports Chunker "HOL-Library.AList" "HOL-Library.Multiset"
begin

text \<open>
  \<^verbatim>\<open>frequency.go\<close>, \<^verbatim>\<open>selector.go\<close> and \<^verbatim>\<open>augmentation.go\<close> of \<^verbatim>\<open>internal/trainer\<close>: counting the
  chunks of a corpus, adding perturbed copies of frequent ones, and choosing the patterns of
  a codebook. Recording is shown not to depend on the order in which workers report, and the
  choice to be the greedy one under its two limits.

  The table is an association list; the order in which the code iterates its map is an
  argument \<open>order\<close>. A sort that is not stable is the stable sort of the list in that order:
  every result the unstable one may have arises from some order.
\<close>

section \<open>The frequency table\<close>

record PatternEntry =
  peHash :: u64
  peCount :: u32
  peData :: "bytes option"
  peFirst :: u64
  peBucket :: u16

type_synonym FrequencyTable = "(u64 \<times> PatternEntry) list"

definition NewFrequencyTable :: FrequencyTable where
  "NewFrequencyTable = []"

definition computeLSHBucket :: "bytes \<Rightarrow> u16" where
  "computeLSHBucket data =
     (if 2 \<le> length data then ucast (data ! 0) OR push_bit 8 (ucast (data ! 1)) else 0)"

definition RecordWithCount :: "(bytes \<Rightarrow> u64) \<Rightarrow> bytes \<Rightarrow> u32 \<Rightarrow> FrequencyTable \<Rightarrow> FrequencyTable" where
  "RecordWithCount xx data n ft =
     (let h = xx data in
      case map_of ft h of
        Some entry \<Rightarrow> AList.update h (entry\<lparr>peCount := peCount entry + n\<rparr>) ft
      | None \<Rightarrow> AList.update h \<lparr>peHash = h, peCount = n, peData = Some data, peFirst = 0, peBucket = 0\<rparr> ft)"

definition Record :: "(bytes \<Rightarrow> u64) \<Rightarrow> bytes \<Rightarrow> FrequencyTable \<Rightarrow> FrequencyTable" where
  "Record xx data ft =
     (let h = xx data in
      case map_of ft h of
        Some entry \<Rightarrow> AList.update h (entry\<lparr>peCount := peCount entry + 1\<rparr>) ft
      | None \<Rightarrow> AList.update h \<lparr>peHash = h, peCount = 1, peData = Some data, peFirst = 0, peBucket = 0\<rparr> ft)"

definition RecordAt :: "(bytes \<Rightarrow> u64) \<Rightarrow> bytes \<Rightarrow> u64 \<Rightarrow> FrequencyTable \<Rightarrow> FrequencyTable" where
  "RecordAt xx data pos ft =
     (let h = xx data in
      case map_of ft h of
        Some entry \<Rightarrow>
          AList.update h (entry\<lparr>peCount := peCount entry + 1,
            peFirst := (if pos < peFirst entry then pos else peFirst entry)\<rparr>) ft
      | None \<Rightarrow>
          AList.update h \<lparr>peHash = h, peCount = 1, peData = None, peFirst = pos, peBucket = computeLSHBucket data\<rparr> ft)"

definition ft_Len :: "FrequencyTable \<Rightarrow> nat" where
  "ft_Len ft = length ft"

type_synonym table_order = "PatternEntry list \<Rightarrow> PatternEntry list"

definition ft_All :: "table_order \<Rightarrow> FrequencyTable \<Rightarrow> PatternEntry list" where
  "ft_All order ft = order (map snd ft)"

definition by_count :: "PatternEntry list \<Rightarrow> PatternEntry list" where
  "by_count es = sort_key (\<lambda>e. 2 ^ 32 - unat (peCount e)) es"

section \<open>Selection\<close>

definition entry_bucket :: "PatternEntry \<Rightarrow> u16" where
  "entry_bucket entry = (case peData entry of Some d \<Rightarrow> computeLSHBucket d | None \<Rightarrow> peBucket entry)"

fun pick_loop :: "int \<Rightarrow> int \<Rightarrow> (u16 \<Rightarrow> nat) \<Rightarrow> PatternEntry list \<Rightarrow> PatternEntry list \<Rightarrow> PatternEntry list" where
  "pick_loop maxCodewords maxPerBucket bucketCount picked [] = picked"
| "pick_loop maxCodewords maxPerBucket bucketCount picked (entry # es) =
     (if maxCodewords \<le> int (length picked) then picked
      else
        (let bucket = entry_bucket entry in
         if maxPerBucket \<le> int (bucketCount bucket) then pick_loop maxCodewords maxPerBucket bucketCount picked es
         else pick_loop maxCodewords maxPerBucket (bucketCount(bucket := bucketCount bucket + 1)) (picked @ [entry]) es))"

definition selectPicked :: "table_order \<Rightarrow> FrequencyTable \<Rightarrow> int \<Rightarrow> int \<Rightarrow> PatternEntry list res" where
  "selectPicked order ft maxCodewords maxPerBucket =
     (let all = by_count (ft_All order ft);
          maxPerBucket = (if maxPerBucket \<le> 0 then maxCodewords else maxPerBucket)
      in if maxCodewords < 0 then Inl GoPanic
         else Inr (sort_key (\<lambda>e. unat (peFirst e)) (pick_loop maxCodewords maxPerBucket (\<lambda>_. 0) [] all)))"

text \<open>An entry without bytes counts as an empty pattern.\<close>

definition SelectElite :: "table_order \<Rightarrow> FrequencyTable \<Rightarrow> int \<Rightarrow> int \<Rightarrow> bytes list res" where
  "SelectElite order ft maxCodewords maxPerBucket =
     rbind (selectPicked order ft maxCodewords maxPerBucket) (\<lambda>picked.
       Inr (map (\<lambda>e. case peData e of Some d \<Rightarrow> d | None \<Rightarrow> []) picked))"

section \<open>Augmentation\<close>

definition shift_left :: "bytes \<Rightarrow> bytes" where
  "shift_left d = drop 1 d @ [0]"

definition shift_right :: "bytes \<Rightarrow> bytes" where
  "shift_right d = 0 # take (length d - 1) d"

definition rotate_left :: "bytes \<Rightarrow> bytes" where
  "rotate_left d = drop 1 d @ [d ! 0]"

text \<open>
  The sorted list holds pointers into the table: an entry whose count a previous step raised is
  seen with the raised count. Slicing an empty pattern from 1 panics.
\<close>

fun augment_loop :: "(bytes \<Rightarrow> u64) \<Rightarrow> u64 list \<Rightarrow> FrequencyTable \<Rightarrow> FrequencyTable res" where
  "augment_loop xx [] ft = Inr ft"
| "augment_loop xx (h # hs) ft =
     (case map_of ft h of
        None \<Rightarrow> Inl GoPanic
      | Some entry \<Rightarrow>
          if peCount entry \<le> 1 then augment_loop xx hs ft
          else
            (let baseData = (case peData entry of Some d \<Rightarrow> d | None \<Rightarrow> []);
                 augCount = (if peCount entry div 2 = 0 then 1 else peCount entry div 2)
             in if baseData = [] then Inl GoPanic
                else augment_loop xx hs
                  (RecordWithCount xx (rotate_left baseData) augCount
                    (RecordWithCount xx (shift_right baseData) augCount
                      (RecordWithCount xx (shift_left baseData) augCount ft)))))"

definition AugmentPatterns :: "(bytes \<Rightarrow> u64) \<Rightarrow> table_order \<Rightarrow> nat \<Rightarrow> FrequencyTable \<Rightarrow> FrequencyTable res" where
  "AugmentPatterns xx order limit ft =
     (let all = by_count (ft_All order ft);
          limit = (if length all < limit then length all else limit)
      in augment_loop xx (map peHash (take limit all)) ft)"

section \<open>The table is keyed by hash\<close>

definition ft_ok :: "FrequencyTable \<Rightarrow> bool" where
  "ft_ok ft \<longleftrightarrow> distinct (map fst ft) \<and> (\<forall>(h, e) \<in> set ft. peHash e = h)"

lemma ft_ok_update: "ft_ok ft \<Longrightarrow> peHash e = h \<Longrightarrow> ft_ok (AList.update h e ft)"
proof -
  assume "ft_ok ft" "peHash e = h"
  moreover have "set (AList.update h e ft) \<subseteq> insert (h, e) (set ft)"
    by (induction ft) auto
  ultimately show ?thesis by (auto simp: ft_ok_def distinct_update)
qed

lemma ft_ok_map_of: "ft_ok ft \<Longrightarrow> map_of ft h = Some e \<Longrightarrow> peHash e = h"
  by (auto simp: ft_ok_def dest!: map_of_SomeD)

lemma ft_ok_records [simp]:
  "ft_ok NewFrequencyTable"
  "ft_ok ft \<Longrightarrow> ft_ok (Record xx d ft)"
  "ft_ok ft \<Longrightarrow> ft_ok (RecordAt xx d p ft)"
  "ft_ok ft \<Longrightarrow> ft_ok (RecordWithCount xx d c ft)"
  by (auto simp: NewFrequencyTable_def ft_ok_def [of "[]"] Record_def RecordAt_def RecordWithCount_def Let_def
      intro!: ft_ok_update dest: ft_ok_map_of split: option.split)

text \<open>What the order of a map iteration may be.\<close>

definition order_ok :: "table_order \<Rightarrow> bool" where
  "order_ok order \<longleftrightarrow> (\<forall>es. mset (order es) = mset es)"

lemma order_ok_set: "order_ok order \<Longrightarrow> set (ft_All order ft) = snd ` set ft"
  by (metis ft_All_def order_ok_def set_map set_mset_mset)

section \<open>The choice is greedy\<close>

text \<open>
  An entry is crowded out when enough entries of its bucket that are at least as frequent
  were chosen.
\<close>

definition in_bucket :: "u16 \<Rightarrow> PatternEntry list \<Rightarrow> PatternEntry list" where
  "in_bucket b es = filter (\<lambda>e. entry_bucket e = b) es"

definition crowded_out :: "int \<Rightarrow> PatternEntry list \<Rightarrow> PatternEntry \<Rightarrow> bool" where
  "crowded_out maxPerBucket picked e \<longleftrightarrow>
     maxPerBucket \<le> int (length (filter (\<lambda>p. peCount e \<le> peCount p) (in_bucket (entry_bucket e) picked)))"

definition greedy_choice :: "int \<Rightarrow> int \<Rightarrow> PatternEntry set \<Rightarrow> PatternEntry list \<Rightarrow> bool" where
  "greedy_choice maxCodewords maxPerBucket all picked \<longleftrightarrow>
     distinct picked \<and> set picked \<subseteq> all \<and> int (length picked) \<le> maxCodewords \<and>
     (\<forall>b. int (length (in_bucket b picked)) \<le> maxPerBucket) \<and>
     (\<forall>e \<in> all - set picked. crowded_out maxPerBucket picked e \<or>
        int (length picked) = maxCodewords \<and> (\<forall>p \<in> set picked. peCount e \<le> peCount p))"

lemma crowded_out_snoc: "crowded_out m picked e \<Longrightarrow> crowded_out m (picked @ [p]) e"
  by (auto simp: crowded_out_def in_bucket_def)

lemma pick_loop_greedy:
  assumes "sorted_wrt (\<lambda>a b. peCount b \<le> peCount a) (seen @ es)" "distinct (seen @ es)"
    and "\<forall>b. bucketCount b = length (in_bucket b picked)" "greedy_choice maxCodewords maxPerBucket (set seen) picked"
    and "\<forall>e \<in> set seen - set picked. crowded_out maxPerBucket picked e"
  shows "greedy_choice maxCodewords maxPerBucket (set (seen @ es)) (pick_loop maxCodewords maxPerBucket bucketCount picked es)"
  using assms
proof (induction maxCodewords maxPerBucket bucketCount picked es arbitrary: seen rule: pick_loop.induct)
  case (2 maxCodewords maxPerBucket bucketCount picked entry es)
  note g = 2(6) [unfolded greedy_choice_def]
  have upto: "\<forall>p \<in> set seen. peCount entry \<le> peCount p" "\<forall>e \<in> set es. peCount e \<le> peCount entry"
    "\<forall>p \<in> set seen. \<forall>e \<in> set es. peCount e \<le> peCount p"
    using 2(3) by (auto simp: sorted_wrt_append)
  have new: "entry \<notin> set seen" "entry \<notin> set picked" using 2(4) g by auto
  consider (full) "maxCodewords \<le> int (length picked)"
    | (crowded) "\<not> maxCodewords \<le> int (length picked)" "maxPerBucket \<le> int (bucketCount (entry_bucket entry))"
    | (pick) "\<not> maxCodewords \<le> int (length picked)" "\<not> maxPerBucket \<le> int (bucketCount (entry_bucket entry))"
    by blast
  then show ?case
  proof cases
    case full
    with g have "int (length picked) = maxCodewords" by simp
    with g upto 2(7) full show ?thesis by (auto simp: greedy_choice_def)
  next
    case crowded
    have "filter (\<lambda>p. peCount entry \<le> peCount p) (in_bucket (entry_bucket entry) picked) = in_bucket (entry_bucket entry) picked"
      unfolding in_bucket_def filter_filter by (rule filter_cong) (use g upto(1) in auto)
    then have c: "crowded_out maxPerBucket picked entry" using crowded(2) 2(5) by (simp add: crowded_out_def)
    have "greedy_choice maxCodewords maxPerBucket (set (seen @ [entry])) picked"
      using g c by (auto simp: greedy_choice_def)
    from 2(1) [OF crowded(1) refl crowded(2) _ _ 2(5) this] 2(3,4,7) c crowded show ?thesis by auto
  next
    case pick
    let ?picked = "picked @ [entry]"
    have cnt: "\<forall>b. (bucketCount(entry_bucket entry := bucketCount (entry_bucket entry) + 1)) b = length (in_bucket b ?picked)"
      using 2(5) by (simp add: in_bucket_def)
    have c: "\<forall>e \<in> set (seen @ [entry]) - set ?picked. crowded_out maxPerBucket ?picked e"
      using 2(7) crowded_out_snoc by auto
    have "greedy_choice maxCodewords maxPerBucket (set (seen @ [entry])) ?picked"
      unfolding greedy_choice_def
    proof (intro conjI allI)
      show "int (length (in_bucket b ?picked)) \<le> maxPerBucket" for b
        using g pick(2) 2(5) by (auto simp: in_bucket_def)
    qed (use g new pick(1) c in auto)
    from 2(2) [OF pick(1) refl pick(2) _ _ cnt this c] 2(3,4) pick show ?thesis by (auto simp: Let_def fun_upd_def)
  qed
qed simp

lemma by_count_descending: "sorted_wrt (\<lambda>a b. peCount b \<le> peCount a) (by_count es)"
proof -
  have "sorted (map (\<lambda>e. 2 ^ 32 - unat (peCount e)) (by_count es))" by (simp add: by_count_def)
  then have srt: "sorted_wrt (\<lambda>a b. 2 ^ 32 - unat (peCount a) \<le> 2 ^ 32 - unat (peCount b)) (by_count es)"
    by (simp only: sorted_map)
  have "peCount b \<le> peCount a" if "2 ^ 32 - unat (peCount a) \<le> 2 ^ 32 - unat (peCount b)" for a b
  proof -
    have "unat (peCount a) < 2 ^ 32" "unat (peCount b) < 2 ^ 32" using unat_lt [where 'a = 32] by simp_all
    with that show ?thesis unfolding word_le_nat_alt by linarith
  qed
  then show ?thesis by (rule sorted_wrt_mono_rel [OF _ srt])
qed

lemma ft_ok_distinct: "ft_ok ft \<Longrightarrow> distinct (map snd ft)"
proof -
  assume ok: "ft_ok ft"
  then have "map fst ft = map (peHash \<circ> snd) ft" by (auto simp: ft_ok_def)
  with ok show ?thesis by (metis distinct_map ft_ok_def map_map)
qed

lemma by_count_All:
  assumes "order_ok order" "ft_ok ft"
  shows "distinct (by_count (ft_All order ft))" "set (by_count (ft_All order ft)) = snd ` set ft"
proof -
  have "mset (ft_All order ft) = mset (map snd ft)" using assms(1) by (simp add: ft_All_def order_ok_def)
  then have "distinct (ft_All order ft)" using ft_ok_distinct [OF assms(2)] by (metis mset_eq_imp_distinct_iff)
  then show "distinct (by_count (ft_All order ft))" by (simp add: by_count_def)
  show "set (by_count (ft_All order ft)) = snd ` set ft" by (simp add: by_count_def order_ok_set [OF assms(1)])
qed

section \<open>Recording commutes\<close>

text \<open>What the workers do with the chunks they cut.\<close>

definition record_all :: "(bytes \<Rightarrow> u64) \<Rightarrow> (bytes \<times> u64) list \<Rightarrow> FrequencyTable" where
  "record_all xx rs = fold (\<lambda>(d, p). RecordAt xx d p) rs NewFrequencyTable"

definition record_summary :: "(bytes \<Rightarrow> u64) \<Rightarrow> (bytes \<times> u64) list \<Rightarrow> u64 \<Rightarrow> PatternEntry option" where
  "record_summary xx rs h =
     (case filter (\<lambda>r. xx (fst r) = h) rs of
        [] \<Rightarrow> None
      | r # rs' \<Rightarrow> Some \<lparr>peHash = h, peCount = of_nat (length (r # rs')), peData = None,
                      peFirst = Min (snd ` set (r # rs')), peBucket = computeLSHBucket (fst r)\<rparr>)"

lemma record_all_summary: "map_of (record_all xx rs) h = record_summary xx rs h"
proof (induction rs arbitrary: h rule: rev_induct)
  case Nil
  show ?case by (simp add: record_all_def record_summary_def NewFrequencyTable_def)
next
  case (snoc r rs)
  obtain d p where r: "r = (d, p)" by fastforce
  let ?ft = "record_all xx rs"
  have step: "record_all xx (rs @ [(d, p)]) = RecordAt xx d p ?ft" by (simp add: record_all_def)
  show ?case
  proof (cases "xx d = h")
    case False
    then have "map_of (RecordAt xx d p ?ft) h = map_of ?ft h"
      by (simp add: RecordAt_def Let_def update_conv' split: option.split)
    with False snoc show ?thesis by (simp add: step record_summary_def r)
  next
    case True
    show ?thesis
    proof (cases "filter (\<lambda>r. xx (fst r) = h) rs")
      case Nil
      then have "map_of ?ft h = None" using snoc by (simp add: record_summary_def)
      with True Nil show ?thesis by (simp add: step r RecordAt_def Let_def update_conv' record_summary_def)
    next
      case (Cons q qs)
      define m where "m = Min (snd ` set (q # qs))"
      have e: "map_of ?ft h = Some \<lparr>peHash = h, peCount = of_nat (length (q # qs)), peData = None,
          peFirst = m, peBucket = computeLSHBucket (fst q)\<rparr>"
        using snoc Cons by (simp add: record_summary_def m_def)
      have "snd ` set (q # qs @ [(d, p)]) = insert p (snd ` set (q # qs))" by auto
      then have "Min (snd ` set (q # qs @ [(d, p)])) = min p m"
        unfolding m_def by (simp only: Min_insert finite_imageI finite_set image_is_empty set_empty list.distinct not_False_eq_True)
      also have "\<dots> = (if p < m then p else m)" by (auto simp: min_def)
      finally have "record_summary xx (rs @ [(d, p)]) h = Some \<lparr>peHash = h, peCount = of_nat (length (q # qs) + 1), peData = None,
          peFirst = (if p < m then p else m), peBucket = computeLSHBucket (fst q)\<rparr>"
        unfolding record_summary_def using True Cons by simp
      moreover have "map_of (RecordAt xx d p ?ft) h = Some \<lparr>peHash = h, peCount = of_nat (length (q # qs) + 1), peData = None,
          peFirst = (if p < m then p else m), peBucket = computeLSHBucket (fst q)\<rparr>"
        using True e by (simp add: RecordAt_def Let_def update_conv' add.commute)
      ultimately show ?thesis by (simp only: step r)
    qed
  qed
qed

lemma selectPicked_greedy:
  assumes "order_ok order" "ft_ok ft" "0 \<le> maxCodewords"
  shows "\<exists>picked. selectPicked order ft maxCodewords maxPerBucket = Inr picked \<and>
    greedy_choice maxCodewords (if maxPerBucket \<le> 0 then maxCodewords else maxPerBucket) (snd ` set ft) picked \<and>
    sorted (map (\<lambda>e. unat (peFirst e)) picked)"
proof -
  let ?m = "if maxPerBucket \<le> 0 then maxCodewords else maxPerBucket" and ?all = "by_count (ft_All order ft)"
  let ?p = "pick_loop maxCodewords ?m (\<lambda>_. 0) [] ?all"
  note all = by_count_All [OF assms(1,2)]
  have "greedy_choice maxCodewords ?m (set ([] @ ?all)) ?p"
    by (rule pick_loop_greedy)
      (use by_count_descending all(1) assms(3) in \<open>simp_all add: greedy_choice_def in_bucket_def\<close>)
  moreover have "mset (sort_key f ?p) = mset ?p" for f :: "PatternEntry \<Rightarrow> nat" by simp
  then have "length (filter P (sort_key f ?p)) = length (filter P ?p)" for P and f :: "PatternEntry \<Rightarrow> nat"
    by (metis mset_filter size_mset)
  ultimately have "greedy_choice maxCodewords ?m (snd ` set ft) (sort_key (\<lambda>e. unat (peFirst e)) ?p)"
    using all(2) by (simp add: greedy_choice_def crowded_out_def in_bucket_def filter_filter)
  then show ?thesis using assms(3) by (simp add: selectPicked_def Let_def)
qed

section \<open>Properties\<close>

definition sample_records :: "(bytes \<times> u64) list" where
  "sample_records = [([1, 2], 0), ([3, 4], 2), ([1, 2], 4), ([5, 6], 6)]"

definition sample_hash :: "bytes \<Rightarrow> u64" where
  "sample_hash d = ucast (d ! 0)"

lemma ft_ok_record_all: "ft_ok (record_all xx rs)"
proof -
  have "ft_ok ft \<Longrightarrow> ft_ok (fold (\<lambda>(d, p). RecordAt xx d p) rs ft)" for ft
    by (induction rs arbitrary: ft) (auto split: prod.splits)
  then show ?thesis by (simp add: record_all_def)
qed

text \<open>
  The workers of the trainer may report the chunks of the corpus in any order: the table has
  the same counts, first positions and buckets, as long as no two patterns share a hash.
\<close>

lemma recording_order_irrelevant:
  assumes "inj_on xx (fst ` set rs)" "mset rs' = mset rs"
  shows "map_of (record_all xx rs') = map_of (record_all xx rs)"
proof
  fix h
  let ?f = "filter (\<lambda>r. xx (fst r) = h)"
  have m: "mset (?f rs') = mset (?f rs)" using assms(2) by simp
  then have s: "set (?f rs') = set (?f rs)" "length (?f rs') = length (?f rs)"
    by (metis set_mset_mset, metis size_mset)
  show "map_of (record_all xx rs') h = map_of (record_all xx rs) h"
  proof (cases "?f rs")
    case Nil
    then have "?f rs' = []" using s(2) by simp
    with Nil show ?thesis by (simp add: record_all_summary record_summary_def)
  next
    case (Cons r qs)
    then obtain r' qs' where c: "?f rs' = r' # qs'" using s(2) by (cases "?f rs'") auto
    have "r \<in> set (?f rs)" "r' \<in> set (?f rs)" using Cons c s(1) by auto
    then have "fst r' = fst r" using assms(1) by (auto simp: inj_on_def)
    moreover have "set (r' # qs') = set (r # qs)" "length (r' # qs') = length (r # qs)" using s Cons c by simp_all
    ultimately show ?thesis
      unfolding record_all_summary record_summary_def Cons c list.case by simp
  qed
qed

end
