(* ===== verification/Bpe.thy ===== *)
theory Bpe
  imports Crom_Prelude "HOL-Library.AList" "HOL-Library.Multiset" "HOL-Library.Sublist"
begin

text \<open>
  \<^verbatim>\<open>internal/trainer/bpe.go\<close>: byte-pair encoding. The vocabulary, a map whose keys are 0, 1, 2
  and so on, is a list. Every round merges a most frequent pair of adjacent tokens; which one
  of several depends on the iteration of a map, which is an argument. The tokens spell the
  corpus in every round, so every token that is learned occurs in it.
\<close>

section \<open>The builder\<close>

record BPEBuilder =
  vocab :: "bytes list"
  bpeMaxLen :: int
  bpeMaxTokens :: int

definition NewBPEBuilder :: "int \<Rightarrow> int \<Rightarrow> BPEBuilder" where
  "NewBPEBuilder maxTokens maxLen =
     \<lparr>vocab = map (\<lambda>i. [of_nat i]) [0..<256], bpeMaxLen = maxLen, bpeMaxTokens = maxTokens\<rparr>"

definition token_bytes :: "bytes list \<Rightarrow> u32 \<Rightarrow> bytes" where
  "token_bytes v t = (if unat t < length v then v ! unat t else [])"

type_synonym pair_counts = "((u32 \<times> u32) \<times> nat) list"

fun count_pairs :: "u32 list \<Rightarrow> pair_counts \<Rightarrow> pair_counts" where
  "count_pairs (a # b # ts) cs =
     count_pairs (b # ts) (AList.update (a, b) (case map_of cs (a, b) of None \<Rightarrow> 1 | Some n \<Rightarrow> n + 1) cs)"
| "count_pairs _ cs = cs"

fun best_pair :: "bytes list \<Rightarrow> int \<Rightarrow> pair_counts \<Rightarrow> (u32 \<times> u32) \<times> int \<Rightarrow> (u32 \<times> u32) \<times> int" where
  "best_pair v maxLen [] best = best"
| "best_pair v maxLen ((p, cnt) # cs) best =
     (if maxLen < int (length (token_bytes v (fst p)) + length (token_bytes v (snd p))) then best_pair v maxLen cs best
      else if snd best < int cnt then best_pair v maxLen cs (p, int cnt)
      else best_pair v maxLen cs best)"

fun merge_pair :: "u32 \<Rightarrow> u32 \<Rightarrow> u32 \<Rightarrow> u32 list \<Rightarrow> u32 list" where
  "merge_pair a b new (x # y # ts) =
     (if x = a \<and> y = b then new # merge_pair a b new ts else x # merge_pair a b new (y # ts))"
| "merge_pair a b new ts = ts"

text \<open>The loop, with the tokens it ends with.\<close>

text \<open>
  The vocabulary is the list of its tokens in the order of their identifiers: the 256 bytes are
  there from the start, and a training assigns from 256 on, over what an earlier one left there.
\<close>

definition put_token :: "bytes list \<Rightarrow> u32 \<Rightarrow> bytes \<Rightarrow> bytes list" where
  "put_token v t bs = (if unat t < length v then v[unat t := bs] else v @ [bs])"

function bpe_loop ::
  "(pair_counts \<Rightarrow> pair_counts) \<Rightarrow> int \<Rightarrow> u32 \<Rightarrow> u32 \<Rightarrow> bytes list \<Rightarrow> u32 list \<Rightarrow> bytes list \<times> u32 list" where
  "bpe_loop order maxLen maxTokens nextTokenID v tokens =
     (if nextTokenID < maxTokens \<and> 2 \<le> length tokens then
        (let ((a, b), bestCount) = best_pair v maxLen (order (count_pairs tokens [])) ((0, 0), - 1) in
         if bestCount < 2 then (v, tokens)
         else bpe_loop order maxLen maxTokens (nextTokenID + 1) (put_token v nextTokenID (token_bytes v a @ token_bytes v b))
                (merge_pair a b nextTokenID tokens))
      else (v, tokens))"
  by pat_completeness auto
termination
proof (relation "measure (\<lambda>(order, maxLen, maxTokens, next, v, tokens). unat maxTokens - unat next)", goal_cases)
  case (2 order maxLen maxTokens nextTokenID v tokens best bestCount p a b)
  then have "nextTokenID < maxTokens" by simp
  then have "unat (nextTokenID + 1) = unat nextTokenID + 1" "unat nextTokenID < unat maxTokens"
    using unat_lt [of maxTokens] by (auto simp: word_less_nat_alt unat_word_ariths)
  then show ?case by simp
qed simp

declare bpe_loop.simps [simp del]

definition bpe_run :: "(pair_counts \<Rightarrow> pair_counts) \<Rightarrow> BPEBuilder \<Rightarrow> bytes \<Rightarrow> bytes list \<times> u32 list" where
  "bpe_run order b data =
     bpe_loop order (bpeMaxLen b) (of_int (bpeMaxTokens b)) 256 (vocab b) (map ucast data)"

definition bpe_Train :: "(pair_counts \<Rightarrow> pair_counts) \<Rightarrow> BPEBuilder \<Rightarrow> bytes \<Rightarrow> bytes list" where
  "bpe_Train order b data = (if length data = 0 then vocab b else fst (bpe_run order b data))"

section \<open>The tokens spell the corpus\<close>

definition spell :: "bytes list \<Rightarrow> u32 list \<Rightarrow> bytes" where
  "spell v tokens = concat (map (token_bytes v) tokens)"

definition known :: "bytes list \<Rightarrow> u32 list \<Rightarrow> bool" where
  "known v tokens \<longleftrightarrow> (\<forall>t \<in> set tokens. unat t < length v)"

lemma token_bytes_append: "unat t < length v \<Longrightarrow> token_bytes (v @ w) t = token_bytes v t"
  by (simp add: token_bytes_def nth_append)

lemma spell_append: "known v ts \<Longrightarrow> spell (v @ w) ts = spell v ts"
  by (induction ts) (simp_all add: spell_def known_def token_bytes_append)

lemma spell_Cons [simp]: "spell v (t # ts) = token_bytes v t @ spell v ts"
  by (simp add: spell_def)

lemma known_Cons [simp]: "known v (t # ts) \<longleftrightarrow> unat t < length v \<and> known v ts"
  by (simp add: known_def)

lemma merge_pair_spell:
  assumes "length v < 2 ^ 32"
  shows "new = of_nat (length v) \<Longrightarrow> known v ts \<Longrightarrow>
    spell (v @ [token_bytes v a @ token_bytes v b]) (merge_pair a b new ts) = spell v ts \<and>
    known (v @ [token_bytes v a @ token_bytes v b]) (merge_pair a b new ts)"
proof (induction a b new ts rule: merge_pair.induct)
  case (1 a b new x y ts)
  have n: "unat new = length v" if "x = a \<and> y = b"
    using 1(3) assms unat_of_nat_lt [of "length v", where 'a = 32] by simp
  show ?case
  proof (cases "x = a \<and> y = b")
    case True
    with 1 n show ?thesis by (simp add: token_bytes_append) (simp add: token_bytes_def)
  next
    case False
    with 1 show ?thesis by (auto simp: token_bytes_append)
  qed
qed (simp_all add: spell_def known_def token_bytes_append)

lemma count_pairs_adjacent:
  "p \<in> fst ` set (count_pairs ts cs) \<Longrightarrow> p \<in> fst ` set cs \<or> (\<exists>pre post. ts = pre @ fst p # snd p # post)"
proof (induction ts cs rule: count_pairs.induct)
  case (1 a b ts cs)
  let ?cs = "AList.update (a, b) (case map_of cs (a, b) of None \<Rightarrow> 1 | Some n \<Rightarrow> n + 1) cs"
  from 1 consider "p \<in> fst ` set ?cs" | pre post where "b # ts = pre @ fst p # snd p # post" by auto
  then show ?case
  proof cases
    case 1
    then have "p = (a, b) \<or> p \<in> fst ` set cs" by (simp add: dom_update)
    then show ?thesis by (metis append_Nil fst_conv snd_conv)
  next
    case 2
    then show ?thesis by (metis append_Cons)
  qed
qed auto

lemma best_pair_from:
  "best_pair v maxLen cs best = (p, c) \<Longrightarrow>
   (p, c) = best \<or> p \<in> fst ` set cs \<and> int (length (token_bytes v (fst p)) + length (token_bytes v (snd p))) \<le> maxLen"
  by (induction v maxLen cs best rule: best_pair.induct) (auto simp: not_less split: if_splits)

text \<open>What holds of vocabulary and tokens in every round.\<close>

definition bpe_ok :: "int \<Rightarrow> bytes \<Rightarrow> bytes list \<Rightarrow> u32 list \<Rightarrow> bool" where
  "bpe_ok maxLen data v tokens \<longleftrightarrow>
     spell v tokens = data \<and> known v tokens \<and>
     (\<forall>w \<in> set v. w \<noteq> [] \<and> (length w = 1 \<or> int (length w) \<le> maxLen \<and> sublist w data))"

lemma bpe_round:
  assumes ok: "bpe_ok maxLen data v tokens" and v: "length v < 2 ^ 32" and o: "\<forall>cs. mset (order cs) = mset cs"
    and b: "best_pair v maxLen (order (count_pairs tokens [])) ((0, 0), - 1) = ((a, b), c)" "\<not> c < 2"
  shows "bpe_ok maxLen data (v @ [token_bytes v a @ token_bytes v b]) (merge_pair a b (of_nat (length v)) tokens)"
proof -
  have set: "set (order (count_pairs tokens [])) = set (count_pairs tokens [])"
    using o by (metis set_mset_mset)
  from best_pair_from [OF b(1)] b(2) have p: "(a, b) \<in> fst ` set (count_pairs tokens [])"
    "int (length (token_bytes v a) + length (token_bytes v b)) \<le> maxLen"
    unfolding set by auto
  obtain pre post where t: "tokens = pre @ a # b # post" using count_pairs_adjacent [OF p(1)] by auto
  have "data = spell v pre @ (token_bytes v a @ token_bytes v b) @ spell v post"
    using ok by (simp add: bpe_ok_def t spell_def)
  then have "sublist (token_bytes v a @ token_bytes v b) data" by (metis sublist_def)
  moreover have "token_bytes v a \<noteq> []" using ok by (auto simp: bpe_ok_def t known_def token_bytes_def)
  ultimately show ?thesis
    using ok p(2) merge_pair_spell [OF v refl, of tokens a b] by (auto simp: bpe_ok_def)
qed

lemma bpe_loop_ok:
  assumes o: "\<forall>cs. mset (order cs) = mset cs"
  shows "bpe_loop order maxLen maxTokens nextTokenID v tokens = (v', tokens') \<Longrightarrow>
    bpe_ok maxLen data v tokens \<Longrightarrow> nextTokenID = of_nat (length v) \<Longrightarrow> length v < 2 ^ 32 \<Longrightarrow>
    bpe_ok maxLen data v' tokens' \<and> length v \<le> length v' \<and> length v' \<le> max (length v) (unat maxTokens) \<and> take (length v) v' = v"
  using o
proof (induction order maxLen maxTokens nextTokenID v tokens rule: bpe_loop.induct)
  case (1 order maxLen maxTokens nextTokenID v tokens)
  show ?case
  proof (cases "nextTokenID < maxTokens \<and> 2 \<le> length tokens")
    case False
    with 1(2,3) show ?thesis by (subst (asm) bpe_loop.simps) auto
  next
    case True
    obtain a b c where b: "best_pair v maxLen (order (count_pairs tokens [])) ((0, 0), - 1) = ((a, b), c)"
      by (metis prod.exhaust)
    show ?thesis
    proof (cases "c < 2")
      case True
      with \<open>nextTokenID < maxTokens \<and> _\<close> b 1(2,3) show ?thesis by (subst (asm) bpe_loop.simps) (auto simp: Let_def)
    next
      case False
      let ?v = "v @ [token_bytes v a @ token_bytes v b]" and ?ts = "merge_pair a b nextTokenID tokens"
      have u: "unat nextTokenID = length v" using 1(4,5) unat_of_nat_lt [of "length v", where 'a = 32] by simp
      then have put: "put_token v nextTokenID bs = v @ [bs]" for bs by (simp add: put_token_def)
      have r: "bpe_loop order maxLen maxTokens (nextTokenID + 1) ?v ?ts = (v', tokens')"
        using 1(2) True False b by (subst (asm) bpe_loop.simps) (simp add: Let_def put)
      have lt: "length v < unat maxTokens" using True u by (simp add: word_less_nat_alt)
      then have l: "length ?v < 2 ^ 32" using unat_lt [of maxTokens] by simp
      have okv: "bpe_ok maxLen data ?v ?ts"
        using bpe_round [OF 1(3,5,6) b False] 1(4) by simp
      note IH = 1(1) [OF True b [symmetric] refl refl False, unfolded put]
      from IH [OF r okv _ l 1(6)] 1(4)
      have "bpe_ok maxLen data v' tokens'" "length ?v \<le> length v'" "length v' \<le> max (length ?v) (unat maxTokens)"
        "take (length ?v) v' = ?v"
        by (simp_all add: add.commute)
      moreover from this(4) have "take (length v) v' = v" by (metis append_eq_conv_conj length_append take_take min.absorb1 le_add1)
      ultimately show ?thesis using lt by simp
    qed
  qed
qed

lemma NewBPEBuilder_ok: "bpe_ok maxLen data (vocab (NewBPEBuilder maxTokens maxLen)) (map ucast data)"
proof -
  let ?v = "vocab (NewBPEBuilder maxTokens maxLen)"
  have u: "unat (ucast b :: u32) = unat b" "unat b < 256" for b :: byte
    using unat_lt [of b] by (simp_all add: unat_ucast_small)
  have "token_bytes ?v (ucast b) = [b]" for b :: byte
    using u [of b] by (simp add: token_bytes_def NewBPEBuilder_def)
  then have "spell ?v (map ucast data) = data" by (induction data) (simp_all add: spell_def)
  moreover have "known ?v (map ucast data)" using u by (auto simp: known_def NewBPEBuilder_def)
  ultimately show ?thesis by (auto simp: bpe_ok_def NewBPEBuilder_def)
qed

lemma bpe_run_ok:
  assumes "\<forall>cs. mset (order cs) = mset cs" "bpe_run order (NewBPEBuilder maxTokens maxLen) data = (v, tokens)"
  shows "bpe_ok maxLen data v tokens \<and> 256 \<le> length v \<and> length v \<le> max 256 (unat (of_int maxTokens :: u32)) \<and>
    take 256 v = map (\<lambda>i. [of_nat i]) [0..<256]"
proof -
  have b: "length (vocab (NewBPEBuilder maxTokens maxLen)) = 256" "bpeMaxLen (NewBPEBuilder maxTokens maxLen) = maxLen"
    "bpeMaxTokens (NewBPEBuilder maxTokens maxLen) = maxTokens"
    "vocab (NewBPEBuilder maxTokens maxLen) = map (\<lambda>i. [of_nat i]) [0..<256]"
    by (simp_all add: NewBPEBuilder_def)
  have "bpe_loop order maxLen (of_int maxTokens) 256 (vocab (NewBPEBuilder maxTokens maxLen)) (map ucast data) = (v, tokens)"
    using assms(2) by (simp only: bpe_run_def b(2,3))
  from bpe_loop_ok [OF assms(1) this NewBPEBuilder_ok] show ?thesis unfolding b(1) by (simp add: b(4))
qed

section \<open>Properties\<close>

text \<open>
  C24. Byte-pair encoding loses nothing: after the training of a fresh builder the tokens spell the
  corpus again, every token in use is in the vocabulary, and every learned token is a part of the
  corpus of at most the maximal length. The vocabulary starts with the 256 bytes, whatever size is
  requested, and has at most the requested size where that is 256 or more (the bytes alone otherwise).
\<close>

theorem bpe_sound:
  assumes "\<forall>cs. mset (order cs) = mset cs" "bpe_run order (NewBPEBuilder maxTokens maxLen) data = (v, tokens)"
  shows "spell v tokens = data \<and> known v tokens \<and>
    take 256 v = map (\<lambda>i. [of_nat i]) [0..<256] \<and> length v \<le> max 256 (unat (of_int maxTokens :: u32)) \<and>
    (\<forall>w \<in> set v. w \<noteq> [] \<and> (length w = 1 \<or> int (length w) \<le> maxLen \<and> sublist w data)) \<and>
    (if data = [] then True else bpe_Train order (NewBPEBuilder maxTokens maxLen) data = v)"
  using bpe_run_ok [OF assms] assms(2) by (simp add: bpe_ok_def bpe_Train_def)

theorem bpe_sound_witness:
  "\<exists>v tokens. bpe_run rev (NewBPEBuilder 300 4) [1, 2, 1, 2, 1, 2] = (v, tokens) \<and> spell v tokens = [1, 2, 1, 2, 1, 2] \<and> tokens = [257, 256]"
proof -
  obtain v tokens where r: "bpe_run rev (NewBPEBuilder 300 4) [1, 2, 1, 2, 1, 2] = (v, tokens)" by fastforce
  have "snd (bpe_run rev (NewBPEBuilder 300 4) [1, 2, 1, 2, 1, 2]) = [257, 256]" by code_simp
  with r bpe_sound [OF _ r] show ?thesis by simp
qed

end
