(* ===== verification/Trainer.thy ===== *)
theory Trainer
  imports Trainer_Table Bpe Pack_File
begin

text \<open>
  \<^verbatim>\<open>engine.go\<close> and \<^verbatim>\<open>codebook_writer.go\<close> of \<^verbatim>\<open>internal/trainer\<close>: from a directory to a codebook.
  What the run draws from its environment is one record: the files of the directory, the order
  in which the workers report, the order in which maps are iterated. The result: the file a
  training writes is a codebook that opens, in which every pattern is found again, and with
  which files can be packed and unpacked.
\<close>

section \<open>Writing a codebook\<close>

definition codebook_image :: "ext \<Rightarrow> nat \<Rightarrow> bytes list \<Rightarrow> bytes" where
  "codebook_image X cwSize patterns =
     (let buildHash = sha256 X (concat patterns);
          header = zeros cb_HeaderSize;
          header = gcopy header 0 cb_MagicSize cb_MagicString;
          header = put_uint16 header 6 cb_Version1;
          header = put_uint16 header 8 (of_nat cwSize);
          header = put_uint64 header 10 (of_nat (length patterns));
          header = put_uint64 header 18 (of_nat cb_HeaderSize);
          header = gcopy header 26 58 (slice buildHash 0 32)
      in header @ concat patterns)"

definition by_bucket :: "bytes list \<Rightarrow> bytes list" where
  "by_bucket patterns = sort_key (\<lambda>p. unat (computeLSHBucket p)) patterns"

definition WriteCodebook :: "ext \<Rightarrow> string \<Rightarrow> bytes list \<Rightarrow> fs \<Rightarrow> unit res \<times> fs" where
  "WriteCodebook X path patterns fs =
     (if patterns = [] then (Inl (GoErr ''trainer: no patterns to write''), fs)
      else (Inr (), fs(path \<mapsto> codebook_image X (length (patterns ! 0)) (by_bucket patterns))))"

section \<open>Options, environment, result\<close>

record TrainOptions =
  InputDir :: string
  OutputPath :: string
  MaxCodewords :: int
  MaxPerBucket :: int
  tConcurrency :: int
  tChunkSize :: int
  DataAugmentation :: bool
  UseBPE :: bool
  UpdatePath :: string
  BasePath :: string

record TrainEnv =
  teFiles :: "string list"
  teSchedule :: "(bytes \<times> u64) list \<Rightarrow> (bytes \<times> u64) list"
  teBuffers :: "bytes list \<Rightarrow> bytes list"
  teOrder :: table_order
  tePairs :: "pair_counts \<Rightarrow> pair_counts"

record TrainResult =
  trTotalBytes :: u64
  trTotalFiles :: nat
  trUniquePatterns :: nat
  trSelectedElite :: nat
  trMergedPatterns :: int
  trReplacedSlots :: int

section \<open>The first pass\<close>

text \<open>The full chunks of a file, buffer by buffer, with their positions.\<close>

fun buffer_records :: "(bytes \<Rightarrow> u64) \<Rightarrow> FixedChunker \<Rightarrow> nat \<Rightarrow> u64 \<Rightarrow> bytes list \<Rightarrow> (bytes \<times> u64) list res" where
  "buffer_records xx fc n pos [] = Inr []"
| "buffer_records xx fc n pos (b # bs) =
     rbind (FixedChunker_Split xx fc b) (\<lambda>chunks.
     rbind (buffer_records xx fc n (pos + of_nat (length b)) bs) (\<lambda>rs.
       Inr (map (\<lambda>c. (cData c, pos + cOffset c)) (filter (\<lambda>c. length (cData c) = n) chunks) @ rs)))"

text \<open>A file that cannot be opened is skipped; the base of a file is its index times \<open>2^44\<close>.\<close>

fun corpus_records :: "(bytes \<Rightarrow> u64) \<Rightarrow> FixedChunker \<Rightarrow> nat \<Rightarrow> fs \<Rightarrow> nat \<Rightarrow> string list \<Rightarrow> (bytes \<times> u64) list res" where
  "corpus_records xx fc n fs i [] = Inr []"
| "corpus_records xx fc n fs i (f # files) =
     rbind (case fs f of None \<Rightarrow> Inr [] | Some d \<Rightarrow> buffer_records xx fc n (push_bit 44 (of_nat i)) (read_blocks d)) (\<lambda>rs.
     rbind (corpus_records xx fc n fs (i + 1) files) (\<lambda>rs'. Inr (rs @ rs')))"

definition corpus_buffers :: "fs \<Rightarrow> string list \<Rightarrow> bytes list" where
  "corpus_buffers fs files = concat (map (\<lambda>f. case fs f of None \<Rightarrow> [] | Some d \<Rightarrow> read_blocks d) files)"

definition bpeLimit :: nat where "bpeLimit = 50 * 1024 * 1024"

fun bpe_corpus :: "bytes \<Rightarrow> bytes list \<Rightarrow> bytes" where
  "bpe_corpus acc [] = acc"
| "bpe_corpus acc (b # bs) =
     bpe_corpus (if length acc < bpeLimit
                 then acc @ take (if bpeLimit < length acc + length b then bpeLimit - length acc else length b) b
                 else acc) bs"

definition first_table :: "(bytes \<Rightarrow> u64) \<Rightarrow> bool \<Rightarrow> (bytes \<times> u64) list \<Rightarrow> FrequencyTable" where
  "first_table xx augment rs =
     (if augment then fold (\<lambda>(d, p). Record xx d) rs NewFrequencyTable else record_all xx rs)"

section \<open>The second pass\<close>

text \<open>The hashes that are still missing and the bytes found so far.\<close>

type_synonym scan = "u64 list \<times> (u64 \<rightharpoonup> bytes)"

fun scan_chunks :: "Chunk list \<Rightarrow> scan \<Rightarrow> scan" where
  "scan_chunks [] st = st"
| "scan_chunks (c # cs) (missing, found) =
     scan_chunks cs (if cHash c \<in> set missing then (removeAll (cHash c) missing, found(cHash c \<mapsto> cData c))
                     else (missing, found))"

fun scan_buffers :: "(bytes \<Rightarrow> u64) \<Rightarrow> FixedChunker \<Rightarrow> bytes list \<Rightarrow> scan \<Rightarrow> scan res" where
  "scan_buffers xx fc [] st = Inr st"
| "scan_buffers xx fc (b # bs) st =
     (if fst st = [] then Inr st
      else rbind (FixedChunker_Split xx fc b) (\<lambda>chunks. scan_buffers xx fc bs (scan_chunks chunks st)))"

fun scan_files :: "(bytes \<Rightarrow> u64) \<Rightarrow> FixedChunker \<Rightarrow> fs \<Rightarrow> string list \<Rightarrow> scan \<Rightarrow> scan res" where
  "scan_files xx fc fs [] st = Inr st"
| "scan_files xx fc fs (f # files) st =
     (if fst st = [] then Inr st
      else
        (case fs f of
           None \<Rightarrow> scan_files xx fc fs files st
         | Some d \<Rightarrow> rbind (scan_buffers xx fc (read_blocks d) st) (scan_files xx fc fs files)))"

definition readPickedData ::
  "(bytes \<Rightarrow> u64) \<Rightarrow> FixedChunker \<Rightarrow> fs \<Rightarrow> string list \<Rightarrow> PatternEntry list \<Rightarrow> PatternEntry list res" where
  "readPickedData xx fc fs files picked =
     rbind (scan_files xx fc fs files (map peHash (filter (\<lambda>e. peData e = None) picked), Map.empty))
       (\<lambda>(missing, found).
          if missing \<noteq> [] then Inl (GoErr ''trainer: patterns disappeared from the corpus during training'')
          else Inr (map (\<lambda>e. if peData e = None then e\<lparr>peData := found (peHash e)\<rparr> else e) picked))"

section \<open>Merging with another codebook\<close>

definition hashPattern :: "bytes \<Rightarrow> u64" where
  "hashPattern data = fold (\<lambda>b h. (h XOR ucast b) * 1099511628211) data 14695981039346656037"

definition countOverlap :: "bytes list \<Rightarrow> bytes list \<Rightarrow> nat" where
  "countOverlap original selected =
     (let hs = map hashPattern selected in length (filter (\<lambda>p. hashPattern p \<in> set hs) original))"

fun fill_slots :: "u64 list \<Rightarrow> int \<Rightarrow> bytes list \<Rightarrow> bytes list \<Rightarrow> bytes list" where
  "fill_slots baseSet maxCodewords result [] = result"
| "fill_slots baseSet maxCodewords result (p # ps) =
     (if maxCodewords \<le> int (length result) then result
      else fill_slots baseSet maxCodewords (if hashPattern p \<in> set baseSet then result else result @ [p]) ps)"

definition mergeBaseWithNew :: "bytes list \<Rightarrow> bytes list \<Rightarrow> int \<Rightarrow> bytes list" where
  "mergeBaseWithNew base newPatterns maxCodewords =
     fill_slots (map hashPattern base) maxCodewords (take (nat maxCodewords) base) newPatterns"

section \<open>Training\<close>

definition elite ::
  "ext \<Rightarrow> TrainEnv \<Rightarrow> fs \<Rightarrow> FixedChunker \<Rightarrow> int \<Rightarrow> int \<Rightarrow> FrequencyTable \<Rightarrow> bytes list res" where
  "elite X env fs fc maxCodewords maxPerBucket ft =
     rbind (selectPicked (teOrder env) ft maxCodewords maxPerBucket) (\<lambda>picked.
     rbind (readPickedData (xxhash X) fc fs (teFiles env) picked) (\<lambda>picked.
       Inr (map (\<lambda>e. case peData e of Some d \<Rightarrow> d | None \<Rightarrow> []) picked)))"

text \<open>The patterns, how many unique ones there were, how many were merged and replaced.\<close>

definition train_bpe :: "TrainEnv \<Rightarrow> fs \<Rightarrow> int \<Rightarrow> nat \<Rightarrow> bytes list" where
  "train_bpe env fs maxCodewords n =
     map (\<lambda>word. gcopy (zeros n) 0 n word)
       (bpe_Train (tePairs env) (NewBPEBuilder maxCodewords (int n)) (bpe_corpus [] (teBuffers env (corpus_buffers fs (teFiles env)))))"

definition update_table :: "(bytes \<Rightarrow> u64) \<Rightarrow> nat \<Rightarrow> bytes list \<Rightarrow> FrequencyTable \<Rightarrow> FrequencyTable" where
  "update_table xx n existing ft = fold (\<lambda>p. RecordWithCount xx p 100) (filter (\<lambda>p. length p = n) existing) ft"

definition train_select ::
  "ext \<Rightarrow> TrainEnv \<Rightarrow> TrainOptions \<Rightarrow> fs \<Rightarrow> int \<Rightarrow> int \<Rightarrow> nat \<Rightarrow> (bytes list \<times> nat \<times> int \<times> int) res" where
  "train_select X env opts fs maxCodewords maxPerBucket n =
     (let fc = NewFixedChunker (int n) in
      if UseBPE opts then
        (let selected = train_bpe env fs maxCodewords n in Inr (selected, length selected, 0, 0))
      else
        rbind (corpus_records (xxhash X) fc n fs 0 (teFiles env)) (\<lambda>rs.
          let ft = first_table (xxhash X) (DataAugmentation opts) (teSchedule env rs);
              uniquePatterns = ft_Len ft
          in rbind (if DataAugmentation opts then AugmentPatterns (xxhash X) (teOrder env) (nat maxCodewords div 2) ft
                    else Inr ft) (\<lambda>ft.
             if UpdatePath opts \<noteq> [] then
               rbind (wrap_err ''trainer: load update codebook'' (ReadPatterns fs (UpdatePath opts))) (\<lambda>existing.
               rbind (elite X env fs fc maxCodewords maxPerBucket (update_table (xxhash X) n existing ft)) (\<lambda>selected.
                 let merged = int (length (filter (\<lambda>p. length p = n) existing))
                 in Inr (selected, uniquePatterns, merged, merged - int (countOverlap existing selected))))
             else if BasePath opts \<noteq> [] then
               rbind (wrap_err ''trainer: load base codebook'' (ReadPatterns fs (BasePath opts))) (\<lambda>base.
               rbind (elite X env fs fc maxCodewords maxPerBucket ft) (\<lambda>newElite.
                 let selected = mergeBaseWithNew base newElite maxCodewords
                 in Inr (selected, uniquePatterns, int (length base), int (length selected) - int (countOverlap base selected))))
             else
               rbind (elite X env fs fc maxCodewords maxPerBucket ft) (\<lambda>selected.
                 Inr (selected, uniquePatterns, 0, 0)))))"

definition train_chunk_size :: "TrainOptions \<Rightarrow> nat" where
  "train_chunk_size opts = (if tChunkSize opts \<le> 0 then DefaultChunkSize else nat (tChunkSize opts))"

definition train_max :: "TrainOptions \<Rightarrow> int" where
  "train_max opts = (if MaxCodewords opts \<le> 0 then 8192 else MaxCodewords opts)"

definition Train :: "ext \<Rightarrow> TrainEnv \<Rightarrow> TrainOptions \<Rightarrow> fs \<Rightarrow> TrainResult res \<times> fs" where
  "Train X env opts fs =
     (if InputDir opts = [] \<or> OutputPath opts = []
      then (Inl (GoErr ''trainer: InputDir and OutputPath are required''), fs)
      else
        (let n = train_chunk_size opts;
             maxPerBucket = (if AlignedMinCodewordSize \<le> n then 0 else MaxPerBucket opts);
             files = teFiles env
         in if files = [] then (Inl (GoErr ''trainer: no files found''), fs)
            else
              (case train_select X env opts fs (train_max opts) maxPerBucket n of
                 Inl e \<Rightarrow> (Inl e, fs)
               | Inr (selected, uniquePatterns, merged, replaced) \<Rightarrow>
                   (case WriteCodebook X (OutputPath opts) selected fs of
                      (Inl e, fs) \<Rightarrow> (Inl e, fs)
                    | (Inr _, fs') \<Rightarrow>
                        (Inr \<lparr>trTotalBytes = of_nat (sum_list (map length (corpus_buffers fs files))),
                              trTotalFiles = length files, trUniquePatterns = uniquePatterns,
                              trSelectedElite = length selected, trMergedPatterns = merged,
                              trReplacedSlots = replaced\<rparr>, fs')))))"

section \<open>The chunks of the corpus\<close>

definition cut_chunks :: "(bytes \<Rightarrow> u64) \<Rightarrow> FixedChunker \<Rightarrow> bytes \<Rightarrow> Chunk list" where
  "cut_chunks xx fc b = (case FixedChunker_Split xx fc b of Inr cs \<Rightarrow> cs | Inl _ \<Rightarrow> [])"

definition corpus_cut :: "(bytes \<Rightarrow> u64) \<Rightarrow> FixedChunker \<Rightarrow> fs \<Rightarrow> string list \<Rightarrow> Chunk list" where
  "corpus_cut xx fc fs files = concat (map (cut_chunks xx fc) (corpus_buffers fs files))"

definition corpus_chunks :: "(bytes \<Rightarrow> u64) \<Rightarrow> FixedChunker \<Rightarrow> fs \<Rightarrow> string list \<Rightarrow> bytes set" where
  "corpus_chunks xx fc fs files = cData ` set (corpus_cut xx fc fs files)"

lemma tiles_hash: "tiles xx data s cs \<Longrightarrow> c \<in> set cs \<Longrightarrow> cHash c = xx (cData c)"
proof (induction xx data s cs rule: tiles.induct)
  case (2 xx data start c' cs)
  have "cHash c' = xx (cData c')" using 2(2) by (metis makeChunk_simps(1,4) tiles.simps(2))
  with 2 show ?case by (metis set_ConsD tiles.simps(2))
qed simp

lemma Split_cut:
  assumes "0 < fcChunkSize fc"
  shows "FixedChunker_Split xx fc b = Inr (cut_chunks xx fc b)" "c \<in> set (cut_chunks xx fc b) \<Longrightarrow> cHash c = xx (cData c)"
  using FixedChunker_Split_ok [OF assms, of xx b] tiles_hash by (auto simp: cut_chunks_def)

lemma corpus_cut_hash: "0 < fcChunkSize fc \<Longrightarrow> c \<in> set (corpus_cut xx fc fs files) \<Longrightarrow> cHash c = xx (cData c)"
  by (auto simp: corpus_cut_def Split_cut(2))

lemma corpus_buffers_Cons:
  "corpus_buffers fs (f # files) = (case fs f of None \<Rightarrow> [] | Some d \<Rightarrow> read_blocks d) @ corpus_buffers fs files"
  by (simp add: corpus_buffers_def)

lemma buffer_records_ok:
  assumes "0 < fcChunkSize fc"
  shows "\<exists>rs. buffer_records xx fc n pos bs = Inr rs \<and>
    fst ` set rs = {d \<in> cData ` set (concat (map (cut_chunks xx fc) bs)). length d = n}"
proof (induction bs arbitrary: pos)
  case (Cons b bs)
  obtain rs where "buffer_records xx fc n (pos + of_nat (length b)) bs = Inr rs"
    "fst ` set rs = {d \<in> cData ` set (concat (map (cut_chunks xx fc) bs)). length d = n}" using Cons by blast
  moreover have "fst ` set (map (\<lambda>c. (cData c, pos + cOffset c)) (filter (\<lambda>c. length (cData c) = n) (cut_chunks xx fc b)) @ rs) =
      {d \<in> cData ` set (cut_chunks xx fc b). length d = n} \<union> fst ` set rs"
    by (simp add: image_Un image_image) blast
  ultimately show ?case by (simp add: Split_cut(1) [OF assms] image_Un) blast
qed simp

lemma corpus_records_ok:
  assumes "0 < fcChunkSize fc"
  shows "\<exists>rs. corpus_records xx fc n fs i files = Inr rs \<and>
    fst ` set rs = {d \<in> corpus_chunks xx fc fs files. length d = n}"
proof (induction files arbitrary: i)
  case Nil
  show ?case by (simp add: corpus_chunks_def corpus_cut_def corpus_buffers_def)
next
  case (Cons f files)
  let ?bs = "case fs f of None \<Rightarrow> [] | Some d \<Rightarrow> read_blocks d"
  obtain rs where rs: "corpus_records xx fc n fs (i + 1) files = Inr rs"
    "fst ` set rs = {d \<in> corpus_chunks xx fc fs files. length d = n}" using Cons by blast
  have "\<exists>rs'. (case fs f of None \<Rightarrow> Inr [] | Some d \<Rightarrow> buffer_records xx fc n (push_bit 44 (of_nat i)) (read_blocks d)) = Inr rs' \<and>
    fst ` set rs' = {d \<in> cData ` set (concat (map (cut_chunks xx fc) ?bs)). length d = n}"
  proof (cases "fs f")
    case (Some d)
    with buffer_records_ok [OF assms, of xx n "push_bit 44 (of_nat i)" "read_blocks d"] show ?thesis by simp
  qed simp
  then obtain rs' where rs': "(case fs f of None \<Rightarrow> Inr [] | Some d \<Rightarrow> buffer_records xx fc n (push_bit 44 (of_nat i)) (read_blocks d)) = Inr rs'"
    "fst ` set rs' = {d \<in> cData ` set (concat (map (cut_chunks xx fc) ?bs)). length d = n}"
    by blast
  have "corpus_chunks xx fc fs (f # files) = cData ` set (concat (map (cut_chunks xx fc) ?bs)) \<union> corpus_chunks xx fc fs files"
    by (simp add: corpus_chunks_def corpus_cut_def corpus_buffers_Cons image_Un)
  then have "fst ` set (rs' @ rs) = {d \<in> corpus_chunks xx fc fs (f # files). length d = n}"
    using rs(2) rs'(2) by (simp add: image_Un) blast
  with rs(1) rs'(1) show ?case by simp
qed

section \<open>Tables of patterns of one length\<close>

text \<open>An entry carries its bytes, of the right length, or the hash of a chunk of the corpus.\<close>

definition entry_in :: "(bytes \<Rightarrow> u64) \<Rightarrow> nat \<Rightarrow> bytes set \<Rightarrow> PatternEntry \<Rightarrow> bool" where
  "entry_in xx n C e \<longleftrightarrow> (case peData e of Some d \<Rightarrow> length d = n | None \<Rightarrow> \<exists>c \<in> C. length c = n \<and> xx c = peHash e)"

definition table_in :: "(bytes \<Rightarrow> u64) \<Rightarrow> nat \<Rightarrow> bytes set \<Rightarrow> FrequencyTable \<Rightarrow> bool" where
  "table_in xx n C ft \<longleftrightarrow> ft_ok ft \<and> (\<forall>e \<in> snd ` set ft. entry_in xx n C e)"

lemma table_in_update:
  assumes "table_in xx n C ft" "peHash e = h" "entry_in xx n C e"
  shows "table_in xx n C (AList.update h e ft)"
proof -
  have "set (AList.update h e ft) \<subseteq> insert (h, e) (set ft)" by (induction ft) auto
  with assms ft_ok_update show ?thesis by (fastforce simp: table_in_def)
qed

lemma table_in_found: "table_in xx n C ft \<Longrightarrow> map_of ft h = Some e \<Longrightarrow> peHash e = h \<and> entry_in xx n C e"
  using ft_ok_map_of [of ft h e] map_of_SomeD [of ft h e] by (force simp: table_in_def)

lemma table_in_new [simp]: "table_in xx n C NewFrequencyTable"
  by (simp add: table_in_def) (simp add: NewFrequencyTable_def)

lemma table_in_RecordWithCount: "table_in xx n C ft \<Longrightarrow> length d = n \<Longrightarrow> table_in xx n C (RecordWithCount xx d m ft)"
  by (auto simp: RecordWithCount_def Let_def intro!: table_in_update dest: table_in_found split: option.split)
    (auto simp: entry_in_def dest: table_in_found split: option.splits)

lemma table_in_Record: "table_in xx n C ft \<Longrightarrow> length d = n \<Longrightarrow> table_in xx n C (Record xx d ft)"
  by (auto simp: Record_def Let_def intro!: table_in_update dest: table_in_found split: option.split)
    (auto simp: entry_in_def dest: table_in_found split: option.splits)

lemma table_in_RecordAt: "table_in xx n C ft \<Longrightarrow> d \<in> C \<Longrightarrow> length d = n \<Longrightarrow> table_in xx n C (RecordAt xx d p ft)"
  by (auto simp: RecordAt_def Let_def intro!: table_in_update dest: table_in_found split: option.split)
    (auto simp: entry_in_def dest: table_in_found split: option.splits)

lemma table_in_first:
  assumes "\<forall>r \<in> set rs. fst r \<in> C \<and> length (fst r) = n"
  shows "table_in xx n C (first_table xx aug rs)"
proof -
  have "table_in xx n C ft \<Longrightarrow> table_in xx n C (fold (\<lambda>(d, p). Record xx d) rs ft)" for ft
    using assms by (induction rs arbitrary: ft) (auto simp: table_in_Record)
  moreover have "table_in xx n C ft \<Longrightarrow> table_in xx n C (fold (\<lambda>(d, p). RecordAt xx d p) rs ft)" for ft
    using assms by (induction rs arbitrary: ft) (auto simp: table_in_RecordAt)
  ultimately show ?thesis by (simp add: first_table_def record_all_def)
qed

lemma table_in_update_table: "table_in xx n C ft \<Longrightarrow> table_in xx n C (update_table xx n existing ft)"
proof -
  have "table_in xx n C ft \<Longrightarrow> \<forall>p \<in> set ps. length p = n \<Longrightarrow> table_in xx n C (fold (\<lambda>p. RecordWithCount xx p 100) ps ft)" for ps ft
    by (induction ps arbitrary: ft) (auto simp: table_in_RecordWithCount)
  then show "table_in xx n C ft \<Longrightarrow> ?thesis" by (simp add: update_table_def)
qed

lemma table_in_augment:
  "table_in xx n C ft \<Longrightarrow> augment_loop xx hs ft = Inr ft' \<Longrightarrow> table_in xx n C ft'"
proof (induction xx hs ft rule: augment_loop.induct)
  case (2 xx h hs ft)
  obtain e where e: "map_of ft h = Some e" using 2(4) by (cases "map_of ft h") auto
  show ?case
  proof (cases "peCount e \<le> 1")
    case True
    with 2(1) [OF e True 2(3)] 2(4) e show ?thesis by simp
  next
    case False
    let ?d = "case peData e of Some d \<Rightarrow> d | None \<Rightarrow> []"
    let ?m = "if peCount e div 2 = 0 then 1 else peCount e div 2"
    have d: "?d \<noteq> []" using 2(4) e False by (auto simp: Let_def split: if_splits)
    then have "length ?d = n" using table_in_found [OF 2(3) e] by (auto simp: entry_in_def split: option.splits)
    with d have "length (shift_left ?d) = n" "length (shift_right ?d) = n" "length (rotate_left ?d) = n"
      by (auto simp: shift_left_def shift_right_def rotate_left_def)
    then have "table_in xx n C (RecordWithCount xx (rotate_left ?d) ?m
        (RecordWithCount xx (shift_right ?d) ?m (RecordWithCount xx (shift_left ?d) ?m ft)))"
      by (intro table_in_RecordWithCount 2(3))
    from 2(2) [OF e False refl refl d this] 2(4) e False d show ?thesis by (simp add: Let_def)
  qed
qed simp

section \<open>The second pass finds the chosen chunks\<close>

lemma scan_chunks_ok:
  "scan_chunks cs (m, f) = (m', f') \<Longrightarrow>
   set m' = set m - cHash ` set cs \<and> set m \<union> dom f \<subseteq> set m' \<union> dom f' \<and>
   (\<forall>h d. f' h = Some d \<longrightarrow> f h = Some d \<or> (\<exists>c \<in> set cs. cHash c = h \<and> cData c = d))"
proof (induction cs arbitrary: m f)
  case (Cons c cs)
  show ?case
  proof (cases "cHash c \<in> set m")
    case True
    then have "scan_chunks cs (removeAll (cHash c) m, f(cHash c \<mapsto> cData c)) = (m', f')" using Cons.prems by simp
    note ih = Cons.IH [OF this]
    show ?thesis
    proof (intro conjI allI impI)
      show "set m' = set m - cHash ` set (c # cs)" using ih by auto
      have "set m \<union> dom f \<subseteq> set (removeAll (cHash c) m) \<union> dom (f(cHash c \<mapsto> cData c))" by auto
      also have "\<dots> \<subseteq> set m' \<union> dom f'" by (rule conjunct1 [OF conjunct2 [OF ih]])
      finally show "set m \<union> dom f \<subseteq> set m' \<union> dom f'" .
      show "f h = Some d \<or> (\<exists>c \<in> set (c # cs). cHash c = h \<and> cData c = d)" if "f' h = Some d" for h d
      proof -
        have "(f(cHash c \<mapsto> cData c)) h = Some d \<or> (\<exists>c \<in> set cs. cHash c = h \<and> cData c = d)"
          using that by (rule conjunct2 [OF conjunct2 [OF ih], rule_format])
        then show ?thesis by (cases "h = cHash c") auto
      qed
    qed
  next
    case False
    then show ?thesis using Cons.IH [of m f] Cons.prems by auto
  qed
qed simp

text \<open>What a scan of the chunks \<open>cs\<close> does to the missing hashes and the found bytes.\<close>

definition scanned :: "Chunk list \<Rightarrow> scan \<Rightarrow> scan \<Rightarrow> bool" where
  "scanned cs st st' \<longleftrightarrow>
     set (fst st') \<subseteq> set (fst st) - cHash ` set cs \<and> set (fst st) \<union> dom (snd st) \<subseteq> set (fst st') \<union> dom (snd st') \<and>
     (\<forall>h d. snd st' h = Some d \<longrightarrow> snd st h = Some d \<or> (\<exists>c \<in> set cs. cHash c = h \<and> cData c = d))"

lemma scanned_done: "fst st = [] \<Longrightarrow> scanned cs st st"
  by (simp add: scanned_def)

lemma scanned_trans: "scanned cs st st' \<Longrightarrow> scanned cs' st' st'' \<Longrightarrow> scanned (cs @ cs') st st''"
proof -
  assume a: "scanned cs st st'" "scanned cs' st' st''"
  note a = a [unfolded scanned_def]
  have "set (fst st'') \<subseteq> set (fst st) - cHash ` set (cs @ cs')" using a by auto
  moreover have "set (fst st) \<union> dom (snd st) \<subseteq> set (fst st'') \<union> dom (snd st'')"
    using a by (blast intro: order.trans)
  moreover have "snd st h = Some d \<or> (\<exists>c \<in> set (cs @ cs'). cHash c = h \<and> cData c = d)" if "snd st'' h = Some d" for h d
    using a that by (metis Un_iff set_append)
  ultimately show ?thesis unfolding scanned_def by blast
qed

lemma scanned_chunks: "scanned cs st (scan_chunks cs st)"
proof -
  obtain m f where st: "st = (m, f)" by fastforce
  obtain m' f' where r: "scan_chunks cs (m, f) = (m', f')" by fastforce
  from scan_chunks_ok [OF r] show ?thesis unfolding scanned_def st r fst_conv snd_conv by blast
qed

lemma scan_buffers_ok:
  assumes "0 < fcChunkSize fc"
  shows "\<exists>st'. scan_buffers xx fc bs st = Inr st' \<and> scanned (concat (map (cut_chunks xx fc) bs)) st st'"
proof (induction bs arbitrary: st)
  case Nil
  show ?case by (simp add: scanned_def)
next
  case (Cons b bs)
  show ?case
  proof (cases "fst st = []")
    case True
    with scanned_done show ?thesis by auto
  next
    case False
    let ?st = "scan_chunks (cut_chunks xx fc b) st"
    obtain st' where "scan_buffers xx fc bs ?st = Inr st'" "scanned (concat (map (cut_chunks xx fc) bs)) ?st st'"
      using Cons by blast
    with False scanned_trans [OF scanned_chunks] show ?thesis by (simp add: Split_cut(1) [OF assms])
  qed
qed

lemma scan_files_ok:
  assumes "0 < fcChunkSize fc"
  shows "\<exists>st'. scan_files xx fc fs files st = Inr st' \<and> scanned (corpus_cut xx fc fs files) st st'"
proof (induction files arbitrary: st)
  case Nil
  show ?case by (simp add: scanned_def corpus_cut_def corpus_buffers_def)
next
  case (Cons f files)
  show ?case
  proof (cases "fst st = []")
    case True
    with scanned_done show ?thesis by auto
  next
    case False
    show ?thesis
    proof (cases "fs f")
      case None
      with Cons [of st] False show ?thesis by (simp add: corpus_cut_def corpus_buffers_Cons)
    next
      case (Some d)
      obtain st1 where st1: "scan_buffers xx fc (read_blocks d) st = Inr st1"
        "scanned (concat (map (cut_chunks xx fc) (read_blocks d))) st st1" using scan_buffers_ok [OF assms] by blast
      obtain st' where "scan_files xx fc fs files st1 = Inr st'" "scanned (corpus_cut xx fc fs files) st1 st'" using Cons by blast
      with st1 False Some scanned_trans [OF st1(2)] show ?thesis by (simp add: corpus_cut_def corpus_buffers_Cons)
    qed
  qed
qed

text \<open>Every chosen entry gets bytes of the right length, when hashes do not collide in the corpus.\<close>

definition pattern_of :: "(bytes \<Rightarrow> u64) \<Rightarrow> PatternEntry \<Rightarrow> bytes \<Rightarrow> bool" where
  "pattern_of xx e d \<longleftrightarrow> (case peData e of Some d' \<Rightarrow> d = d' | None \<Rightarrow> xx d = peHash e)"

lemma readPickedData_ok:
  assumes fc: "0 < fcChunkSize fc" and inj: "inj_on xx (corpus_chunks xx fc fs files)"
    and es: "\<forall>e \<in> set picked. entry_in xx n (corpus_chunks xx fc fs files) e"
  shows "\<exists>bytes. readPickedData xx fc fs files picked = Inr (map (\<lambda>e. e\<lparr>peData := Some (bytes e)\<rparr>) picked) \<and>
    (\<forall>e \<in> set picked. length (bytes e) = n \<and> pattern_of xx e (bytes e))"
proof -
  let ?C = "corpus_chunks xx fc fs files" and ?m = "map peHash (filter (\<lambda>e. peData e = None) picked)"
  obtain missing found where st: "scan_files xx fc fs files (?m, Map.empty) = Inr (missing, found)"
    and sc: "scanned (corpus_cut xx fc fs files) (?m, Map.empty) (missing, found)"
    using scan_files_ok [OF fc, of xx fs files "(?m, Map.empty)"] by auto
  have hash: "\<exists>c \<in> ?C. length c = n \<and> xx c = peHash e" if "e \<in> set picked" "peData e = None" for e
    using es that by (fastforce simp: entry_in_def)
  have image: "xx ` ?C = cHash ` set (corpus_cut xx fc fs files)"
    using corpus_cut_hash [OF fc] by (auto simp: corpus_chunks_def image_image)
  have sub: "set ?m \<subseteq> cHash ` set (corpus_cut xx fc fs files)"
  proof
    fix h
    assume "h \<in> set ?m"
    then obtain e where e: "e \<in> set picked" "peData e = None" "h = peHash e" by auto
    then show "h \<in> cHash ` set (corpus_cut xx fc fs files)" using hash [OF e(1,2)] e(3) by (fold image) (metis imageI)
  qed
  have "set missing \<subseteq> set ?m - cHash ` set (corpus_cut xx fc fs files)"
    using sc by (simp only: scanned_def fst_conv snd_conv)
  then have "set missing = {}" using sub by (metis Diff_eq_empty_iff subset_empty)
  then have "missing = []" by simp
  moreover have fnd: "\<exists>d. found (peHash e) = Some d \<and> length d = n \<and> xx d = peHash e"
    if e: "e \<in> set picked" "peData e = None" for e
  proof -
    have found: "\<exists>c \<in> set (corpus_cut xx fc fs files). cHash c = h \<and> cData c = d" if "found h = Some d" for h d
      using sc that by (simp add: scanned_def)
    have "peHash e \<in> dom found" using sc \<open>missing = []\<close> e by (auto simp: scanned_def dom_def)
    then obtain d where d: "found (peHash e) = Some d" by blast
    obtain c where c: "c \<in> set (corpus_cut xx fc fs files)" "cHash c = peHash e" "cData c = d"
      using found [OF d] by blast
    then have "d \<in> ?C" "xx d = peHash e" using corpus_cut_hash [OF fc c(1)] by (auto simp: corpus_chunks_def)
    moreover obtain c' where "c' \<in> ?C" "length c' = n" "xx c' = peHash e" using hash [OF e] by blast
    ultimately have "length d = n" using inj by (metis inj_onD)
    with d \<open>xx d = peHash e\<close> show ?thesis by blast
  qed
  define bytes where "bytes (e :: PatternEntry) = (case peData e of Some d \<Rightarrow> d | None \<Rightarrow> the (found (peHash e)))" for e
  have b: "(if peData e = None then e\<lparr>peData := found (peHash e)\<rparr> else e) = e\<lparr>peData := Some (bytes e)\<rparr> \<and>
      length (bytes e) = n \<and> pattern_of xx e (bytes e)" if e: "e \<in> set picked" for e
  proof (cases "peData e")
    case None
    with fnd [OF e] show ?thesis by (auto simp: bytes_def pattern_of_def)
  next
    case (Some d)
    then have "e\<lparr>peData := Some d\<rparr> = e" by (cases e) simp
    with Some es e show ?thesis by (auto simp: bytes_def pattern_of_def entry_in_def)
  qed
  have "readPickedData xx fc fs files picked = Inr (map (\<lambda>e. e\<lparr>peData := Some (bytes e)\<rparr>) picked)"
    using st \<open>missing = []\<close> b by (auto simp: readPickedData_def)
  with b show ?thesis by blast
qed

lemma elite_patterns:
  assumes fc: "0 < fcChunkSize fc" and inj: "inj_on (xxhash X) (corpus_chunks (xxhash X) fc fs (teFiles env))"
    and t: "table_in (xxhash X) n (corpus_chunks (xxhash X) fc fs (teFiles env)) ft" and o: "order_ok (teOrder env)"
    and m: "0 < maxCodewords"
  shows "\<exists>picked bytes. selectPicked (teOrder env) ft maxCodewords maxPerBucket = Inr picked \<and>
    greedy_choice maxCodewords (if maxPerBucket \<le> 0 then maxCodewords else maxPerBucket) (snd ` set ft) picked \<and>
    sorted (map (\<lambda>e. unat (peFirst e)) picked) \<and> (ft \<noteq> [] \<longrightarrow> picked \<noteq> []) \<and>
    elite X env fs fc maxCodewords maxPerBucket ft = Inr (map bytes picked) \<and>
    (\<forall>e \<in> set picked. length (bytes e) = n \<and> pattern_of (xxhash X) e (bytes e))"
proof -
  let ?k = "if maxPerBucket \<le> 0 then maxCodewords else maxPerBucket"
  have ok: "ft_ok ft" using t by (simp add: table_in_def)
  obtain picked where p: "selectPicked (teOrder env) ft maxCodewords maxPerBucket = Inr picked"
    "greedy_choice maxCodewords ?k (snd ` set ft) picked" "sorted (map (\<lambda>e. unat (peFirst e)) picked)"
    using selectPicked_greedy [OF o ok, of maxCodewords maxPerBucket] m by auto
  have "\<forall>e \<in> set picked. entry_in (xxhash X) n (corpus_chunks (xxhash X) fc fs (teFiles env)) e"
    using p(2) t by (auto simp: greedy_choice_def table_in_def)
  from readPickedData_ok [OF fc inj this] obtain bytes where
    r: "readPickedData (xxhash X) fc fs (teFiles env) picked = Inr (map (\<lambda>e. e\<lparr>peData := Some (bytes e)\<rparr>) picked)"
    "\<forall>e \<in> set picked. length (bytes e) = n \<and> pattern_of (xxhash X) e (bytes e)" by blast
  have "picked \<noteq> []" if ne: "ft \<noteq> []"
  proof
    assume "picked = []"
    moreover obtain e where "e \<in> snd ` set ft" using ne by (cases ft) auto
    ultimately show False using p(2) m by (auto simp: greedy_choice_def crowded_out_def in_bucket_def split: if_splits)
  qed
  moreover have "elite X env fs fc maxCodewords maxPerBucket ft = Inr (map bytes picked)"
    by (simp add: elite_def p(1) r(1))
  ultimately show ?thesis using p r(2) by blast
qed

lemma elite_ok:
  assumes "0 < fcChunkSize fc" "inj_on (xxhash X) (corpus_chunks (xxhash X) fc fs (teFiles env))"
    and "table_in (xxhash X) n (corpus_chunks (xxhash X) fc fs (teFiles env)) ft" "order_ok (teOrder env)"
    and "0 < maxCodewords"
  shows "\<exists>ps. elite X env fs fc maxCodewords maxPerBucket ft = Inr ps \<and> (\<forall>p \<in> set ps. length p = n) \<and>
    int (length ps) \<le> maxCodewords \<and> (ft \<noteq> [] \<longrightarrow> ps \<noteq> [])"
  using elite_patterns [OF assms, of maxPerBucket] by (fastforce simp: greedy_choice_def)

section \<open>The written codebook opens\<close>

definition image_header :: "ext \<Rightarrow> nat \<Rightarrow> bytes list \<Rightarrow> CBHeader" where
  "image_header X cwSize patterns =
     \<lparr>cbMagic = cb_MagicString, cbVersion = cb_Version1, CodewordSize = of_nat cwSize,
      CodewordCount = of_nat (length patterns), DataOffset = 512, BuildHash = sha256 X (concat patterns)\<rparr>"

lemma codebook_image_Serialize:
  assumes "hash_sizes_ok X"
  shows "codebook_image X n ps = cb_Serialize (image_header X n ps) @ concat ps"
proof -
  have "slice (sha256 X (concat ps)) 0 32 = sha256 X (concat ps)"
    using hash_sizes(1) [OF assms, of "concat ps"] by (simp add: slice_def)
  then show ?thesis
    by (simp add: codebook_image_def cb_Serialize_def image_header_def Let_def cb_HeaderSize_def)
qed

lemma length_concat_equal: "\<forall>p \<in> set ps. length p = n \<Longrightarrow> length (concat ps) = n * length ps"
  by (induction ps) (simp_all add: add.commute)

lemma concat_slice_equal:
  assumes "\<forall>p \<in> set ps. length p = n" "i < length ps"
  shows "slice (concat ps) (i * n) (i * n + n) = ps ! i"
proof -
  have l: "length (concat (take i ps)) = i * n"
    using length_concat_equal [of "take i ps" n] assms by (auto dest: in_set_takeD simp: min_def mult.commute)
  have "concat ps = concat (take i ps) @ ps ! i @ concat (drop (Suc i) ps)"
    by (subst id_take_nth_drop [OF assms(2)]) simp
  moreover have "length (ps ! i) = n" using assms by simp
  ultimately show ?thesis using l slice_append2 [of "concat (take i ps)"]
    by (metis add.commute slice_layout(2) append_eq_conv_conj diff_add_inverse slice_def)
qed

lemma image_opens:
  assumes X: "hash_sizes_ok X" and ps: "\<forall>p \<in> set ps. length p = n" and n: "0 < n" "n < 2 ^ 16"
    and m: "length ps < 2 ^ 40"
  shows "OpenFromBytes (codebook_image X n ps) =
      Inr \<lparr>rData = codebook_image X n ps, rHeader = image_header X n ps, rLruCache = Map.empty\<rparr>"
    "declared_size (image_header X n ps) < 2 ^ 64" "length (codebook_image X n ps) < 2 ^ 60"
    "unat (CodewordSize (image_header X n ps)) = n" "unat (CodewordCount (image_header X n ps)) = length ps"
proof -
  let ?h = "image_header X n ps"
  show u: "unat (CodewordSize ?h) = n" "unat (CodewordCount ?h) = length ps"
    using n m unat_of_nat_lt [of n, where 'a = 16] unat_of_nat_lt [of "length ps", where 'a = 64]
    by (simp_all add: image_header_def)
  have "CodewordSize ?h \<noteq> 0" using u(1) n(1) by auto
  then have wf: "wf_cb_header ?h" using hash_sizes(1) [OF X] by (simp add: wf_cb_header_def image_header_def)
  have len: "length (concat ps) = n * length ps" by (rule length_concat_equal [OF ps])
  have "n * length ps \<le> 2 ^ 16 * 2 ^ 40" using n(2) m by (intro mult_le_mono) simp_all
  then have b: "n * length ps \<le> 2 ^ 56" by simp
  have d: "declared_size ?h = 512 + n * length ps" by (simp add: declared_size_def u) (simp add: image_header_def)
  then show "declared_size ?h < 2 ^ 64" using b by simp
  show "length (codebook_image X n ps) < 2 ^ 60"
    using b len by (simp add: codebook_image_Serialize [OF X] length_cb_Serialize [OF wf])
  show "OpenFromBytes (codebook_image X n ps) =
      Inr \<lparr>rData = codebook_image X n ps, rHeader = ?h, rLruCache = Map.empty\<rparr>"
    unfolding codebook_image_Serialize [OF X]
    by (rule OpenFromBytes_Serialize [OF wf]) (use d len b in simp_all)
qed

text \<open>Reading the patterns of the image returns them.\<close>

lemma image_patterns:
  assumes X: "hash_sizes_ok X" and ps: "\<forall>p \<in> set ps. length p = n" and n: "0 < n" "n < 2 ^ 16"
    and m: "length ps < 2 ^ 40" and f: "fs path = Some (codebook_image X n ps)"
  shows "ReadPatterns fs path = Inr ps"
proof -
  let ?h = "image_header X n ps" and ?d = "codebook_image X n ps"
  let ?r = "\<lparr>rData = ?d, rHeader = ?h, rLruCache = Map.empty\<rparr>"
  note op = image_opens [OF assms(1-5)]
  have wf: "wf_reader ?r" using OpenFromBytes_wf(1) [OF op(1)] op(2,3) by simp
  then have hwf: "wf_cb_header ?h" by (simp add: wf_reader_def)
  have parse: "cb_ParseHeader ?d = Inr ?h"
    unfolding codebook_image_Serialize [OF X] by (rule cb_ParseHeader_Serialize [OF hwf])
  have end_ok: "\<not> of_nat (length ?d) < DataOffset ?h + ucast (CodewordSize ?h) * CodewordCount ?h"
    using op(1) by (auto simp: OpenFromBytes_def parse Let_def split: if_splits)
  have cw: "codeword ?r i = ps ! i" if "i < length ps" for i
  proof -
    have "unat (DataOffset ?h) = 512" by (simp add: image_header_def)
    then have "codeword ?r i = slice ?d (512 + i * n) (512 + i * n + n)"
      by (simp add: codeword_def op(4) Let_def)
    also have "\<dots> = slice (concat ps) (i * n) (i * n + n)"
      unfolding codebook_image_Serialize [OF X] using length_cb_Serialize [OF hwf] by (simp add: slice_append2)
    also have "\<dots> = ps ! i" by (rule concat_slice_equal [OF ps that])
    finally show ?thesis .
  qed
  have "read_patterns_from ?d (DataOffset ?h) (ucast (CodewordSize ?h)) [0..<length ps] = Inr (map (codeword ?r) [0..<length ps])"
    using read_patterns_from_codewords [OF wf, of "[0..<length ps]"] op(5) by simp
  moreover have "map (codeword ?r) [0..<length ps] = ps" using cw by (intro nth_equalityI) simp_all
  ultimately show ?thesis using parse end_ok by (simp add: ReadPatterns_def f op(5) Let_def)
qed

section \<open>What a training selects\<close>

text \<open>
  What the environment and the corpus have to satisfy: maps are iterated in some order, the
  workers report every record once, no two chunks of the corpus share a hash, and the codebook
  to extend, if there is one, has codewords of the chunk size.
\<close>

definition train_env_ok :: "TrainEnv \<Rightarrow> bool" where
  "train_env_ok env \<longleftrightarrow>
     order_ok (teOrder env) \<and> (\<forall>rs. mset (teSchedule env rs) = mset rs) \<and> (\<forall>cs. mset (tePairs env cs) = mset cs)"

definition corpus_ok :: "(bytes \<Rightarrow> u64) \<Rightarrow> TrainEnv \<Rightarrow> TrainOptions \<Rightarrow> fs \<Rightarrow> bool" where
  "corpus_ok xx env opts fs \<longleftrightarrow>
     inj_on xx (corpus_chunks xx (NewFixedChunker (int (train_chunk_size opts))) fs (teFiles env)) \<and>
     (BasePath opts \<noteq> [] \<longrightarrow>
        (\<forall>base. ReadPatterns fs (BasePath opts) = Inr base \<longrightarrow> (\<forall>p \<in> set base. length p = train_chunk_size opts)))"

lemma train_bpe_ok:
  assumes "\<forall>cs. mset (tePairs env cs) = mset cs"
  shows "\<forall>p \<in> set (train_bpe env fs m n). length p = n" "256 \<le> length (train_bpe env fs m n)"
    "int (length (train_bpe env fs m n)) \<le> max 256 (uint (of_int m :: u32))"
proof -
  let ?data = "bpe_corpus [] (teBuffers env (corpus_buffers fs (teFiles env)))"
  obtain v ts where r: "bpe_run (tePairs env) (NewBPEBuilder m (int n)) ?data = (v, ts)" by fastforce
  have "256 \<le> length v" "int (length v) \<le> max 256 (uint (of_int m :: u32))"
  proof -
    have l: "256 \<le> length v" "length v \<le> max 256 (unat (of_int m :: u32))" using bpe_run_ok [OF assms r] by blast+
    then have "int (length v) \<le> int (max 256 (unat (of_int m :: u32)))" by (simp only: of_nat_le_iff)
    with l(1) show "256 \<le> length v" "int (length v) \<le> max 256 (uint (of_int m :: u32))"
      by (simp_all only: of_nat_max uint_nat of_nat_numeral)
  qed
  moreover have "length (vocab (NewBPEBuilder m (int n))) = 256" by (simp add: NewBPEBuilder_def)
  ultimately show "256 \<le> length (train_bpe env fs m n)"
    "int (length (train_bpe env fs m n)) \<le> max 256 (uint (of_int m :: u32))"
    using r by (auto simp: train_bpe_def bpe_Train_def)
  show "\<forall>p \<in> set (train_bpe env fs m n). length p = n"
    by (simp add: train_bpe_def gcopy_def length_put)
qed

lemma fill_slots_ok:
  "set (fill_slots hs m result ps) \<subseteq> set result \<union> set ps \<and>
   int (length (fill_slots hs m result ps)) \<le> max m (int (length result))"
  by (induction hs m result ps rule: fill_slots.induct) auto

lemma mergeBaseWithNew_ok:
  "set (mergeBaseWithNew base new m) \<subseteq> set base \<union> set new"
  "0 \<le> m \<Longrightarrow> int (length (mergeBaseWithNew base new m)) \<le> m"
  using fill_slots_ok [of "map hashPattern base" m "take (nat m) base" new]
  by (auto simp: mergeBaseWithNew_def dest: in_set_takeD)

lemma first_table_ok:
  assumes "0 < fcChunkSize fc" "\<forall>rs. mset (teSchedule env rs) = mset rs"
  shows "\<exists>rs. corpus_records xx fc n fs i files = Inr rs \<and>
    table_in xx n (corpus_chunks xx fc fs files) (first_table xx aug (teSchedule env rs)) \<and>
    (\<forall>d \<in> corpus_chunks xx fc fs files. length d = n \<longrightarrow> rs \<noteq> [])"
proof -
  obtain rs where rs: "corpus_records xx fc n fs i files = Inr rs"
    "fst ` set rs = {d \<in> corpus_chunks xx fc fs files. length d = n}"
    using corpus_records_ok [OF assms(1)] by blast
  have "set (teSchedule env rs) = set rs" using assms(2) by (metis set_mset_mset)
  then have "\<forall>r \<in> set (teSchedule env rs). fst r \<in> corpus_chunks xx fc fs files \<and> length (fst r) = n"
    using rs(2) by auto
  from table_in_first [OF this] rs show ?thesis by auto
qed

lemma record_all_not_Nil: "rs \<noteq> [] \<Longrightarrow> record_all xx rs \<noteq> []"
proof -
  have *: "RecordAt xx d p ft \<noteq> []" for d p ft
    by (cases ft) (auto simp: RecordAt_def Let_def split: option.splits)
  have "ft \<noteq> [] \<Longrightarrow> fold (\<lambda>(d, p). RecordAt xx d p) rs ft \<noteq> []" for ft rs
    using * by (induction rs arbitrary: ft) (simp_all add: split_beta)
  with * show "rs \<noteq> [] \<Longrightarrow> record_all xx rs \<noteq> []" by (cases rs) (simp_all add: record_all_def split_beta)
qed

text \<open>Whatever the mode: codewords of one length, at most as many as asked for.\<close>

lemma train_select_ok:
  assumes env: "train_env_ok env" and c: "corpus_ok (xxhash X) env opts fs" and m: "0 < m"
    and n: "n = train_chunk_size opts" "0 < n"
    and r: "train_select X env opts fs m k n = Inr (selected, u, merged, replaced)"
  shows "(\<forall>p \<in> set selected. length p = n) \<and>
    int (length selected) \<le> (if UseBPE opts then max 256 (uint (of_int m :: u32)) else m)"
proof (cases "UseBPE opts")
  case True
  with r train_bpe_ok [of env fs m n] env show ?thesis by (auto simp: train_select_def Let_def train_env_ok_def)
next
  case False
  let ?fc = "NewFixedChunker (int n)" and ?xx = "xxhash X"
  let ?C = "corpus_chunks ?xx ?fc fs (teFiles env)"
  have fc: "0 < fcChunkSize ?fc" using n(2) by (simp add: NewFixedChunker_def)
  have inj: "inj_on ?xx ?C" using c n(1) by (simp add: corpus_ok_def)
  have o: "order_ok (teOrder env)" using env by (simp add: train_env_ok_def)
  obtain rs where rs: "corpus_records ?xx ?fc n fs 0 (teFiles env) = Inr rs"
    "table_in ?xx n ?C (first_table ?xx (DataAugmentation opts) (teSchedule env rs))"
    using first_table_ok [OF fc, of env ?xx n fs 0 "teFiles env" "DataAugmentation opts"] env
    by (auto simp: train_env_ok_def)
  let ?ft = "first_table ?xx (DataAugmentation opts) (teSchedule env rs)"
  obtain ft where ft: "(if DataAugmentation opts then AugmentPatterns ?xx (teOrder env) (nat m div 2) ?ft else Inr ?ft) = Inr ft"
    using r False rs(1) by (auto simp: train_select_def Let_def rbind_Inr_iff)
  have t: "table_in ?xx n ?C ft"
    using ft rs(2) table_in_augment by (auto simp: AugmentPatterns_def Let_def split: if_splits)
  have el: "(\<forall>p \<in> set ps. length p = n) \<and> int (length ps) \<le> m"
    if "table_in ?xx n ?C ft'" "elite X env fs ?fc m k ft' = Inr ps" for ft' ps
    using elite_ok [OF fc inj that(1) o m, of k] that(2) by auto
  show ?thesis
  proof (cases "UpdatePath opts \<noteq> []")
    case True
    then obtain existing where
      "elite X env fs ?fc m k (update_table ?xx n existing ft) = Inr selected"
      using r False rs(1) ft by (auto simp: train_select_def Let_def rbind_Inr_iff)
    from el [OF table_in_update_table [OF t] this] False show ?thesis by simp
  next
    case upd: False
    show ?thesis
    proof (cases "BasePath opts \<noteq> []")
      case True
      then obtain base new where b: "ReadPatterns fs (BasePath opts) = Inr base" "elite X env fs ?fc m k ft = Inr new"
        "selected = mergeBaseWithNew base new m"
        using r False rs(1) ft upd by (auto simp: train_select_def Let_def rbind_Inr_iff)
      have "\<forall>p \<in> set base. length p = n" using c b(1) True n(1) by (simp add: corpus_ok_def)
      then have "\<forall>p \<in> set selected. length p = n"
        using el [OF t b(2)] mergeBaseWithNew_ok(1) [of base new m] b(3) by blast
      with mergeBaseWithNew_ok(2) [of m base new] m b(3) False show ?thesis by simp
    next
      case False
      then have "elite X env fs ?fc m k ft = Inr selected"
        using r \<open>\<not> UseBPE opts\<close> rs(1) ft upd by (auto simp: train_select_def Let_def rbind_Inr_iff)
      from el [OF t this] \<open>\<not> UseBPE opts\<close> show ?thesis by simp
    qed
  qed
qed

section \<open>What a training writes\<close>

text \<open>A corpus with a file of at least one chunk has a full chunk.\<close>

lemma cut_chunks_full:
  assumes "0 < n" "n \<le> length b"
  shows "\<exists>c \<in> set (cut_chunks xx (NewFixedChunker (int n)) b). length (cData c) = n"
proof -
  have b: "b \<noteq> []" using assms by auto
  have s: "fcChunkSize (NewFixedChunker (int n)) = n" using assms(1) by (simp add: NewFixedChunker_def)
  show ?thesis
    using assms b by (subst cut_chunks_def, simp add: FixedChunker_Split_def s, subst fixed_loop.simps)
      (simp add: makeChunk_simps length_slice Let_def)
qed

lemma corpus_has_full_chunk:
  assumes "f \<in> set files" "fs f = Some d" "0 < n" "n \<le> length d" "n \<le> BlockSize"
  shows "\<exists>c \<in> corpus_chunks xx (NewFixedChunker (int n)) fs files. length c = n"
proof -
  have "d \<noteq> []" using assms(3,4) by auto
  then have "take BlockSize d \<in> set (read_blocks d)" by (simp add: read_blocks_Cons)
  then have m: "take BlockSize d \<in> set (corpus_buffers fs files)"
    using assms(1,2) by (force simp: corpus_buffers_def split: option.splits)
  from cut_chunks_full [of n "take BlockSize d" xx] assms obtain c where
    "c \<in> set (cut_chunks xx (NewFixedChunker (int n)) (take BlockSize d))" "length (cData c) = n" by auto
  with m show ?thesis unfolding corpus_chunks_def corpus_cut_def by auto
qed

lemma by_bucket_facts:
  "set (by_bucket ps) = set ps" "length (by_bucket ps) = length ps"
  "sorted (map (\<lambda>p. unat (computeLSHBucket p)) (by_bucket ps))"
  by (simp_all add: by_bucket_def)

lemma by_bucket_stable:
  "filter (\<lambda>p. computeLSHBucket p = b) (by_bucket ps) = filter (\<lambda>p. computeLSHBucket p = b) ps"
proof -
  have "(\<lambda>p. unat (computeLSHBucket p) = unat b) = (\<lambda>p. computeLSHBucket p = b)" by (simp add: fun_eq_iff word_unat_eq_iff)
  then show ?thesis
    using sort_key_stable [of "\<lambda>p. unat (computeLSHBucket p)" "unat b" ps] by (simp add: by_bucket_def eq_commute)
qed

text \<open>The written file, given what was selected.\<close>

lemma WriteCodebook_good:
  assumes X: "hash_sizes_ok X" and ps: "ps \<noteq> []" "\<forall>p \<in> set ps. length p = n" and n: "0 < n" "n < 2 ^ 16"
    and m: "length ps < 2 ^ 40"
  shows "\<exists>data. WriteCodebook X path ps fs = (Inr (), fs(path \<mapsto> data)) \<and> good_codebook data \<and>
    (\<forall>fs'. fs' path = Some data \<longrightarrow> ReadPatterns fs' path = Inr (by_bucket ps))"
proof -
  let ?d = "codebook_image X n (by_bucket ps)"
  have l: "length (ps ! 0) = n" using ps by (cases ps) simp_all
  have b: "\<forall>p \<in> set (by_bucket ps). length p = n" "length (by_bucket ps) < 2 ^ 40" "by_bucket ps \<noteq> []"
    using ps m by_bucket_facts(1,2) [of ps] by auto
  note op = image_opens [OF X b(1) n b(2)]
  have "CodewordCount (image_header X n (by_bucket ps)) \<noteq> 0" using op(5) b(3) by auto
  then have "good_codebook ?d" using op(1-3) unfolding good_codebook_def by auto
  moreover have "\<forall>fs'. fs' path = Some ?d \<longrightarrow> ReadPatterns fs' path = Inr (by_bucket ps)"
    using image_patterns [OF X b(1) n b(2)] by blast
  moreover have "WriteCodebook X path ps fs = (Inr (), fs(path \<mapsto> ?d))" using ps(1) l by (simp add: WriteCodebook_def)
  ultimately show ?thesis by (intro exI conjI)
qed

lemma train_bounds:
  assumes "train_chunk_size opts < 2 ^ 16" "MaxCodewords opts < 2 ^ 40"
  shows "0 < train_chunk_size opts" "0 < train_max opts" "train_max opts < 2 ^ 40"
    "max 256 (uint (w :: u32)) < 2 ^ 40"
  using assms uint_lt2p [of w]
  by (auto simp: train_chunk_size_def train_max_def DefaultChunkSize_def)

lemma Train_ok:
  assumes X: "hash_sizes_ok X" and env: "train_env_ok env" and c: "corpus_ok (xxhash X) env opts fs"
    and b: "train_chunk_size opts < 2 ^ 16" "MaxCodewords opts < 2 ^ 40"
    and r: "Train X env opts fs = (Inr res, fs')"
  shows "\<exists>data patterns. fs' = fs(OutputPath opts \<mapsto> data) \<and> good_codebook data \<and>
    ReadPatterns fs' (OutputPath opts) = Inr patterns \<and> length patterns = trSelectedElite res \<and>
    (\<forall>p \<in> set patterns. length p = train_chunk_size opts) \<and>
    sorted (map (\<lambda>p. unat (computeLSHBucket p)) patterns) \<and>
    int (length patterns) \<le> (if UseBPE opts then max 256 (uint (of_int (train_max opts) :: u32)) else train_max opts)"
proof -
  note bd = train_bounds [OF b]
  let ?k = "if AlignedMinCodewordSize \<le> train_chunk_size opts then 0 else MaxPerBucket opts"
  obtain ps u merged replaced where sel:
    "train_select X env opts fs (train_max opts) ?k (train_chunk_size opts) = Inr (ps, u, merged, replaced)"
    "WriteCodebook X (OutputPath opts) ps fs = (Inr (), fs')" "trSelectedElite res = length ps"
    using r by (auto simp: Train_def Let_def split: if_splits sum.splits prod.splits unit.splits)
  from train_select_ok [OF env c bd(2) refl bd(1) sel(1)] have ok: "\<forall>p \<in> set ps. length p = train_chunk_size opts"
    "int (length ps) \<le> (if UseBPE opts then max 256 (uint (of_int (train_max opts) :: u32)) else train_max opts)" by blast+
  have ne: "ps \<noteq> []" using sel(2) by (auto simp: WriteCodebook_def)
  have "int (length ps) < 2 ^ 40" using ok(2) bd(3) bd(4) [of "of_int (train_max opts)"]
    by (cases "UseBPE opts") (simp_all only: if_True if_False order.strict_trans1)
  then have l: "length ps < 2 ^ 40" by simp
  from WriteCodebook_good [OF X ne ok(1) bd(1) b(1) l, of "OutputPath opts" fs] sel(2) obtain data where
    d: "fs' = fs(OutputPath opts \<mapsto> data)" "good_codebook data"
    "\<forall>fs'. fs' (OutputPath opts) = Some data \<longrightarrow> ReadPatterns fs' (OutputPath opts) = Inr (by_bucket ps)" by auto
  have "ReadPatterns fs' (OutputPath opts) = Inr (by_bucket ps)" using d(1,3) by simp
  moreover have "\<forall>p \<in> set (by_bucket ps). length p = train_chunk_size opts" using ok(1) by (simp only: by_bucket_facts(1))
  moreover have "length (by_bucket ps) = trSelectedElite res" using sel(3) by (simp only: by_bucket_facts(2))
  moreover have "int (length (by_bucket ps)) \<le>
      (if UseBPE opts then max 256 (uint (of_int (train_max opts) :: u32)) else train_max opts)"
    using ok(2) by (simp only: by_bucket_facts(2))
  ultimately show ?thesis using d(1,2) by_bucket_facts(3) [of ps] by (intro exI conjI)
qed

text \<open>Without a codebook to extend, a corpus with one full chunk is enough for success.\<close>

lemma Train_succeeds:
  assumes X: "hash_sizes_ok X" and env: "train_env_ok env" and c: "corpus_ok (xxhash X) env opts fs"
    and mode: "\<not> UseBPE opts" "\<not> DataAugmentation opts" "UpdatePath opts = []" "BasePath opts = []"
    and paths: "InputDir opts \<noteq> []" "OutputPath opts \<noteq> []"
    and f: "f \<in> set (teFiles env)" "fs f = Some d" "train_chunk_size opts \<le> length d"
    and b: "train_chunk_size opts < 2 ^ 16" "MaxCodewords opts < 2 ^ 40"
  shows "\<exists>res fs'. Train X env opts fs = (Inr res, fs')"
proof -
  note bd = train_bounds [OF b]
  let ?n = "train_chunk_size opts" and ?xx = "xxhash X" and ?m = "train_max opts"
  let ?fc = "NewFixedChunker (int ?n)"
  let ?k = "if AlignedMinCodewordSize \<le> ?n then 0 else MaxPerBucket opts"
  have fc: "0 < fcChunkSize ?fc" by (rule NewFixedChunker_pos)
  have inj: "inj_on ?xx (corpus_chunks ?xx ?fc fs (teFiles env))" using c by (simp add: corpus_ok_def)
  have o: "order_ok (teOrder env)" using env by (simp add: train_env_ok_def)
  have "?n \<le> BlockSize" using b(1) by (simp add: BlockSize_def)
  from corpus_has_full_chunk [where fs = fs, OF f(1,2) bd(1) f(3) this, of ?xx] first_table_ok [OF fc, of env ?xx ?n fs 0 "teFiles env" False]
  obtain rs where rs: "corpus_records ?xx ?fc ?n fs 0 (teFiles env) = Inr rs" "rs \<noteq> []"
    "table_in ?xx ?n (corpus_chunks ?xx ?fc fs (teFiles env)) (first_table ?xx False (teSchedule env rs))"
    using env by (auto simp: train_env_ok_def)
  let ?ft = "first_table ?xx False (teSchedule env rs)"
  have "mset (teSchedule env rs) = mset rs" using env by (simp add: train_env_ok_def)
  then have "teSchedule env rs \<noteq> []" using rs(2) by (metis mset_zero_iff)
  then have "?ft \<noteq> []" by (simp add: first_table_def record_all_not_Nil)
  with elite_ok [OF fc inj rs(3) o bd(2), of ?k] obtain ps where ps: "elite X env fs ?fc ?m ?k ?ft = Inr ps" "ps \<noteq> []" by blast
  have sel: "train_select X env opts fs ?m ?k ?n = Inr (ps, ft_Len ?ft, 0, 0)"
    using mode rs(1) ps(1) by (simp add: train_select_def Let_def)
  have "teFiles env \<noteq> []" using f(1) by auto
  with sel ps(2) paths show ?thesis by (simp add: Train_def Let_def WriteCodebook_def)
qed


section \<open>Properties\<close>

text \<open>
  C23. What is chosen and how it is numbered, for a plain selection from a table of patterns of the
  chunk size (no two chunks of the corpus with one hash). At most the requested number of patterns is
  chosen, and at most the limit per bucket; a pattern is left out only if its bucket was filled by
  patterns at least as frequent, or if the codebook was filled by such patterns. The list chosen is in
  reading order, and the second pass over the corpus finds the bytes of every pattern. The codewords of
  the written codebook are not numbered in that order: \<open>WriteCodebook\<close> sorts them by bucket, so they
  are in reading order only within a bucket.
\<close>

theorem selection_numbered:
  assumes "hash_sizes_ok X" "order_ok (teOrder env)" "0 < n" "n < 2 ^ 16" "0 < maxCodewords" "maxCodewords < 2 ^ 40"
    and "inj_on (xxhash X) (corpus_chunks (xxhash X) (NewFixedChunker (int n)) fs (teFiles env))"
    and "table_in (xxhash X) n (corpus_chunks (xxhash X) (NewFixedChunker (int n)) fs (teFiles env)) ft" "ft \<noteq> []"
  shows "\<exists>picked bytes data ids.
    selectPicked (teOrder env) ft maxCodewords maxPerBucket = Inr picked \<and>
    greedy_choice maxCodewords (if maxPerBucket \<le> 0 then maxCodewords else maxPerBucket) (snd ` set ft) picked \<and>
    sorted (map (\<lambda>e. unat (peFirst e)) picked) \<and>
    elite X env fs (NewFixedChunker (int n)) maxCodewords maxPerBucket ft = Inr (map bytes picked) \<and>
    (\<forall>e \<in> set picked. length (bytes e) = n \<and> pattern_of (xxhash X) e (bytes e)) \<and>
    WriteCodebook X path (map bytes picked) fs = (Inr (), fs(path \<mapsto> data)) \<and>
    ReadPatterns (fs(path \<mapsto> data)) path = Inr ids \<and>
    sorted (map (\<lambda>p. unat (computeLSHBucket p)) ids) \<and>
    (\<forall>b. filter (\<lambda>p. computeLSHBucket p = b) ids = filter (\<lambda>p. computeLSHBucket p = b) (map bytes picked))"
proof -
  have fc: "0 < fcChunkSize (NewFixedChunker (int n))" using assms(3) by (simp add: NewFixedChunker_def)
  obtain picked bytes where p: "selectPicked (teOrder env) ft maxCodewords maxPerBucket = Inr picked"
    "greedy_choice maxCodewords (if maxPerBucket \<le> 0 then maxCodewords else maxPerBucket) (snd ` set ft) picked"
    "sorted (map (\<lambda>e. unat (peFirst e)) picked)" "picked \<noteq> []"
    "elite X env fs (NewFixedChunker (int n)) maxCodewords maxPerBucket ft = Inr (map bytes picked)"
    "\<forall>e \<in> set picked. length (bytes e) = n \<and> pattern_of (xxhash X) e (bytes e)"
    using elite_patterns [OF fc assms(7,8,2,5), of maxPerBucket] assms(9) by blast
  let ?ps = "map bytes picked"
  have ps: "?ps \<noteq> []" "\<forall>p \<in> set ?ps. length p = n" using p(4,6) by auto
  have l: "length ?ps < 2 ^ 40" using p(2) assms(6) by (simp add: greedy_choice_def)
  obtain data where w: "WriteCodebook X path ?ps fs = (Inr (), fs(path \<mapsto> data))"
    "ReadPatterns (fs(path \<mapsto> data)) path = Inr (by_bucket ?ps)"
    using WriteCodebook_good [OF assms(1) ps assms(3,4) l, of path fs] by auto
  have "filter (\<lambda>p. computeLSHBucket p = b) (by_bucket ?ps) = filter (\<lambda>p. computeLSHBucket p = b) ?ps" for b
    by (rule by_bucket_stable)
  with p w by_bucket_facts(3) [of ?ps] show ?thesis by blast
qed

definition sample_table :: FrequencyTable where
  "sample_table =
     map (\<lambda>(h, d, c, f). (h, \<lparr>peHash = h, peCount = c, peData = Some d, peFirst = f, peBucket = 0\<rparr>))
       [(1, [9, 0], 2, 0), (2, [5, 0], 3, 2), (3, [9, 0], 1, 4)]"

theorem selection_numbered_witness:
  "\<exists>picked bytes data ids. selectPicked rev sample_table 2 0 = Inr picked \<and> map peHash picked = [1, 2] \<and>
    WriteCodebook toy_ext ''brain'' (map bytes picked) Map.empty = (Inr (), [''brain'' \<mapsto> data]) \<and>
    ReadPatterns [''brain'' \<mapsto> data] ''brain'' = Inr ids \<and> set ids = {[9, 0], [5, 0]} \<and>
    sorted (map (\<lambda>p. unat (computeLSHBucket p)) ids)"
proof -
  let ?env = "\<lparr>teFiles = [], teSchedule = rev, teBuffers = rev, teOrder = rev, tePairs = rev\<rparr> :: TrainEnv"
  have o: "order_ok (teOrder ?env)" by (simp add: order_ok_def)
  have c: "corpus_chunks (xxhash toy_ext) (NewFixedChunker (int 2)) Map.empty (teFiles ?env) = {}"
    by (simp add: corpus_chunks_def corpus_cut_def corpus_buffers_def)
  have t: "table_in (xxhash toy_ext) 2 (corpus_chunks (xxhash toy_ext) (NewFixedChunker (int 2)) Map.empty (teFiles ?env)) sample_table"
    by (simp add: table_in_def ft_ok_def entry_in_def sample_table_def)
  have i: "inj_on (xxhash toy_ext) (corpus_chunks (xxhash toy_ext) (NewFixedChunker (int 2)) Map.empty (teFiles ?env))"
    unfolding c by simp
  have ne: "sample_table \<noteq> []" by (simp add: sample_table_def)
  obtain picked bytes data ids where r: "selectPicked rev sample_table 2 0 = Inr picked"
    "\<forall>e \<in> set picked. length (bytes e) = 2 \<and> pattern_of (xxhash toy_ext) e (bytes e)"
    "WriteCodebook toy_ext ''brain'' (map bytes picked) Map.empty = (Inr (), [''brain'' \<mapsto> data])"
    "ReadPatterns [''brain'' \<mapsto> data] ''brain'' = Inr ids" "sorted (map (\<lambda>p. unat (computeLSHBucket p)) ids)"
    "\<forall>b. filter (\<lambda>p. computeLSHBucket p = b) ids = filter (\<lambda>p. computeLSHBucket p = b) (map bytes picked)"
    using selection_numbered [where env = ?env and fs = Map.empty and path = "''brain''" and maxCodewords = 2 and maxPerBucket = 0,
        OF toy_ext_ok(4) o _ _ _ _ i t ne] by auto
  have "selectPicked rev sample_table 2 0 =
      Inr (map (\<lambda>(h, d, c, f). \<lparr>peHash = h, peCount = c, peData = Some d, peFirst = f, peBucket = 0\<rparr>)
        [(1, [9, 0], 2, 0), (2, [5, 0], 3, 2)])"
    by (simp add: selectPicked_def by_count_def ft_All_def sample_table_def Let_def entry_bucket_def computeLSHBucket_def)
  with r(1) have p: "picked = map (\<lambda>(h, d, c, f). \<lparr>peHash = h, peCount = c, peData = Some d, peFirst = f, peBucket = 0\<rparr>)
        [(1, [9, 0], 2, 0), (2, [5, 0], 3, 2)]" by simp
  have b: "map bytes picked = [[9, 0], [5, 0]]" using r(2) unfolding p by (simp add: pattern_of_def)
  have "p \<in> set ids \<longleftrightarrow> p \<in> set (map bytes picked)" for p
    using arg_cong [OF spec [OF r(6), of "computeLSHBucket p"], of "\<lambda>xs. p \<in> set xs"] by simp
  then have "set ids = {[9, 0], [5, 0]}" unfolding b by auto
  moreover have "map peHash picked = [1, 2]" by (simp add: p)
  ultimately show ?thesis
    using r(1,3-5) by (intro exI [of _ picked] exI [of _ bytes] exI [of _ data] exI [of _ ids] conjI) assumption+
qed


definition sample_corpus :: fs where
  "sample_corpus = [''a'' \<mapsto> [1, 2, 3, 4, 1, 2, 3, 4, 9], ''in'' \<mapsto> replicate 300 7]"

definition sample_train :: TrainOptions where
  "sample_train = \<lparr>InputDir = ''d'', OutputPath = ''brain'', MaxCodewords = 16, MaxPerBucket = 4, tConcurrency = 2,
     tChunkSize = 4, DataAugmentation = False, UseBPE = False, UpdatePath = [], BasePath = []\<rparr>"

definition sample_train_env :: TrainEnv where
  "sample_train_env = \<lparr>teFiles = [''a''], teSchedule = rev, teBuffers = rev, teOrder = rev, tePairs = rev\<rparr>"

lemma sample_train_ok: "train_env_ok sample_train_env" "corpus_ok (xxhash toy_ext) sample_train_env sample_train sample_corpus"
  "train_chunk_size sample_train = 4"
proof -
  show "train_env_ok sample_train_env" by (simp add: train_env_ok_def sample_train_env_def order_ok_def)
  show n: "train_chunk_size sample_train = 4" by (simp add: train_chunk_size_def sample_train_def)
  have "read_blocks [1, 2, 3, 4, 1, 2, 3, 4, 9] = [[1, 2, 3, 4, 1, 2, 3, 4, 9]]" by (simp add: read_blocks_Cons BlockSize_def)
  moreover have "map cData (cut_chunks (xxhash toy_ext) (NewFixedChunker 4) [1, 2, 3, 4, 1, 2, 3, 4, 9]) = [[1, 2, 3, 4], [1, 2, 3, 4], [9]]"
    by code_simp
  then have "cData ` set (cut_chunks (xxhash toy_ext) (NewFixedChunker 4) [1, 2, 3, 4, 1, 2, 3, 4, 9]) = {[1, 2, 3, 4], [9]}"
    by (metis (no_types, lifting) list.set_map list.simps(15) set_empty insert_absorb2 list.set(1))
  ultimately have "corpus_chunks (xxhash toy_ext) (NewFixedChunker 4) sample_corpus (teFiles sample_train_env) = {[1, 2, 3, 4], [9]}"
    by (simp add: corpus_chunks_def corpus_cut_def corpus_buffers_def sample_corpus_def sample_train_env_def)
  then show "corpus_ok (xxhash toy_ext) sample_train_env sample_train sample_corpus"
    by (simp add: corpus_ok_def n inj_on_def toy_ext_def) (simp add: sample_train_def)
qed


text \<open>
  C21. The chain from a corpus to a restored file, for a plain training (no byte pairs, augmentation,
  update or base) with a chunk size below \<open>2 ^ 16\<close> and fewer than \<open>2 ^ 40\<close> codewords, on a corpus in which
  no two chunks collide under the hash and some file has a full chunk: training succeeds; packing any
  file below 128 MiB with the trained codebook alone, not embedded, and with lossless settings (not
  the edge mode, no convergent encryption, a worker, maximal compression only with cgo) succeeds; and
  unpacking, with the same key and without fuzziness, restores it. The order of the workers and of the
  maps does not matter.
\<close>

theorem train_pack_unpack:
  assumes "zstd_ok X" "zstd_bound X" "gcm_ok X" "hash_sizes_ok X"
    and "train_env_ok tenv" "corpus_ok (xxhash X) tenv topts fs"
    and "\<not> UseBPE topts" "\<not> DataAugmentation topts" "UpdatePath topts = []" "BasePath topts = []"
    and "InputDir topts \<noteq> []" "OutputPath topts \<noteq> []"
    and "f \<in> set (teFiles tenv)" "fs f = Some d" "train_chunk_size topts \<le> length d"
    and "train_chunk_size topts < 2 ^ 16" "MaxCodewords topts < 2 ^ 40"
    and "env_ok env" "lossless env opts" "CodebookPaths opts = []" "\<not> EmbedBrain opts" "oChunkSize opts < 2 ^ 60"
    and "fs inputPath = Some input" "length input < 2 ^ 27" "inputPath \<noteq> OutputPath topts"
    and "OutputPath topts \<noteq> outputPath" "OutputPath topts \<noteq> outputPath @ ''.tmp''"
    and "uEncryptionKey uopts = EncryptionKey opts" "Fuzziness uopts \<le> 0"
  shows "\<exists>res fs1 m fs2. Train X tenv topts fs = (Inr res, fs1) \<and>
    Pack X env inputPath outputPath (OutputPath topts) opts fs1 = (Inr m, fs2) \<and>
    Unpack X rnd outputPath dest (OutputPath topts) uopts fs2 = (Inr (), (fs2(dest @ ''.tmp'' := None))(dest \<mapsto> input))"
proof -
  let ?cb = "OutputPath topts"
  obtain res fs1 where t: "Train X tenv topts fs = (Inr res, fs1)"
    using Train_succeeds [where fs = fs, OF assms(4-17)] by blast
  from Train_ok [where fs = fs, OF assms(4-6,16,17) t] obtain data where
    data: "fs1 = fs(?cb \<mapsto> data)" "good_codebook data" by blast
  have inp: "fs1 inputPath = Some input" using data(1) assms(23,25) by simp
  have fit: "brain_fits X opts fs1 ?cb" using assms(21) by (simp add: brain_fits_def)
  have "fs1 ?cb = Some data" using data(1) by simp
  with data(2) have "?cb = [] \<or> (\<exists>data. fs1 ?cb = Some data \<and> good_codebook data)" by blast
  then obtain cbs where cbs: "codebook_given fs1 opts ?cb cbs" using good_codebook_given [where fs = fs1, OF assms(20)] by blast
  obtain m out where p: "Pack X env inputPath outputPath ?cb opts fs1 =
      (Inr m, (fs1(outputPath @ ''.tmp'' := None))(outputPath \<mapsto> out))" "restorable X opts fs1 ?cb cbs out input"
    using Pack_ok [OF assms(1-4,18,19) cbs assms(22) fit inp assms(24)] by blast
  let ?fs = "(fs1(outputPath @ ''.tmp'' := None))(outputPath \<mapsto> out)"
  have "Unpack X rnd outputPath dest ?cb uopts ?fs = (Inr (), (?fs(dest @ ''.tmp'' := None))(dest \<mapsto> input))"
    by (rule Unpack_restorable [OF assms(1-4) p(2) cbs _ _ _ assms(28,29)]) (use assms(26,27) in simp_all)
  with t p(1) show ?thesis by blast
qed

theorem train_pack_unpack_witness:
  "\<exists>res fs1 m fs2. Train toy_ext sample_train_env sample_train sample_corpus = (Inr res, fs1) \<and>
    Pack toy_ext sample_env ''in'' ''out'' ''brain'' sample_options fs1 = (Inr m, fs2) \<and>
    Unpack toy_ext (\<lambda>_. 0) ''out'' ''back'' ''brain'' \<lparr>Fuzziness = 0, uEncryptionKey = [], Strict = True\<rparr> fs2 =
      (Inr (), (fs2(''back'' @ ''.tmp'' := None))(''back'' \<mapsto> replicate 300 7))"
proof -
  have env: "env_ok sample_env" by (auto simp: env_ok_def sample_env_def NonceSize_def)
  have o: "lossless sample_env sample_options" by (simp add: lossless_def converging_def sample_options_def)
  have out: "OutputPath sample_train = ''brain''" by (simp add: sample_train_def)
  have f: "''a'' \<in> set (teFiles sample_train_env)" "sample_corpus ''a'' = Some [1, 2, 3, 4, 1, 2, 3, 4, 9]"
    "sample_corpus ''in'' = Some (replicate 300 7)"
    by (simp_all add: sample_train_env_def sample_corpus_def)
  show ?thesis
    unfolding out [symmetric]
    by (rule train_pack_unpack [where fs = sample_corpus, OF toy_ext_ok sample_train_ok(1,2) _ _ _ _ _ _ f(1,2) _ _ _ env o _ _ _ f(3)])
      (simp_all add: sample_train_ok(3) out, simp_all add: sample_train_def sample_options_def)
qed

end
