(* ===== verification/Sync_Manifest.thy ===== *)
theory Sync_Manifest
  imports Pack_File "HOL-Library.Sublist"
begin

text \<open>
  \<^verbatim>\<open>pkg/sync/manifest.go\<close>: the manifest of a file, which names every chunk by its codeword and
  the hash of its residual; its binary form; the difference of two manifests; and the loop over
  the blocks of a file that the synchronisation is built on. What a caller does with a block is
  an instance of the locale \<open>block_visitor\<close>. The JSON form is the encoder of the standard
  library and is left out.
\<close>

section \<open>Manifests\<close>

definition ManifestVersion :: u16 where "ManifestVersion = 1"
definition ManifestEntryBinarySize :: nat where "ManifestEntryBinarySize = 21"

record ManifestEntry =
  meCodebookID :: u64
  meDeltaHash :: u64
  meChunkSize :: u32
  meCodebookIndex :: byte

record ChunkManifest =
  cmVersion :: u16
  cmOriginalHash :: bytes
  cmOriginalSize :: u64
  cmChunkCount :: u32
  cmEntries :: "ManifestEntry list"

record DiffResult =
  Missing :: "ManifestEntry list"
  Extra :: "ManifestEntry list"

definition zero_manifest_entry :: ManifestEntry where
  "zero_manifest_entry = \<lparr>meCodebookID = 0, meDeltaHash = 0, meChunkSize = 0, meCodebookIndex = 0\<rparr>"

section \<open>The blocks of a file\<close>

text \<open>A block of the pool, read and opened.\<close>

definition sync_block :: "ext \<Rightarrow> Header \<Rightarrow> bytes \<Rightarrow> bytes \<Rightarrow> bytes \<Rightarrow> bytes res" where
  "sync_block X header encryptionKey dict blockData =
     rbind (if IsEncrypted header
            then wrap_err ''sync: decrypt block'' (Decrypt X (DeriveKey X encryptionKey (Salt header)) blockData)
            else Inr blockData) (\<lambda>blockData.
       wrap_err ''sync: decompress block'' (DecompressPoolDict X blockData dict))"

text \<open>The state \<open>st\<close> is what the two callbacks share; it survives an error.\<close>

fun each_block ::
  "(bytes \<Rightarrow> bytes res) \<Rightarrow> nat list \<Rightarrow> nat \<Rightarrow> nat \<Rightarrow> u32 list \<Rightarrow> (nat \<Rightarrow> nat \<Rightarrow> 's \<Rightarrow> bool) \<Rightarrow>
   (nat \<Rightarrow> nat \<Rightarrow> bytes \<Rightarrow> 's \<Rightarrow> unit res \<times> 's) \<Rightarrow> bytes \<Rightarrow> 's \<Rightarrow> unit res \<times> 's" where
  "each_block opn starts n i [] want fn s st = (Inr (), st)"
| "each_block opn starts n i (blockSize # sizes) want fn s st =
     (case BlockRange starts i n of
        Inl e \<Rightarrow> (Inl e, st)
      | Inr (first, stop) \<Rightarrow>
          if \<not> want first stop st then
            (case wrap_err ''sync: skip block'' (read_full (unat blockSize) s) of
               Inl e \<Rightarrow> (Inl e, st)
             | Inr (_, s) \<Rightarrow> each_block opn starts n (i + 1) sizes want fn s st)
          else
            (case wrap_err ''sync: read block'' (read_full (unat blockSize) s) of
               Inl e \<Rightarrow> (Inl e, st)
             | Inr (blockData, s) \<Rightarrow>
                 (case opn blockData of
                    Inl e \<Rightarrow> (Inl e, st)
                  | Inr pool \<Rightarrow>
                      (case fn first stop pool st of
                         (Inl e, st) \<Rightarrow> (Inl e, st)
                       | (Inr _, st) \<Rightarrow> each_block opn starts n (i + 1) sizes want fn s st))))"

definition ForEachBlock ::
  "ext \<Rightarrow> bytes \<Rightarrow> Header \<Rightarrow> u32 list \<Rightarrow> ChunkEntry list \<Rightarrow> bytes \<Rightarrow> bytes \<Rightarrow> (nat \<Rightarrow> nat \<Rightarrow> 's \<Rightarrow> bool) \<Rightarrow>
   (nat \<Rightarrow> nat \<Rightarrow> bytes \<Rightarrow> 's \<Rightarrow> unit res \<times> 's) \<Rightarrow> 's \<Rightarrow> unit res \<times> 's" where
  "ForEachBlock X s header blockTable entries dict encryptionKey want fn st =
     (if Version header < Version2 then (Inl (GoErr ''sync: version is not supported''), st)
      else
        (let starts = BlockStarts entries in
         if length starts \<noteq> length blockTable
         then (Inl (GoErr ''sync: chunk table and block table describe different blocks''), st)
         else each_block (sync_block X header encryptionKey dict) starts (length entries) 0 blockTable want fn s st))"

section \<open>The manifest of a file\<close>

text \<open>The residual of an entry within the pool of its block; the code panics on a range that wraps.\<close>

definition residual_of :: "bytes \<Rightarrow> u64 \<Rightarrow> ChunkEntry \<Rightarrow> bytes option res" where
  "residual_of pool base entry =
     (let start = DeltaOffset entry - base;
          stop = start + ucast (DeltaSize entry)
      in if of_nat (length pool) < stop then Inr None
         else rbind (gslice pool (unat start) (unat stop)) (\<lambda>rs. Inr (Some rs)))"

fun manifest_block ::
  "(bytes \<Rightarrow> u64) \<Rightarrow> ChunkEntry list \<Rightarrow> bytes \<Rightarrow> u64 \<Rightarrow> nat list \<Rightarrow> ManifestEntry list \<Rightarrow> unit res \<times> ManifestEntry list" where
  "manifest_block xx entries pool base [] acc = (Inr (), acc)"
| "manifest_block xx entries pool base (i # is) acc =
     (case residual_of pool base (entries ! i) of
        Inl e \<Rightarrow> (Inl e, acc)
      | Inr None \<Rightarrow> (Inl (GoErr ''manifest: delta bounds error''), acc)
      | Inr (Some rs) \<Rightarrow>
          manifest_block xx entries pool base is
            (acc[i := \<lparr>meCodebookID = CodebookID (entries ! i), meDeltaHash = xx rs,
                       meChunkSize = EOriginalSize (entries ! i), meCodebookIndex = CodebookIndex (entries ! i)\<rparr>]))"

definition manifest_visit ::
  "(bytes \<Rightarrow> u64) \<Rightarrow> ChunkEntry list \<Rightarrow> nat \<Rightarrow> nat \<Rightarrow> bytes \<Rightarrow> ManifestEntry list \<Rightarrow> unit res \<times> ManifestEntry list" where
  "manifest_visit xx entries first stop pool acc =
     (if length entries \<le> first then (Inl GoPanic, acc)
      else manifest_block xx entries pool (DeltaOffset (entries ! first)) [first..<stop] acc)"

definition GenerateManifest :: "ext \<Rightarrow> fs \<Rightarrow> string \<Rightarrow> string \<Rightarrow> bytes \<Rightarrow> ChunkManifest res" where
  "GenerateManifest X fs cromFile codebookPath encryptionKey =
     (case fs cromFile of
        None \<Rightarrow> Inl (GoErr ''manifest: open .crom'')
      | Some content \<Rightarrow>
          rbind (wrap_err ''manifest: open codebook'' (cb_Open fs codebookPath)) (\<lambda>cb.
          rbind (wrap_err ''manifest: parse error'' (ReadStream X encryptionKey content)) (\<lambda>(header, blockTable, entries, s).
          rbind (if UsesBrainDict header then Dictionary cb else Inr []) (\<lambda>dict.
            (case ForEachBlock X s header blockTable entries dict encryptionKey (\<lambda>_ _ _. True)
                    (manifest_visit (xxhash X) entries) (replicate (length entries) zero_manifest_entry) of
               (Inl e, _) \<Rightarrow> wrap_err ''manifest'' (Inl e)
             | (Inr _, manifestEntries) \<Rightarrow>
                 Inr \<lparr>cmVersion = ManifestVersion, cmOriginalHash = OriginalHash header,
                      cmOriginalSize = OriginalSize header, cmChunkCount = ChunkCount header,
                      cmEntries = manifestEntries\<rparr>)))))"

section \<open>The binary form\<close>

definition manifestHeaderSize :: nat where "manifestHeaderSize = 2 + 32 + 8 + 4"

text \<open>The columns of identifiers (as differences), hashes, sizes and indices of \<open>n\<close> entries.\<close>

fun put_entries :: "nat \<Rightarrow> nat \<Rightarrow> u64 \<Rightarrow> ManifestEntry list \<Rightarrow> bytes \<Rightarrow> bytes" where
  "put_entries n i prevID [] buf = buf"
| "put_entries n i prevID (e # es) buf =
     (let h = manifestHeaderSize;
          buf = put_uint64 buf (h + i * 8) (meCodebookID e - prevID);
          buf = put_uint64 buf (h + n * 8 + i * 8) (meDeltaHash e);
          buf = put_uint32 buf (h + n * 16 + i * 4) (meChunkSize e);
          buf = put buf (h + n * 20 + i) [meCodebookIndex e]
      in put_entries n (i + 1) (meCodebookID e) es buf)"

definition ToBinary :: "ChunkManifest \<Rightarrow> bytes" where
  "ToBinary m =
     (let buf = zeros (manifestHeaderSize + length (cmEntries m) * ManifestEntryBinarySize);
          buf = put_uint16 buf 0 (cmVersion m);
          buf = gcopy buf 2 34 (cmOriginalHash m);
          buf = put_uint64 buf 34 (cmOriginalSize m);
          buf = put_uint32 buf 42 (cmChunkCount m)
      in put_entries (length (cmEntries m)) 0 0 (cmEntries m) buf)"

fun get_entries :: "nat \<Rightarrow> bytes \<Rightarrow> u64 \<Rightarrow> nat list \<Rightarrow> ManifestEntry list" where
  "get_entries n data prevID [] = []"
| "get_entries n data prevID (i # is) =
     (let h = manifestHeaderSize;
          prevID = prevID + get_uint64 data (h + i * 8)
      in \<lparr>meCodebookID = prevID, meDeltaHash = get_uint64 data (h + n * 8 + i * 8),
          meChunkSize = get_uint32 data (h + n * 16 + i * 4), meCodebookIndex = data ! (h + n * 20 + i)\<rparr>
         # get_entries n data prevID is)"

definition FromBinary :: "bytes \<Rightarrow> ChunkManifest res" where
  "FromBinary data =
     (if length data < manifestHeaderSize then Inl (GoErr ''manifest: binary data too short'')
      else
        (let count = get_uint32 data 42;
             n = unat count
         in if length data < manifestHeaderSize + n * ManifestEntryBinarySize
            then Inl (GoErr ''manifest: binary data truncated'')
            else Inr \<lparr>cmVersion = get_uint16 data 0, cmOriginalHash = slice data 2 34,
                      cmOriginalSize = get_uint64 data 34, cmChunkCount = count,
                      cmEntries = get_entries n data 0 [0..<n]\<rparr>))"

section \<open>Differences\<close>

definition chunkKey :: "ManifestEntry \<Rightarrow> u64 \<times> u64" where
  "chunkKey e = (meCodebookID e, meDeltaHash e)"

definition manifest_Diff :: "ChunkManifest \<Rightarrow> ChunkManifest \<Rightarrow> DiffResult" where
  "manifest_Diff local remote =
     (let localSet = map chunkKey (cmEntries local);
          remoteSet = map chunkKey (cmEntries remote)
      in \<lparr>Missing = filter (\<lambda>e. chunkKey e \<notin> set localSet) (cmEntries remote),
          Extra = filter (\<lambda>e. chunkKey e \<notin> set remoteSet) (cmEntries local)\<rparr>)"

section \<open>The layout of the binary form\<close>

fun id_column :: "u64 \<Rightarrow> ManifestEntry list \<Rightarrow> bytes" where
  "id_column prevID [] = []"
| "id_column prevID (e # es) = le_bytes 8 (meCodebookID e - prevID) @ id_column (meCodebookID e) es"

definition hash_column :: "ManifestEntry list \<Rightarrow> bytes" where
  "hash_column es = concat (map (\<lambda>e. le_bytes 8 (meDeltaHash e)) es)"

definition size_column :: "ManifestEntry list \<Rightarrow> bytes" where
  "size_column es = concat (map (\<lambda>e. le_bytes 4 (meChunkSize e)) es)"

definition index_column :: "ManifestEntry list \<Rightarrow> bytes" where
  "index_column es = map meCodebookIndex es"

lemma column_simps [simp]:
  "hash_column [] = []" "hash_column (e # es) = le_bytes 8 (meDeltaHash e) @ hash_column es"
  "size_column [] = []" "size_column (e # es) = le_bytes 4 (meChunkSize e) @ size_column es"
  "index_column [] = []" "index_column (e # es) = meCodebookIndex e # index_column es"
  by (simp_all add: hash_column_def size_column_def index_column_def)

lemma column_lengths [simp]:
  "length (id_column prevID es) = length es * 8" "length (hash_column es) = length es * 8"
  "length (size_column es) = length es * 4" "length (index_column es) = length es"
  by (induction prevID es rule: id_column.induct) (simp_all add: index_column_def)

lemma put_hole: "length A = off \<Longrightarrow> length Z = length bs \<Longrightarrow> put (A @ Z @ C) off bs = A @ bs @ C"
  by (simp add: put_def)

lemma zeros_split: "zeros (a + b) = zeros a @ zeros b"
  by (simp add: zeros_def replicate_add)

lemma put_entries_columns:
  assumes "length H = manifestHeaderSize" "length I = i * 8" "length D = i * 8" "length S = i * 4" "length B = i"
    and "n = i + length es"
  shows "put_entries n i prevID es
      (H @ I @ zeros (length es * 8) @ D @ zeros (length es * 8) @ S @ zeros (length es * 4) @ B @ zeros (length es)) =
    H @ (I @ id_column prevID es) @ (D @ hash_column es) @ (S @ size_column es) @ (B @ index_column es)"
  using assms
proof (induction es arbitrary: i prevID I D S B)
  case (Cons e es)
  let ?k = "length es"
  let ?d = "le_bytes 8 (meCodebookID e - prevID)" and ?x = "le_bytes 8 (meDeltaHash e)"
  let ?s = "le_bytes 4 (meChunkSize e)" and ?b = "[meCodebookIndex e]"
  have z: "zeros (length (e # es) * 8) = zeros 8 @ zeros (?k * 8)" "zeros (length (e # es) * 4) = zeros 4 @ zeros (?k * 4)"
    "zeros (length (e # es)) = zeros 1 @ zeros ?k"
    by (simp_all flip: zeros_split)
  have l: "length (zeros m) = m" for m by (simp add: zeros_def)
  let ?bufa = "H @ I @ zeros (length (e # es) * 8) @ D @ zeros (length (e # es) * 8) @ S @ zeros (length (e # es) * 4) @ B @ zeros (length (e # es))"
  let ?bufb = "H @ (I @ ?d) @ zeros (?k * 8) @ D @ zeros (length (e # es) * 8) @ S @ zeros (length (e # es) * 4) @ B @ zeros (length (e # es))"
  let ?bufc = "H @ (I @ ?d) @ zeros (?k * 8) @ (D @ ?x) @ zeros (?k * 8) @ S @ zeros (length (e # es) * 4) @ B @ zeros (length (e # es))"
  let ?bufd = "H @ (I @ ?d) @ zeros (?k * 8) @ (D @ ?x) @ zeros (?k * 8) @ (S @ ?s) @ zeros (?k * 4) @ B @ zeros (length (e # es))"
  let ?bufe = "H @ (I @ ?d) @ zeros (?k * 8) @ (D @ ?x) @ zeros (?k * 8) @ (S @ ?s) @ zeros (?k * 4) @ (B @ ?b) @ zeros ?k"
  have n: "n = i + Suc ?k" using Cons.prems(6) by simp
  have p1: "put_uint64 ?bufa (manifestHeaderSize + i * 8) (meCodebookID e - prevID) = ?bufb"
    using put_hole [of "H @ I" "manifestHeaderSize + i * 8" "zeros 8" ?d
        "zeros (?k * 8) @ D @ zeros (length (e # es) * 8) @ S @ zeros (length (e # es) * 4) @ B @ zeros (length (e # es))"] Cons.prems(1,2)
    unfolding put_uint64_def z by (simp add: l)
  have p2: "put_uint64 ?bufb (manifestHeaderSize + n * 8 + i * 8) (meDeltaHash e) = ?bufc"
    using put_hole [of "H @ (I @ ?d) @ zeros (?k * 8) @ D" "manifestHeaderSize + n * 8 + i * 8" "zeros 8" ?x
        "zeros (?k * 8) @ S @ zeros (length (e # es) * 4) @ B @ zeros (length (e # es))"] Cons.prems(1-3)
    unfolding put_uint64_def z by (simp add: l n)
  have p3: "put_uint32 ?bufc (manifestHeaderSize + n * 16 + i * 4) (meChunkSize e) = ?bufd"
    using put_hole [of "H @ (I @ ?d) @ zeros (?k * 8) @ (D @ ?x) @ zeros (?k * 8) @ S" "manifestHeaderSize + n * 16 + i * 4" "zeros 4" ?s
        "zeros (?k * 4) @ B @ zeros (length (e # es))"] Cons.prems(1-4)
    unfolding put_uint32_def z by (simp add: l n)
  have p4: "put ?bufd (manifestHeaderSize + n * 20 + i) ?b = ?bufe"
    using put_hole [of "H @ (I @ ?d) @ zeros (?k * 8) @ (D @ ?x) @ zeros (?k * 8) @ (S @ ?s) @ zeros (?k * 4) @ B"
        "manifestHeaderSize + n * 20 + i" "zeros 1" ?b "zeros ?k"] Cons.prems(1-5)
    unfolding z by (simp add: l n)
  have "put_entries n i prevID (e # es) ?bufa = put_entries n (i + 1) (meCodebookID e) es ?bufe"
    by (simp only: put_entries.simps Let_def p1 p2 p3 p4)
  also have "\<dots> = H @ ((I @ ?d) @ id_column (meCodebookID e) es) @ ((D @ ?x) @ hash_column es) @ ((S @ ?s) @ size_column es) @
      ((B @ ?b) @ index_column es)"
    by (rule Cons.IH) (use Cons.prems in simp_all)
  finally show ?case by simp
qed (simp add: zeros_def)

definition manifest_fields :: "ChunkManifest \<Rightarrow> bytes" where
  "manifest_fields m = le_bytes 2 (cmVersion m) @ cmOriginalHash m @ le_bytes 8 (cmOriginalSize m) @ le_bytes 4 (cmChunkCount m)"

lemma ToBinary_layout:
  assumes "length (cmOriginalHash m) = 32"
  shows "ToBinary m = manifest_fields m @ id_column 0 (cmEntries m) @ hash_column (cmEntries m) @
    size_column (cmEntries m) @ index_column (cmEntries m)"
proof -
  let ?n = "length (cmEntries m)"
  let ?Z = "zeros (?n * 8) @ zeros (?n * 8) @ zeros (?n * 4) @ zeros ?n"
  have l: "length (zeros k) = k" for k by (simp add: zeros_def)
  have "zeros (manifestHeaderSize + ?n * ManifestEntryBinarySize) = zeros 2 @ zeros 32 @ zeros 8 @ zeros 4 @ ?Z"
    by (simp add: manifestHeaderSize_def ManifestEntryBinarySize_def mult.commute flip: zeros_split)
  moreover have "put_uint16 (zeros 2 @ zeros 32 @ zeros 8 @ zeros 4 @ ?Z) 0 (cmVersion m) =
      le_bytes 2 (cmVersion m) @ zeros 32 @ zeros 8 @ zeros 4 @ ?Z"
    using put_hole [of "[]" 0 "zeros 2" "le_bytes 2 (cmVersion m)" "zeros 32 @ zeros 8 @ zeros 4 @ ?Z"]
    by (simp add: put_uint16_def l)
  moreover have "gcopy (le_bytes 2 (cmVersion m) @ zeros 32 @ zeros 8 @ zeros 4 @ ?Z) 2 34 (cmOriginalHash m) =
      le_bytes 2 (cmVersion m) @ cmOriginalHash m @ zeros 8 @ zeros 4 @ ?Z"
    using put_hole [of "le_bytes 2 (cmVersion m)" 2 "zeros 32" "cmOriginalHash m" "zeros 8 @ zeros 4 @ ?Z"] assms
    by (simp add: gcopy_def l)
  moreover have "put_uint64 (le_bytes 2 (cmVersion m) @ cmOriginalHash m @ zeros 8 @ zeros 4 @ ?Z) 34 (cmOriginalSize m) =
      le_bytes 2 (cmVersion m) @ cmOriginalHash m @ le_bytes 8 (cmOriginalSize m) @ zeros 4 @ ?Z"
    using put_hole [of "le_bytes 2 (cmVersion m) @ cmOriginalHash m" 34 "zeros 8" "le_bytes 8 (cmOriginalSize m)" "zeros 4 @ ?Z"] assms
    by (simp add: put_uint64_def l)
  moreover have "put_uint32 (le_bytes 2 (cmVersion m) @ cmOriginalHash m @ le_bytes 8 (cmOriginalSize m) @ zeros 4 @ ?Z) 42 (cmChunkCount m) =
      manifest_fields m @ ?Z"
    using put_hole [of "le_bytes 2 (cmVersion m) @ cmOriginalHash m @ le_bytes 8 (cmOriginalSize m)" 42 "zeros 4" "le_bytes 4 (cmChunkCount m)" ?Z] assms
    by (simp add: put_uint32_def l manifest_fields_def)
  moreover have "put_entries ?n 0 0 (cmEntries m) (manifest_fields m @ ?Z) =
      manifest_fields m @ id_column 0 (cmEntries m) @ hash_column (cmEntries m) @ size_column (cmEntries m) @ index_column (cmEntries m)"
    using put_entries_columns [of "manifest_fields m" "[]" 0 "[]" "[]" "[]" ?n "cmEntries m" 0] assms
    by (simp add: manifest_fields_def manifestHeaderSize_def)
  ultimately show ?thesis by (simp only: ToBinary_def Let_def)
qed

text \<open>Reading the columns back, entry by entry.\<close>

lemma get_entries_columns:
  assumes "length H = manifestHeaderSize" "length I = i * 8" "length D = i * 8" "length S = i * 4" "length B = i"
    and "n = i + length es"
  shows "get_entries n
      (H @ (I @ id_column prevID es) @ (D @ hash_column es) @ (S @ size_column es) @ (B @ index_column es) @ tail) prevID [i..<n] = es"
  using assms
proof (induction es arbitrary: i prevID I D S B)
  case (Cons e es)
  let ?d = "le_bytes 8 (meCodebookID e - prevID)" and ?x = "le_bytes 8 (meDeltaHash e)"
  let ?s = "le_bytes 4 (meChunkSize e)" and ?b = "[meCodebookIndex e]"
  let ?I = "id_column (meCodebookID e) es" and ?D = "hash_column es" and ?S = "size_column es" and ?B = "index_column es"
  let ?data = "H @ (I @ id_column prevID (e # es)) @ (D @ hash_column (e # es)) @ (S @ size_column (e # es)) @ (B @ index_column (e # es)) @ tail"
  have n: "n = i + Suc (length es)" using Cons.prems(6) by simp
  have at: "slice (A @ bs @ C) off (off + k) = bs" if "length A = off" "length bs = k" for A bs C :: bytes and off k
    using that by (simp add: slice_def)
  have r1: "get_uint64 ?data (manifestHeaderSize + i * 8) = meCodebookID e - prevID"
    using at [of "H @ I" "manifestHeaderSize + i * 8" ?d 8 "?I @ (D @ ?x @ ?D) @ (S @ ?s @ ?S) @ (B @ ?b @ ?B) @ tail"] Cons.prems(1,2)
    by (simp add: get_uint64_def wire_simps)
  have r2: "get_uint64 ?data (manifestHeaderSize + n * 8 + i * 8) = meDeltaHash e"
    using at [of "H @ (I @ ?d @ ?I) @ D" "manifestHeaderSize + n * 8 + i * 8" ?x 8 "?D @ (S @ ?s @ ?S) @ (B @ ?b @ ?B) @ tail"] Cons.prems(1-3)
    by (simp add: get_uint64_def wire_simps n)
  have r3: "get_uint32 ?data (manifestHeaderSize + n * 16 + i * 4) = meChunkSize e"
    using at [of "H @ (I @ ?d @ ?I) @ (D @ ?x @ ?D) @ S" "manifestHeaderSize + n * 16 + i * 4" ?s 4 "?S @ (B @ ?b @ ?B) @ tail"] Cons.prems(1-4)
    by (simp add: get_uint32_def wire_simps n)
  have r4: "?data ! (manifestHeaderSize + n * 20 + i) = meCodebookIndex e"
  proof -
    let ?A = "H @ (I @ ?d @ ?I) @ (D @ ?x @ ?D) @ (S @ ?s @ ?S) @ B"
    have "length ?A = manifestHeaderSize + n * 20 + i" using Cons.prems(1-5) by (simp add: n)
    moreover have "?data = ?A @ meCodebookIndex e # ?B @ tail" by simp
    ultimately show ?thesis by (metis nth_append_length)
  qed
  have "get_entries n (H @ ((I @ ?d) @ ?I) @ ((D @ ?x) @ ?D) @ ((S @ ?s) @ ?S) @ ((B @ ?b) @ ?B) @ tail) (meCodebookID e) [Suc i..<n] = es"
    by (rule Cons.IH) (use Cons.prems in simp_all)
  then have "get_entries n ?data (meCodebookID e) [Suc i..<n] = es" by simp
  moreover have "[i..<n] = i # [Suc i..<n]" by (rule upt_conv_Cons) (simp add: n)
  ultimately show ?case by (simp only: get_entries.simps Let_def r1 r2 r3 r4) simp
qed simp

definition wf_manifest :: "ChunkManifest \<Rightarrow> bool" where
  "wf_manifest m \<longleftrightarrow> length (cmOriginalHash m) = 32 \<and> length (cmEntries m) = unat (cmChunkCount m)"

lemma FromBinary_ToBinary:
  assumes "wf_manifest m"
  shows "FromBinary (ToBinary m @ tail) = Inr m"
proof -
  let ?n = "length (cmEntries m)"
  have w: "length (cmOriginalHash m) = 32" "unat (cmChunkCount m) = ?n" using assms by (simp_all add: wf_manifest_def)
  let ?F = "manifest_fields m"
  have F: "length ?F = manifestHeaderSize" using w by (simp add: manifest_fields_def manifestHeaderSize_def)
  note t = ToBinary_layout [OF w(1)]
  have len: "manifestHeaderSize + ?n * ManifestEntryBinarySize \<le> length (ToBinary m @ tail)"
    by (simp add: t F ManifestEntryBinarySize_def)
  have "get_uint16 (?F @ rest) 0 = cmVersion m" "slice (?F @ rest) 2 34 = cmOriginalHash m"
    "get_uint64 (?F @ rest) 34 = cmOriginalSize m" "get_uint32 (?F @ rest) 42 = cmChunkCount m" for rest
    using w(1) by (simp_all add: manifest_fields_def get_uint_defs slice_layout wire_simps)
  moreover have "get_entries ?n (ToBinary m @ tail) 0 [0..<?n] = cmEntries m"
    using get_entries_columns [of ?F "[]" 0 "[]" "[]" "[]" ?n "cmEntries m" 0 tail] F by (simp add: t)
  moreover have "\<not> length (ToBinary m @ tail) < manifestHeaderSize" using len by simp
  ultimately show ?thesis
    using len by (simp add: FromBinary_def Let_def t w(2) del: length_append)
qed

text \<open>Whatever bytes are parsed, the manifest has as many entries as it says.\<close>

lemma length_get_entries [simp]: "length (get_entries n data p is) = length is"
  by (induction n data p "is" rule: get_entries.induct) (simp_all add: Let_def)

lemma FromBinary_wf: "FromBinary data = Inr m \<Longrightarrow> wf_manifest m"
  by (auto simp: FromBinary_def Let_def wf_manifest_def slice_def manifestHeaderSize_def split: if_splits)

section \<open>Visiting the blocks of a packed file\<close>

text \<open>
  What a visitor of the blocks of a packed file does with a block keeps an invariant between the
  blocks already seen and its state; the blocks it does not want leave the state alone.
\<close>

definition range_of :: "packed \<Rightarrow> item list \<times> bytes \<Rightarrow> nat \<times> nat" where
  "range_of pre b = (length (items_of pre), length (items_of pre) + length (fst b))"

locale block_visitor =
  fixes bs :: packed
    and want :: "nat \<Rightarrow> nat \<Rightarrow> 's \<Rightarrow> bool"
    and visit :: "nat \<Rightarrow> nat \<Rightarrow> bytes \<Rightarrow> 's \<Rightarrow> unit res \<times> 's"
    and seen :: "packed \<Rightarrow> 's \<Rightarrow> bool"
  assumes wanted: "\<lbrakk> bs = pre @ b # post; laid_out r 0 (items_of bs); length (pool_of (items_of bs)) < 2 ^ 63; fst b \<noteq> []; seen pre st;
      range_of pre b = (first, stop); want first stop st \<rbrakk> \<Longrightarrow>
      \<exists>st'. visit first stop (pool_of (fst b)) st = (Inr (), st') \<and> seen (pre @ [b]) st'"
    and unwanted: "\<lbrakk> bs = pre @ b # post; fst b \<noteq> []; seen pre st; range_of pre b = (first, stop); \<not> want first stop st \<rbrakk> \<Longrightarrow> seen (pre @ [b]) st"
begin

lemma visits_all:
  assumes "\<forall>(its, f) \<in> set bs. opn f = Inr (pool_of its) \<and> length f < 2 ^ 32 \<and> its \<noteq> []"
    and "laid_out r 0 (items_of bs)" "length (pool_of (items_of bs)) < 2 ^ 63"
  shows "bs = pre @ post \<Longrightarrow> seen pre st \<Longrightarrow>
    \<exists>st'. each_block opn (starts_of 0 (entry_blocks bs)) (length (items_of bs)) (length pre) (sizes_of post) want visit
      (frames_of post @ tail) st = (Inr (), st') \<and> seen bs st'"
proof (induction post arbitrary: pre st)
  case (Cons b post)
  obtain its f where b: "b = (its, f)" by (cases b) auto
  have "b \<in> set bs" using Cons.prems(1) by simp
  with assms(1) have o: "opn f = Inr (pool_of its)" "length f < 2 ^ 32" "its \<noteq> []" by (auto simp: b)
  have u: "unat (of_nat (length f) :: u32) = length f" using o(2) by (intro unat_of_nat_lt) simp
  let ?first = "length (items_of pre)" let ?stop = "?first + length its"
  have R: "range_of pre b = (?first, ?stop)" by (simp add: range_of_def b)
  have i: "length pre < length (entry_blocks bs)" using Cons.prems(1) by simp
  have "take (length pre) (entry_blocks bs) = entry_blocks pre" "entry_blocks bs ! length pre = map fst its"
    by (simp_all add: Cons.prems(1) b nth_append)
  then have r: "BlockRange (starts_of 0 (entry_blocks bs)) (length pre) (length (items_of bs)) = Inr (?first, ?stop)"
    using BlockRange_starts_of [OF i] by (simp add: concat_entry_blocks)
  have bs': "bs = (pre @ [b]) @ post" using Cons.prems(1) by simp
  show ?case
  proof (cases "want ?first ?stop st")
    case True
    from wanted [OF Cons.prems(1) assms(2,3) _ Cons.prems(2) R True] o(3) obtain st1 where
      st1: "visit ?first ?stop (pool_of its) st = (Inr (), st1)" "seen (pre @ [b]) st1" by (auto simp: b)
    from Cons.IH [OF bs' st1(2)] r True st1(1) o(1) u show ?thesis by (simp add: b)
  next
    case False
    from unwanted [OF Cons.prems(1) _ Cons.prems(2) R False] o(3) have "seen (pre @ [b]) st" by (simp add: b)
    from Cons.IH [OF bs' this] r False u show ?thesis by (simp add: b)
  qed
qed simp

end

section \<open>The manifest of a packed file\<close>

definition manifest_entry :: "(bytes \<Rightarrow> u64) \<Rightarrow> item \<Rightarrow> ManifestEntry" where
  "manifest_entry xx it =
     (case it of (e, rs, c) \<Rightarrow>
        \<lparr>meCodebookID = CodebookID e, meDeltaHash = xx rs, meChunkSize = EOriginalSize e, meCodebookIndex = CodebookIndex e\<rparr>)"

definition manifest_of :: "ext \<Rightarrow> Header \<Rightarrow> packed \<Rightarrow> ChunkManifest" where
  "manifest_of X h bs =
     \<lparr>cmVersion = ManifestVersion, cmOriginalHash = OriginalHash h, cmOriginalSize = OriginalSize h,
      cmChunkCount = ChunkCount h, cmEntries = map (manifest_entry (xxhash X)) (items_of bs)\<rparr>"

lemma residual_of_laid:
  assumes "laid_out r g (P @ (e, rs, c) # Q)" "g + length (pool_of (P @ (e, rs, c) # Q)) < 2 ^ 63"
  shows "residual_of (pool_of (P @ (e, rs, c) # Q)) (of_nat g) e = Inr (Some rs)"
proof -
  let ?p = "length (pool_of P)" and ?pool = "pool_of (P @ (e, rs, c) # Q)"
  have d: "DeltaOffset e = of_nat (g + ?p)" "unat (DeltaSize e) = length rs" "length rs \<le> length c" "length c < 2 ^ 32"
    using assms(1) unat_lt [of "EOriginalSize e"] by (auto simp: laid_out_append decodes_def)
  have len: "length ?pool = ?p + length rs + length (pool_of Q)" by simp
  have start: "DeltaOffset e - of_nat g = of_nat ?p" using d(1) by simp
  have size: "ucast (DeltaSize e) = (of_nat (length rs) :: u64)"
    using d(2) by (metis of_nat_unat)
  have stop: "DeltaOffset e - of_nat g + ucast (DeltaSize e) = of_nat (?p + length rs)"
    using start size by simp
  have u: "unat (of_nat k :: u64) = k" if "k < 2 ^ 64" for k using that by (intro unat_of_nat_lt) simp
  have a: "\<not> (of_nat (length ?pool) :: u64) < of_nat (?p + length rs)"
    using assms(2) len by (simp add: word_less_nat_alt u del: of_nat_add)
  have "gslice ?pool ?p (?p + length rs) = Inr rs"
    by (simp add: gslice_def slice_def)
  moreover have "unat (of_nat ?p :: u64) = ?p" "unat (of_nat (?p + length rs) :: u64) = ?p + length rs"
    using assms(2) len by (intro u; simp)+
  ultimately show ?thesis using a unfolding residual_of_def Let_def stop unfolding start by simp
qed

lemma manifest_block_laid:
  assumes "laid_out r g its" "g + length (pool_of its) < 2 ^ 63" "drop n entries = map fst its @ rest"
  shows "its = P @ Q \<Longrightarrow> length done = n + length P \<Longrightarrow>
    manifest_block xx entries (pool_of its) (of_nat g) [n + length P ..< n + length its] (done @ replicate (length Q + k) z) =
      (Inr (), done @ map (manifest_entry xx) Q @ replicate k z)"
proof (induction Q arbitrary: P "done")
  case (Cons it Q)
  obtain e rs c where it: "it = (e, rs, c)" by (cases it) auto
  have its: "its = P @ (e, rs, c) # Q" using Cons.prems(1) by (simp add: it)
  have upt: "[n + length P ..< n + length its] = (n + length P) # [n + length (P @ [it]) ..< n + length its]"
    using upt_conv_Cons [of "n + length P" "n + length its"] Cons.prems(1) by simp
  have "n + length P < length entries"
    using arg_cong [OF assms(3), of length] by (simp add: its)
  then have e: "entries ! (n + length P) = e"
    using arg_cong [OF assms(3), of "\<lambda>xs. xs ! length P"] by (simp add: its nth_append)
  have res: "residual_of (pool_of its) (of_nat g) e = Inr (Some rs)"
    using residual_of_laid assms(1,2) unfolding its by blast
  let ?i = "n + length P" and ?acc = "done @ replicate (length (it # Q) + k) z"
  have "?acc[?i := manifest_entry xx it] = (done @ [manifest_entry xx it]) @ replicate (length Q + k) z"
    using Cons.prems(2) by (simp add: list_update_append)
  then have step: "manifest_block xx entries (pool_of its) (of_nat g) (?i # is) ?acc =
      manifest_block xx entries (pool_of its) (of_nat g) is ((done @ [manifest_entry xx it]) @ replicate (length Q + k) z)" for "is"
    using res e by (simp add: it manifest_entry_def)
  have "its = (P @ [it]) @ Q" "length (done @ [manifest_entry xx it]) = n + length (P @ [it])" using Cons.prems by simp_all
  from Cons.IH [OF this] show ?case unfolding upt step by simp
qed simp

lemma items_of_append [simp]: "items_of (a @ b) = items_of a @ items_of b"
  by (simp add: items_of_def)

lemma base_of_block:
  assumes "laid_out r 0 (items_of (pre @ b # post))" "fst b \<noteq> []"
  shows "length (items_of pre) < length (map fst (items_of (pre @ b # post)))"
    "DeltaOffset (map fst (items_of (pre @ b # post)) ! length (items_of pre)) = of_nat (length (pool_of (items_of pre)))"
    "laid_out r (length (pool_of (items_of pre))) (fst b)"
    "drop (length (items_of pre)) (map fst (items_of (pre @ b # post))) = map fst (fst b) @ map fst (items_of post)"
proof -
  obtain it its where its: "fst b = it # its" using assms(2) by (cases "fst b") auto
  obtain e rs c where it: "it = (e, rs, c)" by (cases it) auto
  have l: "laid_out r (length (pool_of (items_of pre))) (fst b @ items_of post)"
    using assms(1) by (simp add: laid_out_append)
  then show "laid_out r (length (pool_of (items_of pre))) (fst b)" by (simp add: laid_out_append)
  show "length (items_of pre) < length (map fst (items_of (pre @ b # post)))" by (simp add: its)
  show "DeltaOffset (map fst (items_of (pre @ b # post)) ! length (items_of pre)) = of_nat (length (pool_of (items_of pre)))"
    using l by (simp add: its it nth_append)
  show "drop (length (items_of pre)) (map fst (items_of (pre @ b # post))) = map fst (fst b) @ map fst (items_of post)"
    by simp
qed

definition manifest_seen :: "(bytes \<Rightarrow> u64) \<Rightarrow> packed \<Rightarrow> packed \<Rightarrow> ManifestEntry list \<Rightarrow> bool" where
  "manifest_seen xx bs pre acc \<longleftrightarrow>
     acc = map (manifest_entry xx) (items_of pre) @
       replicate (length (items_of bs) - length (items_of pre)) zero_manifest_entry"

interpretation manifest_visitor: block_visitor bs "\<lambda>_ _ _. True" "manifest_visit xx (map fst (items_of bs))" "manifest_seen xx bs"
  for bs xx
proof (unfold_locales, goal_cases)
  case (1 pre b post r st first stop)
  note bs = 1(1)
  let ?n = "length (items_of pre)" and ?its = "fst b"
  note base = base_of_block [OF 1(2) [unfolded bs] 1(4)]
  have R: "first = ?n" "stop = ?n + length ?its" using 1(6) by (simp_all add: range_of_def)
  have st: "st = map (manifest_entry xx) (items_of pre) @ replicate (length ?its + length (items_of post)) zero_manifest_entry"
    using 1(5) by (simp add: manifest_seen_def bs)
  have len: "length (pool_of (items_of pre)) + length (pool_of ?its) < 2 ^ 63" using 1(3) by (simp add: bs)
  have "manifest_visit xx (map fst (items_of bs)) first stop (pool_of ?its) st =
      (Inr (), map (manifest_entry xx) (items_of pre) @ map (manifest_entry xx) ?its @
        replicate (length (items_of post)) zero_manifest_entry)"
    using manifest_block_laid [OF base(3) len base(4), of "[]" ?its "map (manifest_entry xx) (items_of pre)" xx
        "length (items_of post)" zero_manifest_entry] base(1,2)
    by (simp add: manifest_visit_def R st bs del: items_of_append packed_simps map_append)
  then show ?case by (simp add: manifest_seen_def bs)
qed simp

text \<open>Any visitor goes through all blocks of a packed file.\<close>

lemma sync_block_opens:
  assumes "open_block_data X h ek r f = Inr pool" "if UsesBrainDict h then Dictionary r = Inr dict else dict = []"
    and "Version3 \<le> Version h" "Version h \<le> Version8"
  shows "sync_block X ((stored_header h)\<lparr>TableBytes := n\<rparr>) ek dict f = Inr pool"
proof -
  obtain data where d: "(if IsEncrypted h then Decrypt X (DeriveKey X ek (Salt h)) f else Inr f) = Inr data"
    "DecompressPoolDict X data dict = Inr pool"
    using assms(1,2) by (cases "IsEncrypted h"; cases "UsesBrainDict h") (auto simp: open_block_data_def rbind_Inr_iff)
  then show ?thesis
    by (cases "IsEncrypted h") (simp_all add: sync_block_def stored_fields [OF assms(3,4)])
qed

lemma full_blocks_nonempty: "full_blocks bs \<Longrightarrow> b \<in> set bs \<Longrightarrow> fst b \<noteq> []"
  by (induction bs rule: full_blocks.induct) (auto simp: BlockSize_def)

definition dict_for :: "Header \<Rightarrow> Reader \<Rightarrow> bytes \<Rightarrow> bool" where
  "dict_for h r dict \<longleftrightarrow> (if UsesBrainDict h then Dictionary r = Inr dict else dict = [])"

lemma dict_for_ok:
  assumes "wf_reader r"
  shows "\<exists>d. (if UsesBrainDict h then Dictionary r else Inr []) = Inr d \<and> dict_for h r d"
  using Dictionary_ok [OF assms] by (auto simp: dict_for_def)

context block_visitor
begin

lemma ForEachBlock_visits:
  assumes p: "packed_blocks X h ek r bs input" and v: "Version3 \<le> Version h" "Version h \<le> Version8"
    and d: "dict_for h r dict" and st: "seen [] st"
  shows "\<exists>st'. ForEachBlock X (frames_of bs @ tail) ((stored_header h)\<lparr>TableBytes := n\<rparr>) (sizes_of bs) (map fst (items_of bs)) dict ek
      want visit st = (Inr (), st') \<and> seen bs st'"
proof -
  let ?h = "(stored_header h)\<lparr>TableBytes := n\<rparr>"
  have pb: "frames_ok X h ek r bs" "laid_out r 0 (items_of bs)" "full_blocks bs" "length (pool_of (items_of bs)) < 2 ^ 63"
    using p by (simp_all add: packed_blocks_def)
  have v2: "\<not> Version ?h < Version2" using v by (simp add: stored_fields) (simp add: version_defs word_le_nat_alt word_less_nat_alt)
  have "\<forall>(its, f) \<in> set bs. sync_block X ?h ek dict f = Inr (pool_of its) \<and> length f < 2 ^ 32 \<and> its \<noteq> []"
    using pb(1) sync_block_opens [OF _ d [unfolded dict_for_def] v, where n = n] full_blocks_nonempty [OF pb(3)]
    by (fastforce simp: frames_ok_def)
  from visits_all [OF this pb(2,4), of "[]" bs st tail] st obtain st' where
    "each_block (sync_block X ?h ek dict) (starts_of 0 (entry_blocks bs)) (length (items_of bs)) 0 (sizes_of bs) want visit
      (frames_of bs @ tail) st = (Inr (), st')" "seen bs st'" by auto
  moreover have "BlockStarts (map fst (items_of bs)) = starts_of 0 (entry_blocks bs)"
    using BlockStarts_packed [OF _ pb(3)] laid_out_decodes [OF pb(2)] by (metis concat_entry_blocks)
  ultimately show ?thesis using v2 by (simp add: ForEachBlock_def Let_def)
qed

end

lemma GenerateManifest_packed:
  assumes X: "zstd_ok X" "zstd_bound X" "gcm_ok X" "hash_sizes_ok X" and p: "packed_file X h ek r bs crom input"
    and f: "fs path = Some crom" and cb: "cb_Open fs cbp = Inr r" "wf_reader r"
  shows "GenerateManifest X fs path cbp ek = Inr (manifest_of X h bs)"
proof -
  obtain t :: bytes where rd: "ReadStream X ek crom =
      Inr ((stored_header h)\<lparr>TableBytes := length t\<rparr>, sizes_of bs, map fst (items_of bs), frames_of bs)"
    using ReadStream_packed [OF X p] by blast
  let ?h = "(stored_header h)\<lparr>TableBytes := length t\<rparr>"
  have v: "Version3 \<le> Version h" "Version h \<le> Version8" and b: "packed_blocks X h ek r bs input"
    using p by (simp_all add: packed_file_def packed_header_def)
  obtain d where d: "(if UsesBrainDict h then Dictionary r else Inr []) = Inr d" "dict_for h r d"
    using dict_for_ok [OF cb(2)] by blast
  let ?z = "replicate (length (items_of bs)) zero_manifest_entry"
  have "manifest_seen (xxhash X) bs [] ?z" by (simp add: manifest_seen_def)
  from manifest_visitor.ForEachBlock_visits [OF b v d(2) this, where tail = "[]" and n = "length t"] obtain st' where
    "ForEachBlock X (frames_of bs) ?h (sizes_of bs) (map fst (items_of bs)) d ek (\<lambda>_ _ _. True)
      (manifest_visit (xxhash X) (map fst (items_of bs))) ?z = (Inr (), st')" "manifest_seen (xxhash X) bs bs st'" by auto
  then show ?thesis
    using d(1) by (simp add: GenerateManifest_def f cb(1) rd stored_fields [OF v] manifest_of_def manifest_seen_def)
qed

section \<open>Properties\<close>

text \<open>
  C11. Manifests survive their binary form: parsing the bytes of a manifest, whatever follows
  them, returns it, and whatever bytes the parser accepts, the manifest it returns has as many
  entries as it declares.
\<close>

theorem manifest_roundtrip:
  "(wf_manifest m \<longrightarrow> FromBinary (ToBinary m @ tail) = Inr m) \<and> (FromBinary data = Inr m' \<longrightarrow> wf_manifest m')"
  using FromBinary_ToBinary FromBinary_wf by blast

definition sample_manifest :: ChunkManifest where
  "sample_manifest = \<lparr>cmVersion = 1, cmOriginalHash = zeros 32, cmOriginalSize = 9, cmChunkCount = 2,
     cmEntries = [\<lparr>meCodebookID = 5, meDeltaHash = 7, meChunkSize = 4, meCodebookIndex = 0\<rparr>,
       \<lparr>meCodebookID = 3, meDeltaHash = 8, meChunkSize = 5, meCodebookIndex = 255\<rparr>]\<rparr>"

theorem manifest_roundtrip_witness:
  "wf_manifest sample_manifest \<and> FromBinary (ToBinary sample_manifest) = Inr sample_manifest"
proof -
  have w: "wf_manifest sample_manifest" by (simp add: wf_manifest_def sample_manifest_def zeros_def)
  with manifest_roundtrip [of sample_manifest "[]"] show ?thesis by simp
qed

end
