(* ===== verification/Bitswap.thy ===== *)
theory Bitswap
  imports Sync_Manifest
begin

text \<open>
  \<^verbatim>\<open>internal/network/bitswap.go\<close>: sending the residuals of chosen chunks, and rebuilding a file
  from a manifest, the residuals received and those of the local version. The sender and the
  receiver visit the blocks of a packed file as \<open>block_visitor\<close>s. What is rebuilt from the
  residuals of a packed file is a packed file of the same input.

  The compressing stream between the two ends is the codec of \<open>Externals\<close>: what the writer was
  given is encoded as a whole. A reader of a stream that does not decode delivers some bytes, an
  argument, before it fails.
\<close>

section \<open>Sending chunks\<close>

definition stream_want :: "nat \<Rightarrow> nat \<Rightarrow> u32 list \<times> bytes \<Rightarrow> bool" where
  "stream_want first stop st = (case fst st of [] \<Rightarrow> False | idx # _ \<Rightarrow> unat idx < stop)"

definition chunk_record :: "u32 \<Rightarrow> bytes \<Rightarrow> bytes" where
  "chunk_record idx rs = le_bytes 4 idx @ le_bytes 4 (of_nat (length rs) :: u32) @ rs"

fun stream_entries ::
  "ChunkEntry list \<Rightarrow> bytes \<Rightarrow> u64 \<Rightarrow> nat \<Rightarrow> nat \<Rightarrow> u32 list \<Rightarrow> bytes \<Rightarrow> unit res \<times> (u32 list \<times> bytes)" where
  "stream_entries entries pool base first stop [] out = (Inr (), [], out)"
| "stream_entries entries pool base first stop (idx # ordered) out =
     (if unat idx < stop then
        (if unat idx < first then stream_entries entries pool base first stop ordered out
         else
           (case residual_of pool base (entries ! unat idx) of
              Inl e \<Rightarrow> (Inl e, idx # ordered, out)
            | Inr None \<Rightarrow> (Inl (GoErr ''bitswap: bounds error''), idx # ordered, out)
            | Inr (Some rs) \<Rightarrow> stream_entries entries pool base first stop ordered (out @ chunk_record idx rs)))
      else (Inr (), idx # ordered, out))"

definition stream_visit ::
  "ChunkEntry list \<Rightarrow> nat \<Rightarrow> nat \<Rightarrow> bytes \<Rightarrow> u32 list \<times> bytes \<Rightarrow> unit res \<times> (u32 list \<times> bytes)" where
  "stream_visit entries first stop pool st =
     (if length entries \<le> first then (Inl GoPanic, st)
      else stream_entries entries pool (DeltaOffset (entries ! first)) first stop (fst st) (snd st))"

text \<open>The result, and what the compressing writer was given if it was opened; it is closed on every path.\<close>

definition StreamChunks ::
  "ext \<Rightarrow> fs \<Rightarrow> string \<Rightarrow> string \<Rightarrow> bytes \<Rightarrow> u32 list \<Rightarrow> unit res \<times> (bytes \<times> bytes) option" where
  "StreamChunks X fs localPath codebookPath encryptionKey indices =
     (case (case fs localPath of
              None \<Rightarrow> Inl (GoErr ''open'')
            | Some content \<Rightarrow>
                rbind (ReadStream X encryptionKey content) (\<lambda>(header, blockTable, entries, s).
                rbind (wrap_err ''bitswap: open codebook'' (cb_Open fs codebookPath)) (\<lambda>cb.
                rbind (Dictionary cb) (\<lambda>dict. Inr (header, blockTable, entries, s, dict)))))
      of
        Inl e \<Rightarrow> (Inl e, None)
      | Inr (header, blockTable, entries, s, dict) \<Rightarrow>
          (let poolDict = (if UsesBrainDict header then dict else []);
               ordered = sort_key unat indices;
               (r, st) = ForEachBlock X s header blockTable entries poolDict encryptionKey stream_want (stream_visit entries) (ordered, [])
           in (r, Some (dict, snd st))))"

section \<open>Receiving chunks\<close>

definition maxPatchOverhead :: u32 where "maxPatchOverhead = 256"

text \<open>Residuals wait in a temporary file; a reference is an offset and a size.\<close>

type_synonym spilled = "nat \<times> u32"

definition spill_keep :: "bytes \<Rightarrow> bytes \<Rightarrow> spilled \<times> bytes" where
  "spill_keep spill data = ((length spill, of_nat (length data)), spill @ data)"

text \<open>
  What the reader delivers of the stream, and whether it ends cleanly; the map of residuals, and
  the temporary file.
\<close>

fun receive ::
  "ChunkManifest \<Rightarrow> bool \<Rightarrow> nat \<Rightarrow> bytes \<Rightarrow> (u32 \<rightharpoonup> spilled) \<times> bytes \<Rightarrow> ((u32 \<rightharpoonup> spilled) \<times> bytes) res" where
  "receive m clean 0 s st = Inr st"
| "receive m clean (Suc k) s (residuals, spill) =
     (if length s < 8 then
        (if s = [] \<and> clean then Inr (residuals, spill) else Inl (GoErr ''bitswap: read header''))
      else
        (let idx = get_uint32 s 0;
             size = get_uint32 s 4;
             s = drop 8 s
         in if cmChunkCount m \<le> idx then Inl (GoErr ''bitswap: invalid chunk'')
            else if length (cmEntries m) \<le> unat idx then Inl GoPanic
            else if meChunkSize (cmEntries m ! unat idx) + maxPatchOverhead < size then Inl (GoErr ''bitswap: invalid chunk'')
            else if length s < unat size then Inl (GoErr ''bitswap: read residual data'')
            else
              (let (ref, spill) = spill_keep spill (take (unat size) s)
               in receive m clean k (drop (unat size) s) (residuals(idx \<mapsto> ref), spill))))"

definition needed_keys :: "ChunkManifest \<Rightarrow> (u32 \<rightharpoonup> spilled) \<Rightarrow> (u64 \<times> u64) list" where
  "needed_keys m residuals =
     map (\<lambda>(i, e). chunkKey e) (filter (\<lambda>(i, e). residuals (of_nat i) = None) (enumerate 0 (cmEntries m)))"

fun local_entries ::
  "(bytes \<Rightarrow> u64) \<Rightarrow> (u64 \<times> u64) list \<Rightarrow> bytes \<Rightarrow> u64 \<Rightarrow> ChunkEntry list \<Rightarrow> bytes \<times> (u64 \<times> u64 \<rightharpoonup> spilled) \<Rightarrow>
   unit res \<times> (bytes \<times> (u64 \<times> u64 \<rightharpoonup> spilled))" where
  "local_entries xx needed pool base [] st = (Inr (), st)"
| "local_entries xx needed pool base (le # les) (spill, locals) =
     (case residual_of pool base le of
        Inl e \<Rightarrow> (Inl e, spill, locals)
      | Inr None \<Rightarrow> local_entries xx needed pool base les (spill, locals)
      | Inr (Some res) \<Rightarrow>
          (let key = (CodebookID le, xx res) in
           if key \<in> set needed \<and> locals key = None then
             (let (ref, spill) = spill_keep spill res
              in local_entries xx needed pool base les (spill, locals(key \<mapsto> ref)))
           else local_entries xx needed pool base les (spill, locals)))"

definition local_visit ::
  "(bytes \<Rightarrow> u64) \<Rightarrow> (u64 \<times> u64) list \<Rightarrow> ChunkEntry list \<Rightarrow> nat \<Rightarrow> nat \<Rightarrow> bytes \<Rightarrow> bytes \<times> (u64 \<times> u64 \<rightharpoonup> spilled) \<Rightarrow>
   unit res \<times> (bytes \<times> (u64 \<times> u64 \<rightharpoonup> spilled))" where
  "local_visit xx needed lEnts first stop pool st =
     (if length lEnts \<le> first then (Inl GoPanic, st)
      else local_entries xx needed pool (DeltaOffset (lEnts ! first)) (take (stop - first) (drop first lEnts)) st)"

text \<open>A local version that cannot be parsed, or has no chunks, is as good as none.\<close>

definition local_residuals ::
  "ext \<Rightarrow> fs \<Rightarrow> string \<Rightarrow> bytes \<Rightarrow> bytes \<Rightarrow> (u64 \<times> u64) list \<Rightarrow> bytes \<Rightarrow> (bytes \<times> (u64 \<times> u64 \<rightharpoonup> spilled)) res" where
  "local_residuals X fs outPath encryptionKey brainDict needed spill =
     (case fs outPath of
        None \<Rightarrow> Inr (spill, Map.empty)
      | Some content \<Rightarrow>
          (case ReadStream X encryptionKey content of
             Inl GoPanic \<Rightarrow> Inl GoPanic
           | Inl (GoErr _) \<Rightarrow> Inr (spill, Map.empty)
           | Inr (lHeader, lBlockTable, lEnts, s) \<Rightarrow>
               if ChunkCount lHeader = 0 then Inr (spill, Map.empty)
               else
                 (case ForEachBlock X s lHeader lBlockTable lEnts (if UsesBrainDict lHeader then brainDict else []) encryptionKey
                         (\<lambda>_ _ _. True) (local_visit (xxhash X) needed lEnts) (spill, Map.empty) of
                    (Inl e, _) \<Rightarrow> wrap_err ''bitswap: read local version'' (Inl e)
                  | (Inr _, st) \<Rightarrow> Inr st)))"

section \<open>Rebuilding the file\<close>

text \<open>
  What the machine of the client decides: the random salt and nonces, what a damaged frame
  still decodes to, whether the stream to the peer opens, and whether the calls that remove
  and rename files succeed.
\<close>

record SyncEnv =
  seSalt :: bytes
  seNonce :: "nat \<Rightarrow> bytes"
  seTableNonce :: bytes
  sePartial :: "bytes \<Rightarrow> bytes \<Rightarrow> bytes"
  seConnects :: bool
  seRemoves :: "string \<Rightarrow> bool"
  seRenames :: bool

definition spill_read :: "bytes \<Rightarrow> spilled \<Rightarrow> bytes res" where
  "spill_read spill ref =
     (case ref of (off, n) \<Rightarrow>
        if length spill < off + unat n then Inl (GoErr ''bitswap: read residual'')
        else Inr (slice spill off (off + unat n)))"

definition find_residual :: "ChunkManifest \<Rightarrow> (u32 \<rightharpoonup> spilled) \<Rightarrow> (u64 \<times> u64 \<rightharpoonup> spilled) \<Rightarrow> nat \<Rightarrow> spilled option" where
  "find_residual m residuals locals idx =
     (case residuals (of_nat idx) of
        Some ref \<Rightarrow> Some ref
      | None \<Rightarrow> locals (chunkKey (cmEntries m ! idx)))"

fun rebuild_entries ::
  "(nat \<Rightarrow> spilled option) \<Rightarrow> bytes \<Rightarrow> nat list \<Rightarrow> ChunkEntry list \<times> bytes \<times> u64 \<Rightarrow> (ChunkEntry list \<times> bytes \<times> u64) res" where
  "rebuild_entries refs spill [] st = Inr st"
| "rebuild_entries refs spill (idx # is) (entries, pool, currentOffset) =
     (case refs idx of
        None \<Rightarrow> Inl (GoErr ''bitswap: missing chunk for reconstruction'')
      | Some ref \<Rightarrow>
          rbind (spill_read spill ref) (\<lambda>res.
            rebuild_entries refs spill is
              (entries[idx := (entries ! idx)\<lparr>DeltaOffset := currentOffset, DeltaSize := of_nat (length res)\<rparr>],
               pool @ res, currentOffset + of_nat (length res))))"

fun rebuild_blocks ::
  "ext \<Rightarrow> (nat \<Rightarrow> bytes) \<Rightarrow> bytes option \<Rightarrow> bytes \<Rightarrow> (nat \<Rightarrow> spilled option) \<Rightarrow> bytes \<Rightarrow> nat list \<Rightarrow> nat list \<Rightarrow>
   ChunkEntry list \<Rightarrow> u64 \<Rightarrow> (bytes list \<times> ChunkEntry list) res" where
  "rebuild_blocks X nonce newKey brainDict refs spill starts [] entries currentOffset = Inr ([], entries)"
| "rebuild_blocks X nonce newKey brainDict refs spill starts (b # is) entries currentOffset =
     rbind (BlockRange starts b (length entries)) (\<lambda>(startIdx, endIdx).
     rbind (rebuild_entries refs spill [startIdx..<endIdx] (entries, [], currentOffset)) (\<lambda>(entries, pool, currentOffset).
     rbind (wrap_err ''bitswap: repack compress block'' (CompressPoolDict X pool brainDict)) (\<lambda>compBlock.
     rbind (maybe_encrypt X (nonce b) newKey ''bitswap: encrypt block'' compBlock) (\<lambda>compBlock.
     rbind (rebuild_blocks X nonce newKey brainDict refs spill starts is entries currentOffset) (\<lambda>(blocks, entries).
       Inr (compBlock # blocks, entries))))))"

definition manifest_chunks :: "ChunkManifest \<Rightarrow> ChunkEntry list res" where
  "manifest_chunks m =
     (if unat (cmChunkCount m) < length (cmEntries m) then Inl GoPanic
      else Inr (map (\<lambda>e. \<lparr>CodebookID = meCodebookID e, DeltaOffset = 0, DeltaSize = 0, EOriginalSize = meChunkSize e,
                           CodebookIndex = meCodebookIndex e\<rparr>) (cmEntries m) @
                replicate (unat (cmChunkCount m) - length (cmEntries m))
                  \<lparr>CodebookID = 0, DeltaOffset = 0, DeltaSize = 0, EOriginalSize = 0, CodebookIndex = 0\<rparr>))"

text \<open>With a key on this node, the rebuilt file is encrypted.\<close>

definition rebuilt_header :: "SyncEnv \<Rightarrow> ChunkManifest \<Rightarrow> bytes \<Rightarrow> Header" where
  "rebuilt_header env m encryptionKey =
     (let h = zero_header\<lparr>Version := Version7, OriginalSize := cmOriginalSize m, ChunkCount := cmChunkCount m,
                UsesBrainDict := True, OriginalHash := gcopy (zeros 32) 0 32 (cmOriginalHash m)\<rparr>;
          h = (if encryptionKey \<noteq> [] then h\<lparr>Salt := gcopy (zeros 16) 0 16 (seSalt env), IsEncrypted := True\<rparr> else h)
      in h\<lparr>CompressedTable := True\<rparr>)"

definition rebuild_file ::
  "ext \<Rightarrow> SyncEnv \<Rightarrow> ChunkManifest \<Rightarrow> bytes \<Rightarrow> bytes \<Rightarrow> (nat \<Rightarrow> spilled option) \<Rightarrow> bytes \<Rightarrow> bytes res" where
  "rebuild_file X env m encryptionKey brainDict refs spill =
     (let fileHeader = rebuilt_header env m encryptionKey;
          newKey = (if encryptionKey \<noteq> [] then Some (DeriveKey X encryptionKey (seSalt env)) else None)
      in rbind (manifest_chunks m) (\<lambda>entries.
         let blockStarts = BlockStarts entries in
         rbind (rebuild_blocks X (seNonce env) newKey brainDict refs spill blockStarts [0..<length blockStarts] entries 0)
           (\<lambda>(blocks, entries).
         rbind (EncodeCompressedTable X (seTableNonce env) entries Version7 newKey) (\<lambda>tableData.
           Inr (fst (Serialize fileHeader) @ put_block_table (map (\<lambda>b. of_nat (length b)) blocks) @ tableData @ concat blocks)))))"

definition brain_read :: "ext \<Rightarrow> SyncEnv \<Rightarrow> bytes \<Rightarrow> bytes \<Rightarrow> bytes \<times> bool" where
  "brain_read X env dict wire =
     (case zstd_decode X dict wire of Some p \<Rightarrow> (p, True) | None \<Rightarrow> (sePartial env dict wire, False))"

text \<open>
  The temporary output is created once all residuals are there; its content is written at the
  very end, so after an error it is empty.
\<close>

definition ReceiveChunks ::
  "ext \<Rightarrow> SyncEnv \<Rightarrow> string \<Rightarrow> string \<Rightarrow> ChunkManifest \<Rightarrow> u32 list \<Rightarrow> bytes \<Rightarrow> string \<Rightarrow> bytes \<Rightarrow> fs \<Rightarrow> unit res \<times> fs" where
  "ReceiveChunks X env tempPath outPath m missingIndices wire codebookPath encryptionKey fs =
     (case rbind (wrap_err ''bitswap: open codebook'' (cb_Open fs codebookPath)) (\<lambda>cb.
           rbind (Dictionary cb) (\<lambda>brainDict.
           let (s, clean) = brain_read X env brainDict wire in
           rbind (receive m clean (length missingIndices) s (Map.empty, [])) (\<lambda>(residuals, spill).
           rbind (local_residuals X fs outPath encryptionKey brainDict (needed_keys m residuals) spill) (\<lambda>(spill, locals).
             Inr (brainDict, residuals, spill, locals)))))
      of
        Inl e \<Rightarrow> (Inl e, fs)
      | Inr (brainDict, residuals, spill, locals) \<Rightarrow>
          (let fs = fs(tempPath \<mapsto> []) in
           case rebuild_file X env m encryptionKey brainDict (find_residual m residuals locals) spill of
             Inl e \<Rightarrow> (Inl e, fs)
           | Inr out \<Rightarrow> (Inr (), fs(tempPath \<mapsto> out))))"

section \<open>The sender streams the residuals asked for\<close>

abbreviation res_at :: "item list \<Rightarrow> nat \<Rightarrow> bytes" where
  "res_at its i \<equiv> fst (snd (its ! i))"

definition records :: "item list \<Rightarrow> u32 list \<Rightarrow> bytes" where
  "records its idxs = concat (map (\<lambda>i. chunk_record i (res_at its (unat i))) idxs)"

lemma records_simps [simp]:
  "records its [] = []" "records its (i # is) = chunk_record i (res_at its (unat i)) @ records its is"
  "records its (a @ b) = records its a @ records its b"
  by (simp_all add: records_def)

lemma residual_in_block:
  assumes "laid_out r g its" "g + length (pool_of its) < 2 ^ 63" "drop n entries = map fst its @ rest" "k < length its"
  shows "residual_of (pool_of its) (of_nat g) (entries ! (n + k)) = Inr (Some (res_at its k))"
proof -
  obtain e rs c where it: "its ! k = (e, rs, c)" by (cases "its ! k") auto
  have its: "its = take k its @ (e, rs, c) # drop (Suc k) its" using id_take_nth_drop [OF assms(4)] it by simp
  have "n < length entries" using arg_cong [OF assms(3), of length] assms(4) by simp
  then have "entries ! (n + k) = e"
    using arg_cong [OF assms(3), of "\<lambda>xs. xs ! k"] assms(4) it by (simp add: nth_append)
  moreover have "residual_of (pool_of its) (of_nat g) e = Inr (Some rs)"
    using residual_of_laid [of r g "take k its" e rs c "drop (Suc k) its"] assms(1,2) its by simp
  ultimately show ?thesis by (simp add: it)
qed

lemma stream_entries_laid:
  assumes l: "laid_out r g its" "g + length (pool_of its) < 2 ^ 63" "drop n entries = map fst its @ rest"
    and all: "\<And>k. k < length its \<Longrightarrow> res_at all (n + k) = res_at its k"
  shows "sorted (map unat ordered) \<Longrightarrow> \<forall>i \<in> set ordered. n \<le> unat i \<Longrightarrow>
    stream_entries entries (pool_of its) (of_nat g) n (n + length its) ordered out =
      (Inr (), filter (\<lambda>i. n + length its \<le> unat i) ordered,
       out @ records all (filter (\<lambda>i. unat i < n + length its) ordered))"
proof (induction ordered arbitrary: out)
  case (Cons idx ordered)
  show ?case
  proof (cases "unat idx < n + length its")
    case True
    let ?k = "unat idx - n"
    have k: "?k < length its" "unat idx = n + ?k" using True Cons.prems(2) by auto
    then have "residual_of (pool_of its) (of_nat g) (entries ! unat idx) = Inr (Some (res_at all (unat idx)))"
      using residual_in_block [OF l k(1)] all [OF k(1)] by simp
    with Cons True show ?thesis by simp
  next
    case False
    then have "\<forall>i \<in> set ordered. n + length its \<le> unat i" using Cons.prems(1) by auto
    then have "filter (\<lambda>i. n + length its \<le> unat i) ordered = ordered"
      "filter (\<lambda>i. unat i < n + length its) ordered = []"
      by (auto simp: filter_id_conv filter_empty_conv)
    with False show ?thesis by simp
  qed
qed simp

definition stream_seen :: "packed \<Rightarrow> u32 list \<Rightarrow> packed \<Rightarrow> u32 list \<times> bytes \<Rightarrow> bool" where
  "stream_seen bs ordered pre st \<longleftrightarrow>
     sorted (map unat ordered) \<and> fst st = filter (\<lambda>i. length (items_of pre) \<le> unat i) ordered \<and>
     snd st = records (items_of bs) (filter (\<lambda>i. unat i < length (items_of pre)) ordered)"

lemma filter_between:
  assumes "n \<le> (m :: nat)" "sorted (map f xs)"
  shows "filter (\<lambda>x. f x < m) xs = filter (\<lambda>x. f x < n) xs @ filter (\<lambda>x. n \<le> f x \<and> f x < m) xs"
  using assms(2)
proof (induction xs)
  case (Cons x xs)
  show ?case
  proof (cases "f x < n")
    case False
    then have "filter (\<lambda>x. f x < n) xs = []" using Cons.prems by (fastforce simp: filter_empty_conv)
    with False Cons show ?thesis by simp
  qed (use Cons assms(1) in simp)
qed simp

interpretation stream_visitor: block_visitor bs stream_want "stream_visit (map fst (items_of bs))" "stream_seen bs ordered"
  for bs ordered
proof (unfold_locales, goal_cases)
  case (1 pre b post r st first stop)
  note bs = 1(1)
  let ?n = "length (items_of pre)" and ?its = "fst b"
  note base = base_of_block [OF 1(2) [unfolded bs] 1(4)]
  have R: "first = ?n" "stop = ?n + length ?its" using 1(6) by (simp_all add: range_of_def)
  have s: "sorted (map unat ordered)" "fst st = filter (\<lambda>i. ?n \<le> unat i) ordered"
    "snd st = records (items_of bs) (filter (\<lambda>i. unat i < ?n) ordered)"
    using 1(5) by (simp_all add: stream_seen_def)
  have len: "length (pool_of (items_of pre)) + length (pool_of ?its) < 2 ^ 63" using 1(3) by (simp add: bs)
  have all: "res_at (items_of bs) (?n + k) = res_at ?its k" if "k < length ?its" for k
    using that by (simp add: bs nth_append)
  have "stream_visit (map fst (items_of bs)) first stop (pool_of ?its) st =
      (Inr (), filter (\<lambda>i. ?n + length ?its \<le> unat i) (fst st),
        snd st @ records (items_of bs) (filter (\<lambda>i. unat i < ?n + length ?its) (fst st)))"
  proof -
    have "sorted (map unat (fst st))" "\<forall>i \<in> set (fst st). ?n \<le> unat i" using s(1,2) by (simp_all add: sorted_filter)
    then have run: "stream_entries (map fst (items_of bs)) (pool_of ?its) (of_nat (length (pool_of (items_of pre)))) ?n (?n + length ?its) (fst st) (snd st) =
        (Inr (), filter (\<lambda>i. ?n + length ?its \<le> unat i) (fst st),
          snd st @ records (items_of bs) (filter (\<lambda>i. unat i < ?n + length ?its) (fst st)))"
      by (intro stream_entries_laid [OF base(3) len base(4) [folded bs]] all)
    show ?thesis
      unfolding stream_visit_def R bs base(2) using base(1) run [unfolded bs] by (simp only: not_le [symmetric] if_False)
  qed
  moreover have "filter (\<lambda>i. ?n + length ?its \<le> unat i) (fst st) = filter (\<lambda>i. ?n + length ?its \<le> unat i) ordered"
    by (simp add: s(2)) (rule filter_cong, auto)
  moreover have "filter (\<lambda>i. unat i < ?n + length ?its) ordered =
      filter (\<lambda>i. unat i < ?n) ordered @ filter (\<lambda>i. unat i < ?n + length ?its) (fst st)"
    using filter_between [of ?n "?n + length ?its" unat ordered] s(1,2) by (simp add: conj_commute)
  ultimately show ?case using s(1,3) by (simp add: stream_seen_def)
next
  case (2 pre b post st first stop)
  let ?n = "length (items_of pre)" and ?m = "length (items_of pre) + length (fst b)"
  have s: "sorted (map unat ordered)" "fst st = filter (\<lambda>i. ?n \<le> unat i) ordered"
    "snd st = records (items_of bs) (filter (\<lambda>i. unat i < ?n) ordered)"
    using 2(3) by (simp_all add: stream_seen_def)
  have stop: "stop = ?m" using 2(4) by (simp add: range_of_def)
  have "\<forall>i \<in> set (fst st). ?m \<le> unat i"
  proof (cases "fst st")
    case (Cons i rest)
    have "sorted (map unat (fst st))" using s(1,2) by (simp add: sorted_filter)
    moreover have "?m \<le> unat i" using 2(5) Cons by (simp add: stream_want_def stop)
    ultimately show ?thesis using Cons by auto
  qed simp
  then have ge: "\<forall>i \<in> set ordered. ?n \<le> unat i \<longrightarrow> ?m \<le> unat i" by (simp add: s(2))
  have "filter (\<lambda>i. ?m \<le> unat i) ordered = filter (\<lambda>i. ?n \<le> unat i) ordered"
    "filter (\<lambda>i. unat i < ?m) ordered = filter (\<lambda>i. unat i < ?n) ordered"
    using ge by (auto intro!: filter_cong)
  with s show ?case by (simp add: stream_seen_def)
qed

text \<open>An honest sender writes the records asked for, in order.\<close>

lemma StreamChunks_packed:
  assumes X: "zstd_ok X" "zstd_bound X" "gcm_ok X" "hash_sizes_ok X" and p: "packed_file X h ek r bs crom input"
    and f: "fs path = Some crom" and cb: "cb_Open fs cbp = Inr r" "Dictionary r = Inr dict"
    and i: "sorted (map unat indices)" "\<forall>i \<in> set indices. unat i < length (items_of bs)"
  shows "StreamChunks X fs path cbp ek indices = (Inr (), Some (dict, records (items_of bs) indices))"
proof -
  obtain t :: bytes where rd: "ReadStream X ek crom =
      Inr ((stored_header h)\<lparr>TableBytes := length t\<rparr>, sizes_of bs, map fst (items_of bs), frames_of bs)"
    using ReadStream_packed [OF X p] by blast
  let ?h = "(stored_header h)\<lparr>TableBytes := length t\<rparr>"
  have v: "Version3 \<le> Version h" "Version h \<le> Version8" and b: "packed_blocks X h ek r bs input"
    using p by (simp_all add: packed_file_def packed_header_def)
  let ?d = "if UsesBrainDict h then dict else []"
  have d: "dict_for h r ?d" using cb(2) by (simp add: dict_for_def)
  have sort: "sort_key unat indices = indices" using i(1) by (simp add: sort_key_id_if_sorted)
  have "stream_seen bs indices [] (indices, [])" using i(1) by (simp add: stream_seen_def)
  from stream_visitor.ForEachBlock_visits [OF b v d this, where tail = "[]" and n = "length t"] obtain st where
    st: "ForEachBlock X (frames_of bs) ?h (sizes_of bs) (map fst (items_of bs)) ?d ek stream_want
      (stream_visit (map fst (items_of bs))) (indices, []) = (Inr (), st)" "stream_seen bs indices bs st" by auto
  have "filter (\<lambda>i. unat i < length (items_of bs)) indices = indices" using i(2) by (simp add: filter_id_conv)
  then have "snd st = records (items_of bs) indices" using st(2) by (simp add: stream_seen_def)
  then show ?thesis
    using st(1) by (simp add: StreamChunks_def f rd cb sort stored_fields [OF v] Let_def del: if_True if_False)
qed

section \<open>The receiver collects residuals\<close>

lemma spill_read_keep:
  assumes "length data < 2 ^ 32" "spill_keep spill data = (ref, spill')"
  shows "spill_read spill' ref = Inr data" "spill' = spill @ data"
proof -
  have "unat (of_nat (length data) :: u32) = length data" using assms(1) by (intro unat_of_nat_lt) simp
  then show "spill_read spill' ref = Inr data" "spill' = spill @ data"
    using assms(2) by (auto simp: spill_keep_def spill_read_def slice_def)
qed

lemma spill_read_mono: "spill_read spill ref = Inr rs \<Longrightarrow> spill_read (spill @ tail) ref = Inr rs"
  by (cases ref) (auto simp: spill_read_def slice_append1 split: if_splits)

text \<open>Every item of a packed file is small, and its record passes the checks of the receiver.\<close>

lemma packed_item_bounds:
  assumes "packed_blocks X h ek r bs input" "(e, rs, c) \<in> set (items_of bs)"
  shows "unat (EOriginalSize e) = length c" "length rs \<le> length c" "length c \<le> BlockSize" "unat (DeltaSize e) = length rs"
    "DeltaSize e = of_nat (length rs)"
proof -
  have "laid_out r 0 (items_of bs)" "full_blocks bs" using assms(1) by (simp_all add: packed_blocks_def)
  then have "decodes r (e, rs, c)" using laid_out_decodes assms(2) by blast
  then show "unat (EOriginalSize e) = length c" "length rs \<le> length c" "unat (DeltaSize e) = length rs"
    by (simp_all add: decodes_def)
  then show "DeltaSize e = of_nat (length rs)" by (metis of_nat_unat ucast_id)
  obtain b where b: "b \<in> set bs" "(e, rs, c) \<in> set (fst b)" using assms(2) by (auto simp: items_of_def)
  have "full_blocks bs \<Longrightarrow> length (content_of (fst b)) \<le> BlockSize" using b(1)
    by (induction bs rule: full_blocks.induct) auto
  then have "length (content_of (fst b)) \<le> BlockSize" using \<open>full_blocks bs\<close> .
  moreover have "length c \<le> length (content_of (fst b))"
    using b(2) by (induction "fst b" arbitrary: b) (auto simp: content_of_def)
  ultimately show "length c \<le> BlockSize" by simp
qed

definition gathered_at :: "item list \<Rightarrow> (u32 \<rightharpoonup> spilled) \<times> bytes \<Rightarrow> bool" where
  "gathered_at its st \<longleftrightarrow> (\<forall>i ref. fst st i = Some ref \<longrightarrow> spill_read (snd st) ref = Inr (res_at its (unat i)))"

lemma get_record:
  assumes "length rs < 2 ^ 32"
  shows "get_uint32 (chunk_record i rs @ s) 0 = i" "unat (get_uint32 (chunk_record i rs @ s) 4) = length rs"
    "drop 8 (chunk_record i rs @ s) = rs @ s"
  using assms unat_of_nat_lt [of "length rs", where 'a = 32]
  by (simp_all add: chunk_record_def get_uint32_def slice_layout wire_simps)

lemma receive_records:
  assumes p: "packed_blocks X h ek r bs input" and c: "ChunkCount h = of_nat (length (items_of bs))" "length (items_of bs) < 2 ^ 32"
  shows "\<forall>i \<in> set idxs. unat i < length (items_of bs) \<Longrightarrow> gathered_at (items_of bs) st \<Longrightarrow>
    \<exists>st'. receive (manifest_of X h bs) clean (length idxs) (records (items_of bs) idxs) st = Inr st' \<and>
      gathered_at (items_of bs) st' \<and> dom (fst st') = dom (fst st) \<union> set idxs"
proof (induction idxs arbitrary: st)
  case (Cons i idxs)
  obtain residuals spill where st: "st = (residuals, spill)" by (cases st)
  have il: "unat i < length (items_of bs)" using Cons.prems(1) by simp
  obtain e rs c where it: "items_of bs ! unat i = (e, rs, c)" by (metis prod_cases3)
  have m: "(e, rs, c) \<in> set (items_of bs)" using il it by (metis nth_mem)
  note it_ok = packed_item_bounds [OF p m]
  have rl: "length rs < 2 ^ 32" using it_ok(2,3) by (simp add: BlockSize_def)
  let ?s = "records (items_of bs) (i # idxs)" and ?m = "manifest_of X h bs"
  have s: "?s = chunk_record i rs @ records (items_of bs) idxs" by (simp add: it)
  note g = get_record [OF rl, of i "records (items_of bs) idxs"]
  obtain ref spill' where k: "spill_keep spill rs = (ref, spill')" by (cases "spill_keep spill rs")
  note kept = spill_read_keep [OF rl k]
  have "unat (of_nat (length (items_of bs)) :: u32) = length (items_of bs)" using c(2) by (intro unat_of_nat_lt) simp
  then have cc: "\<not> cmChunkCount ?m \<le> i" using c(1) il by (simp add: manifest_of_def word_le_nat_alt)
  have e: "length (cmEntries ?m) = length (items_of bs)" "meChunkSize (cmEntries ?m ! unat i) = EOriginalSize e"
    using il it by (simp_all add: manifest_of_def manifest_entry_def)
  have "unat (EOriginalSize e + maxPatchOverhead) = length c + 256"
    using it_ok(1,3) by (subst unat_plus_simple [THEN iffD1]) (simp_all add: maxPatchOverhead_def word_le_nat_alt unat_word_ariths BlockSize_def)
  then have small: "\<not> meChunkSize (cmEntries ?m ! unat i) + maxPatchOverhead < get_uint32 ?s 4"
    using g(2) it_ok(2) by (simp add: e s it word_less_nat_alt)
  have long: "\<not> length ?s < 8" by (simp add: s chunk_record_def)
  define S where "S = ?s"
  have S: "get_uint32 S 0 = i" "unat (get_uint32 S 4) = length rs" "drop 8 S = rs @ records (items_of bs) idxs"
    "\<not> length S < 8" "\<not> meChunkSize (cmEntries ?m ! unat i) + maxPatchOverhead < get_uint32 S 4"
    using g long small unfolding S_def s by simp_all
  have "receive ?m clean (Suc (length idxs)) S (residuals, spill) =
      receive ?m clean (length idxs) (records (items_of bs) idxs) (residuals(i \<mapsto> ref), spill')"
    using cc e(1) il k S by (simp add: Let_def)
  then have step: "receive ?m clean (length (i # idxs)) ?s st =
      receive ?m clean (length idxs) (records (items_of bs) idxs) (residuals(i \<mapsto> ref), spill')"
    by (simp only: S_def st list.size add_Suc_right add_0_right)
  have "gathered_at (items_of bs) (residuals(i \<mapsto> ref), spill')"
    using Cons.prems(2) kept spill_read_mono by (auto simp: gathered_at_def st it)
  moreover have "\<forall>i \<in> set idxs. unat i < length (items_of bs)" using Cons.prems(1) by simp
  ultimately obtain st' where
    st': "receive ?m clean (length idxs) (records (items_of bs) idxs) (residuals(i \<mapsto> ref), spill') = Inr st'"
    "gathered_at (items_of bs) st'" "dom (fst st') = dom (fst (residuals(i \<mapsto> ref), spill')) \<union> set idxs" using Cons.IH by blast
  have "dom (fst st') = dom (fst st) \<union> set (i # idxs)" using st'(3) by (simp add: st)
  with st'(1,2) show ?case unfolding step by blast
qed auto

section \<open>The local version contributes what it has\<close>

definition item_key :: "(bytes \<Rightarrow> u64) \<Rightarrow> item \<Rightarrow> u64 \<times> u64" where
  "item_key xx it = chunkKey (manifest_entry xx it)"

lemma item_key_simp [simp]: "item_key xx (e, rs, c) = (CodebookID e, xx rs)"
  by (simp add: item_key_def chunkKey_def manifest_entry_def)

text \<open>
  Between two blocks: a reference found under a key is a residual of the local version with that
  key, every needed key seen so far has one, and what was in the temporary file before is still there.
\<close>

definition local_found :: "(bytes \<Rightarrow> u64) \<Rightarrow> item list \<Rightarrow> bytes \<times> (u64 \<times> u64 \<rightharpoonup> spilled) \<Rightarrow> bool" where
  "local_found xx its st \<longleftrightarrow>
     (\<forall>key ref. snd st key = Some ref \<longrightarrow> (\<exists>it \<in> set its. item_key xx it = key \<and> spill_read (fst st) ref = Inr (fst (snd it))))"

definition local_have :: "(bytes \<Rightarrow> u64) \<Rightarrow> (u64 \<times> u64) set \<Rightarrow> item list \<Rightarrow> bytes \<times> (u64 \<times> u64 \<rightharpoonup> spilled) \<Rightarrow> bool" where
  "local_have xx needed its st \<longleftrightarrow> (\<forall>it \<in> set its. item_key xx it \<in> needed \<longrightarrow> snd st (item_key xx it) \<noteq> None)"

lemma local_found_keep:
  assumes "local_found xx its (spill, locals)" "(e, rs, c) \<in> set its" "length rs < 2 ^ 32" "spill_keep spill rs = (ref, spill')"
  shows "local_found xx its (spill', locals((CodebookID e, xx rs) \<mapsto> ref))"
  unfolding local_found_def
proof (intro allI impI)
  fix key ref'
  note kept = spill_read_keep [OF assms(3,4)]
  assume a: "snd (spill', locals((CodebookID e, xx rs) \<mapsto> ref)) key = Some ref'"
  show "\<exists>it \<in> set its. item_key xx it = key \<and> spill_read (fst (spill', locals((CodebookID e, xx rs) \<mapsto> ref))) ref' = Inr (fst (snd it))"
  proof (cases "key = (CodebookID e, xx rs)")
    case True
    with a kept(1) have "item_key xx (e, rs, c) = key \<and> spill_read spill' ref' = Inr (fst (snd (e, rs, c)))" by simp
    with assms(2) show ?thesis by (metis fst_conv)
  next
    case False
    with a have "locals key = Some ref'" by simp
    then obtain it where "it \<in> set its" "item_key xx it = key" "spill_read spill ref' = Inr (fst (snd it))"
      using assms(1) unfolding local_found_def fst_conv snd_conv by blast
    with kept(2) spill_read_mono show ?thesis by (metis fst_conv)
  qed
qed

lemma local_entries_laid:
  assumes l: "laid_out r g its" "g + length (pool_of its) < 2 ^ 63" and all: "set its \<subseteq> set all"
  shows "its = P @ Q \<Longrightarrow> local_found xx all st \<Longrightarrow> local_have xx (set needed) (seen @ P) st \<Longrightarrow>
    \<exists>st'. local_entries xx needed (pool_of its) (of_nat g) (map fst Q) st = (Inr (), st') \<and>
      local_found xx all st' \<and> local_have xx (set needed) (seen @ its) st' \<and>
      (\<forall>ref rs. spill_read (fst st) ref = Inr rs \<longrightarrow> spill_read (fst st') ref = Inr rs)"
proof (induction Q arbitrary: P st)
  case (Cons it Q)
  obtain e rs c where it: "it = (e, rs, c)" by (cases it) auto
  obtain spill locals where st: "st = (spill, locals)" by (cases st)
  have its: "its = P @ (e, rs, c) # Q" using Cons.prems(1) by (simp add: it)
  have res: "residual_of (pool_of its) (of_nat g) e = Inr (Some rs)" using residual_of_laid l unfolding its by blast
  have "decodes r (e, rs, c)" using laid_out_decodes [OF l(1)] its by simp
  then have rl: "length rs < 2 ^ 32" using unat_lt [of "DeltaSize e"] by (auto simp: decodes_def)
  have m: "(e, rs, c) \<in> set all" using all its by auto
  let ?key = "(CodebookID e, xx rs)"
  have split: "its = (P @ [it]) @ Q" using Cons.prems(1) by simp
  show ?case
  proof (cases "?key \<in> set needed \<and> locals ?key = None")
    case True
    obtain ref spill' where k: "spill_keep spill rs = (ref, spill')" by (cases "spill_keep spill rs")
    let ?st = "(spill', locals(?key \<mapsto> ref))"
    have f: "local_found xx all ?st" using local_found_keep [OF _ m rl k] Cons.prems(2) by (simp add: st)
    have hv: "local_have xx (set needed) (seen @ P @ [it]) ?st" using Cons.prems(3) by (auto simp: local_have_def st it)
    obtain st' where st': "local_entries xx needed (pool_of its) (of_nat g) (map fst Q) ?st = (Inr (), st')"
      "local_found xx all st'" "local_have xx (set needed) (seen @ its) st'"
      "\<forall>ref rs. spill_read spill' ref = Inr rs \<longrightarrow> spill_read (fst st') ref = Inr rs"
      using Cons.IH [OF split f hv] by auto
    have "\<forall>ref rs. spill_read spill ref = Inr rs \<longrightarrow> spill_read (fst st') ref = Inr rs"
      using st'(4) spill_read_mono spill_read_keep(2) [OF rl k] by metis
    moreover have "local_entries xx needed (pool_of its) (of_nat g) (map fst (it # Q)) st = (Inr (), st')"
      using True st'(1) by (simp add: st it res k)
    ultimately show ?thesis using st'(2,3) unfolding st fst_conv by blast
  next
    case False
    have hv: "local_have xx (set needed) (seen @ P @ [it]) st"
      using Cons.prems(3) False by (auto simp: local_have_def st it)
    obtain st' where st': "local_entries xx needed (pool_of its) (of_nat g) (map fst Q) st = (Inr (), st')"
      "local_found xx all st'" "local_have xx (set needed) (seen @ its) st'"
      "\<forall>ref rs. spill_read (fst st) ref = Inr rs \<longrightarrow> spill_read (fst st') ref = Inr rs"
      using Cons.IH [OF split Cons.prems(2) hv] by auto
    moreover have "local_entries xx needed (pool_of its) (of_nat g) (map fst (it # Q)) st = (Inr (), st')"
      using False st'(1) by (auto simp: st it res Let_def)
    ultimately show ?thesis by blast
  qed
qed auto

definition local_seen ::
  "(bytes \<Rightarrow> u64) \<Rightarrow> (u64 \<times> u64) list \<Rightarrow> bytes \<Rightarrow> packed \<Rightarrow> packed \<Rightarrow> bytes \<times> (u64 \<times> u64 \<rightharpoonup> spilled) \<Rightarrow> bool" where
  "local_seen xx needed spill bs pre st \<longleftrightarrow>
     local_found xx (items_of bs) st \<and> local_have xx (set needed) (items_of pre) st \<and>
     (\<forall>ref rs. spill_read spill ref = Inr rs \<longrightarrow> spill_read (fst st) ref = Inr rs)"

interpretation local_visitor: block_visitor bs "\<lambda>_ _ _. True" "local_visit xx needed (map fst (items_of bs))" "local_seen xx needed spill bs"
  for bs xx needed spill
proof (unfold_locales, goal_cases)
  case (1 pre b post r st first stop)
  note bs = 1(1)
  let ?n = "length (items_of pre)" and ?its = "fst b"
  note base = base_of_block [OF 1(2) [unfolded bs] 1(4), folded bs]
  have R: "first = ?n" "stop = ?n + length ?its" using 1(6) by (simp_all add: range_of_def)
  have len: "length (pool_of (items_of pre)) + length (pool_of ?its) < 2 ^ 63" using 1(3) by (simp add: bs)
  have sub: "set ?its \<subseteq> set (items_of bs)" unfolding bs by auto
  have s: "local_found xx (items_of bs) st" "local_have xx (set needed) (items_of pre @ []) st"
    "\<forall>ref rs. spill_read spill ref = Inr rs \<longrightarrow> spill_read (fst st) ref = Inr rs"
    using 1(5) by (simp_all add: local_seen_def)
  obtain st' where st': "local_entries xx needed (pool_of ?its) (of_nat (length (pool_of (items_of pre)))) (map fst ?its) st = (Inr (), st')"
    "local_found xx (items_of bs) st'" "local_have xx (set needed) (items_of pre @ ?its) st'"
    "\<forall>ref rs. spill_read (fst st) ref = Inr rs \<longrightarrow> spill_read (fst st') ref = Inr rs"
    using local_entries_laid [OF base(3) len sub, of "[]" ?its xx st needed "items_of pre"] s(1,2) by auto
  have "take (stop - first) (drop first (map fst (items_of bs))) = map fst ?its"
    unfolding R base(4) by simp
  then have "local_visit xx needed (map fst (items_of bs)) first stop (pool_of ?its) st = (Inr (), st')"
    unfolding local_visit_def R using base(1,2) st'(1) by simp
  moreover have "local_seen xx needed spill bs (pre @ [b]) st'"
    using st'(2-4) s(3) by (simp add: local_seen_def)
  ultimately show ?case by blast
qed simp

text \<open>The local version of the file: absent, or packed with the same brain.\<close>

definition local_version :: "ext \<Rightarrow> fs \<Rightarrow> string \<Rightarrow> bytes \<Rightarrow> Reader \<Rightarrow> item list \<Rightarrow> bool" where
  "local_version X fs path ek r its \<longleftrightarrow>
     fs path = None \<and> its = [] \<or>
     (\<exists>h bs crom input. fs path = Some crom \<and> packed_file X h ek r bs crom input \<and> its = items_of bs)"

lemma packed_count_facts:
  assumes "zstd_ok X" "zstd_bound X" "gcm_ok X" "hash_sizes_ok X" "packed_file X h ek r bs crom input"
  shows "ChunkCount h = of_nat (length (items_of bs))" "0 < length (items_of bs)" "length (items_of bs) < 2 ^ 32"
proof -
  have p: "packed_blocks X h ek r bs input" "packed_header X h bs input" using assms(5) by (simp_all add: packed_file_def)
  show "ChunkCount h = of_nat (length (items_of bs))" using p(2) by (simp add: packed_header_def)
  show "0 < length (items_of bs)" using packed_blocks_nonempty(1) [OF p(1)] by simp
  show "length (items_of bs) < 2 ^ 32" using p(1) by (simp add: packed_blocks_def table_fits_def wf_table_def)
qed

lemma local_residuals_ok:
  assumes X: "zstd_ok X" "zstd_bound X" "gcm_ok X" "hash_sizes_ok X" and l: "local_version X fs path ek r its"
    and d: "Dictionary r = Inr dict"
  shows "\<exists>st'. local_residuals X fs path ek dict needed spill = Inr st' \<and> local_found (xxhash X) its st' \<and>
    local_have (xxhash X) (set needed) its st' \<and> (\<forall>ref rs. spill_read spill ref = Inr rs \<longrightarrow> spill_read (fst st') ref = Inr rs)"
proof (cases "fs path")
  case None
  with l show ?thesis by (auto simp: local_version_def local_residuals_def local_found_def local_have_def)
next
  case (Some crom)
  then obtain h bs input where p: "packed_file X h ek r bs crom input" "its = items_of bs"
    using l by (auto simp: local_version_def)
  obtain t :: bytes where rd: "ReadStream X ek crom =
      Inr ((stored_header h)\<lparr>TableBytes := length t\<rparr>, sizes_of bs, map fst (items_of bs), frames_of bs)"
    using ReadStream_packed [OF X p(1)] by blast
  let ?h = "(stored_header h)\<lparr>TableBytes := length t\<rparr>"
  have v: "Version3 \<le> Version h" "Version h \<le> Version8" and b: "packed_blocks X h ek r bs input"
    using p(1) by (simp_all add: packed_file_def packed_header_def)
  note cnt = packed_count_facts [OF X p(1)]
  have "unat (ChunkCount h) = length (items_of bs)" unfolding cnt(1) using cnt(3) by (intro unat_of_nat_lt) simp
  then have c0: "ChunkCount ?h \<noteq> 0" using cnt(2) by (auto simp: stored_fields [OF v])
  let ?d = "if UsesBrainDict h then dict else []"
  have df: "dict_for h r ?d" using d by (simp add: dict_for_def)
  have "local_seen (xxhash X) needed spill bs [] (spill, Map.empty)"
    by (simp add: local_seen_def local_found_def local_have_def)
  from local_visitor.ForEachBlock_visits [OF b v df this, where tail = "[]" and n = "length t"] obtain st where
    st: "ForEachBlock X (frames_of bs) ?h (sizes_of bs) (map fst (items_of bs)) ?d ek (\<lambda>_ _ _. True)
      (local_visit (xxhash X) needed (map fst (items_of bs))) (spill, Map.empty) = (Inr (), st)"
    "local_seen (xxhash X) needed spill bs bs st" by auto
  have "UsesBrainDict ?h = UsesBrainDict h" by (simp add: stored_fields [OF v])
  then have "local_residuals X fs path ek dict needed spill = Inr st"
    unfolding local_residuals_def Some option.case rd sum.case prod.case using c0 st(1) by simp
  with st(2) show ?thesis by (auto simp: local_seen_def p(2))
qed

section \<open>The rebuilt file is a packed file\<close>

definition stripped :: "item \<Rightarrow> ChunkEntry" where
  "stripped it = (fst it)\<lparr>DeltaOffset := 0, DeltaSize := 0\<rparr>"

definition refs_ok :: "(nat \<Rightarrow> spilled option) \<Rightarrow> bytes \<Rightarrow> nat \<Rightarrow> item list \<Rightarrow> bool" where
  "refs_ok refs spill n its \<longleftrightarrow> (\<forall>k < length its. \<exists>ref. refs (n + k) = Some ref \<and> spill_read spill ref = Inr (res_at its k))"

lemma manifest_chunks_of:
  assumes "ChunkCount h = of_nat (length (items_of bs))" "length (items_of bs) < 2 ^ 32"
  shows "manifest_chunks (manifest_of X h bs) = Inr (map stripped (items_of bs))"
proof -
  have "unat (ChunkCount h) = length (items_of bs)" unfolding assms(1) using assms(2) by (intro unat_of_nat_lt) simp
  then show ?thesis
    by (auto simp: manifest_chunks_def manifest_of_def manifest_entry_def stripped_def split: prod.splits)
qed

lemma rebuild_entries_laid:
  assumes "laid_out r g its" "refs_ok refs spill n its" "length A = n"
  shows "its = P @ Q \<Longrightarrow> rebuild_entries refs spill [n + length P ..< n + length its]
      (A @ map fst P @ map stripped Q @ R, pool_of P, of_nat (g + length (pool_of P))) =
    Inr (A @ map fst its @ R, pool_of its, of_nat (g + length (pool_of its)))"
proof (induction Q arbitrary: P)
  case (Cons it Q)
  obtain e rs c where it: "it = (e, rs, c)" by (cases it) auto
  have its: "its = (P @ [it]) @ Q" using Cons.prems by simp
  have d: "DeltaOffset e = of_nat (g + length (pool_of P))" "DeltaSize e = of_nat (length rs)"
  proof -
    have dec: "laid_out r (g + length (pool_of P)) [(e, rs, c)]" using assms(1) its by (simp add: laid_out_append it)
    then show "DeltaOffset e = of_nat (g + length (pool_of P))" by simp
    have "unat (DeltaSize e) = length rs" using dec by (simp add: decodes_def)
    then show "DeltaSize e = of_nat (length rs)" by (metis of_nat_unat ucast_id)
  qed
  let ?i = "n + length P"
  have upt: "[?i ..< n + length its] = ?i # [n + length (P @ [it]) ..< n + length its]"
    using upt_conv_Cons [of ?i "n + length its"] its by simp
  obtain ref where ref: "refs ?i = Some ref" "spill_read spill ref = Inr rs"
  proof -
    have "length P < length its" "res_at its (length P) = rs" by (simp_all add: its it nth_append)
    then show thesis using assms(2) that unfolding refs_ok_def by metis
  qed
  let ?E = "A @ map fst P @ map stripped (it # Q) @ R"
  have at: "?E ! ?i = stripped it" using assms(3) by (simp add: nth_append)
  have e: "(stripped it)\<lparr>DeltaOffset := of_nat (g + length (pool_of P)), DeltaSize := of_nat (length rs)\<rparr> = fst it"
    unfolding stripped_def it fst_conv d [symmetric] by simp
  have up: "?E[?i := fst it] = A @ map fst (P @ [it]) @ map stripped Q @ R"
    using assms(3) by (simp add: list_update_append)
  have "rebuild_entries refs spill [?i ..< n + length its] (?E, pool_of P, of_nat (g + length (pool_of P))) =
      rebuild_entries refs spill [n + length (P @ [it]) ..< n + length its]
        (A @ map fst (P @ [it]) @ map stripped Q @ R, pool_of (P @ [it]), of_nat (g + length (pool_of (P @ [it]))))"
    unfolding upt using ref by (simp only: rebuild_entries.simps option.case rbind.simps at e up) (simp add: it add.assoc)
  then show ?case using Cons.IH [OF its] by simp
qed simp

lemma packed_block_pool:
  assumes "packed_blocks X h ek r bs input" "b \<in> set bs"
  shows "length (pool_of (fst b)) \<le> BlockSize"
proof -
  have "\<forall>(e, rs, c) \<in> set (fst b). length rs \<le> length c"
    using packed_item_bounds(2) [OF assms(1)] assms(2) by (force simp: items_of_def)
  then have "length (pool_of (fst b)) \<le> length (content_of (fst b))"
    by (induction "fst b" arbitrary: b) (fastforce simp: pool_of_def content_of_def)+
  moreover have "full_blocks bs" using assms(1) by (simp add: packed_blocks_def)
  then have "length (content_of (fst b)) \<le> BlockSize" using assms(2)
    by (induction bs rule: full_blocks.induct) auto
  ultimately show ?thesis by simp
qed

lemma frame_of_pool:
  assumes X: "zstd_ok X" "zstd_bound X" "gcm_ok X" "hash_sizes_ok X" and f: "framing X h ek r key dict"
    and n: "length nonce = NonceSize" and p: "length pool \<le> BlockSize"
  shows "\<exists>z fr. wrap_err cmsg (CompressPoolDict X pool dict) = Inr z \<and> maybe_encrypt X nonce key msg z = Inr fr \<and>
    open_block_data X h ek r fr = Inr pool \<and> length fr < 2 ^ 32"
  using frame_opens [OF X f _ n p, of "sample_options" sample_env cmsg msg]
  by (simp add: compress_block_def sample_options_def)

lemma rebuild_blocks_laid:
  assumes X: "zstd_ok X" "zstd_bound X" "gcm_ok X" "hash_sizes_ok X" and f: "framing X hh ek' r key dict"
    and n: "\<And>b. length (nonce b) = NonceSize" and p: "packed_blocks X h ek r bs input"
    and refs: "refs_ok refs spill 0 (items_of bs)"
  shows "bs = pre @ post \<Longrightarrow>
    \<exists>bs'. rebuild_blocks X nonce key dict refs spill (starts_of 0 (entry_blocks bs)) [length pre ..< length bs]
        (map fst (items_of pre) @ map stripped (items_of post)) (of_nat (length (pool_of (items_of pre)))) =
      Inr (map snd bs', map fst (items_of bs)) \<and> map fst bs' = map fst post \<and> frames_ok X hh ek' r bs'"
proof (induction post arbitrary: pre)
  case Nil
  then show ?case by (auto simp: frames_ok_def)
next
  case (Cons b post)
  let ?n = "length (items_of pre)" and ?its = "fst b" and ?g = "length (pool_of (items_of pre))"
  have bs: "bs = (pre @ [b]) @ post" using Cons.prems by simp
  have i: "length pre < length (entry_blocks bs)" using Cons.prems by simp
  have "take (length pre) (entry_blocks bs) = entry_blocks pre" "entry_blocks bs ! length pre = map fst ?its"
    by (simp_all add: Cons.prems nth_append)
  then have r: "BlockRange (starts_of 0 (entry_blocks bs)) (length pre) (length (items_of bs)) = Inr (?n, ?n + length ?its)"
    using BlockRange_starts_of [OF i] by (simp add: concat_entry_blocks)
  have l: "laid_out r ?g ?its" using p by (simp add: packed_blocks_def Cons.prems laid_out_append)
  have ro: "refs_ok refs spill ?n ?its"
    unfolding refs_ok_def
  proof (intro allI impI)
    fix k
    assume k: "k < length ?its"
    then have "?n + k < length (items_of bs)" "items_of bs ! (?n + k) = ?its ! k"
      by (simp_all add: Cons.prems nth_append)
    then show "\<exists>ref. refs (?n + k) = Some ref \<and> spill_read spill ref = Inr (res_at ?its k)"
      using refs unfolding refs_ok_def by (metis add_0)
  qed
  let ?E = "map fst (items_of pre) @ map stripped (items_of (b # post))"
  have len: "length ?E = length (items_of bs)" by (simp add: Cons.prems)
  have e: "rebuild_entries refs spill [?n ..< ?n + length ?its] (?E, [], of_nat ?g) =
      Inr (map fst (items_of (pre @ [b])) @ map stripped (items_of post), pool_of ?its, of_nat (length (pool_of (items_of (pre @ [b])))))"
    using rebuild_entries_laid [OF l ro, of "map fst (items_of pre)" "[]" ?its "map stripped (items_of post)"] by simp
  have "b \<in> set bs" by (simp add: Cons.prems)
  from frame_of_pool [OF X f n packed_block_pool [OF p this]] obtain z fr where
    z: "wrap_err ''bitswap: repack compress block'' (CompressPoolDict X (pool_of ?its) dict) = Inr z"
    "maybe_encrypt X (nonce (length pre)) key ''bitswap: encrypt block'' z = Inr fr"
    "open_block_data X hh ek' r fr = Inr (pool_of ?its)" "length fr < 2 ^ 32" by blast
  obtain bs' where bs': "rebuild_blocks X nonce key dict refs spill (starts_of 0 (entry_blocks bs)) [length (pre @ [b]) ..< length bs]
        (map fst (items_of (pre @ [b])) @ map stripped (items_of post)) (of_nat (length (pool_of (items_of (pre @ [b]))))) =
      Inr (map snd bs', map fst (items_of bs))" "map fst bs' = map fst post" "frames_ok X hh ek' r bs'"
    using Cons.IH [OF bs] by blast
  have upt: "[length pre ..< length bs] = length pre # [length (pre @ [b]) ..< length bs]"
    using upt_conv_Cons [of "length pre" "length bs"] by (simp add: Cons.prems)
  have "rebuild_blocks X nonce key dict refs spill (starts_of 0 (entry_blocks bs)) [length pre ..< length bs] ?E (of_nat ?g) =
      Inr (map snd ((?its, fr) # bs'), map fst (items_of bs))"
    unfolding upt rebuild_blocks.simps len r rbind.simps prod.case e z bs'(1) by simp
  moreover have "map fst ((?its, fr) # bs') = map fst (b # post)" "frames_ok X hh ek' r ((?its, fr) # bs')"
    using bs'(2,3) z(3,4) by (simp_all add: frames_ok_def)
  ultimately show ?case by blast
qed

lemma rebuilt_header_facts:
  assumes "length (seSalt env) = 16" "length (cmOriginalHash m) = 32"
  shows "wf_header (rebuilt_header env m ek)" "Version (rebuilt_header env m ek) = Version7"
    "CompressedTable (rebuilt_header env m ek)" "\<not> IsPassthrough (rebuilt_header env m ek)" "\<not> IsLossy (rebuilt_header env m ek)"
    "ChunkCount (rebuilt_header env m ek) = cmChunkCount m" "OriginalSize (rebuilt_header env m ek) = cmOriginalSize m"
    "OriginalHash (rebuilt_header env m ek) = cmOriginalHash m" "UsesBrainDict (rebuilt_header env m ek)"
    "IsEncrypted (rebuilt_header env m ek) \<longleftrightarrow> ek \<noteq> []"
    "file_key X ek (rebuilt_header env m ek) = (if ek \<noteq> [] then Some (DeriveKey X ek (seSalt env)) else None)"
    "MicroDictSize (rebuilt_header env m ek) = 0"
proof -
  have g: "gcopy (zeros 16) 0 16 (seSalt env) = seSalt env" "gcopy (zeros 32) 0 32 (cmOriginalHash m) = cmOriginalHash m"
    using assms by (simp_all add: gcopy_def put_def zeros_def)
  note fields = rebuilt_header_def Let_def zero_header_def g
  show "Version (rebuilt_header env m ek) = Version7" "CompressedTable (rebuilt_header env m ek)"
    "\<not> IsPassthrough (rebuilt_header env m ek)" "\<not> IsLossy (rebuilt_header env m ek)"
    "ChunkCount (rebuilt_header env m ek) = cmChunkCount m" "OriginalSize (rebuilt_header env m ek) = cmOriginalSize m"
    "OriginalHash (rebuilt_header env m ek) = cmOriginalHash m" "UsesBrainDict (rebuilt_header env m ek)"
    "IsEncrypted (rebuilt_header env m ek) \<longleftrightarrow> ek \<noteq> []" "MicroDictSize (rebuilt_header env m ek) = 0"
    "file_key X ek (rebuilt_header env m ek) = (if ek \<noteq> [] then Some (DeriveKey X ek (seSalt env)) else None)"
    by (simp_all add: fields file_key_def)
  have f: "Salt (rebuilt_header env m ek) = (if ek \<noteq> [] then seSalt env else zeros 16)"
    "CodebookHash (rebuilt_header env m ek) = zeros 8" "CodebookHashes (rebuilt_header env m ek) = [zeros 8, zeros 8, zeros 8]"
    "MerkleRoot (rebuilt_header env m ek) = zeros 32" "MicroDictSize (rebuilt_header env m ek) = 0"
    "OriginalHash (rebuilt_header env m ek) = cmOriginalHash m" "MicroDictionaryData (rebuilt_header env m ek) = []"
    by (simp_all add: fields)
  show "wf_header (rebuilt_header env m ek)"
    unfolding wf_header_def f using assms by simp
qed

lemma items_of_same: "map fst bs' = map fst bs \<Longrightarrow> items_of bs' = items_of bs"
  by (simp add: items_of_def)

lemma full_blocks_same: "map fst bs' = map fst bs \<Longrightarrow> full_blocks bs' = full_blocks bs"
proof (induction bs arbitrary: bs')
  case (Cons b bs)
  then obtain c cs where c: "bs' = c # cs" "fst c = fst b" "map fst cs = map fst bs" by (cases bs') auto
  moreover have "cs = [] \<longleftrightarrow> bs = []" using c(3) by (metis map_is_Nil_conv)
  ultimately show ?case using Cons.IH [OF c(3)] by (simp add: full_blocks_Cons)
qed simp

text \<open>With every residual at hand, the file that is rebuilt stands for the same input.\<close>

lemma rebuild_file_ok:
  assumes X: "zstd_ok X" "zstd_bound X" "gcm_ok X" "hash_sizes_ok X" and p: "packed_file X h ek r bs crom input"
    and env: "length (seSalt env) = 16" "\<And>b. length (seNonce env b) = NonceSize" "length (seTableNonce env) = NonceSize"
    and d: "Dictionary r = Inr dict" and refs: "refs_ok refs spill 0 (items_of bs)"
  shows "\<exists>out h' bs'. rebuild_file X env (manifest_of X h bs) ek' dict refs spill = Inr out \<and>
    packed_file X h' ek' r bs' out input \<and> UsesBrainDict h' \<and> MicroDictSize h' = 0 \<and> map fst bs' = map fst bs"
proof -
  let ?m = "manifest_of X h bs" let ?h = "rebuilt_header env ?m ek'"
  let ?key = "if ek' \<noteq> [] then Some (DeriveKey X ek' (seSalt env)) else None"
  have b: "packed_blocks X h ek r bs input" and ph: "packed_header X h bs input"
    using p by (simp_all add: packed_file_def)
  note cnt = packed_count_facts [OF X p]
  have "length (cmOriginalHash ?m) = 32" using ph hash_sizes(1) [OF X(4)] by (simp add: manifest_of_def packed_header_def)
  note hf = rebuilt_header_facts [OF env(1) this, where ek = ek']
  have f: "framing X ?h ek' r ?key dict" using hf(9,11) d by (simp add: framing_def)
  obtain bs' where bs': "rebuild_blocks X (seNonce env) ?key dict refs spill (starts_of 0 (entry_blocks bs)) [0 ..< length bs]
        (map stripped (items_of bs)) 0 = Inr (map snd bs', map fst (items_of bs))" "map fst bs' = map fst bs" "frames_ok X ?h ek' r bs'"
    using rebuild_blocks_laid [where nonce = "seNonce env", OF X f env(2) b refs, of "[]" bs] by auto
  have same: "items_of bs' = items_of bs" by (rule items_of_same [OF bs'(2)])
  have ne: "bs' \<noteq> []" using bs'(2) b by (auto simp: packed_blocks_def)
  have starts: "BlockStarts (map stripped (items_of bs)) = starts_of 0 (entry_blocks bs)"
  proof -
    have "block_starts_from i k (map stripped its) = block_starts_from i k (map fst its)" for i k its
      by (induction its arbitrary: i k) (simp_all add: stripped_def)
    then have "BlockStarts (map stripped (items_of bs)) = BlockStarts (map fst (items_of bs))"
      by (simp add: BlockStarts_def)
    moreover have "BlockStarts (concat (entry_blocks bs)) = starts_of 0 (entry_blocks bs)"
      using b laid_out_decodes by (intro BlockStarts_packed) (auto simp: packed_blocks_def)
    ultimately show ?thesis by (simp add: concat_entry_blocks)
  qed
  have "\<forall>k. ?key = Some k \<longrightarrow> length k = 32" using X(4) by (simp add: DeriveKey_def hash_sizes)
  then obtain t where t: "EncodeCompressedTable X (seTableNonce env) (map fst (items_of bs)) Version7 ?key = Inr t"
    by (simp add: EncodeCompressedTable_layout)
  let ?out = "crom_file ?h (sizes_of bs') t @ frames_of bs'"
  have "rebuild_file X env ?m ek' dict refs spill = Inr ?out"
    using bs'(1) t
    by (simp add: rebuild_file_def Let_def manifest_chunks_of [OF cnt(1,3)] starts crom_file_def put_block_table_layout
        sizes_of_def frames_of_def comp_def)
  moreover have "packed_file X ?h ek' r bs' ?out input"
    unfolding packed_file_def
  proof (intro conjI exI)
    show "packed_header X ?h bs' input"
      using hf ph unfolding packed_header_def same by (simp add: manifest_of_def version_defs)
    show "packed_blocks X ?h ek' r bs' input"
      using b ne bs'(3) full_blocks_same [OF bs'(2)] unfolding packed_blocks_def same by simp
    show "IsEncrypted ?h \<longrightarrow> ek' \<noteq> []" using hf(10) by simp
    show "EncodeCompressedTable X (seTableNonce env) (map fst (items_of bs')) Version7 (file_key X ek' ?h) = Inr t"
      using t unfolding same hf(11) .
  qed (use env(3) in simp_all)
  ultimately show ?thesis using hf(9,12) bs'(2) by blast
qed

section \<open>Receiving rebuilds the file\<close>

definition residuals_of :: "item list \<Rightarrow> bytes set" where
  "residuals_of its = (\<lambda>it. fst (snd it)) ` set its"

lemma needed_keys_entry:
  assumes "i < length (cmEntries m)" "residuals (of_nat i) = None"
  shows "chunkKey (cmEntries m ! i) \<in> set (needed_keys m residuals)"
proof -
  have "(i, cmEntries m ! i) \<in> set (filter (\<lambda>(i, e). residuals (of_nat i) = None) (enumerate 0 (cmEntries m)))"
    using assms by (simp add: in_set_enumerate_eq)
  then show ?thesis unfolding needed_keys_def by force
qed

lemma find_residual_ok:
  assumes g: "gathered_at (items_of bs) (residuals, spill)" and n: "length (items_of bs) < 2 ^ 32"
    and mono: "\<forall>ref rs. spill_read spill ref = Inr rs \<longrightarrow> spill_read spill' ref = Inr rs"
    and l: "local_found (xxhash X) lits (spill', locals)"
    and hv: "local_have (xxhash X) (set (needed_keys (manifest_of X h bs) residuals)) lits (spill', locals)"
    and inj: "inj_on (xxhash X) (residuals_of (items_of bs) \<union> residuals_of lits)"
    and cover: "\<And>i. i < length (items_of bs) \<Longrightarrow> residuals (of_nat i) = None \<Longrightarrow>
      item_key (xxhash X) (items_of bs ! i) \<in> item_key (xxhash X) ` set lits"
  shows "refs_ok (find_residual (manifest_of X h bs) residuals locals) spill' 0 (items_of bs)"
  unfolding refs_ok_def
proof (intro allI impI)
  fix i
  assume i: "i < length (items_of bs)"
  let ?m = "manifest_of X h bs"
  have u: "unat (of_nat i :: u32) = i" using i n by (intro unat_of_nat_lt) simp
  show "\<exists>ref. find_residual ?m residuals locals (0 + i) = Some ref \<and> spill_read spill' ref = Inr (res_at (items_of bs) i)"
  proof (cases "residuals (of_nat i)")
    case (Some ref)
    then have "spill_read spill ref = Inr (res_at (items_of bs) i)" using g u unfolding gathered_at_def fst_conv snd_conv by metis
    then have "spill_read spill' ref = Inr (res_at (items_of bs) i)" using mono by blast
    with Some show ?thesis by (simp add: find_residual_def)
  next
    case None
    have len: "i < length (cmEntries ?m)" using i by (simp add: manifest_of_def)
    have key: "chunkKey (cmEntries ?m ! i) = item_key (xxhash X) (items_of bs ! i)"
      using i by (simp add: manifest_of_def item_key_def)
    have "item_key (xxhash X) (items_of bs ! i) \<in> set (needed_keys ?m residuals)"
      using needed_keys_entry [of i ?m residuals] len None key by simp
    moreover obtain it where "it \<in> set lits" "item_key (xxhash X) (items_of bs ! i) = item_key (xxhash X) it"
      using cover [OF i None] by blast
    ultimately obtain ref where ref: "locals (item_key (xxhash X) (items_of bs ! i)) = Some ref"
      using hv by (auto simp: local_have_def)
    then obtain it' where it': "it' \<in> set lits" "item_key (xxhash X) it' = item_key (xxhash X) (items_of bs ! i)"
      "spill_read spill' ref = Inr (fst (snd it'))"
      using l unfolding local_found_def fst_conv snd_conv by blast
    have "xxhash X (fst (snd it')) = xxhash X (res_at (items_of bs) i)"
      using it'(2) by (cases it'; cases "items_of bs ! i") simp
    moreover have "fst (snd it') \<in> residuals_of (items_of bs) \<union> residuals_of lits"
      "res_at (items_of bs) i \<in> residuals_of (items_of bs) \<union> residuals_of lits"
      using it'(1) i by (auto simp: residuals_of_def)
    ultimately have "fst (snd it') = res_at (items_of bs) i" using inj by (metis inj_onD)
    with it'(3) ref None key show ?thesis by (simp add: find_residual_def)
  qed
qed

definition sync_random_ok :: "SyncEnv \<Rightarrow> bool" where
  "sync_random_ok env \<longleftrightarrow>
     length (seSalt env) = 16 \<and> (\<forall>b. length (seNonce env b) = NonceSize) \<and> length (seTableNonce env) = NonceSize"

lemma ReceiveChunks_ok:
  assumes X: "zstd_ok X" "zstd_bound X" "gcm_ok X" "hash_sizes_ok X" and p: "packed_file X h ek r bs crom input"
    and env: "sync_random_ok env" and cb: "cb_Open fs cbp = Inr r" "Dictionary r = Inr dict"
    and wire: "zstd_decode X dict wire = Some (records (items_of bs) idxs)"
    and i: "\<forall>i \<in> set idxs. unat i < length (items_of bs)"
    and l: "local_version X fs outPath ek' r lits"
    and inj: "inj_on (xxhash X) (residuals_of (items_of bs) \<union> residuals_of lits)"
    and cover: "\<And>i. i < length (items_of bs) \<Longrightarrow> of_nat i \<notin> set idxs \<Longrightarrow>
      item_key (xxhash X) (items_of bs ! i) \<in> item_key (xxhash X) ` set lits"
  shows "\<exists>out h' bs'. ReceiveChunks X env tempPath outPath (manifest_of X h bs) idxs wire cbp ek' fs =
      (Inr (), fs(tempPath \<mapsto> out)) \<and> packed_file X h' ek' r bs' out input \<and> UsesBrainDict h' \<and> MicroDictSize h' = 0"
proof -
  let ?m = "manifest_of X h bs"
  note cnt = packed_count_facts [OF X p]
  have b: "packed_blocks X h ek r bs input" using p by (simp add: packed_file_def)
  have "gathered_at (items_of bs) (Map.empty, [])" by (simp add: gathered_at_def)
  from receive_records [OF b cnt(1,3) i this, where clean = True] obtain residuals spill where
    rcv: "receive ?m True (length idxs) (records (items_of bs) idxs) (Map.empty, []) = Inr (residuals, spill)"
    "gathered_at (items_of bs) (residuals, spill)" "dom residuals = set idxs" by auto
  obtain spill' locals where loc:
    "local_residuals X fs outPath ek' dict (needed_keys ?m residuals) spill = Inr (spill', locals)"
    "local_found (xxhash X) lits (spill', locals)" "local_have (xxhash X) (set (needed_keys ?m residuals)) lits (spill', locals)"
    "\<forall>ref rs. spill_read spill ref = Inr rs \<longrightarrow> spill_read spill' ref = Inr rs"
    using local_residuals_ok [OF X l cb(2), of "needed_keys ?m residuals" spill] by auto
  have "item_key (xxhash X) (items_of bs ! i) \<in> item_key (xxhash X) ` set lits"
    if "i < length (items_of bs)" "residuals (of_nat i) = None" for i
  proof -
    have "of_nat i \<notin> set idxs" using that(2) unfolding rcv(3) [symmetric] by (simp add: domIff)
    then show ?thesis by (rule cover [OF that(1)])
  qed
  from find_residual_ok [OF rcv(2) cnt(3) loc(4,2,3) inj this]
  have refs: "refs_ok (find_residual ?m residuals locals) spill' 0 (items_of bs)" .
  have e: "length (seSalt env) = 16" "length (seTableNonce env) = NonceSize" and n: "\<And>b. length (seNonce env b) = NonceSize"
    using env by (simp_all add: sync_random_ok_def)
  obtain out h' bs' where out: "rebuild_file X env ?m ek' dict (find_residual ?m residuals locals) spill' = Inr out"
    "packed_file X h' ek' r bs' out input" "UsesBrainDict h'" "MicroDictSize h' = 0"
    using rebuild_file_ok [OF X p e(1) n e(2) cb(2) refs, of ek'] by blast
  have "ReceiveChunks X env tempPath outPath ?m idxs wire cbp ek' fs = (Inr (), fs(tempPath \<mapsto> out))"
    by (simp add: ReceiveChunks_def cb brain_read_def wire rcv(1) loc(1) out(1))
  with out(2-4) show ?thesis by blast
qed

end
