(* ===== verification/Paths.thy ===== *)
theory Paths
  imports Crom_Prelude
begin

text \<open>
  The parts of the standard library's \<^verbatim>\<open>path/filepath\<close> and \<^verbatim>\<open>strings\<close> that the repository relies on for
  file names, with slashes as separators.
\<close>

text \<open>\<open>filepath.Base\<close>, \<open>filepath.Clean\<close> and \<open>filepath.Join\<close> of two elements.\<close>

definition drop_slashes :: "string \<Rightarrow> string" where
  "drop_slashes p = rev (dropWhile (\<lambda>c. c = CHR ''/'') (rev p))"

definition filepath_Base :: "string \<Rightarrow> string" where
  "filepath_Base path =
     (if path = [] then ''.''
      else
        (let name = rev (takeWhile (\<lambda>c. c \<noteq> CHR ''/'') (rev (drop_slashes path)))
         in if name = [] then ''/'' else name))"

fun path_elements :: "string \<Rightarrow> string \<Rightarrow> string list" where
  "path_elements acc [] = [rev acc]"
| "path_elements acc (c # cs) = (if c = CHR ''/'' then rev acc # path_elements [] cs else path_elements (c # acc) cs)"

text \<open>The elements kept so far are in reverse order.\<close>

fun clean_elements :: "bool \<Rightarrow> string list \<Rightarrow> string list \<Rightarrow> string list" where
  "clean_elements rooted out [] = rev out"
| "clean_elements rooted out (e # es) =
     clean_elements rooted
       (if e = [] \<or> e = ''.'' then out
        else if e = ''..'' then
          (case out of
             [] \<Rightarrow> if rooted then [] else [''..'']
           | e' # rest \<Rightarrow> if e' = ''..'' then ''..'' # out else rest)
        else e # out) es"

fun join_elements :: "string list \<Rightarrow> string" where
  "join_elements [] = []"
| "join_elements [e] = e"
| "join_elements (e # es) = e @ ''/'' @ join_elements es"

definition filepath_Clean :: "string \<Rightarrow> string" where
  "filepath_Clean path =
     (if path = [] then ''.''
      else
        (let rooted = (hd path = CHR ''/'');
             cleaned = join_elements (clean_elements rooted [] (path_elements [] path))
         in if rooted then CHR ''/'' # cleaned else if cleaned = [] then ''.'' else cleaned))"

definition filepath_Join :: "string \<Rightarrow> string \<Rightarrow> string" where
  "filepath_Join dir name =
     (if dir \<noteq> [] then filepath_Clean (dir @ ''/'' @ name) else if name \<noteq> [] then filepath_Clean name else [])"

lemma filepath_Base_element: "CHR ''/'' \<notin> set (filepath_Base p) \<or> filepath_Base p = ''/''"
  by (auto simp: filepath_Base_def Let_def dest: set_takeWhileD)

end
