(* ===== verification/Sync_Protocol.thy ===== *)
theory Sync_Protocol
  imports Bitswap Paths
begin

text \<open>
  \<^verbatim>\<open>internal/network/protocol.go\<close>: the messages of the synchronisation protocol, the handler
  that serves a peer, and the client that brings its copy of a file up to date. A stream is the
  list of bytes that arrive on it. The peer of the client is a function from all the bytes sent
  to it so far to all the bytes it has answered, so a theorem for every such function holds for
  every peer, honest or not; the honest one is \<open>handleStream\<close> on the files of another node.
\<close>

section \<open>Messages\<close>

definition MsgSyncReq :: byte where "MsgSyncReq = 1"
definition MsgManifest :: byte where "MsgManifest = 2"
definition MsgDiffReq :: byte where "MsgDiffReq = 3"
definition MsgError :: byte where "MsgError = 255"

definition maxRequestSize :: u32 where "maxRequestSize = 64 * 1024 * 1024"
definition maxManifestSize :: nat where "maxManifestSize = 1024 * 1024 * 1024"

definition sendMsg :: "byte \<Rightarrow> bytes \<Rightarrow> bytes" where
  "sendMsg msgType payload = [msgType] @ le_bytes 4 (of_nat (length payload) :: u32) @ payload"

definition sendError :: "string \<Rightarrow> bytes" where
  "sendError errMsg = sendMsg MsgError (bytes_of_string errMsg)"

text \<open>The type and the payload of the next message, and the rest of the stream.\<close>

definition readMsg :: "bytes \<Rightarrow> (byte \<times> bytes \<times> bytes) res" where
  "readMsg s =
     rbind (read_full 5 s) (\<lambda>(header, s).
       let msgLen = get_uint32 header 1 in
       if 100 * 1024 * 1024 < msgLen then Inl (GoErr ''payload too large'')
       else rbind (read_full (unat msgLen) s) (\<lambda>(payload, s). Inr (header ! 0, payload, s)))"

section \<open>Paths\<close>

definition string_of_bytes :: "bytes \<Rightarrow> string" where
  "string_of_bytes bs = map (\<lambda>b. char_of (unat b)) bs"

definition with_crom :: "string \<Rightarrow> string" where
  "with_crom p = (if drop (length p - 5) p = ''.crom'' then p else p @ ''.crom'')"

section \<open>Serving a peer\<close>

record CromNode =
  DataDir :: string
  nodeCodebookPath :: string
  EncKey :: bytes

definition served_path :: "CromNode \<Rightarrow> string \<Rightarrow> string" where
  "served_path node filename = filepath_Join (DataDir node) (with_crom (filepath_Base filename))"

text \<open>The outcome (a panic ends the node) and the bytes sent.\<close>

definition handleSyncReq :: "ext \<Rightarrow> CromNode \<Rightarrow> fs \<Rightarrow> string \<Rightarrow> unit res \<times> bytes" where
  "handleSyncReq X node fs filename =
     (let localPath = served_path node filename in
      if fs localPath = None then (Inr (), sendError ''Arquivo nao encontrado na seed'')
      else
        (case GenerateManifest X fs localPath (nodeCodebookPath node) (EncKey node) of
           Inl GoPanic \<Rightarrow> (Inl GoPanic, [])
         | Inl (GoErr e) \<Rightarrow> (Inr (), sendError (''Erro ao gerar manifest: '' @ e))
         | Inr manifest \<Rightarrow>
             (case CompressPool X (ToBinary manifest) of
                Inl GoPanic \<Rightarrow> (Inl GoPanic, [])
              | Inl (GoErr e) \<Rightarrow> (Inr (), sendError (''Erro ao comprimir manifest: '' @ e))
              | Inr bin \<Rightarrow> (Inr (), sendMsg MsgManifest bin))))"

fun read_indices :: "bytes \<Rightarrow> u32 \<Rightarrow> u32 \<Rightarrow> nat \<Rightarrow> u32 list res" where
  "read_indices payload offset i 0 = Inr []"
| "read_indices payload offset i (Suc k) =
     rbind (gslice payload (unat (offset + i * 4)) (unat (offset + i * 4 + 4))) (\<lambda>b.
     rbind (read_indices payload offset (i + 1) k) (\<lambda>is. Inr (le_word b # is)))"

text \<open>
  The length of the name is 16 bits wide and the sums with it wrap at that width, those with the
  number of indices at 32 bits. An error of \<open>StreamChunks\<close> is only printed.
\<close>

definition handleDiffReq :: "ext \<Rightarrow> CromNode \<Rightarrow> fs \<Rightarrow> bytes \<Rightarrow> unit res \<times> bytes" where
  "handleDiffReq X node fs payload =
     (if length payload < 6 then (Inr (), sendError ''Payload invalido'')
      else
        (let nameLen = get_uint16 payload 0 in
         if length payload < unat (2 + nameLen + 4) then (Inr (), sendError ''Payload truncado'')
         else
           (case gslice payload 2 (unat (2 + nameLen)) of
              Inl e \<Rightarrow> (Inl e, [])
            | Inr name \<Rightarrow>
                (let localPath = served_path node (string_of_bytes name);
                     offset = (ucast (2 + nameLen) :: u32)
                 in case gslice payload (unat offset) (unat (offset + 4)) of
                      Inl e \<Rightarrow> (Inl e, [])
                    | Inr b \<Rightarrow>
                        (let numIndices = (le_word b :: u32);
                             offset = offset + 4
                         in if (of_nat (length payload) :: u32) < offset + numIndices * 4
                            then (Inr (), sendError ''Lista de indices incompleta'')
                            else
                              (case read_indices payload offset 0 (unat numIndices) of
                                 Inl e \<Rightarrow> (Inl e, [])
                               | Inr indices \<Rightarrow>
                                   (case StreamChunks X fs localPath (nodeCodebookPath node) (EncKey node) indices of
                                      (Inl GoPanic, _) \<Rightarrow> (Inl GoPanic, [])
                                    | (_, None) \<Rightarrow> (Inr (), [])
                                    | (_, Some (dict, plain)) \<Rightarrow> (Inr (), zstd_encode X 1 dict plain))))))))"

definition handle_message :: "ext \<Rightarrow> CromNode \<Rightarrow> fs \<Rightarrow> byte \<Rightarrow> bytes \<Rightarrow> unit res \<times> bytes" where
  "handle_message X node fs msgType payload =
     (if msgType = MsgSyncReq then handleSyncReq X node fs (string_of_bytes payload)
      else if msgType = MsgDiffReq then handleDiffReq X node fs payload
      else (Inr (), []))"

function handle_loop :: "ext \<Rightarrow> CromNode \<Rightarrow> fs \<Rightarrow> bytes \<Rightarrow> unit res \<times> bytes" where
  "handle_loop X node fs s =
     (if length s < 5 then (Inr (), [])
      else
        (let msgType = s ! 0;
             payloadLen = get_uint32 s 1
         in if maxRequestSize < payloadLen then (Inr (), [])
            else if length s < 5 + unat payloadLen then (Inr (), [])
            else
              (case handle_message X node fs msgType (slice s 5 (5 + unat payloadLen)) of
                 (Inl e, out) \<Rightarrow> (Inl e, out)
               | (Inr _, out) \<Rightarrow>
                   (case handle_loop X node fs (drop (5 + unat payloadLen) s) of (r, out') \<Rightarrow> (r, out @ out')))))"
  by pat_completeness auto
termination by (relation "measure (\<lambda>(X, node, fs, s). length s)") auto

declare handle_loop.simps [simp del]

definition handleStream :: "ext \<Rightarrow> CromNode \<Rightarrow> bool \<Rightarrow> fs \<Rightarrow> bytes \<Rightarrow> unit res \<times> bytes" where
  "handleStream X node authenticated fs s =
     (if \<not> authenticated then (Inr (), sendError ''Autenticacao necessaria'') else handle_loop X node fs s)"

section \<open>Bringing a file up to date\<close>

definition wanted_path :: "CromNode \<Rightarrow> string \<Rightarrow> string" where
  "wanted_path node filename = with_crom (filepath_Join (DataDir node) filename)"

definition all_indices :: "ChunkManifest \<Rightarrow> u32 list" where
  "all_indices m = map of_nat [0..<unat (cmChunkCount m)]"

text \<open>The indices to ask for, or nothing when the local version has every chunk.\<close>

definition missing_indices :: "ext \<Rightarrow> CromNode \<Rightarrow> fs \<Rightarrow> string \<Rightarrow> ChunkManifest \<Rightarrow> u32 list res" where
  "missing_indices X node fs destPath remote =
     (if fs destPath = None then Inr (all_indices remote)
      else
        (case GenerateManifest X fs destPath (nodeCodebookPath node) (EncKey node) of
           Inl GoPanic \<Rightarrow> Inl GoPanic
         | Inl (GoErr _) \<Rightarrow> Inr (all_indices remote)
         | Inr localManifest \<Rightarrow>
             (let missing = map chunkKey (Missing (manifest_Diff localManifest remote))
              in Inr (map (\<lambda>(i, e). of_nat i) (filter (\<lambda>(i, e). chunkKey e \<in> set missing) (enumerate 0 (cmEntries remote)))))))"

definition diffPayload :: "string \<Rightarrow> u32 list \<Rightarrow> bytes" where
  "diffPayload filename missing =
     le_bytes 2 (of_nat (length filename) :: u16) @ bytes_of_string filename @
     le_bytes 4 (of_nat (length missing) :: u32) @ concat (map (le_bytes 4) missing)"

definition remote_manifest :: "ext \<Rightarrow> byte \<Rightarrow> bytes \<Rightarrow> ChunkManifest res" where
  "remote_manifest X msgType payload =
     (if msgType = MsgError then Inl (GoErr (''remote error: '' @ string_of_bytes payload))
      else if msgType \<noteq> MsgManifest then Inl (GoErr ''esperava MANIFEST'')
      else
        rbind (wrap_err ''sync: decompress remote manifest'' (DecompressPoolLimit X payload maxManifestSize)) (\<lambda>manifestBin.
        rbind (wrap_err ''sync: parse remote manifest'' (FromBinary manifestBin)) (\<lambda>m.
          if cmChunkCount m = 0 \<and> 0 < cmOriginalSize m
          then Inl (GoErr ''sync: foi empacotado sem chunks (passthrough), nao ha o que sincronizar por manifesto'')
          else Inr m)))"

text \<open>The client ignores whether removing and renaming succeed.\<close>

definition os_Remove :: "SyncEnv \<Rightarrow> string \<Rightarrow> fs \<Rightarrow> fs" where
  "os_Remove env path fs = (if seRemoves env path then fs(path := None) else fs)"

definition os_Rename :: "SyncEnv \<Rightarrow> string \<Rightarrow> string \<Rightarrow> fs \<Rightarrow> fs" where
  "os_Rename env oldpath newpath fs =
     (if seRenames env \<and> fs oldpath \<noteq> None then (fs(newpath := fs oldpath))(oldpath := None) else fs)"

definition RequestSync :: "ext \<Rightarrow> SyncEnv \<Rightarrow> CromNode \<Rightarrow> (bytes \<Rightarrow> bytes) \<Rightarrow> string \<Rightarrow> fs \<Rightarrow> unit res \<times> fs" where
  "RequestSync X env node peer filename fs =
     (let filename = filepath_Base filename;
          request = sendMsg MsgSyncReq (bytes_of_string filename);
          destPath = wanted_path node filename
      in if \<not> seConnects env then (Inl (GoErr ''sync: open stream''), fs) else
         case rbind (wrap_err ''sync: read response'' (readMsg (peer request))) (\<lambda>(msgType, payload, _).
              rbind (remote_manifest X msgType payload) (\<lambda>m.
              rbind (missing_indices X node fs destPath m) (\<lambda>missing. Inr (payload, m, missing))))
         of
           Inl e \<Rightarrow> (Inl e, fs)
         | Inr (payload, m, missing) \<Rightarrow>
             if missing = [] then (Inr (), fs)
             else
               (let wire = drop (5 + length payload) (peer (request @ sendMsg MsgDiffReq (diffPayload filename missing)));
                    tempPath = destPath @ ''.tmp''
                in case ReceiveChunks X env tempPath destPath m missing wire (nodeCodebookPath node) (EncKey node) fs of
                     (Inl GoPanic, fs) \<Rightarrow> (Inl GoPanic, fs)
                   | (Inl e, fs) \<Rightarrow> (wrap_err ''sync: bitswap merge error'' (Inl e), os_Remove env tempPath fs)
                   | (Inr _, fs) \<Rightarrow> (Inr (), os_Rename env tempPath destPath (os_Remove env destPath fs))))"

section \<open>Messages arrive as they were sent\<close>

lemma string_of_bytes_of_string [simp]: "string_of_bytes (bytes_of_string s) = s"
proof -
  have "unat (of_char c :: byte) = of_char c" for c :: char
  proof -
    have "(of_char c :: nat) < 256" by (rule nat_of_char_less_256)
    then show ?thesis using unat_of_nat_lt [of "of_char c" , where 'a = 8] by (simp add: of_nat_of_char)
  qed
  then show ?thesis by (induction s) (simp_all add: string_of_bytes_def bytes_of_string_def)
qed

lemma length_bytes_of_string [simp]: "length (bytes_of_string s) = length s"
  by (simp add: bytes_of_string_def)

lemma length_sendMsg [simp]: "length (sendMsg t p) = 5 + length p"
  by (simp add: sendMsg_def)

lemma sendMsg_length_field:
  assumes "length p < 2 ^ 32"
  shows "get_uint32 (sendMsg t p @ rest) 1 = of_nat (length p)" "unat (of_nat (length p) :: u32) = length p"
proof -
  show "unat (of_nat (length p) :: u32) = length p" using assms by (intro unat_of_nat_lt) simp
  show "get_uint32 (sendMsg t p @ rest) 1 = of_nat (length p)"
    by (simp add: sendMsg_def get_uint32_def slice_layout wire_simps)
qed

lemma readMsg_sendMsg:
  assumes "length p \<le> 100 * 1024 * 1024"
  shows "readMsg (sendMsg t p @ rest) = Inr (t, p, rest)"
proof -
  have l: "unat (of_nat (length p) :: u32) = length p" using assms by (intro unat_of_nat_lt) simp
  let ?h = "[t] @ le_bytes 4 (of_nat (length p) :: u32)"
  have "read_full 5 (sendMsg t p @ rest) = Inr (?h, p @ rest)"
    using read_full_append [of ?h 5 "p @ rest"] by (simp add: sendMsg_def)
  moreover have "get_uint32 ?h 1 = of_nat (length p)"
    by (simp add: get_uint32_def slice_layout wire_simps)
  moreover have "\<not> (100 * 1024 * 1024 :: u32) < of_nat (length p)" using assms l by (simp add: word_less_nat_alt)
  ultimately show ?thesis using l by (simp add: readMsg_def Let_def)
qed

lemma handle_loop_message:
  assumes "length p \<le> 64 * 1024 * 1024"
  shows "handle_loop X node fs (sendMsg t p @ rest) =
    (case handle_message X node fs t p of
       (Inl e, out) \<Rightarrow> (Inl e, out)
     | (Inr _, out) \<Rightarrow> (case handle_loop X node fs rest of (r, out') \<Rightarrow> (r, out @ out')))"
proof -
  have "length p < 2 ^ 32" using assms by simp
  note f = sendMsg_length_field(1) [OF this, of t rest] sendMsg_length_field(2) [OF this]
  have t: "(sendMsg t p @ rest) ! 0 = t" by (simp add: sendMsg_def)
  have s: "slice (sendMsg t p @ rest) 5 (5 + length p) = p" "drop (5 + length p) (sendMsg t p @ rest) = rest"
    by (simp add: sendMsg_def slice_def) simp
  have "\<not> maxRequestSize < of_nat (length p)" using assms f(2) by (simp add: maxRequestSize_def word_less_nat_alt)
  then show ?thesis
    by (subst handle_loop.simps) (simp add: Let_def f [unfolded One_nat_def] t s split: sum.split prod.split)
qed

lemma handle_loop_Nil [simp]: "handle_loop X node fs [] = (Inr (), [])"
  by (subst handle_loop.simps) simp

section \<open>Requests for chunks\<close>

lemma read_indices_columns:
  assumes "length A = unat offset" "unat offset + 4 * n < 2 ^ 32"
  shows "length (done :: u32 list) + length idxs = n \<Longrightarrow>
    read_indices (A @ concat (map (le_bytes 4) done) @ concat (map (le_bytes 4) idxs)) offset (of_nat (length done)) (length idxs) = Inr idxs"
proof (induction idxs arbitrary: "done")
  case (Cons i idxs)
  let ?k = "length done" and ?D = "concat (map (le_bytes 4) done)" and ?I = "concat (map (le_bytes 4) idxs)"
  have D: "length ?D = 4 * ?k" by (induction "done") simp_all
  have k: "unat offset + 4 * ?k + 4 < 2 ^ 32" using Cons.prems assms(2) by simp
  have "unat (of_nat (unat offset + 4 * ?k) :: u32) = unat offset + 4 * ?k"
    "unat (of_nat (unat offset + 4 * ?k + 4) :: u32) = unat offset + 4 * ?k + 4"
    using k by (intro unat_of_nat_lt; simp)+
  moreover have "offset + of_nat ?k * 4 = of_nat (unat offset + 4 * ?k)" "offset + of_nat ?k * 4 + 4 = of_nat (unat offset + 4 * ?k + 4)"
    by (simp_all add: mult.commute)
  ultimately have w: "unat (offset + of_nat ?k * 4) = unat offset + 4 * ?k" "unat (offset + of_nat ?k * 4 + 4) = unat offset + 4 * ?k + 4"
    by (simp_all only:)
  have g: "gslice (A @ ?D @ concat (map (le_bytes 4) (i # idxs))) (unat offset + 4 * ?k) (unat offset + 4 * ?k + 4) = Inr (le_bytes 4 i)"
    using assms(1) D by (simp add: gslice_def slice_def)
  have "read_indices (A @ concat (map (le_bytes 4) (done @ [i])) @ ?I) offset (of_nat (length (done @ [i]))) (length idxs) = Inr idxs"
    by (rule Cons.IH) (use Cons.prems in simp)
  then have "read_indices (A @ ?D @ concat (map (le_bytes 4) (i # idxs))) offset (of_nat ?k + 1) (length idxs) = Inr idxs"
    by (simp add: add.commute)
  with g show ?case
    unfolding list.size add_Suc_right add_0_right read_indices.simps w by (simp only: rbind.simps wire_simps)
qed simp

text \<open>The handler reads the request of the client back, if the widths suffice.\<close>

lemma handleDiffReq_diffPayload:
  assumes n: "length name + 6 < 2 ^ 16" and i: "length idxs < 2 ^ 24"
  shows "handleDiffReq X node fs (diffPayload name idxs) =
    (case StreamChunks X fs (served_path node name) (nodeCodebookPath node) (EncKey node) idxs of
       (Inl GoPanic, _) \<Rightarrow> (Inl GoPanic, [])
     | (_, None) \<Rightarrow> (Inr (), [])
     | (_, Some (dict, plain)) \<Rightarrow> (Inr (), zstd_encode X 1 dict plain))"
proof -
  let ?k = "length name" and ?N = "bytes_of_string name" and ?c = "length idxs"
  let ?p = "diffPayload name idxs" and ?I = "concat (map (le_bytes 4) idxs)"
  have I: "length ?I = 4 * ?c" by (induction idxs) simp_all
  have p: "?p = le_bytes 2 (of_nat ?k :: u16) @ ?N @ le_bytes 4 (of_nat ?c :: u32) @ ?I"
    by (simp add: diffPayload_def)
  have len: "length ?p = 6 + ?k + 4 * ?c" using I by (simp add: p)
  have u16: "unat (of_nat m :: u16) = m" if "m < 2 ^ 16" for m using that by (intro unat_of_nat_lt) simp
  have u32: "unat (of_nat m :: u32) = m" if "m < 2 ^ 32" for m using that by (intro unat_of_nat_lt) simp
  have nl: "get_uint16 ?p 0 = of_nat ?k" by (simp add: p get_uint16_def slice_layout wire_simps)
  have s: "(2 + of_nat ?k :: u16) = of_nat (2 + ?k)" "(2 + of_nat ?k + 4 :: u16) = of_nat (6 + ?k)" by simp_all
  have name: "gslice ?p 2 (2 + ?k) = Inr ?N" by (simp add: p gslice_def slice_def)
  have off: "(ucast (of_nat (2 + ?k) :: u16) :: u32) = of_nat (2 + ?k)"
    using n u16 [of "2 + ?k"] u32 [of "2 + ?k"] by (simp add: word_unat_eq_iff unat_ucast_small del: of_nat_add)
  have cnt: "gslice ?p (2 + ?k) (2 + ?k + 4) = Inr (le_bytes 4 (of_nat ?c :: u32))" by (simp add: p gslice_def slice_def)
  have o4: "(of_nat (2 + ?k) + 4 :: u32) = of_nat (6 + ?k)" by simp
  have total: "(of_nat (6 + ?k) + of_nat ?c * 4 :: u32) = of_nat (length ?p)" by (simp add: len mult.commute)
  have idx: "read_indices ?p (of_nat (6 + ?k)) 0 ?c = Inr idxs"
    using read_indices_columns [of "le_bytes 2 (of_nat ?k :: u16) @ ?N @ le_bytes 4 (of_nat ?c :: u32)" "of_nat (6 + ?k)" ?c "[]" idxs]
      n i u32 [of "6 + ?k"] by (simp add: p)
  have guards: "\<not> length ?p < 6" "\<not> length ?p < unat (of_nat (6 + ?k) :: u16)"
    "unat (of_nat (2 + ?k) :: u16) = 2 + ?k" "unat (of_nat (2 + ?k) :: u32) = 2 + ?k" "unat (of_nat (2 + ?k) + 4 :: u32) = 2 + ?k + 4"
    "unat (of_nat ?c :: u32) = ?c"
    using n i len u16 [of "6 + ?k"] u16 [of "2 + ?k"] u32 [of "2 + ?k"] u32 [of "6 + ?k"] u32 [of ?c] unfolding o4
    by (simp_all del: of_nat_add)
  show ?thesis
    unfolding handleDiffReq_def Let_def nl s off guards(3,4,5) name sum.case cnt le_word_bytes
    unfolding o4 total guards(6) idx sum.case
    using guards(1,2) by (simp add: idx)
qed

section \<open>What the client asks for\<close>

definition missing_of :: "(bytes \<Rightarrow> u64) \<Rightarrow> item list \<Rightarrow> item list \<Rightarrow> nat list" where
  "missing_of xx its lits = filter (\<lambda>i. item_key xx (its ! i) \<notin> item_key xx ` set lits) [0..<length its]"

lemma missing_of_facts:
  assumes "length its < 2 ^ 32"
  shows "sorted (map unat (map of_nat (missing_of xx its lits) :: u32 list))"
    "\<forall>i \<in> set (map of_nat (missing_of xx its lits) :: u32 list). unat i < length its"
    "length (missing_of xx its lits) \<le> length its"
    "i < length its \<Longrightarrow> (of_nat i :: u32) \<notin> set (map of_nat (missing_of xx its lits)) \<Longrightarrow> item_key xx (its ! i) \<in> item_key xx ` set lits"
proof -
  have u: "unat (of_nat i :: u32) = i" if "i < length its" for i
    using that assms by (intro unat_of_nat_lt) simp
  have "map unat (map of_nat (missing_of xx its lits) :: u32 list) = missing_of xx its lits"
    unfolding map_map by (rule map_idI) (auto simp: missing_of_def u)
  moreover have "sorted (missing_of xx its lits)" by (simp add: missing_of_def sorted_filter [where f = "\<lambda>x. x", simplified])
  ultimately show "sorted (map unat (map of_nat (missing_of xx its lits) :: u32 list))" by simp
  show "\<forall>i \<in> set (map of_nat (missing_of xx its lits) :: u32 list). unat i < length its"
    by (auto simp: missing_of_def u)
  show "length (missing_of xx its lits) \<le> length its"
    unfolding missing_of_def using length_filter_le [of _ "[0..<length its]"] by simp
  show "item_key xx (its ! i) \<in> item_key xx ` set lits"
    if "i < length its" "(of_nat i :: u32) \<notin> set (map of_nat (missing_of xx its lits))"
    using that by (auto simp: missing_of_def)
qed

lemma missing_indices_ok:
  assumes X: "zstd_ok X" "zstd_bound X" "gcm_ok X" "hash_sizes_ok X" and p: "packed_file X h ek r bs crom input"
    and cb: "cb_Open fs (nodeCodebookPath node) = Inr r" "wf_reader r"
    and l: "local_version X fs dest (EncKey node) r lits"
  shows "missing_indices X node fs dest (manifest_of X h bs) = Inr (map of_nat (missing_of (xxhash X) (items_of bs) lits))"
proof -
  note cnt = packed_count_facts [OF X p]
  have n: "unat (ChunkCount h) = length (items_of bs)" unfolding cnt(1) using cnt(3) by (intro unat_of_nat_lt) simp
  show ?thesis
  proof (cases "fs dest")
    case None
    then have "lits = []" using l by (auto simp: local_version_def)
    with None n show ?thesis by (simp add: missing_indices_def all_indices_def manifest_of_def missing_of_def)
  next
    case (Some lcrom)
    then obtain lh lbs linput where lp: "packed_file X lh (EncKey node) r lbs lcrom linput" "lits = items_of lbs"
      using l by (auto simp: local_version_def)
    have g: "GenerateManifest X fs dest (nodeCodebookPath node) (EncKey node) = Inr (manifest_of X lh lbs)"
      using GenerateManifest_packed [where fs = fs, OF X lp(1) Some cb] .
    let ?m = "manifest_of X h bs" and ?E = "map (manifest_entry (xxhash X)) (items_of bs)"
    let ?L = "item_key (xxhash X) ` set lits"
    have keys: "set (map chunkKey (Missing (manifest_Diff (manifest_of X lh lbs) ?m))) = {k \<in> chunkKey ` set ?E. k \<notin> ?L}"
    proof -
      have m: "Missing (manifest_Diff a b) = filter (\<lambda>e. chunkKey e \<notin> chunkKey ` set (cmEntries a)) (cmEntries b)" for a b
        by (simp add: manifest_Diff_def Let_def)
      have "chunkKey ` set (cmEntries (manifest_of X lh lbs)) = ?L"
        by (simp add: manifest_of_def lp(2) item_key_def image_image)
      note l = this
      have r: "cmEntries ?m = ?E" by (simp add: manifest_of_def)
      have i: "f ` {e \<in> A. f e \<notin> B} = {k \<in> f ` A. k \<notin> B}" for f :: "ManifestEntry \<Rightarrow> u64 \<times> u64" and A B
        by blast
      show ?thesis unfolding m l r set_map [where f = chunkKey] set_filter by (rule i)
    qed
    have e: "enumerate 0 ?E = map (\<lambda>i. (i, ?E ! i)) [0..<length ?E]"
      by (rule nth_equalityI) (simp_all add: nth_enumerate_eq)
    have "map (\<lambda>(i, e). of_nat i :: u32) (filter (\<lambda>(i, e). chunkKey e \<in> {k \<in> chunkKey ` set ?E. k \<notin> ?L}) (enumerate 0 ?E)) =
        map (\<lambda>(i, e). of_nat i) (filter (\<lambda>(i, e). chunkKey e \<notin> ?L) (enumerate 0 ?E))"
      by (rule arg_cong [where f = "map _"], rule filter_cong) (auto simp: in_set_enumerate_eq)
    also have "\<dots> = map of_nat (filter (\<lambda>i. chunkKey (?E ! i) \<notin> ?L) [0..<length ?E])"
      unfolding e by (simp add: filter_map comp_def)
    also have "filter (\<lambda>i. chunkKey (?E ! i) \<notin> ?L) [0..<length ?E] = missing_of (xxhash X) (items_of bs) lits"
      unfolding missing_of_def by (rule filter_cong) (simp_all add: item_key_def)
    finally show ?thesis
      using Some g by (simp add: missing_indices_def keys del: set_map) (simp add: manifest_of_def)
  qed
qed

section \<open>An honest peer\<close>

definition serves_file :: "ext \<Rightarrow> CromNode \<Rightarrow> fs \<Rightarrow> string \<Rightarrow> Header \<Rightarrow> Reader \<Rightarrow> packed \<Rightarrow> bytes \<Rightarrow> bool" where
  "serves_file X node fs name h r bs input \<longleftrightarrow>
     (\<exists>crom. fs (served_path node name) = Some crom \<and> packed_file X h (EncKey node) r bs crom input) \<and>
     cb_Open fs (nodeCodebookPath node) = Inr r \<and> wf_reader r \<and> length (items_of bs) \<le> 2 ^ 22 \<and> length name < 2 ^ 15"

lemma manifest_of_wf:
  assumes "zstd_ok X" "zstd_bound X" "gcm_ok X" "hash_sizes_ok X" "packed_file X h ek r bs crom input"
  shows "wf_manifest (manifest_of X h bs)" "length (ToBinary (manifest_of X h bs)) = 46 + length (items_of bs) * 21"
    "cmChunkCount (manifest_of X h bs) \<noteq> 0"
proof -
  note cnt = packed_count_facts [OF assms]
  have u: "unat (ChunkCount h) = length (items_of bs)" unfolding cnt(1) using cnt(3) by (intro unat_of_nat_lt) simp
  have "packed_header X h bs input" using assms(5) by (simp add: packed_file_def)
  then have l: "length (cmOriginalHash (manifest_of X h bs)) = 32"
    using hash_sizes(1) [OF assms(4)] by (simp add: manifest_of_def packed_header_def)
  with u show "wf_manifest (manifest_of X h bs)" by (simp add: wf_manifest_def) (simp add: manifest_of_def)
  show "length (ToBinary (manifest_of X h bs)) = 46 + length (items_of bs) * 21"
    using l by (simp add: ToBinary_layout manifest_fields_def) (simp add: manifest_of_def)
  show "cmChunkCount (manifest_of X h bs) \<noteq> 0" using u cnt(2) by (auto simp: manifest_of_def)
qed

lemma honest_manifest:
  assumes X: "zstd_ok X" "zstd_bound X" "gcm_ok X" "hash_sizes_ok X" and s: "serves_file X node fs name h r bs input"
  defines "bin \<equiv> zstd_encode X 1 [] (ToBinary (manifest_of X h bs))"
  shows "handle_loop X node fs (sendMsg MsgSyncReq (bytes_of_string name) @ rest) =
      (case handle_loop X node fs rest of (res, out) \<Rightarrow> (res, sendMsg MsgManifest bin @ out))"
    "length bin \<le> 100 * 1024 * 1024" "remote_manifest X MsgManifest bin = Inr (manifest_of X h bs)"
proof -
  obtain crom where crom: "fs (served_path node name) = Some crom" "packed_file X h (EncKey node) r bs crom input"
    using s by (auto simp: serves_file_def)
  have cb: "cb_Open fs (nodeCodebookPath node) = Inr r" "wf_reader r" and n: "length (items_of bs) \<le> 2 ^ 22" "length name < 2 ^ 15"
    using s by (simp_all add: serves_file_def)
  note m = manifest_of_wf [OF X crom(2)]
  note g = GenerateManifest_packed [where fs = fs, OF X crom(2,1) cb]
  have "handle_message X node fs MsgSyncReq (bytes_of_string name) = (Inr (), sendMsg MsgManifest bin)"
    by (simp add: handle_message_def handleSyncReq_def crom(1) g CompressPool_def bin_def)
  moreover have "length (bytes_of_string name) \<le> 64 * 1024 * 1024" using n(2) by simp
  ultimately show "handle_loop X node fs (sendMsg MsgSyncReq (bytes_of_string name) @ rest) =
      (case handle_loop X node fs rest of (res, out) \<Rightarrow> (res, sendMsg MsgManifest bin @ out))"
    by (subst handle_loop_message) simp_all
  have "length bin \<le> length (ToBinary (manifest_of X h bs)) + length (ToBinary (manifest_of X h bs)) div 256 + 64"
    using X(2) by (simp add: bin_def zstd_bound_def)
  then show "length bin \<le> 100 * 1024 * 1024" unfolding m(2) using n(1) by simp
  have "DecompressPoolLimit X bin maxManifestSize = Inr (ToBinary (manifest_of X h bs))"
    using n(1) by (simp add: DecompressPoolLimit_def bin_def zstd_ok_simps [OF X(1)] m(2) maxManifestSize_def Let_def)
  then show "remote_manifest X MsgManifest bin = Inr (manifest_of X h bs)"
    using FromBinary_ToBinary [OF m(1), of "[]"] m(3)
    by (simp add: remote_manifest_def MsgManifest_def MsgError_def)
qed

lemma honest_chunks:
  assumes X: "zstd_ok X" "zstd_bound X" "gcm_ok X" "hash_sizes_ok X" and s: "serves_file X node fs name h r bs input"
    and d: "Dictionary r = Inr dict" and i: "sorted (map unat idxs)" "\<forall>i \<in> set idxs. unat i < length (items_of bs)" "length idxs \<le> 2 ^ 22"
  shows "handle_loop X node fs (sendMsg MsgDiffReq (diffPayload name idxs)) = (Inr (), zstd_encode X 1 dict (records (items_of bs) idxs))"
proof -
  obtain crom where crom: "fs (served_path node name) = Some crom" "packed_file X h (EncKey node) r bs crom input"
    using s by (auto simp: serves_file_def)
  have cb: "cb_Open fs (nodeCodebookPath node) = Inr r" and n: "length name < 2 ^ 15"
    using s by (simp_all add: serves_file_def)
  have I: "length (concat (map (le_bytes 4) idxs)) = 4 * length idxs" by (induction idxs) simp_all
  have "length (diffPayload name idxs) \<le> 64 * 1024 * 1024" using n i(3) I by (simp add: diffPayload_def)
  from handle_loop_message [OF this, of X node fs MsgDiffReq "[]"]
  show ?thesis
    using StreamChunks_packed [where fs = fs, OF X crom(2,1) cb d i(1,2)] n i(3)
    by (simp add: handle_message_def MsgDiffReq_def MsgSyncReq_def handleDiffReq_diffPayload)
qed

end
