(* ===== verification/Auth.thy ===== *)
theory Auth
  imports Sync_Protocol
begin

text \<open>
  \<^verbatim>\<open>internal/network/auth.go\<close>: the handshake by which two nodes prove to each other that they
  hold the same codebook, and the record of authenticated peers the synchronisation consults.
  The identity of the other end of a stream is what the transport has established; the bytes on
  it are anybody's.
\<close>

section \<open>The handshake\<close>

definition authNonceSize :: nat where "authNonceSize = 32"
definition proofSize :: nat where "proofSize = 32"

record AuthNode =
  HostID :: bytes
  anCodebookHash :: bytes

definition auth_message :: "bytes \<Rightarrow> bytes \<Rightarrow> bytes" where
  "auth_message sender nonce = bytes_of_string ''crom-auth-v2'' @ sender @ nonce"

definition authProof :: "ext \<Rightarrow> bytes \<Rightarrow> bytes \<Rightarrow> bytes \<Rightarrow> bytes" where
  "authProof X codebookHash sender nonce = hmac_sha256 X codebookHash (auth_message sender nonce)"

text \<open>
  The result, whether the peer is recorded as authenticated, and the bytes sent, against a
  stream that delivers \<open>s\<close>.
\<close>

definition handshake :: "ext \<Rightarrow> AuthNode \<Rightarrow> bytes \<Rightarrow> bool \<Rightarrow> bytes \<Rightarrow> bytes \<Rightarrow> unit res \<times> bool \<times> bytes" where
  "handshake X node remote initiator ourNonce s =
     (case wrap_err ''read nonce'' (read_full authNonceSize s) of
        Inl e \<Rightarrow> (Inl e, False, ourNonce)
      | Inr (remoteNonce, s) \<Rightarrow>
          (let sent = ourNonce @ authProof X (anCodebookHash node) (HostID node) remoteNonce in
           case wrap_err ''read proof'' (read_full proofSize s) of
             Inl e \<Rightarrow> (Inl e, False, sent)
           | Inr (remoteProof, s) \<Rightarrow>
               if remoteProof \<noteq> authProof X (anCodebookHash node) remote ourNonce
               then (Inl (GoErr ''Codebook diferente (Sovereignty violation)''), False, sent)
               else if initiator then
                 (case wrap_err ''read ack'' (read_full 1 s) of
                    Inl e \<Rightarrow> (Inl e, True, sent)
                  | Inr _ \<Rightarrow> (Inr (), True, sent))
               else (Inr (), True, sent @ [0])))"

section \<open>Sessions\<close>

text \<open>
  The nodes that hold one codebook, with any number of handshakes at a time. An entry of
  \<open>auProofs\<close> is an identity with a nonce it has answered. Each event lets one session read what
  the network delivers to it; the network may deliver anything.
\<close>

datatype auth_phase = AwaitNonce | AwaitProof | AwaitAck | AuthDone | AuthFailed

record AuthSession =
  asNode :: bytes
  asPeer :: bytes
  asInitiator :: bool
  asNonce :: bytes
  asRemoteNonce :: "bytes option"
  asPhase :: auth_phase
  asSeen :: nat

record AuthSystem =
  auSessions :: "AuthSession list"
  auProofs :: "(bytes \<times> bytes) list"
  auAuthenticated :: "(bytes \<times> bytes) set"

definition auth_start :: AuthSystem where
  "auth_start = \<lparr>auSessions = [], auProofs = [], auAuthenticated = {}\<rparr>"

definition auth_open :: "bytes \<Rightarrow> bytes \<Rightarrow> bool \<Rightarrow> bytes \<Rightarrow> AuthSystem \<Rightarrow> AuthSystem" where
  "auth_open node peer initiator nonce st =
     st\<lparr>auSessions := auSessions st @
          [\<lparr>asNode = node, asPeer = peer, asInitiator = initiator, asNonce = nonce, asRemoteNonce = None,
            asPhase = AwaitNonce, asSeen = length (auProofs st)\<rparr>]\<rparr>"

definition set_session :: "nat \<Rightarrow> AuthSession \<Rightarrow> AuthSystem \<Rightarrow> AuthSystem" where
  "set_session i ses st = st\<lparr>auSessions := (auSessions st)[i := ses]\<rparr>"

text \<open>A session with the bytes it reads next; \<open>None\<close> is the end of its stream.\<close>

definition auth_read :: "ext \<Rightarrow> bytes \<Rightarrow> nat \<Rightarrow> bytes option \<Rightarrow> AuthSystem \<Rightarrow> AuthSystem" where
  "auth_read X key i got st =
     (let ses = auSessions st ! i;
          goto = (\<lambda>ph. set_session i (ses\<lparr>asPhase := ph\<rparr>) st)
      in case asPhase ses of
        AwaitNonce \<Rightarrow>
          (case got of
             None \<Rightarrow> goto AuthFailed
           | Some remoteNonce \<Rightarrow>
               (set_session i (ses\<lparr>asPhase := AwaitProof, asRemoteNonce := Some remoteNonce\<rparr>) st)
                 \<lparr>auProofs := auProofs st @ [(asNode ses, remoteNonce)]\<rparr>)
      | AwaitProof \<Rightarrow>
          (case got of
             None \<Rightarrow> goto AuthFailed
           | Some remoteProof \<Rightarrow>
               if remoteProof \<noteq> authProof X key (asPeer ses) (asNonce ses) then goto AuthFailed
               else (goto (if asInitiator ses then AwaitAck else AuthDone))
                      \<lparr>auAuthenticated := insert (asNode ses, asPeer ses) (auAuthenticated st)\<rparr>)
      | AwaitAck \<Rightarrow> goto (if got = None then AuthFailed else AuthDone)
      | AuthDone \<Rightarrow> st
      | AuthFailed \<Rightarrow> st)"

definition IsAuthenticated :: "AuthSystem \<Rightarrow> bytes \<Rightarrow> bytes \<Rightarrow> bool" where
  "IsAuthenticated st node pid \<longleftrightarrow> (node, pid) \<in> auAuthenticated st"

text \<open>
  The histories in which nonces are fresh, a read returns as many bytes as are asked for, and
  nobody without the codebook forges its MAC. The last is unforgeability as it is stated of a
  MAC: a session never reads a valid MAC of the message it checks if that message is none of those
  the holders have computed the MAC of. It says nothing about what the messages contain.
\<close>

definition auth_read_size :: "auth_phase \<Rightarrow> nat" where
  "auth_read_size ph = (if ph = AwaitNonce then authNonceSize else if ph = AwaitProof then proofSize else 1)"

definition maced :: "AuthSystem \<Rightarrow> bytes set" where
  "maced st = (\<lambda>(sender, nonce). auth_message sender nonce) ` set (auProofs st)"

definition unforged :: "ext \<Rightarrow> bytes \<Rightarrow> AuthSystem \<Rightarrow> AuthSession \<Rightarrow> bytes \<Rightarrow> bool" where
  "unforged X key st ses p \<longleftrightarrow>
     (let m = auth_message (asPeer ses) (asNonce ses)
      in asPhase ses = AwaitProof \<longrightarrow> p = hmac_sha256 X key m \<longrightarrow> m \<in> maced st)"

inductive auth_reach :: "ext \<Rightarrow> bytes \<Rightarrow> bytes set \<Rightarrow> AuthSystem \<Rightarrow> bool" for X key nodes where
  auth_begin: "auth_reach X key nodes auth_start"
| auth_opened: "auth_reach X key nodes st \<Longrightarrow> node \<in> nodes \<Longrightarrow> length nonce = authNonceSize \<Longrightarrow>
    nonce \<notin> asNonce ` set (auSessions st) \<Longrightarrow> nonce \<notin> snd ` set (auProofs st) \<Longrightarrow>
    auth_reach X key nodes (auth_open node peer initiator nonce st)"
| auth_delivered: "auth_reach X key nodes st \<Longrightarrow> i < length (auSessions st) \<Longrightarrow>
    (\<And>p. got = Some p \<Longrightarrow> length p = auth_read_size (asPhase (auSessions st ! i)) \<and>
       unforged X key st (auSessions st ! i) p) \<Longrightarrow> auth_reach X key nodes (auth_read X key i got st)"

section \<open>Two honest nodes\<close>

text \<open>
  The handshake of two nodes with the same codebook completes on both sides, and the two
  runs send each other exactly what they read, whatever the nonces are.
\<close>

lemma handshake_completes:
  assumes "anCodebookHash a = anCodebookHash b" "length na = 32" "length nb = 32" "hash_sizes_ok X"
  shows "\<exists>sa sb. handshake X a (HostID b) True na sb = (Inr (), True, sa) \<and>
    handshake X b (HostID a) False nb sa = (Inr (), True, sb)"
proof -
  let ?k = "anCodebookHash b"
  let ?sa = "na @ authProof X ?k (HostID a) nb" and ?sb = "nb @ authProof X ?k (HostID b) na @ [0]"
  have l: "length (authProof X ?k x n) = proofSize" for x n
    using hash_sizes [OF assms(4)] by (simp add: authProof_def proofSize_def)
  have n: "length na = authNonceSize" "length nb = authNonceSize" using assms(2,3) by (simp_all add: authNonceSize_def)
  have "handshake X a (HostID b) True na ?sb = (Inr (), True, ?sa)"
    using read_full_append [OF n(2)] read_full_append [OF l, of "HostID b" na] read_full_append [of "[0]" 1 "[]"]
    by (simp add: handshake_def assms(1))
  moreover have "handshake X b (HostID a) False nb ?sa = (Inr (), True, ?sb)"
    using read_full_append [OF n(1)] read_full_append [OF l, of "HostID a" nb "[]"]
    by (simp add: handshake_def)
  ultimately show ?thesis by blast
qed

section \<open>Agreement\<close>

text \<open>
  Challenges differ, an answer comes from a session of the node that read the challenge, after it
  was made, and an authenticated peer has answered the challenge of some session with it.
\<close>

definition auth_inv :: "bytes set \<Rightarrow> AuthSystem \<Rightarrow> bool" where
  "auth_inv nodes st \<longleftrightarrow>
     distinct (map asNonce (auSessions st)) \<and>
     (\<forall>ses \<in> set (auSessions st). asNode ses \<in> nodes \<and> length (asNonce ses) = authNonceSize \<and>
        (\<forall>k < asSeen ses. k < length (auProofs st) \<longrightarrow> snd (auProofs st ! k) \<noteq> asNonce ses) \<and> asSeen ses \<le> length (auProofs st)) \<and>
     (\<forall>(x, n) \<in> set (auProofs st). \<exists>ses \<in> set (auSessions st). asNode ses = x \<and> asRemoteNonce ses = Some n) \<and>
     (\<forall>n \<in> snd ` set (auProofs st). length n = authNonceSize) \<and>
     (\<forall>ses \<in> set (auSessions st). asPhase ses = AwaitNonce \<longrightarrow> asRemoteNonce ses = None) \<and>
     (\<forall>(a, b) \<in> auAuthenticated st. \<exists>ses \<in> set (auSessions st). asNode ses = a \<and> asPeer ses = b \<and> (b, asNonce ses) \<in> set (auProofs st))"

text \<open>What a read may change of its session.\<close>

definition same_challenge :: "AuthSession \<Rightarrow> AuthSession \<Rightarrow> bool" where
  "same_challenge s s' \<longleftrightarrow> asNode s' = asNode s \<and> asPeer s' = asPeer s \<and> asNonce s' = asNonce s \<and> asSeen s' = asSeen s"

lemma auth_read_cases:
  assumes "i < length (auSessions st)"
  obtains ses where "auSessions (auth_read X key i got st) = (auSessions st)[i := ses]" "same_challenge (auSessions st ! i) ses"
    "asRemoteNonce ses = asRemoteNonce (auSessions st ! i) \<and> auProofs (auth_read X key i got st) = auProofs st \<or>
     asPhase (auSessions st ! i) = AwaitNonce \<and>
     (\<exists>n. got = Some n \<and> asRemoteNonce ses = Some n \<and> auProofs (auth_read X key i got st) = auProofs st @ [(asNode ses, n)])"
    "asPhase ses = AwaitNonce \<longrightarrow> False \<or> auSessions st ! i = ses"
    "auAuthenticated (auth_read X key i got st) = auAuthenticated st \<or>
     (asPhase (auSessions st ! i) = AwaitProof \<and> got = Some (authProof X key (asPeer ses) (asNonce ses)) \<and>
      auAuthenticated (auth_read X key i got st) = insert (asNode ses, asPeer ses) (auAuthenticated st))"
proof -
  let ?ses = "auSessions (auth_read X key i got st) ! i"
  show ?thesis
    by (rule that [of ?ses]; use assms in \<open>cases "asPhase (auSessions st ! i)"; cases got;
        simp add: auth_read_def set_session_def same_challenge_def Let_def\<close>)
qed

text \<open>The message determines the sender and the nonce, since all nonces have one length.\<close>

lemma auth_message_inj:
  "auth_message x n = auth_message y m \<Longrightarrow> length n = length m \<Longrightarrow> x = y \<and> n = m"
  by (simp add: auth_message_def)

lemma auth_inv_start: "auth_inv nodes auth_start"
  by (simp add: auth_inv_def auth_start_def)

lemma auth_inv_open:
  assumes "auth_inv nodes st" "node \<in> nodes" "length nonce = authNonceSize" "nonce \<notin> asNonce ` set (auSessions st)"
    and "nonce \<notin> snd ` set (auProofs st)"
  shows "auth_inv nodes (auth_open node peer initiator nonce st)"
proof -
  have "snd (auProofs st ! k) \<noteq> nonce" if "k < length (auProofs st)" for k
    using assms(5) that by (metis image_eqI nth_mem)
  with assms(1-4) show ?thesis
    by (auto simp: auth_inv_def auth_open_def)
qed

lemma auth_inv_read:
  assumes inv: "auth_inv nodes st" and i: "i < length (auSessions st)" and u: "\<And>p. got = Some p \<Longrightarrow>
      length p = auth_read_size (asPhase (auSessions st ! i)) \<and> unforged X key st (auSessions st ! i) p"
  shows "auth_inv nodes (auth_read X key i got st)"
proof -
  let ?st = "auth_read X key i got st" and ?old = "auSessions st ! i"
  obtain ses where s: "auSessions ?st = (auSessions st)[i := ses]" "same_challenge ?old ses"
    and p: "asRemoteNonce ses = asRemoteNonce ?old \<and> auProofs ?st = auProofs st \<or>
      asPhase ?old = AwaitNonce \<and> (\<exists>n. got = Some n \<and> asRemoteNonce ses = Some n \<and> auProofs ?st = auProofs st @ [(asNode ses, n)])"
    and w: "asPhase ses = AwaitNonce \<longrightarrow> False \<or> ?old = ses"
    and a: "auAuthenticated ?st = auAuthenticated st \<or>
      (asPhase ?old = AwaitProof \<and> got = Some (authProof X key (asPeer ses) (asNonce ses)) \<and> auAuthenticated ?st = insert (asNode ses, asPeer ses) (auAuthenticated st))"
    using auth_read_cases [OF i, of X key got] by blast
  have old: "?old \<in> set (auSessions st)" using i by simp
  have fields: "asNode ses = asNode ?old" "asPeer ses = asPeer ?old" "asNonce ses = asNonce ?old" "asSeen ses = asSeen ?old"
    using s(2) by (simp_all add: same_challenge_def)
  have new: "ses \<in> set (auSessions ?st)" using s(1) i by (simp add: set_update_memI)
  have from_old: "x = ses \<or> x \<in> set (auSessions st)" if "x \<in> set (auSessions ?st)" for x
    using that set_update_subset_insert [of "auSessions st" i ses] s(1) by auto
  have kept: "x \<in> set (auSessions ?st) \<or> x = ?old" if "x \<in> set (auSessions st)" for x
    using that s(1) by (metis in_set_conv_nth length_list_update nth_list_update_neq)
  have proofs: "set (auProofs st) \<subseteq> set (auProofs ?st)" "length (auProofs st) \<le> length (auProofs ?st)"
    "k < length (auProofs st) \<Longrightarrow> auProofs ?st ! k = auProofs st ! k" for k
    using p by (auto simp: nth_append)
  have nonces: "map asNonce (auSessions ?st) = map asNonce (auSessions st)"
    unfolding s(1) map_update fields(3) using i by (simp add: list_update_same_conv)
  have "\<exists>x \<in> set (auSessions ?st). asNode x = m \<and> asRemoteNonce x = Some n" if "(m, n) \<in> set (auProofs ?st)" for m n
  proof (cases "(m, n) \<in> set (auProofs st)")
    case True
    then obtain x where x: "x \<in> set (auSessions st)" "asNode x = m" "asRemoteNonce x = Some n"
      using inv unfolding auth_inv_def by blast
    then have "asPhase x \<noteq> AwaitNonce" using inv unfolding auth_inv_def by fastforce
    then show ?thesis using kept [OF x(1)] x(2,3) new fields(1) p by auto
  next
    case False
    then show ?thesis using p that new by auto
  qed
  moreover have "\<exists>x \<in> set (auSessions ?st). asNode x = m \<and> asPeer x = b \<and> (b, asNonce x) \<in> set (auProofs ?st)"
    if "(m, b) \<in> auAuthenticated ?st" for m b
  proof (cases "(m, b) \<in> auAuthenticated st")
    case True
    then obtain x where x: "x \<in> set (auSessions st)" "asNode x = m" "asPeer x = b" "(b, asNonce x) \<in> set (auProofs st)"
      using inv unfolding auth_inv_def by (elim conjE) (drule (1) bspec, auto)
    let ?y = "if x = ?old then ses else x"
    have "?y \<in> set (auSessions ?st)" "asNode ?y = m" "asPeer ?y = b" "(b, asNonce ?y) \<in> set (auProofs ?st)"
      using kept [OF x(1)] new fields x(2-4) proofs(1) by auto
    then show ?thesis by blast
  next
    case False
    then have g: "asPhase ?old = AwaitProof" "got = Some (authProof X key (asPeer ses) (asNonce ses))"
      "m = asNode ses" "b = asPeer ses" using a that by auto
    then have "auth_message b (asNonce ses) \<in> maced st"
      using u [OF g(2)] fields(2,3) by (simp add: unforged_def authProof_def)
    then obtain x n where xn: "(x, n) \<in> set (auProofs st)" "auth_message b (asNonce ses) = auth_message x n"
      by (auto simp: maced_def)
    have ls: "\<forall>y \<in> set (auSessions st). length (asNonce y) = authNonceSize"
      and ln: "\<forall>n \<in> snd ` set (auProofs st). length n = authNonceSize"
      using inv unfolding auth_inv_def by blast+
    have "length (asNonce ses) = length n" using bspec [OF ls old] bspec [OF ln, of n] fields(3) image_eqI [OF _ xn(1), of n snd]
      by simp
    with auth_message_inj [OF xn(2)] xn(1) have "(b, asNonce ses) \<in> set (auProofs st)" by simp
    then show ?thesis using new g(3,4) proofs(1) by blast
  qed
  moreover have "asNode x \<in> nodes \<and> length (asNonce x) = authNonceSize \<and>
      (\<forall>k < asSeen x. k < length (auProofs ?st) \<longrightarrow> snd (auProofs ?st ! k) \<noteq> asNonce x) \<and> asSeen x \<le> length (auProofs ?st)"
    if "x \<in> set (auSessions ?st)" for x
  proof -
    have x: "x \<in> set (auSessions ?st)" by (rule that)
    obtain y where y: "y \<in> set (auSessions st)" "asNode x = asNode y" "asNonce x = asNonce y" "asSeen x = asSeen y"
    proof (cases "x = ses")
      case True
      then show ?thesis using that old fields by blast
    next
      case False
      then show ?thesis using that from_old [OF x] by blast
    qed
    then have "asNode y \<in> nodes \<and> length (asNonce y) = authNonceSize \<and> asSeen y \<le> length (auProofs st) \<and>
        (\<forall>k < asSeen y. snd (auProofs st ! k) \<noteq> asNonce y)"
      using inv unfolding auth_inv_def by fastforce
    then show ?thesis using y(2-4) proofs(2,3) by auto
  qed
  moreover have "asRemoteNonce x = None" if "x \<in> set (auSessions ?st)" "asPhase x = AwaitNonce" for x
    using from_old [OF that(1)] that(2) w old inv unfolding auth_inv_def by auto
  moreover have "length n = authNonceSize" if "n \<in> snd ` set (auProofs ?st)" for n
  proof (cases "n \<in> snd ` set (auProofs st)")
    case True
    then show ?thesis using inv unfolding auth_inv_def by blast
  next
    case False
    then show ?thesis using p that u by (auto simp: auth_read_size_def)
  qed
  moreover have "distinct (map asNonce (auSessions ?st))" using inv nonces unfolding auth_inv_def by simp
  ultimately show ?thesis unfolding auth_inv_def by (intro conjI) blast+
qed

lemma auth_reach_inv: "auth_reach X key nodes st \<Longrightarrow> auth_inv nodes st"
  by (induction rule: auth_reach.induct) (auto intro: auth_inv_start auth_inv_open auth_inv_read)

text \<open>The stream a session reads, in the pieces it reads.\<close>

definition pieces :: "bytes \<Rightarrow> bytes option list" where
  "pieces s =
     (let cut = (\<lambda>n s. if length s < n then None else Some (take n s))
      in [cut authNonceSize s, cut proofSize (drop authNonceSize s), cut 1 (drop (authNonceSize + proofSize) s)])"

text \<open>A session that reads a stream piece by piece does what the handshake does.\<close>

lemma handshake_session:
  assumes "hash_sizes_ok X" "handshake X node remote initiator nonce s = (r, ok, sent)"
    and "i < length (auSessions st)" "auSessions st ! i = \<lparr>asNode = HostID node, asPeer = remote, asInitiator = initiator,
      asNonce = nonce, asRemoteNonce = None, asPhase = AwaitNonce, asSeen = n\<rparr>"
  shows "auAuthenticated (fold (auth_read X (anCodebookHash node) i) (pieces s) st) =
      (if ok then insert (HostID node, remote) (auAuthenticated st) else auAuthenticated st)"
    "asPhase (auSessions (fold (auth_read X (anCodebookHash node) i) (pieces s) st) ! i) =
      (if r = Inr () then AuthDone else AuthFailed)"
proof -
  have l: "length (authProof X (anCodebookHash node) remote nonce) = 32" using hash_sizes [OF assms(1)] by (simp add: authProof_def)
  note step = auth_read_def set_session_def pieces_def authNonceSize_def proofSize_def Let_def assms(3,4)
  have "auAuthenticated (fold (auth_read X (anCodebookHash node) i) (pieces s) st) =
      (if ok then insert (HostID node, remote) (auAuthenticated st) else auAuthenticated st) \<and>
    asPhase (auSessions (fold (auth_read X (anCodebookHash node) i) (pieces s) st) ! i) =
      (if r = Inr () then AuthDone else AuthFailed)"
  proof (cases "length s < 32")
    case True
    then show ?thesis using assms(2) by (auto simp: handshake_def read_full_def step split: if_splits)
  next
    case nonce: False
    show ?thesis
    proof (cases "length s < 64")
      case True
      then show ?thesis using nonce assms(2) by (auto simp: handshake_def read_full_def step split: if_splits)
    next
      case False
      then have s: "\<not> length s < 32" "\<not> length s - 32 < 32" "32 \<le> length s - 32" "32 \<le> length s" "length s - 64 < 1 \<longleftrightarrow> length s = 64" by auto
      show ?thesis
        using assms(2) l
        by (cases "take 32 (drop 32 s) = authProof X (anCodebookHash node) remote nonce"; cases initiator)
          (auto simp: handshake_def read_full_def step s drop_drop split: if_splits)
    qed
  qed
  then show "auAuthenticated (fold (auth_read X (anCodebookHash node) i) (pieces s) st) =
      (if ok then insert (HostID node, remote) (auAuthenticated st) else auAuthenticated st)"
    "asPhase (auSessions (fold (auth_read X (anCodebookHash node) i) (pieces s) st) ! i) =
      (if r = Inr () then AuthDone else AuthFailed)"
    by blast+
qed

section \<open>Properties\<close>

text \<open>
  C8. Only holders of the codebook are served: if a node answers a request of a peer with more
  than a refusal, the peer is one of the nodes with the codebook, and it has answered, after it
  was made, the very challenge of a session of the node with that peer. Challenges differ, so no
  two sessions rest on one answer. This holds for any number of sessions over a network that
  loses, replays, reflects and reorders everything, under three assumptions: nonces are fresh, the
  identity of a stream's other end is the transport's, and the MAC is unforgeable (\<open>unforged\<close>). That the
  answer names its sender and its challenge is not assumed: it is read off the message.
\<close>

theorem served_to_holders:
  assumes "auth_reach X key nodes st"
    and "handleStream Y node (IsAuthenticated st a b) fs s \<noteq> (Inr (), sendError ''Autenticacao necessaria'')"
  shows "b \<in> nodes \<and> distinct (map asNonce (auSessions st)) \<and>
    (\<exists>i j k. i < length (auSessions st) \<and> j < length (auSessions st) \<and> k < length (auProofs st) \<and>
       asNode (auSessions st ! i) = a \<and> asPeer (auSessions st ! i) = b \<and> asNode (auSessions st ! j) = b \<and>
       asRemoteNonce (auSessions st ! j) = Some (asNonce (auSessions st ! i)) \<and>
       auProofs st ! k = (b, asNonce (auSessions st ! i)) \<and> asSeen (auSessions st ! i) \<le> k)"
proof -
  note inv = auth_reach_inv [OF assms(1)]
  have "(a, b) \<in> auAuthenticated st"
    using assms(2) by (auto simp: handleStream_def IsAuthenticated_def split: if_splits)
  then obtain x where x: "x \<in> set (auSessions st)" "asNode x = a" "asPeer x = b" "(b, asNonce x) \<in> set (auProofs st)"
    using inv unfolding auth_inv_def by (elim conjE) (drule (1) bspec, auto)
  then obtain y where y: "y \<in> set (auSessions st)" "asNode y = b" "asRemoteNonce y = Some (asNonce x)"
    using inv unfolding auth_inv_def by (elim conjE) (drule (1) bspec, auto)
  obtain k where k: "k < length (auProofs st)" "auProofs st ! k = (b, asNonce x)" using x(4) by (auto simp: in_set_conv_nth)
  have "\<forall>k < asSeen x. k < length (auProofs st) \<longrightarrow> snd (auProofs st ! k) \<noteq> asNonce x"
    using inv x(1) unfolding auth_inv_def by blast
  then have "asSeen x \<le> k" using k by (cases "k < asSeen x") auto
  moreover have "b \<in> nodes" using inv y unfolding auth_inv_def by auto
  moreover have "distinct (map asNonce (auSessions st))" using inv by (simp add: auth_inv_def)
  moreover obtain i j where "i < length (auSessions st)" "auSessions st ! i = x" "j < length (auSessions st)" "auSessions st ! j = y"
    using x(1) y(1) by (auto simp: in_set_conv_nth)
  ultimately show ?thesis using x y k by blast
qed

text \<open>A asks B, B answers the challenge, and A accepts the answer.\<close>

definition sample_auth :: AuthSystem where
  "sample_auth =
     auth_read toy_ext [] 0 (Some (authProof toy_ext [] [66] (replicate 32 7)))
      (auth_read toy_ext [] 0 (Some (replicate 32 8))
       (auth_read toy_ext [] 1 (Some (replicate 32 7))
        (auth_open [66] [65] False (replicate 32 8) (auth_open [65] [66] True (replicate 32 7) auth_start))))"

theorem served_to_holders_witness:
  "IsAuthenticated sample_auth [65] [66] \<and> \<not> IsAuthenticated sample_auth [66] [65] \<and>
    (\<exists>i j k. asPeer (auSessions sample_auth ! i) = [66] \<and> asNode (auSessions sample_auth ! j) = [66] \<and>
       auProofs sample_auth ! k = ([66], replicate 32 7) \<and> asRemoteNonce (auSessions sample_auth ! j) = Some (replicate 32 7))"
proof -
  let ?n7 = "replicate 32 (7 :: byte)" and ?n8 = "replicate 32 (8 :: byte)"
  let ?p = "authProof toy_ext [] [66] ?n7"
  have lp: "length ?p = 32" by (simp add: authProof_def toy_ext_def)
  define s2 where "s2 = auth_open [66] [65] False ?n8 (auth_open [65] [66] True ?n7 auth_start)"
  have 2: "auth_reach toy_ext [] {[65], [66]} s2"
    unfolding s2_def by (intro auth_opened auth_begin) (simp_all add: auth_open_def auth_start_def authNonceSize_def)
  define s3 where "s3 = auth_read toy_ext [] 1 (Some ?n7) s2"
  have l2: "length (auSessions s2) = 2" "asPhase (auSessions s2 ! 1) = AwaitNonce"
    by (simp_all add: s2_def auth_open_def auth_start_def)
  have 3: "auth_reach toy_ext [] {[65], [66]} s3"
    unfolding s3_def by (rule auth_delivered [OF 2]) (use l2 in \<open>auto simp: unforged_def auth_read_size_def authNonceSize_def\<close>)
  define s4 where "s4 = auth_read toy_ext [] 0 (Some ?n8) s3"
  have l3: "auSessions s3 = [\<lparr>asNode = [65], asPeer = [66], asInitiator = True, asNonce = ?n7, asRemoteNonce = None,
        asPhase = AwaitNonce, asSeen = 0\<rparr>,
      \<lparr>asNode = [66], asPeer = [65], asInitiator = False, asNonce = ?n8, asRemoteNonce = Some ?n7, asPhase = AwaitProof, asSeen = 0\<rparr>]"
    "auProofs s3 = [([66], ?n7)]" "auAuthenticated s3 = {}"
    by (simp_all add: s3_def s2_def auth_read_def auth_open_def auth_start_def set_session_def Let_def)
  have 4: "auth_reach toy_ext [] {[65], [66]} s4"
    unfolding s4_def by (rule auth_delivered [OF 3]) (auto simp: l3 unforged_def auth_read_size_def authNonceSize_def)
  have l4: "auSessions s4 = [\<lparr>asNode = [65], asPeer = [66], asInitiator = True, asNonce = ?n7, asRemoteNonce = Some ?n8,
        asPhase = AwaitProof, asSeen = 0\<rparr>,
      \<lparr>asNode = [66], asPeer = [65], asInitiator = False, asNonce = ?n8, asRemoteNonce = Some ?n7, asPhase = AwaitProof, asSeen = 0\<rparr>]"
    "auProofs s4 = [([66], ?n7), ([65], ?n8)]" "auAuthenticated s4 = {}"
    by (simp_all add: s4_def auth_read_def set_session_def Let_def l3)
  have sa: "sample_auth = auth_read toy_ext [] 0 (Some ?p) s4"
    by (simp only: sample_auth_def s2_def s3_def s4_def)
  have 5: "auth_reach toy_ext [] {[65], [66]} sample_auth"
    unfolding sa by (rule auth_delivered [OF 4]) (use lp in \<open>auto simp: l4 unforged_def maced_def auth_read_size_def proofSize_def\<close>)
  have l5: "auSessions sample_auth ! 0 = (auSessions s4 ! 0)\<lparr>asPhase := AwaitAck\<rparr>" "auProofs sample_auth = auProofs s4"
    "auAuthenticated sample_auth = {([65], [66])}"
    unfolding sa by (simp_all add: auth_read_def set_session_def Let_def l4)
  have "handleStream toy_ext \<lparr>DataDir = [], nodeCodebookPath = [], EncKey = []\<rparr> (IsAuthenticated sample_auth [65] [66]) Map.empty [] \<noteq>
      (Inr (), sendError ''Autenticacao necessaria'')"
    by (simp add: handleStream_def IsAuthenticated_def l5 sendError_def sendMsg_def)
  from served_to_holders [OF 5 this] obtain i j k where
    ijk: "asNode (auSessions sample_auth ! i) = [65]" "asPeer (auSessions sample_auth ! i) = [66]" "i < length (auSessions sample_auth)"
      "asNode (auSessions sample_auth ! j) = [66]" "asRemoteNonce (auSessions sample_auth ! j) = Some (asNonce (auSessions sample_auth ! i))"
      "auProofs sample_auth ! k = ([66], asNonce (auSessions sample_auth ! i))"
    by blast
  have "length (auSessions sample_auth) = 2" "auSessions sample_auth ! 1 = auSessions s4 ! 1"
    unfolding sa by (simp_all add: auth_read_def set_session_def Let_def l4)
  then have "i = 0" using ijk(1,3) by (cases i) (auto simp: l4)
  then have "asNonce (auSessions sample_auth ! i) = ?n7" by (simp add: l5 l4)
  with ijk l5(3) show ?thesis unfolding IsAuthenticated_def by (intro conjI exI [of _ i] exI [of _ j] exI [of _ k]) simp_all
qed

end
