(* ===== verification/Remote_Reader.thy ===== *)
theory Remote_Reader
  imports Vfs_Cache "HOL-Library.Signed_Division" "HOL-Library.Sublist"
begin

text \<open>
  \<^verbatim>\<open>internal/remote/cloud.go\<close>: reading a file on a web server by ranges, one page of 256 KiB per
  request, through a cache of pages. The cache is the LRU of an imported package and the
  server is whatever answers, so both are parameters: the cache meets the contract
  \<open>keyed_store\<close>, and the server is a function from the number of the request and the range to
  the reply. Here pages are loaded one after the other; \<open>Remote_Race\<close> has them loaded at once.
\<close>

section \<open>Requests\<close>

definition PageSize :: int where "PageSize = 256 * 1024"
definition PrefetchDepth :: int where "PrefetchDepth = 2"

text \<open>How the body of a reply ends: as announced, early, or with another error.\<close>

datatype body_end = BodyEOF | BodyShort | BodyBroken

datatype http = HttpFail | HttpReply (hStatus: int) (hBody: bytes) (hEnd: body_end)

type_synonym web_server = "nat \<Rightarrow> int \<Rightarrow> int \<Rightarrow> http"

record 'c lru =
  lru_new :: 'c
  lru_get :: "int \<Rightarrow> 'c \<Rightarrow> bytes option \<times> 'c"
  lru_add :: "int \<Rightarrow> bytes \<Rightarrow> 'c \<Rightarrow> 'c"

record 'c CloudReader =
  crOffset :: int
  crSize :: int
  crCache :: 'c
  crRequests :: nat

abbreviation io_EOF :: goerror where "io_EOF \<equiv> GoErr ''EOF''"

text \<open>The sum of two 64-bit integers.\<close>

definition add64 :: "int \<Rightarrow> int \<Rightarrow> int" where
  "add64 a b = sint (word_of_int (a + b) :: 64 word)"

text \<open>The reply to the HEAD request, with the length it announces (0 if there is none).\<close>

definition NewCloudReader :: "'c lru \<Rightarrow> (int \<times> int) option \<Rightarrow> 'c CloudReader res" where
  "NewCloudReader L head =
     (case head of
        None \<Rightarrow> Inl (GoErr ''remote: head request failed'')
      | Some (status, contentLength) \<Rightarrow>
          if status \<noteq> 200 then Inl (GoErr ''remote: file error, status code'')
          else if contentLength \<le> 0 then Inl (GoErr ''remote: invalid file size (must be greater than 0)'')
          else Inr \<lparr>crOffset = 0, crSize = contentLength, crCache = lru_new L, crRequests = 0\<rparr>)"

text \<open>What a reply to the request for a page gives.\<close>

definition page_reply :: "http \<Rightarrow> bytes res" where
  "page_reply reply =
     (case reply of
        HttpFail \<Rightarrow> Inl (GoErr ''request failed'')
      | HttpReply status body body_end \<Rightarrow>
          if status \<noteq> 206 \<and> status \<noteq> 200 then Inl (GoErr ''remote status'')
          else if body_end = BodyBroken then Inl (GoErr ''remote EOF/Truncation'')
          else Inr body)"

definition page_range :: "int \<Rightarrow> int \<Rightarrow> (int \<times> int) option" where
  "page_range crsize pageNum =
     (let startByte = pageNum * PageSize in
      if crsize \<le> startByte then None
      else
        (let endByte = startByte + PageSize - 1
         in Some (startByte, if crsize \<le> endByte then crsize - 1 else endByte)))"

definition loadPage :: "'c lru \<Rightarrow> web_server \<Rightarrow> int \<Rightarrow> 'c CloudReader \<Rightarrow> bytes res \<times> 'c CloudReader" where
  "loadPage L srv pageNum c =
     (case lru_get L pageNum (crCache c) of
        (Some data, cache) \<Rightarrow> (Inr data, c\<lparr>crCache := cache\<rparr>)
      | (None, cache) \<Rightarrow>
          (let c = c\<lparr>crCache := cache\<rparr> in
           case page_range (crSize c) pageNum of
             None \<Rightarrow> (Inl io_EOF, c)
           | Some (startByte, endByte) \<Rightarrow>
               (case page_reply (srv (crRequests c) startByte endByte) of
                  Inl e \<Rightarrow> (Inl e, c\<lparr>crRequests := crRequests c + 1\<rparr>)
                | Inr pageData \<Rightarrow>
                    (Inr pageData, c\<lparr>crRequests := crRequests c + 1, crCache := lru_add L pageNum pageData (crCache c)\<rparr>))))"

section \<open>Reading\<close>

text \<open>The bytes of a page that a read from \<open>off\<close> with \<open>out\<close> so far takes.\<close>

definition page_part :: "int \<Rightarrow> int \<Rightarrow> int \<Rightarrow> bytes \<Rightarrow> bytes \<Rightarrow> bytes res" where
  "page_part off bytesToRead pageNum out pageData =
     (let bytesRead = int (length out);
          copyStart = off + bytesRead - pageNum * PageSize;
          copyStart = (if copyStart < 0 then 0 else copyStart);
          copyLen = int (length pageData) - copyStart;
          copyLen = (if bytesToRead < bytesRead + copyLen then bytesToRead - bytesRead else copyLen)
      in if copyLen < 0 \<or> int (length pageData) < copyStart + copyLen then Inl GoPanic
         else Inr (slice pageData (nat copyStart) (nat (copyStart + copyLen))))"

fun read_pages ::
  "'c lru \<Rightarrow> web_server \<Rightarrow> int \<Rightarrow> int \<Rightarrow> int list \<Rightarrow> bytes \<Rightarrow> 'c CloudReader \<Rightarrow> (bytes \<times> unit res) \<times> 'c CloudReader" where
  "read_pages L srv off bytesToRead [] out c = ((out, Inr ()), c)"
| "read_pages L srv off bytesToRead (pageNum # pageNums) out c =
     (case loadPage L srv pageNum c of
        (Inl e, c) \<Rightarrow>
          if e = io_EOF then ((out, Inr ()), c)
          else ((out, wrap_err ''remote: failed to fetch page'' (Inl e)), c)
      | (Inr pageData, c) \<Rightarrow>
          if pageData = [] then ((out, Inr ()), c)
          else
            (case page_part off bytesToRead pageNum out pageData of
               Inl e \<Rightarrow> ((out, Inl e), c)
             | Inr part \<Rightarrow>
                 if int (length (out @ part)) = bytesToRead \<or> int (length pageData) < PageSize
                 then ((out @ part, Inr ()), c)
                 else read_pages L srv off bytesToRead pageNums (out @ part) c))"

text \<open>The bytes read with the error, and the pages that are loaded ahead from then on.\<close>

definition Cloud_ReadAt ::
  "'c lru \<Rightarrow> web_server \<Rightarrow> nat \<Rightarrow> int \<Rightarrow> 'c CloudReader \<Rightarrow> (bytes \<times> unit res) \<times> int list \<times> 'c CloudReader" where
  "Cloud_ReadAt L srv n off c =
     (if crSize c \<le> off then (([], Inl io_EOF), [], c)
      else
        (let bytesToRead = (if crSize c < add64 off (int n) then crSize c - off else int n)
         in if bytesToRead \<le> 0 then (([], Inr ()), [], c)
            else
              (let startPage = off sdiv PageSize;
                   endPage = add64 (add64 off bytesToRead) (- 1) sdiv PageSize;
                   (res, c) = read_pages L srv off bytesToRead [startPage..endPage] [] c
               in if snd res \<noteq> Inr () then (res, [], c)
                  else
                    (if fst res = [] then ([], Inl io_EOF) else res,
                     filter (\<lambda>ahead. ahead * PageSize < crSize c) (map (\<lambda>i. endPage + i) [1..PrefetchDepth]), c))))"

definition Cloud_Read ::
  "'c lru \<Rightarrow> web_server \<Rightarrow> nat \<Rightarrow> 'c CloudReader \<Rightarrow> (bytes \<times> unit res) \<times> int list \<times> 'c CloudReader" where
  "Cloud_Read L srv n c =
     (case Cloud_ReadAt L srv n (crOffset c) c of
        (res, ahead, c) \<Rightarrow> (res, ahead, c\<lparr>crOffset := crOffset c + int (length (fst res))\<rparr>))"

definition prefetchPhantom :: "'c lru \<Rightarrow> web_server \<Rightarrow> int \<Rightarrow> 'c CloudReader \<Rightarrow> 'c CloudReader" where
  "prefetchPhantom L srv pageNum c = snd (loadPage L srv pageNum c)"

text \<open>
  A history: reads by position and in sequence, and pages loaded ahead at any time.
\<close>

datatype cloud_op = CReadAt nat int | CRead nat | CPrefetch int

fun cloud_run :: "'c lru \<Rightarrow> web_server \<Rightarrow> cloud_op list \<Rightarrow> 'c CloudReader \<Rightarrow> (bytes \<times> unit res) list" where
  "cloud_run L srv [] c = []"
| "cloud_run L srv (CReadAt n off # ops) c =
     (case Cloud_ReadAt L srv n off c of (res, _, c) \<Rightarrow> res # cloud_run L srv ops c)"
| "cloud_run L srv (CRead n # ops) c =
     (case Cloud_Read L srv n c of (res, _, c) \<Rightarrow> res # cloud_run L srv ops c)"
| "cloud_run L srv (CPrefetch p # ops) c = cloud_run L srv ops (prefetchPhantom L srv p c)"

section \<open>Pages\<close>

definition between :: "bytes \<Rightarrow> int \<Rightarrow> int \<Rightarrow> bytes" where
  "between data i j = slice data (nat i) (nat j)"

lemma length_between: "0 \<le> i \<Longrightarrow> i \<le> j \<Longrightarrow> j \<le> int (length data) \<Longrightarrow> int (length (between data i j)) = j - i"
  by (simp add: between_def length_slice)

lemma between_append: "0 \<le> i \<Longrightarrow> i \<le> j \<Longrightarrow> j \<le> k \<Longrightarrow> between data i j @ between data j k = between data i k"
  by (simp add: between_def slice_split)

lemma between_part:
  assumes "0 \<le> i" "0 \<le> a" "a \<le> b" "i + b \<le> j"
  shows "slice (between data i j) (nat a) (nat b) = between data (i + a) (i + b)"
proof -
  have "take (nat b - nat a) (drop (nat a) (take (nat j - nat i) (drop (nat i) data))) = take (nat (i + b) - nat (i + a)) (drop (nat (i + a)) data)"
    using assms by (simp add: drop_take nat_add_distrib add.commute)
  then show ?thesis by (simp add: between_def slice_def)
qed

definition page_of :: "bytes \<Rightarrow> int \<Rightarrow> bytes" where
  "page_of data k = between data (k * PageSize) (min ((k + 1) * PageSize) (int (length data)))"

text \<open>A server of the file: a reply that is accepted has the bytes of the range; some may fail.\<close>

definition serves_ranges :: "web_server \<Rightarrow> bytes \<Rightarrow> bool" where
  "serves_ranges srv data \<longleftrightarrow>
     (\<forall>n i j body. 0 \<le> i \<and> i \<le> j \<and> j < int (length data) \<longrightarrow> page_reply (srv n i j) = Inr body \<longrightarrow> body = between data i (j + 1))"

definition never_fails :: "web_server \<Rightarrow> bool" where
  "never_fails srv \<longleftrightarrow> (\<forall>n i j. \<exists>body. page_reply (srv n i j) = Inr body)"

definition page_good :: "bytes \<Rightarrow> int \<Rightarrow> bytes \<Rightarrow> bool" where
  "page_good data k page \<longleftrightarrow> (0 \<le> k \<and> k * PageSize < int (length data) \<longrightarrow> page = page_of data k)"

lemma PageSize_pos: "0 < PageSize"
  by (simp add: PageSize_def)

lemma length_page_of:
  "0 \<le> k \<Longrightarrow> k * PageSize < int (length data) \<Longrightarrow>
    int (length (page_of data k)) = min PageSize (int (length data) - k * PageSize)"
  unfolding page_of_def using PageSize_pos by (subst length_between) (auto simp: algebra_simps min_def)

lemma page_reply_error: "page_reply reply = Inl e \<Longrightarrow> e \<noteq> io_EOF \<and> (\<exists>m. e = GoErr m)"
  by (auto simp: page_reply_def split: http.splits if_splits)

definition cloud_ok :: "('c \<Rightarrow> int \<rightharpoonup> bytes) \<Rightarrow> ('c \<Rightarrow> bool) \<Rightarrow> bytes \<Rightarrow> 'c CloudReader \<Rightarrow> bool" where
  "cloud_ok held valid data c \<longleftrightarrow>
     crSize c = int (length data) \<and> keyed_store.holds held valid (page_good data) (crCache c)"

lemma page_reply_good:
  assumes "serves_ranges srv data" "page_range (int (length data)) k = Some (i, j)" "page_reply (srv m i j) = Inr body"
  shows "page_good data k body"
  unfolding page_good_def
proof
  assume k: "0 \<le> k \<and> k * PageSize < int (length data)"
  then have ij: "i = k * PageSize" "j + 1 = min ((k + 1) * PageSize) (int (length data))" "i \<le> j" "j < int (length data)" "0 \<le> i"
    using assms(2) PageSize_pos by (auto simp: page_range_def Let_def algebra_simps split: if_splits)
  have "body = between data i (j + 1)"
    using assms(1) [unfolded serves_ranges_def, rule_format, of i j m body] ij(3-5) assms(3) by simp
  then show "body = page_of data k" by (simp add: page_of_def ij)
qed

lemma loadPage_ok:
  assumes L: "keyed_store (lru_get L) (lru_add L) held valid" and srv: "serves_ranges srv data" and c: "cloud_ok held valid data c"
    and load: "loadPage L srv k c = (r, c')"
  shows "cloud_ok held valid data c'" "crOffset c' = crOffset c" "r = Inr page \<Longrightarrow> page_good data k page"
    "r = Inl e \<Longrightarrow> k * PageSize < int (length data) \<Longrightarrow> e \<noteq> io_EOF \<and> (\<exists>m. e = GoErr m) \<and> \<not> never_fails srv"
proof -
  note get = keyed_store.get_holds [OF L] and hit = keyed_store.get_hit [OF L] and put = keyed_store.put_holds [OF L]
  have h: "keyed_store.holds held valid (page_good data) (crCache c)" and n: "crSize c = int (length data)"
    using c by (simp_all add: cloud_ok_def)
  obtain found cache where g: "lru_get L k (crCache c) = (found, cache)" by fastforce
  have h': "keyed_store.holds held valid (page_good data) cache" using get [OF h, of k] g by simp
  show "cloud_ok held valid data c'" "crOffset c' = crOffset c" "r = Inr page \<Longrightarrow> page_good data k page"
    using load h h' n hit [OF h] g page_reply_good [OF srv] put [OF h']
    by (auto simp: loadPage_def g cloud_ok_def Let_def split: option.splits prod.splits sum.splits)
  show "r = Inl e \<Longrightarrow> k * PageSize < int (length data) \<Longrightarrow> e \<noteq> io_EOF \<and> (\<exists>m. e = GoErr m) \<and> \<not> never_fails srv"
    using load n page_reply_error
    by (auto simp: loadPage_def g Let_def never_fails_def page_range_def split: option.splits prod.splits sum.splits if_splits)
      (metis sum.distinct(1))+
qed

section \<open>Reads\<close>

text \<open>
  What a read of \<open>n\<close> bytes at \<open>off\<close> may answer: the bytes of the file, or the first of them
  with an error, which needs a server that fails.
\<close>

definition answers :: "web_server \<Rightarrow> bytes \<Rightarrow> int \<Rightarrow> nat \<Rightarrow> bytes \<times> unit res \<Rightarrow> bool" where
  "answers srv data off n res \<longleftrightarrow>
     (if int (length data) \<le> off then res = ([], Inl io_EOF)
      else
        (let wanted = take n (drop (nat off) data)
         in res = (wanted, Inr ()) \<or> prefix (fst res) wanted \<and> (\<exists>m. snd res = Inl (GoErr m)) \<and> \<not> never_fails srv))"

lemma page_part_ok:
  assumes "0 \<le> off" "off + b \<le> int (length data)" "int (length out) < b" "0 \<le> k"
    and k: "k * PageSize \<le> off + int (length out)" "off + int (length out) < (k + 1) * PageSize"
  defines "stop \<equiv> min (off + b) ((k + 1) * PageSize)"
  shows "page_part off b k out (page_of data k) = Inr (between data (off + int (length out)) stop)"
    "page_of data k \<noteq> []" "int (length (page_of data k)) < PageSize \<Longrightarrow> stop = off + b"
proof -
  let ?pos = "off + int (length out)" and ?n = "int (length data)"
  have in_file: "k * PageSize < ?n" using assms(2,3) k(1) by linarith
  note len = length_page_of [OF assms(4) in_file]
  show "page_of data k \<noteq> []" using len in_file PageSize_pos by auto
  show "int (length (page_of data k)) < PageSize \<Longrightarrow> stop = off + b"
    using len assms(2) by (simp add: stop_def min_def algebra_simps split: if_splits)
  let ?c = "?pos - k * PageSize"
  have c: "0 \<le> ?c" using k by simp
  let ?cl = "if b < int (length out) + (int (length (page_of data k)) - ?c) then b - int (length out) else int (length (page_of data k)) - ?c"
  have cl: "?cl = stop - k * PageSize - ?c"
    using assms(2) unfolding len stop_def by (simp add: min_def algebra_simps)
  have nz: "(if ?c < 0 then 0 else ?c) = ?c" using c by simp
  have pos: "?pos < stop" using assms(3) k(2) by (simp add: stop_def)
  have end_in: "stop - k * PageSize \<le> int (length (page_of data k))"
    using assms(2) unfolding len stop_def by (simp add: min_def algebra_simps)
  have "slice (page_of data k) (nat ?c) (nat (stop - k * PageSize)) = between data (k * PageSize + ?c) (k * PageSize + (stop - k * PageSize))"
    unfolding page_of_def
    by (rule between_part) (use c assms(1-4) k PageSize_pos in \<open>auto simp: stop_def min_def\<close>)
  then show "page_part off b k out (page_of data k) = Inr (between data ?pos stop)"
    unfolding page_part_def Let_def nz cl using pos c end_in by simp
qed

lemma read_pages_ok:
  assumes L: "keyed_store (lru_get L) (lru_add L) held valid" and srv: "serves_ranges srv data"
    and r: "0 \<le> off" "off + b \<le> int (length data)"
  shows "cloud_ok held valid data c \<Longrightarrow> 0 \<le> k \<Longrightarrow> int (length out) < b \<Longrightarrow> out = between data off (off + int (length out)) \<Longrightarrow>
    k * PageSize \<le> off + int (length out) \<Longrightarrow> off + int (length out) < (k + 1) * PageSize \<Longrightarrow>
    \<exists>out' e c'. read_pages L srv off b [k..(off + b - 1) div PageSize] out c = ((out', e), c') \<and> cloud_ok held valid data c' \<and>
      crOffset c' = crOffset c \<and>
      (e = Inr () \<and> out' = between data off (off + b) \<or>
       (\<exists>j \<le> off + b. off \<le> j \<and> out' = between data off j) \<and> (\<exists>m. e = Inl (GoErr m)) \<and> \<not> never_fails srv)"
proof (induction "nat (b - int (length out))" arbitrary: k out c rule: less_induct)
  case less
  let ?pos = "off + int (length out)" and ?e = "(off + b - 1) div PageSize"
  define stop where "stop = min (off + b) ((k + 1) * PageSize)"
  have "k * PageSize div PageSize \<le> ?e" using less.prems(3,5) PageSize_pos by (intro zdiv_mono1) simp_all
  then have "k \<le> ?e" using PageSize_pos by simp
  then have pages: "[k..?e] = k # [k + 1..?e]" by (simp add: upto_rec1)
  have in_file: "k * PageSize < int (length data)" using less.prems(3,5) r(2) by linarith
  obtain res c' where load: "loadPage L srv k c = (res, c')" by fastforce
  note ok = loadPage_ok [OF L srv less.prems(1) load]
  show ?case
  proof (cases res)
    case (Inl e)
    then obtain m where e: "e = GoErr m" "e \<noteq> io_EOF" "\<not> never_fails srv" using ok(4) in_file by blast
    then have "read_pages L srv off b [k..?e] out c = ((out, Inl (GoErr (''remote: failed to fetch page: '' @ m))), c')"
      unfolding pages by (simp add: load Inl)
    moreover have "\<exists>j \<le> off + b. off \<le> j \<and> out = between data off j" using less.prems(3,4) by (intro exI [of _ ?pos]) simp
    ultimately show ?thesis using ok(1,2) e(3) by simp
  next
    case (Inr page)
    then have page: "page = page_of data k" using ok(3) less.prems(2) in_file by (simp add: page_good_def)
    note part = page_part_ok [OF r less.prems(3,2,5,6), folded stop_def]
    let ?part = "between data ?pos stop"
    have up: "?pos < stop" "stop \<le> off + b" using less.prems(3,6) by (simp_all add: stop_def)
    have len: "int (length ?part) = stop - ?pos" using up r by (intro length_between) simp_all
    then have len': "int (length (out @ ?part)) = stop - off" by simp
    have upto: "out @ ?part = between data off stop"
      using between_append [of off ?pos stop data] less.prems(4) up r(1) by simp
    have out: "out @ ?part = between data off (off + int (length (out @ ?part)))"
      unfolding len' using upto by simp
    have step: "read_pages L srv off b [k..?e] out c =
        (if stop = off + b then ((out @ ?part, Inr ()), c') else read_pages L srv off b [k + 1..?e] (out @ ?part) c')"
      unfolding pages using part(3) len' by (simp add: load Inr page part(1,2))
    show ?thesis
    proof (cases "stop = off + b")
      case True
      then show ?thesis using step ok(1,2) upto by simp
    next
      case False
      then have next_page: "stop = (k + 1) * PageSize" "(k + 1) * PageSize < off + b" by (auto simp: stop_def min_def split: if_splits)
      define acc where "acc = out @ ?part"
      have acc: "int (length acc) = stop - off" "acc = between data off (off + int (length acc))" unfolding acc_def by (rule len', rule out)
      have shorter: "nat (b - int (length acc)) < nat (b - int (length out))" "int (length acc) < b"
        using acc(1) up less.prems(3) False by simp_all
      have at: "0 \<le> k + 1" "(k + 1) * PageSize \<le> off + int (length acc)" "off + int (length acc) < (k + 1 + 1) * PageSize"
        using acc(1) next_page less.prems(2) PageSize_pos by (simp_all add: algebra_simps)
      note less.hyps [OF shorter(1) ok(1) at(1) shorter(2) acc(2) at(2,3), unfolded acc_def]
      then show ?thesis using step False ok(2) by simp
    qed
  qed
qed

lemma add64_small: "- (2 ^ 63) \<le> a + b \<Longrightarrow> a + b < 2 ^ 63 \<Longrightarrow> add64 a b = a + b"
  unfolding add64_def signed_of_int by (simp add: signed_take_bit_int_eq_self)

lemma sdiv_page: "0 \<le> a \<Longrightarrow> a sdiv PageSize = a div PageSize"
  using PageSize_pos by (simp add: signed_divide_int_def sgn_if abs_if)

lemma between_take: "0 \<le> off \<Longrightarrow> between data off (off + int n) = take n (drop (nat off) data)"
  by (simp add: between_def slice_def nat_add_distrib)

lemma Cloud_ReadAt_ok:
  assumes L: "keyed_store (lru_get L) (lru_add L) held valid" and srv: "serves_ranges srv data" and c: "cloud_ok held valid data c"
    and small: "length data < 2 ^ 62" "n < 2 ^ 62" "0 \<le> off"
  shows "\<exists>res ahead c'. Cloud_ReadAt L srv n off c = (res, ahead, c') \<and> cloud_ok held valid data c' \<and>
    crOffset c' = crOffset c \<and> answers srv data off n res"
proof -
  have crsize: "crSize c = int (length data)" using c by (simp add: cloud_ok_def)
  show ?thesis
  proof (cases "int (length data) \<le> off \<or> n = 0")
    case True
    then have "Cloud_ReadAt L srv n off c = ((if int (length data) \<le> off then ([], Inl io_EOF) else ([], Inr ())), [], c)"
      using small by (auto simp: Cloud_ReadAt_def crsize add64_small)
    then show ?thesis using c True by (auto simp: answers_def)
  next
    case False
    define b where "b = min (int n) (int (length data) - off)"
    have b: "0 < b" "off + b \<le> int (length data)" using False by (simp_all add: b_def)
    have want: "between data off (off + b) = take n (drop (nat off) data)"
    proof -
      have "b = int (min n (length data - nat off))" using False small(3) by (simp add: b_def min_def of_nat_diff) linarith
      then show ?thesis using small(3) by (simp only: between_take) (simp add: min_def)
    qed
    have sums: "add64 off (int n) = off + int n" "add64 off b = off + b" "add64 (off + b) (- 1) = off + b - 1"
      using False small b by (simp_all add: add64_small)
    have pages: "off sdiv PageSize = off div PageSize" "(off + b - 1) sdiv PageSize = (off + b - 1) div PageSize"
      using small(3) b(1) by (simp_all add: sdiv_page)
    have btr: "(if crSize c < add64 off (int n) then crSize c - off else int n) = b"
      unfolding sums crsize by (simp add: b_def min_def)
    have k: "0 \<le> off div PageSize" "off div PageSize * PageSize \<le> off" "off < (off div PageSize + 1) * PageSize"
    proof -
      have "off = off div PageSize * PageSize + off mod PageSize" by simp
      moreover have "0 \<le> off mod PageSize" "off mod PageSize < PageSize" using PageSize_pos by simp_all
      ultimately show "off div PageSize * PageSize \<le> off" "off < (off div PageSize + 1) * PageSize"
        unfolding distrib_right by linarith+
      show "0 \<le> off div PageSize" using small(3) PageSize_pos by (simp add: pos_imp_zdiv_nonneg_iff)
    qed
    have e: "[] = between data off (off + int (length []))" using small(3) by (simp add: between_def)
    obtain out e c' where run: "read_pages L srv off b [off div PageSize..(off + b - 1) div PageSize] [] c = ((out, e), c')"
      and ok: "cloud_ok held valid data c'" "crOffset c' = crOffset c"
      and res: "e = Inr () \<and> out = between data off (off + b) \<or>
        (\<exists>j \<le> off + b. off \<le> j \<and> out = between data off j) \<and> (\<exists>m. e = Inl (GoErr m)) \<and> \<not> never_fails srv"
      using read_pages_ok [OF L srv small(3) b(2) c k(1) _ e] k b(1) by auto
    have "between data off (off + b) \<noteq> []"
      using length_between [of off "off + b" data] b small(3) by auto
    then have ne: "e = Inr () \<Longrightarrow> out \<noteq> []" using res by auto
    have "prefix (between data off j) (take n (drop (nat off) data))" if "off \<le> j" "j \<le> off + b" for j
      unfolding want [symmetric] prefix_def using between_append [OF small(3) that, of data] by metis
    then have "answers srv data off n (out, e)"
      using res False unfolding answers_def want by (auto simp: Let_def)
    moreover have "Cloud_ReadAt L srv n off c =
        ((out, e), if e \<noteq> Inr () then [] else filter (\<lambda>ahead. ahead * PageSize < crSize c')
           (map (\<lambda>i. (off + b - 1) div PageSize + i) [1..PrefetchDepth]), c')"
    proof -
      have "\<not> crSize c \<le> off" "\<not> b \<le> 0" using False b(1) by (simp_all add: crsize)
      then show ?thesis
        unfolding Cloud_ReadAt_def Let_def unfolding btr unfolding sums pages run prod.case using ne by simp
    qed
    ultimately show ?thesis using ok by blast
  qed
qed

definition op_ok :: "cloud_op \<Rightarrow> bool" where
  "op_ok x = (case x of CReadAt n off \<Rightarrow> n < 2 ^ 62 \<and> 0 \<le> off | CRead n \<Rightarrow> n < 2 ^ 62 | CPrefetch p \<Rightarrow> True)"

text \<open>The answers of a history, from the position \<open>pos\<close> of the sequential reads.\<close>

fun history_answers :: "web_server \<Rightarrow> bytes \<Rightarrow> int \<Rightarrow> cloud_op list \<Rightarrow> (bytes \<times> unit res) list \<Rightarrow> bool" where
  "history_answers srv data pos [] rs = (rs = [])"
| "history_answers srv data pos (CReadAt n off # ops) rs =
     (case rs of [] \<Rightarrow> False | r # rs \<Rightarrow> answers srv data off n r \<and> history_answers srv data pos ops rs)"
| "history_answers srv data pos (CRead n # ops) rs =
     (case rs of [] \<Rightarrow> False
      | r # rs \<Rightarrow> answers srv data pos n r \<and> history_answers srv data (pos + int (length (fst r))) ops rs)"
| "history_answers srv data pos (CPrefetch p # ops) rs = history_answers srv data pos ops rs"

lemma cloud_run_ok:
  assumes L: "keyed_store (lru_get L) (lru_add L) held valid" and srv: "serves_ranges srv data" and small: "length data < 2 ^ 62"
  shows "cloud_ok held valid data c \<Longrightarrow> 0 \<le> crOffset c \<Longrightarrow> \<forall>x \<in> set ops. op_ok x \<Longrightarrow>
    history_answers srv data (crOffset c) ops (cloud_run L srv ops c)"
proof (induction ops arbitrary: c)
  case (Cons x ops)
  show ?case
  proof (cases x)
    case (CReadAt n off)
    then have "n < 2 ^ 62" "0 \<le> off" using Cons.prems(3) by (auto simp: op_ok_def)
    from Cloud_ReadAt_ok [OF L srv Cons.prems(1) small this]
    obtain res ahead c' where "Cloud_ReadAt L srv n off c = (res, ahead, c')" "cloud_ok held valid data c'" "crOffset c' = crOffset c"
      "answers srv data off n res" by blast
    then show ?thesis using Cons.IH [of c'] Cons.prems CReadAt by simp
  next
    case (CRead n)
    then have "n < 2 ^ 62" using Cons.prems(3) by (auto simp: op_ok_def)
    from Cloud_ReadAt_ok [OF L srv Cons.prems(1) small this Cons.prems(2)]
    obtain res ahead c' where r: "Cloud_ReadAt L srv n (crOffset c) c = (res, ahead, c')" "cloud_ok held valid data c'"
      "crOffset c' = crOffset c" "answers srv data (crOffset c) n res" by blast
    let ?c = "c'\<lparr>crOffset := crOffset c' + int (length (fst res))\<rparr>"
    have "cloud_ok held valid data ?c" using r(2) by (simp add: cloud_ok_def)
    then show ?thesis using Cons.IH [of ?c] Cons.prems CRead r by (simp add: Cloud_Read_def)
  next
    case (CPrefetch p)
    obtain r c' where l: "loadPage L srv p c = (r, c')" by fastforce
    from loadPage_ok(1,2) [OF L srv Cons.prems(1) l] show ?thesis
      using Cons.IH [of c'] Cons.prems CPrefetch l by (simp add: prefetchPhantom_def)
  qed
qed simp

section \<open>Properties\<close>

text \<open>
  C13. A file on a server that honours ranges reads as the file: in every history of reads by
  position, reads in sequence and pages loaded ahead, each answer is the bytes asked for (short
  only at the end of the file, \<open>io.EOF\<close> at and beyond it), or the first of them with an error
  that the server caused, whatever the cache evicts.
\<close>

theorem cloud_reads_file:
  assumes "keyed_store (lru_get L) (lru_add L) held valid" "valid (lru_new L)" "held (lru_new L) = Map.empty"
    and "serves_ranges srv data" "length data < 2 ^ 62" "\<forall>x \<in> set ops. op_ok x"
    and "NewCloudReader L (Some (200, int (length data))) = Inr c"
  shows "history_answers srv data 0 ops (cloud_run L srv ops c)"
proof -
  have c: "c = \<lparr>crOffset = 0, crSize = int (length data), crCache = lru_new L, crRequests = 0\<rparr>"
    using assms(7) by (simp add: NewCloudReader_def split: if_splits)
  then have "cloud_ok held valid data c"
    using assms(2,3) by (simp add: cloud_ok_def keyed_store.holds_def [OF assms(1)])
  from cloud_run_ok [OF assms(1,4,5) this _ assms(6)] show ?thesis by (simp add: c)
qed

text \<open>A cache that never evicts, and a server.\<close>

definition map_lru :: "(int \<rightharpoonup> bytes) lru" where
  "map_lru = \<lparr>lru_new = Map.empty, lru_get = (\<lambda>k c. (c k, c)), lru_add = (\<lambda>k v c. c(k \<mapsto> v))\<rparr>"

lemma map_lru_store: "keyed_store (lru_get map_lru) (lru_add map_lru) (\<lambda>c. c) (\<lambda>_. True)"
  by unfold_locales (simp_all add: map_lru_def)

definition range_server :: "bytes \<Rightarrow> web_server" where
  "range_server data n i j = HttpReply 206 (between data i (j + 1)) BodyEOF"

definition sample_pages :: bytes where
  "sample_pages = replicate 262144 1 @ [2, 3]"

lemma length_sample_pages: "length sample_pages = 262146"
  by (simp add: sample_pages_def)

theorem cloud_reads_file_witness:
  "\<exists>c. NewCloudReader map_lru (Some (200, 262146)) = Inr c \<and>
    map fst (cloud_run map_lru (range_server sample_pages) [CReadAt 5 262143, CPrefetch 1, CRead 2] c) = [[1, 2, 3], [1, 1]]"
proof -
  obtain c where c: "NewCloudReader map_lru (Some (200, int (length sample_pages))) = Inr c"
    by (simp add: NewCloudReader_def length_sample_pages)
  have s: "serves_ranges (range_server sample_pages) sample_pages" and never: "never_fails (range_server sample_pages)"
    by (auto simp: serves_ranges_def never_fails_def range_server_def page_reply_def)
  have v: "(\<lambda>_. True) (lru_new map_lru)" "(\<lambda>c. c) (lru_new map_lru) = Map.empty" by (simp_all add: map_lru_def)
  have l: "length sample_pages < 2 ^ 62" "\<forall>x \<in> set [CReadAt 5 262143, CPrefetch 1, CRead 2]. op_ok x"
    by (simp_all add: length_sample_pages op_ok_def)
  have w: "take 5 (drop 262143 sample_pages) = [1, 2, 3]" "take 2 (drop 0 sample_pages) = [1, 1]"
    by (simp_all add: sample_pages_def numeral_eq_Suc [of "num.Bit0 num.One"])
  from cloud_reads_file [where held = "\<lambda>c. c" and valid = "\<lambda>_. True", OF map_lru_store v s l c]
  have "map fst (cloud_run map_lru (range_server sample_pages) [CReadAt 5 262143, CPrefetch 1, CRead 2] c) = [[1, 2, 3], [1, 1]]"
    using never w by (auto simp: answers_def length_sample_pages split: list.splits)
  with c show ?thesis by (simp add: length_sample_pages)
qed

text \<open>
  C15. The reader trusts the body of a reply: within a page that is not cached, it serves the
  bytes of whatever body an accepted reply has, counted from the start of the page, and panics
  when the body ends before the position. A server that ignores the range and answers with the
  whole file makes it serve the start of the file in place of every page, and a connection cut
  early makes it panic.
\<close>

theorem cloud_trusts_body:
  assumes "lru_get L k (crCache c) = (None, cache)" "page_range (crSize c) k = Some (i, j)"
    and "page_reply (srv (crRequests c) i j) = Inr body" "body \<noteq> []" "crSize c < 2 ^ 62"
    and "0 \<le> k" "k * PageSize \<le> off" "off + int n \<le> (k + 1) * PageSize" "off + int n \<le> crSize c" "0 < n"
  shows "fst (Cloud_ReadAt L srv n off c) =
    (if int (length body) < off - k * PageSize then ([], Inl GoPanic)
     else if int (length body) = off - k * PageSize then ([], Inl io_EOF)
     else (take n (drop (nat (off - k * PageSize)) body), Inr ()))"
proof -
  let ?s = "off - k * PageSize"
  have s: "0 \<le> off" "0 \<le> ?s" "?s + int n \<le> PageSize"
    using assms(6-8) PageSize_pos by (simp_all add: algebra_simps) (meson order_trans zero_le_mult_iff less_imp_le)
  have sums: "add64 off (int n) = off + int n" "add64 (off + int n) (- 1) = off + int n - 1"
    using assms(5,9,10) s(1) by (simp_all add: add64_small)
  have "off div PageSize = k" "(off + int n - 1) div PageSize = k"
    using s(2,3) assms(10)
    by (intro int_div_pos_eq [where r = ?s] int_div_pos_eq [where r = "?s + int n - 1"]; simp)+
  then have pages: "off sdiv PageSize = k" "(off + int n - 1) sdiv PageSize = k"
    using s(1) assms(10) by (simp_all add: sdiv_page)
  have load: "\<exists>c'. loadPage L srv k c = (Inr body, c') \<and> crSize c' = crSize c"
    using assms(1-3) by (simp add: loadPage_def)
  then obtain c' where c': "loadPage L srv k c = (Inr body, c')" by blast
  have btr: "(if crSize c < add64 off (int n) then crSize c - off else int n) = int n" "\<not> crSize c \<le> off" "\<not> int n \<le> 0"
    using assms(9,10) by (simp_all add: sums)
  have part: "page_part off (int n) k [] body =
      (if int (length body) < ?s then Inl GoPanic else Inr (take n (drop (nat ?s) body)))"
  proof (cases "int (length body) < ?s")
    case False
    then have "drop (nat ?s) body = slice body (nat ?s) (length body)" by (simp add: slice_def)
    with False s(2) show ?thesis
      by (auto simp: page_part_def Let_def slice_def nat_add_distrib)
  qed (use s(2) in \<open>simp add: page_part_def Let_def\<close>)
  have "take n (drop (nat ?s) body) = [] \<longleftrightarrow> int (length body) \<le> ?s" using assms(10) s(2) by auto
  then show ?thesis
    unfolding Cloud_ReadAt_def Let_def unfolding btr unfolding sums pages using btr(2,3) assms(4)
    by (auto simp: c' part)
qed

theorem cloud_trusts_body_witness:
  "let c = \<lparr>crOffset = 0, crSize = 262146, crCache = Map.empty, crRequests = 0\<rparr> in
   fst (Cloud_ReadAt map_lru (\<lambda>_ _ _. HttpReply 200 sample_pages BodyEOF) 1 262144 c) = ([1], Inr ()) \<and>
   fst (Cloud_ReadAt map_lru (\<lambda>_ _ _. HttpReply 206 [1, 1] BodyShort) 2 7 c) = ([], Inl GoPanic) \<and>
   take 1 (drop 262144 sample_pages) = [2]"
proof -
  let ?c = "\<lparr>crOffset = 0, crSize = 262146, crCache = Map.empty, crRequests = 0\<rparr> :: (int \<rightharpoonup> bytes) CloudReader"
  have g: "lru_get map_lru k (crCache ?c) = (None, Map.empty)" for k by (simp add: map_lru_def)
  have p: "page_range (crSize ?c) 1 = Some (262144, 262145)" "page_range (crSize ?c) 0 = Some (0, 262143)"
    by (simp_all add: page_range_def PageSize_def)
  have r: "page_reply (HttpReply 200 sample_pages BodyEOF) = Inr sample_pages" "page_reply (HttpReply 206 [1, 1] BodyShort) = Inr [1, 1]"
    by (simp_all add: page_reply_def)
  have ne: "sample_pages \<noteq> []" by (simp add: sample_pages_def)
  have "fst (Cloud_ReadAt map_lru (\<lambda>_ _ _. HttpReply 200 sample_pages BodyEOF) 1 262144 ?c) = (take 1 sample_pages, Inr ())"
    using cloud_trusts_body [where off = 262144 and n = 1, OF g p(1) r(1) ne] by (simp add: PageSize_def length_sample_pages)
  moreover have "take 1 sample_pages = [1]" by (simp add: sample_pages_def numeral_eq_Suc [of "num.Bit0 num.One"])
  moreover have "take 1 (drop 262144 sample_pages) = [2]" by (simp add: sample_pages_def)
  moreover have "fst (Cloud_ReadAt map_lru (\<lambda>_ _ _. HttpReply 206 [1, 1] BodyShort) 2 7 ?c) = ([], Inl GoPanic)"
    using cloud_trusts_body [where off = 7 and n = 2, OF g p(2) r(2)] by (simp add: PageSize_def)
  ultimately show ?thesis by simp
qed

end
