(* ===== verification/Remote_Race.thy ===== *)
theory Remote_Race
  imports Remote_Reader
begin

text \<open>
  Pages of \<^verbatim>\<open>internal/remote/cloud.go\<close> loaded by several goroutines at once (the reader, and those
  that load ahead). A goroutine in \<open>loadPage\<close> is at one of the points between its accesses to the
  shared state: the cache, the map of downloads in flight, and the channels it waits on. A
  channel is named by the goroutine that made it. The cache may lose pages at any time.
\<close>

section \<open>The goroutines\<close>

datatype load_phase =
    LStart int | LRegister int | LWait int nat | LAgain int | LFetch int bool | LStore int bool bytes
  | LDelete int "bytes res" | LClose int "bytes res" | LDone int "bytes res"

record LoadSystem =
  lsThreads :: "load_phase list"
  lsCache :: "int \<rightharpoonup> bytes"
  lsInFlight :: "int \<rightharpoonup> nat"
  lsClosed :: "nat set"
  lsRequests :: nat

definition fetch_page :: "web_server \<Rightarrow> int \<Rightarrow> nat \<Rightarrow> int \<Rightarrow> bytes res" where
  "fetch_page srv crsize n pageNum =
     (case page_range crsize pageNum of None \<Rightarrow> Inl io_EOF | Some (i, j) \<Rightarrow> page_reply (srv n i j))"

text \<open>The one that registered the download cleans up behind it, whatever the outcome.\<close>

definition leave_load :: "bool \<Rightarrow> int \<Rightarrow> bytes res \<Rightarrow> load_phase" where
  "leave_load own p r = (if own then LDelete p r else LDone p r)"

definition load_act :: "web_server \<Rightarrow> int \<Rightarrow> nat \<Rightarrow> LoadSystem \<Rightarrow> LoadSystem option" where
  "load_act srv crsize t s =
     (let goto = (\<lambda>ph. s\<lparr>lsThreads := (lsThreads s)[t := ph]\<rparr>) in
      case lsThreads s ! t of
        LStart p \<Rightarrow>
          Some (case lsCache s p of Some d \<Rightarrow> goto (LDone p (Inr d)) | None \<Rightarrow> goto (LRegister p))
      | LRegister p \<Rightarrow>
          Some (case lsInFlight s p of
                  Some ch \<Rightarrow> goto (LWait p ch)
                | None \<Rightarrow> (goto (LFetch p True))\<lparr>lsInFlight := (lsInFlight s)(p \<mapsto> t)\<rparr>)
      | LWait p ch \<Rightarrow> if ch \<in> lsClosed s then Some (goto (LAgain p)) else None
      | LAgain p \<Rightarrow>
          Some (case lsCache s p of Some d \<Rightarrow> goto (LDone p (Inr d)) | None \<Rightarrow> goto (LFetch p False))
      | LFetch p own \<Rightarrow>
          Some ((case fetch_page srv crsize (lsRequests s) p of
                   Inl e \<Rightarrow> goto (leave_load own p (Inl e))
                 | Inr d \<Rightarrow> goto (LStore p own d))\<lparr>lsRequests := lsRequests s + 1\<rparr>)
      | LStore p own d \<Rightarrow> Some ((goto (leave_load own p (Inr d)))\<lparr>lsCache := (lsCache s)(p \<mapsto> d)\<rparr>)
      | LDelete p r \<Rightarrow> Some ((goto (LClose p r))\<lparr>lsInFlight := (lsInFlight s)(p := None)\<rparr>)
      | LClose p r \<Rightarrow> Some ((goto (LDone p r))\<lparr>lsClosed := insert t (lsClosed s)\<rparr>)
      | LDone p r \<Rightarrow> None)"

definition load_start :: "int list \<Rightarrow> (int \<rightharpoonup> bytes) \<Rightarrow> LoadSystem" where
  "load_start pages cache =
     \<lparr>lsThreads = map LStart pages, lsCache = cache, lsInFlight = Map.empty, lsClosed = {}, lsRequests = 0\<rparr>"

inductive load_reach :: "web_server \<Rightarrow> int \<Rightarrow> int list \<Rightarrow> (int \<rightharpoonup> bytes) \<Rightarrow> LoadSystem \<Rightarrow> bool"
  for srv crsize pages cache where
  load_begin: "load_reach srv crsize pages cache (load_start pages cache)"
| load_thread: "load_reach srv crsize pages cache s \<Longrightarrow> t < length (lsThreads s) \<Longrightarrow> load_act srv crsize t s = Some s' \<Longrightarrow>
    load_reach srv crsize pages cache s'"
| load_evict: "load_reach srv crsize pages cache s \<Longrightarrow>
    load_reach srv crsize pages cache (s\<lparr>lsCache := (lsCache s)(p := None)\<rparr>)"

section \<open>The invariant\<close>

text \<open>The page a goroutine is the registered loader of, and how far it has to go.\<close>

fun loads :: "load_phase \<Rightarrow> int option" where
  "loads (LFetch p own) = (if own then Some p else None)"
| "loads (LStore p own d) = (if own then Some p else None)"
| "loads (LDelete p r) = Some p"
| "loads _ = None"

fun load_page :: "load_phase \<Rightarrow> int" where
  "load_page (LStart p) = p" | "load_page (LRegister p) = p" | "load_page (LWait p ch) = p" | "load_page (LAgain p) = p"
| "load_page (LFetch p own) = p" | "load_page (LStore p own d) = p" | "load_page (LDelete p r) = p"
| "load_page (LClose p r) = p" | "load_page (LDone p r) = p"

fun load_rank :: "load_phase \<Rightarrow> nat" where
  "load_rank (LStart p) = 8" | "load_rank (LRegister p) = 7" | "load_rank (LWait p ch) = 6" | "load_rank (LAgain p) = 5"
| "load_rank (LFetch p own) = 4" | "load_rank (LStore p own d) = 3" | "load_rank (LDelete p r) = 2"
| "load_rank (LClose p r) = 1" | "load_rank (LDone p r) = 0"

definition load_left :: "LoadSystem \<Rightarrow> nat" where
  "load_left s = sum_list (map load_rank (lsThreads s))"

fun closing :: "load_phase \<Rightarrow> bool" where
  "closing (LClose p r) = True" | "closing _ = False"

text \<open>
  The map of downloads lists exactly the registered loaders, and a goroutine that waits does so
  on the channel of a loader that is still at work or has closed it.
\<close>

definition load_inv :: "LoadSystem \<Rightarrow> bool" where
  "load_inv s \<longleftrightarrow>
     (\<forall>p t. lsInFlight s p = Some t \<longleftrightarrow> t < length (lsThreads s) \<and> loads (lsThreads s ! t) = Some p) \<and>
     (\<forall>t p ch. t < length (lsThreads s) \<longrightarrow> lsThreads s ! t = LWait p ch \<longrightarrow>
        ch < length (lsThreads s) \<and> (loads (lsThreads s ! ch) \<noteq> None \<or> closing (lsThreads s ! ch) \<or> ch \<in> lsClosed s))"

lemma load_act_step:
  assumes "load_act srv crsize t s = Some s'" "t < length (lsThreads s)"
  defines "old \<equiv> lsThreads s ! t" and "new \<equiv> lsThreads s' ! t"
  shows "lsThreads s' = (lsThreads s)[t := new]" "load_rank new < load_rank old" "load_page new = load_page old"
    "lsClosed s \<subseteq> lsClosed s'" "new = LWait p ch \<Longrightarrow> lsInFlight s p = Some ch"
    "loads old \<noteq> None \<Longrightarrow> loads new \<noteq> None \<or> closing new" "closing old \<Longrightarrow> t \<in> lsClosed s'"
    "lsInFlight s' = (if loads new = loads old then lsInFlight s
       else if loads new = None then (lsInFlight s)(load_page new := None) else (lsInFlight s)(load_page new \<mapsto> t))"
    "loads new \<noteq> None \<Longrightarrow> loads old = None \<Longrightarrow> lsInFlight s (load_page new) = None"
  using assms
  by (cases "lsThreads s ! t"; auto simp: load_act_def leave_load_def Let_def split: option.splits sum.splits if_splits)+

lemma loads_page: "loads ph = Some p \<Longrightarrow> p = load_page ph"
  by (cases ph) (auto split: if_splits)

lemma load_inv_start: "load_inv (load_start pages cache)"
  by (simp add: load_inv_def load_start_def)

lemma load_inv_step:
  assumes "load_inv s" "load_act srv crsize t s = Some s'" "t < length (lsThreads s)"
  shows "load_inv s'"
proof -
  let ?old = "lsThreads s ! t" and ?new = "lsThreads s' ! t" and ?n = "length (lsThreads s)"
  note st = load_act_step [OF assms(2,3)]
  have flight: "lsInFlight s p = Some u \<longleftrightarrow> u < ?n \<and> loads (lsThreads s ! u) = Some p" for p u
    using assms(1) by (simp add: load_inv_def)
  have waits: "ch < ?n \<and> (loads (lsThreads s ! ch) \<noteq> None \<or> closing (lsThreads s ! ch) \<or> ch \<in> lsClosed s)"
    if "u < ?n" "lsThreads s ! u = LWait p ch" for u p ch
    using assms(1) that by (auto simp: load_inv_def)
  have nth: "lsThreads s' ! u = (if u = t then ?new else lsThreads s ! u)" if "u < ?n" for u
    by (subst st(1)) (use that in simp)
  have len: "length (lsThreads s') = ?n" by (subst st(1)) simp
  have kept: "loads (lsThreads s' ! ch) \<noteq> None \<or> closing (lsThreads s' ! ch) \<or> ch \<in> lsClosed s'"
    if "ch < ?n" "loads (lsThreads s ! ch) \<noteq> None \<or> closing (lsThreads s ! ch) \<or> ch \<in> lsClosed s" for ch
    using that st(4,6,7) nth [OF that(1)] by (cases "ch = t") auto
  have "lsInFlight s' p = Some u \<longleftrightarrow> u < ?n \<and> loads (lsThreads s' ! u) = Some p" for p u
  proof -
    have t: "lsInFlight s q = Some t \<longleftrightarrow> loads ?old = Some q" for q using flight assms(3) by simp
    consider "loads ?new = loads ?old" | "loads ?new = None" "loads ?old = Some (load_page ?new)"
      | "loads ?new = Some (load_page ?new)" "loads ?old = None"
      using loads_page [of ?old] loads_page [of ?new] st(3) by (cases "loads ?old"; cases "loads ?new") auto
    then show ?thesis
    proof cases
      case 1
      then show ?thesis using flight [of p u] nth [of u] st(8) by (cases "u = t") auto
    next
      case 2
      then have "lsInFlight s (load_page ?new) = Some t" using t by simp
      with 2 show ?thesis using flight [of p u] nth [of u] st(8) t by (cases "u = t"; cases "p = load_page ?new") auto
    next
      case 3
      then have "lsInFlight s (load_page ?new) = None" using st(9) by simp
      then have "loads (lsThreads s ! u) \<noteq> Some (load_page ?new)" if "u < ?n" using flight that by (metis option.distinct(1))
      with 3 show ?thesis using flight [of p u] nth [of u] st(8) assms(3)
        by (cases "u = t"; cases "p = load_page ?new") auto
    qed
  qed
  moreover have "ch < ?n \<and> (loads (lsThreads s' ! ch) \<noteq> None \<or> closing (lsThreads s' ! ch) \<or> ch \<in> lsClosed s')"
    if "u < ?n" "lsThreads s' ! u = LWait p ch" for u p ch
  proof (cases "u = t")
    case True
    then have "lsInFlight s p = Some ch" using st(5) that(2) by simp
    then have "ch < ?n" "loads (lsThreads s ! ch) \<noteq> None" using flight by auto
    then show ?thesis using kept by blast
  next
    case False
    then show ?thesis using waits [of u p ch] that nth [of u] kept by auto
  qed
  ultimately show ?thesis unfolding load_inv_def len by blast
qed


lemma load_reach_inv: "load_reach srv crsize pages cache s \<Longrightarrow> load_inv s"
proof (induction rule: load_reach.induct)
  case (load_thread s t s')
  then show ?case using load_inv_step by blast
next
  case (load_evict s p)
  then show ?case by (simp add: load_inv_def)
qed (rule load_inv_start)

lemma load_act_left:
  assumes "load_act srv crsize t s = Some s'" "t < length (lsThreads s)"
  shows "load_left s' < load_left s"
proof -
  note st = load_act_step [OF assms]
  have "sum_list ((map load_rank (lsThreads s))[t := load_rank (lsThreads s' ! t)]) < sum_list (map load_rank (lsThreads s))"
    using assms(2) st(2) elem_le_sum_list [of t "map load_rank (lsThreads s)"] by (simp add: sum_list_update)
  then show ?thesis by (subst load_left_def, subst st(1)) (simp add: load_left_def map_update)
qed

text \<open>Somebody can always go on: a waiter has its channel closed, or the loader behind it can act.\<close>

lemma load_progress:
  assumes "load_inv s" "t < length (lsThreads s)" "load_rank (lsThreads s ! t) \<noteq> 0"
  shows "\<exists>u s'. u < length (lsThreads s) \<and> load_act srv crsize u s = Some s'"
proof -
  have go: "load_act srv crsize u s \<noteq> None" if "load_rank (lsThreads s ! u) \<noteq> 0" "\<forall>p ch. lsThreads s ! u \<noteq> LWait p ch" for u
    using that by (cases "lsThreads s ! u") (auto simp: load_act_def Let_def)
  show ?thesis
  proof (cases "\<exists>p ch. lsThreads s ! t = LWait p ch \<and> ch \<notin> lsClosed s")
    case False
    then have "load_act srv crsize t s \<noteq> None"
      using go [OF assms(3)] by (cases "lsThreads s ! t") (auto simp: load_act_def Let_def)
    then show ?thesis using assms(2) by blast
  next
    case True
    then obtain ch where ch: "ch < length (lsThreads s)" "loads (lsThreads s ! ch) \<noteq> None \<or> closing (lsThreads s ! ch)"
      using assms(1,2) unfolding load_inv_def by blast
    then have "load_act srv crsize ch s \<noteq> None" by (intro go) (cases "lsThreads s ! ch"; auto)+
    then show ?thesis using ch(1) by blast
  qed
qed

text \<open>With a server of the file, every page that is cached or handed out is a page of the file.\<close>

text \<open>The page a goroutine has in hand.\<close>

definition in_hand :: "int \<Rightarrow> bytes res \<Rightarrow> (int \<times> bytes) option" where
  "in_hand p r = (case r of Inl e \<Rightarrow> None | Inr d \<Rightarrow> Some (p, d))"

lemma in_hand_simps [simp]: "in_hand p (Inl e) = None" "in_hand p (Inr d) = Some (p, d)"
  by (simp_all add: in_hand_def)

fun carries :: "load_phase \<Rightarrow> (int \<times> bytes) option" where
  "carries (LStore p own d) = Some (p, d)"
| "carries (LDelete p r) = in_hand p r" | "carries (LClose p r) = in_hand p r" | "carries (LDone p r) = in_hand p r"
| "carries _ = None"

definition pages_good :: "bytes \<Rightarrow> LoadSystem \<Rightarrow> bool" where
  "pages_good data s \<longleftrightarrow>
     (\<forall>p d. lsCache s p = Some d \<longrightarrow> page_good data p d) \<and>
     (\<forall>ph \<in> set (lsThreads s). \<forall>p d. carries ph = Some (p, d) \<longrightarrow> page_good data p d)"

lemma load_act_pages:
  assumes "load_act srv crsize t s = Some s'" "t < length (lsThreads s)"
  shows "carries (lsThreads s' ! t) \<in> {None, carries (lsThreads s ! t)} \<or>
      (\<exists>p d. carries (lsThreads s' ! t) = Some (p, d) \<and> (lsCache s p = Some d \<or> fetch_page srv crsize (lsRequests s) p = Inr d))"
    "lsCache s' = lsCache s \<or> (\<exists>p d. carries (lsThreads s ! t) = Some (p, d) \<and> lsCache s' = (lsCache s)(p \<mapsto> d))"
  using assms
  by (cases "lsThreads s ! t"; simp add: load_act_def leave_load_def Let_def split: option.splits sum.splits if_splits; auto)+

lemma pages_good_step:
  assumes "serves_ranges srv data" "pages_good data s" "load_act srv (int (length data)) t s = Some s'" "t < length (lsThreads s)"
  shows "pages_good data s'"
proof -
  have fetched: "page_good data p d" if "fetch_page srv (int (length data)) n p = Inr d" for n p d
    using that page_reply_good [OF assms(1)] by (auto simp: fetch_page_def split: option.splits prod.splits)
  have cache: "page_good data p d" if "lsCache s p = Some d" for p d using assms(2) that by (simp add: pages_good_def)
  have hand: "page_good data p d" if "carries ph = Some (p, d)" "ph \<in> set (lsThreads s)" for ph p d
    using assms(2) that by (auto simp: pages_good_def)
  have old: "lsThreads s ! t \<in> set (lsThreads s)" using assms(4) by simp
  have new: "page_good data p d" if "carries (lsThreads s' ! t) = Some (p, d)" for p d
    using load_act_pages(1) [OF assms(3,4)] that fetched cache hand [OF _ old] by auto
  have sub: "set (lsThreads s') \<subseteq> insert (lsThreads s' ! t) (set (lsThreads s))"
    using set_update_subset_insert by (subst load_act_step(1) [OF assms(3,4)])
  have "page_good data p d" if "lsCache s' p = Some d" for p d
    using load_act_pages(2) [OF assms(3,4)] that cache hand [OF _ old] by (auto split: if_splits)
  moreover have "page_good data p d" if "ph \<in> set (lsThreads s')" "carries ph = Some (p, d)" for ph p d
    using sub that new hand by blast
  ultimately show ?thesis by (simp add: pages_good_def)
qed

section \<open>Properties\<close>

text \<open>
  C14. Goroutines that load pages at once do not get in each other's way: at any moment at most
  one of them is the registered loader of a page; as long as one has not finished, one can go
  on, whichever have failed and whatever the cache has lost; and every step brings the end
  nearer, so all of them finish, with pages of the file when the server honours ranges.
\<close>

theorem page_loads_finish:
  assumes "load_reach srv crsize pages cache s"
  shows "(\<forall>t u p. t < length (lsThreads s) \<longrightarrow> u < length (lsThreads s) \<longrightarrow>
        loads (lsThreads s ! t) = Some p \<longrightarrow> loads (lsThreads s ! u) = Some p \<longrightarrow> t = u) \<and>
    ((\<exists>t < length (lsThreads s). \<forall>p r. lsThreads s ! t \<noteq> LDone p r) \<longrightarrow>
        (\<exists>t s'. t < length (lsThreads s) \<and> load_act srv crsize t s = Some s')) \<and>
    (\<forall>t s'. t < length (lsThreads s) \<longrightarrow> load_act srv crsize t s = Some s' \<longrightarrow> load_left s' < load_left s) \<and>
    (\<forall>data p d. crsize = int (length data) \<longrightarrow> serves_ranges srv data \<longrightarrow> (\<forall>p d. cache p = Some d \<longrightarrow> page_good data p d) \<longrightarrow>
        LDone p (Inr d) \<in> set (lsThreads s) \<longrightarrow> page_good data p d)"
proof -
  note inv = load_reach_inv [OF assms]
  have flight: "lsInFlight s p = Some u \<longleftrightarrow> u < length (lsThreads s) \<and> loads (lsThreads s ! u) = Some p" for p u
    using inv by (simp add: load_inv_def)
  have rank: "load_rank ph \<noteq> 0" if "\<forall>p r. ph \<noteq> LDone p r" for ph using that by (cases ph) auto
  have good: "pages_good data s"
    if "crsize = int (length data)" "serves_ranges srv data" "\<forall>p d. cache p = Some d \<longrightarrow> page_good data p d" for data
    using assms
  proof (induction rule: load_reach.induct)
    case load_begin
    show ?case using that(3) by (auto simp: pages_good_def load_start_def)
  next
    case (load_thread s t s')
    then show ?case using pages_good_step [OF that(2)] that(1) by blast
  next
    case (load_evict s p)
    then show ?case by (auto simp: pages_good_def)
  qed
  have once: "t = u" if "t < length (lsThreads s)" "u < length (lsThreads s)" "loads (lsThreads s ! t) = Some p" "loads (lsThreads s ! u) = Some p" for t u p
    using flight [of p t] flight [of p u] that by simp
  have page: "page_good data p d"
    if "crsize = int (length data)" "serves_ranges srv data" "\<forall>p d. cache p = Some d \<longrightarrow> page_good data p d"
      "LDone p (Inr d) \<in> set (lsThreads s)" for data p d
    using good [OF that(1-3)] that(4) by (force simp: pages_good_def)
  show ?thesis
    using once load_progress [OF inv] rank load_act_left page by (intro conjI allI impI) blast+
qed

text \<open>Two goroutines want the same page: one loads it, the other waits for it.\<close>

fun load_acts :: "web_server \<Rightarrow> int \<Rightarrow> nat list \<Rightarrow> LoadSystem \<Rightarrow> LoadSystem option" where
  "load_acts srv crsize [] s = Some s"
| "load_acts srv crsize (t # ts) s =
     (if t < length (lsThreads s) then Option.bind (load_act srv crsize t s) (load_acts srv crsize ts) else None)"

lemma load_acts_reach:
  "load_reach srv crsize pages cache s \<Longrightarrow> load_acts srv crsize ts s = Some s' \<Longrightarrow> load_reach srv crsize pages cache s'"
proof (induction ts arbitrary: s)
  case (Cons t ts)
  then obtain s1 where "t < length (lsThreads s)" "load_act srv crsize t s = Some s1" "load_acts srv crsize ts s1 = Some s'"
    by (auto simp: bind_eq_Some_conv split: if_splits)
  then show ?case using Cons.IH load_thread [OF Cons.prems(1)] by blast
qed simp

theorem page_loads_finish_witness:
  "\<exists>s s'. load_acts (range_server [1, 2]) 2 [0, 1, 0, 1] (load_start [0, 0] Map.empty) = Some s \<and>
    lsThreads s = [LFetch 0 True, LWait 0 0] \<and>
    load_acts (range_server [1, 2]) 2 [0, 0, 0, 0, 1, 1] s = Some s' \<and>
    (\<forall>r \<in> set (lsThreads s'). r = LDone 0 (Inr [1, 2])) \<and> page_of [1, 2] 0 = [1, 2]"
proof -
  let ?srv = "range_server [1, 2]" and ?s = "\<lparr>lsThreads = [LFetch 0 True, LWait 0 0], lsCache = Map.empty, lsInFlight = [0 \<mapsto> 0],
    lsClosed = {}, lsRequests = 0\<rparr>"
  let ?s' = "\<lparr>lsThreads = [LDone 0 (Inr [1, 2]), LDone 0 (Inr [1, 2])], lsCache = [0 \<mapsto> [1, 2]], lsInFlight = Map.empty,
    lsClosed = {0}, lsRequests = 1\<rparr>"
  have f: "fetch_page ?srv 2 0 0 = Inr [1, 2]"
    by (simp add: fetch_page_def page_range_def PageSize_def range_server_def page_reply_def between_def slice_def)
  have a: "load_acts ?srv 2 [0, 1, 0, 1] (load_start [0, 0] Map.empty) = Some ?s"
    by (simp add: load_act_def load_start_def Let_def)
  have b: "load_acts ?srv 2 [0, 0, 0, 0, 1, 1] ?s = Some ?s'"
    using f by (auto simp: load_act_def leave_load_def Let_def)
  have r: "load_reach ?srv 2 [0, 0] Map.empty ?s'"
    using load_acts_reach [OF load_acts_reach [OF load_begin a] b] .
  have srv: "serves_ranges ?srv [1, 2]" by (auto simp: serves_ranges_def range_server_def page_reply_def)
  have "page_good [1, 2] 0 [1, 2]" using page_loads_finish [OF r] srv by simp
  then have "page_of [1, 2] 0 = [1, 2]" by (simp add: page_good_def)
  with a b show ?thesis by (intro exI [of _ ?s] exI [of _ ?s'] conjI) simp_all
qed

end
