(* ===== verification/Sync_Session.thy ===== *)
theory Sync_Session
  imports Sync_Protocol
begin

text \<open>
  Synchronisation from end to end: what a session with an honest node achieves, what a session
  with any other peer cannot do, which files a node gives away, and where the protocol falls short.
\<close>

section \<open>The difference of two manifests\<close>

text \<open>What a chunk of a packed file is, apart from where it is stored: its codeword and its residual.\<close>

definition chunk_content :: "item \<Rightarrow> u64 \<times> bytes" where
  "chunk_content it = (case it of (e, rs, c) \<Rightarrow> (CodebookID e, rs))"

lemma chunkKey_content:
  assumes "inj_on xx (residuals_of its \<union> residuals_of lits)" "it \<in> set its"
  shows "chunkKey (manifest_entry xx it) \<in> chunkKey ` manifest_entry xx ` set lits \<longleftrightarrow>
    chunk_content it \<in> chunk_content ` set lits"
proof -
  obtain e rs c where it: "it = (e, rs, c)" by (cases it)
  have "rs \<in> residuals_of its" using assms(2) unfolding it residuals_of_def by force
  moreover have "rs' \<in> residuals_of lits" if "(e', rs', c') \<in> set lits" for e' rs' c'
    using that unfolding residuals_of_def by force
  ultimately have eq: "xx rs = xx rs' \<longleftrightarrow> rs = rs'" if "(e', rs', c') \<in> set lits" for e' rs' c'
    using that assms(1) by (auto dest: inj_onD)
  have "chunkKey (manifest_entry xx it) = chunkKey (manifest_entry xx x) \<longleftrightarrow> chunk_content it = chunk_content x"
    if "x \<in> set lits" for x
    using eq [of "fst x" "fst (snd x)" "snd (snd x)"] that
    by (cases x) (simp add: it manifest_entry_def chunkKey_def chunk_content_def)
  then show ?thesis by (auto simp: image_iff)
qed

lemma Missing_content:
  assumes "inj_on xx (residuals_of its \<union> residuals_of lits)"
  shows "filter (\<lambda>e. chunkKey e \<notin> chunkKey ` manifest_entry xx ` set lits) (map (manifest_entry xx) its) =
    map (manifest_entry xx) (filter (\<lambda>it. chunk_content it \<notin> chunk_content ` set lits) its)"
  using chunkKey_content [OF assms] by (auto simp: filter_map intro!: arg_cong [of _ _ "map _"] filter_cong)

text \<open>
  C12. Manifests tell packed files apart chunk by chunk. Take two files packed with one codebook, each
  under a key of its own, such that no two of their residuals collide under the hash. The manifest
  generated from each has one entry per chunk, in order, with its codeword, the hash of its residual,
  its size and its brain; \<open>Missing\<close> has the entries of exactly those chunks of the remote file whose
  codeword and residual no chunk of the local file has, each as often as it occurs and in order,
  \<open>Extra\<close> those of the local file the remote one lacks; nothing is missing if and only if
  every chunk of the remote file occurs in the local one.
\<close>

theorem manifest_difference_exact:
  assumes "zstd_ok X" "zstd_bound X" "gcm_ok X" "hash_sizes_ok X"
    and "packed_file X lh lek r lbs lcrom linput" "packed_file X h ek r bs crom input"
    and "fs lpath = Some lcrom" "fs path = Some crom" "cb_Open fs cbp = Inr r" "wf_reader r"
    and "inj_on (xxhash X) (residuals_of (items_of bs) \<union> residuals_of (items_of lbs))"
  shows "\<exists>lm m. GenerateManifest X fs lpath cbp lek = Inr lm \<and> GenerateManifest X fs path cbp ek = Inr m \<and>
    cmEntries lm = map (manifest_entry (xxhash X)) (items_of lbs) \<and>
    cmEntries m = map (manifest_entry (xxhash X)) (items_of bs) \<and>
    Missing (manifest_Diff lm m) = map (manifest_entry (xxhash X))
      (filter (\<lambda>it. chunk_content it \<notin> chunk_content ` set (items_of lbs)) (items_of bs)) \<and>
    Extra (manifest_Diff lm m) = map (manifest_entry (xxhash X))
      (filter (\<lambda>it. chunk_content it \<notin> chunk_content ` set (items_of bs)) (items_of lbs)) \<and>
    (Missing (manifest_Diff lm m) = [] \<longleftrightarrow> chunk_content ` set (items_of bs) \<subseteq> chunk_content ` set (items_of lbs))"
proof (intro exI conjI)
  show "GenerateManifest X fs lpath cbp lek = Inr (manifest_of X lh lbs)"
    by (rule GenerateManifest_packed [OF assms(1-5,7,9,10)])
  show "GenerateManifest X fs path cbp ek = Inr (manifest_of X h bs)"
    by (rule GenerateManifest_packed [OF assms(1-4,6,8-10)])
  have i: "inj_on (xxhash X) (residuals_of (items_of lbs) \<union> residuals_of (items_of bs))"
    using assms(11) by (simp add: Un_commute)
  let ?d = "manifest_Diff (manifest_of X lh lbs) (manifest_of X h bs)"
  show m: "Missing ?d = map (manifest_entry (xxhash X))
      (filter (\<lambda>it. chunk_content it \<notin> chunk_content ` set (items_of lbs)) (items_of bs))"
    using Missing_content [OF assms(11)] by (simp add: manifest_Diff_def Let_def manifest_of_def image_image)
  show "Extra ?d = map (manifest_entry (xxhash X))
      (filter (\<lambda>it. chunk_content it \<notin> chunk_content ` set (items_of bs)) (items_of lbs))"
    using Missing_content [OF i] by (simp add: manifest_Diff_def Let_def manifest_of_def image_image)
  show "Missing ?d = [] \<longleftrightarrow> chunk_content ` set (items_of bs) \<subseteq> chunk_content ` set (items_of lbs)"
    unfolding m by (auto simp: filter_empty_conv)
qed (simp_all add: manifest_of_def)

section \<open>A session of the two\<close>

lemma RequestSync_served:
  assumes X: "zstd_ok X" "zstd_bound X" "gcm_ok X" "hash_sizes_ok X"
    and s: "serves_file X ns fs' (filepath_Base f) h r bs input" and d: "Dictionary r = Inr dict"
    and cb: "cb_Open fs (nodeCodebookPath nc) = Inr r"
    and l: "local_version X fs (wanted_path nc (filepath_Base f)) (EncKey nc) r lits" and con: "seConnects env"
  defines "dest \<equiv> wanted_path nc (filepath_Base f)" and "idxs \<equiv> map of_nat (missing_of (xxhash X) (items_of bs) lits)"
  shows "RequestSync X env nc (\<lambda>msgs. snd (handleStream X ns True fs' msgs)) f fs =
    (if missing_of (xxhash X) (items_of bs) lits = [] then (Inr (), fs)
     else (case ReceiveChunks X env (dest @ ''.tmp'') dest (manifest_of X h bs) idxs
                  (zstd_encode X 1 dict (records (items_of bs) idxs)) (nodeCodebookPath nc) (EncKey nc) fs of
             (Inl GoPanic, fs) \<Rightarrow> (Inl GoPanic, fs)
           | (Inl e, fs) \<Rightarrow> (wrap_err ''sync: bitswap merge error'' (Inl e), os_Remove env (dest @ ''.tmp'') fs)
           | (Inr _, fs) \<Rightarrow> (Inr (), os_Rename env (dest @ ''.tmp'') dest (os_Remove env dest fs))))"
proof -
  obtain crom where crom: "packed_file X h (EncKey ns) r bs crom input" and wf: "wf_reader r" and n: "length (items_of bs) \<le> 2 ^ 22"
    using s by (auto simp: serves_file_def)
  note m = honest_manifest [OF X s]
  let ?bin = "zstd_encode X 1 [] (ToBinary (manifest_of X h bs))" and ?peer = "\<lambda>msgs. snd (handleStream X ns True fs' msgs)"
  let ?req = "sendMsg MsgSyncReq (bytes_of_string (filepath_Base f))"
  have r1: "?peer ?req = sendMsg MsgManifest ?bin"
    using m(1) [of "[]"] by (simp add: handleStream_def)
  have read: "readMsg (?peer ?req) = Inr (MsgManifest, ?bin, [])"
    using readMsg_sendMsg [OF m(2), of MsgManifest "[]"] by (simp add: r1)
  note idxs = missing_indices_ok [where fs = fs, OF X crom cb wf l, folded dest_def idxs_def]
  have w32: "length (items_of bs) < 2 ^ 32" using n by simp
  note mf = missing_of_facts [where xx = "xxhash X" and lits = lits, OF w32, folded idxs_def]
  have "length idxs \<le> 2 ^ 22" using mf(3) n by (simp add: idxs_def)
  note c = honest_chunks [OF X s d mf(1,2) this]
  have r2: "drop (5 + length ?bin) (?peer (?req @ sendMsg MsgDiffReq (diffPayload (filepath_Base f) idxs))) =
      zstd_encode X 1 dict (records (items_of bs) idxs)"
    using m(1) [of "sendMsg MsgDiffReq (diffPayload (filepath_Base f) idxs)"] c by (simp add: handleStream_def)
  have "(idxs = []) = (missing_of (xxhash X) (items_of bs) lits = [])" by (simp add: idxs_def)
  then show ?thesis
    unfolding RequestSync_def Let_def dest_def [symmetric] read wrap_err.simps rbind.simps prod.case m(3) idxs sum.case r2
    by (simp add: con split del: if_split)
qed

lemma os_Remove_simps [simp]:
  "p \<noteq> path \<Longrightarrow> os_Remove env path fs p = fs p"
  "os_Remove env path fs path = (if seRemoves env path then None else fs path)"
  by (simp_all add: os_Remove_def)

lemma os_Rename_simps [simp]:
  "p \<notin> {oldpath, newpath} \<Longrightarrow> os_Rename env oldpath newpath fs p = fs p"
  "oldpath \<noteq> newpath \<Longrightarrow> fs oldpath = Some d \<Longrightarrow>
   os_Rename env oldpath newpath fs newpath = (if seRenames env then Some d else fs newpath)"
  "oldpath \<noteq> newpath \<Longrightarrow> fs oldpath = Some d \<Longrightarrow>
   os_Rename env oldpath newpath fs oldpath = (if seRenames env then None else Some d)"
  by (auto simp: os_Rename_def)

lemma brain_on_disk:
  assumes "packed_file X h ek r bs crom input" "MicroDictSize h = 0" "cb_Open fs cbp = Inr r" "cbp \<noteq> []"
  shows "brain_given X fs h cbp opts r bs"
proof -
  have "Version3 \<le> Version h" "Version h \<le> Version8" using assms(1) by (simp_all add: packed_file_def packed_header_def)
  then show ?thesis using assms(2-4) by (simp add: brain_given_def open_brain_def stored_fields OpenForFile_def)
qed

text \<open>The machine the client runs on: random bytes of their sizes, a stream that opens, a rename that works.\<close>

definition sync_env_ok :: "SyncEnv \<Rightarrow> bool" where
  "sync_env_ok env \<longleftrightarrow> sync_random_ok env \<and> seConnects env \<and> seRenames env"

lemma missing_of_empty:
  "missing_of xx its lits = [] \<longleftrightarrow> item_key xx ` set its \<subseteq> item_key xx ` set lits"
proof -
  have "set its = (\<lambda>i. its ! i) ` {0..<length its}" by (auto simp: set_conv_nth)
  then show ?thesis unfolding missing_of_def filter_empty_conv set_upt by (simp add: image_subset_iff)
qed

lemma RequestSync_rebuilds:
  assumes X: "zstd_ok X" "zstd_bound X" "gcm_ok X" "hash_sizes_ok X" and env: "sync_random_ok env" "seConnects env"
    and s: "serves_file X ns fs' (filepath_Base f) h r bs input" and cb: "cb_Open fs (nodeCodebookPath nc) = Inr r"
    and dest: "dest = wanted_path nc (filepath_Base f)"
    and l: "local_version X fs dest (EncKey nc) r lits"
    and inj: "inj_on (xxhash X) (residuals_of (items_of bs) \<union> residuals_of lits)"
    and new: "\<not> item_key (xxhash X) ` set (items_of bs) \<subseteq> item_key (xxhash X) ` set lits"
  shows "\<exists>out h' bs'. RequestSync X env nc (\<lambda>msgs. snd (handleStream X ns True fs' msgs)) f fs =
      (Inr (), os_Rename env (dest @ ''.tmp'') dest (os_Remove env dest (fs(dest @ ''.tmp'' \<mapsto> out)))) \<and>
    packed_file X h' (EncKey nc) r bs' out input \<and> MicroDictSize h' = 0"
proof -
  obtain crom where crom: "packed_file X h (EncKey ns) r bs crom input" and wf: "wf_reader r" and n: "length (items_of bs) \<le> 2 ^ 22"
    using s by (auto simp: serves_file_def)
  obtain dict where d: "Dictionary r = Inr dict" using Dictionary_ok [OF wf] by blast
  let ?M = "missing_of (xxhash X) (items_of bs) lits" and ?idxs = "map of_nat (missing_of (xxhash X) (items_of bs) lits) :: u32 list"
  let ?wire = "zstd_encode X 1 dict (records (items_of bs) ?idxs)" and ?t = "dest @ ''.tmp''"
  note run = RequestSync_served [where fs = fs and fs' = fs' and env = env, OF X s d cb l [unfolded dest] env(2), folded dest]
  have "length (items_of bs) < 2 ^ 32" using n by simp
  note mf = missing_of_facts [where xx = "xxhash X" and lits = lits, OF this]
  have z: "zstd_decode X dict ?wire = Some (records (items_of bs) ?idxs)" by (rule zstd_ok_simps [OF X(1)])
  obtain out h' bs' where "ReceiveChunks X env ?t dest (manifest_of X h bs) ?idxs ?wire (nodeCodebookPath nc) (EncKey nc) fs =
      (Inr (), fs(?t \<mapsto> out))" "packed_file X h' (EncKey nc) r bs' out input" "MicroDictSize h' = 0"
    using ReceiveChunks_ok [where fs = fs and tempPath = ?t, OF X crom env(1) cb d z mf(2) l inj mf(4)] by blast
  moreover have "?M \<noteq> []" using new missing_of_empty by blast
  ultimately show ?thesis using run by auto
qed

text \<open>
  C5. Synchronisation with an honest node restores the file. The node serves a file that was packed
  with the codebook of both in chunks (not passed through: \<open>RequestSync\<close> refuses such a file), at most
  \<open>2 ^ 22\<close> of them; the local path holds a file of that codebook under the local key or none; the
  stream opens and the rename works; no two residuals at hand collide under the hash. Then the exchange
  succeeds. When every chunk of the remote file occurs in the local version, no file changes, and
  otherwise the local path holds a complete file, packed with the same codebook under the local key,
  which \<open>Unpack\<close> (with that key, no fuzziness) restores to the very input packed at the remote node.
\<close>

theorem sync_restores:
  assumes "zstd_ok X" "zstd_bound X" "gcm_ok X" "hash_sizes_ok X" "sync_env_ok env"
    and "serves_file X ns fs' (filepath_Base f) h r bs input"
    and "cb_Open fs (nodeCodebookPath nc) = Inr r" "nodeCodebookPath nc \<noteq> []"
    and "dest = wanted_path nc (filepath_Base f)" "nodeCodebookPath nc \<notin> {dest, dest @ ''.tmp''}"
    and "local_version X fs dest (EncKey nc) r lits"
    and "inj_on (xxhash X) (residuals_of (items_of bs) \<union> residuals_of lits)"
    and "uEncryptionKey opts = EncKey nc" "Fuzziness opts \<le> 0"
  shows "\<exists>fs''. RequestSync X env nc (\<lambda>msgs. snd (handleStream X ns True fs' msgs)) f fs = (Inr (), fs'') \<and>
    (if item_key (xxhash X) ` set (items_of bs) \<subseteq> item_key (xxhash X) ` set lits then fs'' = fs
     else Unpack X rnd dest outp (nodeCodebookPath nc) opts fs'' = (Inr (), (fs''(outp @ ''.tmp'' := None))(outp \<mapsto> input)))"
proof -
  note X = assms(1-4)
  have env: "sync_random_ok env" "seConnects env" "seRenames env" using assms(5) by (simp_all add: sync_env_ok_def)
  have wf: "wf_reader r" using assms(6) by (simp add: serves_file_def)
  obtain dict where d: "Dictionary r = Inr dict" using Dictionary_ok [OF wf] by blast
  show ?thesis
  proof (cases "item_key (xxhash X) ` set (items_of bs) \<subseteq> item_key (xxhash X) ` set lits")
    case True
    then show ?thesis
      using RequestSync_served [where fs = fs and fs' = fs' and env = env,
          OF X assms(6) d assms(7) assms(11) [unfolded assms(9)] env(2), folded assms(9)] missing_of_empty by auto
  next
    case False
    let ?t = "dest @ ''.tmp''"
    obtain out h' bs' where o: "RequestSync X env nc (\<lambda>msgs. snd (handleStream X ns True fs' msgs)) f fs =
        (Inr (), os_Rename env ?t dest (os_Remove env dest (fs(?t \<mapsto> out))))"
      "packed_file X h' (EncKey nc) r bs' out input" "MicroDictSize h' = 0"
      using RequestSync_rebuilds [where fs = fs and fs' = fs', OF X env(1,2) assms(6,7,9,11,12) False] by blast
    let ?fs = "os_Rename env ?t dest (os_Remove env dest (fs(?t \<mapsto> out)))"
    have ne: "dest \<noteq> ?t" by simp
    have inp: "?fs dest = Some (out @ [])" using env(3) ne by simp
    have "?fs (nodeCodebookPath nc) = fs (nodeCodebookPath nc)" using assms(10) by simp
    then have "cb_Open ?fs (nodeCodebookPath nc) = Inr r" using assms(7) unfolding cb_Open_def by (simp only:)
    moreover have "Version3 \<le> Version h'" "Version h' \<le> Version8" using o(2) by (simp_all add: packed_file_def packed_header_def)
    ultimately have "brain_given X ?fs h' (nodeCodebookPath nc) opts r bs'"
      using assms(8) o(3) by (simp add: brain_given_def open_brain_def stored_fields OpenForFile_def)
    note u = Unpack_packed [where fs = ?fs and rnd = rnd and outp = outp, OF X o(2) [folded assms(13)] wf this inp assms(14)]
    show ?thesis by (intro exI [of _ ?fs] conjI) (rule o(1), simp only: False if_False u)
  qed
qed

section \<open>No peer can do harm\<close>

text \<open>A complete file of some manifest under the key of the client.\<close>

definition rebuilt :: "ext \<Rightarrow> SyncEnv \<Rightarrow> bytes \<Rightarrow> bytes \<Rightarrow> bool" where
  "rebuilt X env ek out \<longleftrightarrow> (\<exists>m dict refs spill. rebuild_file X env m ek dict refs spill = Inr out)"

lemma rebuiltI: "rebuild_file X env m ek dict refs spill = Inr out \<Longrightarrow> rebuilt X env ek out"
  unfolding rebuilt_def by (intro exI)

lemma ReceiveChunks_frame:
  assumes "ReceiveChunks X env tempPath outPath m missing wire cbp ek fs = (res, fs')"
  shows "p \<noteq> tempPath \<Longrightarrow> fs' p = fs p"
    "res = Inr () \<Longrightarrow> \<exists>out. rebuilt X env ek out \<and> fs' tempPath = Some out"
  using assms by (auto simp: ReceiveChunks_def Let_def split: sum.splits prod.splits intro: rebuiltI)

text \<open>
  C6. Whatever a peer answers, a session changes no file but the wanted one and its temporary
  copy, and a session that fails or panics leaves the wanted file as it is; short of a panic it
  leaves no temporary file either where removing works. A session that succeeds has changed
  nothing, or has put together a complete file. That file gets to its place by a remove and a
  rename whose results are ignored: when both work, it replaces the old version and the temporary
  copy is gone; when the rename does not, success is reported all the same while the new file is
  in the temporary copy and the wanted path holds nothing, or the old version where removing failed
  too. What a failing rename leaves is also what is on disk between the two calls.
\<close>

theorem sync_replaces:
  assumes "RequestSync X env nc peer f fs = (res, fs')" "dest = wanted_path nc (filepath_Base f)" "t = dest @ ''.tmp''"
  shows "(\<forall>p. p \<notin> {dest, t} \<longrightarrow> fs' p = fs p) \<and>
    (res \<noteq> Inr () \<longrightarrow> fs' dest = fs dest) \<and>
    (res \<notin> {Inr (), Inl GoPanic} \<longrightarrow> seRemoves env t \<longrightarrow> fs' t \<in> {fs t, None}) \<and>
    (res = Inr () \<longrightarrow> fs' = fs \<or> (\<exists>out. rebuilt X env (EncKey nc) out \<and>
       (if seRenames env then fs' dest = Some out \<and> fs' t = None
        else fs' dest = (if seRemoves env dest then None else fs dest) \<and> fs' t = Some out)))"
proof (cases "fs' = fs")
  case False
  from False assms obtain m missing wire where
    run: "(case ReceiveChunks X env t dest m missing wire (nodeCodebookPath nc) (EncKey nc) fs of
        (Inl GoPanic, fs) \<Rightarrow> (Inl GoPanic, fs)
      | (Inl e, fs) \<Rightarrow> (wrap_err ''sync: bitswap merge error'' (Inl e), os_Remove env t fs)
      | (Inr _, fs) \<Rightarrow> (Inr (), os_Rename env t dest (os_Remove env dest fs))) = (res, fs')"
    unfolding RequestSync_def Let_def by (auto split: sum.splits if_splits)
  obtain res0 fs0 where rc: "ReceiveChunks X env t dest m missing wire (nodeCodebookPath nc) (EncKey nc) fs = (res0, fs0)"
    by fastforce
  note fr = ReceiveChunks_frame [OF rc]
  have ne: "dest \<noteq> t" "t \<noteq> dest" using assms(3) by simp_all
  show ?thesis
  proof (cases res0)
    case (Inl e)
    then show ?thesis using run [unfolded rc] fr(1) ne by (cases e) auto
  next
    case (Inr u)
    then obtain out where out: "rebuilt X env (EncKey nc) out" "fs0 t = Some out" using fr(2) by auto
    have fs': "res = Inr ()" "fs' = os_Rename env t dest (os_Remove env dest fs0)"
      using run [unfolded rc] Inr by (simp_all add: unit_eq)
    have "os_Remove env dest fs0 t = Some out" using out(2) ne by simp
    then have "if seRenames env then fs' dest = Some out \<and> fs' t = None
        else fs' dest = (if seRemoves env dest then None else fs dest) \<and> fs' t = Some out"
      using fr(1) [OF ne(1)] ne unfolding fs' by simp
    moreover have "\<forall>p. p \<notin> {dest, t} \<longrightarrow> fs' p = fs p" unfolding fs' using fr(1) by simp
    ultimately show ?thesis using out(1) fs'(1) by blast
  qed
qed simp

section \<open>What a node gives away\<close>

lemma path_elements_append:
  "path_elements acc (D @ CHR ''/'' # e) = path_elements acc D @ path_elements [] e"
  by (induction D arbitrary: acc) auto

lemma path_elements_single: "CHR ''/'' \<notin> set e \<Longrightarrow> path_elements acc e = [rev acc @ e]"
  by (induction e arbitrary: acc) auto

lemma path_elements_no_slash: "CHR ''/'' \<notin> set acc \<Longrightarrow> x \<in> set (path_elements acc p) \<Longrightarrow> CHR ''/'' \<notin> set x"
  by (induction acc p rule: path_elements.induct) (auto split: if_splits)

definition plain_element :: "string \<Rightarrow> bool" where
  "plain_element e \<longleftrightarrow> e \<noteq> [] \<and> e \<noteq> ''.'' \<and> CHR ''/'' \<notin> set e"

lemma clean_elements_append:
  "plain_element e \<Longrightarrow> e \<noteq> ''..'' \<Longrightarrow> clean_elements rooted out (es @ [e]) = clean_elements rooted out es @ [e]"
  by (induction rooted out es rule: clean_elements.induct) (auto simp: plain_element_def)

lemma clean_elements_plain:
  "\<forall>e \<in> set out. plain_element e \<Longrightarrow> \<forall>e \<in> set es. CHR ''/'' \<notin> set e \<Longrightarrow> e \<in> set (clean_elements rooted out es) \<Longrightarrow> plain_element e"
proof (induction rooted out es rule: clean_elements.induct)
  case (2 rooted out x es)
  show ?case by (rule 2(1)) (use 2(2-4) in \<open>auto simp: plain_element_def split: list.splits if_splits\<close>)
qed simp

lemma join_elements_append:
  "join_elements (es @ [e]) = (if es = [] then e else join_elements es @ ''/'' @ e)"
  by (induction es rule: join_elements.induct) auto

text \<open>The file \<open>e\<close> of a directory in its shortest form.\<close>

definition in_dir :: "string \<Rightarrow> string \<Rightarrow> string" where
  "in_dir dir e = (if dir = ''.'' then e else if dir = ''/'' then ''/'' @ e else dir @ ''/'' @ e)"

lemma join_elements_plain:
  assumes "\<forall>e \<in> set es. plain_element e"
  shows "join_elements es = [] \<longleftrightarrow> es = []" "join_elements es \<noteq> ''.''" "join_elements es \<noteq> ''/''"
proof -
  consider "es = []" | e where "es = [e]" "plain_element e" | e e' es' where "es = e # e' # es'" "plain_element e"
    using assms by (cases es rule: join_elements.cases) auto
  then show "join_elements es = [] \<longleftrightarrow> es = []" "join_elements es \<noteq> ''.''" "join_elements es \<noteq> ''/''"
    by (cases; auto simp: plain_element_def Cons_eq_append_conv append_eq_Cons_conv)+
qed

lemma filepath_Join_element:
  assumes "plain_element e" "e \<noteq> ''..''"
  shows "filepath_Join D e = in_dir (filepath_Clean D) e"
proof (cases "D = []")
  case True
  have "path_elements [] e = [e]" using assms(1) path_elements_single [of e "[]"] by (simp add: plain_element_def)
  moreover have "hd e \<noteq> CHR ''/''" using assms(1) by (cases e) (auto simp: plain_element_def)
  ultimately show ?thesis using assms True by (auto simp: filepath_Join_def filepath_Clean_def in_dir_def plain_element_def)
next
  case False
  define R where "R \<longleftrightarrow> hd D = CHR ''/''"
  define C where "C = clean_elements R [] (path_elements [] D)"
  have "path_elements [] (D @ ''/'' @ e) = path_elements [] D @ [e]"
    using assms(1) path_elements_append [of "[]" D e] path_elements_single [of e "[]"] by (simp add: plain_element_def)
  then have j: "filepath_Join D e = (if R then CHR ''/'' # join_elements (C @ [e])
      else if join_elements (C @ [e]) = [] then ''.'' else join_elements (C @ [e]))"
    using False by (simp add: filepath_Join_def filepath_Clean_def R_def C_def clean_elements_append [OF assms])
  have c: "filepath_Clean D = (if R then CHR ''/'' # join_elements C else if join_elements C = [] then ''.'' else join_elements C)"
    using False by (simp add: filepath_Clean_def R_def C_def)
  have "\<forall>e \<in> set C. plain_element e"
    using clean_elements_plain [of "[]" "path_elements [] D" _ R] path_elements_no_slash [of "[]" _ D] by (auto simp: C_def)
  note join_elements_plain [OF this]
  moreover have "e \<noteq> []" using assms(1) by (simp add: plain_element_def)
  ultimately show ?thesis
    unfolding j c join_elements_append in_dir_def by (cases R; cases "C = []") simp_all
qed

lemma with_crom_element:
  assumes "CHR ''/'' \<notin> set q"
  shows "plain_element (with_crom q)" "with_crom q \<noteq> ''..''" "suffix ''.crom'' (with_crom q)"
proof -
  show s: "suffix ''.crom'' (with_crom q)"
    unfolding with_crom_def suffix_def by (metis append_take_drop_id)
  then have "5 \<le> length (with_crom q)" by (auto simp: suffix_def)
  then show "with_crom q \<noteq> ''..''" "plain_element (with_crom q)"
    using assms by (auto simp: plain_element_def with_crom_def)
qed

lemma clean_elements_blank: "clean_elements rooted out (es @ [] # fs) = clean_elements rooted out (es @ fs)"
  by (induction rooted out es rule: clean_elements.induct) auto

lemma filepath_Join_root:
  assumes "D \<noteq> []"
  shows "filepath_Join D ''/.crom'' = filepath_Join D ''.crom''"
proof -
  have "path_elements [] (D @ ''//.crom'') = path_elements [] D @ [[], ''.crom'']"
    "path_elements [] (D @ ''/.crom'') = path_elements [] D @ [''.crom'']"
    using path_elements_append [of "[]" D "''/.crom''"] path_elements_append [of "[]" D "''.crom''"] by simp_all
  then show ?thesis using assms by (simp add: filepath_Join_def filepath_Clean_def clean_elements_blank)
qed

text \<open>Every path a request leads to is a \<^verbatim>\<open>.crom\<close> file directly in the directory of the node.\<close>

lemma served_path_inside:
  assumes "DataDir node \<noteq> []"
  shows "\<exists>e. plain_element e \<and> suffix ''.crom'' e \<and> served_path node name = in_dir (filepath_Clean (DataDir node)) e"
proof (cases "CHR ''/'' \<in> set (filepath_Base name)")
  case True
  then have "filepath_Base name = ''/''" using filepath_Base_element by blast
  then have "with_crom (filepath_Base name) = ''/.crom''" by (simp add: with_crom_def)
  then have "served_path node name = filepath_Join (DataDir node) ''.crom''"
    using filepath_Join_root [OF assms] by (simp add: served_path_def)
  moreover have e: "plain_element ''.crom''" "''.crom'' \<noteq> ''..''" "suffix ''.crom'' ''.crom''" by (simp_all add: plain_element_def)
  ultimately show ?thesis using filepath_Join_element [OF e(1,2)] by (intro exI [of _ "''.crom''"]) simp
next
  case False
  then show ?thesis using with_crom_element [OF False] filepath_Join_element unfolding served_path_def by blast
qed

text \<open>
  C7. Whatever bytes a peer sends, authenticated or not, the answer depends only on the codebook
  and on files of the data directory itself whose names end in \<^verbatim>\<open>.crom\<close>: no name it asks for
  leads out of the directory.
\<close>

theorem served_files_only:
  assumes "DataDir node \<noteq> []" "fs (nodeCodebookPath node) = fs' (nodeCodebookPath node)"
    and "\<And>e. CHR ''/'' \<notin> set e \<Longrightarrow> suffix ''.crom'' e \<Longrightarrow>
      fs (in_dir (filepath_Clean (DataDir node)) e) = fs' (in_dir (filepath_Clean (DataDir node)) e)"
  shows "handleStream X node auth fs s = handleStream X node auth fs' s"
proof -
  have path: "fs (served_path node name) = fs' (served_path node name)" for name
    using served_path_inside [OF assms(1), of name] assms(3) by (auto simp: plain_element_def)
  have gen: "GenerateManifest X fs (served_path node name) (nodeCodebookPath node) ek =
      GenerateManifest X fs' (served_path node name) (nodeCodebookPath node) ek" for name ek
    by (simp add: GenerateManifest_def cb_Open_def path assms(2) cong: option.case_cong)
  have str: "StreamChunks X fs (served_path node name) (nodeCodebookPath node) ek idxs =
      StreamChunks X fs' (served_path node name) (nodeCodebookPath node) ek idxs" for name ek idxs
    by (simp add: StreamChunks_def cb_Open_def path assms(2) cong: option.case_cong)
  have "handleSyncReq X node fs name = handleSyncReq X node fs' name" for name
    unfolding handleSyncReq_def Let_def path gen ..
  moreover have "handleDiffReq X node fs p = handleDiffReq X node fs' p" for p
    unfolding handleDiffReq_def Let_def str ..
  ultimately have msg: "handle_message X node fs t p = handle_message X node fs' t p" for t p
    by (simp add: handle_message_def)
  have "handle_loop X node fs s = handle_loop X node fs' s"
  proof (induction "length s" arbitrary: s rule: less_induct)
    case less
    show ?case
    proof (cases "length s < 5")
      case False
      then have "handle_loop X node fs (drop (5 + n) s) = handle_loop X node fs' (drop (5 + n) s)" for n
        by (intro less) simp
      then show ?thesis
        by (subst (1 2) handle_loop.simps) (simp only: msg)
    qed (subst (1 2) handle_loop.simps, simp)
  qed
  then show ?thesis by (simp add: handleStream_def)
qed

section \<open>Requests that stop a node\<close>

lemma get_uint16_le: "get_uint16 (le_bytes 2 (w :: u16) @ rest) 0 = w"
  by (simp add: get_uint16_def slice_layout wire_simps)

lemma handleDiffReq_long_name:
  assumes "6 \<le> length p" "length p < 65532" "65530 \<le> get_uint16 p 0"
  shows "handleDiffReq X node fs p = (Inl GoPanic, [])"
proof -
  define k where "k = unat (get_uint16 p 0)"
  have w: "get_uint16 p 0 = of_nat k" by (simp add: k_def)
  have k: "65530 \<le> k" "k < 65536"
    using assms(3) unsigned_less [of "get_uint16 p 0"] by (simp_all add: k_def word_le_nat_alt)
  have s: "unat (2 + get_uint16 p 0) = (2 + k) mod 65536" "unat (2 + get_uint16 p 0 + 4) = (6 + k) mod 65536"
  proof -
    have "(2 + of_nat k :: u16) = of_nat (2 + k)" "(2 + of_nat k + 4 :: u16) = of_nat (6 + k)" by simp_all
    then show "unat (2 + get_uint16 p 0) = (2 + k) mod 65536" "unat (2 + get_uint16 p 0 + 4) = (6 + k) mod 65536"
      unfolding w by (simp_all only: unat_of_nat) simp_all
  qed
  have "(6 + k) mod 65536 < 6"
    using k le_mod_geq [of 65536 "6 + k"] by simp
  then have "\<not> length p < unat (2 + get_uint16 p 0 + 4)" using assms(1) unfolding s by linarith
  moreover have "(2 + k) mod 65536 < 2 \<or> 65532 \<le> (2 + k) mod 65536"
    using k le_mod_geq [of 65536 "2 + k"] by (cases "2 + k < 65536") (simp_all, linarith)
  then have "gslice p 2 (unat (2 + get_uint16 p 0)) = Inl GoPanic"
    using assms(2) unfolding s gslice_def by auto
  ultimately show ?thesis using assms(1) by (simp add: handleDiffReq_def)
qed

lemma handleDiffReq_many_indices:
  assumes "length name < 65530" "0 < k" "k < 4"
    and p: "p = le_bytes 2 (of_nat (length name) :: u16) @ bytes_of_string name @ le_bytes 4 (of_nat (k * 2 ^ 30) :: u32)"
  shows "handleDiffReq X node fs p = (Inl GoPanic, [])"
proof -
  let ?k = "length name" and ?N = "bytes_of_string name"
  have u16: "unat (of_nat m :: u16) = m" if "m < 2 ^ 16" for m using that by (intro unat_of_nat_lt) simp
  have u32: "unat (of_nat m :: u32) = m" if "m < 2 ^ 32" for m using that by (intro unat_of_nat_lt) simp
  have nl: "get_uint16 p 0 = of_nat ?k" by (simp add: p get_uint16_le)
  have s: "(2 + of_nat ?k :: u16) = of_nat (2 + ?k)" "(2 + of_nat ?k + 4 :: u16) = of_nat (6 + ?k)" by simp_all
  have len: "length p = 6 + ?k" by (simp add: p)
  have name: "gslice p 2 (2 + ?k) = Inr ?N" by (simp add: p gslice_def slice_def)
  have off: "(ucast (of_nat (2 + ?k) :: u16) :: u32) = of_nat (2 + ?k)"
    using assms(1) u16 [of "2 + ?k"] u32 [of "2 + ?k"] by (simp add: word_unat_eq_iff unat_ucast_small del: of_nat_add)
  have cnt: "gslice p (2 + ?k) (2 + ?k + 4) = Inr (le_bytes 4 (of_nat (k * 2 ^ 30) :: u32))" by (simp add: p gslice_def slice_def)
  have o4: "(of_nat (2 + ?k) + 4 :: u32) = of_nat (6 + ?k)" by simp
  have "(of_nat (k * 2 ^ 30) * 4 :: u32) = of_nat (k * 2 ^ 32)" by simp
  also have "\<dots> = 0" by (simp only: word_of_nat_eq_0_iff) simp
  finally have wrap: "(of_nat (6 + ?k) + of_nat (k * 2 ^ 30) * 4 :: u32) = of_nat (length p)" by (simp add: len)
  have c: "unat (of_nat (k * 2 ^ 30) :: u32) = Suc (k * 2 ^ 30 - 1)" using assms(2,3) u32 [of "k * 2 ^ 30"] by simp
  have idx: "read_indices p (of_nat (6 + ?k)) 0 (Suc n) = Inl GoPanic" for n
    using assms(1) u32 [of "6 + ?k"] u32 [of "6 + ?k + 4"] len by (simp add: gslice_def)
  have guards: "\<not> length p < 6" "\<not> length p < unat (of_nat (6 + ?k) :: u16)"
    "unat (of_nat (2 + ?k) :: u16) = 2 + ?k" "unat (of_nat (2 + ?k) :: u32) = 2 + ?k" "unat (of_nat (2 + ?k) + 4 :: u32) = 2 + ?k + 4"
    using assms(1) len u16 [of "6 + ?k"] u16 [of "2 + ?k"] u32 [of "2 + ?k"] u32 [of "6 + ?k"] unfolding o4
    by (simp_all del: of_nat_add)
  show ?thesis
    unfolding handleDiffReq_def Let_def nl s off guards(3,4,5) name sum.case cnt le_word_bytes
    unfolding o4 wrap c idx sum.case using guards(1,2) by simp
qed

text \<open>
  C10. Two kinds of chunk requests panic the node that serves them, without an answer: those of
  moderate size that declare a name of at least 65530 bytes, since the sum with the widths of
  the other fields wraps at 16 bits, and those that declare a multiple of \<open>2^30\<close> indices and
  send none, since their size wraps at 32 bits.
\<close>

theorem diff_request_panics:
  assumes "6 \<le> length p \<and> length p < 65532 \<and> 65530 \<le> get_uint16 p 0 \<or>
    (\<exists>name k. length name < 65530 \<and> 0 < k \<and> k < 4 \<and>
       p = le_bytes 2 (of_nat (length name) :: u16) @ bytes_of_string name @ le_bytes 4 (of_nat (k * 2 ^ 30) :: u32))"
  shows "handleStream X node True fs (sendMsg MsgDiffReq p @ rest) = (Inl GoPanic, [])"
proof -
  have "handleDiffReq X node fs p = (Inl GoPanic, [])"
    using assms handleDiffReq_long_name handleDiffReq_many_indices by blast
  moreover have "length p \<le> 64 * 1024 * 1024" using assms by auto
  ultimately show ?thesis
    by (simp add: handleStream_def handle_loop_message handle_message_def MsgDiffReq_def MsgSyncReq_def)
qed

theorem diff_request_panics_witness:
  "handleStream toy_ext \<lparr>DataDir = ''d'', nodeCodebookPath = ''b'', EncKey = []\<rparr> True Map.empty
     (sendMsg MsgDiffReq [255, 255, 0, 0, 0, 0]) = (Inl GoPanic, [])"
proof -
  have "get_uint16 [255, 255, 0, 0, 0, 0 :: byte] 0 = 65535" by code_simp
  then show ?thesis
    using diff_request_panics [of "[255, 255, 0, 0, 0, 0]" toy_ext _ Map.empty "[]"] by simp
qed

section \<open>Files of literal chunks\<close>

fun literal_items :: "nat \<Rightarrow> bytes list \<Rightarrow> item list" where
  "literal_items off [] = []"
| "literal_items off (c # cs) =
     (\<lparr>CodebookID = LiteralCodebookID, DeltaOffset = of_nat off, DeltaSize = of_nat (length c),
        EOriginalSize = of_nat (length c), CodebookIndex = 0\<rparr>, c, c) # literal_items (off + length c) cs"

definition sample_sync_env :: SyncEnv where
  "sample_sync_env = \<lparr>seSalt = zeros 16, seNonce = (\<lambda>_. zeros 12), seTableNonce = zeros 12, sePartial = (\<lambda>_ _. []),
     seConnects = True, seRemoves = (\<lambda>_. True), seRenames = True\<rparr>"

lemma sample_sync_env_ok: "sync_env_ok sample_sync_env"
  by (simp add: sync_env_ok_def sync_random_ok_def sample_sync_env_def NonceSize_def)

lemma literal_items_facts:
  "length (literal_items off cs) = length cs" "pool_of (literal_items off cs) = concat cs"
  "content_of (literal_items off cs) = concat cs" "residuals_of (literal_items off cs) = set cs"
  "\<forall>e \<in> set (map fst (literal_items off cs)). CodebookID e = LiteralCodebookID"
  "(\<forall>c \<in> set cs. c \<noteq> [] \<and> length c < 2 ^ 32) \<longrightarrow> laid_out r off (literal_items off cs)"
  "item_key xx ` set (literal_items off cs) = (\<lambda>c. (LiteralCodebookID, xx c)) ` set cs"
  by (induction cs arbitrary: off)
    (auto simp: residuals_of_def content_of_def decodes_literal FractalCodebookIndex_def simp del: LiteralCodebookID_def)

lemma items_packed:
  assumes X: "zstd_ok X" "zstd_bound X" "gcm_ok X" "hash_sizes_ok X" and d: "Dictionary r = Inr dict"
    and its: "laid_out r 0 its" "content_of its \<noteq> []" "length (content_of its) \<le> 2 ^ 20" "length (pool_of its) \<le> 2 ^ 20"
      "table_fits (map fst its)"
  shows "\<exists>h bs crom. packed_file X h [] r bs crom (content_of its) \<and> items_of bs = its \<and> MicroDictSize h = 0 \<and> \<not> IsEncrypted h"
proof -
  let ?m = "\<lparr>cmVersion = 1, cmOriginalHash = sha256 X (content_of its), cmOriginalSize = of_nat (length (content_of its)),
      cmChunkCount = of_nat (length its), cmEntries = []\<rparr>"
  let ?h = "rebuilt_header sample_sync_env ?m []"
  have h: "length (seSalt sample_sync_env) = 16" "length (cmOriginalHash ?m) = 32"
    using hash_sizes(1) [OF X(4)] by (simp_all add: sample_sync_env_def)
  note hf = rebuilt_header_facts [OF h, where ek = "[]"]
  have "framing X ?h [] r None dict" using hf(9,11) d by (simp add: framing_def)
  from frame_of_pool [where pool = "pool_of its", OF X this, of "zeros 12"] its(4)
  obtain fr where fr: "open_block_data X ?h [] r fr = Inr (pool_of its)" "length fr < 2 ^ 32"
    by (auto simp: NonceSize_def BlockSize_def)
  let ?bs = "[(its, fr)]"
  have items: "items_of ?bs = its" by (simp add: items_of_def)
  obtain t where t: "EncodeCompressedTable X (zeros 12) (map fst its) Version7 None = Inr t"
    by (simp add: EncodeCompressedTable_layout)
  have "packed_file X ?h [] r ?bs (crom_file ?h (sizes_of ?bs) t @ frames_of ?bs) (content_of its)"
    unfolding packed_file_def
  proof (intro conjI exI)
    show "packed_header X ?h ?bs (content_of its)"
      using hf unfolding packed_header_def items by (simp add: version_defs)
    show "packed_blocks X ?h [] r ?bs (content_of its)"
      unfolding packed_blocks_def items
    proof (intro conjI)
      show "frames_ok X ?h [] r ?bs" using fr by (simp add: frames_ok_def)
      show "full_blocks ?bs" using its(2,3) by (simp add: BlockSize_def)
      show "length (content_of its) \<le> 2 ^ 50" "length (pool_of its) < 2 ^ 63" using its(3,4) by simp_all
    qed (simp_all add: its)
    show "IsEncrypted ?h \<longrightarrow> [] \<noteq> []" using hf(10) by simp
    show "EncodeCompressedTable X (zeros 12) (map fst (items_of ?bs)) Version7 (file_key X [] ?h) = Inr t"
      using t unfolding items hf(11) by simp
  qed (simp_all add: NonceSize_def)
  moreover have "\<not> IsEncrypted ?h" using hf(10) by simp
  ultimately show ?thesis using items hf(12) by blast
qed

lemma literal_packed:
  assumes X: "zstd_ok X" "zstd_bound X" "gcm_ok X" "hash_sizes_ok X" and d: "Dictionary r = Inr dict"
    and cs: "cs \<noteq> []" "\<forall>c \<in> set cs. c \<noteq> []" "length (concat cs) \<le> 2 ^ 20" "length cs \<le> 2 ^ 20"
  shows "\<exists>h bs crom. packed_file X h [] r bs crom (concat cs) \<and> items_of bs = literal_items 0 cs \<and> MicroDictSize h = 0"
proof -
  let ?i = "literal_items 0 cs"
  have small: "\<forall>c \<in> set cs. c \<noteq> [] \<and> length c < 2 ^ 32"
  proof
    fix c assume "c \<in> set cs"
    then have "length c \<le> length (concat cs)" by (simp add: length_concat member_le_sum_list)
    with \<open>c \<in> set cs\<close> cs(2,3) show "c \<noteq> [] \<and> length c < 2 ^ 32" by auto
  qed
  have "laid_out r 0 ?i" using small literal_items_facts(6) by blast
  moreover have "content_of ?i \<noteq> []" using cs(1,2) by (cases cs) (auto simp: literal_items_facts(3))
  moreover have "length (content_of ?i) \<le> 2 ^ 20" "length (pool_of ?i) \<le> 2 ^ 20"
    using cs(3) by (simp_all add: literal_items_facts(2,3) del: length_concat)
  moreover have "table_fits (map fst ?i)"
    using literal_items_facts(5) [of 0 cs] cs(4) by (simp add: table_fits_def wf_table_def literal_items_facts(1))
  ultimately show ?thesis using items_packed [OF X d, of ?i] by (auto simp: literal_items_facts(3))
qed

section \<open>A stale copy\<close>

text \<open>
  C9. A session does not compare the order or the number of chunks: when every chunk of the
  remote file occurs somewhere in the local one, it reports success and changes nothing, and
  \<open>Unpack\<close> still restores the input of the old local file, whatever the remote one holds.
\<close>

theorem sync_keeps_stale_copy:
  assumes "zstd_ok X" "zstd_bound X" "gcm_ok X" "hash_sizes_ok X"
    and "serves_file X ns fs' (filepath_Base f) h r bs input" "cb_Open fs (nodeCodebookPath nc) = Inr r"
    and "dest = wanted_path nc (filepath_Base f)" "fs dest = Some lcrom" "packed_file X lh (EncKey nc) r lbs lcrom linput"
    and "item_key (xxhash X) ` set (items_of bs) \<subseteq> item_key (xxhash X) ` set (items_of lbs)"
    and "uEncryptionKey opts = EncKey nc" "Fuzziness opts \<le> 0" "brain_given X fs lh (nodeCodebookPath nc) opts r lbs"
    and "seConnects env"
  shows "RequestSync X env nc (\<lambda>msgs. snd (handleStream X ns True fs' msgs)) f fs = (Inr (), fs) \<and>
    Unpack X rnd dest outp (nodeCodebookPath nc) opts fs = (Inr (), (fs(outp @ ''.tmp'' := None))(outp \<mapsto> linput))"
proof -
  note X = assms(1-4)
  have wf: "wf_reader r" using assms(5) by (simp add: serves_file_def)
  obtain dict where d: "Dictionary r = Inr dict" using Dictionary_ok [OF wf] by blast
  have l: "local_version X fs (wanted_path nc (filepath_Base f)) (EncKey nc) r (items_of lbs)"
    using assms(7-9) unfolding local_version_def by blast
  have "missing_of (xxhash X) (items_of bs) (items_of lbs) = []"
    using assms(10) by (auto simp: missing_of_def filter_empty_conv image_subset_iff simp del: item_key_simp)
  then have "RequestSync X env nc (\<lambda>msgs. snd (handleStream X ns True fs' msgs)) f fs = (Inr (), fs)"
    using RequestSync_served [where fs = fs and fs' = fs' and env = env, OF X assms(5) d assms(6) l assms(14)] by simp
  moreover have inp: "fs dest = Some (lcrom @ [])" using assms(8) by simp
  note Unpack_packed [where fs = fs and rnd = rnd and outp = outp, OF X assms(9) [folded assms(11)] wf assms(13) inp assms(12)]
  ultimately show ?thesis by simp
qed

section \<open>Sessions at concrete nodes\<close>

definition sample_node :: CromNode where
  "sample_node = \<lparr>DataDir = ''d'', nodeCodebookPath = ''b'', EncKey = []\<rparr>"

lemma sample_paths:
  "filepath_Base ''f'' = ''f''" "served_path sample_node ''f'' = ''d/f.crom''" "wanted_path sample_node ''f'' = ''d/f.crom''"
  "filepath_Clean ''d'' = ''d''"
  by code_simp+

lemma sample_literals:
  assumes "cs \<noteq> []" "\<forall>c \<in> set cs. c \<noteq> []" "length (concat cs) \<le> 2 ^ 20" "length cs \<le> 2 ^ 20"
  shows "\<exists>h bs crom. packed_file toy_ext h [] sample_reader bs crom (concat cs) \<and> items_of bs = literal_items 0 cs \<and> MicroDictSize h = 0"
proof -
  obtain dict where "Dictionary sample_reader = Inr dict" using Dictionary_ok [OF sample_reader_wf] by blast
  from literal_packed [OF toy_ext_ok this assms] show ?thesis .
qed

lemma sample_serves:
  assumes "packed_file toy_ext h [] sample_reader bs crom input" "length (items_of bs) \<le> 2 ^ 22"
    "fs ''d/f.crom'' = Some crom" "fs ''b'' = Some sample_codebook"
  shows "serves_file toy_ext sample_node fs (filepath_Base ''f'') h sample_reader bs input"
    "cb_Open fs (nodeCodebookPath sample_node) = Inr sample_reader"
proof -
  show cb: "cb_Open fs (nodeCodebookPath sample_node) = Inr sample_reader"
    using assms(4) sample_codebook_opens(1) by (simp add: cb_Open_OpenFromBytes sample_node_def)
  then show "serves_file toy_ext sample_node fs (filepath_Base ''f'') h sample_reader bs input"
    using assms sample_reader_wf unfolding serves_file_def sample_paths by (simp add: sample_node_def)
qed

text \<open>The client holds one of the two chunks and another one.\<close>

theorem sync_restores_witness:
  "\<exists>h bs crom lh lbs lcrom fs''. packed_file toy_ext h [] sample_reader bs crom [1, 2, 3] \<and>
    packed_file toy_ext lh [] sample_reader lbs lcrom [1, 4, 5, 6] \<and>
    RequestSync toy_ext sample_sync_env sample_node
      (\<lambda>msgs. snd (handleStream toy_ext sample_node True [''b'' \<mapsto> sample_codebook, ''d/f.crom'' \<mapsto> crom] msgs)) ''f''
      [''b'' \<mapsto> sample_codebook, ''d/f.crom'' \<mapsto> lcrom] = (Inr (), fs'') \<and>
    Unpack toy_ext (\<lambda>_. 0) ''d/f.crom'' ''o'' ''b'' sample_unpack_options fs'' =
      (Inr (), (fs''(''o.tmp'' := None))(''o'' \<mapsto> [1, 2, 3]))"
proof -
  obtain h bs crom where b: "packed_file toy_ext h [] sample_reader bs crom [1, 2, 3]" "items_of bs = literal_items 0 [[1], [2, 3]]"
    using sample_literals [of "[[1], [2, 3]]"] by auto
  obtain lh lbs lcrom where l: "packed_file toy_ext lh [] sample_reader lbs lcrom [1, 4, 5, 6]"
      "items_of lbs = literal_items 0 [[1], [4, 5, 6]]"
    using sample_literals [of "[[1], [4, 5, 6]]"] by auto
  let ?fs' = "[''b'' \<mapsto> sample_codebook, ''d/f.crom'' \<mapsto> crom]" and ?fs = "[''b'' \<mapsto> sample_codebook, ''d/f.crom'' \<mapsto> lcrom]"
  have s: "serves_file toy_ext sample_node ?fs' (filepath_Base ''f'') h sample_reader bs [1, 2, 3]"
    by (rule sample_serves(1) [OF b(1)]) (simp_all add: b(2))
  have c: "cb_Open ?fs (nodeCodebookPath sample_node) = Inr sample_reader"
    by (rule sample_serves(2) [OF l(1)]) (simp_all add: l(2))
  have p: "nodeCodebookPath sample_node \<noteq> []" "''d/f.crom'' = wanted_path sample_node (filepath_Base ''f'')"
    "nodeCodebookPath sample_node \<notin> {''d/f.crom'', ''d/f.crom'' @ ''.tmp''}"
    unfolding sample_paths by (simp_all add: sample_node_def)
  have v: "local_version toy_ext ?fs ''d/f.crom'' (EncKey sample_node) sample_reader (items_of lbs)"
    unfolding local_version_def using l(1) by (auto simp: sample_node_def)
  have i: "inj_on (xxhash toy_ext) (residuals_of (items_of bs) \<union> residuals_of (items_of lbs))"
    unfolding b(2) l(2) literal_items_facts by (auto simp: toy_ext_def inj_on_def)
  have o: "uEncryptionKey sample_unpack_options = EncKey sample_node" "Fuzziness sample_unpack_options \<le> 0"
    by (simp_all add: sample_unpack_options_def sample_node_def)
  have "\<not> item_key (xxhash toy_ext) ` set (items_of bs) \<subseteq> item_key (xxhash toy_ext) ` set (items_of lbs)"
    unfolding b(2) l(2) literal_items_facts by (simp add: toy_ext_def)
  with sync_restores [where fs = ?fs and fs' = ?fs' and rnd = "\<lambda>_. 0" and outp = "''o''",
      OF toy_ext_ok sample_sync_env_ok s c p v i o] b(1) l(1)
  show ?thesis by (simp add: sample_node_def) blast
qed

theorem sync_keeps_stale_copy_witness:
  "\<exists>h bs crom lh lbs lcrom. packed_file toy_ext h [] sample_reader bs crom [1, 2, 3] \<and>
    packed_file toy_ext lh [] sample_reader lbs lcrom [2, 3, 1] \<and>
    (let fs = [''b'' \<mapsto> sample_codebook, ''d/f.crom'' \<mapsto> lcrom]
     in RequestSync toy_ext sample_sync_env sample_node
          (\<lambda>msgs. snd (handleStream toy_ext sample_node True [''b'' \<mapsto> sample_codebook, ''d/f.crom'' \<mapsto> crom] msgs)) ''f'' fs = (Inr (), fs) \<and>
        Unpack toy_ext (\<lambda>_. 0) ''d/f.crom'' ''o'' ''b'' sample_unpack_options fs = (Inr (), (fs(''o.tmp'' := None))(''o'' \<mapsto> [2, 3, 1])))"
proof -
  obtain h bs crom where b: "packed_file toy_ext h [] sample_reader bs crom [1, 2, 3]" "items_of bs = literal_items 0 [[1], [2, 3]]"
    using sample_literals [of "[[1], [2, 3]]"] by auto
  obtain lh lbs lcrom where l: "packed_file toy_ext lh [] sample_reader lbs lcrom [2, 3, 1]"
      "items_of lbs = literal_items 0 [[2, 3], [1]]" "MicroDictSize lh = 0"
    using sample_literals [of "[[2, 3], [1]]"] by auto
  let ?fs' = "[''b'' \<mapsto> sample_codebook, ''d/f.crom'' \<mapsto> crom]" and ?fs = "[''b'' \<mapsto> sample_codebook, ''d/f.crom'' \<mapsto> lcrom]"
  have s: "serves_file toy_ext sample_node ?fs' (filepath_Base ''f'') h sample_reader bs [1, 2, 3]"
    by (rule sample_serves(1) [OF b(1)]) (simp_all add: b(2))
  have c: "cb_Open ?fs (nodeCodebookPath sample_node) = Inr sample_reader"
    by (rule sample_serves(2) [OF l(1)]) (simp_all add: l(2))
  have p: "''d/f.crom'' = wanted_path sample_node (filepath_Base ''f'')" "?fs ''d/f.crom'' = Some lcrom"
    "packed_file toy_ext lh (EncKey sample_node) sample_reader lbs lcrom [2, 3, 1]"
    using l(1) unfolding sample_paths by (simp_all add: sample_node_def)
  have k: "item_key (xxhash toy_ext) ` set (items_of bs) \<subseteq> item_key (xxhash toy_ext) ` set (items_of lbs)"
    unfolding b(2) l(2) literal_items_facts by simp
  have o: "uEncryptionKey sample_unpack_options = EncKey sample_node" "Fuzziness sample_unpack_options \<le> 0"
    by (simp_all add: sample_unpack_options_def sample_node_def)
  have g: "brain_given toy_ext ?fs lh (nodeCodebookPath sample_node) sample_unpack_options sample_reader lbs"
    by (rule brain_on_disk [OF l(1,3) c]) (simp add: sample_node_def)
  show ?thesis
    using sync_keeps_stale_copy [where fs = ?fs and fs' = ?fs' and rnd = "\<lambda>_. 0" and outp = "''o''",
        OF toy_ext_ok s c p k o g, of sample_sync_env] b(1) l(1)
    unfolding Let_def by (simp add: sample_node_def sample_sync_env_def) blast
qed

theorem manifest_difference_exact_witness:
  "\<exists>h bs crom lh lbs lcrom lm m. packed_file toy_ext h [] sample_reader bs crom [2, 3, 1, 2, 3] \<and>
    packed_file toy_ext lh [] sample_reader lbs lcrom [1, 4, 5, 6] \<and>
    (let fs = [''b'' \<mapsto> sample_codebook, ''l'' \<mapsto> lcrom, ''f'' \<mapsto> crom]
     in GenerateManifest toy_ext fs ''l'' ''b'' [] = Inr lm \<and> GenerateManifest toy_ext fs ''f'' ''b'' [] = Inr m \<and>
        map meChunkSize (Missing (manifest_Diff lm m)) = [2, 2] \<and> map meChunkSize (Extra (manifest_Diff lm m)) = [3])"
proof -
  obtain h bs crom where b: "packed_file toy_ext h [] sample_reader bs crom [2, 3, 1, 2, 3]"
      "items_of bs = literal_items 0 [[2, 3], [1], [2, 3]]"
    using sample_literals [of "[[2, 3], [1], [2, 3]]"] by auto
  obtain lh lbs lcrom where l: "packed_file toy_ext lh [] sample_reader lbs lcrom [1, 4, 5, 6]"
      "items_of lbs = literal_items 0 [[1], [4, 5, 6]]"
    using sample_literals [of "[[1], [4, 5, 6]]"] by auto
  let ?fs = "[''b'' \<mapsto> sample_codebook, ''l'' \<mapsto> lcrom, ''f'' \<mapsto> crom]"
  have f: "?fs ''l'' = Some lcrom" "?fs ''f'' = Some crom" "cb_Open ?fs ''b'' = Inr sample_reader"
    using sample_codebook_opens(1) by (simp_all add: cb_Open_OpenFromBytes)
  have i: "inj_on (xxhash toy_ext) (residuals_of (items_of bs) \<union> residuals_of (items_of lbs))"
    unfolding b(2) l(2) literal_items_facts by (auto simp: toy_ext_def inj_on_def)
  obtain lm m where d: "GenerateManifest toy_ext ?fs ''l'' ''b'' [] = Inr lm" "GenerateManifest toy_ext ?fs ''f'' ''b'' [] = Inr m"
    "Missing (manifest_Diff lm m) = map (manifest_entry (xxhash toy_ext))
      (filter (\<lambda>it. chunk_content it \<notin> chunk_content ` set (items_of lbs)) (items_of bs))"
    "Extra (manifest_Diff lm m) = map (manifest_entry (xxhash toy_ext))
      (filter (\<lambda>it. chunk_content it \<notin> chunk_content ` set (items_of bs)) (items_of lbs))"
    using manifest_difference_exact [where fs = ?fs, OF toy_ext_ok l(1) b(1) f sample_reader_wf i] by blast
  have "map meChunkSize (Missing (manifest_Diff lm m)) = [2, 2]" "map meChunkSize (Extra (manifest_Diff lm m)) = [3]"
    by (simp_all add: d(3,4) b(2) l(2) chunk_content_def manifest_entry_def)
  with d(1,2) b(1) l(1) show ?thesis unfolding Let_def by (intro exI conjI) assumption+
qed

text \<open>
  A rename that fails: the session reports success, and the file it should bring up to date is gone.
\<close>

theorem sync_replaces_witness:
  "\<exists>h bs crom fs'. packed_file toy_ext h [] sample_reader bs crom [1, 2, 3] \<and>
    RequestSync toy_ext (sample_sync_env\<lparr>seRenames := False\<rparr>) sample_node
      (\<lambda>msgs. snd (handleStream toy_ext sample_node True [''b'' \<mapsto> sample_codebook, ''d/f.crom'' \<mapsto> crom] msgs)) ''f''
      [''b'' \<mapsto> sample_codebook, ''x'' \<mapsto> [8]] = (Inr (), fs') \<and>
    fs' ''d/f.crom'' = None \<and> fs' ''d/f.crom.tmp'' \<noteq> None \<and> fs' ''x'' = Some [8]"
proof -
  obtain h bs crom where b: "packed_file toy_ext h [] sample_reader bs crom [1, 2, 3]" "items_of bs = literal_items 0 [[1], [2, 3]]"
    using sample_literals [of "[[1], [2, 3]]"] by auto
  let ?env = "sample_sync_env\<lparr>seRenames := False\<rparr>"
  let ?fs' = "[''b'' \<mapsto> sample_codebook, ''d/f.crom'' \<mapsto> crom]" and ?fs = "[''b'' \<mapsto> sample_codebook, ''x'' \<mapsto> [8]]"
  have s: "serves_file toy_ext sample_node ?fs' (filepath_Base ''f'') h sample_reader bs [1, 2, 3]"
    by (rule sample_serves(1) [OF b(1)]) (simp_all add: b(2))
  have c: "cb_Open ?fs (nodeCodebookPath sample_node) = Inr sample_reader"
    using sample_codebook_opens(1) by (simp add: cb_Open_OpenFromBytes sample_node_def)
  have e: "sync_random_ok ?env" "seConnects ?env" by (simp_all add: sync_random_ok_def sample_sync_env_def NonceSize_def)
  have d: "''d/f.crom'' = wanted_path sample_node (filepath_Base ''f'')" by (simp only: sample_paths)
  have v: "local_version toy_ext ?fs ''d/f.crom'' (EncKey sample_node) sample_reader []" by (simp add: local_version_def)
  have i: "inj_on (xxhash toy_ext) (residuals_of (items_of bs) \<union> residuals_of [])"
    unfolding b(2) literal_items_facts by (auto simp: toy_ext_def inj_on_def residuals_of_def)
  have n: "\<not> item_key (xxhash toy_ext) ` set (items_of bs) \<subseteq> item_key (xxhash toy_ext) ` set []"
    unfolding b(2) literal_items_facts by simp
  obtain out where r: "RequestSync toy_ext ?env sample_node (\<lambda>msgs. snd (handleStream toy_ext sample_node True ?fs' msgs)) ''f'' ?fs =
      (Inr (), os_Rename ?env ''d/f.crom.tmp'' ''d/f.crom'' (os_Remove ?env ''d/f.crom'' (?fs(''d/f.crom.tmp'' \<mapsto> out))))"
    using RequestSync_rebuilds [where fs = ?fs and fs' = ?fs', OF toy_ext_ok e s c d v i n] by auto
  have t: "''d/f.crom.tmp'' = ''d/f.crom'' @ ''.tmp''" by simp
  have "os_Rename ?env ''d/f.crom.tmp'' ''d/f.crom'' (os_Remove ?env ''d/f.crom'' (?fs(''d/f.crom.tmp'' \<mapsto> out))) \<noteq> ?fs"
    by (rule notI, drule fun_cong [of _ _ "''d/f.crom.tmp''"]) (simp add: os_Rename_def)
  with sync_replaces [OF r d t] have "?thesis"
    using b(1) r by (intro exI [of _ h] exI [of _ bs] exI [of _ crom]
      exI [of _ "os_Rename ?env ''d/f.crom.tmp'' ''d/f.crom'' (os_Remove ?env ''d/f.crom'' (?fs(''d/f.crom.tmp'' \<mapsto> out)))"])
      (auto simp: sample_sync_env_def)
  then show ?thesis .
qed

theorem served_files_only_witness:
  "handleStream toy_ext sample_node True [''b'' \<mapsto> sample_codebook, ''d/f.crom'' \<mapsto> [9], ''secret.crom'' \<mapsto> [1]]
      (sendMsg MsgSyncReq (bytes_of_string ''../secret.crom'')) =
   handleStream toy_ext sample_node True [''b'' \<mapsto> sample_codebook, ''d/f.crom'' \<mapsto> [9]]
      (sendMsg MsgSyncReq (bytes_of_string ''../secret.crom''))"
  by (rule served_files_only) (simp_all add: sample_node_def in_dir_def sample_paths)

end
