(* ===== verification/Grep.thy ===== *)
theory Grep
  imports Vfs_Reader Sync_Session
begin

text \<open>
  \<^verbatim>\<open>pkg/cromlib/grep.go\<close>: searching a packed file through its codebook. The identifiers of the
  codewords that contain the text are found first, and then only the chunk table is scanned; the
  blocks of the first twenty matches are opened to show the content. What the function prints
  of a match is its result here. A remote file comes from the reader of \<^verbatim>\<open>internal/remote\<close>,
  which is a parameter: the bytes it serves.
\<close>

section \<open>The function\<close>

text \<open>Besides the matches the result has the cache of opened blocks as the scan leaves it.\<close>

definition bytes_Contains :: "bytes \<Rightarrow> bytes \<Rightarrow> bool" where
  "bytes_Contains b sub = list_ex (\<lambda>i. take (length sub) (drop i b) = sub) [0..<length b + 1 - length sub]"

fun match_ids :: "Reader \<Rightarrow> bytes \<Rightarrow> u64 list \<Rightarrow> u64 list res" where
  "match_ids cb target [] = Inr []"
| "match_ids cb target (i # is) =
     (case Lookup cb i of
        Inl GoPanic \<Rightarrow> Inl GoPanic
      | Inl (GoErr _) \<Rightarrow> match_ids cb target is
      | Inr pattern \<Rightarrow>
          rbind (match_ids cb target is) (\<lambda>rest. Inr (if bytes_Contains pattern target then i # rest else rest)))"

definition matched_ids :: "Reader \<Rightarrow> bytes \<Rightarrow> u64 list res" where
  "matched_ids cb target = match_ids cb target (map of_nat [0..<unat (CodewordCount (rHeader cb))])"

definition is_cloud :: "string \<Rightarrow> bool" where
  "is_cloud inputPath \<longleftrightarrow>
     7 < length inputPath \<and> (take 7 inputPath = ''http://'' \<or> take 8 inputPath = ''https://'')"

definition grep_table_size :: "Header \<Rightarrow> nat" where
  "grep_table_size header =
     (if 0 < TableBytes header then TableBytes header
      else unat (ChunkCount header) * unat (GetEntrySize (Version header)))"

text \<open>The content of a matching chunk, if it can be rebuilt.\<close>

definition grep_chunk :: "Reader \<Rightarrow> ChunkEntry \<Rightarrow> bytes \<Rightarrow> bytes res" where
  "grep_chunk cb entry res =
     (let cleanID = CodebookID entry AND clean_mask in
      if CodebookID entry = LiteralCodebookID then Inr res
      else
        (case Lookup cb cleanID of
           Inl GoPanic \<Rightarrow> Inl GoPanic
         | Inl (GoErr _) \<Rightarrow> Inr []
         | Inr pattern \<Rightarrow>
             (let usable = clip (EOriginalSize entry) pattern in
              if CodebookID entry AND FlagIsPatch \<noteq> 0 then
                (case ApplyPatch usable res of
                   Inl GoPanic \<Rightarrow> Inl GoPanic
                 | Inl (GoErr _) \<Rightarrow> Inr []
                 | Inr chunk \<Rightarrow> Inr chunk)
              else Inr (Apply usable (clip (EOriginalSize entry) res)))))"

definition on_one_line :: "bytes \<Rightarrow> bytes" where
  "on_one_line chunk = map (\<lambda>b. if b = 10 then 32 else b) chunk"

definition grep_content :: "Reader \<Rightarrow> ChunkEntry list \<Rightarrow> nat list \<Rightarrow> nat \<Rightarrow> ChunkEntry \<Rightarrow> bytes \<Rightarrow> bytes option res" where
  "grep_content cb entries starts blockIdx entry pool =
     (if length starts \<le> blockIdx \<or> length entries \<le> starts ! blockIdx then Inl GoPanic
      else
        rbind (residual_of pool (DeltaOffset (entries ! (starts ! blockIdx))) entry) (\<lambda>found.
          case found of
            None \<Rightarrow> Inr None
          | Some res \<Rightarrow>
              rbind (grep_chunk cb entry res) (\<lambda>chunk.
                let chunk = clip (EOriginalSize entry) chunk in
                Inr (if chunk = [] then None else Some (on_one_line chunk)))))"

text \<open>The pool of a block, from the cache or the file; a block that cannot be opened gives none.\<close>

definition grep_pool ::
  "ext \<Rightarrow> Reader \<Rightarrow> Header \<Rightarrow> bytes \<Rightarrow> u32 list \<Rightarrow> nat list \<Rightarrow> nat \<Rightarrow> (nat \<rightharpoonup> bytes) \<Rightarrow> (bytes option \<times> (nat \<rightharpoonup> bytes)) res" where
  "grep_pool X cb header crom blockTable blockOffsets blockIdx blockCache =
     (case blockCache blockIdx of
        Some pool \<Rightarrow> Inr (Some pool, blockCache)
      | None \<Rightarrow>
          if blockIdx < length blockTable then
            rbind (if UsesBrainDict header then Dictionary cb else Inr []) (\<lambda>dict.
              case DecompressPoolDict X (read_at crom (blockOffsets ! blockIdx) (unat (blockTable ! blockIdx))) dict of
                Inl GoPanic \<Rightarrow> Inl GoPanic
              | Inl (GoErr _) \<Rightarrow> Inr (None, blockCache)
              | Inr pool \<Rightarrow> Inr (Some pool, blockCache(blockIdx \<mapsto> pool)))
          else Inr (None, blockCache))"

record GrepMatch =
  gmIndex :: nat
  gmOffset :: u64
  gmContent :: "bytes option"

fun grep_entries ::
  "ext \<Rightarrow> Reader \<Rightarrow> Header \<Rightarrow> bytes \<Rightarrow> u32 list \<Rightarrow> nat list \<Rightarrow> ChunkEntry list \<Rightarrow> nat list \<Rightarrow> u64 list \<Rightarrow>
   nat \<Rightarrow> nat list \<Rightarrow> u64 \<Rightarrow> (nat \<rightharpoonup> bytes) \<Rightarrow> (GrepMatch list \<times> (nat \<rightharpoonup> bytes)) res" where
  "grep_entries X cb header crom blockTable blockOffsets entries starts matchedIDs matchCount [] approxOffset cache = Inr ([], cache)"
| "grep_entries X cb header crom blockTable blockOffsets entries starts matchedIDs matchCount (i # is) approxOffset cache =
     (let entry = entries ! i;
          nextOffset = approxOffset + ucast (EOriginalSize entry)
      in if CodebookID entry AND clean_mask \<notin> set matchedIDs
         then grep_entries X cb header crom blockTable blockOffsets entries starts matchedIDs matchCount is nextOffset cache
         else
           (let matchCount = matchCount + 1;
                blockIdx = sort_SearchInts starts (i + 1) - 1
            in rbind (if matchCount \<le> 20 then grep_pool X cb header crom blockTable blockOffsets blockIdx cache
                      else Inr (None, cache)) (\<lambda>(found, cache).
               rbind (case found of None \<Rightarrow> Inr None | Some pool \<Rightarrow> grep_content cb entries starts blockIdx entry pool) (\<lambda>content.
               rbind (grep_entries X cb header crom blockTable blockOffsets entries starts matchedIDs matchCount is nextOffset cache) (\<lambda>(rest, cache).
                 Inr (\<lparr>gmIndex = i, gmOffset = approxOffset, gmContent = content\<rparr> # rest, cache))))))"

definition Grep :: "ext \<Rightarrow> fs \<Rightarrow> (string \<Rightarrow> bytes res) \<Rightarrow> string \<Rightarrow> string \<Rightarrow> string \<Rightarrow> (GrepMatch list \<times> (nat \<rightharpoonup> bytes)) res" where
  "Grep X fs cloud target inputPath codebookPath =
     rbind (wrap_err ''grep: falha ao abrir codebook'' (cb_Open fs codebookPath)) (\<lambda>cb.
     rbind (matched_ids cb (bytes_of_string target)) (\<lambda>matchedIDs.
     rbind (if is_cloud inputPath then wrap_err ''grep remote'' (cloud inputPath)
            else (case fs inputPath of None \<Rightarrow> Inl (GoErr ''open'') | Some content \<Rightarrow> Inr content)) (\<lambda>crom.
     rbind (ReadMetadata X [] crom) (\<lambda>(header, blockTable, entries, _).
       if IsPassthrough header then Inl (GoErr ''grep nao suportado em arquivos passthrough (sem chunks semanticos)'')
       else
         (let baseOffset = vfs_header_size header + length blockTable * 4 + grep_table_size header;
              blockOffsets = block_offsets baseOffset blockTable
          in grep_entries X cb header crom blockTable blockOffsets entries (BlockStarts entries) matchedIDs 0
               [0..<length entries] 0 Map.empty)))))"

section \<open>Which codewords match\<close>

definition refers_to :: "Reader \<Rightarrow> bytes \<Rightarrow> ChunkEntry \<Rightarrow> bool" where
  "refers_to r target e \<longleftrightarrow>
     CodebookID e \<noteq> LiteralCodebookID \<and>
     (case Lookup r (CodebookID e AND clean_mask) of Inl _ \<Rightarrow> False | Inr p \<Rightarrow> bytes_Contains p target)"

lemma match_ids_ok:
  assumes "wf_reader r" "\<forall>i \<in> set is. i < CodewordCount (rHeader r)"
  shows "match_ids r target is = Inr (filter (\<lambda>i. bytes_Contains (codeword r (unat i)) target) is)"
  using assms(2) by (induction "is") (simp_all add: Lookup_codeword [OF assms(1)])

lemma matched_ids_ok:
  assumes "wf_reader r"
  shows "\<exists>ids. matched_ids r target = Inr ids \<and> set ids = {i. i < CodewordCount (rHeader r) \<and> bytes_Contains (codeword r (unat i)) target}"
proof -
  let ?n = "unat (CodewordCount (rHeader r))"
  have u: "unat (of_nat i :: u64) = i" if "i < ?n" for i
    using that unat_lt [of "CodewordCount (rHeader r)"] by (intro unat_of_nat_lt) simp
  have all: "set (map of_nat [0..<?n]) = {i :: u64. i < CodewordCount (rHeader r)}"
  proof -
    have "i \<in> set (map of_nat [0..<?n])" if "i < CodewordCount (rHeader r)" for i :: u64
      using that by (auto simp: word_less_nat_alt image_iff intro!: bexI [of _ "unat i"])
    then show ?thesis using u by (auto simp: word_less_nat_alt)
  qed
  then have "matched_ids r target = Inr (filter (\<lambda>i. bytes_Contains (codeword r (unat i)) target) (map of_nat [0..<?n]))"
    unfolding matched_ids_def by (intro match_ids_ok [OF assms]) blast
  then show ?thesis using all by auto
qed

lemma matched_refers:
  assumes "wf_reader r" "unat (CodewordCount (rHeader r)) < 2 ^ 60"
    and "set ids = {i. i < CodewordCount (rHeader r) \<and> bytes_Contains (codeword r (unat i)) target}"
  shows "CodebookID e AND clean_mask \<in> set ids \<longleftrightarrow> refers_to r target e"
proof (cases "CodebookID e = LiteralCodebookID")
  case True
  have "(LiteralCodebookID AND clean_mask :: u64) = clean_mask" by (simp add: LiteralCodebookID_def)
  moreover have "unat clean_mask = 2 ^ 60 - 1" by (simp add: clean_mask_def)
  ultimately have "\<not> CodebookID e AND clean_mask < CodewordCount (rHeader r)"
    using True assms(2) by (simp add: word_less_nat_alt)
  then show ?thesis using True assms(3) by (simp add: refers_to_def)
next
  case False
  let ?c = "CodebookID e AND clean_mask"
  show ?thesis
  proof (cases "?c < CodewordCount (rHeader r)")
    case True
    then show ?thesis using False Lookup_codeword [OF assms(1) True] assms(3) by (simp add: refers_to_def)
  next
    case out: False
    obtain err where err: "Lookup r ?c = Inl err" using out Lookup_out_of_range [of r ?c] by fastforce
    have "\<not> refers_to r target e" by (simp add: refers_to_def err)
    moreover have "?c \<notin> set ids" using out unfolding assms(3) by simp
    ultimately show ?thesis by simp
  qed
qed

section \<open>Showing a match\<close>

lemma grep_chunk_ok:
  assumes "decodes r (e, rs, c)" "CodebookIndex e \<noteq> FractalCodebookIndex"
  shows "grep_chunk r e rs = Inr c"
proof (cases "CodebookID e = LiteralCodebookID")
  case True
  then show ?thesis using assms(1) by (simp add: decodes_def reconstructChunk_def grep_chunk_def)
next
  case False
  obtain p where p: "Lookup r (CodebookID e AND clean_mask) = Inr p"
    "(if CodebookID e AND FlagIsPatch \<noteq> 0 then ApplyPatch (clip (EOriginalSize e) p) rs
      else Inr (Apply (clip (EOriginalSize e) p) (clip (EOriginalSize e) rs))) = Inr c"
    using assms False by (auto simp: decodes_def reconstructChunk_def Let_def rbind_Inr_iff)
  then show ?thesis using False by (simp add: grep_chunk_def Let_def split: if_splits)
qed

text \<open>The facts about a packed file that the scan uses: where its blocks are and how they open.\<close>

definition grep_source :: "ext \<Rightarrow> Reader \<Rightarrow> Header \<Rightarrow> bytes \<Rightarrow> nat list \<Rightarrow> packed \<Rightarrow> bool" where
  "grep_source X r h crom offsets bs \<longleftrightarrow>
     (\<forall>b < length bs. read_at crom (offsets ! b) (length (snd (bs ! b))) = snd (bs ! b)) \<and>
     (\<exists>dict. (if UsesBrainDict h then Dictionary r else Inr []) = Inr dict \<and>
        (\<forall>b \<in> set bs. DecompressPoolDict X (snd b) dict = Inr (pool_of (fst b)) \<and> length (snd b) < 2 ^ 32))"

definition cache_right :: "packed \<Rightarrow> (nat \<rightharpoonup> bytes) \<Rightarrow> bool" where
  "cache_right bs cache \<longleftrightarrow> (\<forall>b pool. cache b = Some pool \<longrightarrow> b < length bs \<and> pool = pool_of (fst (bs ! b)))"

lemma grep_pool_ok:
  assumes s: "grep_source X r h crom offsets bs" and c: "cache_right bs cache" and b: "b < length bs"
  shows "\<exists>cache'. grep_pool X r h crom (sizes_of bs) offsets b cache = Inr (Some (pool_of (fst (bs ! b))), cache') \<and>
    cache_right bs cache' \<and> dom cache' = insert b (dom cache)"
proof (cases "cache b")
  case (Some pool)
  then show ?thesis using c by (auto simp: grep_pool_def cache_right_def insert_absorb)
next
  case None
  obtain dict where d: "(if UsesBrainDict h then Dictionary r else Inr []) = Inr dict"
    "DecompressPoolDict X (snd (bs ! b)) dict = Inr (pool_of (fst (bs ! b)))" "length (snd (bs ! b)) < 2 ^ 32"
    using s nth_mem [OF b] by (auto simp: grep_source_def)
  have "unat (sizes_of bs ! b) = length (snd (bs ! b))"
    using d(3) b by (simp add: sizes_of_def unat_of_nat_lt)
  moreover have "read_at crom (offsets ! b) (length (snd (bs ! b))) = snd (bs ! b)"
    using s b by (simp add: grep_source_def)
  moreover have "b < length (sizes_of bs)" using b by (simp add: sizes_of_def)
  moreover have "cache_right bs (cache(b \<mapsto> pool_of (fst (bs ! b))))" using c b by (simp add: cache_right_def)
  ultimately show ?thesis using d(1,2) None by (simp add: grep_pool_def)
qed

lemma grep_content_ok:
  assumes l: "laid_out r 0 (items_of bs)" "length (pool_of (items_of bs)) < 2 ^ 63"
    and b: "b < length bs" "j < length (fst (bs ! b))" and e: "fst (bs ! b) ! j = (e, rs, c)"
    and plain: "CodebookIndex e \<noteq> FractalCodebookIndex"
  shows "grep_content r (map fst (items_of bs)) (starts_of 0 (entry_blocks bs)) b e (pool_of (fst (bs ! b))) =
    Inr (Some (on_one_line c))"
proof -
  let ?pre = "take b bs" and ?post = "drop (Suc b) bs" and ?its = "fst (bs ! b)"
  have bs: "bs = ?pre @ bs ! b # ?post" using id_take_nth_drop [OF b(1)] by simp
  have ne: "fst (bs ! b) \<noteq> []" using b(2) by auto
  have st: "starts_of 0 (entry_blocks bs) ! b = length (items_of ?pre)"
    using b(1) by (simp add: starts_of_nth length_items_take)
  have base: "length (items_of ?pre) < length (map fst (items_of bs))"
    "DeltaOffset (map fst (items_of bs) ! length (items_of ?pre)) = of_nat (length (pool_of (items_of ?pre)))"
    "laid_out r (length (pool_of (items_of ?pre))) ?its"
    using base_of_block [of r ?pre "bs ! b" ?post] l(1) ne by (simp_all flip: bs)
  have its: "?its = take j ?its @ (e, rs, c) # drop (Suc j) ?its" using id_take_nth_drop [OF b(2)] e by simp
  have "length (pool_of (items_of bs)) = length (pool_of (items_of ?pre)) + length (pool_of ?its) + length (pool_of (items_of ?post))"
    by (subst bs) (simp add: items_of_def)
  then have "residual_of (pool_of ?its) (of_nat (length (pool_of (items_of ?pre)))) e = Inr (Some rs)"
    using residual_of_laid [of r "length (pool_of (items_of ?pre))" "take j ?its" e rs c "drop (Suc j) ?its"] base(3) l(2)
    by (simp flip: its)
  moreover have d: "decodes r (e, rs, c)" using laid_out_decodes [OF base(3)] nth_mem [OF b(2)] e by simp
  moreover have "clip (EOriginalSize e) c = c" "c \<noteq> []" using d by (auto simp: decodes_def clip_def)
  ultimately show ?thesis
    using grep_chunk_ok [OF d plain] base(1,2) b(1) by (simp add: grep_content_def st Let_def)
qed

section \<open>The scan\<close>

definition chunk_match :: "item list \<Rightarrow> nat \<times> nat \<Rightarrow> GrepMatch" where
  "chunk_match its m =
     (case m of (k, i) \<Rightarrow>
        \<lparr>gmIndex = i, gmOffset = of_nat (length (content_of (take i its))),
         gmContent = (if k < 20 then Some (on_one_line (snd (snd (its ! i)))) else None)\<rparr>)"

text \<open>The chunks from \<open>i\<close> on whose codewords contain the text, and the block that holds a chunk.\<close>

definition grep_hits :: "Reader \<Rightarrow> bytes \<Rightarrow> item list \<Rightarrow> nat \<Rightarrow> nat list" where
  "grep_hits r target its i = filter (\<lambda>i. refers_to r target (fst (its ! i))) [i ..< length its]"

definition in_block :: "packed \<Rightarrow> nat \<Rightarrow> nat \<Rightarrow> bool" where
  "in_block bs b i \<longleftrightarrow> b < length bs \<and>
     length (items_of (take b bs)) \<le> i \<and> i < length (items_of (take b bs)) + length (fst (bs ! b))"

lemma in_block_unique:
  "b < length bs \<Longrightarrow> j < length (fst (bs ! b)) \<Longrightarrow> {b'. in_block bs b' (length (items_of (take b bs)) + j)} = {b}"
proof -
  assume b: "b < length bs" "j < length (fst (bs ! b))"
  have "b' = b" if a: "in_block bs b' (length (items_of (take b bs)) + j)" for b'
  proof -
    let ?j = "length (items_of (take b bs)) + j - length (items_of (take b' bs))"
    have j: "b' < length bs" "?j < length (fst (bs ! b'))"
      "length (items_of (take b bs)) + j = length (items_of (take b' bs)) + ?j"
      using a unfolding in_block_def by linarith+
    from find_block [OF j] find_block [OF b refl] show ?thesis by simp
  qed
  with b show ?thesis by (auto simp: in_block_def)
qed

lemma grep_entries_ok:
  assumes s: "grep_source X r h crom offsets bs" and l: "laid_out r 0 (items_of bs)" "length (pool_of (items_of bs)) < 2 ^ 63"
    and plain: "\<forall>e \<in> fst ` set (items_of bs). CodebookIndex e \<noteq> FractalCodebookIndex"
    and ids: "\<And>e. CodebookID e AND clean_mask \<in> set ids \<longleftrightarrow> refers_to r target e"
  shows "i \<le> length (items_of bs) \<Longrightarrow> cache_right bs cache \<Longrightarrow> \<exists>cache'.
    grep_entries X r h crom (sizes_of bs) offsets (map fst (items_of bs)) (starts_of 0 (entry_blocks bs)) ids k
      [i ..< length (items_of bs)] (of_nat (length (content_of (take i (items_of bs))))) cache =
    Inr (map (chunk_match (items_of bs)) (enumerate k (grep_hits r target (items_of bs) i)), cache') \<and>
    dom cache' = dom cache \<union> {b. \<exists>i \<in> set (take (20 - k) (grep_hits r target (items_of bs) i)). in_block bs b i}"
proof (induction "length (items_of bs) - i" arbitrary: i k cache)
  case 0
  then show ?case by (simp add: grep_hits_def)
next
  case (Suc n)
  let ?its = "items_of bs"
  let ?off = "\<lambda>i. of_nat (length (content_of (take i ?its))) :: u64"
  have i: "i < length ?its" and n: "n = length ?its - Suc i" using Suc.hyps(2) by simp_all
  obtain e rs c where it: "?its ! i = (e, rs, c)" by (cases "?its ! i") auto
  have mem: "(e, rs, c) \<in> set ?its" using nth_mem [OF i] it by simp
  have "unat (EOriginalSize e) = length c" using laid_out_decodes [OF l(1) mem] by (simp add: decodes_def)
  then have "(ucast (EOriginalSize e) :: u64) = of_nat (length c)" by (metis of_nat_unat)
  then have off: "?off i + ucast (EOriginalSize e) = ?off (Suc i)"
    using i it by (simp add: take_Suc_conv_app_nth)
  have upt: "[i ..< length ?its] = i # [Suc i ..< length ?its]" by (rule upt_conv_Cons [OF i])
  have e: "map fst ?its ! i = e" using i it by simp
  note IH = Suc.hyps(1) [OF n Suc_leI [OF i]]
  let ?go = "\<lambda>k is. grep_entries X r h crom (sizes_of bs) offsets (map fst ?its) (starts_of 0 (entry_blocks bs)) ids k is"
  show ?case
  proof (cases "refers_to r target e")
    case False
    then have "grep_hits r target ?its i = grep_hits r target ?its (Suc i)" unfolding grep_hits_def upt by (simp add: it)
    then show ?thesis using False IH [OF Suc.prems(2), of k] unfolding upt by (simp add: it e ids Let_def off)
  next
    case True
    then have hits: "grep_hits r target ?its i = i # grep_hits r target ?its (Suc i)" unfolding grep_hits_def upt by (simp add: it)
    obtain b j where b: "b < length bs" "j < length (fst (bs ! b))" "i = length (items_of (take b bs)) + j" "fst (bs ! b) ! j = (e, rs, c)"
      using locate_block [OF i] it by force
    have blk: "sort_SearchInts (starts_of 0 (entry_blocks bs)) (i + 1) - 1 = b" using find_block [OF b(1-3)] by simp
    have in_ids: "CodebookID e AND clean_mask \<in> set ids" using True ids by simp
    show ?thesis
    proof (cases "k < 20")
      case True
      obtain cache' where c': "grep_pool X r h crom (sizes_of bs) offsets b cache = Inr (Some (pool_of (fst (bs ! b))), cache')"
        "cache_right bs cache'" "dom cache' = insert b (dom cache)"
        using grep_pool_ok [OF s Suc.prems(2) b(1)] by blast
      have "CodebookIndex e \<noteq> FractalCodebookIndex" using plain mem by force
      note cont = grep_content_ok [OF l b(1,2,4) this]
      have "20 - k = Suc (20 - Suc k)" using True by simp
      then have tk: "take (20 - k) (grep_hits r target ?its i) = i # take (20 - Suc k) (grep_hits r target ?its (Suc i))"
        unfolding hits by simp
      have ib: "{b. in_block bs b i} = {b}" using in_block_unique [OF b(1,2)] b(3) by simp
      obtain last where "?go (Suc k) [Suc i ..< length ?its] (?off (Suc i)) cache' =
          Inr (map (chunk_match ?its) (enumerate (Suc k) (grep_hits r target ?its (Suc i))), last)"
        and dom: "dom last = dom cache' \<union> {b. \<exists>i \<in> set (take (20 - Suc k) (grep_hits r target ?its (Suc i))). in_block bs b i}"
        using IH [OF c'(2), of "Suc k"] by blast
      then have "?go k [i ..< length ?its] (?off i) cache =
          Inr (map (chunk_match ?its) (enumerate k (grep_hits r target ?its i)), last)"
        unfolding upt hits grep_entries.simps Let_def e blk using in_ids True by (simp add: c'(1) cont off chunk_match_def it)
      moreover have "dom last = dom cache \<union> {b. \<exists>i \<in> set (take (20 - k) (grep_hits r target ?its i)). in_block bs b i}"
        unfolding dom tk c'(3) using ib by auto
      ultimately show ?thesis by blast
    next
      case False
      obtain last where "?go (Suc k) [Suc i ..< length ?its] (?off (Suc i)) cache =
          Inr (map (chunk_match ?its) (enumerate (Suc k) (grep_hits r target ?its (Suc i))), last)"
        and dom: "dom last = dom cache \<union> {b. \<exists>i \<in> set (take (20 - Suc k) (grep_hits r target ?its (Suc i))). in_block bs b i}"
        using IH [OF Suc.prems(2), of "Suc k"] by blast
      then have "?go k [i ..< length ?its] (?off i) cache =
          Inr (map (chunk_match ?its) (enumerate k (grep_hits r target ?its i)), last)"
        unfolding upt hits grep_entries.simps Let_def e blk using in_ids False by (simp add: off chunk_match_def it)
      moreover have "dom last = dom cache \<union> {b. \<exists>i \<in> set (take (20 - k) (grep_hits r target ?its i)). in_block bs b i}"
        unfolding dom using False by simp
      ultimately show ?thesis by blast
    qed
  qed
qed

lemma grep_source_packed:
  assumes p: "packed_file X h ek r bs crom input" and k: "\<not> IsEncrypted h" and r: "wf_reader r"
    and c: "crom = crom_file h (sizes_of bs) t @ frames_of bs"
  shows "grep_source X r ((stored_header h)\<lparr>TableBytes := length t\<rparr>) crom
    (block_offsets (length (crom_file h (sizes_of bs) t)) (sizes_of bs)) bs"
proof -
  have b: "frames_ok X h ek r bs" using p by (simp add: packed_file_def packed_blocks_def)
  have v: "Version3 \<le> Version h" "Version h \<le> Version8" using p by (simp_all add: packed_file_def packed_header_def)
  have fr: "\<forall>b \<in> set bs. length (snd b) < 2 ^ 32" using b by (auto simp: frames_ok_def)
  obtain d where d: "(if UsesBrainDict h then Dictionary r else Inr []) = Inr d" using dict_for_ok [OF r] by blast
  have "DecompressPoolDict X (snd b) d = Inr (pool_of (fst b))" if "b \<in> set bs" for b
  proof -
    have "open_block_data X h ek r (snd b) = Inr (pool_of (fst b))" using b that by (auto simp: frames_ok_def)
    then show ?thesis using k d by (simp add: open_block_data_def rbind_Inr_iff)
  qed
  moreover have "read_at crom (block_offsets (length (crom_file h (sizes_of bs) t)) (sizes_of bs) ! b) (length (snd (bs ! b))) = snd (bs ! b)"
    if "b < length bs" for b
    unfolding block_offsets_nth [OF fr that] c by (rule read_at_frame(2) [OF that])
  ultimately show ?thesis using d fr by (simp add: grep_source_def stored_fields [OF v])
qed

lemma Grep_packed:
  assumes X: "zstd_ok X" "zstd_bound X" "gcm_ok X" "hash_sizes_ok X" and p: "packed_file X h [] r bs crom input"
    and k: "\<not> IsEncrypted h" and f: "\<not> is_cloud path" "fs path = Some crom"
    and cb: "cb_Open fs cbp = Inr r" "wf_reader r" "unat (CodewordCount (rHeader r)) < 2 ^ 60"
    and plain: "\<forall>e \<in> fst ` set (items_of bs). CodebookIndex e \<noteq> FractalCodebookIndex"
  shows "\<exists>cache. Grep X fs cloud target path cbp =
      Inr (map (chunk_match (items_of bs)) (enumerate 0 (grep_hits r (bytes_of_string target) (items_of bs) 0)), cache) \<and>
    dom cache = {b. \<exists>i \<in> set (take 20 (grep_hits r (bytes_of_string target) (items_of bs) 0)). in_block bs b i}"
proof -
  obtain t where rd: "ReadStream X [] crom =
      Inr ((stored_header h)\<lparr>TableBytes := length t\<rparr>, sizes_of bs, map fst (items_of bs), frames_of bs)"
    "0 < length t" "crom = crom_file h (sizes_of bs) t @ frames_of bs"
    using ReadStream_packed [OF X p] by blast
  let ?h = "(stored_header h)\<lparr>TableBytes := length t\<rparr>"
  have v: "wf_header h" "Version3 \<le> Version h" "Version h \<le> Version8" "\<not> IsPassthrough h"
    using p by (simp_all add: packed_file_def packed_header_def)
  have b: "laid_out r 0 (items_of bs)" "length (pool_of (items_of bs)) < 2 ^ 63" "full_blocks bs"
    using p by (simp_all add: packed_file_def packed_blocks_def)
  have md: "ReadMetadata X [] crom = Inr (?h, sizes_of bs, map fst (items_of bs), frames_of bs)"
    using rd(1) by (simp add: ReadStream_def)
  obtain ids where ids: "matched_ids r (bytes_of_string target) = Inr ids"
    "\<And>e. CodebookID e AND clean_mask \<in> set ids \<longleftrightarrow> refers_to r (bytes_of_string target) e"
    using matched_ids_ok [OF cb(2), of "bytes_of_string target"] matched_refers [OF cb(2,3)] by blast
  have hs: "vfs_header_size ?h = vfs_header_size (stored_header h)" by (simp add: vfs_header_size_def)
  have base: "vfs_header_size ?h + length bs * 4 + grep_table_size ?h = length (crom_file h (sizes_of bs) t)"
    using rd(2) unfolding hs by (simp add: crom_file_length stored_header_size [OF v(1-3)] grep_table_size_def)
  have st: "BlockStarts (map fst (items_of bs)) = starts_of 0 (entry_blocks bs)"
    using BlockStarts_packed [OF _ b(3)] laid_out_decodes [OF b(1)] by (metis concat_entry_blocks)
  have pt: "\<not> IsPassthrough ?h" using v by (simp add: stored_fields)
  have "cache_right bs Map.empty" by (simp add: cache_right_def)
  from grep_entries_ok [OF grep_source_packed [OF p k cb(2) rd(3)] b(1,2) plain ids(2) le0 this, of 0] show ?thesis
    using f pt unfolding Grep_def Let_def cb(1) by (simp add: ids(1) md base st)
qed

lemma chunk_bytes:
  assumes "\<forall>it \<in> set its. decodes r it" "i < length its"
  shows "take (unat (EOriginalSize (fst (its ! i)))) (drop (length (content_of (take i its))) (content_of its)) = snd (snd (its ! i))"
proof -
  obtain e rs c where it: "its ! i = (e, rs, c)" by (cases "its ! i") auto
  have "unat (EOriginalSize e) = length c" using assms nth_mem [OF assms(2)] it by (auto simp: decodes_def)
  moreover have "content_of its = content_of (take i its) @ c @ content_of (drop (Suc i) its)"
    using id_take_nth_drop [OF assms(2)] it by (metis content_of_simps(2,3))
  ultimately show ?thesis using it by simp
qed

section \<open>Properties\<close>

text \<open>
  C16. The search reports exactly the chunks it can: on an unencrypted packed file without
  generated chunks (and with fewer than \<open>2 ^ 60\<close> codewords) it lists, in order, the indices of the
  chunks whose entry names a codeword that contains the text, each with the offset of the chunk in
  the original input, and with the first twenty it shows the bytes of the input there (newlines as
  spaces). The blocks it opens are those that hold these twenty chunks and no others: its cache, which
  every opened block goes to, ends with them. Chunks stored as literals are never listed.
\<close>

theorem grep_exact:
  assumes "zstd_ok X" "zstd_bound X" "gcm_ok X" "hash_sizes_ok X" "packed_file X h [] r bs crom input"
    and "\<not> IsEncrypted h" "\<not> is_cloud path" "fs path = Some crom"
    and "cb_Open fs cbp = Inr r" "wf_reader r" "unat (CodewordCount (rHeader r)) < 2 ^ 60"
    and "\<forall>e \<in> fst ` set (items_of bs). CodebookIndex e \<noteq> FractalCodebookIndex"
  shows "\<exists>ms cache. Grep X fs cloud target path cbp = Inr (ms, cache) \<and>
    map gmIndex ms =
      filter (\<lambda>i. refers_to r (bytes_of_string target) (map fst (items_of bs) ! i)) [0 ..< length (items_of bs)] \<and>
    (\<forall>k < length ms.
       let i = gmIndex (ms ! k); off = entries_size (take i (map fst (items_of bs)));
           n = unat (EOriginalSize (map fst (items_of bs) ! i))
       in gmOffset (ms ! k) = of_nat off \<and>
          gmContent (ms ! k) = (if k < 20 then Some (on_one_line (take n (drop off input))) else None)) \<and>
    dom cache = {b. \<exists>m \<in> set (take 20 ms). in_block bs b (gmIndex m)}"
proof -
  let ?its = "items_of bs"
  let ?hits = "grep_hits r (bytes_of_string target) ?its 0"
  let ?ms = "map (chunk_match ?its) (enumerate 0 ?hits)"
  have d: "\<forall>it \<in> set ?its. decodes r it" and input: "content_of ?its = input"
    using assms(5) laid_out_decodes by (auto simp: packed_file_def packed_blocks_def)
  have "let i = gmIndex (?ms ! k); off = entries_size (take i (map fst ?its)); n = unat (EOriginalSize (map fst ?its ! i))
      in gmOffset (?ms ! k) = of_nat off \<and>
         gmContent (?ms ! k) = (if k < 20 then Some (on_one_line (take n (drop off input))) else None)"
    if k: "k < length ?hits" for k
  proof -
    have i: "?hits ! k < length ?its" using nth_mem [OF k] by (auto simp: grep_hits_def)
    have m: "?ms ! k = chunk_match ?its (k, ?hits ! k)" using k by (simp add: nth_enumerate_eq)
    have off: "entries_size (take (?hits ! k) (map fst ?its)) = length (content_of (take (?hits ! k) ?its))"
      using entries_size_items [of "take (?hits ! k) ?its" r] d by (auto simp: take_map dest: in_set_takeD)
    show ?thesis
      using chunk_bytes [OF d i] i unfolding m by (simp add: chunk_match_def off input)
  qed
  moreover have ix: "map gmIndex ?ms = ?hits"
    by (simp add: comp_def chunk_match_def case_prod_unfold flip: snd_def)
  moreover have "?hits = filter (\<lambda>i. refers_to r (bytes_of_string target) (map fst ?its ! i)) [0 ..< length ?its]"
    unfolding grep_hits_def by (rule filter_cong) auto
  moreover obtain cache where "Grep X fs cloud target path cbp = Inr (?ms, cache)"
    "dom cache = {b. \<exists>i \<in> set (take 20 ?hits). in_block bs b i}"
    using Grep_packed [OF assms, of cloud target] by blast
  moreover have "take 20 ?hits = map gmIndex (take 20 ?ms)" using arg_cong [OF ix, of "take 20"] by (simp only: take_map)
  then have "set (take 20 ?hits) = gmIndex ` set (take 20 ?ms)" by (simp only: set_map)
  ultimately show ?thesis by (intro exI [of _ ?ms] exI [of _ cache]) simp
qed

definition sample_found :: "item list" where
  "sample_found =
     [(\<lparr>CodebookID = LiteralCodebookID, DeltaOffset = 0, DeltaSize = 1, EOriginalSize = 1, CodebookIndex = 0\<rparr>, [9], [9]),
      (\<lparr>CodebookID = 1, DeltaOffset = 1, DeltaSize = 2, EOriginalSize = 2, CodebookIndex = 0\<rparr>, [0, 0], [3, 4])]"

theorem grep_exact_witness:
  "\<exists>crom ms cache. Grep toy_ext [''f'' \<mapsto> crom, ''b'' \<mapsto> sample_codebook] (\<lambda>_. Inr []) [CHR 0x04] ''f'' ''b'' = Inr (ms, cache) \<and>
     map gmIndex ms = [1] \<and> gmOffset (ms ! 0) = 1 \<and> gmContent (ms ! 0) = Some [3, 4]"
proof -
  have c1: "codeword sample_reader 1 = [3, 4]" "CodewordCount (rHeader sample_reader) = 3"
    "Lookup sample_reader 1 = Inr [3, 4]"
    by code_simp+
  have "decodes sample_reader (fst (sample_found ! 1), [0, 0], [3, 4])"
    by (rule decodes_codeword [OF sample_reader_wf, of 1])
      (simp_all add: c1 c1(1) [simplified] sample_found_def small_id_def FractalCodebookIndex_def Apply_def)
  moreover have "decodes sample_reader (fst (sample_found ! 0), [9], [9])"
    by (rule decodes_literal) (simp_all add: sample_found_def FractalCodebookIndex_def)
  ultimately have l: "laid_out sample_reader 0 sample_found" by (simp add: sample_found_def)
  obtain dict where d: "Dictionary sample_reader = Inr dict" using Dictionary_ok [OF sample_reader_wf] by blast
  have "table_fits (map fst sample_found)" 
    by (simp add: table_fits_def wf_table_def sample_found_def)
  with items_packed [OF toy_ext_ok d l] obtain h bs crom where
    p: "packed_file toy_ext h [] sample_reader bs crom (content_of sample_found)" "items_of bs = sample_found" "\<not> IsEncrypted h"
    by (auto simp: sample_found_def)
  let ?fs = "[''f'' \<mapsto> crom, ''b'' \<mapsto> sample_codebook]"
  have f: "?fs ''f'' = Some crom" "cb_Open ?fs ''b'' = Inr sample_reader" "\<not> is_cloud ''f''"
    by (simp_all add: cb_Open_OpenFromBytes sample_codebook_opens(1) is_cloud_def)
  have fr: "\<forall>e \<in> fst ` set (items_of bs). CodebookIndex e \<noteq> FractalCodebookIndex"
    unfolding p(2) by (simp add: sample_found_def FractalCodebookIndex_def)
  have hits: "filter (\<lambda>i. refers_to sample_reader (bytes_of_string [CHR 0x04]) (map fst (items_of bs) ! i)) [0 ..< length (items_of bs)] = [1]"
    unfolding p(2)
    by (simp add: sample_found_def refers_to_def c1 LiteralCodebookID_def bytes_Contains_def bytes_of_string_def clean_mask_def upt_rec)
  have c: "unat (CodewordCount (rHeader sample_reader)) < 2 ^ 60" by (simp add: c1)
  from grep_exact [where cloud = "\<lambda>_. Inr []" and target = "[CHR 0x04]", OF toy_ext_ok p(1) p(3) f(3,1,2) sample_reader_wf c fr] obtain ms cache where
    ms: "Grep toy_ext ?fs (\<lambda>_. Inr []) [CHR 0x04] ''f'' ''b'' = Inr (ms, cache)" "map gmIndex ms = [1]"
    "\<forall>k < length ms. let i = gmIndex (ms ! k); off = entries_size (take i (map fst (items_of bs)));
           n = unat (EOriginalSize (map fst (items_of bs) ! i))
       in gmOffset (ms ! k) = of_nat off \<and>
          gmContent (ms ! k) = (if k < 20 then Some (on_one_line (take n (drop off (content_of sample_found)))) else None)"
    unfolding hits by (elim exE conjE) (rule that)
  have "length ms = 1" using arg_cong [OF ms(2), of length] by simp
  then obtain m where m: "ms = [m]" by (auto simp: length_Suc_conv)
  then have i: "gmIndex m = 1" using ms(2) by simp
  have "gmOffset m = 1 \<and> gmContent m = Some [3, 4]"
    using spec [OF ms(3), of 0] unfolding p(2) m by (simp add: i sample_found_def entries_size_def on_one_line_def)
  then show ?thesis using ms(1) m i by (intro exI [of _ crom] exI [of _ ms] exI [of _ cache]) simp
qed

end
