(* ===== verification/Inode_Db.thy ===== *)
theory Inode_Db
  imports Paths "HOL-Library.AList" "HOL-Library.Multiset" "HOL-Library.Sublist"
begin

text \<open>
  \<^verbatim>\<open>pkg/cromdb\<close>: the index of files and directories behind a mounted tree, once over an SQL table
  (\<^verbatim>\<open>db.go\<close>, \<^verbatim>\<open>inode.go\<close>) and once over a map in memory, for the WebAssembly build (\<^verbatim>\<open>wasm.go\<close>).
  SQLite is imported; of it the model has what the statements of the source say: the columns, the
  uniqueness of \<open>(parent_id, name)\<close>, the update on conflict, and identifiers that were never used
  before. Times of modification are left out.
\<close>

section \<open>Inodes\<close>

record Inode =
  inID :: int
  inParent :: int
  inName :: string
  inIsDir :: bool
  inSize :: int
  inHash :: string
  inMode :: u32

text \<open>The elements of a path that is ingested.\<close>

definition path_parts :: "string \<Rightarrow> string list" where
  "path_parts fullPath =
     (let parts = path_elements [] (filepath_Clean fullPath)
      in if 0 < length parts \<and> parts ! 0 = [] then tl parts else parts)"

text \<open>The loop over the directories of a path, with \<open>getOrCreateDir\<close> as an argument.\<close>

fun sync_tree :: "(int \<Rightarrow> string \<Rightarrow> 's \<Rightarrow> int res \<times> 's) \<Rightarrow> int \<Rightarrow> string list \<Rightarrow> 's \<Rightarrow> int res \<times> 's" where
  "sync_tree mkdir parentID [] s = (Inr parentID, s)"
| "sync_tree mkdir parentID (dirName # dirs) s =
     (case mkdir parentID dirName s of
        (Inl e, s) \<Rightarrow> (wrap_err ''failed to sync tree'' (Inl e), s)
      | (Inr newParent, s) \<Rightarrow> sync_tree mkdir newParent dirs s)"

definition ingest_parts ::
  "(int \<Rightarrow> string \<Rightarrow> 's \<Rightarrow> int res \<times> 's) \<Rightarrow> (int \<Rightarrow> string \<Rightarrow> 's \<Rightarrow> unit res \<times> 's) \<Rightarrow> string list \<Rightarrow> 's \<Rightarrow> unit res \<times> 's" where
  "ingest_parts mkdir insert_file parts s =
     (if parts = [] then (Inl GoPanic, s)
      else
        (case sync_tree mkdir 1 (butlast parts) s of
           (Inl e, s) \<Rightarrow> (Inl e, s)
         | (Inr parentID, s) \<Rightarrow> insert_file parentID (last parts) s))"

section \<open>The SQL table\<close>

text \<open>A row, with \<open>NULL\<close> as \<open>None\<close>; \<open>sqSequence\<close> is the largest identifier there ever was.\<close>

record Row =
  rwID :: int
  rwParent :: int
  rwName :: string
  rwIsDir :: bool
  rwSize :: "int option"
  rwHash :: "string option"
  rwMode :: u32

record SqlTree =
  sqRows :: "Row list"
  sqSequence :: int

text \<open>
  A new identifier is larger than any before; by how much is up to the library (\<open>skip\<close>).
\<close>

definition sql_insert :: "(int \<Rightarrow> nat) \<Rightarrow> (int \<Rightarrow> Row) \<Rightarrow> SqlTree \<Rightarrow> int res \<times> SqlTree" where
  "sql_insert skip row db =
     (let newID = sqSequence db + 1 + int (skip (sqSequence db)); new = row newID in
      if list_ex (\<lambda>r. rwParent r = rwParent new \<and> rwName r = rwName new) (sqRows db)
      then (Inl (GoErr ''UNIQUE constraint failed: inodes.parent_id, inodes.name''), db)
      else (Inr newID, \<lparr>sqRows = sqRows db @ [new], sqSequence = newID\<rparr>))"

definition NewTreeFS :: "SqlTree option \<Rightarrow> SqlTree" where
  "NewTreeFS existing =
     (let db = (case existing of None \<Rightarrow> \<lparr>sqRows = [], sqSequence = 0\<rparr> | Some db \<Rightarrow> db);
          root = \<lparr>rwID = 1, rwParent = 0, rwName = [], rwIsDir = True, rwSize = None, rwHash = None, rwMode = 16877\<rparr>
      in if list_ex (\<lambda>r. rwID r = 1) (sqRows db) \<or> list_ex (\<lambda>r. rwParent r = 0 \<and> rwName r = []) (sqRows db) then db
         else \<lparr>sqRows = sqRows db @ [root], sqSequence = max (sqSequence db) 1\<rparr>)"

definition getOrCreateDir :: "(int \<Rightarrow> nat) \<Rightarrow> int \<Rightarrow> string \<Rightarrow> SqlTree \<Rightarrow> int res \<times> SqlTree" where
  "getOrCreateDir skip parentID name db =
     (case find (\<lambda>r. rwParent r = parentID \<and> rwName r = name \<and> rwIsDir r) (sqRows db) of
        Some r \<Rightarrow> (Inr (rwID r), db)
      | None \<Rightarrow>
          sql_insert skip (\<lambda>newID. \<lparr>rwID = newID, rwParent = parentID, rwName = name, rwIsDir = True,
                                    rwSize = None, rwHash = None, rwMode = 16877\<rparr>) db)"

text \<open>The insertion of a file, which updates the row in its place on a conflict.\<close>

definition put_file :: "(int \<Rightarrow> nat) \<Rightarrow> int \<Rightarrow> string \<Rightarrow> u32 \<Rightarrow> int \<Rightarrow> string \<Rightarrow> SqlTree \<Rightarrow> unit res \<times> SqlTree" where
  "put_file skip sz fileHash mode parentID fileName db =
     (if list_ex (\<lambda>r. rwParent r = parentID \<and> rwName r = fileName) (sqRows db)
      then (Inr (), db\<lparr>sqRows := map (\<lambda>r. if rwParent r = parentID \<and> rwName r = fileName
                                           then r\<lparr>rwSize := Some sz, rwHash := Some fileHash, rwMode := mode\<rparr> else r) (sqRows db)\<rparr>)
      else
        (case sql_insert skip (\<lambda>newID. \<lparr>rwID = newID, rwParent = parentID, rwName = fileName, rwIsDir = False,
                                        rwSize = Some sz, rwHash = Some fileHash, rwMode = mode\<rparr>) db of
           (r, db) \<Rightarrow> (rbind r (\<lambda>_. Inr ()), db)))"

definition IngestFileHash :: "(int \<Rightarrow> nat) \<Rightarrow> string \<Rightarrow> int \<Rightarrow> string \<Rightarrow> u32 \<Rightarrow> SqlTree \<Rightarrow> unit res \<times> SqlTree" where
  "IngestFileHash skip fullPath sz fileHash mode db =
     ingest_parts (getOrCreateDir skip) (put_file skip sz fileHash mode) (path_parts fullPath) db"

definition inode_of :: "Row \<Rightarrow> Inode" where
  "inode_of r = \<lparr>inID = rwID r, inParent = rwParent r, inName = rwName r, inIsDir = rwIsDir r,
     inSize = (case rwSize r of Some n \<Rightarrow> n | None \<Rightarrow> 0), inHash = (case rwHash r of Some h \<Rightarrow> h | None \<Rightarrow> []), inMode = rwMode r\<rparr>"

definition GetChildren :: "SqlTree \<Rightarrow> int \<Rightarrow> Inode list" where
  "GetChildren db parentID = map inode_of (filter (\<lambda>r. rwParent r = parentID) (sqRows db))"

definition LookupNode :: "SqlTree \<Rightarrow> int \<Rightarrow> string \<Rightarrow> Inode option" where
  "LookupNode db parentID name = map_option inode_of (find (\<lambda>r. rwParent r = parentID \<and> rwName r = name) (sqRows db))"

section \<open>The map in memory\<close>

text \<open>
  A Go map is iterated in any order, a different one every time: \<open>order\<close> is the order a call meets.
\<close>

record MemTree =
  mtInodes :: "(int \<times> Inode) list"
  mtNextID :: int

type_synonym order = "(int \<times> Inode) list \<Rightarrow> (int \<times> Inode) list"

definition mem_NewTreeFS :: MemTree where
  "mem_NewTreeFS =
     \<lparr>mtInodes = [(1, \<lparr>inID = 1, inParent = 0, inName = [], inIsDir = True, inSize = 0, inHash = [], inMode = 16877\<rparr>)],
      mtNextID = 2\<rparr>"

definition mem_insert :: "(int \<Rightarrow> Inode) \<Rightarrow> MemTree \<Rightarrow> int \<times> MemTree" where
  "mem_insert inode fs =
     (let newID = mtNextID fs
      in (newID, \<lparr>mtInodes = AList.update newID (inode newID) (mtInodes fs), mtNextID = newID + 1\<rparr>))"

definition mem_getOrCreateDir :: "order \<Rightarrow> int \<Rightarrow> string \<Rightarrow> MemTree \<Rightarrow> int res \<times> MemTree" where
  "mem_getOrCreateDir order parentID name fs =
     (case find (\<lambda>(i, n). inParent n = parentID \<and> inName n = name \<and> inIsDir n) (order (mtInodes fs)) of
        Some (i, n) \<Rightarrow> (Inr i, fs)
      | None \<Rightarrow>
          (case mem_insert (\<lambda>newID. \<lparr>inID = newID, inParent = parentID, inName = name, inIsDir = True, inSize = 0,
                                     inHash = [], inMode = 16877\<rparr>) fs of
             (i, fs) \<Rightarrow> (Inr i, fs)))"

definition mem_put_file :: "order \<Rightarrow> int \<Rightarrow> string \<Rightarrow> u32 \<Rightarrow> int \<Rightarrow> string \<Rightarrow> MemTree \<Rightarrow> unit res \<times> MemTree" where
  "mem_put_file order sz fileHash mode parentID fileName fs =
     (let existingID =
            (case find (\<lambda>(i, n). inParent n = parentID \<and> inName n = fileName \<and> \<not> inIsDir n) (order (mtInodes fs)) of
               Some (i, n) \<Rightarrow> i | None \<Rightarrow> 0)
      in if 0 < existingID then
           (let n = the (map_of (mtInodes fs) existingID)
            in (Inr (), fs\<lparr>mtInodes := AList.update existingID (n\<lparr>inSize := sz, inHash := fileHash, inMode := mode\<rparr>) (mtInodes fs)\<rparr>))
         else
           (case mem_insert (\<lambda>newID. \<lparr>inID = newID, inParent = parentID, inName = fileName, inIsDir = False, inSize = sz,
                                      inHash = fileHash, inMode = mode\<rparr>) fs of
              (_, fs) \<Rightarrow> (Inr (), fs)))"

definition mem_IngestFileHash :: "order \<Rightarrow> string \<Rightarrow> int \<Rightarrow> string \<Rightarrow> u32 \<Rightarrow> MemTree \<Rightarrow> unit res \<times> MemTree" where
  "mem_IngestFileHash order fullPath sz fileHash mode fs =
     ingest_parts (mem_getOrCreateDir order) (mem_put_file order sz fileHash mode) (path_parts fullPath) fs"

definition mem_GetChildren :: "order \<Rightarrow> MemTree \<Rightarrow> int \<Rightarrow> Inode list" where
  "mem_GetChildren order fs parentID = filter (\<lambda>n. inParent n = parentID) (map snd (order (mtInodes fs)))"

definition mem_LookupNode :: "order \<Rightarrow> MemTree \<Rightarrow> int \<Rightarrow> string \<Rightarrow> Inode option" where
  "mem_LookupNode order fs parentID name =
     find (\<lambda>n. inParent n = parentID \<and> inName n = name) (map snd (order (mtInodes fs)))"

section \<open>Paths through an index\<close>

text \<open>What is found below a directory by looking up one element after the other, and what is shown of it.\<close>

fun tree_walk :: "(int \<Rightarrow> string \<Rightarrow> Inode option) \<Rightarrow> int \<Rightarrow> string list \<Rightarrow> Inode option" where
  "tree_walk look parentID [] = None"
| "tree_walk look parentID (name # names) =
     (case look parentID name of
        None \<Rightarrow> None
      | Some n \<Rightarrow> if names = [] then Some n else tree_walk look (inID n) names)"

type_synonym node = "bool \<times> int \<times> string \<times> u32"

definition node_of :: "Inode \<Rightarrow> node" where
  "node_of n = (inIsDir n, inSize n, inHash n, inMode n)"

definition tree_view :: "(int \<Rightarrow> string \<Rightarrow> Inode option) \<Rightarrow> string list \<rightharpoonup> node" where
  "tree_view look path = map_option node_of (tree_walk look 1 path)"

text \<open>The specification: a map from paths to nodes, and what an ingested path adds to it.\<close>

definition dir_node :: node where "dir_node = (True, 0, [], 16877)"

fun add_dirs :: "string list \<Rightarrow> string list \<Rightarrow> (string list \<rightharpoonup> node) \<Rightarrow> string list \<rightharpoonup> node" where
  "add_dirs here [] v = v"
| "add_dirs here (d # ds) v =
     add_dirs (here @ [d]) ds (if v (here @ [d]) = None then v(here @ [d] \<mapsto> dir_node) else v)"

definition add_file :: "string list \<Rightarrow> int \<times> string \<times> u32 \<Rightarrow> (string list \<rightharpoonup> node) \<Rightarrow> string list \<rightharpoonup> node" where
  "add_file path a v = (add_dirs [] (butlast path) v)(path \<mapsto> (False, a))"

text \<open>A path can be added if no directory of it is a file and itself it is not a directory.\<close>

fun clear_dirs :: "string list \<Rightarrow> string list \<Rightarrow> (string list \<rightharpoonup> node) \<Rightarrow> bool" where
  "clear_dirs here [] v = True"
| "clear_dirs here (d # ds) v =
     ((case v (here @ [d]) of None \<Rightarrow> True | Some nd \<Rightarrow> fst nd) \<and> clear_dirs (here @ [d]) ds v)"

definition clear_path :: "string list \<Rightarrow> (string list \<rightharpoonup> node) \<Rightarrow> bool" where
  "clear_path path v \<longleftrightarrow>
     path \<noteq> [] \<and> clear_dirs [] (butlast path) v \<and> (case v path of None \<Rightarrow> True | Some nd \<Rightarrow> \<not> fst nd)"

lemma clear_dirs_other: "length q \<le> length here \<Longrightarrow> clear_dirs here ds (v(q \<mapsto> x)) = clear_dirs here ds v"
proof (induction ds arbitrary: here)
  case (Cons d ds)
  have "here @ [d] \<noteq> q" using Cons.prems by auto
  with Cons.IH [of "here @ [d]"] Cons.prems show ?case by simp
qed simp

lemma add_dirs_other: "length here + length ds < length q \<Longrightarrow> add_dirs here ds v q = v q"
proof (induction ds arbitrary: here v)
  case (Cons d ds)
  have "here @ [d] \<noteq> q" using Cons.prems by auto
  with Cons.IH [of "here @ [d]"] Cons.prems show ?case by simp
qed simp

section \<open>The interface of an index\<close>

definition is_dir :: "(int \<Rightarrow> string \<Rightarrow> Inode option) \<Rightarrow> int \<Rightarrow> bool" where
  "is_dir look i \<longleftrightarrow> (\<exists>p n d. look p n = Some d \<and> inID d = i \<and> inIsDir d)"

locale tree_index =
  fixes look :: "'s \<Rightarrow> int \<Rightarrow> string \<Rightarrow> Inode option"
    and mkdir :: "int \<Rightarrow> string \<Rightarrow> 's \<Rightarrow> int res \<times> 's"
    and put_file :: "int \<times> string \<times> u32 \<Rightarrow> int \<Rightarrow> string \<Rightarrow> 's \<Rightarrow> unit res \<times> 's"
    and ok :: "'s \<Rightarrow> bool"
  assumes ids_nonzero: "ok s \<Longrightarrow> look s p n = Some r \<Longrightarrow> inID r \<noteq> 0"
    and ids_unique: "ok s \<Longrightarrow> look s p n = Some r \<Longrightarrow> look s p' n' = Some r' \<Longrightarrow> inID r = inID r' \<Longrightarrow> p = p' \<and> n = n'"
    and root_is_dir: "ok s \<Longrightarrow> is_dir (look s) 1"
    and root_alone: "ok s \<Longrightarrow> look s p n = Some r \<Longrightarrow> inID r = 1 \<Longrightarrow> p = 0"
    and parents_are_dirs: "ok s \<Longrightarrow> look s p n = Some r \<Longrightarrow> p = 0 \<or> is_dir (look s) p"
    and mkdir_makes: "ok s \<Longrightarrow> is_dir (look s) p \<Longrightarrow> (\<And>f. look s p n = Some f \<Longrightarrow> inIsDir f) \<Longrightarrow>
      \<exists>d s'. mkdir p n s = (Inr (inID d), s') \<and> ok s' \<and> inIsDir d \<and>
        look s' = (look s)(p := (look s p)(n \<mapsto> d)) \<and>
        (case look s p n of None \<Rightarrow> node_of d = dir_node | Some d0 \<Rightarrow> d = d0)"
    and put_file_puts: "ok s \<Longrightarrow> is_dir (look s) p \<Longrightarrow> (\<And>f. look s p n = Some f \<Longrightarrow> \<not> inIsDir f) \<Longrightarrow>
      \<exists>f s'. put_file a p n s = (Inr (), s') \<and> ok s' \<and> node_of f = (False, a) \<and>
        look s' = (look s)(p := (look s p)(n \<mapsto> f)) \<and>
        (case look s p n of None \<Rightarrow> True | Some f0 \<Rightarrow> inID f = inID f0)"
begin

text \<open>The identifier a path leads to.\<close>

definition leads_to :: "'s \<Rightarrow> string list \<Rightarrow> int \<Rightarrow> bool" where
  "leads_to s path i \<longleftrightarrow> (if path = [] then i = 1 else \<exists>r. tree_walk (look s) 1 path = Some r \<and> inID r = i)"

lemma walk_snoc:
  "tree_walk (look s) i (path @ [n]) =
     (if path = [] then look s i n else case tree_walk (look s) i path of None \<Rightarrow> None | Some r \<Rightarrow> look s (inID r) n)"
  by (induction "look s" i path rule: tree_walk.induct) (auto split: option.splits)

lemma walk_leads: "leads_to s path i \<Longrightarrow> tree_walk (look s) 1 (path @ [n]) = look s i n"
  by (auto simp: walk_snoc leads_to_def split: if_splits)

lemma walk_stuck: "\<nexists>i. leads_to s path i \<Longrightarrow> tree_walk (look s) 1 (path @ [n]) = None"
  by (auto simp: walk_snoc leads_to_def split: if_splits option.splits)

lemma leads_to_snoc: "leads_to s (path @ [n]) i \<longleftrightarrow> (\<exists>j r. leads_to s path j \<and> look s j n = Some r \<and> inID r = i)"
  by (auto simp: leads_to_def walk_snoc split: option.splits)

lemma leads_to_nonzero: "ok s \<Longrightarrow> leads_to s path i \<Longrightarrow> i \<noteq> 0"
  by (cases path rule: rev_cases) (auto simp: leads_to_snoc ids_nonzero, simp add: leads_to_def)

text \<open>The index is a tree: at most one path leads to an inode.\<close>

lemma paths_unique: "ok s \<Longrightarrow> leads_to s path i \<Longrightarrow> leads_to s path' i \<Longrightarrow> path = path'"
proof (induction path arbitrary: path' i rule: rev_induct)
  case Nil
  then have i: "i = 1" by (simp add: leads_to_def)
  show ?case
  proof (cases path' rule: rev_cases)
    case (snoc ys y)
    then obtain j r where "leads_to s ys j" "look s j y = Some r" "inID r = 1" using Nil(3) i by (auto simp: leads_to_snoc)
    with root_alone [OF Nil(1)] leads_to_nonzero [OF Nil(1)] show ?thesis by blast
  qed simp
next
  case (snoc n path)
  obtain j r where r: "leads_to s path j" "look s j n = Some r" "inID r = i" using snoc(3) by (auto simp: leads_to_snoc)
  show ?case
  proof (cases path' rule: rev_cases)
    case Nil
    then have "i = 1" using snoc(4) by (simp add: leads_to_def)
    with root_alone [OF snoc(2) r(2)] r leads_to_nonzero [OF snoc(2) r(1)] show ?thesis by simp
  next
    case (snoc path'' n')
    then obtain j' r' where r': "leads_to s path'' j'" "look s j' n' = Some r'" "inID r' = i"
      using \<open>leads_to s path' i\<close> by (auto simp: leads_to_snoc)
    from ids_unique [OF \<open>ok s\<close> r(2) r'(2)] r(3) r'(3) have "j = j'" "n = n'" by auto
    with snoc.IH [OF \<open>ok s\<close> r(1)] r'(1) snoc show ?thesis by simp
  qed
qed

lemma walk_elsewhere:
  assumes "ok s" "leads_to s here p" "look s' = (look s)(p := (look s p)(n \<mapsto> r))"
  shows "\<not> prefix (here @ [n]) path \<Longrightarrow> tree_walk (look s') 1 path = tree_walk (look s) 1 path"
proof (induction path rule: rev_induct)
  case (snoc m path)
  then have same: "tree_walk (look s') 1 path = tree_walk (look s) 1 path" by (meson prefix_prefix)
  then have leads: "leads_to s' path j \<longleftrightarrow> leads_to s path j" for j by (simp add: leads_to_def)
  show ?case
  proof (cases "\<exists>j. leads_to s path j")
    case True
    then obtain j where j: "leads_to s path j" by blast
    then have "\<not> (j = p \<and> m = n)" using paths_unique [OF assms(1) _ assms(2)] snoc(2) by auto
    then have "look s' j m = look s j m" by (auto simp: assms(3))
    with j leads show ?thesis by (simp add: walk_leads)
  next
    case False
    with leads show ?thesis by (simp add: walk_stuck)
  qed
qed simp

lemma walk_below:
  assumes ok: "ok s" "ok s'" and here: "leads_to s here p" "leads_to s' here p"
    and upd: "look s' = (look s)(p := (look s p)(n \<mapsto> r))" and r: "case look s p n of None \<Rightarrow> True | Some r0 \<Rightarrow> inID r = inID r0"
  shows "path \<noteq> [] \<Longrightarrow> tree_walk (look s') 1 (here @ n # path) = tree_walk (look s) 1 (here @ n # path)"
proof (induction path rule: rev_nonempty_induct)
  case (single m)
  have l': "leads_to s' (here @ [n]) (inID r)" using here(2) by (auto simp: leads_to_snoc upd)
  have p: "inID r \<noteq> p" using paths_unique [OF ok(2) l'] here(2) by auto
  have "tree_walk (look s') 1 ((here @ [n]) @ [m]) = look s (inID r) m" using p by (simp only: walk_leads [OF l']) (simp add: upd)
  moreover have "tree_walk (look s) 1 ((here @ [n]) @ [m]) = look s (inID r) m"
  proof (cases "look s p n")
    case None
    have "look s (inID r) m = None"
    proof (rule ccontr)
      assume "look s (inID r) m \<noteq> None"
      then obtain c where "look s (inID r) m = Some c" by blast
      moreover have "inID r \<noteq> 0" using ids_nonzero [OF ok(2), of p n r] by (simp add: upd)
      ultimately obtain q k d where d: "look s q k = Some d" "inID d = inID r"
        using parents_are_dirs [OF ok(1)] by (fastforce simp: is_dir_def)
      with None have "(q, k) \<noteq> (p, n)" by auto
      then have "look s' q k = Some d" using d(1) by (auto simp: upd)
      moreover have "look s' p n = Some r" by (simp add: upd)
      ultimately show False using ids_unique [OF ok(2)] d(2) \<open>(q, k) \<noteq> (p, n)\<close> by blast
    qed
    moreover have "tree_walk (look s) 1 (here @ [n]) = None" using None by (simp add: walk_leads [OF here(1)])
    ultimately show ?thesis by (simp add: walk_snoc [of s 1 "here @ [n]"] del: append_assoc)
  next
    case (Some r0)
    then have "leads_to s (here @ [n]) (inID r)" using here(1) r by (auto simp: leads_to_snoc)
    from walk_leads [OF this] show ?thesis .
  qed
  ultimately show ?case by simp
next
  case (snoc m path)
  then have same: "tree_walk (look s') 1 (here @ n # path) = tree_walk (look s) 1 (here @ n # path)" by blast
  then have leads: "leads_to s' (here @ n # path) j \<longleftrightarrow> leads_to s (here @ n # path) j" for j by (simp add: leads_to_def)
  have "tree_walk (look s') 1 ((here @ n # path) @ [m]) = tree_walk (look s) 1 ((here @ n # path) @ [m])"
  proof (cases "\<exists>j. leads_to s (here @ n # path) j")
    case True
    then obtain j where j: "leads_to s (here @ n # path) j" by blast
    then have "j \<noteq> p" using paths_unique [OF ok(1) _ here(1)] by auto
    with j leads show ?thesis by (simp only: walk_leads) (simp add: upd)
  next
    case False
    then have "\<nexists>j. leads_to s' (here @ n # path) j" using leads by simp
    from walk_stuck [OF this] walk_stuck [OF False] show ?thesis by simp
  qed
  then show ?case by simp
qed

lemma view_update:
  assumes ok: "ok s" "ok s'" and here: "leads_to s here p"
    and upd: "look s' = (look s)(p := (look s p)(n \<mapsto> r))" and r: "case look s p n of None \<Rightarrow> True | Some r0 \<Rightarrow> inID r = inID r0"
  shows "tree_view (look s') = (tree_view (look s))(here @ [n] \<mapsto> node_of r)" "leads_to s' (here @ [n]) (inID r)"
proof -
  have "tree_walk (look s') 1 here = tree_walk (look s) 1 here" by (rule walk_elsewhere [OF ok(1) here upd]) simp
  then have here': "leads_to s' here p" using here by (simp add: leads_to_def)
  then show l': "leads_to s' (here @ [n]) (inID r)" by (auto simp: leads_to_snoc upd)
  show "tree_view (look s') = (tree_view (look s))(here @ [n] \<mapsto> node_of r)"
  proof
    fix path
    show "tree_view (look s') path = ((tree_view (look s))(here @ [n] \<mapsto> node_of r)) path"
    proof (cases "prefix (here @ [n]) path")
      case True
      then obtain q where q: "path = here @ n # q" by (auto simp: prefix_def)
      show ?thesis
      proof (cases "q = []")
        case True
        have "tree_walk (look s') 1 (here @ [n]) = Some r" using walk_leads [OF here'] by (simp add: upd)
        then show ?thesis by (simp add: q True tree_view_def)
      next
        case False
        with walk_below [OF ok here here' upd r False] show ?thesis by (simp add: q tree_view_def)
      qed
    next
      case False
      then have "path \<noteq> here @ [n]" by auto
      with walk_elsewhere [OF ok(1) here upd False] show ?thesis by (simp add: tree_view_def)
    qed
  qed
qed

lemma view_leads: "leads_to s here p \<Longrightarrow> tree_view (look s) (here @ [n]) = map_option node_of (look s p n)"
  by (simp add: tree_view_def walk_leads)

lemma sync_tree_ok:
  "ok s \<Longrightarrow> leads_to s here p \<Longrightarrow> is_dir (look s) p \<Longrightarrow> clear_dirs here ds (tree_view (look s)) \<Longrightarrow>
   \<exists>i s'. sync_tree mkdir p ds s = (Inr i, s') \<and> ok s' \<and> leads_to s' (here @ ds) i \<and> is_dir (look s') i \<and>
     tree_view (look s') = add_dirs here ds (tree_view (look s))"
proof (induction ds arbitrary: here p s)
  case (Cons d ds)
  note at = view_leads [OF Cons.prems(2), of d]
  have "inIsDir f" if "look s p d = Some f" for f
    using Cons.prems(4) that at by (simp add: node_of_def)
  from mkdir_makes [OF Cons.prems(1,3) this] obtain n s1 where
    n: "mkdir p d s = (Inr (inID n), s1)" "ok s1" "inIsDir n" "look s1 = (look s)(p := (look s p)(d \<mapsto> n))"
    "case look s p d of None \<Rightarrow> node_of n = dir_node | Some d0 \<Rightarrow> n = d0" by blast
  have "case look s p d of None \<Rightarrow> True | Some r0 \<Rightarrow> inID n = inID r0" using n(5) by (simp split: option.splits)
  note v = view_update [OF Cons.prems(1) n(2) Cons.prems(2) n(4) this]
  have view: "tree_view (look s1) = (if tree_view (look s) (here @ [d]) = None then (tree_view (look s))(here @ [d] \<mapsto> dir_node) else tree_view (look s))"
    using n(5) at by (auto simp: v(1) fun_upd_idem split: option.splits)
  have "is_dir (look s1) (inID n)" using n(3) unfolding is_dir_def by (intro exI [of _ p] exI [of _ d] exI [of _ n]) (simp add: n(4))
  moreover have "clear_dirs (here @ [d]) ds (tree_view (look s1))"
    using Cons.prems(4) by (simp add: view clear_dirs_other)
  ultimately obtain i s' where
    "sync_tree mkdir (inID n) ds s1 = (Inr i, s')" "ok s'" "leads_to s' ((here @ [d]) @ ds) i" "is_dir (look s') i"
    "tree_view (look s') = add_dirs (here @ [d]) ds (tree_view (look s1))"
    using Cons.IH [OF n(2) v(2)] by blast
  then show ?case using n(1) by (simp add: view)
qed simp

lemma ingest_parts_ok:
  assumes "ok s" "clear_path path (tree_view (look s))"
  shows "\<exists>s'. ingest_parts mkdir (put_file a) path s = (Inr (), s') \<and> ok s' \<and>
    tree_view (look s') = add_file path a (tree_view (look s))"
proof -
  have c: "path \<noteq> []" "clear_dirs [] (butlast path) (tree_view (look s))"
    "case tree_view (look s) path of None \<Rightarrow> True | Some nd \<Rightarrow> \<not> fst nd"
    using assms(2) by (simp_all add: clear_path_def)
  have "leads_to s [] 1" by (simp add: leads_to_def)
  from sync_tree_ok [OF assms(1) this root_is_dir [OF assms(1)] c(2)] obtain i s1 where
    s1: "sync_tree mkdir 1 (butlast path) s = (Inr i, s1)" "ok s1" "leads_to s1 (butlast path) i" "is_dir (look s1) i"
    "tree_view (look s1) = add_dirs [] (butlast path) (tree_view (look s))" by auto
  have path: "butlast path @ [last path] = path" using c(1) by simp
  have "tree_view (look s1) path = tree_view (look s) path" using c(1) by (simp add: s1(5) add_dirs_other)
  moreover have "tree_view (look s1) path = map_option node_of (look s1 i (last path))"
    using view_leads [OF s1(3), of "last path"] by (simp only: path)
  ultimately have "\<not> inIsDir f" if "look s1 i (last path) = Some f" for f
    using c(3) that by (cases "tree_view (look s) path") (auto simp: node_of_def)
  from put_file_puts [OF s1(2,4) this] obtain f s' where
    f: "put_file a i (last path) s1 = (Inr (), s')" "ok s'" "node_of f = (False, a)"
    "look s' = (look s1)(i := (look s1 i)(last path \<mapsto> f))"
    "case look s1 i (last path) of None \<Rightarrow> True | Some f0 \<Rightarrow> inID f = inID f0" by blast
  from view_update(1) [OF s1(2) f(2) s1(3) f(4,5)] have "tree_view (look s') = add_file path a (tree_view (look s))"
    by (simp only: path f(3) s1(5) add_file_def)
  then show ?thesis using c(1) s1(1) f(1,2) by (simp add: ingest_parts_def)
qed

end

section \<open>Tables of inodes\<close>

definition child_of :: "Inode list \<Rightarrow> int \<Rightarrow> string \<Rightarrow> Inode option" where
  "child_of ns p name = find (\<lambda>n. inParent n = p \<and> inName n = name) ns"

definition inodes_ok :: "Inode list \<Rightarrow> int \<Rightarrow> bool" where
  "inodes_ok ns hi \<longleftrightarrow>
     distinct (map inID ns) \<and> distinct (map (\<lambda>n. (inParent n, inName n)) ns) \<and>
     (\<forall>n \<in> set ns. 1 \<le> inID n \<and> inID n \<le> hi \<and> (inID n = 1 \<longrightarrow> inParent n = 0) \<and>
        (inParent n = 0 \<or> (\<exists>d \<in> set ns. inID d = inParent n \<and> inIsDir d))) \<and>
     (\<exists>d \<in> set ns. inID d = 1 \<and> inIsDir d)"

lemma child_of_Some:
  assumes "distinct (map (\<lambda>n. (inParent n, inName n)) ns)"
  shows "child_of ns p name = Some r \<longleftrightarrow> r \<in> set ns \<and> inParent r = p \<and> inName r = name"
  using assms by (induction ns) (force simp: child_of_def)+

lemma child_of_None: "child_of ns p name = None \<longleftrightarrow> (\<forall>r \<in> set ns. \<not> (inParent r = p \<and> inName r = name))"
  by (auto simp: child_of_def find_None_iff)

lemma inodes_keys: "inodes_ok ns hi \<Longrightarrow> distinct (map (\<lambda>n. (inParent n, inName n)) ns)"
  by (simp add: inodes_ok_def)

lemma is_dir_child_of: "inodes_ok ns hi \<Longrightarrow> is_dir (child_of ns) i \<longleftrightarrow> (\<exists>d \<in> set ns. inID d = i \<and> inIsDir d)"
  by (auto simp: is_dir_def child_of_Some [OF inodes_keys])

lemma inodes_laws:
  assumes "inodes_ok ns hi"
  shows "child_of ns p n = Some r \<Longrightarrow> inID r \<noteq> 0"
    "child_of ns p n = Some r \<Longrightarrow> child_of ns p' n' = Some r' \<Longrightarrow> inID r = inID r' \<Longrightarrow> p = p' \<and> n = n'"
    "is_dir (child_of ns) 1" "child_of ns p n = Some r \<Longrightarrow> inID r = 1 \<Longrightarrow> p = 0"
    "child_of ns p n = Some r \<Longrightarrow> p = 0 \<or> is_dir (child_of ns) p"
proof -
  note some = child_of_Some [OF inodes_keys [OF assms]]
  show "child_of ns p n = Some r \<Longrightarrow> inID r \<noteq> 0" using assms by (auto simp: inodes_ok_def some)
  show "is_dir (child_of ns) 1" using assms by (subst is_dir_child_of [OF assms]) (simp add: inodes_ok_def)
  show "child_of ns p n = Some r \<Longrightarrow> inID r = 1 \<Longrightarrow> p = 0" using assms by (auto simp: inodes_ok_def some)
  show "child_of ns p n = Some r \<Longrightarrow> p = 0 \<or> is_dir (child_of ns) p"
    using assms by (subst is_dir_child_of [OF assms]) (auto simp: inodes_ok_def some)
  have "inj_on inID (set ns)" using assms by (simp add: inodes_ok_def distinct_map)
  then show "child_of ns p n = Some r \<Longrightarrow> child_of ns p' n' = Some r' \<Longrightarrow> inID r = inID r' \<Longrightarrow> p = p' \<and> n = n'"
    by (auto simp: some dest: inj_onD)
qed

lemma inodes_ok_add:
  assumes "inodes_ok ns hi" "is_dir (child_of ns) p" "child_of ns p name = None" "hi < inID new" "inParent new = p" "inName new = name"
  shows "inodes_ok (ns @ [new]) (inID new)" "child_of (ns @ [new]) = (child_of ns)(p := (child_of ns p)(name \<mapsto> new))"
proof -
  obtain d where d: "d \<in> set ns" "inID d = p" "inIsDir d" using assms(2) by (auto simp: is_dir_child_of [OF assms(1)])
  have "inID r \<noteq> inID new" "inID r \<le> inID new" if "r \<in> set ns" for r
    using assms(1,4) that by (auto simp: inodes_ok_def)
  moreover have "1 \<le> hi" using assms(1) by (force simp: inodes_ok_def)
  ultimately show "inodes_ok (ns @ [new]) (inID new)"
    using assms d unfolding inodes_ok_def child_of_None by (auto simp: image_iff)
  have find: "find P (xs @ [x]) = (case find P xs of None \<Rightarrow> if P x then Some x else None | r \<Rightarrow> r)" for P xs and x :: Inode
    by (induction xs) auto
  show "child_of (ns @ [new]) = (child_of ns)(p := (child_of ns p)(name \<mapsto> new))"
    using assms(3,5,6) by (auto simp: child_of_def fun_eq_iff find split: option.splits)
qed

lemma inodes_ok_update:
  assumes "inodes_ok ns hi" "child_of ns p name = Some r" "\<And>x. inID (f x) = inID x \<and> inParent (f x) = inParent x \<and> inName (f x) = inName x \<and> inIsDir (f x) = inIsDir x"
  defines "ns' \<equiv> map (\<lambda>x. if inParent x = p \<and> inName x = name then f x else x) ns"
  shows "inodes_ok ns' hi" "child_of ns' = (child_of ns)(p := (child_of ns p)(name \<mapsto> f r))"
proof -
  have same: "map g ns' = map g ns" if "\<And>x. g (f x) = g x" for g :: "Inode \<Rightarrow> 'a"
    using that by (simp add: ns'_def)
  have ids: "map inID ns' = map inID ns" "map (\<lambda>n. (inParent n, inName n)) ns' = map (\<lambda>n. (inParent n, inName n)) ns"
    using assms(3) by (auto intro!: same)
  have dirs: "(\<exists>d \<in> set ns'. inID d = i \<and> inIsDir d) \<longleftrightarrow> (\<exists>d \<in> set ns. inID d = i \<and> inIsDir d)" for i
    using assms(3) by (auto simp: ns'_def)
  have "1 \<le> inID n \<and> inID n \<le> hi \<and> (inID n = 1 \<longrightarrow> inParent n = 0) \<and> (inParent n = 0 \<or> (\<exists>d \<in> set ns. inID d = inParent n \<and> inIsDir d))"
    if "n \<in> set ns'" for n
    using that assms(1,3) by (auto simp: ns'_def inodes_ok_def)
  then show ok: "inodes_ok ns' hi" using assms(1) by (simp add: inodes_ok_def ids dirs)
  show "child_of ns' = (child_of ns)(p := (child_of ns p)(name \<mapsto> f r))"
  proof (intro ext)
    fix q m
    have some: "child_of ns' q m = Some x \<longleftrightarrow> ((child_of ns)(p := (child_of ns p)(name \<mapsto> f r))) q m = Some x" for x
      using assms(2,3) unfolding child_of_Some [OF inodes_keys [OF ok]]
      by (auto simp: ns'_def child_of_Some [OF inodes_keys [OF assms(1)]])
        (metis (no_types, lifting) assms(1) child_of_Some inodes_keys option.inject)+
    show "child_of ns' q m = ((child_of ns)(p := (child_of ns p)(name \<mapsto> f r))) q m"
      by (metis some not_Some_eq)
  qed
qed

section \<open>Both stores are such an index\<close>

lemma find_map_inode: "find P (map f xs) = map_option f (find (\<lambda>x. P (f x)) xs)"
  by (induction xs) auto

lemma find_both: "find P xs = Some x \<Longrightarrow> Q x \<Longrightarrow> find (\<lambda>x. P x \<and> Q x) xs = Some x"
  by (induction xs) (auto split: if_splits)

lemma find_neither: "find P xs = None \<Longrightarrow> find (\<lambda>x. P x \<and> Q x) xs = None"
  by (auto simp: find_None_iff)

definition sql_ok :: "SqlTree \<Rightarrow> bool" where
  "sql_ok db \<longleftrightarrow> inodes_ok (map inode_of (sqRows db)) (sqSequence db)"

lemma LookupNode_child_of: "LookupNode db = child_of (map inode_of (sqRows db))"
  by (simp add: LookupNode_def child_of_def fun_eq_iff find_map_inode inode_of_def)

lemma sql_insert_ok:
  assumes ok: "sql_ok db" and p: "is_dir (LookupNode db) p" and none: "LookupNode db p name = None"
    and row: "\<And>i. rwID (row i) = i \<and> rwParent (row i) = p \<and> rwName (row i) = name"
  shows "\<exists>i db'. sql_insert skip row db = (Inr i, db') \<and> sql_ok db' \<and>
    LookupNode db' = (LookupNode db)(p := (LookupNode db p)(name \<mapsto> inode_of (row i))) \<and> rwID (row i) = i"
proof -
  let ?i = "sqSequence db + 1 + int (skip (sqSequence db))"
  let ?db = "\<lparr>sqRows = sqRows db @ [row ?i], sqSequence = ?i\<rparr>"
  have "\<not> list_ex (\<lambda>r. rwParent r = p \<and> rwName r = name) (sqRows db)"
    using none by (auto simp: LookupNode_def find_None_iff list_ex_iff)
  then have ins: "sql_insert skip row db = (Inr ?i, ?db)" by (simp add: sql_insert_def row Let_def)
  have new: "inID (inode_of (row ?i)) = ?i" "inParent (inode_of (row ?i)) = p" "inName (inode_of (row ?i)) = name" "sqSequence db < ?i"
    by (simp_all add: inode_of_def row)
  note add = inodes_ok_add [OF ok [unfolded sql_ok_def] p [unfolded LookupNode_child_of] none [unfolded LookupNode_child_of], of "inode_of (row ?i)", unfolded new, OF new(4) refl refl]
  show ?thesis using ins add row by (intro exI [of _ ?i] exI [of _ ?db]) (simp add: sql_ok_def LookupNode_child_of)
qed

interpretation sql: tree_index LookupNode "getOrCreateDir skip" "\<lambda>(sz, h, m). put_file skip sz h m" sql_ok
  for skip
proof (unfold_locales, goal_cases)
  case (1 s p n r)
  then show ?case using inodes_laws(1) by (simp add: sql_ok_def LookupNode_child_of)
next
  case (2 s p n r p' n' r')
  then show ?case using inodes_laws(2) by (simp add: sql_ok_def LookupNode_child_of)
next
  case (3 s)
  then show ?case using inodes_laws(3) by (simp add: sql_ok_def LookupNode_child_of)
next
  case (4 s p n r)
  then show ?case using inodes_laws(4) by (simp add: sql_ok_def LookupNode_child_of)
next
  case (5 s p n r)
  then show ?case using inodes_laws(5) by (simp add: sql_ok_def LookupNode_child_of)
next
  case (6 s p n)
  show ?case
  proof (cases "LookupNode s p n")
    case None
    let ?row = "\<lambda>i. \<lparr>rwID = i, rwParent = p, rwName = n, rwIsDir = True, rwSize = None, rwHash = None, rwMode = 16877\<rparr>"
    have "find (\<lambda>r. rwParent r = p \<and> rwName r = n \<and> rwIsDir r) (sqRows s) = None"
      using None by (auto simp: LookupNode_def find_None_iff)
    then have g: "getOrCreateDir skip p n s = sql_insert skip ?row s" by (simp add: getOrCreateDir_def)
    obtain i s' where i: "sql_insert skip ?row s = (Inr i, s')" "sql_ok s'"
      "LookupNode s' = (LookupNode s)(p := (LookupNode s p)(n \<mapsto> inode_of (?row i)))"
      using sql_insert_ok [OF 6(1,2) None, of ?row skip] by auto
    have "inID (inode_of (?row i)) = i" "inIsDir (inode_of (?row i))" "node_of (inode_of (?row i)) = dir_node"
      by (simp_all add: inode_of_def node_of_def dir_node_def)
    with g i None show ?thesis by (intro exI [of _ "inode_of (?row i)"] exI [of _ s']) simp
  next
    case (Some d)
    then obtain r where r: "find (\<lambda>r. rwParent r = p \<and> rwName r = n) (sqRows s) = Some r" "d = inode_of r"
      by (auto simp: LookupNode_def)
    have "rwIsDir r" using 6(3) [OF Some] r(2) by (simp add: inode_of_def)
    from find_both [where Q = rwIsDir, OF r(1) this] have "getOrCreateDir skip p n s = (Inr (inID d), s)"
      using r(2) by (simp add: getOrCreateDir_def inode_of_def conj_assoc)
    with 6 Some show ?thesis by (intro exI [of _ d] exI [of _ s]) (simp add: fun_upd_idem)
  qed
next
  case (7 s p n a)
  obtain sz h m where a: "a = (sz, h, m)" by (cases a) auto
  show ?case
  proof (cases "LookupNode s p n")
    case None
    let ?row = "\<lambda>i. \<lparr>rwID = i, rwParent = p, rwName = n, rwIsDir = False, rwSize = Some sz, rwHash = Some h, rwMode = m\<rparr>"
    have "\<not> list_ex (\<lambda>r. rwParent r = p \<and> rwName r = n) (sqRows s)"
      using None by (auto simp: LookupNode_def find_None_iff list_ex_iff)
    moreover obtain i s' where i: "sql_insert skip ?row s = (Inr i, s')" "sql_ok s'"
      "LookupNode s' = (LookupNode s)(p := (LookupNode s p)(n \<mapsto> inode_of (?row i)))"
      using sql_insert_ok [OF 7(1,2) None, of ?row skip] by auto
    moreover have "node_of (inode_of (?row i)) = (False, a)" by (simp add: inode_of_def node_of_def a)
    ultimately show ?thesis using None by (intro exI [of _ "inode_of (?row i)"] exI [of _ s']) (simp add: put_file_def a)
  next
    case (Some f0)
    then have f0: "\<not> inIsDir f0" using 7(3) by blast
    let ?f = "\<lambda>r. r\<lparr>rwSize := Some sz, rwHash := Some h, rwMode := m\<rparr>"
    let ?g = "\<lambda>x. x\<lparr>inSize := sz, inHash := h, inMode := m\<rparr>"
    let ?s = "s\<lparr>sqRows := map (\<lambda>r. if rwParent r = p \<and> rwName r = n then ?f r else r) (sqRows s)\<rparr>"
    have "list_ex (\<lambda>r. rwParent r = p \<and> rwName r = n) (sqRows s)"
      using Some by (auto simp: LookupNode_def list_ex_iff find_Some_iff)
    then have p: "put_file skip sz h m p n s = (Inr (), ?s)" by (simp add: put_file_def)
    have rows: "map inode_of (sqRows ?s) = map (\<lambda>x. if inParent x = p \<and> inName x = n then ?g x else x) (map inode_of (sqRows s))"
      "sqSequence ?s = sqSequence s" by (simp_all add: inode_of_def)
    have "child_of (map inode_of (sqRows s)) p n = Some f0" using Some by (simp add: LookupNode_child_of)
    note upd = inodes_ok_update [OF 7(1) [unfolded sql_ok_def] this, of ?g]
    have "sql_ok ?s" unfolding sql_ok_def rows by (rule upd(1)) simp
    moreover have "LookupNode ?s = (LookupNode s)(p := (LookupNode s p)(n \<mapsto> ?g f0))"
      unfolding LookupNode_child_of rows by (rule upd(2)) simp
    moreover have "node_of (?g f0) = (False, a)" using f0 by (simp add: node_of_def a)
    ultimately show ?thesis using p Some by (intro exI [of _ "?g f0"] exI [of _ ?s]) (simp add: a)
  qed
qed

definition keeps :: "order \<Rightarrow> bool" where
  "keeps order \<longleftrightarrow> (\<forall>xs. mset (order xs) = mset xs)"

definition mem_ok :: "MemTree \<Rightarrow> bool" where
  "mem_ok fs \<longleftrightarrow> (\<forall>(i, n) \<in> set (mtInodes fs). inID n = i) \<and> inodes_ok (map snd (mtInodes fs)) (mtNextID fs - 1)"

lemma find_unique: "x \<in> set xs \<Longrightarrow> P x \<Longrightarrow> (\<And>y. y \<in> set xs \<Longrightarrow> P y \<Longrightarrow> y = x) \<Longrightarrow> find P xs = Some x"
proof (induction xs)
  case (Cons y xs)
  show ?case
  proof (cases "P y")
    case True
    then have "y = x" by (intro Cons.prems(3)) simp_all
    with True show ?thesis by simp
  next
    case False
    then have "x \<in> set xs" using Cons.prems(1,2) by auto
    then have "find P xs = Some x" by (rule Cons.IH [OF _ Cons.prems(2)]) (simp add: Cons.prems(3))
    with False show ?thesis by simp
  qed
qed simp

lemma update_new: "k \<notin> fst ` set al \<Longrightarrow> AList.update k v al = al @ [(k, v)]"
  by (induction al) auto

lemma update_old:
  "k \<in> fst ` set al \<Longrightarrow> distinct (map fst al) \<Longrightarrow> AList.update k v al = map (\<lambda>(i, n). (i, if i = k then v else n)) al"
proof (induction al)
  case (Cons p al)
  show ?case
  proof (cases "fst p = k")
    case True
    then have "map (\<lambda>(i, n). (i, if i = k then v else n)) al = al"
      using Cons.prems(2) by (intro map_idI) (force simp: image_iff)
    with True show ?thesis by (cases p) simp
  qed (use Cons in \<open>cases p; auto\<close>)
qed simp

lemma mem_facts:
  assumes "mem_ok fs"
  shows "distinct (map fst (mtInodes fs))" "(i, n) \<in> set (mtInodes fs) \<Longrightarrow> inID n = i \<and> 0 < i \<and> i < mtNextID fs"
    "child_of (map snd (mtInodes fs)) p name = Some n \<longleftrightarrow> (inID n, n) \<in> set (mtInodes fs) \<and> inParent n = p \<and> inName n = name"
proof -
  have "map fst (mtInodes fs) = map inID (map snd (mtInodes fs))" using assms by (auto simp: mem_ok_def)
  then show "distinct (map fst (mtInodes fs))" using assms by (simp only: mem_ok_def inodes_ok_def)
  show "(i, n) \<in> set (mtInodes fs) \<Longrightarrow> inID n = i \<and> 0 < i \<and> i < mtNextID fs"
    using assms by (fastforce simp: mem_ok_def inodes_ok_def)
  have "n \<in> snd ` set (mtInodes fs) \<longleftrightarrow> (inID n, n) \<in> set (mtInodes fs)" using assms by (force simp: mem_ok_def)
  then show "child_of (map snd (mtInodes fs)) p name = Some n \<longleftrightarrow> (inID n, n) \<in> set (mtInodes fs) \<and> inParent n = p \<and> inName n = name"
    using child_of_Some [OF inodes_keys [of _ "mtNextID fs - 1"]] assms by (simp add: mem_ok_def)
qed

lemma mem_find:
  assumes fs: "mem_ok fs" and ord: "keeps order"
  shows "find (\<lambda>(i, n). inParent n = p \<and> inName n = name \<and> Q n) (order (mtInodes fs)) =
    (case child_of (map snd (mtInodes fs)) p name of None \<Rightarrow> None | Some n \<Rightarrow> if Q n then Some (inID n, n) else None)"
proof -
  have set: "set (order (mtInodes fs)) = set (mtInodes fs)" using ord by (metis keeps_def set_mset_mset)
  have only: "x = (inID n, n)" if "x \<in> set (mtInodes fs)" "inParent (snd x) = p" "inName (snd x) = name"
    "child_of (map snd (mtInodes fs)) p name = Some n" for x n
  proof -
    obtain i m where x: "x = (i, m)" by (cases x)
    then have "child_of (map snd (mtInodes fs)) p name = Some m" using that(1-3) mem_facts(2,3) [OF fs] by auto
    with that(4) x that(1) mem_facts(2) [OF fs] show ?thesis by auto
  qed
  show ?thesis
  proof (cases "child_of (map snd (mtInodes fs)) p name")
    case None
    moreover from this have "\<forall>r \<in> set (mtInodes fs). \<not> (inParent (snd r) = p \<and> inName (snd r) = name)"
      unfolding child_of_None by auto
    ultimately show ?thesis by (auto simp: find_None_iff set)
  next
    case (Some n)
    then have n: "(inID n, n) \<in> set (mtInodes fs)" "inParent n = p" "inName n = name" using mem_facts(3) [OF fs] by auto
    show ?thesis
    proof (cases "Q n")
      case True
      have "find (\<lambda>(i, n). inParent n = p \<and> inName n = name \<and> Q n) (order (mtInodes fs)) = Some (inID n, n)"
      proof (rule find_unique)
        fix y assume "y \<in> set (order (mtInodes fs))" "case y of (i, n) \<Rightarrow> inParent n = p \<and> inName n = name \<and> Q n"
        then show "y = (inID n, n)" by (intro only [OF _ _ _ Some]) (auto simp: set)
      qed (use n True set in simp_all)
      then show ?thesis using True by (simp add: Some)
    next
      case False
      have "\<not> (case y of (i, n) \<Rightarrow> inParent n = p \<and> inName n = name \<and> Q n)" if "y \<in> set (order (mtInodes fs))" for y
        using only [OF _ _ _ Some, of y] that [unfolded set] False by (auto split: prod.splits)
      then have "find (\<lambda>(i, n). inParent n = p \<and> inName n = name \<and> Q n) (order (mtInodes fs)) = None"
        unfolding find_None_iff by blast
      then show ?thesis using False by (simp add: Some)
    qed
  qed
qed

lemma mem_LookupNode_child_of:
  assumes fs: "mem_ok fs" and ord: "keeps order"
  shows "mem_LookupNode order fs = child_of (map snd (mtInodes fs))"
proof (intro ext)
  fix p name
  have "mem_LookupNode order fs p name =
      map_option snd (find (\<lambda>(i, n). inParent n = p \<and> inName n = name \<and> True) (order (mtInodes fs)))"
    by (simp add: mem_LookupNode_def find_map_inode case_prod_unfold)
  also have "\<dots> = child_of (map snd (mtInodes fs)) p name" unfolding mem_find [OF fs ord] by (simp split: option.split)
  finally show "mem_LookupNode order fs p name = child_of (map snd (mtInodes fs)) p name" .
qed

lemma mem_insert_ok:
  assumes fs: "mem_ok fs" and p: "is_dir (child_of (map snd (mtInodes fs))) p" and none: "child_of (map snd (mtInodes fs)) p name = None"
    and inode: "\<And>i. inID (inode i) = i \<and> inParent (inode i) = p \<and> inName (inode i) = name"
  shows "\<exists>i fs'. mem_insert inode fs = (i, fs') \<and> mem_ok fs' \<and>
    child_of (map snd (mtInodes fs')) = (child_of (map snd (mtInodes fs)))(p := (child_of (map snd (mtInodes fs)) p)(name \<mapsto> inode i))"
proof -
  let ?i = "mtNextID fs"
  have "?i \<notin> fst ` set (mtInodes fs)" using mem_facts(2) [OF fs] by force
  then have ins: "mem_insert inode fs = (?i, \<lparr>mtInodes = mtInodes fs @ [(?i, inode ?i)], mtNextID = ?i + 1\<rparr>)"
    by (simp add: mem_insert_def update_new Let_def)
  have ok: "inodes_ok (map snd (mtInodes fs)) (?i - 1)" using fs by (simp add: mem_ok_def)
  note add = inodes_ok_add [OF ok p none, of "inode ?i"]
  show ?thesis using ins add fs inode by (intro exI [of _ ?i]) (simp add: mem_ok_def)
qed

lemma mem_index:
  assumes ord: "keeps order"
  shows "tree_index (\<lambda>fs. child_of (map snd (mtInodes fs))) (mem_getOrCreateDir order) (\<lambda>(sz, h, m). mem_put_file order sz h m) mem_ok"
proof (unfold_locales, goal_cases)
  case (1 s p n r)
  from inodes_laws(1) [OF conjunct2 [OF this(1) [unfolded mem_ok_def]]] 1(2) show ?case by blast
next
  case (2 s p n r p' n' r')
  from inodes_laws(2) [OF conjunct2 [OF this(1) [unfolded mem_ok_def]]] 2(2-4) show ?case by blast
next
  case (3 s)
  then show ?case using inodes_laws(3) by (auto simp: mem_ok_def)
next
  case (4 s p n r)
  from inodes_laws(4) [OF conjunct2 [OF this(1) [unfolded mem_ok_def]]] 4(2,3) show ?case by blast
next
  case (5 s p n r)
  from inodes_laws(5) [OF conjunct2 [OF this(1) [unfolded mem_ok_def]]] 5(2) show ?case by blast
next
  case (6 s p n)
  note found = mem_find [where Q = inIsDir, OF 6(1) ord, of p n]
  show ?case
  proof (cases "child_of (map snd (mtInodes s)) p n")
    case None
    let ?new = "\<lambda>i. \<lparr>inID = i, inParent = p, inName = n, inIsDir = True, inSize = 0, inHash = [], inMode = 16877\<rparr>"
    obtain i s' where i: "mem_insert ?new s = (i, s')" "mem_ok s'"
      "child_of (map snd (mtInodes s')) = (child_of (map snd (mtInodes s)))(p := (child_of (map snd (mtInodes s)) p)(n \<mapsto> ?new i))"
      using mem_insert_ok [OF 6(1,2) None, of ?new] by auto
    have "mem_getOrCreateDir order p n s = (Inr (inID (?new i)), s')"
      using found i(1) None by (simp add: mem_getOrCreateDir_def)
    moreover have "node_of (?new i) = dir_node" by (simp add: node_of_def dir_node_def)
    ultimately show ?thesis using i(2,3) None by (intro exI [of _ "?new i"] exI [of _ s']) simp
  next
    case (Some d)
    then have "mem_getOrCreateDir order p n s = (Inr (inID d), s)"
      using found 6(3) by (simp add: mem_getOrCreateDir_def)
    with 6 Some show ?thesis by (intro exI [of _ d] exI [of _ s]) (simp add: fun_upd_idem)
  qed
next
  case (7 s p n a)
  obtain sz h m where a: "a = (sz, h, m)" by (cases a) auto
  note found = mem_find [where Q = "\<lambda>n. \<not> inIsDir n", OF 7(1) ord, of p n]
  show ?case
  proof (cases "child_of (map snd (mtInodes s)) p n")
    case None
    let ?new = "\<lambda>i. \<lparr>inID = i, inParent = p, inName = n, inIsDir = False, inSize = sz, inHash = h, inMode = m\<rparr>"
    obtain i s' where i: "mem_insert ?new s = (i, s')" "mem_ok s'"
      "child_of (map snd (mtInodes s')) = (child_of (map snd (mtInodes s)))(p := (child_of (map snd (mtInodes s)) p)(n \<mapsto> ?new i))"
      using mem_insert_ok [OF 7(1,2) None, of ?new] by auto
    have "mem_put_file order sz h m p n s = (Inr (), s')" using found i(1) None by (simp add: mem_put_file_def)
    moreover have "node_of (?new i) = (False, a)" by (simp add: node_of_def a)
    ultimately show ?thesis using i(2,3) None by (intro exI [of _ "?new i"] exI [of _ s']) (simp add: a)
  next
    case (Some f0)
    then have f0: "\<not> inIsDir f0" "(inID f0, f0) \<in> set (mtInodes s)" "inParent f0 = p" "inName f0 = n"
      using 7(3) mem_facts(3) [OF 7(1)] by auto
    let ?g = "\<lambda>x. x\<lparr>inSize := sz, inHash := h, inMode := m\<rparr>"
    let ?s = "s\<lparr>mtInodes := AList.update (inID f0) (?g f0) (mtInodes s)\<rparr>"
    have "map_of (mtInodes s) (inID f0) = Some f0" using mem_facts(1) [OF 7(1)] f0(2) by simp
    moreover have "0 < inID f0" using mem_facts(2) [OF 7(1) f0(2)] by simp
    ultimately have put: "mem_put_file order sz h m p n s = (Inr (), ?s)"
      using found Some f0(1) by (simp add: mem_put_file_def)
    have upd: "AList.update (inID f0) (?g f0) (mtInodes s) = map (\<lambda>(i, x). (i, if i = inID f0 then ?g f0 else x)) (mtInodes s)"
      using f0(2) mem_facts(1) [OF 7(1)] by (intro update_old) force+
    have "(if fst y = inID f0 then ?g f0 else snd y) = (if inParent (snd y) = p \<and> inName (snd y) = n then ?g (snd y) else snd y)"
      if "y \<in> set (mtInodes s)" for y
    proof -
      obtain i x where y: "y = (i, x)" by (cases y)
      then have i: "inID x = i" "(inID x, x) \<in> set (mtInodes s)" using mem_facts(2) [OF 7(1)] that by auto
      have "i = inID f0 \<longleftrightarrow> x = f0" using f0(2) i mem_facts(1) [OF 7(1)] by (metis eq_key_imp_eq_value)
      moreover have "inParent x = p \<and> inName x = n \<longleftrightarrow> x = f0" using f0(3,4) i(2) Some mem_facts(3) [OF 7(1)] by (metis option.inject)
      ultimately show ?thesis by (simp add: y)
    qed
    then have rows: "map snd (mtInodes ?s) = map (\<lambda>x. if inParent x = p \<and> inName x = n then ?g x else x) (map snd (mtInodes s))"
      by (simp add: upd case_prod_unfold)
    have keys: "\<forall>(i, x) \<in> set (mtInodes ?s). inID x = i" "mtNextID ?s = mtNextID s"
      using 7(1) by (auto simp: upd mem_ok_def split: if_splits)
    have ok: "inodes_ok (map snd (mtInodes s)) (mtNextID s - 1)" using 7(1) by (simp add: mem_ok_def)
    note new = inodes_ok_update [OF ok Some, of ?g]
    have "mem_ok ?s" unfolding mem_ok_def rows keys(2) by (rule conjI [OF keys(1)], rule new(1)) simp
    moreover have "child_of (map snd (mtInodes ?s)) = (child_of (map snd (mtInodes s)))(p := (child_of (map snd (mtInodes s)) p)(n \<mapsto> ?g f0))"
      unfolding rows by (rule new(2)) simp
    moreover have "node_of (?g f0) = (False, a)" using f0(1) by (simp add: node_of_def a)
    ultimately show ?thesis using put Some by (intro exI [of _ "?g f0"] exI [of _ ?s]) (simp add: a)
  qed
qed

section \<open>Histories\<close>

type_synonym ingest = "string \<times> int \<times> string \<times> u32"

fun sql_ingests :: "(int \<Rightarrow> nat) \<Rightarrow> ingest list \<Rightarrow> SqlTree \<Rightarrow> unit res list \<times> SqlTree" where
  "sql_ingests skip [] db = ([], db)"
| "sql_ingests skip ((path, sz, h, mode) # ops) db =
     (case IngestFileHash skip path sz h mode db of
        (r, db) \<Rightarrow> (case sql_ingests skip ops db of (rs, db) \<Rightarrow> (r # rs, db)))"

fun mem_ingests :: "(order \<times> ingest) list \<Rightarrow> MemTree \<Rightarrow> unit res list \<times> MemTree" where
  "mem_ingests [] fs = ([], fs)"
| "mem_ingests ((order, path, sz, h, mode) # ops) fs =
     (case mem_IngestFileHash order path sz h mode fs of
        (r, fs) \<Rightarrow> (case mem_ingests ops fs of (rs, fs) \<Rightarrow> (r # rs, fs)))"

text \<open>The histories in which no path is used both for a file and for a directory, and what they add.\<close>

fun all_clear :: "ingest list \<Rightarrow> (string list \<rightharpoonup> node) \<Rightarrow> bool" where
  "all_clear [] v = True"
| "all_clear ((path, a) # ops) v =
     (clear_path (path_parts path) v \<and> all_clear ops (add_file (path_parts path) a v))"

fun add_files :: "ingest list \<Rightarrow> (string list \<rightharpoonup> node) \<Rightarrow> string list \<rightharpoonup> node" where
  "add_files [] v = v"
| "add_files ((path, a) # ops) v = add_files ops (add_file (path_parts path) a v)"

lemma sql_ingests_ok:
  "sql_ok db \<Longrightarrow> all_clear ops (tree_view (LookupNode db)) \<Longrightarrow>
   \<exists>db'. sql_ingests skip ops db = (replicate (length ops) (Inr ()), db') \<and> sql_ok db' \<and>
     tree_view (LookupNode db') = add_files ops (tree_view (LookupNode db))"
proof (induction skip ops db rule: sql_ingests.induct)
  case (2 skip path sz h mode ops db)
  from sql.ingest_parts_ok [OF 2(2), where a = "(sz, h, mode)" and skip = skip] 2(3) obtain db1 where
    db1: "IngestFileHash skip path sz h mode db = (Inr (), db1)" "sql_ok db1"
    "tree_view (LookupNode db1) = add_file (path_parts path) (sz, h, mode) (tree_view (LookupNode db))"
    by (auto simp: IngestFileHash_def)
  from 2(1) [OF db1(1) [symmetric] db1(2)] 2(3) show ?case by (auto simp: db1(1,3))
qed simp

lemma mem_ingests_ok:
  "mem_ok fs \<Longrightarrow> \<forall>order \<in> fst ` set ops. keeps order \<Longrightarrow> all_clear (map snd ops) (tree_view (child_of (map snd (mtInodes fs)))) \<Longrightarrow>
   \<exists>fs'. mem_ingests ops fs = (replicate (length ops) (Inr ()), fs') \<and> mem_ok fs' \<and>
     tree_view (child_of (map snd (mtInodes fs'))) = add_files (map snd ops) (tree_view (child_of (map snd (mtInodes fs))))"
proof (induction ops fs rule: mem_ingests.induct)
  case (2 order path sz h mode ops fs)
  have "keeps order" using 2(3) by simp
  from tree_index.ingest_parts_ok [OF mem_index [OF this] 2(2), where a = "(sz, h, mode)"] 2(4) obtain fs1 where
    fs1: "mem_IngestFileHash order path sz h mode fs = (Inr (), fs1)" "mem_ok fs1"
    "tree_view (child_of (map snd (mtInodes fs1))) = add_file (path_parts path) (sz, h, mode) (tree_view (child_of (map snd (mtInodes fs))))"
    by (auto simp: mem_IngestFileHash_def)
  from 2(1) [OF fs1(1) [symmetric] fs1(2)] 2(3,4) show ?case by (auto simp: fs1(1,3))
qed simp

text \<open>Both start with the root alone.\<close>

lemma new_trees:
  "sql_ok (NewTreeFS None)" "tree_view (LookupNode (NewTreeFS None)) = Map.empty"
  "mem_ok mem_NewTreeFS" "tree_view (child_of (map snd (mtInodes mem_NewTreeFS))) = Map.empty"
proof -
  show "sql_ok (NewTreeFS None)" "mem_ok mem_NewTreeFS"
    by (simp_all add: sql_ok_def mem_ok_def inodes_ok_def NewTreeFS_def mem_NewTreeFS_def inode_of_def)
  have "tree_walk (LookupNode (NewTreeFS None)) 1 path = None" "tree_walk (child_of (map snd (mtInodes mem_NewTreeFS))) 1 path = None" for path
    by (cases path; simp add: LookupNode_def NewTreeFS_def mem_NewTreeFS_def child_of_def)+
  then show "tree_view (LookupNode (NewTreeFS None)) = Map.empty" "tree_view (child_of (map snd (mtInodes mem_NewTreeFS))) = Map.empty"
    by (simp_all add: tree_view_def fun_eq_iff)
qed

section \<open>The two indexes compared\<close>

text \<open>
  The two indexes implement one specification: on every history in which no path serves both
  as a file and as a directory, all insertions succeed in both, and looking a path up, element by
  element, gives in both what the specification says (the last size, hash and mode ingested for a
  file, a directory for every proper prefix, nothing else), whatever identifiers SQLite picks and
  in whatever orders the map is iterated.
\<close>

lemma inode_stores_agree:
  assumes "all_clear (map snd ops) Map.empty" "\<forall>order \<in> fst ` set ops. keeps order" "keeps order"
  shows "\<exists>db fs. sql_ingests skip (map snd ops) (NewTreeFS None) = (replicate (length ops) (Inr ()), db) \<and>
    mem_ingests ops mem_NewTreeFS = (replicate (length ops) (Inr ()), fs) \<and>
    tree_view (LookupNode db) = add_files (map snd ops) Map.empty \<and>
    tree_view (mem_LookupNode order fs) = add_files (map snd ops) Map.empty"
proof -
  obtain db where "sql_ingests skip (map snd ops) (NewTreeFS None) = (replicate (length ops) (Inr ()), db)"
    "tree_view (LookupNode db) = add_files (map snd ops) Map.empty"
    using sql_ingests_ok [OF new_trees(1), of "map snd ops" skip] assms(1) by (auto simp: new_trees(2))
  moreover obtain fs where "mem_ingests ops mem_NewTreeFS = (replicate (length ops) (Inr ()), fs)" "mem_ok fs"
    "tree_view (child_of (map snd (mtInodes fs))) = add_files (map snd ops) Map.empty"
    using mem_ingests_ok [OF new_trees(3) assms(2)] assms(1) by (auto simp: new_trees(4))
  ultimately show ?thesis using mem_LookupNode_child_of [OF _ assms(3)] by auto
qed

text \<open>
  Where a path serves as both, they differ. Ingesting a file over a directory succeeds: in the
  table the directory stays one and gets the size and hash of the file; in the map there are two
  inodes of one name from then on, and a lookup returns either, depending on the order of
  iteration. Below a file, the table refuses a path and the map makes a directory beside the file.
\<close>

lemma inode_stores_differ:
  "let over = [(''a/b'', 3, ''h1'', 420), (''a'', 5, ''h2'', 420)]; below = [(''x'', 1, ''h'', 420), (''x/y'', 2, ''k'', 420)];
       sql = (\<lambda>ops. sql_ingests (\<lambda>i. 0) ops (NewTreeFS None)); mem = (\<lambda>ops. mem_ingests (map (\<lambda>p. (id, p)) ops) mem_NewTreeFS)
   in fst (sql over) = [Inr (), Inr ()] \<and> fst (mem over) = [Inr (), Inr ()] \<and>
      tree_view (LookupNode (snd (sql over))) [''a''] = Some (True, 5, ''h2'', 420) \<and>
      tree_view (mem_LookupNode id (snd (mem over))) [''a''] = Some (True, 0, [], 16877) \<and>
      tree_view (mem_LookupNode rev (snd (mem over))) [''a''] = Some (False, 5, ''h2'', 420) \<and>
      fst (sql below) ! 1 \<noteq> Inr () \<and> fst (mem below) = [Inr (), Inr ()]"
  by code_simp

end
