(* ===== verification/Tree_Mount.thy ===== *)
theory Tree_Mount
  imports Living_File Inode_Db
begin

text \<open>
  \<^verbatim>\<open>internal/vfs/tree.go\<close> and \<open>Mount\<close> of \<^verbatim>\<open>fuse.go\<close>: the directory a packed file is mounted as. Its
  nodes are found through the index of \<open>Inode_Db\<close> and share one reader and one log. The kernel and
  the FUSE library are outside: a handler is a function from the request to the reply.
\<close>

section \<open>Handlers\<close>

definition S_IFDIR :: u32 where "S_IFDIR = 0x4000"
definition S_IFREG :: u32 where "S_IFREG = 0x8000"

text \<open>
  A node. The pointers to the index, the reader and the log are the same in all nodes of a mount
  and never nil, so they are arguments of the handlers.
\<close>

record TreeInode =
  tnID :: int
  tnSize :: int
  tnIsDir :: bool

definition Tree_Getattr :: "TreeInode \<Rightarrow> u32 \<times> u64" where
  "Tree_Getattr n = (if tnIsDir n then (S_IFDIR OR 0x1ED, 0) else (S_IFREG OR 0x1A4, of_int (tnSize n)))"

definition Tree_Lookup :: "SqlTree \<Rightarrow> TreeInode \<Rightarrow> string \<Rightarrow> string + u32 \<times> u64 \<times> TreeInode" where
  "Tree_Lookup db n name =
     (if \<not> tnIsDir n then Inl ''ENOTDIR''
      else
        (case LookupNode db (tnID n) name of
           None \<Rightarrow> Inl ''ENOENT''
         | Some child \<Rightarrow>
             Inr (if inIsDir child then S_IFDIR OR 0x1ED else S_IFREG OR 0x1A4,
                  if inIsDir child then 0 else of_int (inSize child),
                  \<lparr>tnID = inID child, tnSize = inSize child, tnIsDir = inIsDir child\<rparr>)))"

definition Tree_Readdir :: "SqlTree \<Rightarrow> TreeInode \<Rightarrow> string + (u32 \<times> string \<times> u64) list" where
  "Tree_Readdir db n =
     (if \<not> tnIsDir n then Inl ''ENOTDIR''
      else Inr (map (\<lambda>c. (if inIsDir c then S_IFDIR else S_IFREG, inName c, of_int (inID c))) (GetChildren db (tnID n))))"

definition Tree_Read :: "ext \<Rightarrow> nat \<Rightarrow> nat \<Rightarrow> TreeInode \<Rightarrow> LiveMount \<Rightarrow> ((string + bytes) \<times> LiveMount) res" where
  "Tree_Read X n off node m =
     (if tnIsDir node then Inr (Inl ''EISDIR'', m)
      else
        rbind (ReadAt X n off (reopened m)) (\<lambda>((d, err), rr).
          Inr (if err \<noteq> None \<and> err \<noteq> Some ''EOF'' then Inl ''EIO'' else Inr d, m\<lparr>lmReader := rr\<rparr>)))"

definition Tree_Write :: "bytes \<Rightarrow> nat \<Rightarrow> int \<Rightarrow> TreeInode \<Rightarrow> LiveMount \<Rightarrow> (string + u32) \<times> LiveMount" where
  "Tree_Write data off now node m =
     (if tnIsDir node then (Inl ''EISDIR'', m)
      else (Inr (of_nat (length data)), m\<lparr>lmWal := wal_Append data off now (lmWal m)\<rparr>))"

section \<open>Mounting\<close>

text \<open>
  The name under which the file appears. The index is a database in memory that all mounts of a process
  share: \<open>existing\<close> is what earlier mounts have put there.
\<close>

definition base_name :: "string \<Rightarrow> string" where
  "base_name cromFile =
     (let baseName = filepath_Base cromFile
      in if suffix ''.crom'' baseName then take (length baseName - 5) baseName else baseName @ ''.restored.raw'')"

definition mount_tree ::
  "ext \<Rightarrow> (int \<Rightarrow> nat) \<Rightarrow> SqlTree option \<Rightarrow> fs \<Rightarrow> string \<Rightarrow> string \<Rightarrow> bytes \<Rightarrow> int \<Rightarrow> (TreeInode \<times> SqlTree \<times> LiveMount) res" where
  "mount_tree X skip existing fs cromFile codebookFile encryptionKey maxMB =
     rbind (live_mount X fs cromFile codebookFile encryptionKey maxMB) (\<lambda>m.
       case IngestFileHash skip (base_name cromFile) (sint (OriginalSize (rrHeader (lmReader m)))) [] 0x1A4 (NewTreeFS existing) of
         (Inl e, db) \<Rightarrow> wrap_err ''mount: failed to index file hash'' (Inl e)
       | (Inr _, db) \<Rightarrow> Inr (\<lparr>tnID = 1, tnSize = 0, tnIsDir = True\<rparr>, db, m))"

text \<open>
  What happens to a node: requests of the kernel, ticks of the flush worker, and the unmount,
  which closes the log. No handler flushes when a file is closed.
\<close>

datatype tree_request = TRead nat nat | TWrite bytes nat | TTick | TUnmount

fun tree_op :: "ext \<Rightarrow> TreeInode \<Rightarrow> int \<Rightarrow> tree_request \<Rightarrow> LiveMount \<Rightarrow> ((string + bytes) list \<times> LiveMount) res" where
  "tree_op X node now (TRead n off) m = rbind (Tree_Read X n off node m) (\<lambda>(d, m). Inr ([d], m))"
| "tree_op X node now (TWrite data off) m = Inr ([], snd (Tree_Write data off now node m))"
| "tree_op X node now TTick m = Inr ([], flushed (tryFlush now) m)"
| "tree_op X node now TUnmount m = Inr ([], flushed (wal_Close now) m)"

fun tree_run :: "ext \<Rightarrow> TreeInode \<Rightarrow> (int \<times> tree_request) list \<Rightarrow> LiveMount \<Rightarrow> ((string + bytes) list \<times> LiveMount) res" where
  "tree_run X node [] m = Inr ([], m)"
| "tree_run X node ((now, p) # ops) m =
     rbind (tree_op X node now p m) (\<lambda>(ds, m). rbind (tree_run X node ops m) (\<lambda>(es, m). Inr (ds @ es, m)))"

section \<open>A file node behaves as the mounted file\<close>

fun as_vfs :: "tree_request \<Rightarrow> vfs_op" where
  "as_vfs (TRead n off) = VRead n off" | "as_vfs (TWrite data off) = VWrite data off"
| "as_vfs TTick = VTick" | "as_vfs TUnmount = VFlush"

lemma tree_op_live: "\<not> tnIsDir node \<Longrightarrow> tree_op X node now p m = live_op X now (as_vfs p) m"
proof (cases p)
  case (TRead n off)
  assume "\<not> tnIsDir node"
  with TRead show ?thesis
    by (cases "ReadAt X n off (reopened m)") (auto simp: Tree_Read_def CromFile_Read_def split: option.splits)
qed (simp_all add: Tree_Write_def CromFile_Write_def CromFile_Flush_def wal_Close_def [abs_def])

lemma tree_run_live:
  "\<not> tnIsDir node \<Longrightarrow> tree_run X node ops m = live_run X (map (\<lambda>(now, p). (now, as_vfs p)) ops) m"
proof (induction X node ops m rule: tree_run.induct)
  case (2 X node now p ops m)
  then show ?case
    by (cases "live_op X now (as_vfs p) m") (auto simp: tree_op_live split: prod.split)
qed simp

section \<open>The name in the directory\<close>

lemma path_elements_plain: "CHR ''/'' \<notin> set p \<Longrightarrow> path_elements acc p = [rev acc @ p]"
  by (induction acc p rule: path_elements.induct) auto

lemma path_parts_plain:
  assumes "CHR ''/'' \<notin> set p"
  shows "path_parts p = [if p = [] then ''.'' else p]"
proof (cases "p = []")
  case True
  then show ?thesis by (simp add: path_parts_def filepath_Clean_def)
next
  case False
  then have hd: "hd p \<noteq> CHR ''/''" using assms by (cases p) auto
  have "filepath_Clean p = p"
    using False assms hd by (cases "p = ''.''") (auto simp: filepath_Clean_def Let_def path_elements_plain)
  then show ?thesis using False assms by (simp add: path_parts_def path_elements_plain)
qed

text \<open>The file appears under its name without the suffix; a file named \<open>.crom\<close> appears as \<open>.\<close>.\<close>

definition mounted_name :: "string \<Rightarrow> string" where
  "mounted_name cromFile = (if base_name cromFile = [] then ''.'' else base_name cromFile)"

lemma base_name_element: "filepath_Base path \<noteq> ''/'' \<Longrightarrow> CHR ''/'' \<notin> set (base_name path)"
  using filepath_Base_element [of path] by (auto simp: base_name_def Let_def dest: in_set_takeD)

text \<open>The index with the one file of a mount.\<close>

definition file_row :: "int \<Rightarrow> string \<Rightarrow> int \<Rightarrow> Row" where
  "file_row i name sz =
     \<lparr>rwID = i, rwParent = 1, rwName = name, rwIsDir = False, rwSize = Some sz, rwHash = Some [], rwMode = 0x1A4\<rparr>"

lemma ingest_one_file:
  assumes "filepath_Base path \<noteq> ''/''"
  shows "\<exists>db r. IngestFileHash skip (base_name path) sz [] 0x1A4 (NewTreeFS None) = (Inr (), db) \<and>
    sqRows db = [r, file_row (2 + int (skip 1)) (mounted_name path) sz] \<and> rwParent r = 0"
  using base_name_element [OF assms]
  by (simp add: IngestFileHash_def path_parts_plain ingest_parts_def put_file_def sql_insert_def NewTreeFS_def Let_def
      file_row_def mounted_name_def)

section \<open>Properties\<close>

abbreviation requests :: "(int \<times> tree_request) list \<Rightarrow> (int \<times> vfs_op) list" where
  "requests ops \<equiv> map (\<lambda>(now, p). (now, as_vfs p)) ops"

text \<open>
  C17. A living file. A non-empty input below 128 MiB was packed by \<open>PackBytes\<close>, outside the edge mode,
  with a codebook that opens, is smaller than \<open>2 ^ 60\<close> bytes and has at least one codeword, and the
  file is mounted with that codebook from another path, as the first mount of the process. Then the mount
  is a directory with exactly one entry: a regular file under the name of the packed one without its
  suffix, with the size of the input, and looking up any other name gives \<open>ENOENT\<close>. The file survives every
  history of reads, writes (of less than 4 GiB together: a diff has a 32-bit size), ticks of the flush
  worker and the unmount. The reads return the packed input, nothing that was written is lost or reordered
  (the payloads of the log behind the file, followed by the buffer, are the writes), and \<open>Unpack\<close> of the
  grown file, without fuzziness, still restores the input.
\<close>

theorem living_file_intact:
  assumes "zstd_ok X" "zstd_bound X" "gcm_ok X" "hash_sizes_ok X"
    and "OpenFromBytes codebookData = Inr r" "length codebookData < 2 ^ 60" "declared_size (rHeader r) < 2 ^ 64"
    and "CodewordCount (rHeader r) \<noteq> 0" "input \<noteq> []" "length input < 2 ^ 27" "Mode opts \<noteq> ''edge''"
    and "PackBytes X wide input codebookData opts = Inr (crom, pm)"
    and "fs path = Some crom" "fs cbp = Some codebookData" "cbp \<noteq> []" "cbp \<noteq> path" "filepath_Base path \<noteq> ''/''"
    and "length (written (requests ops)) < 2 ^ 32" "Fuzziness uopts \<le> 0"
  shows "\<exists>root db m0 node m lg ps. mount_tree X skip None fs path cbp [] maxMB = Inr (root, db, m0) \<and>
    Tree_Readdir db root = Inr [(S_IFREG, mounted_name path, of_int (tnID node))] \<and>
    (\<forall>name. Tree_Lookup db root name =
       (if name = mounted_name path then Inr (S_IFREG OR 0x1A4, of_nat (length input), node) else Inl ''ENOENT'')) \<and>
    Tree_Getattr node = (S_IFREG OR 0x1A4, of_nat (length input)) \<and>
    tree_run X node ops m0 = Inr (read_back input (requests ops), m) \<and>
    lmFs m = fs(path \<mapsto> crom @ lg) \<and> mutation_log lg = Some ps \<and>
    concat ps @ walBuffer (lmWal m) = written (requests ops) \<and>
    Unpack X rnd path dest cbp uopts (lmFs m) = (Inr (), ((lmFs m)(dest @ ''.tmp'' := None))(dest \<mapsto> input))"
proof -
  obtain m0 m lg ps where h: "live_mount X fs path cbp [] maxMB = Inr m0"
    "sint (OriginalSize (rrHeader (lmReader m0))) = int (length input)"
    "live_run X (requests ops) m0 = Inr (read_back input (requests ops), m)"
    "lmFs m = fs(path \<mapsto> crom @ lg)" "mutation_log lg = Some ps" "concat ps @ walBuffer (lmWal m) = written (requests ops)"
    "Unpack X rnd path dest cbp uopts (lmFs m) = (Inr (), ((lmFs m)(dest @ ''.tmp'' := None))(dest \<mapsto> input))"
    using live_history_intact [OF assms(1-16,18,19), of maxMB rnd dest] by (elim exE conjE) (rule that)
  obtain db r0 where db: "IngestFileHash skip (base_name path) (int (length input)) [] 0x1A4 (NewTreeFS None) = (Inr (), db)"
    "sqRows db = [r0, file_row (2 + int (skip 1)) (mounted_name path) (int (length input))]" "rwParent r0 = 0"
    using ingest_one_file [OF assms(17)] by blast
  let ?root = "\<lparr>tnID = 1, tnSize = 0, tnIsDir = True\<rparr>"
  let ?node = "\<lparr>tnID = 2 + int (skip 1), tnSize = int (length input), tnIsDir = False\<rparr>"
  have "mount_tree X skip None fs path cbp [] maxMB = Inr (?root, db, m0)"
    by (simp add: mount_tree_def h(1,2) db(1))
  moreover have "Tree_Readdir db ?root = Inr [(S_IFREG, mounted_name path, of_int (tnID ?node))]"
    by (simp add: Tree_Readdir_def GetChildren_def db(2,3) file_row_def inode_of_def)
  moreover have "Tree_Lookup db ?root name =
      (if name = mounted_name path then Inr (S_IFREG OR 0x1A4, of_nat (length input), ?node) else Inl ''ENOENT'')" for name
    by (simp add: Tree_Lookup_def LookupNode_def db(2,3) file_row_def inode_of_def)
  moreover have "tree_run X ?node ops m0 = Inr (read_back input (requests ops), m)"
    using h(3) tree_run_live [of ?node X ops m0] by simp
  ultimately show ?thesis using h(4-7)
    by (intro exI [of _ ?root] exI [of _ db] exI [of _ m0] exI [of _ ?node] exI [of _ m] exI [of _ lg] exI [of _ ps])
      (simp add: Tree_Getattr_def)
qed

definition sample_requests :: "(int \<times> tree_request) list" where
  "sample_requests = [(5, TWrite [1, 2] 0), (6, TRead 9 1), (2000000000, TTick), (2000000001, TWrite [3] 7)]"

theorem living_file_intact_witness:
  "\<exists>crom pm root db m0 node m lg ps. PackBytes toy_ext True [1, 2, 9] sample_codebook sample_options = Inr (crom, pm) \<and>
    mount_tree toy_ext (\<lambda>_. 0) None [''d/f.crom'' \<mapsto> crom, ''b'' \<mapsto> sample_codebook] ''d/f.crom'' ''b'' [] 1 = Inr (root, db, m0) \<and>
    Tree_Readdir db root = Inr [(S_IFREG, ''f'', of_int (tnID node))] \<and> Tree_Lookup db root ''g'' = Inl ''ENOENT'' \<and>
    tree_run toy_ext node sample_requests m0 = Inr ([Inr [2, 9]], m) \<and> lmFs m ''d/f.crom'' = Some (crom @ lg) \<and>
    mutation_log lg = Some ps \<and> concat ps @ walBuffer (lmWal m) = [1, 2, 3]"
proof -
  obtain crom pm where pb: "PackBytes toy_ext True [1, 2, 9] sample_codebook sample_options = Inr (crom, pm)"
    using PackBytes_packed [OF toy_ext_ok(1,2,4) sample_codebook_opens(1) opened_reader [OF sample_codebook_opens(1-3)]
        sample_codebook_opens(4), of "[1, 2, 9]" sample_options True "[]"] by (force simp: sample_options_def)
  let ?fs = "[''d/f.crom'' \<mapsto> crom, ''b'' \<mapsto> sample_codebook]"
  have o: "[1, 2, 9 :: byte] \<noteq> []" "length [1, 2, 9 :: byte] < 2 ^ 27" "Mode sample_options \<noteq> ''edge''"
    by (simp_all add: sample_options_def)
  have b: "filepath_Base ''d/f.crom'' = ''f.crom''" by code_simp
  have f: "?fs ''d/f.crom'' = Some crom" "?fs ''b'' = Some sample_codebook" "''b'' \<noteq> []" "''b'' \<noteq> ''d/f.crom''"
    "filepath_Base ''d/f.crom'' \<noteq> ''/''"
    "length (written (requests sample_requests)) < 2 ^ 32" "Fuzziness sample_unpack_options \<le> 0"
    by (simp_all add: b sample_requests_def sample_unpack_options_def)
  have w: "written (requests sample_requests) = [1, 2, 3]" "read_back [1, 2, 9] (requests sample_requests) = [Inr [2, 9]]"
    by (simp_all add: sample_requests_def)
  have n: "mounted_name ''d/f.crom'' = ''f''" by code_simp
  obtain root db m0 node m lg ps where r: "mount_tree toy_ext (\<lambda>_. 0) None ?fs ''d/f.crom'' ''b'' [] 1 = Inr (root, db, m0)"
    "Tree_Readdir db root = Inr [(S_IFREG, ''f'', of_int (tnID node))]"
    "\<forall>name. Tree_Lookup db root name =
       (if name = ''f'' then Inr (S_IFREG OR 0x1A4, of_nat (length [1, 2, 9 :: byte]), node) else Inl ''ENOENT'')"
    "tree_run toy_ext node sample_requests m0 = Inr (read_back [1, 2, 9] (requests sample_requests), m)"
    "lmFs m = ?fs(''d/f.crom'' \<mapsto> crom @ lg)"
    "mutation_log lg = Some ps" "concat ps @ walBuffer (lmWal m) = written (requests sample_requests)"
    using living_file_intact [where fs = ?fs and rnd = "\<lambda>_. 0" and dest = "''o''" and maxMB = 1 and skip = "\<lambda>_. 0",
        OF toy_ext_ok sample_codebook_opens o pb f] unfolding n by (elim exE conjE) (rule that)
  have "Tree_Lookup db root ''g'' = Inl ''ENOENT''" using r(3) by simp
  moreover from r(5) have "lmFs m ''d/f.crom'' = Some (crom @ lg)" by simp
  ultimately show ?thesis using pb r(1,2,4,6,7) w
    by (intro exI [of _ crom] exI [of _ pm] exI [of _ root] exI [of _ db] exI [of _ m0] exI [of _ node] exI [of _ m]
        exI [of _ lg] exI [of _ ps]) simp
qed

end
