(* ===== verification/Spec2Isabelle.thy ===== *)
theory Spec2Isabelle
  imports Chunk_Table Semantic Crypto Delta Fractal Merkle Entropy Aligned Pack_Stream Wal_Race Trainer Auth Remote_Race Grep Tree_Mount
begin

text \<open>
  A verification of crompressor, a file compressor in Go. A file is cut into chunks; a chunk
  that equals or resembles a codeword of a shared pattern database (the brain or codebook) is
  stored as the identifier of the codeword and a small residual, any other chunk is stored as
  it is. The residuals of a block of 16 MiB are compressed together, and a table maps every
  chunk to its codeword and its part of the residuals. The file may be encrypted, may carry
  the brain with it, and falls back to a copy of the input when nothing is gained.

  \<^bold>\<open>The model.\<close> Definitions follow the functions of the sources, statement by statement, and
  are executable. Integers have the width of the code and wrap (\<open>u8\<close> as \<open>byte\<close>, \<open>u16\<close>, \<open>u32\<close>,
  \<open>u64\<close>); lengths and indices, which the code holds in 64-bit \<open>int\<close>s, are natural numbers, and
  where the code converts one into the other the conversion is written out. A function that
  returns an error has the type \<open>'a res\<close>: \<open>Inl (GoErr msg)\<close>, \<open>Inl GoPanic\<close> for a run-time panic
  (a slice out of range, a division by zero) or \<open>Inr x\<close>. Readers are byte lists and a read
  returns the rest; files are a map from paths to contents. Loops are recursive functions;
  those that may not end are partial functions into \<open>option\<close>. Randomness, the order in
  which workers take effect and the order in which maps are iterated are arguments, so that a
  theorem for all arguments covers every run. Floating-point numbers (entropies, similarities)
  are real numbers. Message texts are shortened.

  \<^bold>\<open>Outside code.\<close> \<open>Externals\<close> collects the hashes, AES-GCM, PBKDF2, HMAC, Ed25519 and the
  Zstandard codec in one record of functions, with the documented behaviour the theorems rely
  on as predicates (\<open>zstd_ok\<close>: a frame decodes to its content, and only an empty content may have an
  empty frame; \<open>zstd_bound\<close>: a frame is little
  larger than its content; \<open>gcm_ok\<close>: decryption inverts encryption and the tag has 16 bytes;
  \<open>hash_sizes_ok\<close>: digests have 32 bytes) and an instance that satisfies all of them.

  \<^bold>\<open>Theories\<close>, with the sources they model.

  \<^item> \<open>Crom_Prelude\<close>: results, buffers, slices, \<open>copy\<close>, little-endian integers, streams.
  \<^item> \<open>Varint\<close>, \<open>Format\<close>, \<open>Chunk_Table\<close>, \<open>Format_IO\<close> (\<^verbatim>\<open>pkg/format\<close>): variable-length integers
    and the zigzag map; the versioned header; the chunk table in its fixed-width and columnar
    forms and the geometry of blocks; reading and writing a file as a stream. The lemmas give
    the layout of every version as a concatenation of fields, the round trips, and the bounds
    the reader checks. The columnar form is lossless exactly if no identifier differs by \<open>2^63\<close>
    from its predecessor.
  \<^item> \<open>Chunker\<close>, \<open>Semantic\<close>, \<open>Aligned\<close> (\<^verbatim>\<open>internal/chunker\<close>, \<^verbatim>\<open>internal/semantic\<close>,
    \<^verbatim>\<open>internal/search/aligned.go\<close>): six chunkers against one interface, the locale \<open>chunker\<close>:
    the chunks tile the input. The rolling hashes are proved equal to hashing every window
    anew, and the configurations that never terminate are characterised.
  \<^item> \<open>Crypto\<close> (\<^verbatim>\<open>internal/crypto\<close>): AES-GCM with explicit nonces, convergent encryption, the
    signature mock.
  \<^item> \<open>Delta\<close>, \<open>Fractal\<close> (\<^verbatim>\<open>internal/delta\<close>, \<^verbatim>\<open>internal/fractal\<close>): the residuals of a chunk, XOR
    and edit script, against the locale \<open>residual\<close>; compressed pools; quadratic generators.
  \<^item> \<open>Merkle\<close>, \<open>Entropy\<close> (\<^verbatim>\<open>internal/merkle\<close>, \<^verbatim>\<open>internal/entropy\<close>): the hash tree over the
    blocks commits to its leaves: two lists of leaves with one root are equal, or two of the inputs
    that building the two trees hashes collide; Shannon entropy and the bypass heuristics.
  \<^item> \<open>Codebook\<close> (\<^verbatim>\<open>internal/codebook\<close>): the database, its lookups, the embedded brain and the
    decay of its cache. \<open>wf_reader\<close> is the invariant under which no lookup panics; opening
    establishes it unless the declared size overflows 64 bits.
  \<^item> \<open>Hamming\<close>, \<open>Ring\<close>, \<open>Search\<close> (\<^verbatim>\<open>internal/search\<close>): the bit distance, in 32-byte blocks and bit
    by bit; the eviction order of the cache; the linear, bucketed and multi-tier searchers
    against the locale \<open>searcher\<close>: every match names a codeword and carries its bytes, in every
    state a searcher can reach. Restrictions are arbitrary lists of identifiers; one outside the
    database is what makes a lookup panic.
  \<^item> \<open>Unpacker\<close>, \<open>Pack_Bytes\<close> (\<^verbatim>\<open>pkg/cromlib/unpack_bytes.go\<close>, \<^verbatim>\<open>pack_bytes.go\<close>): compression in
    memory. \<open>packed_file\<close> is the contract between packers and unpackers: a header, a block
    table, a chunk table and frames whose chunks decode to the input.
  \<^item> \<open>Unpack_File\<close>, \<open>Pack_Chunk\<close>, \<open>Pack_File\<close>, \<open>Pack_Stream\<close> (\<^verbatim>\<open>pkg/cromlib/unpacker.go\<close>,
    \<^verbatim>\<open>compiler.go\<close>, \<^verbatim>\<open>compiler_stream.go\<close>): compression on disk, with the pool of workers, the first pass over the file, encryption,
    the embedded brain, the in-place rewriting of the metadata and the fallback to a copy
    (the contract \<open>copied\<close>). The packers meet one of the two contracts for every schedule (what a
    worker does is an instance of the locale \<open>worker\<close>), and the unpacker rebuilds the input
    from either. The file \<open>PackStream\<close> writes for an empty stream meets neither and is rejected.
  \<^item> \<open>Vfs_Cache\<close>, \<open>Vfs_Reader\<close> (\<^verbatim>\<open>internal/vfs/cache.go\<close>, \<^verbatim>\<open>reader.go\<close>, parts of \<^verbatim>\<open>fuse.go\<close>): random
    access to a packed file through a bounded cache, an instance of the locale \<open>keyed_store\<close>. A
    reader \<open>serves\<close> the blocks of a \<open>packed_file\<close> (or \<open>serves_copy\<close> of a \<open>copied\<close> one), every read
    keeps that and returns the bytes of the input.
  \<^item> \<open>Living_File\<close>, \<open>Wal_Race\<close> (\<^verbatim>\<open>internal/vfs/writer.go\<close>, \<^verbatim>\<open>pkg/cromlib/mutator.go\<close>): writes to a
    mounted file, buffered and appended as mutation records. \<open>logged\<close> relates buffer, file and
    history; the step relation \<open>wal_step\<close> splits a flush into its system calls.
  \<^item> \<open>Paths\<close>, \<open>Inode_Db\<close>, \<open>Tree_Mount\<close> (\<^verbatim>\<open>path/filepath\<close> as far as it is used, \<^verbatim>\<open>pkg/cromdb\<close>,
    \<^verbatim>\<open>internal/vfs/tree.go\<close>, \<open>Mount\<close> of \<^verbatim>\<open>fuse.go\<close>): the directory a mounted file appears in. The two
    indexes, over an SQL table and over a map, implement one specification (the locale
    \<open>tree_index\<close>); the handlers of a node found through the index behave as those of
    \<open>Living_File\<close>, which \<open>Mount\<close> itself does not install.

  \<^item> \<open>Trainer_Table\<close>, \<open>Bpe\<close>, \<open>Trainer\<close> (\<^verbatim>\<open>internal/trainer\<close>): from a directory to a codebook. The
    frequency table (an association list; its invariant \<open>ft_ok\<close> keys every entry by its hash),
    the greedy selection, byte-pair encoding, the second pass that reads the chosen chunks, and
    the written file, which is a \<open>good_codebook\<close> in the sense of \<open>Pack_File\<close> and numbers the
    selected patterns by bucket.

  \<^item> \<open>Sync_Manifest\<close>, \<open>Bitswap\<close>, \<open>Sync_Protocol\<close>, \<open>Sync_Session\<close> (\<^verbatim>\<open>pkg/sync/manifest.go\<close>,
    \<^verbatim>\<open>internal/network/bitswap.go\<close>, \<^verbatim>\<open>protocol.go\<close>): two nodes with the same codebook bring a file
    up to date. The walk over the blocks of a file with two callbacks that share a state is one
    function; the locale \<open>block_visitor\<close> proves it once for the three visitors of the code. A
    stream is the list of its bytes, and the peer of a client is any function from the bytes sent
    to the bytes answered: an honest peer (the handler on the files of another node) yields a
    file that unpacks to the remote input, no peer changes another file, no request reads one.
    Whether a stream opens and whether removing and renaming succeed is decided by \<open>SyncEnv\<close>;
    the client ignores the last two, and \<open>sync_replaces\<close> says what that leaves.

  \<^item> \<open>Auth\<close> (\<^verbatim>\<open>internal/network/auth.go\<close>): the handshake that admits a peer, as a function of the
    bytes it reads and as sessions interleaved over a network that delivers anything. Nonces are
    fresh, and nobody without the codebook produces a valid MAC of a message no holder computed one
    of (\<open>unforged\<close>, which says nothing of the content of the messages). That a proof answers a
    challenge of this node follows from what the code puts into the message: whoever is served has
    answered one with the same codebook.
  \<^item> \<open>Remote_Reader\<close>, \<open>Remote_Race\<close> (\<^verbatim>\<open>internal/remote/cloud.go\<close>): a file on a web server, read by
    pages through a cache (any instance of \<open>keyed_store\<close>). Server and cache are parameters; a
    server that honours ranges gives the bytes of the file. The step relation \<open>load_reach\<close> lets
    goroutines load pages at once: no page is loaded by two that registered it, nobody waits
    forever.
  \<^item> \<open>Grep\<close> (\<^verbatim>\<open>pkg/cromlib/grep.go\<close>): the search through the codebook reports the chunks whose
    codeword contains the text, with the right offsets and contents, and opens only the blocks of
    the first twenty of them.

  \<^bold>\<open>Bounds.\<close> The round trips hold for inputs below \<open>2^27\<close> bytes, where even a table of
  incompressible one-byte chunks fits its 32-bit length field, and for codebooks below \<open>2^60\<close>
  bytes, whose identifiers leave the flag bits of an entry free. No definition takes fuel.

  \<^bold>\<open>Limits of the model.\<close> Sizes given by the caller are unbounded where the code has 64-bit \<open>int\<close>s,
  so chunk sizes near \<open>2^63\<close>, for which sums wrap, are outside. Entropies are real numbers and not
  rounded. A panic of \<open>Pack\<close> leaves the files unchanged in the model; in the code the deferred
  function renames the partial file. Histories of \<open>CloudReader\<close> have no negative offsets. Reads and
  writes of temporary files do not fail. Sessions are stated for chunked files of at most \<open>2^22\<close>
  chunks (\<open>serves_file\<close>), training for corpora without hash collisions and base codewords of the
  chunk size (\<open>corpus_ok\<close>); what the code does beyond is among the findings of the manifest.

  \<^bold>\<open>Not modelled.\<close> The command line, metrics counters and progress output, the operating-system
  effects (locks, memory maps, tickers), the builds for CUDA and WebAssembly except the index of
  the latter, the start-up and callbacks of libp2p, the FUSE libraries themselves, and the
  automatic brain selection, which only chooses a codebook by names and samples.
\<close>

end
